(* ===== verification/Prelude.thy ===== *)
theory Prelude
  imports Main "HOL-Library.Word"
begin

text \<open>
  The vocabulary the component theories share.

  Rust values. Unsigned integers that carry amounts, gas, rounds and lengths are natural
  numbers; the width is written out in the operation that depends on it:
  \<open>checked_add\<close>, \<open>checked_mul\<close>, \<open>checked_sub\<close> return an option, \<open>sat_add\<close> and
  \<open>sat_mul\<close> stop at the largest value of the width, truncated subtraction on \<open>nat\<close> is
  \<open>saturating_sub\<close>, and \<open>wrap_add\<close> / \<open>wrap_mul\<close> / \<open>wrap_sub\<close> are the plain
  operators of a release build, in which the workspace does not enable overflow checks.
  Bytes are \<open>8 word\<close>; hashes and addresses are \<open>256 word\<close> and \<open>160 word\<close>, whose
  unsigned order is the lexicographic order of their big-endian bytes.

  Rust results. \<open>res\<close> has one constructor for a value, one for an error value and one for
  a panic (division by zero, index out of range, failed assertion).

  Machines. \<open>inv_machine\<close> and \<open>ranked_machine\<close> are the contracts of a component whose
  operations are the events of a transition function: an invariant every step keeps, and a
  rank that no step lowers. They are interpreted by the components.
\<close>

named_theorems u_arith \<open>unfolding rules of the machine-integer operations\<close>

section \<open>Types\<close>

type_synonym byte = "8 word"
type_synonym u32 = nat
type_synonym u64 = nat
type_synonym u128 = nat
type_synonym usize = nat
type_synonym address = "160 word"
type_synonym h256 = "256 word"

datatype ('e, 'a) res = Ok 'a | Err 'e | Panic

primrec bind_res :: "('e, 'a) res \<Rightarrow> ('a \<Rightarrow> ('e, 'b) res) \<Rightarrow> ('e, 'b) res" where
  "bind_res (Ok x) f = f x"
| "bind_res (Err e) f = Err e"
| "bind_res Panic f = Panic"

primrec is_Ok :: "('e, 'a) res \<Rightarrow> bool" where
  "is_Ok (Ok x) = True"
| "is_Ok (Err e) = False"
| "is_Ok Panic = False"

definition ok_or :: "'a option \<Rightarrow> 'e \<Rightarrow> ('e, 'a) res" where
  "ok_or x e = (case x of None \<Rightarrow> Err e | Some v \<Rightarrow> Ok v)"

text \<open>
  The \<open>?\<close> operator in a method that mutates its receiver: an error or a panic of \<open>m\<close>
  leaves the method with the state \<open>s\<close> it has reached.
\<close>

definition try_st :: "('e, 'a) res \<Rightarrow> 's \<Rightarrow> ('a \<Rightarrow> ('e, 'b) res \<times> 's) \<Rightarrow> ('e, 'b) res \<times> 's" where
  "try_st m s k = (case m of Ok x \<Rightarrow> k x | Err e \<Rightarrow> (Err e, s) | Panic \<Rightarrow> (Panic, s))"

lemma try_st_simps [simp]:
  "try_st (Ok x) s k = k x" "try_st (Err e) s k = (Err e, s)" "try_st Panic s k = (Panic, s)"
  by (simp_all add: try_st_def)

lemma try_st_Ok_iff [simp]:
  "try_st m s k = (Ok y, t) \<longleftrightarrow> (\<exists>x. m = Ok x \<and> k x = (Ok y, t))"
  by (cases m) auto

lemma try_st_cases:
  assumes "try_st m s k = (r, t)"
  obtains x where "m = Ok x" "k x = (r, t)"
    | e where "m = Err e" "r = Err e" "t = s"
    | "m = Panic" "r = Panic" "t = s"
  using assms by (cases m) auto

lemma bind_res_Ok_iff [simp]:
  "bind_res m f = Ok y \<longleftrightarrow> (\<exists>x. m = Ok x \<and> f x = Ok y)"
  by (cases m) auto

lemma bind_res_Panic_iff:
  "bind_res m f = Panic \<longleftrightarrow> m = Panic \<or> (\<exists>x. m = Ok x \<and> f x = Panic)"
  by (cases m) auto

lemma bind_res_Err_iff:
  "bind_res m f = Err e \<longleftrightarrow> m = Err e \<or> (\<exists>x. m = Ok x \<and> f x = Err e)"
  by (cases m) auto

lemma ok_or_Ok_iff [simp]: "ok_or x e = Ok v \<longleftrightarrow> x = Some v"
  by (cases x) (auto simp: ok_or_def)

lemma ok_or_not_Panic [simp]: "ok_or x e \<noteq> Panic"
  by (cases x) (auto simp: ok_or_def)

lemma ok_or_simps [simp]: "ok_or (Some v) e = Ok v" "ok_or None e = Err e"
  by (simp_all add: ok_or_def)

lemma is_Ok_iff: "is_Ok m \<longleftrightarrow> (\<exists>x. m = Ok x)"
  by (cases m) auto

section \<open>Machine integers on natural numbers\<close>

definition umax :: "nat \<Rightarrow> nat" where
  "umax w = 2 ^ w - 1"

definition checked_add :: "nat \<Rightarrow> nat \<Rightarrow> nat \<Rightarrow> nat option" where
  "checked_add w a b = (if a + b < 2 ^ w then Some (a + b) else None)"

definition checked_mul :: "nat \<Rightarrow> nat \<Rightarrow> nat \<Rightarrow> nat option" where
  "checked_mul w a b = (if a * b < 2 ^ w then Some (a * b) else None)"

definition checked_sub :: "nat \<Rightarrow> nat \<Rightarrow> nat option" where
  "checked_sub a b = (if b \<le> a then Some (a - b) else None)"

definition sat_add :: "nat \<Rightarrow> nat \<Rightarrow> nat \<Rightarrow> nat" where
  "sat_add w a b = min (a + b) (umax w)"

definition sat_mul :: "nat \<Rightarrow> nat \<Rightarrow> nat \<Rightarrow> nat" where
  "sat_mul w a b = min (a * b) (umax w)"

definition wrap_add :: "nat \<Rightarrow> nat \<Rightarrow> nat \<Rightarrow> nat" where
  "wrap_add w a b = (a + b) mod 2 ^ w"

definition wrap_mul :: "nat \<Rightarrow> nat \<Rightarrow> nat \<Rightarrow> nat" where
  "wrap_mul w a b = (a * b) mod 2 ^ w"

definition wrap_sub :: "nat \<Rightarrow> nat \<Rightarrow> nat \<Rightarrow> nat" where
  "wrap_sub w a b = (if b \<le> a then a - b else (a + 2 ^ w - b) mod 2 ^ w)"

text \<open>The cast \<open>as u64\<close> / \<open>as u32\<close> keeps the low bits.\<close>

definition cast :: "nat \<Rightarrow> nat \<Rightarrow> nat" where
  "cast w a = a mod 2 ^ w"

lemma checked_add_Some [simp]:
  "checked_add w a b = Some c \<longleftrightarrow> c = a + b \<and> a + b < 2 ^ w"
  by (auto simp: checked_add_def)

lemma checked_mul_Some [simp]:
  "checked_mul w a b = Some c \<longleftrightarrow> c = a * b \<and> a * b < 2 ^ w"
  by (auto simp: checked_mul_def)

lemma checked_sub_Some [simp]:
  "checked_sub a b = Some c \<longleftrightarrow> c = a - b \<and> b \<le> a"
  by (auto simp: checked_sub_def)

lemma wrap_add_exact [simp]: "a + b < 2 ^ w \<Longrightarrow> wrap_add w a b = a + b"
  by (simp add: wrap_add_def)

lemma wrap_mul_exact [simp]: "a * b < 2 ^ w \<Longrightarrow> wrap_mul w a b = a * b"
  by (simp add: wrap_mul_def)

lemma wrap_sub_exact [simp]: "b \<le> a \<Longrightarrow> wrap_sub w a b = a - b"
  by (simp add: wrap_sub_def)

lemma cast_exact [simp]: "a < 2 ^ w \<Longrightarrow> cast w a = a"
  by (simp add: cast_def)

lemma umax_less [simp]: "umax w < 2 ^ w"
  by (simp add: umax_def)

lemma le_umax_iff: "a \<le> umax w \<longleftrightarrow> a < 2 ^ w"
proof -
  have "(0::nat) < 2 ^ w" by simp
  then show ?thesis unfolding umax_def by arith
qed

lemma sat_add_exact [simp]: "a + b < 2 ^ w \<Longrightarrow> sat_add w a b = a + b"
  by (simp add: sat_add_def min_def le_umax_iff)

lemma sat_mul_exact [simp]: "a * b < 2 ^ w \<Longrightarrow> sat_mul w a b = a * b"
  by (simp add: sat_mul_def min_def le_umax_iff)

lemma sat_add_less [simp]: "sat_add w a b < 2 ^ w"
  by (metis sat_add_def min.cobounded2 le_umax_iff)

lemma sat_mul_less [simp]: "sat_mul w a b < 2 ^ w"
  by (metis sat_mul_def min.cobounded2 le_umax_iff)

lemma sat_add_le: "sat_add w a b \<le> a + b"
  by (simp add: sat_add_def)

lemma sat_mul_le: "sat_mul w a b \<le> a * b"
  by (simp add: sat_mul_def)

lemmas u_width_defs [u_arith] =
  checked_add_def checked_mul_def checked_sub_def sat_add_def sat_mul_def
  wrap_add_def wrap_mul_def wrap_sub_def cast_def umax_def

lemma or_push_bit_add:
  fixes a b :: nat
  assumes "a < 2 ^ n"
  shows "or a (push_bit n b) = a + 2 ^ n * b"
proof -
  have "a + push_bit n b = or a (push_bit n b)"
  proof (rule disjunctive_add)
    fix k
    have "take_bit n a = a" using assms by (simp add: take_bit_nat_eq_self_iff)
    then have "k \<ge> n \<Longrightarrow> \<not> bit a k" by (metis bit_take_bit_iff leD)
    then show "\<not> bit a k \<or> \<not> bit (push_bit n b) k"
      by (auto simp: bit_push_bit_iff)
  qed
  then show ?thesis by (simp add: push_bit_eq_mult mult.commute)
qed

section \<open>Slices and big-endian bytes\<close>

text \<open>\<open>&data[a..b]\<close> panics when the range does not lie inside the slice.\<close>

definition slice :: "'a list \<Rightarrow> usize \<Rightarrow> usize \<Rightarrow> ('e, 'a list) res" where
  "slice xs a b = (if a \<le> b \<and> b \<le> length xs then Ok (take (b - a) (drop a xs)) else Panic)"

lemma slice_Ok_iff [simp]:
  "slice xs a b = Ok ys \<longleftrightarrow> a \<le> b \<and> b \<le> length xs \<and> ys = take (b - a) (drop a xs)"
  by (auto simp: slice_def)

lemma slice_exact: "a \<le> b \<Longrightarrow> b \<le> length xs \<Longrightarrow> slice xs a b = Ok (take (b - a) (drop a xs))"
  by simp

lemma slice_Panic_iff: "slice xs a b = Panic \<longleftrightarrow> \<not> (a \<le> b \<and> b \<le> length xs)"
  by (simp add: slice_def)

lemma slice_not_Err [simp]: "slice xs a b \<noteq> Err e"
  by (simp add: slice_def)

fun be_bytes :: "nat \<Rightarrow> nat \<Rightarrow> byte list" where
  "be_bytes 0 n = []"
| "be_bytes (Suc k) n = be_bytes k (n div 256) @ [of_nat n]"

definition be_val :: "byte list \<Rightarrow> nat" where
  "be_val bs = foldl (\<lambda>v b. v * 256 + unat b) 0 bs"

lemma be_val_simps [simp]:
  "be_val [] = 0" "be_val (bs @ [b]) = be_val bs * 256 + unat b"
  by (simp_all add: be_val_def)

lemma length_be_bytes [simp]: "length (be_bytes k n) = k"
  by (induction k arbitrary: n) auto

lemma unat_byte_less [simp]: "unat (b :: byte) < 256"
  using unsigned_less[of b, where 'a = nat] by simp

lemma be_val_less: "be_val bs < 256 ^ length bs"
proof (induction bs rule: rev_induct)
  case (snoc b bs)
  have "be_val bs * 256 + unat b < (be_val bs + 1) * 256" using unat_byte_less[of b] by simp
  also have "\<dots> \<le> 256 ^ length bs * 256" using snoc by (intro mult_le_mono1) simp
  finally show ?case by simp
qed simp

lemma unat_of_nat_byte: "unat (of_nat n :: byte) = n mod 256"
  by (simp add: unat_of_nat take_bit_eq_mod)

lemma be_val_be_bytes: "be_val (be_bytes k n) = n mod 256 ^ k"
proof (induction k arbitrary: n)
  case (Suc k)
  have "n mod 256 ^ Suc k = 256 * (n div 256 mod 256 ^ k) + n mod 256"
    by (simp add: mod_mult2_eq)
  with Suc show ?case by (simp add: unat_of_nat_byte)
qed simp

lemma be_val_Cons: "be_val (b # bs) = unat b * 256 ^ length bs + be_val bs"
proof (induction bs rule: rev_induct)
  case (snoc c bs)
  have "be_val (b # bs @ [c]) = be_val (b # bs) * 256 + unat c"
    using be_val_simps(2)[of "b # bs" c] by simp
  with snoc show ?case by (simp add: algebra_simps)
qed (simp add: be_val_def)

lemma be_val_dropWhile: "be_val (dropWhile (\<lambda>b. b = 0) bs) = be_val bs"
  by (induction bs) (auto simp: be_val_Cons)

text \<open>A number of at most \<open>k\<close> bytes; words as the big-endian bytes the source hashes.\<close>

definition fits :: "nat \<Rightarrow> nat \<Rightarrow> bool" where
  "fits k n \<longleftrightarrow> n < 256 ^ k"

definition addr_bytes :: "address \<Rightarrow> byte list" where
  "addr_bytes a = be_bytes 20 (unat a)"

definition h256_bytes :: "h256 \<Rightarrow> byte list" where
  "h256_bytes h = be_bytes 32 (unat h)"

lemma be_bytes_inj: "fits k m \<Longrightarrow> fits k n \<Longrightarrow> be_bytes k m = be_bytes k n \<Longrightarrow> m = n"
  by (metis be_val_be_bytes fits_def mod_less)

lemma length_word_bytes [simp]: "length (addr_bytes a) = 20" "length (h256_bytes h) = 32"
  by (simp_all add: addr_bytes_def h256_bytes_def)

lemma addr_bytes_inj [simp]: "addr_bytes a = addr_bytes b \<longleftrightarrow> a = b"
proof
  assume "addr_bytes a = addr_bytes b"
  moreover have "fits 20 (unat x)" for x :: address
    using unsigned_less[of x, where 'a = nat] by (simp add: fits_def)
  ultimately have "unat a = unat b" unfolding addr_bytes_def by (metis be_bytes_inj)
  then show "a = b" by (simp only: word_unat_eq_iff)
qed simp

lemma h256_bytes_inj [simp]: "h256_bytes a = h256_bytes b \<longleftrightarrow> a = b"
proof
  assume "h256_bytes a = h256_bytes b"
  moreover have "fits 32 (unat x)" for x :: h256
    using unsigned_less[of x, where 'a = nat] by (simp add: fits_def)
  ultimately have "unat a = unat b" unfolding h256_bytes_def by (metis be_bytes_inj)
  then show "a = b" by (simp only: word_unat_eq_iff)
qed simp

section \<open>Codecs\<close>

text \<open>
  The contract of an encoder and a decoder: every valid value decodes from its encoding. A
  client may then rely on distinct values having distinct encodings.
\<close>

locale codec =
  fixes enc :: "'a \<Rightarrow> byte list"
    and dec :: "byte list \<Rightarrow> ('e, 'a) res"
    and valid :: "'a \<Rightarrow> bool"
  assumes dec_enc: "valid x \<Longrightarrow> dec (enc x) = Ok x"
begin

lemma enc_inj: "valid x \<Longrightarrow> valid y \<Longrightarrow> enc x = enc y \<Longrightarrow> x = y"
  by (metis dec_enc res.inject(1))

end

section \<open>Machines\<close>

locale inv_machine =
  fixes step :: "'s \<Rightarrow> 'e \<Rightarrow> 's"
    and inv :: "'s \<Rightarrow> bool"
    and good :: "'e \<Rightarrow> bool"
  assumes inv_step: "inv s \<Longrightarrow> good e \<Longrightarrow> inv (step s e)"
begin

lemma inv_run: "inv s \<Longrightarrow> list_all good es \<Longrightarrow> inv (foldl step s es)"
  by (induction es arbitrary: s) (auto intro: inv_step)

end

locale ranked_machine = inv_machine +
  fixes rank :: "'s \<Rightarrow> nat"
  assumes rank_step: "inv s \<Longrightarrow> good e \<Longrightarrow> rank s \<le> rank (step s e)"
begin

lemma rank_run: "inv s \<Longrightarrow> list_all good es \<Longrightarrow> rank s \<le> rank (foldl step s es)"
proof (induction es arbitrary: s)
  case (Cons e es)
  then have "rank s \<le> rank (step s e)" and "inv (step s e)"
    by (auto intro: rank_step inv_step)
  with Cons show ?case by (auto intro: order_trans)
qed simp

end

end
