(* ===== verification/Uint.thy ===== *)
theory Uint
  imports Prelude
begin

text \<open>
  The 256-bit integer of \<open>zbx-primitives/src/uint.rs\<close>: four little-endian 64-bit limbs, as the
  Rust tuple struct \<open>U256([u64; 4])\<close> has them. The limb loops of addition and subtraction are
  recursions that thread the carry or the borrow; \<open>uval\<close> is the number the limbs stand for.
  Addition and subtraction are shown to be the arithmetic of that number with an exact
  carry / borrow flag; multiplication is shown to be the low 128 bits only, with a flag that is
  never set, and the derived order is shown to compare the least significant limb first.
\<close>

type_synonym u256 = "u64 list"

definition wf_u256 :: "u256 \<Rightarrow> bool" where
  "wf_u256 a \<longleftrightarrow> length a = 4 \<and> list_all (\<lambda>x. x < 2 ^ 64) a"

fun uval :: "u256 \<Rightarrow> nat" where
  "uval [] = 0"
| "uval (x # xs) = x + 2 ^ 64 * uval xs"

definition u256_ZERO :: u256 where "u256_ZERO = [0, 0, 0, 0]"

definition u256_MAX :: u256 where
  "u256_MAX = [umax 64, umax 64, umax 64, umax 64]"

definition from_u64 :: "u64 \<Rightarrow> u256" where
  "from_u64 v = [v, 0, 0, 0]"

definition from_u128 :: "u128 \<Rightarrow> u256" where
  "from_u128 v = [cast 64 v, cast 64 (drop_bit 64 v), 0, 0]"

definition as_u128_lossy :: "u256 \<Rightarrow> u128" where
  "as_u128_lossy a = or (a ! 0) (push_bit 64 (a ! 1))"

definition ovf_add64 :: "u64 \<Rightarrow> u64 \<Rightarrow> u64 \<times> bool" where
  "ovf_add64 a b = (wrap_add 64 a b, 2 ^ 64 \<le> a + b)"

definition ovf_sub64 :: "u64 \<Rightarrow> u64 \<Rightarrow> u64 \<times> bool" where
  "ovf_sub64 a b = (wrap_sub 64 a b, a < b)"

fun add_limbs :: "nat \<Rightarrow> u256 \<Rightarrow> u256 \<Rightarrow> u256 \<times> nat" where
  "add_limbs carry (x # xs) (y # ys) =
     (let (s1, c1) = ovf_add64 x y;
          (s2, c2) = ovf_add64 s1 carry;
          (r, c) = add_limbs (of_bool c1 + of_bool c2) xs ys
      in (s2 # r, c))"
| "add_limbs carry _ _ = ([], carry)"

definition u256_overflowing_add :: "u256 \<Rightarrow> u256 \<Rightarrow> u256 \<times> bool" where
  "u256_overflowing_add a b = (let (r, c) = add_limbs 0 a b in (r, c \<noteq> 0))"

fun sub_limbs :: "nat \<Rightarrow> u256 \<Rightarrow> u256 \<Rightarrow> u256 \<times> nat" where
  "sub_limbs borrow (x # xs) (y # ys) =
     (let (s1, b1) = ovf_sub64 x y;
          (s2, b2) = ovf_sub64 s1 borrow;
          (r, b) = sub_limbs (of_bool b1 + of_bool b2) xs ys
      in (s2 # r, b))"
| "sub_limbs borrow _ _ = ([], borrow)"

definition u256_overflowing_sub :: "u256 \<Rightarrow> u256 \<Rightarrow> u256 \<times> bool" where
  "u256_overflowing_sub a b = (let (r, c) = sub_limbs 0 a b in (r, c \<noteq> 0))"

definition u256_saturating_add :: "u256 \<Rightarrow> u256 \<Rightarrow> u256" where
  "u256_saturating_add a b = (let (r, c) = u256_overflowing_add a b in if c then u256_MAX else r)"

definition u256_saturating_sub :: "u256 \<Rightarrow> u256 \<Rightarrow> u256" where
  "u256_saturating_sub a b = (let (r, c) = u256_overflowing_sub a b in if c then u256_ZERO else r)"

definition u256_checked_add :: "u256 \<Rightarrow> u256 \<Rightarrow> u256 option" where
  "u256_checked_add a b = (let (r, c) = u256_overflowing_add a b in if c then None else Some r)"

definition u256_checked_sub :: "u256 \<Rightarrow> u256 \<Rightarrow> u256 option" where
  "u256_checked_sub a b = (let (r, c) = u256_overflowing_sub a b in if c then None else Some r)"

definition u256_overflowing_mul :: "u256 \<Rightarrow> u256 \<Rightarrow> u256 \<times> bool" where
  "u256_overflowing_mul x y =
     (let a = or (x ! 0) (push_bit 64 (x ! 1));
          b = or (y ! 0) (push_bit 64 (y ! 1));
          r = wrap_mul 128 a b
      in (from_u128 r, False))"

text \<open>The derived \<open>PartialOrd\<close> of an array compares index 0 first.\<close>

fun u256_less :: "u256 \<Rightarrow> u256 \<Rightarrow> bool" where
  "u256_less (x # xs) (y # ys) = (if x = y then u256_less xs ys else x < y)"
| "u256_less [] ys = (ys \<noteq> [])"
| "u256_less (x # xs) [] = False"

section \<open>Limb arithmetic\<close>

lemma ovf_add64_val:
  assumes "a < 2 ^ 64" "b < 2 ^ 64" "ovf_add64 a b = (s, c)"
  shows "s + 2 ^ 64 * of_bool c = a + b \<and> s < 2 ^ 64"
proof (cases "a + b < 2 ^ 64")
  case True
  with assms(3) show ?thesis by (auto simp: ovf_add64_def)
next
  case False
  then have "(a + b) mod 2 ^ 64 = a + b - 2 ^ 64"
    using assms(1,2) by (simp add: mod_if)
  with False assms show ?thesis by (auto simp: ovf_add64_def wrap_add_def)
qed

lemma ovf_sub64_val:
  assumes "a < 2 ^ 64" "b < 2 ^ 64" "ovf_sub64 a b = (s, c)"
  shows "s + b = a + 2 ^ 64 * of_bool c \<and> s < 2 ^ 64"
  using assms by (auto simp: ovf_sub64_def wrap_sub_def mod_if)

lemma add_limb_step:
  assumes "x < 2 ^ 64" "y < 2 ^ 64" "carry \<le> 1"
    and "ovf_add64 x y = (s1, c1)" "ovf_add64 s1 carry = (s2, c2)"
  shows "s2 + 2 ^ 64 * (of_bool c1 + of_bool c2) = x + y + carry"
    and "of_bool c1 + of_bool c2 \<le> (1::nat)" and "s2 < 2 ^ 64"
proof -
  have 1: "s1 + 2 ^ 64 * of_bool c1 = x + y" "s1 < 2 ^ 64"
    using ovf_add64_val[OF assms(1,2,4)] by auto
  have 2: "s2 + 2 ^ 64 * of_bool c2 = s1 + carry" "s2 < 2 ^ 64"
    using ovf_add64_val[OF _ _ assms(5)] 1(2) assms(3) by auto
  show "s2 + 2 ^ 64 * (of_bool c1 + of_bool c2) = x + y + carry"
    using 1(1) 2(1) by (simp add: distrib_left)
  then show "of_bool c1 + of_bool c2 \<le> (1::nat)"
    using assms(1-3) by (cases c1; cases c2) auto
  show "s2 < 2 ^ 64" by (rule 2)
qed

lemma sub_limb_step:
  assumes "x < 2 ^ 64" "y < 2 ^ 64" "borrow \<le> 1"
    and "ovf_sub64 x y = (s1, c1)" "ovf_sub64 s1 borrow = (s2, c2)"
  shows "s2 + y + borrow = x + 2 ^ 64 * (of_bool c1 + of_bool c2)"
    and "of_bool c1 + of_bool c2 \<le> (1::nat)" and "s2 < 2 ^ 64"
proof -
  have 1: "s1 + y = x + 2 ^ 64 * of_bool c1" "s1 < 2 ^ 64"
    using ovf_sub64_val[OF assms(1,2,4)] by auto
  have 2: "s2 + borrow = s1 + 2 ^ 64 * of_bool c2" "s2 < 2 ^ 64"
    using ovf_sub64_val[OF _ _ assms(5)] 1(2) assms(3) by auto
  show "s2 + y + borrow = x + 2 ^ 64 * (of_bool c1 + of_bool c2)"
    using 1(1) 2(1) by (simp add: distrib_left)
  then show "of_bool c1 + of_bool c2 \<le> (1::nat)"
    using assms(1-3) 2(2) by (cases c1; cases c2) auto
  show "s2 < 2 ^ 64" by (rule 2)
qed

lemma uval_less: "list_all (\<lambda>x. x < 2 ^ 64) a \<Longrightarrow> uval a < 2 ^ (64 * length a)"
proof (induction a)
  case (Cons x xs)
  then have "uval xs + 1 \<le> 2 ^ (64 * length xs)" and "x < 2 ^ 64" by auto
  then have "2 ^ 64 * (uval xs + 1) \<le> 2 ^ 64 * (2::nat) ^ (64 * length xs)"
    by (intro mult_le_mono2)
  with \<open>x < 2 ^ 64\<close> show ?case
    unfolding uval.simps by (simp add: power_add algebra_simps)
qed simp

lemma add_limbs_val:
  assumes "list_all (\<lambda>x. x < 2 ^ 64) a" "list_all (\<lambda>x. x < 2 ^ 64) b"
    and "length a = length b" "carry \<le> 1" "add_limbs carry a b = (r, c)"
  shows "uval r + 2 ^ (64 * length a) * c = uval a + uval b + carry
    \<and> c \<le> 1 \<and> length r = length a \<and> list_all (\<lambda>x. x < 2 ^ 64) r"
  using assms(3,1,2,4,5)
proof (induction a b arbitrary: carry r c rule: list_induct2)
  case (Cons x xs y ys)
  obtain s1 c1 where s1: "ovf_add64 x y = (s1, c1)" by force
  obtain s2 c2 where s2: "ovf_add64 s1 carry = (s2, c2)" by force
  obtain r' where r': "add_limbs (of_bool c1 + of_bool c2) xs ys = (r', c)" "r = s2 # r'"
    using Cons.prems(4) s1 s2 by (auto split: prod.splits)
  have lt: "x < 2 ^ 64" "y < 2 ^ 64" using Cons.prems by auto
  note st = add_limb_step[OF lt Cons.prems(3) s1 s2]
  have IH: "uval r' + 2 ^ (64 * length xs) * c
      = uval xs + uval ys + (of_bool c1 + of_bool c2) \<and> c \<le> 1
      \<and> length r' = length xs \<and> list_all (\<lambda>x. x < 2 ^ 64) r'"
    using Cons.IH[OF _ _ st(2) r'(1)] Cons.prems(1,2) by simp
  have "uval r + 2 ^ (64 * length (x # xs)) * c
      = s2 + 2 ^ 64 * (uval r' + 2 ^ (64 * length xs) * c)"
    by (simp add: r' power_add algebra_simps)
  also have "\<dots> = (s2 + 2 ^ 64 * (of_bool c1 + of_bool c2)) + 2 ^ 64 * (uval xs + uval ys)"
    using IH by (simp only: distrib_left)
  also have "s2 + 2 ^ 64 * (of_bool c1 + of_bool c2) = x + y + carry"
    by (rule st(1))
  finally show ?case using IH st(3) r'(2) by simp
qed simp

lemma sub_limbs_val:
  assumes "list_all (\<lambda>x. x < 2 ^ 64) a" "list_all (\<lambda>x. x < 2 ^ 64) b"
    and "length a = length b" "borrow \<le> 1" "sub_limbs borrow a b = (r, c)"
  shows "uval r + uval b + borrow = uval a + 2 ^ (64 * length a) * c
    \<and> c \<le> 1 \<and> length r = length a \<and> list_all (\<lambda>x. x < 2 ^ 64) r"
  using assms(3,1,2,4,5)
proof (induction a b arbitrary: borrow r c rule: list_induct2)
  case (Cons x xs y ys)
  obtain s1 c1 where s1: "ovf_sub64 x y = (s1, c1)" by force
  obtain s2 c2 where s2: "ovf_sub64 s1 borrow = (s2, c2)" by force
  obtain r' where r': "sub_limbs (of_bool c1 + of_bool c2) xs ys = (r', c)" "r = s2 # r'"
    using Cons.prems(4) s1 s2 by (auto split: prod.splits)
  have lt: "x < 2 ^ 64" "y < 2 ^ 64" using Cons.prems by auto
  note st = sub_limb_step[OF lt Cons.prems(3) s1 s2]
  have IH: "uval r' + uval ys + (of_bool c1 + of_bool c2)
      = uval xs + 2 ^ (64 * length xs) * c \<and> c \<le> 1
      \<and> length r' = length xs \<and> list_all (\<lambda>x. x < 2 ^ 64) r'"
    using Cons.IH[OF _ _ st(2) r'(1)] Cons.prems(1,2) by simp
  have "uval r + uval (y # ys) + borrow = (s2 + y + borrow) + 2 ^ 64 * (uval r' + uval ys)"
    by (simp add: r' algebra_simps)
  also have "s2 + y + borrow = x + 2 ^ 64 * (of_bool c1 + of_bool c2)"
    by (rule st(1))
  also have "x + 2 ^ 64 * (of_bool c1 + of_bool c2) + 2 ^ 64 * (uval r' + uval ys)
      = x + 2 ^ 64 * (uval r' + uval ys + (of_bool c1 + of_bool c2))"
    by (simp add: algebra_simps)
  also have "\<dots> = uval (x # xs) + 2 ^ (64 * length (x # xs)) * c"
    using IH by (simp add: power_add algebra_simps)
  finally show ?case using IH st(3) r'(2) by simp
qed simp

section \<open>Values of the operations\<close>

lemma wf_u256_cases:
  assumes "wf_u256 a"
  obtains a0 a1 a2 a3 where "a = [a0, a1, a2, a3]"
    "a0 < 2 ^ 64" "a1 < 2 ^ 64" "a2 < 2 ^ 64" "a3 < 2 ^ 64"
proof -
  have "length a = Suc (Suc (Suc (Suc 0)))" using assms by (simp add: wf_u256_def)
  then obtain a0 a1 a2 a3 where "a = [a0, a1, a2, a3]" by (auto simp: length_Suc_conv)
  with assms that show ?thesis by (simp add: wf_u256_def)
qed

lemma uval_wf: "wf_u256 a \<Longrightarrow> uval a < 2 ^ 256"
  using uval_less[of a] by (simp add: wf_u256_def)

lemma wf_from_u128: "wf_u256 (from_u128 v)"
  by (simp add: wf_u256_def from_u128_def cast_def)

lemma uval_from_u128: "v < 2 ^ 128 \<Longrightarrow> uval (from_u128 v) = v"
proof -
  assume "v < 2 ^ 128"
  then have "v div 2 ^ 64 < 2 ^ 64" by (simp add: less_mult_imp_div_less)
  then show ?thesis by (simp add: from_u128_def cast_def drop_bit_eq_div)
qed

lemma low128_val:
  assumes "wf_u256 a"
  shows "or (a ! 0) (push_bit 64 (a ! 1)) = uval a mod 2 ^ 128"
proof -
  obtain a0 a1 a2 a3 where a: "a = [a0, a1, a2, a3]" "a0 < 2 ^ 64" "a1 < 2 ^ 64"
    using wf_u256_cases[OF assms] by metis
  have "uval a = (a0 + 2 ^ 64 * a1) + 2 ^ 128 * (a2 + 2 ^ 64 * a3)"
    by (simp add: a algebra_simps)
  moreover have "a0 + 2 ^ 64 * a1 < 2 ^ 128" using a by simp
  ultimately have "uval a mod 2 ^ 128 = a0 + 2 ^ 64 * a1"
    by (metis mod_less mod_mult_self2)
  then show ?thesis using or_push_bit_add[OF a(2), of a1] by (simp add: a(1))
qed

lemma u256_add_val:
  assumes "wf_u256 a" "wf_u256 b" "u256_overflowing_add a b = (r, c)"
  shows "uval r + (if c then 2 ^ 256 else 0) = uval a + uval b" "wf_u256 r"
proof -
  obtain k where k: "add_limbs 0 a b = (r, k)" "c = (k \<noteq> 0)"
    using assms(3) by (auto simp: u256_overflowing_add_def split: prod.splits)
  have "uval r + 2 ^ (64 * length a) * k = uval a + uval b + 0
      \<and> k \<le> 1 \<and> length r = length a \<and> list_all (\<lambda>x. x < 2 ^ 64) r"
    by (rule add_limbs_val[OF _ _ _ _ k(1)]) (use assms in \<open>auto simp: wf_u256_def\<close>)
  moreover have "length a = 4" using assms by (simp add: wf_u256_def)
  ultimately show "uval r + (if c then 2 ^ 256 else 0) = uval a + uval b" "wf_u256 r"
    using k(2) by (auto simp: wf_u256_def le_Suc_eq)
qed

lemma u256_sub_val:
  assumes "wf_u256 a" "wf_u256 b" "u256_overflowing_sub a b = (r, c)"
  shows "uval r + uval b = uval a + (if c then 2 ^ 256 else 0)" "wf_u256 r"
proof -
  obtain k where k: "sub_limbs 0 a b = (r, k)" "c = (k \<noteq> 0)"
    using assms(3) by (auto simp: u256_overflowing_sub_def split: prod.splits)
  have "uval r + uval b + 0 = uval a + 2 ^ (64 * length a) * k
      \<and> k \<le> 1 \<and> length r = length a \<and> list_all (\<lambda>x. x < 2 ^ 64) r"
    by (rule sub_limbs_val[OF _ _ _ _ k(1)]) (use assms in \<open>auto simp: wf_u256_def\<close>)
  moreover have "length a = 4" using assms by (simp add: wf_u256_def)
  ultimately show "uval r + uval b = uval a + (if c then 2 ^ 256 else 0)" "wf_u256 r"
    using k(2) by (auto simp: wf_u256_def le_Suc_eq)
qed

lemma u256_sub_flag:
  assumes "wf_u256 a" "wf_u256 b" "u256_overflowing_sub a b = (r, c)"
  shows "c \<longleftrightarrow> uval a < uval b"
  using u256_sub_val[OF assms] uval_wf[of r] uval_wf[OF assms(2)] by (auto split: if_splits)

lemma u256_saturating_sub_val:
  assumes "wf_u256 a" "wf_u256 b"
  shows "uval (u256_saturating_sub a b) = uval a - uval b" "wf_u256 (u256_saturating_sub a b)"
proof -
  obtain r c where r: "u256_overflowing_sub a b = (r, c)" by force
  show "uval (u256_saturating_sub a b) = uval a - uval b" "wf_u256 (u256_saturating_sub a b)"
    using u256_sub_val[OF assms r] u256_sub_flag[OF assms r]
    by (auto simp: u256_saturating_sub_def r u256_ZERO_def wf_u256_def)
qed

lemma u256_mul_val:
  assumes "wf_u256 a" "wf_u256 b" "u256_overflowing_mul a b = (r, c)"
  shows "uval r = (uval a mod 2 ^ 128) * (uval b mod 2 ^ 128) mod 2 ^ 128" "\<not> c" "wf_u256 r"
  using assms low128_val[OF assms(1)] low128_val[OF assms(2)]
  by (auto simp: u256_overflowing_mul_def Let_def wrap_mul_def uval_from_u128 wf_from_u128)

section \<open>Properties\<close>

text \<open>
  \<open>U256::overflowing_add\<close> and \<open>U256::overflowing_sub\<close>, computed limb by limb with a
  carry and a borrow, are addition and subtraction of the 256-bit numbers: the limbs
  returned are well formed, the value and the flag together are the exact sum (difference), and
  the flag is set exactly when the result leaves the 256-bit range.
\<close>

theorem u256_add_sub_exact:
  assumes "wf_u256 a" "wf_u256 b"
    and "u256_overflowing_add a b = (s, c)" "u256_overflowing_sub a b = (d, w)"
  shows "wf_u256 s \<and> wf_u256 d
    \<and> uval s = (uval a + uval b) mod 2 ^ 256 \<and> (c \<longleftrightarrow> 2 ^ 256 \<le> uval a + uval b)
    \<and> int (uval d) = (int (uval a) - int (uval b)) mod 2 ^ 256 \<and> (w \<longleftrightarrow> uval a < uval b)"
proof -
  note A = u256_add_val[OF assms(1-3)] and S = u256_sub_val[OF assms(1,2,4)]
  have lt: "uval s < 2 ^ 256" "uval d < 2 ^ 256" by (rule uval_wf, rule A S)+
  have c: "c \<longleftrightarrow> 2 ^ 256 \<le> uval a + uval b" using A(1) lt(1) by (auto split: if_splits)
  have s: "uval s = (uval a + uval b) mod 2 ^ 256"
  proof (cases c)
    case True
    then have "uval a + uval b = uval s + 2 ^ 256" using A(1) by simp
    then show ?thesis using lt(1) by (simp only: mod_add_self2 mod_less)
  next
    case False
    then show ?thesis using A(1) lt(1) by simp
  qed
  have "int (uval a) - int (uval b) = int (uval d) - (if w then 2 ^ 256 else 0)"
    using S(1) by (auto split: if_splits)
  then have "(int (uval a) - int (uval b)) mod 2 ^ 256 = int (uval d) mod 2 ^ 256"
    by (simp only: minus_mod_self2 diff_0_right split: if_split) simp
  also have "\<dots> = int (uval d)" using lt(2) by simp
  finally show ?thesis using A(2) S(2) c s u256_sub_flag[OF assms(1,2,4)] by simp
qed

theorem u256_add_sub_exact_witness:
  "uval (fst (u256_overflowing_add [5, 0, 0, 0] [umax 64, 0, 0, 0])) = 2 ^ 64 + 4
   \<and> snd (u256_overflowing_sub [5, 0, 0, 0] [umax 64, 0, 0, 0])"
proof -
  have wf: "wf_u256 [5, 0, 0, 0]" "wf_u256 [umax 64, 0, 0, 0]"
    by (simp_all add: wf_u256_def umax_def)
  show ?thesis
    using u256_add_sub_exact[OF wf prod.collapse[symmetric] prod.collapse[symmetric]]
    by (simp add: umax_def)
qed

end
