(* ===== verification/Fees.thy ===== *)
theory Fees
  imports Uint
begin

text \<open>
  Fee market and block rewards: \<open>zbx-fee/src/base_fee.rs\<close> (EIP-1559 base fee, effective gas
  price, validator tip), \<open>zbx-rewards/src/block_reward.rs\<close> (halving schedule, reward split, the
  128-by-64-bit basis-point routine) and \<open>zbx-rewards/src/fee_distribution.rs\<close> (burn and tip on
  the \<open>U256\<close> of theory Uint). Division by a zero gas target is the panic it is in Rust.
\<close>

section \<open>Base fee\<close>

datatype fee_error =
    BaseFeeOverflow
  | GasLimitExceeded u64 u64
  | FeeHistoryRangeTooLarge u64 u64
  | InsufficientTip u64 u64
  | MaxFeeBelowBaseFee u64 u64

definition BASE_FEE_CHANGE_DENOMINATOR :: u64 where "BASE_FEE_CHANGE_DENOMINATOR = 8"
definition ELASTICITY_MULTIPLIER :: u64 where "ELASTICITY_MULTIPLIER = 2"
definition MIN_BASE_FEE :: u64 where "MIN_BASE_FEE = 7"

definition next_base_fee :: "u64 \<Rightarrow> u64 \<Rightarrow> u64 \<Rightarrow> (fee_error, u64) res" where
  "next_base_fee parent_base_fee parent_gas_used parent_gas_limit =
     (let gas_target = parent_gas_limit div ELASTICITY_MULTIPLIER in
      bind_res
       (if parent_gas_used = gas_target then Ok parent_base_fee
        else if gas_target < parent_gas_used then
          (if gas_target = 0 then Panic
           else
            (let gas_delta = parent_gas_used - gas_target;
                 fee_delta = sat_mul 128 parent_base_fee gas_delta div gas_target
                               div BASE_FEE_CHANGE_DENOMINATOR;
                 fee_delta' = cast 64 (max fee_delta 1)
             in ok_or (checked_add 64 parent_base_fee fee_delta') BaseFeeOverflow))
        else
          (let gas_delta = gas_target - parent_gas_used;
               fee_delta = sat_mul 128 parent_base_fee gas_delta div gas_target
                             div BASE_FEE_CHANGE_DENOMINATOR
           in Ok (parent_base_fee - cast 64 fee_delta)))
       (\<lambda>nxt. Ok (max nxt MIN_BASE_FEE)))"

definition effective_gas_price :: "u64 \<Rightarrow> u64 \<Rightarrow> u64 \<Rightarrow> (fee_error, u64) res" where
  "effective_gas_price base_fee max_fee_per_gas max_priority_fee_per_gas =
     (if max_fee_per_gas < base_fee then Err (MaxFeeBelowBaseFee max_fee_per_gas base_fee)
      else (let tip = min max_priority_fee_per_gas (max_fee_per_gas - base_fee)
            in Ok (wrap_add 64 base_fee tip)))"

definition miner_tip :: "u64 \<Rightarrow> u64 \<Rightarrow> u64 \<Rightarrow> u64" where
  "miner_tip base_fee max_fee_per_gas max_priority_fee_per_gas =
     min max_priority_fee_per_gas (max_fee_per_gas - base_fee)"

lemmas fee_consts [simp] =
  BASE_FEE_CHANGE_DENOMINATOR_def ELASTICITY_MULTIPLIER_def MIN_BASE_FEE_def

text \<open>The share of the base fee moved by a gas delta never exceeds an eighth of it.\<close>

lemma fee_delta_le:
  fixes fee d t :: nat
  assumes "d \<le> t"
  shows "fee * d div t div 8 \<le> fee div 8"
proof -
  have "fee * d div t \<le> fee * t div t" using assms by (intro div_le_mono mult_le_mono2)
  also have "\<dots> \<le> fee" by (cases "t = 0") auto
  finally show ?thesis by (rule div_le_mono)
qed

lemma fee_mul_small: "fee < 2 ^ 64 \<Longrightarrow> d < 2 ^ 64 \<Longrightarrow> fee * d < (2::nat) ^ 128"
proof -
  assume "fee < 2 ^ 64" "d < 2 ^ 64"
  then have "fee * d < 2 ^ 64 * 2 ^ 64" by (intro mult_strict_mono) auto
  then show ?thesis by simp
qed

section \<open>Block rewards\<close>

definition INITIAL_REWARD :: u128 where "INITIAL_REWARD = 3000000000000000000"
definition HALVING_INTERVAL :: u64 where "HALVING_INTERVAL = 25000000"
definition VALIDATOR_BPS :: u64 where "VALIDATOR_BPS = 8000"
definition STAKER_BPS :: u64 where "STAKER_BPS = 1500"
definition FOUNDATION_BPS :: u64 where "FOUNDATION_BPS = 500"
definition MAX_REWARD_PER_BLOCK :: u128 where "MAX_REWARD_PER_BLOCK = push_bit 120 1"

record block_reward =
  block_number :: u64
  br_validator :: address
  total_reward :: u256
  validator_reward :: u256
  staker_reward :: u256
  foundation_reward :: u256
  fee_reward :: u256
  halving_epoch :: u32

datatype reward_error = RewardOverflow

definition base_reward_u128 :: "u64 \<Rightarrow> u128" where
  "base_reward_u128 block =
     (let halvings = block div HALVING_INTERVAL
      in if halvings \<ge> 64 then 0 else drop_bit halvings INITIAL_REWARD)"

text \<open>\<open>mul_u128_split\<close> returns the low and the high 128 bits of a product.\<close>

definition mul_u128_split :: "u128 \<Rightarrow> u128 \<Rightarrow> u128 \<times> u128" where
  "mul_u128_split a b =
     (let a_lo = cast 64 a; a_hi = drop_bit 64 a;
          b_lo = cast 64 b; b_hi = drop_bit 64 b;
          ll = wrap_mul 128 a_lo b_lo; lh = wrap_mul 128 a_lo b_hi;
          hl = wrap_mul 128 a_hi b_lo; hh = wrap_mul 128 a_hi b_hi;
          mid = wrap_add 128 (wrap_add 128 (drop_bit 64 ll) (and lh (umax 64))) (and hl (umax 64));
          lo = or (and ll (umax 64)) (push_bit 64 mid mod 2 ^ 128);
          hi = wrap_add 128 (wrap_add 128 (wrap_add 128 hh (drop_bit 64 lh)) (drop_bit 64 hl))
                 (drop_bit 64 mid)
      in (lo, hi))"

definition div_by_10000 :: "u128 \<Rightarrow> u128 \<Rightarrow> u128" where
  "div_by_10000 lo hi =
     (let rem = hi mod 10000;
          lo_hi = drop_bit 64 lo; lo_lo = and lo (umax 64);
          n1 = or (push_bit 64 rem mod 2 ^ 128) lo_hi;
          q1 = n1 div 10000;
          rem' = n1 mod 10000;
          n0 = or (push_bit 64 rem' mod 2 ^ 128) lo_lo;
          q0 = n0 div 10000
      in or (push_bit 64 q1 mod 2 ^ 128) q0)"

definition bps :: "u128 \<Rightarrow> u64 \<Rightarrow> u128" where
  "bps v b = (let (lo, hi) = mul_u128_split v b in div_by_10000 lo hi)"

definition compute_checked ::
  "u64 \<Rightarrow> address \<Rightarrow> u64 \<Rightarrow> u128 \<Rightarrow> (reward_error, block_reward) res" where
  "compute_checked block validator gas_used priority_fee =
     (let base = base_reward_u128 block in
      bind_res (ok_or (checked_mul 128 gas_used priority_fee) RewardOverflow) (\<lambda>fee.
      bind_res (ok_or (checked_add 128 base fee) RewardOverflow) (\<lambda>total.
      if total > MAX_REWARD_PER_BLOCK then Err RewardOverflow
      else
       (let vr = bps total VALIDATOR_BPS;
            sr = bps total STAKER_BPS;
            fr = total - vr - sr
        in Ok \<lparr> block_number = block, br_validator = validator,
                total_reward = from_u128 total, validator_reward = from_u128 vr,
                staker_reward = from_u128 sr, foundation_reward = from_u128 fr,
                fee_reward = from_u128 fee,
                halving_epoch = cast 32 (block div HALVING_INTERVAL) \<rparr>))))"

definition compute :: "u64 \<Rightarrow> address \<Rightarrow> u64 \<Rightarrow> u256 \<Rightarrow> block_reward" where
  "compute block validator gas_used priority_fee =
     (let pfee = as_u128_lossy priority_fee;
          m = MAX_REWARD_PER_BLOCK in
      case compute_checked block validator gas_used pfee of
        Ok r \<Rightarrow> r
      | _ \<Rightarrow> \<lparr> block_number = block, br_validator = validator,
              total_reward = from_u128 m,
              validator_reward = from_u128 (bps m VALIDATOR_BPS),
              staker_reward = from_u128 (bps m STAKER_BPS),
              foundation_reward = from_u128 (m - bps m VALIDATOR_BPS - bps m STAKER_BPS),
              fee_reward = from_u128 (m - base_reward_u128 block),
              halving_epoch = cast 32 (block div HALVING_INTERVAL) \<rparr>)"

section \<open>Fee distribution\<close>

record fee_distribution =
  burned :: u256
  validator_tip :: u256
  fd_total :: u256

datatype dist_error = DistOverflow

definition distribute_checked ::
  "u64 \<Rightarrow> u256 \<Rightarrow> u256 \<Rightarrow> u256 \<Rightarrow> (dist_error, fee_distribution) res" where
  "distribute_checked gas_used base_fee max_priority_fee max_fee =
     (let gas = from_u64 gas_used;
          (burned, ovf) = u256_overflowing_mul base_fee gas in
      if ovf then Err DistOverflow
      else
       (let cap = u256_saturating_sub max_fee base_fee;
            prio = (if u256_less max_priority_fee cap then max_priority_fee else cap);
            (tip, ovf) = u256_overflowing_mul prio gas in
        if ovf then Err DistOverflow
        else
         (let (total, ovf) = u256_overflowing_add burned tip in
          if ovf then Err DistOverflow
          else Ok \<lparr> burned = burned, validator_tip = tip, fd_total = total \<rparr>)))"

definition distribute :: "u64 \<Rightarrow> u256 \<Rightarrow> u256 \<Rightarrow> u256 \<Rightarrow> fee_distribution" where
  "distribute gas_used base_fee max_priority_fee max_fee =
     (case distribute_checked gas_used base_fee max_priority_fee max_fee of
        Ok d \<Rightarrow> d
      | _ \<Rightarrow>
        (let mx = from_u128 (umax 128);
             gas = from_u64 gas_used;
             cap = u256_saturating_sub max_fee base_fee;
             prio = (if u256_less max_priority_fee cap then max_priority_fee else cap);
             (burned, ovf1) = u256_overflowing_mul base_fee gas;
             burned' = (if ovf1 then mx else burned);
             (tip, ovf2) = u256_overflowing_mul prio gas;
             tip' = (if ovf2 then mx else tip)
         in \<lparr> burned = burned', validator_tip = tip',
              fd_total = u256_saturating_add burned' tip' \<rparr>))"

section \<open>The basis-point routine\<close>

lemma and_umax64: "and x (umax 64) = x mod (2 ^ 64 :: nat)"
proof -
  have "umax 64 = mask 64" by (simp add: umax_def mask_eq_exp_minus_1)
  then show ?thesis by (simp only: take_bit_eq_mask[symmetric] take_bit_eq_mod)
qed

lemma or_push_bit_add': "a < 2 ^ n \<Longrightarrow> or (push_bit n b) a = a + 2 ^ n * (b::nat)"
  using or_push_bit_add[of a n b] by (simp add: or.commute)

lemma push64_mod: "push_bit 64 b mod 2 ^ 128 = push_bit 64 (b mod 2 ^ 64 :: nat)"
proof -
  have "push_bit 64 b mod 2 ^ 128 = (b * 2 ^ 64) mod (2 ^ 64 * 2 ^ 64)"
    by (simp add: push_bit_eq_mult)
  also have "\<dots> = (b mod 2 ^ 64) * 2 ^ 64" by (rule mult_mod_left[symmetric])
  finally show ?thesis by (simp add: push_bit_eq_mult)
qed

lemma or_push64_mod:
  "b < 2 ^ 64 \<Longrightarrow> a < 2 ^ 64 \<Longrightarrow> or (push_bit 64 b mod 2 ^ 128) a = b * 2 ^ 64 + (a::nat)"
  by (simp only: push64_mod mod_less or_push_bit_add') simp

lemma div_by_10000_eq:
  assumes lo: "lo < 2 ^ 128" and hi: "hi < 10000"
  shows "div_by_10000 lo hi = (hi * 2 ^ 128 + lo) div 10000"
proof -
  let ?B = "2 ^ 64 :: nat"
  define l1 l0 where "l1 = lo div ?B" and "l0 = lo mod ?B"
  have l: "lo = l1 * ?B + l0" "l0 < ?B" "l1 < ?B"
    using lo by (simp_all add: l1_def l0_def less_mult_imp_div_less)
  define n1 where "n1 = hi * ?B + l1"
  define q1 r1 where "q1 = n1 div 10000" and "r1 = n1 mod 10000"
  define n0 where "n0 = r1 * ?B + l0"
  have n1: "n1 = q1 * 10000 + r1" "r1 < 10000" by (simp_all add: q1_def r1_def)
  have "n1 < 10000 * ?B" using hi l(3) unfolding n1_def by simp
  then have q1: "q1 < ?B" unfolding q1_def by (simp add: less_mult_imp_div_less mult.commute)
  have "n0 < 10000 * ?B" using n1(2) l(2) unfolding n0_def by simp
  then have q0: "n0 div 10000 < ?B" by (simp add: less_mult_imp_div_less mult.commute)
  have "div_by_10000 lo hi = n0 div 10000 + ?B * q1"
  proof -
    have a: "or (push_bit 64 (hi mod 10000) mod 2 ^ 128) (drop_bit 64 lo) = n1"
      unfolding drop_bit_eq_div l1_def[symmetric] n1_def using hi l(3)
      by (subst or_push64_mod) simp_all
    have b: "or (push_bit 64 r1 mod 2 ^ 128) (and lo (umax 64)) = n0"
      unfolding and_umax64 l0_def[symmetric] n0_def using n1(2) l(2)
      by (subst or_push64_mod) simp_all
    have c: "or (push_bit 64 q1 mod 2 ^ 128) (n0 div 10000) = n0 div 10000 + ?B * q1"
      using q1 q0 by (subst or_push64_mod) simp_all
    show ?thesis
      unfolding div_by_10000_def Let_def a q1_def[symmetric] r1_def[symmetric] b c ..
  qed
  moreover have "hi * 2 ^ 128 + lo = n0 + 10000 * (?B * q1)"
  proof -
    have "hi * 2 ^ 128 + lo = n1 * ?B + l0" by (simp add: n1_def l(1))
    also have "\<dots> = n0 + 10000 * (?B * q1)" by (simp add: n1(1) n0_def)
    finally show ?thesis .
  qed
  ultimately show ?thesis by simp
qed

lemma mul_u128_split_val:
  assumes a: "a < 2 ^ 128" and b: "b < 2 ^ 64" and s: "mul_u128_split a b = (lo, hi)"
  shows "lo + 2 ^ 128 * hi = a * b" "lo < 2 ^ 128"
proof -
  let ?B = "2 ^ 64 :: nat"
  define a1 a0 where "a1 = a div ?B" and "a0 = a mod ?B"
  have aa: "a = a1 * ?B + a0" "a0 < ?B" "a1 < ?B"
    using a by (simp_all add: a1_def a0_def less_mult_imp_div_less)
  define ll hl where "ll = a0 * b" and "hl = a1 * b"
  have lt: "ll < 2 ^ 128" "hl < 2 ^ 128"
    unfolding ll_def hl_def by (rule fee_mul_small[OF aa(2) b] fee_mul_small[OF aa(3) b])+
  have dv: "ll div ?B < ?B" "hl div ?B < ?B"
    using lt by (simp_all add: less_mult_imp_div_less)
  define mid where "mid = ll div ?B + hl mod ?B"
  have mid: "mid < 2 * ?B"
  proof -
    have "hl mod ?B < ?B" by simp
    with dv(1) show ?thesis unfolding mid_def by linarith
  qed
  have bz: "drop_bit 64 b = 0" "cast 64 b = b" using b by (simp_all add: drop_bit_eq_div)
  have e: "lo = ll mod ?B + ?B * (mid mod ?B)" "hi = hl div ?B + mid div ?B"
  proof -
    have m: "wrap_mul 128 (cast 64 a) b = ll" "wrap_mul 128 (drop_bit 64 a) b = hl"
      using lt by (simp_all add: cast_def drop_bit_eq_div ll_def hl_def a0_def a1_def)
    have s1: "wrap_add 128 (ll div ?B) (hl mod ?B) = mid"
      using mid unfolding mid_def by (intro wrap_add_exact) simp
    have s2: "wrap_add 128 (hl div ?B) (mid div ?B) = hl div ?B + mid div ?B"
      using dv(2) mid by (intro wrap_add_exact) (simp add: less_mult_imp_div_less)
    have "ll div ?B < 2 ^ 128" "hl div ?B < 2 ^ 128" using dv by simp_all
    moreover have "or (ll mod ?B) (push_bit 64 (mid mod ?B)) = ll mod ?B + ?B * (mid mod ?B)"
      by (rule or_push_bit_add) simp
    ultimately show "lo = ll mod ?B + ?B * (mid mod ?B)" "hi = hl div ?B + mid div ?B"
      using s unfolding mul_u128_split_def Let_def bz m
      by (simp_all only: wrap_mul_def wrap_add_def mult_0_right mod_0 drop_bit_eq_div div_0
            add_0_right add_0_left and_umax64 push64_mod mod_less s1[unfolded wrap_add_def]
            s2[unfolded wrap_add_def] prod.inject)
  qed
  have "lo + 2 ^ 128 * hi = ll mod ?B + ?B * (mid mod ?B + ?B * (mid div ?B)) + ?B * ?B * (hl div ?B)"
  proof -
    have "(2::nat) ^ 128 = ?B * ?B" by simp
    then show ?thesis unfolding e by (simp only: distrib_left ac_simps)
  qed
  also have "mid mod ?B + ?B * (mid div ?B) = mid" by simp
  also have "ll mod ?B + ?B * mid + ?B * ?B * (hl div ?B)
      = (ll mod ?B + ?B * (ll div ?B)) + ?B * (hl mod ?B + ?B * (hl div ?B))"
    unfolding mid_def by (simp only: distrib_left ac_simps)
  also have "\<dots> = ll + ?B * hl" by simp
  also have "\<dots> = a * b" unfolding ll_def hl_def aa(1) by (simp add: algebra_simps)
  finally show "lo + 2 ^ 128 * hi = a * b" .
  have "ll mod ?B < ?B" "mid mod ?B < ?B" by simp_all
  then show "lo < 2 ^ 128" unfolding e by simp
qed

lemma bps_eq:
  assumes "v < 2 ^ 128" "b \<le> 10000"
  shows "bps v b = v * b div 10000"
proof -
  obtain lo hi where s: "mul_u128_split v b = (lo, hi)" by force
  note m = mul_u128_split_val[OF assms(1) _ s]
  have b: "b < 2 ^ 64" using assms(2) by simp
  have "2 ^ 128 * hi \<le> v * b" using m(1)[OF b] by linarith
  also have "\<dots> \<le> v * 10000" using assms(2) by (rule mult_le_mono2)
  also have "\<dots> < 2 ^ 128 * 10000" using assms(1) by simp
  finally have "hi < 10000" by simp
  then show ?thesis using div_by_10000_eq[OF m(2)[OF b]] m(1)[OF b]
    by (simp add: bps_def s ac_simps)
qed

section \<open>Halving schedule\<close>

lemma base_reward_le: "base_reward_u128 b \<le> INITIAL_REWARD div 2 ^ (b div HALVING_INTERVAL)"
  by (simp add: base_reward_u128_def Let_def drop_bit_eq_div)

lemma halving_sum: "(\<Sum>h<k. X div 2 ^ h) + 2 * (X div 2 ^ k) \<le> 2 * (X::nat)"
proof (induction k)
  case (Suc k)
  have "X div 2 ^ Suc k = (X div 2 ^ k) div 2"
    by (simp only: power_Suc2 div_mult2_eq)
  then have "2 * (X div 2 ^ Suc k) \<le> X div 2 ^ k" by simp
  with Suc show ?case by simp
qed simp

lemma sum_blocks_of_interval:
  assumes "0 < (i::nat)"
  shows "(\<Sum>b<i * k. f (b div i)) = i * (\<Sum>h<k. f h :: nat)"
proof (induction k)
  case (Suc k)
  have "(\<Sum>b<i * Suc k. f (b div i)) = (\<Sum>b<i * k. f (b div i)) + (\<Sum>b=i*k..<i*Suc k. f (b div i))"
    by (simp add: lessThan_atLeast0 sum.atLeastLessThan_concat)
  also have "(\<Sum>b=i*k..<i*Suc k. f (b div i)) = (\<Sum>b=i*k..<i*Suc k. f k)"
  proof (rule sum.cong)
    fix b assume "b \<in> {i*k..<i*Suc k}"
    then have "b div i = k" by (intro div_nat_eqI) (simp_all add: mult.commute)
    then show "f (b div i) = f k" by simp
  qed simp
  also have "\<dots> = i * f k" by simp
  finally show ?case using Suc by (simp add: distrib_left)
qed simp

lemma emission_le: "(\<Sum>b<n. base_reward_u128 b) \<le> HALVING_INTERVAL * (2 * INITIAL_REWARD)"
proof -
  let ?i = HALVING_INTERVAL and ?f = "\<lambda>h. INITIAL_REWARD div 2 ^ h"
  have i: "0 < ?i" by (simp add: HALVING_INTERVAL_def)
  have "(\<Sum>b<n. base_reward_u128 b) \<le> (\<Sum>b<n. ?f (b div ?i))"
    by (intro sum_mono base_reward_le)
  also have "\<dots> \<le> (\<Sum>b<?i * n. ?f (b div ?i))"
    using i by (intro sum_mono2) auto
  also have "\<dots> = ?i * (\<Sum>h<n. ?f h)"
    by (rule sum_blocks_of_interval[OF i])
  also have "\<dots> \<le> ?i * (2 * INITIAL_REWARD)"
    using halving_sum[of INITIAL_REWARD n] by (intro mult_le_mono2) linarith
  finally show ?thesis .
qed

section \<open>Properties\<close>

text \<open>
  Base-fee update. For a parent whose gas used is at most twice the gas target and whose
  base fee is at least the minimum, \<open>BaseFeeCalculator::next_base_fee\<close> never panics, fails
  only when the rise would leave 64 bits, moves the fee by at most an eighth (by at least 1 on a
  rise), in the direction of the gas usage, and never below \<open>MIN_BASE_FEE\<close>.
\<close>

theorem next_base_fee_bounds:
  assumes fee: "MIN_BASE_FEE \<le> fee" "fee < 2 ^ 64"
    and limit: "2 \<le> limit" "limit < 2 ^ 64"
    and used: "used \<le> 2 * (limit div 2)"
  shows "case next_base_fee fee used limit of
      Panic \<Rightarrow> False
    | Err e \<Rightarrow> e = BaseFeeOverflow \<and> 2 ^ 64 \<le> fee + max 1 (fee div 8)
    | Ok f \<Rightarrow> MIN_BASE_FEE \<le> f \<and> fee - fee div 8 \<le> f \<and> f \<le> fee + max 1 (fee div 8)
      \<and> (limit div 2 < used \<longrightarrow> fee < f) \<and> (used = limit div 2 \<longrightarrow> f = fee)
      \<and> (used < limit div 2 \<longrightarrow> f \<le> fee)"
proof -
  let ?t = "limit div 2"
  have t: "0 < ?t" "?t < 2 ^ 64" using limit by auto
  have up: "fee * (used - ?t) div ?t div 8 \<le> fee div 8"
    by (rule fee_delta_le) (use used in simp)
  have down: "fee * (?t - used) div ?t div 8 \<le> fee div 8"
    by (rule fee_delta_le) simp
  have s: "sat_mul 128 fee (used - ?t) = fee * (used - ?t)"
    "sat_mul 128 fee (?t - used) = fee * (?t - used)"
    using used t fee(2) by (intro sat_mul_exact fee_mul_small; simp)+
  have d8: "fee div 8 < 2 ^ 64" using fee(2) by simp
  have c: "cast 64 (max (fee * (used - ?t) div ?t div 8) 1) = max (fee * (used - ?t) div ?t div 8) 1"
    "cast 64 (fee * (?t - used) div ?t div 8) = fee * (?t - used) div ?t div 8"
    using le_less_trans[OF up d8] le_less_trans[OF down d8] by simp_all
  have eq: "next_base_fee fee used limit =
     (if used = ?t then Ok fee
      else if ?t < used then
        (if fee + max (fee * (used - ?t) div ?t div 8) 1 < 2 ^ 64
         then Ok (fee + max (fee * (used - ?t) div ?t div 8) 1) else Err BaseFeeOverflow)
      else Ok (max (fee - fee * (?t - used) div ?t div 8) 7))"
    using t fee unfolding next_base_fee_def Let_def fee_consts s c
    by (simp add: checked_add_def)
  define m M d where "m = max (fee * (used - ?t) div ?t div 8) 1" and "M = max 1 (fee div 8)"
    and "d = fee * (?t - used) div ?t div 8"
  note f7 = fee(1)[unfolded fee_consts]
  have m: "0 < m" "m \<le> M" using up unfolding m_def M_def by (simp_all add: max_def)
  have d: "7 \<le> fee - d" "fee - fee div 8 \<le> fee - d"
    using down f7 unfolding d_def by linarith+
  have le: "fee - fee div 8 \<le> fee + m" "fee - d \<le> fee + M" by simp_all
  show ?thesis
    unfolding eq m_def[symmetric] d_def[symmetric] M_def[symmetric] fee_consts
    using m d f7 le by simp
qed

theorem next_base_fee_bounds_witness:
  "next_base_fee 1000000000 30000000 30000000 = Ok 1125000000
   \<and> (1125000000::nat) \<le> 1000000000 + max 1 (1000000000 div 8)"
proof -
  have eq: "next_base_fee 1000000000 30000000 30000000 = Ok 1125000000"
    by (simp add: next_base_fee_def Let_def u_arith)
  show ?thesis
    using next_base_fee_bounds[of 1000000000 30000000 30000000] eq by simp
qed

text \<open>
  effective gas price. \<open>effective_gas_price\<close> fails exactly when the fee cap is below
  the base fee; otherwise the price lies between the base fee and the cap, and is the base fee
  plus \<open>miner_tip\<close>, which is at most the priority fee.
\<close>

theorem effective_gas_price_split:
  assumes "max_fee < 2 ^ 64"
  shows "effective_gas_price base max_fee prio =
     (if max_fee < base then Err (MaxFeeBelowBaseFee max_fee base)
      else Ok (base + miner_tip base max_fee prio))
   \<and> miner_tip base max_fee prio \<le> prio
   \<and> (base \<le> max_fee \<longrightarrow> base + miner_tip base max_fee prio \<le> max_fee)"
  using assms by (auto simp: effective_gas_price_def miner_tip_def Let_def)

theorem effective_gas_price_split_witness:
  "effective_gas_price 30 50 100 = Ok 50 \<and> miner_tip 30 50 100 = 20"
  using effective_gas_price_split[of 50 30 100] by (simp add: miner_tip_def)

text \<open>
  reward split. Every block reward the engine computes is split without loss: the three
  shares add up to the total, the validator and staker shares are the floors of 80 and 15
  percent (the 256-bit routine \<open>bps\<close> agrees with exact division), and the foundation gets the
  rest, at least 5 percent rounded down.
\<close>

theorem compute_checked_split:
  assumes ok: "compute_checked block validator gas_used priority_fee = Ok r"
  shows "uval (validator_reward r) + uval (staker_reward r) + uval (foundation_reward r)
      = uval (total_reward r)
    \<and> uval (total_reward r) = base_reward_u128 block + gas_used * priority_fee
    \<and> uval (total_reward r) \<le> MAX_REWARD_PER_BLOCK
    \<and> uval (validator_reward r) = uval (total_reward r) * VALIDATOR_BPS div 10000
    \<and> uval (staker_reward r) = uval (total_reward r) * STAKER_BPS div 10000
    \<and> uval (total_reward r) * FOUNDATION_BPS div 10000 \<le> uval (foundation_reward r)"
proof -
  define t where "t = base_reward_u128 block + gas_used * priority_fee"
  have t: "t \<le> MAX_REWARD_PER_BLOCK"
    and r: "total_reward r = from_u128 t" "validator_reward r = from_u128 (bps t VALIDATOR_BPS)"
      "staker_reward r = from_u128 (bps t STAKER_BPS)"
      "foundation_reward r = from_u128 (t - bps t VALIDATOR_BPS - bps t STAKER_BPS)"
    using ok by (auto simp: compute_checked_def Let_def t_def split: if_splits)
  have t128: "t < 2 ^ 128" using t by (simp add: MAX_REWARD_PER_BLOCK_def push_bit_eq_mult)
  have b: "bps t VALIDATOR_BPS = t * VALIDATOR_BPS div 10000"
    "bps t STAKER_BPS = t * STAKER_BPS div 10000"
    by (rule bps_eq[OF t128], simp add: VALIDATOR_BPS_def STAKER_BPS_def)+
  have le: "t * 8000 div 10000 + t * 1500 div 10000 + t * 500 div 10000 \<le> t" by linarith
  have lt: "t * 8000 div 10000 < 2 ^ 128" "t * 1500 div 10000 < 2 ^ 128"
    using t128 by linarith+
  show ?thesis
    unfolding r b t_def[symmetric]
    using t t128 le lt by (simp add: uval_from_u128 VALIDATOR_BPS_def STAKER_BPS_def FOUNDATION_BPS_def)
qed

theorem compute_checked_split_witness:
  "\<exists>r. compute_checked 25000000 7 21000 1000000000 = Ok r
     \<and> uval (validator_reward r) + uval (staker_reward r) + uval (foundation_reward r)
       = 1500000000000000000 + 21000000000000"
proof -
  have "compute_checked 25000000 7 21000 1000000000 \<noteq> Panic"
    and "\<And>e. compute_checked 25000000 7 21000 1000000000 \<noteq> Err e"
    by (auto simp: compute_checked_def Let_def base_reward_u128_def HALVING_INTERVAL_def
        INITIAL_REWARD_def drop_bit_eq_div MAX_REWARD_PER_BLOCK_def push_bit_eq_mult checked_mul_def checked_add_def)
  then obtain r where r: "compute_checked 25000000 7 21000 1000000000 = Ok r"
    by (cases "compute_checked 25000000 7 21000 1000000000") auto
  from compute_checked_split[OF r] r show ?thesis
    by (auto simp: base_reward_u128_def HALVING_INTERVAL_def INITIAL_REWARD_def drop_bit_eq_div)
qed

text \<open>
  emission cap. However many blocks are produced, the sum of the base rewards of the
  halving schedule stays within 150,000,000 ZBX (in wei), the supply cap of the chain.
\<close>

theorem emission_capped: "(\<Sum>b<n. base_reward_u128 b) \<le> 150000000 * 10 ^ 18"
  using emission_le[of n] by (simp add: HALVING_INTERVAL_def INITIAL_REWARD_def)

text \<open>
  fee distribution. On well-formed inputs \<open>distribute_checked\<close> always succeeds: the burned
  amount is the base fee times the gas in the low 128 bits, the total is exactly the burned
  amount plus the tip, and the overflow errors of the function cannot occur.
\<close>

theorem distribute_checked_total:
  assumes "wf_u256 base_fee" "wf_u256 prio" "wf_u256 max_fee" "gas_used < 2 ^ 64"
  shows "\<exists>d. distribute_checked gas_used base_fee prio max_fee = Ok d
    \<and> uval (burned d) = (uval base_fee mod 2 ^ 128) * gas_used mod 2 ^ 128
    \<and> uval (fd_total d) = uval (burned d) + uval (validator_tip d)"
proof -
  have g: "wf_u256 (from_u64 gas_used)" "uval (from_u64 gas_used) = gas_used"
    using assms(4) by (simp_all add: wf_u256_def from_u64_def)
  define p where "p = (if u256_less prio (u256_saturating_sub max_fee base_fee) then prio
    else u256_saturating_sub max_fee base_fee)"
  have p: "wf_u256 p" using u256_saturating_sub_val(2)[OF assms(3,1)] assms(2) by (simp add: p_def)
  obtain b o1 where b: "u256_overflowing_mul base_fee (from_u64 gas_used) = (b, o1)" by force
  obtain t o2 where t: "u256_overflowing_mul p (from_u64 gas_used) = (t, o2)" by force
  obtain s o3 where s: "u256_overflowing_add b t = (s, o3)" by force
  note B = u256_mul_val[OF assms(1) g(1) b] and T = u256_mul_val[OF p g(1) t]
  note S = u256_add_val[OF B(3) T(3) s]
  have bt: "uval b < 2 ^ 128" "uval t < 2 ^ 128" unfolding B(1) T(1) by simp_all
  then have o3: "\<not> o3" using S(1) by (auto split: if_splits)
  have gm: "gas_used mod 2 ^ 128 = gas_used" using assms(4) by simp
  show ?thesis
    unfolding distribute_checked_def Let_def p_def[symmetric] b t s prod.case
    using B(2) T(2) o3 B(1) S(1) unfolding g(2) gm by simp
qed

theorem distribute_checked_total_witness:
  "\<exists>d. distribute_checked 21000 [0, 1, 0, 0] [5, 0, 0, 0] [0, 2, 0, 0] = Ok d
    \<and> uval (burned d) = 2 ^ 64 * 21000"
  using distribute_checked_total[of "[0, 1, 0, 0]" "[5, 0, 0, 0]" "[0, 2, 0, 0]" 21000]
  by (auto simp: wf_u256_def)

text \<open>
  A base fee of \<open>2 ^ 128\<close> wei burns nothing: the multiplication drops the high limbs and
  reports no overflow.
\<close>

lemma distribute_checked_loses_high_limbs:
  "\<exists>d. distribute_checked 21000 [0, 0, 1, 0] [0, 0, 0, 0] [0, 0, 1, 0] = Ok d
    \<and> uval (burned d) = 0"
  by (simp add: distribute_checked_def Let_def u256_overflowing_mul_def u256_saturating_sub_def
      u256_overflowing_sub_def u256_overflowing_add_def ovf_sub64_def ovf_add64_def from_u128_def
      from_u64_def wrap_mul_def wrap_add_def cast_def u256_ZERO_def)

lemma u256_less_not_numeric: "u256_less [0, 1, 0, 0] [1, 0, 0, 0] \<and> uval [1, 0, 0, 0] < uval [0, 1, 0, 0]"
  by simp

lemma next_base_fee_Panic_iff:
  "next_base_fee fee used limit = Panic \<longleftrightarrow> limit < 2 \<and> 0 < used"
  by (auto simp: next_base_fee_def Let_def bind_res_Panic_iff)

end
