(* ===== verification/Amm.thy ===== *)
theory Amm
  imports Prelude
begin

text \<open>
  The constant-product pool of \<open>zbx-pool\<close>: the guards of \<open>security.rs\<close>, the fee tiers of
  \<open>fee.rs\<close> and the pair of \<open>pair.rs\<close> (swap, add and remove liquidity, quote, spot price,
  integer square root). A method that takes \<open>&mut self\<close> returns its result together with the
  pair it leaves, so that what a failed call has already written is visible.
\<close>

section \<open>Errors and guards (error.rs, security.rs)\<close>

datatype amm_error =
    Reentrancy
  | PoolPaused string
  | PriceImpactTooHigh u32 u32
  | SlippageExceeded u128 u128
  | DeadlineExpired u64 u64
  | ReserveDrainExceeded u32 u32
  | OraclePriceDeviation u32 u32
  | Overflow
  | DivisionByZero
  | InvariantOverflow
  | PoolAlreadyExists
  | IdenticalTokens
  | InsufficientCreationFee u128 u128
  | EmptyReserve
  | InsufficientLiquidityBurned
  | InsufficientLpBalance
  | BelowMinLiquidity
  | ZeroAmount
  | ZeroOutput
  | InvariantViolation
  | ZeroAddressTransfer
  | PairNotFound

definition MIN_LIQUIDITY :: u128 where "MIN_LIQUIDITY = 1000"
definition MAX_PRICE_IMPACT_BPS :: u32 where "MAX_PRICE_IMPACT_BPS = 3000"
definition MAX_ORACLE_DEVIATION_BPS :: u32 where "MAX_ORACLE_DEVIATION_BPS = 1500"
definition MAX_RESERVE_DRAIN_BPS :: u32 where "MAX_RESERVE_DRAIN_BPS = 3000"

definition acquire :: "bool \<Rightarrow> (amm_error, unit) res \<times> bool" where
  "acquire locked = (if locked then (Err Reentrancy, locked) else (Ok (), True))"

definition release :: "bool \<Rightarrow> bool" where
  "release locked = False"

definition check_price_impact :: "u128 \<Rightarrow> u128 \<Rightarrow> (amm_error, unit) res" where
  "check_price_impact amount_in reserve_in =
     (if reserve_in = 0 then Err EmptyReserve
      else
       (let denom = sat_add 128 reserve_in amount_in;
            impact_bps = sat_mul 128 amount_in 10000 div denom
        in if cast 32 impact_bps > MAX_PRICE_IMPACT_BPS
           then Err (PriceImpactTooHigh (cast 32 impact_bps) MAX_PRICE_IMPACT_BPS)
           else Ok ()))"

definition check_slippage :: "u128 \<Rightarrow> u128 \<Rightarrow> (amm_error, unit) res" where
  "check_slippage amount_out min_amount_out =
     (if amount_out < min_amount_out then Err (SlippageExceeded amount_out min_amount_out)
      else Ok ())"

definition check_deadline :: "u64 \<Rightarrow> u64 \<Rightarrow> (amm_error, unit) res" where
  "check_deadline block_timestamp deadline =
     (if block_timestamp > deadline then Err (DeadlineExpired block_timestamp deadline)
      else Ok ())"

definition check_reserve_drain :: "u128 \<Rightarrow> u128 \<Rightarrow> (amm_error, unit) res" where
  "check_reserve_drain amount_out reserve_out =
     (if reserve_out = 0 then Err EmptyReserve
      else
       (let drain_bps = sat_mul 128 amount_out 10000 div reserve_out
        in if cast 32 drain_bps > MAX_RESERVE_DRAIN_BPS
           then Err (ReserveDrainExceeded (cast 32 drain_bps) MAX_RESERVE_DRAIN_BPS)
           else Ok ()))"

definition check_oracle_deviation :: "u128 \<Rightarrow> u128 \<Rightarrow> (amm_error, unit) res" where
  "check_oracle_deviation pool_spot oracle_price =
     (if oracle_price = 0 then Ok ()
      else if pool_spot = 0 then Err (OraclePriceDeviation 10000 MAX_ORACLE_DEVIATION_BPS)
      else
       (let diff = (if pool_spot > oracle_price then pool_spot - oracle_price
                    else oracle_price - pool_spot);
            deviation_bps = sat_mul 128 diff 10000 div oracle_price
        in if cast 32 deviation_bps > MAX_ORACLE_DEVIATION_BPS
           then Err (OraclePriceDeviation (cast 32 deviation_bps) MAX_ORACLE_DEVIATION_BPS)
           else Ok ()))"

definition safe_mul_div :: "u128 \<Rightarrow> u128 \<Rightarrow> u128 \<Rightarrow> (amm_error, u128) res" where
  "safe_mul_div a b c =
     (if c = 0 then Err DivisionByZero
      else bind_res (ok_or (checked_mul 128 a b) Overflow) (\<lambda>num. Ok (num div c)))"

record circuit_breaker =
  paused :: bool
  reason :: "string option"
  since_block :: u64

definition circuit_new :: circuit_breaker where
  "circuit_new = \<lparr>paused = False, reason = None, since_block = 0\<rparr>"

definition trip :: "circuit_breaker \<Rightarrow> string \<Rightarrow> u64 \<Rightarrow> circuit_breaker" where
  "trip c why block = c\<lparr>paused := True, reason := Some why, since_block := block\<rparr>"

definition clear :: "circuit_breaker \<Rightarrow> circuit_breaker" where
  "clear c = c\<lparr>paused := False, reason := None, since_block := 0\<rparr>"

definition circuit_check :: "circuit_breaker \<Rightarrow> (amm_error, unit) res" where
  "circuit_check c =
     (if paused c then Err (PoolPaused (case reason c of None \<Rightarrow> [] | Some r \<Rightarrow> r)) else Ok ())"

section \<open>Fee tiers (fee.rs)\<close>

datatype fee_tier = Lowest | Standard | High

fun tier_bps :: "fee_tier \<Rightarrow> u32" where
  "tier_bps Lowest = 5"
| "tier_bps Standard = 30"
| "tier_bps High = 100"

definition protocol_bps :: "fee_tier \<Rightarrow> u32" where
  "protocol_bps t = tier_bps t div 5"

definition lp_bps :: "fee_tier \<Rightarrow> u32" where
  "lp_bps t = tier_bps t - protocol_bps t"

definition split_fee :: "u128 \<Rightarrow> fee_tier \<Rightarrow> u128 \<times> u128" where
  "split_fee amount_in tier =
     (let total_fee = wrap_mul 128 amount_in (tier_bps tier) div 10000;
          protocol = wrap_mul 128 amount_in (protocol_bps tier) div 10000;
          lp = total_fee - protocol
      in (lp, protocol))"

section \<open>The pair (pair.rs)\<close>

record pair_id =
  token_a :: address
  token_b :: address

definition pair_id_new :: "address \<Rightarrow> address \<Rightarrow> pair_id" where
  "pair_id_new a b =
     (if a < b then \<lparr>token_a = a, token_b = b\<rparr> else \<lparr>token_a = b, token_b = a\<rparr>)"

record swap_params =
  a_to_b :: bool
  amount_in :: u128
  min_amount_out :: u128
  sw_deadline :: u64
  oracle_twap :: u128
  sw_timestamp :: u64

record add_params =
  add_amount_a :: u128
  add_amount_b :: u128
  min_lp_out :: u128
  add_deadline :: u64
  add_timestamp :: u64

record remove_params =
  lp_amount :: u128
  min_a_out :: u128
  min_b_out :: u128
  rem_deadline :: u64
  rem_timestamp :: u64

record swap_result =
  amount_out :: u128
  lp_fee :: u128
  protocol_fee :: u128
  new_reserve_a :: u128
  new_reserve_b :: u128

record add_result =
  lp_minted :: u128
  used_a :: u128
  used_b :: u128

record remove_result =
  out_a :: u128
  out_b :: u128

record pair =
  pid :: pair_id
  reserve_a :: u128
  reserve_b :: u128
  total_lp :: u128
  fee_a :: u128
  fee_b :: u128
  pair_tier :: fee_tier
  reentrancy :: bool
  circuit :: circuit_breaker

definition pair_new :: "pair_id \<Rightarrow> fee_tier \<Rightarrow> pair" where
  "pair_new i tier =
     \<lparr>pid = i, reserve_a = 0, reserve_b = 0, total_lp = 0, fee_a = 0, fee_b = 0,
      pair_tier = tier, reentrancy = False, circuit = circuit_new\<rparr>"

definition spot_price_a_in_b :: "pair \<Rightarrow> u128" where
  "spot_price_a_in_b self =
     (if reserve_a self = 0 then 0
      else case checked_mul 128 (reserve_b self) 1000000000000000000 of
        Some v \<Rightarrow> v div reserve_a self
      | None \<Rightarrow>
         (let scaled = sat_mul 128 (reserve_b self div 1000000) 1000000000000
          in sat_mul 128 (scaled div reserve_a self) 1000000))"

definition get_amount_out :: "pair \<Rightarrow> u128 \<Rightarrow> bool \<Rightarrow> u128" where
  "get_amount_out self amt dir =
     (let (r_in, r_out) = (if dir then (reserve_a self, reserve_b self)
                           else (reserve_b self, reserve_a self)) in
      if r_in = 0 \<or> r_out = 0 \<or> amt = 0 then 0
      else
       (let fee_mult = 10000 - tier_bps (pair_tier self) in
        case checked_mul 128 amt fee_mult of None \<Rightarrow> 0 | Some dx_fee \<Rightarrow>
        (case checked_mul 128 dx_fee r_out of None \<Rightarrow> 0 | Some numerator \<Rightarrow>
        (case Option.bind (checked_mul 128 r_in 10000) (\<lambda>v. checked_add 128 v dx_fee) of
           None \<Rightarrow> 0
         | Some denom \<Rightarrow> numerator div denom))))"

text \<open>
  \<open>swap_inner\<close> in its two halves: the checks and the output amount, which write nothing, and
  the settlement, which writes the protocol fee before the last check of the product.
\<close>

definition swap_amount :: "pair \<Rightarrow> swap_params \<Rightarrow> (amm_error, u128 \<times> u128 \<times> u128) res" where
  "swap_amount self p =
     bind_res (check_deadline (sw_timestamp p) (sw_deadline p)) (\<lambda>_.
     if amount_in p = 0 then Err ZeroAmount
     else
      (let r_in = (if a_to_b p then reserve_a self else reserve_b self);
           r_out = (if a_to_b p then reserve_b self else reserve_a self) in
       if r_in = 0 \<or> r_out = 0 then Err EmptyReserve
       else
        bind_res (check_oracle_deviation (spot_price_a_in_b self) (oracle_twap p)) (\<lambda>_.
        bind_res (check_price_impact (amount_in p) r_in) (\<lambda>_.
        let fee_mult = 10000 - tier_bps (pair_tier self) in
        bind_res (ok_or (checked_mul 128 (amount_in p) fee_mult) Overflow) (\<lambda>dx_fee.
        bind_res (ok_or (checked_mul 128 dx_fee r_out) Overflow) (\<lambda>numerator.
        bind_res (ok_or (checked_mul 128 r_in 10000) Overflow) (\<lambda>r10.
        bind_res (ok_or (checked_add 128 r10 dx_fee) Overflow) (\<lambda>denom.
        let amt_out = numerator div denom in
        if amt_out = 0 then Err ZeroOutput
        else
         bind_res (check_reserve_drain amt_out r_out) (\<lambda>_.
         bind_res (check_slippage amt_out (min_amount_out p)) (\<lambda>_.
         Ok (r_in, r_out, amt_out)))))))))))"

definition swap_settle ::
  "pair \<Rightarrow> swap_params \<Rightarrow> u128 \<Rightarrow> u128 \<Rightarrow> u128 \<Rightarrow> (amm_error, swap_result) res \<times> pair" where
  "swap_settle self p r_in r_out amt_out =
     (let lpf = fst (split_fee (amount_in p) (pair_tier self));
          prf = snd (split_fee (amount_in p) (pair_tier self)) in
      try_st (ok_or (checked_mul 128 (reserve_a self) (reserve_b self)) InvariantOverflow) self
       (\<lambda>old_k.
      try_st (ok_or (checked_add 128 r_in (amount_in p)) Overflow) self (\<lambda>new_in.
      try_st (ok_or (checked_sub r_out amt_out) InsufficientLiquidityBurned) self (\<lambda>new_out.
      let self1 = (if a_to_b p then self\<lparr>fee_a := wrap_add 128 (fee_a self) prf\<rparr>
                   else self\<lparr>fee_b := wrap_add 128 (fee_b self) prf\<rparr>);
          new_ra = (if a_to_b p then new_in else new_out);
          new_rb = (if a_to_b p then new_out else new_in) in
      try_st (ok_or (checked_mul 128 new_ra new_rb) InvariantOverflow) self1 (\<lambda>new_k.
      if new_k < old_k then (Err InvariantViolation, self1)
      else
       (Ok \<lparr>amount_out = amt_out, lp_fee = lpf, protocol_fee = prf,
            new_reserve_a = new_ra, new_reserve_b = new_rb\<rparr>,
        self1\<lparr>reserve_a := new_ra, reserve_b := new_rb\<rparr>))))))"

definition swap_inner :: "pair \<Rightarrow> swap_params \<Rightarrow> (amm_error, swap_result) res \<times> pair" where
  "swap_inner self p =
     try_st (swap_amount self p) self (\<lambda>(r_in, r_out, amt_out).
       swap_settle self p r_in r_out amt_out)"

text \<open>The loop of \<open>integer_sqrt\<close>; a zero iterate is the division by zero of \<open>n / x\<close>.\<close>

function isqrt_loop :: "u128 \<Rightarrow> u128 \<Rightarrow> u128 \<Rightarrow> u128 option" where
  "isqrt_loop n x y =
     (if y < x then (if y = 0 then None else isqrt_loop n y (wrap_add 128 y (n div y) div 2))
      else Some x)"
  by pat_completeness auto
termination by (relation "measure (\<lambda>(n, x, y). x)") auto

declare isqrt_loop.simps [simp del]

definition integer_sqrt :: "u128 \<Rightarrow> ('e, u128) res" where
  "integer_sqrt n =
     (if n = 0 then Ok 0
      else case isqrt_loop n n (wrap_add 128 n 1 div 2) of None \<Rightarrow> Panic | Some r \<Rightarrow> Ok r)"

definition add_amounts :: "pair \<Rightarrow> add_params \<Rightarrow> (amm_error, u128 \<times> u128 \<times> u128) res" where
  "add_amounts self p =
     (if total_lp self = 0 then
        bind_res (ok_or (checked_mul 128 (add_amount_a p) (add_amount_b p)) Overflow) (\<lambda>product.
        bind_res (integer_sqrt product) (\<lambda>sqrt.
        if sqrt \<le> MIN_LIQUIDITY then Err BelowMinLiquidity
        else Ok (sqrt - MIN_LIQUIDITY, add_amount_a p, add_amount_b p)))
      else
        bind_res (safe_mul_div (add_amount_a p) (total_lp self) (reserve_a self)) (\<lambda>lp_a.
        bind_res (safe_mul_div (add_amount_b p) (total_lp self) (reserve_b self)) (\<lambda>lp_b.
        let lp = min lp_a lp_b in
        bind_res (safe_mul_div lp (reserve_a self) (total_lp self)) (\<lambda>ua.
        bind_res (safe_mul_div lp (reserve_b self) (total_lp self)) (\<lambda>ub.
        Ok (lp, ua, ub))))))"

definition add_settle ::
  "pair \<Rightarrow> add_params \<Rightarrow> u128 \<Rightarrow> u128 \<Rightarrow> u128 \<Rightarrow> (amm_error, add_result) res \<times> pair" where
  "add_settle self p minted ua ub =
     (if minted < min_lp_out p then (Err (SlippageExceeded minted (min_lp_out p)), self)
      else
       try_st (ok_or (checked_add 128 (reserve_a self) ua) Overflow) self (\<lambda>ra.
       let self1 = self\<lparr>reserve_a := ra\<rparr> in
       try_st (ok_or (checked_add 128 (reserve_b self1) ub) Overflow) self1 (\<lambda>rb.
       let self2 = self1\<lparr>reserve_b := rb\<rparr> in
       try_st (ok_or (checked_add 128 (total_lp self2) minted) Overflow) self2 (\<lambda>lp.
       (Ok \<lparr>lp_minted = minted, used_a = ua, used_b = ub\<rparr>, self2\<lparr>total_lp := lp\<rparr>)))))"

definition add_liquidity_inner :: "pair \<Rightarrow> add_params \<Rightarrow> (amm_error, add_result) res \<times> pair" where
  "add_liquidity_inner self p =
     try_st (check_deadline (add_timestamp p) (add_deadline p)) self (\<lambda>_.
     if add_amount_a p = 0 \<or> add_amount_b p = 0 then (Err ZeroAmount, self)
     else
      try_st (add_amounts self p) self (\<lambda>(minted, ua, ub). add_settle self p minted ua ub))"

definition remove_liquidity_inner ::
  "pair \<Rightarrow> remove_params \<Rightarrow> (amm_error, remove_result) res \<times> pair" where
  "remove_liquidity_inner self p =
     try_st (check_deadline (rem_timestamp p) (rem_deadline p)) self (\<lambda>_.
     if lp_amount p = 0 then (Err ZeroAmount, self)
     else if lp_amount p > total_lp self then (Err InsufficientLpBalance, self)
     else
      try_st (safe_mul_div (lp_amount p) (reserve_a self) (total_lp self)) self (\<lambda>amt_a.
      try_st (safe_mul_div (lp_amount p) (reserve_b self) (total_lp self)) self (\<lambda>amt_b.
      if amt_a = 0 \<or> amt_b = 0 then (Err InsufficientLiquidityBurned, self)
      else
       try_st (check_slippage amt_a (min_a_out p)) self (\<lambda>_.
       try_st (check_slippage amt_b (min_b_out p)) self (\<lambda>_.
       try_st (ok_or (checked_sub (reserve_a self) amt_a) InsufficientLiquidityBurned) self (\<lambda>ra.
       let self1 = self\<lparr>reserve_a := ra\<rparr> in
       try_st (ok_or (checked_sub (reserve_b self1) amt_b) InsufficientLiquidityBurned) self1 (\<lambda>rb.
       let self2 = self1\<lparr>reserve_b := rb\<rparr> in
       try_st (ok_or (checked_sub (total_lp self2) (lp_amount p)) InsufficientLpBalance) self2 (\<lambda>lp.
       (Ok \<lparr>out_a = amt_a, out_b = amt_b\<rparr>, self2\<lparr>total_lp := lp\<rparr>)))))))))"

text \<open>The public methods share one shape: circuit breaker, lock, inner call, unlock.\<close>

definition guarded ::
  "(pair \<Rightarrow> (amm_error, 'a) res \<times> pair) \<Rightarrow> pair \<Rightarrow> (amm_error, 'a) res \<times> pair" where
  "guarded inner self =
     try_st (circuit_check (circuit self)) self (\<lambda>_.
     let (acq, lk) = acquire (reentrancy self) in
     try_st acq self (\<lambda>_.
     let (result, self1) = inner (self\<lparr>reentrancy := lk\<rparr>)
     in (result, self1\<lparr>reentrancy := release (reentrancy self1)\<rparr>)))"

definition swap :: "pair \<Rightarrow> swap_params \<Rightarrow> (amm_error, swap_result) res \<times> pair" where
  "swap self p = guarded (\<lambda>s. swap_inner s p) self"

definition add_liquidity :: "pair \<Rightarrow> add_params \<Rightarrow> (amm_error, add_result) res \<times> pair" where
  "add_liquidity self p = guarded (\<lambda>s. add_liquidity_inner s p) self"

definition remove_liquidity :: "pair \<Rightarrow> remove_params \<Rightarrow> (amm_error, remove_result) res \<times> pair" where
  "remove_liquidity self p = guarded (\<lambda>s. remove_liquidity_inner s p) self"

definition pair_k :: "pair \<Rightarrow> u128 option" where
  "pair_k self = checked_mul 128 (reserve_a self) (reserve_b self)"

definition k_saturating :: "pair \<Rightarrow> u128" where
  "k_saturating self = sat_mul 128 (reserve_a self) (reserve_b self)"

section \<open>The constant-product formula\<close>

lemma cp_output_less:
  fixes r_in r_out dm :: nat
  assumes "0 < r_in" "0 < r_out"
  shows "dm * r_out div (r_in * 10000 + dm) < r_out"
proof -
  have "dm * r_out < (r_in * 10000 + dm) * r_out" using assms by simp
  then show ?thesis by (simp add: less_mult_imp_div_less mult.commute)
qed

lemma cp_product_mono:
  fixes r_in r_out dx m :: nat
  assumes "m \<le> 10000" "0 < r_in" "0 < r_out"
  defines "out \<equiv> dx * m * r_out div (r_in * 10000 + dx * m)"
  shows "r_in * r_out \<le> (r_in + dx) * (r_out - out)"
proof -
  have lt: "out < r_out" unfolding out_def by (rule cp_output_less[OF assms(2,3)])
  have 1: "out * (r_in * 10000 + dx * m) \<le> dx * m * r_out"
    unfolding out_def by (rule div_times_less_eq_dividend)
  have m: "m + (10000 - m) = 10000" using assms(1) by simp
  have 2: "(10000 - m) * dx * out \<le> (10000 - m) * dx * r_out"
    using lt by simp
  have "10000 * ((r_in + dx) * out) = out * (r_in * 10000) + (m + (10000 - m)) * (dx * out)"
    unfolding m by (simp add: algebra_simps)
  also have "\<dots> = out * (r_in * 10000 + dx * m) + (10000 - m) * dx * out"
    by (simp add: algebra_simps)
  also have "\<dots> \<le> dx * m * r_out + (10000 - m) * dx * r_out"
    using 1 2 by (rule add_mono)
  also have "\<dots> = (m + (10000 - m)) * (dx * r_out)" by (simp add: algebra_simps)
  also have "\<dots> = 10000 * (dx * r_out)" unfolding m ..
  finally have "(r_in + dx) * out \<le> dx * r_out" by simp
  then show ?thesis using lt by (simp add: algebra_simps diff_mult_distrib2)
qed

lemma tier_bps_le: "tier_bps t \<le> 100"
  by (cases t) simp_all

lemma check_units:
  "check_deadline t d = Ok x \<longleftrightarrow> t \<le> d"
  "check_slippage out mn = Ok x \<longleftrightarrow> mn \<le> out"
  by (auto simp: check_deadline_def check_slippage_def)

lemma swap_amount_Ok:
  assumes ok: "swap_amount self p = Ok (r_in, r_out, out)"
  defines "dm \<equiv> amount_in p * (10000 - tier_bps (pair_tier self))"
  shows "r_in = (if a_to_b p then reserve_a self else reserve_b self)"
    "r_out = (if a_to_b p then reserve_b self else reserve_a self)"
    "0 < r_in" "0 < r_out" "0 < amount_in p" "0 < out" "min_amount_out p \<le> out"
    "out = dm * r_out div (r_in * 10000 + dm)"
    "dm < 2 ^ 128" "dm * r_out < 2 ^ 128" "r_in * 10000 + dm < 2 ^ 128"
    "check_reserve_drain out r_out = Ok ()" "check_price_impact (amount_in p) r_in = Ok ()"
    "sw_timestamp p \<le> sw_deadline p"
    "check_oracle_deviation (spot_price_a_in_b self) (oracle_twap p) = Ok ()"
  using ok unfolding swap_amount_def dm_def
  by (clarsimp simp: Let_def check_units split: if_split_asm)+

lemma swap_settle_Ok:
  assumes ok: "swap_settle self p r_in r_out out = (Ok r, self')"
  shows "self' = (if a_to_b p
         then self\<lparr>fee_a := wrap_add 128 (fee_a self) (protocol_fee r),
                   reserve_a := r_in + amount_in p, reserve_b := r_out - out\<rparr>
         else self\<lparr>fee_b := wrap_add 128 (fee_b self) (protocol_fee r),
                   reserve_a := r_out - out, reserve_b := r_in + amount_in p\<rparr>)"
    "amount_out r = out" "(lp_fee r, protocol_fee r) = split_fee (amount_in p) (pair_tier self)"
    "new_reserve_a r = reserve_a self'" "new_reserve_b r = reserve_b self'"
    "r_in + amount_in p < 2 ^ 128" "reserve_a self' * reserve_b self' < 2 ^ 128"
  using ok unfolding swap_settle_def
  by (clarsimp simp: Let_def split: if_split_asm)+

lemma swap_settle_no_violation:
  assumes "swap_amount self p = Ok (r_in, r_out, out)"
  shows "fst (swap_settle self p r_in r_out out) \<notin> {Err InvariantViolation, Err InsufficientLiquidityBurned, Panic}"
proof -
  note a = swap_amount_Ok[OF assms]
  define m where "m = 10000 - tier_bps (pair_tier self)"
  have lt: "out < r_out" unfolding a(8) by (rule cp_output_less[OF a(3,4)])
  have mono: "r_in * r_out \<le> (r_in + amount_in p) * (r_out - out)"
    unfolding a(8) m_def[symmetric] by (rule cp_product_mono) (use a in \<open>simp_all add: m_def\<close>)
  have k: "reserve_a self * reserve_b self = r_in * r_out"
    using a(1,2) by (simp add: mult.commute)
  show ?thesis
    using lt mono k unfolding swap_settle_def Let_def
    by (auto simp: try_st_def ok_or_def checked_sub_def checked_mul_def checked_add_def mult.commute
        split: option.splits if_splits)
qed

lemma check_no_violation:
  "check_deadline a b \<noteq> Err InvariantViolation" "check_deadline a b \<noteq> Err InsufficientLiquidityBurned"
  "check_oracle_deviation a b \<noteq> Err InvariantViolation" "check_oracle_deviation a b \<noteq> Err InsufficientLiquidityBurned"
  "check_price_impact a b \<noteq> Err InvariantViolation" "check_price_impact a b \<noteq> Err InsufficientLiquidityBurned"
  "check_reserve_drain a b \<noteq> Err InvariantViolation" "check_reserve_drain a b \<noteq> Err InsufficientLiquidityBurned"
  "check_slippage a b \<noteq> Err InvariantViolation" "check_slippage a b \<noteq> Err InsufficientLiquidityBurned"
  "check_deadline a b \<noteq> Panic" "check_oracle_deviation a b \<noteq> Panic" "check_price_impact a b \<noteq> Panic"
  "check_reserve_drain a b \<noteq> Panic" "check_slippage a b \<noteq> Panic"
  "safe_mul_div a b c \<noteq> Panic"
  by (auto simp: check_deadline_def check_oracle_deviation_def check_price_impact_def
      check_reserve_drain_def check_slippage_def safe_mul_div_def Let_def bind_res_Panic_iff)

lemma ok_or_Err_iff [simp]: "ok_or x e = Err e' \<longleftrightarrow> x = None \<and> e = e'"
  by (cases x) auto

lemma swap_amount_errors:
  "swap_amount self p \<noteq> Err InvariantViolation"
  "swap_amount self p \<noteq> Err InsufficientLiquidityBurned" "swap_amount self p \<noteq> Panic"
  by (auto simp: swap_amount_def bind_res_Err_iff bind_res_Panic_iff check_no_violation Let_def)

text \<open>The drain check bounds the output by 30 percent (rounded to a basis point) of the reserve.\<close>

lemma check_reserve_drain_Ok:
  assumes "check_reserve_drain out r = Ok ()" "out < r" "out * 10000 < 2 ^ 128"
  shows "out * 10000 < 3001 * r"
proof -
  have r: "r \<noteq> 0" using assms(2) by simp
  define q where "q = out * 10000 div r"
  have "out * 10000 < r * 10000" using assms(2) by simp
  then have "q < 10000" unfolding q_def by (simp add: less_mult_imp_div_less mult.commute)
  then have "cast 32 q = q" by simp
  then have "q \<le> 3000"
    using assms r by (simp add: check_reserve_drain_def Let_def q_def[symmetric] MAX_RESERVE_DRAIN_BPS_def split: if_splits)
  then have "out * 10000 div r < 3001" unfolding q_def by simp
  then show ?thesis using r by (simp add: div_less_iff_less_mult)
qed

section \<open>Integer square root\<close>

lemma newton_ge:
  fixes x s n :: nat
  assumes "s * s \<le> n" "0 < x"
  shows "s \<le> (x + n div x) div 2"
proof -
  have "(2 * s - x) * x \<le> n"
  proof (cases "2 * s \<le> x")
    case False
    have "int ((2 * s - x) * x) \<le> int (s * s)"
    proof -
      have "0 \<le> (int s - int x) * (int s - int x)" by simp
      then show ?thesis using False by (simp add: of_nat_diff algebra_simps)
    qed
    then show ?thesis using assms(1) by linarith
  qed simp
  then have "2 * s - x \<le> n div x" using assms(2) by (simp add: less_eq_div_iff_mult_less_eq)
  then have "2 * s \<le> x + n div x" by arith
  then show ?thesis by simp
qed

lemma add_div_le:
  fixes y n :: nat
  assumes "0 < y" "y \<le> n"
  shows "y + n div y \<le> n + 1"
proof -
  define q where "q = n div y"
  have "0 < q" unfolding q_def using assms by (simp add: div_greater_zero_iff)
  then obtain a b where ab: "y = Suc a" "q = Suc b" using assms(1) by (metis gr0_conv_Suc)
  have "q * y \<le> n" unfolding q_def by (rule div_times_less_eq_dividend)
  then have "a + b + 1 \<le> n" unfolding ab by simp
  then have "y + q \<le> n + 1" using ab by simp
  then show ?thesis unfolding q_def .
qed

lemma isqrt_loop_correct:
  assumes "n + 1 < 2 ^ 128" "s * s \<le> n" "n < (s + 1) * (s + 1)" "0 < s"
    and "s \<le> x" "x \<le> n" "y = (x + n div x) div 2"
  shows "isqrt_loop n x y = Some s"
  using assms
proof (induction n x y rule: isqrt_loop.induct)
  case (1 n x y)
  have x: "0 < x" using 1 by simp
  have ys: "s \<le> y" using newton_ge[OF 1(3) x] 1(8) by simp
  show ?case
  proof (cases "y < x")
    case True
    have yn: "y \<le> n" using True 1(7) by simp
    have y0: "0 < y" using ys 1(5) by simp
    have "y + n div y \<le> n + 1" by (rule add_div_le[OF y0 yn])
    then have w: "wrap_add 128 y (n div y) = y + n div y"
      using 1(2) by (intro wrap_add_exact) linarith
    show ?thesis
      using 1(1)[OF True _ 1(2-5) ys yn] w True y0 by (simp add: isqrt_loop.simps[of n x y])
  next
    case False
    then have "2 * x \<le> x + n div x" using 1(8) by simp
    then have "x \<le> n div x" by simp
    then have "x * x \<le> n" using x by (simp add: less_eq_div_iff_mult_less_eq)
    then have "x * x < (s + 1) * (s + 1)" using 1(4) by simp
    then have "x < s + 1" by (metis mult_le_mono not_le)
    then show ?thesis using False 1(6) by (simp add: isqrt_loop.simps[of n x y])
  qed
qed


lemma isqrt_exists: "\<exists>s. s * s \<le> n \<and> n < (s + 1) * (s + 1 :: nat)"
proof (induction n)
  case 0 show ?case by (intro exI[of _ 0]) simp
next
  case (Suc n)
  then obtain s where s: "s * s \<le> n" "n < (s + 1) * (s + 1)" by blast
  show ?case
  proof (cases "Suc n < (s + 1) * (s + 1)")
    case True with s show ?thesis by (intro exI[of _ s]) simp
  next
    case False with s show ?thesis by (intro exI[of _ "s + 1"]) simp
  qed
qed

lemma integer_sqrt_floor:
  assumes "n + 1 < 2 ^ 128"
  shows "\<exists>s. integer_sqrt n = Ok s \<and> s * s \<le> n \<and> n < (s + 1) * (s + 1)"
proof (cases "n = 0")
  case True then show ?thesis by (simp add: integer_sqrt_def)
next
  case False
  obtain s where s: "s * s \<le> n" "n < (s + 1) * (s + 1)" using isqrt_exists by blast
  have s0: "0 < s" using s(2) False by (cases s) auto
  have sn: "s \<le> n" using s(1) s0 by (metis le_square order_trans)
  have "isqrt_loop n n (wrap_add 128 n 1 div 2) = Some s"
    by (rule isqrt_loop_correct[OF assms s s0 sn]) (use assms False in simp_all)
  with False s show ?thesis by (simp add: integer_sqrt_def)
qed

lemma integer_sqrt_max_panics: "integer_sqrt (umax 128) = (Panic :: ('e, u128) res)"
  by (simp add: integer_sqrt_def umax_def isqrt_loop.simps wrap_add_def)

section \<open>Liquidity\<close>

lemma safe_mul_div_Ok [simp]:
  "safe_mul_div a b c = Ok v \<longleftrightarrow> c \<noteq> 0 \<and> a * b < 2 ^ 128 \<and> v = a * b div c"
  by (auto simp: safe_mul_div_def)

lemma add_amounts_Ok_pos:
  assumes "add_amounts self p = Ok (lp, ua, ub)" "total_lp self \<noteq> 0"
  shows "ua = lp * reserve_a self div total_lp self" "ub = lp * reserve_b self div total_lp self"
    "lp * reserve_a self \<le> add_amount_a p * total_lp self"
    "lp * reserve_b self \<le> add_amount_b p * total_lp self"
    "ua \<le> add_amount_a p" "ub \<le> add_amount_b p" "reserve_a self \<noteq> 0" "reserve_b self \<noteq> 0"
proof -
  have d: "lp = min (add_amount_a p * total_lp self div reserve_a self)
                    (add_amount_b p * total_lp self div reserve_b self)"
    "ua = lp * reserve_a self div total_lp self" "ub = lp * reserve_b self div total_lp self"
    "reserve_a self \<noteq> 0" "reserve_b self \<noteq> 0"
    using assms by (auto simp: add_amounts_def Let_def)
  show "ua = lp * reserve_a self div total_lp self" "ub = lp * reserve_b self div total_lp self"
    "reserve_a self \<noteq> 0" "reserve_b self \<noteq> 0"
    by fact+
  have "lp \<le> add_amount_a p * total_lp self div reserve_a self"
    "lp \<le> add_amount_b p * total_lp self div reserve_b self"
    unfolding d(1) by simp_all
  then show a: "lp * reserve_a self \<le> add_amount_a p * total_lp self"
    and b: "lp * reserve_b self \<le> add_amount_b p * total_lp self"
    using d(4,5) by (simp_all add: less_eq_div_iff_mult_less_eq)
  show "ua \<le> add_amount_a p" "ub \<le> add_amount_b p"
    unfolding d(2,3) using assms(2) a b
    by (metis div_le_mono nonzero_mult_div_cancel_right)+
qed

lemma add_liquidity_inner_Ok:
  assumes "add_liquidity_inner self p = (Ok r, self')"
  shows "add_amounts self p = Ok (lp_minted r, used_a r, used_b r)"
    "self' = self\<lparr>reserve_a := reserve_a self + used_a r, reserve_b := reserve_b self + used_b r,
              total_lp := total_lp self + lp_minted r\<rparr>"
    "min_lp_out p \<le> lp_minted r" "0 < add_amount_a p" "0 < add_amount_b p"
    "reserve_a self + used_a r < 2 ^ 128" "reserve_b self + used_b r < 2 ^ 128"
    "total_lp self + lp_minted r < 2 ^ 128"
  using assms unfolding add_liquidity_inner_def add_settle_def
  by (clarsimp simp: Let_def split: if_split_asm)+

lemma remove_liquidity_inner_Ok:
  assumes "remove_liquidity_inner self p = (Ok r, self')"
  shows "out_a r = lp_amount p * reserve_a self div total_lp self"
    "out_b r = lp_amount p * reserve_b self div total_lp self"
    "self' = self\<lparr>reserve_a := reserve_a self - out_a r, reserve_b := reserve_b self - out_b r,
              total_lp := total_lp self - lp_amount p\<rparr>"
    "0 < out_a r" "0 < out_b r" "0 < lp_amount p" "lp_amount p \<le> total_lp self"
    "out_a r \<le> reserve_a self" "out_b r \<le> reserve_b self"
    "min_a_out p \<le> out_a r" "min_b_out p \<le> out_b r"
  using assms unfolding remove_liquidity_inner_def
  by (clarsimp simp: Let_def check_units split: if_split_asm)+

text \<open>Minting rounds the deposit down, but redeeming rounds it down again.\<close>

lemma mint_redeem_le:
  fixes lp r t :: nat
  assumes "0 < t"
  defines "u \<equiv> lp * r div t"
  shows "lp * (r + u) div (t + lp) \<le> u"
proof -
  have "u * t \<le> lp * r" unfolding u_def by (rule div_times_less_eq_dividend)
  have "lp * r < (u + 1) * t" unfolding u_def using assms(1)
    by (metis Suc_eq_plus1 dividend_less_times_div mult.commute mult_Suc_right)
  then have "lp * (r + u) < (u + 1) * t + lp * u" by (simp add: distrib_left)
  also have "\<dots> \<le> (u + 1) * (t + lp)" by (simp add: algebra_simps)
  finally have "lp * (r + u) div (t + lp) < u + 1"
    by (intro less_mult_imp_div_less) 
  then show ?thesis by simp
qed

section \<open>The guard\<close>

lemma guarded_Ok:
  assumes "guarded inner self = (Ok r, self')"
  obtains s where "inner (self\<lparr>reentrancy := True\<rparr>) = (Ok r, s)" "self' = s\<lparr>reentrancy := False\<rparr>"
    "\<not> paused (circuit self)" "\<not> reentrancy self"
  using assms unfolding guarded_def
  by (clarsimp simp: circuit_check_def acquire_def release_def split: if_split_asm prod.splits)

section \<open>The pair as a machine\<close>

datatype amm_op =
    OpSwap swap_params | OpAdd add_params | OpRemove remove_params | OpTrip string u64 | OpClear

fun amm_step :: "pair \<Rightarrow> amm_op \<Rightarrow> pair" where
  "amm_step self (OpSwap p) = snd (swap self p)"
| "amm_step self (OpAdd p) = snd (add_liquidity self p)"
| "amm_step self (OpRemove p) = snd (remove_liquidity self p)"
| "amm_step self (OpTrip why block) = self\<lparr>circuit := trip (circuit self) why block\<rparr>"
| "amm_step self OpClear = self\<lparr>circuit := clear (circuit self)\<rparr>"

text \<open>Amounts a caller can pass are 128-bit values.\<close>

fun op_fits :: "amm_op \<Rightarrow> bool" where
  "op_fits (OpSwap p) \<longleftrightarrow> amount_in p < 2 ^ 128"
| "op_fits (OpAdd p) \<longleftrightarrow> add_amount_a p < 2 ^ 128 \<and> add_amount_b p < 2 ^ 128"
| "op_fits _ \<longleftrightarrow> True"

definition reserves_ok :: "pair \<Rightarrow> bool" where
  "reserves_ok self \<longleftrightarrow>
     reserve_a self < 2 ^ 128 \<and> reserve_b self < 2 ^ 128 \<and> total_lp self < 2 ^ 128
   \<and> (if total_lp self = 0 then reserve_a self = 0 \<and> reserve_b self = 0
      else 0 < reserve_a self \<and> 0 < reserve_b self)"

definition pair_inv :: "pair \<Rightarrow> bool" where
  "pair_inv self \<longleftrightarrow> reserves_ok self \<and> \<not> reentrancy self"

lemma reserves_ok_upd [simp]:
  "reserves_ok (self\<lparr>reentrancy := b\<rparr>) = reserves_ok self"
  "reserves_ok (self\<lparr>circuit := c\<rparr>) = reserves_ok self"
  "reserves_ok (self\<lparr>fee_a := x\<rparr>) = reserves_ok self"
  "reserves_ok (self\<lparr>fee_b := x\<rparr>) = reserves_ok self"
  by (simp_all add: reserves_ok_def)

lemma swap_settle_fail:
  assumes "swap_settle self p r_in r_out out = (r, self')" "\<not> is_Ok r"
  shows "reserve_a self' = reserve_a self \<and> reserve_b self' = reserve_b self
    \<and> total_lp self' = total_lp self \<and> circuit self' = circuit self \<and> pair_tier self' = pair_tier self"
  using assms unfolding swap_settle_def Let_def
  by (auto elim!: try_st_cases split: if_split_asm)

lemma swap_inner_fail:
  assumes "swap_inner self p = (r, self')" "\<not> is_Ok r"
  shows "reserve_a self' = reserve_a self \<and> reserve_b self' = reserve_b self
    \<and> total_lp self' = total_lp self \<and> circuit self' = circuit self \<and> pair_tier self' = pair_tier self"
  using assms unfolding swap_inner_def
  by (auto elim!: try_st_cases dest: swap_settle_fail)

lemma swap_inner_Ok:
  assumes "swap_inner self p = (Ok r, self')"
  obtains r_in r_out where "swap_amount self p = Ok (r_in, r_out, amount_out r)"
    "swap_settle self p r_in r_out (amount_out r) = (Ok r, self')"
  using assms unfolding swap_inner_def
  by (auto dest: swap_settle_Ok(2))

lemma swap_inner_reserves_ok:
  assumes "reserves_ok self" "swap_inner self p = (r, self')"
  shows "reserves_ok self'"
proof (cases "is_Ok r")
  case True
  then obtain x where r: "swap_inner self p = (Ok x, self')" using assms by (auto simp: is_Ok_iff)
  then obtain r_in r_out where a: "swap_amount self p = Ok (r_in, r_out, amount_out x)"
    and s: "swap_settle self p r_in r_out (amount_out x) = (Ok x, self')"
    by (rule swap_inner_Ok)
  note A = swap_amount_Ok[OF a] and S = swap_settle_Ok[OF s]
  have "amount_out x < r_out" unfolding A(8) by (rule cp_output_less[OF A(3,4)])
  then show ?thesis
    using assms(1) A(1-4) S(1,6) by (auto simp: reserves_ok_def split: if_splits)
next
  case False
  then show ?thesis
    using swap_inner_fail[OF assms(2)] assms(1) by (simp add: reserves_ok_def)
qed

lemma div_mult_less_self:
  fixes l r t :: nat
  assumes "l < t" "0 < r"
  shows "l * r div t < r"
proof -
  have "l * r < t * r" using assms by simp
  then show ?thesis by (simp add: less_mult_imp_div_less mult.commute)
qed

lemma div_mult_le_self: "l \<le> t \<Longrightarrow> l * r div t \<le> (r::nat)"
  by (metis div_le_mono div_mult_self1_is_m le0 le_zero_eq mult_le_mono1 not_gr_zero div_by_0)

lemma remove_inner_fail:
  assumes "remove_liquidity_inner self p = (r, self')" "\<not> is_Ok r"
  shows "self' = self"
proof -
  have le: "\<not> total_lp self < lp_amount p \<Longrightarrow> lp_amount p * x div total_lp self \<le> x" for x
    by (intro div_mult_le_self) simp
  show ?thesis
    using assms le unfolding remove_liquidity_inner_def Let_def
    by (auto elim!: try_st_cases split: if_split_asm simp: ok_or_def checked_sub_def
        split: option.splits)
qed

lemma remove_inner_reserves_ok:
  assumes "reserves_ok self" "remove_liquidity_inner self p = (r, self')"
  shows "reserves_ok self'"
proof (cases "is_Ok r")
  case True
  then obtain x where r: "remove_liquidity_inner self p = (Ok x, self')"
    using assms by (auto simp: is_Ok_iff)
  note R = remove_liquidity_inner_Ok[OF r]
  have t: "0 < total_lp self" using R(6,7) by simp
  then have pos: "0 < reserve_a self" "0 < reserve_b self"
    using assms(1) by (auto simp: reserves_ok_def)
  show ?thesis
  proof (cases "lp_amount p = total_lp self")
    case True
    then have "out_a x = reserve_a self" "out_b x = reserve_b self" using R(1,2) t by simp_all
    then show ?thesis using R(3) True by (simp add: reserves_ok_def)
  next
    case False
    then have "lp_amount p < total_lp self" using R(7) by simp
    then have "out_a x < reserve_a self" "out_b x < reserve_b self"
      unfolding R(1,2) using pos by (simp_all add: div_mult_less_self)
    then show ?thesis
      using R(3) assms(1) \<open>lp_amount p < total_lp self\<close> by (auto simp: reserves_ok_def split: if_splits)
  qed
qed (use remove_inner_fail[OF assms(2)] assms(1) in simp)

text \<open>A failed deposit can leave a credited reserve behind, but no LP tokens.\<close>

lemma add_settle_cases:
  assumes "add_settle self p minted ua ub = (r, self')"
  obtains "self' = self" "\<not> is_Ok r"
    | "reserve_a self + ua < 2 ^ 128" "2 ^ 128 \<le> reserve_b self + ub" "r = Err Overflow"
        "self' = self\<lparr>reserve_a := reserve_a self + ua\<rparr>"
    | "reserve_a self + ua < 2 ^ 128" "reserve_b self + ub < 2 ^ 128"
        "2 ^ 128 \<le> total_lp self + minted" "r = Err Overflow"
        "self' = self\<lparr>reserve_a := reserve_a self + ua, reserve_b := reserve_b self + ub\<rparr>"
    | x where "r = Ok x"
proof -
  consider "minted < min_lp_out p" | "min_lp_out p \<le> minted" "2 ^ 128 \<le> reserve_a self + ua"
    | "min_lp_out p \<le> minted" "reserve_a self + ua < 2 ^ 128" "2 ^ 128 \<le> reserve_b self + ub"
    | "min_lp_out p \<le> minted" "reserve_a self + ua < 2 ^ 128" "reserve_b self + ub < 2 ^ 128"
      "2 ^ 128 \<le> total_lp self + minted"
    | "min_lp_out p \<le> minted" "reserve_a self + ua < 2 ^ 128" "reserve_b self + ub < 2 ^ 128"
      "total_lp self + minted < 2 ^ 128"
    by (meson not_le)
  then show ?thesis
  proof cases
    case 1 then show ?thesis using assms by (intro that(1)) (auto simp: add_settle_def)
  next
    case 2 then show ?thesis
      using assms by (intro that(1)) (auto simp: add_settle_def checked_add_def simp flip: not_less)
  next
    case 3 then show ?thesis
      using assms by (intro that(2)) (auto simp: add_settle_def checked_add_def simp flip: not_less)
  next
    case 4 then show ?thesis
      using assms by (intro that(3)) (auto simp: add_settle_def checked_add_def simp flip: not_less)
  next
    case 5 then show ?thesis
      using assms that(4) by (auto simp: add_settle_def checked_add_def)
  qed
qed

lemma add_inner_cases:
  assumes "add_liquidity_inner self p = (r, self')"
  obtains "self' = self" "\<not> is_Ok r"
    | minted ua ub where "add_amounts self p = Ok (minted, ua, ub)"
        "add_settle self p minted ua ub = (r, self')"
  using assms unfolding add_liquidity_inner_def
  by (auto elim!: try_st_cases split: if_split_asm)

lemma add_amounts_first:
  assumes "add_amounts self p = Ok (minted, ua, ub)" "total_lp self = 0"
    "add_amount_a p < 2 ^ 128" "add_amount_b p < 2 ^ 128"
  shows "ua = add_amount_a p" "ub = add_amount_b p" "0 < minted" "minted < 2 ^ 128"
proof -
  obtain q where q: "add_amount_a p * add_amount_b p < 2 ^ 128"
    "integer_sqrt (add_amount_a p * add_amount_b p) = (Ok q :: (amm_error, u128) res)"
    "1000 < q" "minted = q - 1000" "ua = add_amount_a p" "ub = add_amount_b p"
    using assms(1,2) by (auto simp: add_amounts_def MIN_LIQUIDITY_def split: if_splits)
  then show "ua = add_amount_a p" "ub = add_amount_b p" "0 < minted" by simp_all
  let ?n = "add_amount_a p * add_amount_b p"
  have "?n + 1 < 2 ^ 128"
  proof (rule ccontr)
    assume "\<not> ?n + 1 < 2 ^ 128"
    then have "?n = umax 128" using q(1) by (simp add: umax_def)
    then show False using q(2) integer_sqrt_max_panics[where 'e = amm_error] by simp
  qed
  then obtain t where "integer_sqrt ?n = (Ok t :: (amm_error, u128) res)" "t * t \<le> ?n"
    using integer_sqrt_floor by blast
  then have "q * q < 2 ^ 128" using q(1,2) by simp
  then have "q < 2 ^ 128" by (metis le_square le_less_trans)
  then show "minted < 2 ^ 128" using q(4) by simp
qed

lemma add_inner_reserves_ok:
  assumes inv: "reserves_ok self" and r: "add_liquidity_inner self p = (r, self')"
    and fits: "add_amount_a p < 2 ^ 128" "add_amount_b p < 2 ^ 128"
  shows "reserves_ok self'"
  using r
proof (cases rule: add_inner_cases)
  case 1 with inv show ?thesis by simp
next
  case (2 minted ua ub)
  note F = add_amounts_first[OF 2(1) _ fits]
  have first: "total_lp self = 0 \<Longrightarrow> reserve_b self + ub < 2 ^ 128"
    "total_lp self = 0 \<Longrightarrow> total_lp self + minted < 2 ^ 128"
    using inv F(2,4) fits by (simp_all add: reserves_ok_def)
  from 2(2) show ?thesis
  proof (cases rule: add_settle_cases)
    case 2
    then have "total_lp self \<noteq> 0" using first(1) by (meson not_le)
    with 2 inv show ?thesis by (simp add: reserves_ok_def)
  next
    case 3
    then have "total_lp self \<noteq> 0" using first(2) by (meson not_le)
    with 3 inv show ?thesis by (simp add: reserves_ok_def)
  next
    case (4 x)
    note A = add_liquidity_inner_Ok[OF r[unfolded 4]]
    note G = add_amounts_first[OF A(1) _ fits]
    show ?thesis
    proof (cases "total_lp self = 0")
      case True
      then show ?thesis using A(2,4-8) G by (simp add: reserves_ok_def)
    next
      case False
      then show ?thesis using inv A(2,6-8) by (simp add: reserves_ok_def)
    qed
  qed (use inv in simp)
qed

lemma guarded_pair_inv:
  assumes "pair_inv self"
    and inner: "\<And>s r s'. reserves_ok s \<Longrightarrow> inner s = (r, s') \<Longrightarrow> reserves_ok s'"
  shows "pair_inv (snd (guarded inner self))"
proof (cases "paused (circuit self)")
  case True
  with assms(1) show ?thesis by (simp add: guarded_def circuit_check_def)
next
  case False
  obtain r s' where s: "inner (self\<lparr>reentrancy := True\<rparr>) = (r, s')" by force
  have "reserves_ok s'" by (rule inner[OF _ s]) (use assms(1) in \<open>simp add: pair_inv_def\<close>)
  with assms(1) False s show ?thesis
    by (simp add: guarded_def circuit_check_def acquire_def release_def pair_inv_def)
qed

lemma amm_step_inv:
  assumes "pair_inv self" "op_fits e"
  shows "pair_inv (amm_step self e)"
proof (cases e)
  case (OpSwap p)
  show ?thesis unfolding amm_step.simps OpSwap swap_def
    by (rule guarded_pair_inv[OF assms(1) swap_inner_reserves_ok])
next
  case (OpAdd p)
  then have "add_amount_a p < 2 ^ 128" "add_amount_b p < 2 ^ 128" using assms(2) by simp_all
  note fits = this
  show ?thesis unfolding amm_step.simps OpAdd add_liquidity_def
    by (rule guarded_pair_inv[OF assms(1) add_inner_reserves_ok[OF _ _ fits]])
next
  case (OpRemove p)
  show ?thesis unfolding amm_step.simps OpRemove remove_liquidity_def
    by (rule guarded_pair_inv[OF assms(1) remove_inner_reserves_ok])
qed (use assms(1) in \<open>simp_all add: pair_inv_def\<close>)

interpretation amm: inv_machine amm_step pair_inv op_fits
  by unfold_locales (rule amm_step_inv)

lemma pair_inv_new: "pair_inv (pair_new i t)"
  by (simp add: pair_inv_def pair_new_def reserves_ok_def)

lemma spot_price_lock: "spot_price_a_in_b (self\<lparr>reentrancy := b\<rparr>) = spot_price_a_in_b self"
  by (simp add: spot_price_a_in_b_def cong: option.case_cong)

lemma swap_amount_lock: "swap_amount (self\<lparr>reentrancy := b\<rparr>) p = swap_amount self p"
  by (simp add: swap_amount_def spot_price_lock Let_def cong: if_cong)

lemma add_amounts_lock: "add_amounts (self\<lparr>reentrancy := b\<rparr>) p = add_amounts self p"
  by (simp add: add_amounts_def)

section \<open>Properties\<close>



text \<open>
  swaps cannot violate the constant product. Whatever the parameters, \<open>swap\<close> never
  panics and never returns \<open>InvariantViolation\<close> or \<open>InsufficientLiquidityBurned\<close>: the fee
  formula already implies what these last checks test. A swap that fails leaves both reserves and
  the LP supply as they were.
\<close>

theorem swap_never_violates:
  "fst (swap self p) \<notin> {Err InvariantViolation, Err InsufficientLiquidityBurned, Panic}
   \<and> (\<not> is_Ok (fst (swap self p)) \<longrightarrow>
       reserve_a (snd (swap self p)) = reserve_a self \<and> reserve_b (snd (swap self p)) = reserve_b self
       \<and> total_lp (snd (swap self p)) = total_lp self)"
proof (cases "paused (circuit self) \<or> reentrancy self")
  case True
  then show ?thesis by (auto simp: swap_def guarded_def circuit_check_def acquire_def)
next
  case False
  let ?s = "self\<lparr>reentrancy := True\<rparr>"
  obtain r s' where i: "swap_inner ?s p = (r, s')" by force
  have sw: "swap self p = (r, s'\<lparr>reentrancy := False\<rparr>)"
    using False i by (simp add: swap_def guarded_def circuit_check_def acquire_def release_def)
  have "r \<notin> {Err InvariantViolation, Err InsufficientLiquidityBurned, Panic}"
    using i unfolding swap_inner_def
  proof (cases rule: try_st_cases)
    case (1 x)
    obtain r_in r_out out where x: "x = (r_in, r_out, out)" by (cases x) auto
    show ?thesis using 1 swap_settle_no_violation[of ?s p r_in r_out out] by (simp add: x)
  qed (use swap_amount_errors[of ?s p] in auto)
  with swap_inner_fail[OF i] show ?thesis by (simp add: sw)
qed

theorem swap_never_violates_witness:
  "fst (swap (pair_new \<lparr>token_a = 1, token_b = 2\<rparr> High) \<lparr>a_to_b = True, amount_in = 5,
     min_amount_out = 1, sw_deadline = 9, oracle_twap = 0, sw_timestamp = 5\<rparr>) = Err EmptyReserve
   \<and> reserve_a (snd (swap (pair_new \<lparr>token_a = 1, token_b = 2\<rparr> High) \<lparr>a_to_b = True,
     amount_in = 5, min_amount_out = 1, sw_deadline = 9, oracle_twap = 0, sw_timestamp = 5\<rparr>)) = 0"
  (is "fst (swap ?s ?p) = _ \<and> _")
proof -
  have "fst (swap ?s ?p) = Err EmptyReserve"
    by (simp add: swap_def guarded_def circuit_check_def acquire_def release_def pair_new_def
        circuit_new_def swap_inner_def swap_amount_def check_deadline_def)
  with swap_never_violates[of ?s ?p] show ?thesis by (simp add: pair_new_def)
qed

text \<open>
  the square root of the first deposit. For every product below the largest 128-bit value
  the Newton loop of \<open>integer_sqrt\<close> terminates without panicking and returns the floor of the
  square root.
\<close>

theorem integer_sqrt_correct:
  assumes "n < umax 128"
  shows "\<exists>s. integer_sqrt n = Ok s \<and> s * s \<le> n \<and> n < (s + 1) * (s + 1)"
  by (rule integer_sqrt_floor) (use assms in \<open>simp add: umax_def\<close>)

theorem integer_sqrt_correct_witness:
  "\<exists>s. integer_sqrt 10 = (Ok s :: (amm_error, u128) res) \<and> s * s \<le> 10 \<and> 10 < (s + 1) * (s + 1)"
  using integer_sqrt_correct[of 10] by (simp add: umax_def)

text \<open>
  deposits and withdrawals are fair. A deposit never takes more than the caller offered of
  either token, and a depositor who redeems the minted LP tokens at once gets back at most what
  was taken, in both tokens.
\<close>

theorem deposit_redeem_no_profit:
  assumes add: "add_liquidity self p = (Ok r, self1)" and lp: "0 < total_lp self"
    and rem: "remove_liquidity self1 q = (Ok x, self2)" "lp_amount q = lp_minted r"
  shows "used_a r \<le> add_amount_a p \<and> used_b r \<le> add_amount_b p
    \<and> out_a x \<le> used_a r \<and> out_b x \<le> used_b r"
proof -
  obtain s where i: "add_liquidity_inner (self\<lparr>reentrancy := True\<rparr>) p = (Ok r, s)"
    and s: "self1 = s\<lparr>reentrancy := False\<rparr>"
    using add unfolding add_liquidity_def by (rule guarded_Ok)
  obtain t where j: "remove_liquidity_inner (self1\<lparr>reentrancy := True\<rparr>) q = (Ok x, t)"
    using rem(1) unfolding remove_liquidity_def by (rule guarded_Ok)
  note A = add_liquidity_inner_Ok[OF i, unfolded add_amounts_lock]
  note P = add_amounts_Ok_pos[OF A(1)] and R = remove_liquidity_inner_Ok(1,2)[OF j]
  have "out_a x = lp_minted r * (reserve_a self + used_a r) div (total_lp self + lp_minted r)"
    "out_b x = lp_minted r * (reserve_b self + used_b r) div (total_lp self + lp_minted r)"
    using R rem(2) s A(2) by simp_all
  moreover have "used_a r = lp_minted r * reserve_a self div total_lp self"
    "used_b r = lp_minted r * reserve_b self div total_lp self" using P(1,2) lp by simp_all
  ultimately show ?thesis using P(5,6) lp by (simp add: mint_redeem_le)
qed

theorem deposit_redeem_no_profit_witness:
  "\<exists>self p r self1 q x self2. add_liquidity self p = (Ok r, self1)
    \<and> remove_liquidity self1 q = (Ok x, self2) \<and> lp_amount q = lp_minted r \<and> lp_minted r = 100
    \<and> out_a x \<le> used_a r"
proof -
  let ?s = "(pair_new \<lparr>token_a = 1, token_b = 2\<rparr> Standard)\<lparr>reserve_a := 1000, reserve_b := 5000,
     total_lp := 10000\<rparr>"
  let ?p = "\<lparr>add_amount_a = 10, add_amount_b = 60, min_lp_out = 1, add_deadline = 9, add_timestamp = 5\<rparr>"
  let ?q = "\<lparr>lp_amount = 100, min_a_out = 1, min_b_out = 1, rem_deadline = 9, rem_timestamp = 6\<rparr>"
  let ?r = "\<lparr>lp_minted = 100, used_a = 10, used_b = 50\<rparr>"
  let ?x = "\<lparr>out_a = 10, out_b = 50\<rparr>"
  let ?s1 = "?s\<lparr>reserve_a := 1010, reserve_b := 5050, total_lp := 10100\<rparr>"
  note defs = guarded_def circuit_check_def acquire_def release_def pair_new_def circuit_new_def
    check_deadline_def check_slippage_def safe_mul_div_def u_arith
  have a: "add_liquidity ?s ?p = (Ok ?r, ?s1)"
    by (simp add: add_liquidity_def add_liquidity_inner_def add_amounts_def add_settle_def defs
        del: safe_mul_div_Ok)
  have b: "remove_liquidity ?s1 ?q = (Ok ?x, ?s)"
    by (simp add: remove_liquidity_def remove_liquidity_inner_def defs del: safe_mul_div_Ok)
  have "out_a ?x \<le> used_a ?r" using deposit_redeem_no_profit[OF a _ b] by simp
  then show ?thesis
    by (intro exI[of _ ?s], intro exI[of _ ?p], intro exI[of _ ?r], intro exI[of _ ?s1],
        intro exI[of _ ?q], intro exI[of _ ?x], intro exI[of _ ?s]) (use a b in simp)
qed

text \<open>
  pool invariant. From a new pair, after any sequence of swaps, deposits, withdrawals, pauses
  and resumes with 128-bit amounts, successful or not, the reentrancy lock is free, the reserves
  and the LP supply fit 128 bits, and LP tokens exist exactly when both reserves are nonzero.
\<close>

theorem pool_run_inv:
  assumes "list_all op_fits ops"
  shows "pair_inv (foldl amm_step (pair_new i t) ops)"
  by (rule amm.inv_run[OF pair_inv_new assms])

theorem pool_run_inv_witness:
  "pair_inv (foldl amm_step (pair_new \<lparr>token_a = 1, token_b = 2\<rparr> Lowest)
     [OpAdd \<lparr>add_amount_a = 5000, add_amount_b = 5000, min_lp_out = 0, add_deadline = 9, add_timestamp = 5\<rparr>,
      OpTrip ''exploit'' 7, OpClear])"
  by (rule pool_run_inv) simp

section \<open>What the guards miss\<close>

text \<open>The cast to 32 bits lets a deviation of \<open>2 ^ 32\<close> basis points pass the oracle check.\<close>

lemma oracle_check_truncates: "check_oracle_deviation (10000 + 2 ^ 32) 10000 = Ok ()"
  by (simp add: check_oracle_deviation_def u_arith MAX_ORACLE_DEVIATION_BPS_def)

text \<open>A swap that fails on the new product has already credited the protocol fee.\<close>

lemma failed_swap_credits_fee:
  "\<exists>self p. fst (swap_inner self p) = Err InvariantOverflow \<and> fee_a (snd (swap_inner self p)) \<noteq> fee_a self"
proof (intro exI)
  let ?s = "(pair_new \<lparr>token_a = 1, token_b = 2\<rparr> Standard)\<lparr>reserve_a := 2 ^ 108 - 1,
     reserve_b := 2 ^ 20, total_lp := 1\<rparr>"
  let ?p = "\<lparr>a_to_b = True, amount_in = 2 ^ 89, min_amount_out = 1, sw_deadline = 9,
     oracle_twap = 0, sw_timestamp = 5\<rparr>"
  show "fst (swap_inner ?s ?p) = Err InvariantOverflow \<and> fee_a (snd (swap_inner ?s ?p)) \<noteq> fee_a ?s"
    by (simp add: pair_new_def swap_inner_def swap_amount_def swap_settle_def check_deadline_def
        check_oracle_deviation_def check_price_impact_def check_reserve_drain_def check_slippage_def
        split_fee_def protocol_bps_def u_arith MAX_PRICE_IMPACT_BPS_def MAX_RESERVE_DRAIN_BPS_def)
qed

text \<open>
  The minimum liquidity is deducted from the first mint but never added to the supply, so the
  first depositor owns all of it and can empty the pool.
\<close>

lemma first_deposit_not_locked:
  assumes "add_liquidity_inner self p = (Ok r, self')" "total_lp self = 0"
  shows "total_lp self' = lp_minted r"
  using add_liquidity_inner_Ok(2)[OF assms(1)] assms(2) by simp

end
