(* ===== verification/Lp_Token.thy ===== *)
theory Lp_Token
  imports Amm
begin

text \<open>
  Liquidity-token accounting, \<open>zbx-pool/src/lp_token.rs\<close>. The two hash maps of the registry
  are maps; \<open>entry(..).or_insert(0)\<close> writes the zero it reads, so a failed burn leaves an
  explicit zero balance behind, and indexing the supply map with a missing pair panics. The
  additions of \<open>mint\<close> are unchecked and wrap at 128 bits.
\<close>

section \<open>The registry\<close>

datatype lp_error = InsufficientBalance u128 u128 | ZeroAddressTransfer

record lp_registry =
  balances :: "pair_id \<rightharpoonup> address \<rightharpoonup> u128"
  supplies :: "pair_id \<rightharpoonup> u128"

definition lp_new :: lp_registry where
  "lp_new = \<lparr>balances = Map.empty, supplies = Map.empty\<rparr>"

definition or_zero :: "u128 option \<Rightarrow> u128" where
  "or_zero x = (case x of None \<Rightarrow> 0 | Some v \<Rightarrow> v)"

definition holders :: "lp_registry \<Rightarrow> pair_id \<Rightarrow> address \<rightharpoonup> u128" where
  "holders r pair = (case balances r pair of None \<Rightarrow> Map.empty | Some m \<Rightarrow> m)"

definition balance :: "lp_registry \<Rightarrow> pair_id \<Rightarrow> address \<Rightarrow> u128" where
  "balance r pair owner = or_zero (holders r pair owner)"

definition total_supply :: "lp_registry \<Rightarrow> pair_id \<Rightarrow> u128" where
  "total_supply r pair = or_zero (supplies r pair)"

definition put_balance :: "lp_registry \<Rightarrow> pair_id \<Rightarrow> address \<Rightarrow> u128 \<Rightarrow> lp_registry" where
  "put_balance r pair owner v = r\<lparr>balances := (balances r)(pair \<mapsto> (holders r pair)(owner \<mapsto> v))\<rparr>"

definition mint :: "lp_registry \<Rightarrow> pair_id \<Rightarrow> address \<Rightarrow> u128 \<Rightarrow> lp_registry" where
  "mint r pair to amount =
     (if amount = 0 then r
      else (let r1 = put_balance r pair to (wrap_add 128 (balance r pair to) amount)
            in r1\<lparr>supplies := (supplies r1)(pair \<mapsto> wrap_add 128 (total_supply r1 pair) amount)\<rparr>))"

definition burn ::
  "lp_registry \<Rightarrow> pair_id \<Rightarrow> address \<Rightarrow> u128 \<Rightarrow> (lp_error, unit) res \<times> lp_registry" where
  "burn r pair from amount =
     (let bal = balance r pair from; r0 = put_balance r pair from bal in
      if bal < amount then (Err (InsufficientBalance bal amount), r0)
      else (let r1 = put_balance r0 pair from (bal - amount) in
            case supplies r1 pair of
              None \<Rightarrow> (Panic, r1)
            | Some t \<Rightarrow> (Ok (), r1\<lparr>supplies := (supplies r1)(pair \<mapsto> t - amount)\<rparr>)))"

definition lp_transfer ::
  "lp_registry \<Rightarrow> pair_id \<Rightarrow> address \<Rightarrow> address \<Rightarrow> u128 \<Rightarrow> (lp_error, unit) res \<times> lp_registry" where
  "lp_transfer r pair from to amount =
     (if to = 0 then (Err ZeroAddressTransfer, r)
      else (case burn r pair from amount of
              (Ok _, r1) \<Rightarrow> (Ok (), mint r1 pair to amount)
            | (Err e, r1) \<Rightarrow> (Err e, r1)
            | (Panic, r1) \<Rightarrow> (Panic, r1)))"

section \<open>Conservation\<close>

datatype lp_op =
    Lp_Mint pair_id address u128
  | Lp_Burn pair_id address u128
  | Lp_Transfer pair_id address address u128

primrec lp_step :: "lp_registry \<Rightarrow> lp_op \<Rightarrow> lp_registry" where
  "lp_step r (Lp_Mint p a n) = mint r p a n"
| "lp_step r (Lp_Burn p a n) = snd (burn r p a n)"
| "lp_step r (Lp_Transfer p a b n) = snd (lp_transfer r p a b n)"

primrec minted :: "lp_op \<Rightarrow> nat" where
  "minted (Lp_Mint p a n) = n"
| "minted (Lp_Burn p a n) = 0"
| "minted (Lp_Transfer p a b n) = 0"

text \<open>The tokens of a pair that its holders have between them.\<close>

definition held :: "lp_registry \<Rightarrow> pair_id \<Rightarrow> nat" where
  "held r pair = (\<Sum>a \<in> UNIV. balance r pair a)"

definition lp_inv :: "nat \<Rightarrow> lp_registry \<Rightarrow> bool" where
  "lp_inv cap r \<longleftrightarrow> (\<forall>p. held r p = total_supply r p \<and> total_supply r p \<le> cap)"

lemma finite_address [simp]: "finite (UNIV :: address set)"
  by simp

lemma or_zero_simps [simp]: "or_zero None = 0" "or_zero (Some v) = v"
  by (simp_all add: or_zero_def)

lemma balance_put_balance [simp]:
  "balance (put_balance r p a v) q b = (if q = p \<and> b = a then v else balance r q b)"
  by (simp add: balance_def holders_def put_balance_def)

lemma put_balance_supplies [simp]:
  "supplies (put_balance r p a v) = supplies r" "total_supply (put_balance r p a v) = total_supply r"
  by (simp_all add: put_balance_def total_supply_def fun_eq_iff)

lemma supplies_update [simp]:
  "balance (r\<lparr>supplies := m\<rparr>) = balance r"
  "total_supply (r\<lparr>supplies := m(p \<mapsto> v)\<rparr>) q = (if q = p then v else or_zero (m q))"
  by (simp_all add: balance_def holders_def total_supply_def fun_eq_iff)

lemma or_zero_supplies [simp]: "or_zero (supplies r p) = total_supply r p"
  by (simp add: total_supply_def)

lemma held_put_balance:
  "held (put_balance r p a v) q + (if q = p then balance r p a else 0)
   = held r q + (if q = p then v else 0)"
proof (cases "q = p")
  case True
  have "(\<Sum>b \<in> UNIV. balance (put_balance r p a v) p b) =
    v + (\<Sum>b \<in> UNIV - {a}. balance (put_balance r p a v) p b)"
    by (subst sum.remove[of UNIV a]) auto
  also have "(\<Sum>b \<in> UNIV - {a}. balance (put_balance r p a v) p b) = (\<Sum>b \<in> UNIV - {a}. balance r p b)"
    by (intro sum.cong) auto
  finally have "held (put_balance r p a v) p = v + (\<Sum>b \<in> UNIV - {a}. balance r p b)"
    by (simp add: held_def)
  moreover have "held r p = balance r p a + (\<Sum>b \<in> UNIV - {a}. balance r p b)"
    unfolding held_def by (subst sum.remove[of UNIV a]) auto
  ultimately show ?thesis using True by simp
qed (simp add: held_def)

lemma held_supplies_update [simp]: "held (r\<lparr>supplies := m\<rparr>) = held r"
  by (simp add: held_def fun_eq_iff)

lemma balance_le_held: "balance r p a \<le> held r p"
  unfolding held_def by (intro member_le_sum) auto

lemma lp_inv_le: "lp_inv cap r \<Longrightarrow> total_supply r p \<le> cap"
  by (simp add: lp_inv_def)

lemma balance_le_supply: "lp_inv cap r \<Longrightarrow> balance r p a \<le> total_supply r p"
  using balance_le_held[of r p a] by (simp add: lp_inv_def)

lemma mint_inv:
  assumes "lp_inv cap r" "total_supply r p + n \<le> cap'" "cap \<le> cap'" "cap' < 2 ^ 128"
  shows "lp_inv cap' (mint r p a n)"
proof -
  have "balance r p a + n < 2 ^ 128" "total_supply r p + n < 2 ^ 128"
    using assms(2,4) balance_le_supply[OF assms(1), of p a] by linarith+
  then have w: "wrap_add 128 (balance r p a) n = balance r p a + n"
    "wrap_add 128 (total_supply r p) n = total_supply r p + n"
    by (auto intro: wrap_add_exact)
  have "held (put_balance r p a (balance r p a + n)) q = held r q + (if q = p then n else 0)" for q
    using held_put_balance[of r p a "balance r p a + n" q] by (auto split: if_splits)
  then show ?thesis
    using assms(1-3) by (auto simp: lp_inv_def mint_def Let_def w intro: order_trans)
qed

lemma burn_cases:
  obtains (short) "balance r p a < n"
      "burn r p a n = (Err (InsufficientBalance (balance r p a) n), put_balance r p a (balance r p a))"
  | (missing) "n \<le> balance r p a" "supplies r p = None" "fst (burn r p a n) = Panic"
      "snd (burn r p a n) = put_balance (put_balance r p a (balance r p a)) p a (balance r p a - n)"
  | (burnt) t where "n \<le> balance r p a" "supplies r p = Some t" "burn r p a n =
      (Ok (), (put_balance (put_balance r p a (balance r p a)) p a (balance r p a - n))
        \<lparr>supplies := (supplies r)(p \<mapsto> t - n)\<rparr>)"
  by (cases "balance r p a < n"; cases "supplies r p") (auto simp: burn_def Let_def)

lemma held_same: "held (put_balance r p a (balance r p a)) q = held r q"
  using held_put_balance[of r p a "balance r p a" q] by (auto split: if_splits)

lemma burn_inv:
  assumes "lp_inv cap r"
  shows "lp_inv cap (snd (burn r p a n))"
proof (cases rule: burn_cases[of r p a n])
  case short
  then show ?thesis using assms by (simp add: lp_inv_def held_same)
next
  case missing
  then have "total_supply r p = 0" by (simp add: total_supply_def)
  then have "balance r p a = 0" using assms balance_le_held[of r p a] by (simp add: lp_inv_def)
  then show ?thesis using assms missing held_same[of "put_balance r p a 0" p a] held_same[of r p a]
    by (simp add: lp_inv_def)
next
  case (burnt t)
  let ?r1 = "put_balance r p a (balance r p a)"
  have "held (put_balance ?r1 p a (balance r p a - n)) q = held r q - (if q = p then n else 0)" for q
    using held_put_balance[of ?r1 p a "balance r p a - n" q] held_same[of r p a] burnt(1)
    by (auto split: if_splits)
  moreover have "total_supply r p = t" using burnt(2) by (simp add: total_supply_def)
  moreover have "total_supply r p - n \<le> cap"
    using lp_inv_le[OF assms, of p] by linarith
  ultimately show ?thesis using assms burnt(3) by (auto simp: lp_inv_def)
qed

lemma burn_supply:
  assumes "fst (burn r p a n) = Ok u" "lp_inv cap r"
  shows "n \<le> total_supply r p" "total_supply (snd (burn r p a n)) p = total_supply r p - n"
    "\<And>q. q \<noteq> p \<Longrightarrow> total_supply (snd (burn r p a n)) q = total_supply r q"
proof -
  have "n \<le> balance r p a \<and> (\<exists>t. supplies r p = Some t \<and> burn r p a n =
      (Ok (), (put_balance (put_balance r p a (balance r p a)) p a (balance r p a - n))
        \<lparr>supplies := (supplies r)(p \<mapsto> t - n)\<rparr>))"
    using assms(1) by (cases rule: burn_cases[of r p a n]) simp_all
  then obtain t where t: "n \<le> balance r p a" "supplies r p = Some t"
    "snd (burn r p a n) = (put_balance (put_balance r p a (balance r p a)) p a (balance r p a - n))
        \<lparr>supplies := (supplies r)(p \<mapsto> t - n)\<rparr>" by auto
  have "total_supply r p = t" using t(2) by (simp add: total_supply_def)
  then show "total_supply (snd (burn r p a n)) p = total_supply r p - n" using t(3) by simp
  show "n \<le> total_supply r p" using t(1) balance_le_supply[OF assms(2), of p a] by linarith
  show "total_supply (snd (burn r p a n)) q = total_supply r q" if "q \<noteq> p" for q
    using t(3) that by simp
qed

lemma transfer_inv:
  assumes "lp_inv cap r" "cap < 2 ^ 128"
  shows "lp_inv cap (snd (lp_transfer r p a b n))"
proof (cases "b = 0")
  case False
  note inv = burn_inv[OF assms(1), of p a n]
  show ?thesis
  proof (cases "fst (burn r p a n)")
    case (Ok u)
    have "total_supply (snd (burn r p a n)) p + n \<le> cap"
      using burn_supply(1,2)[OF Ok assms(1)] assms(1) by (simp add: lp_inv_def)
    from mint_inv[OF inv this order_refl assms(2)] False Ok show ?thesis
      by (simp add: lp_transfer_def split_beta)
  qed (use False inv in \<open>simp_all add: lp_transfer_def split_beta\<close>)
qed (use assms in \<open>simp add: lp_transfer_def\<close>)

lemma lp_step_inv:
  assumes "lp_inv cap r" "cap + minted op < 2 ^ 128"
  shows "lp_inv (cap + minted op) (lp_step r op)"
proof (cases op)
  case (Lp_Mint p a n)
  have "lp_inv (cap + n) (mint r p a n)"
    using assms Lp_Mint lp_inv_le[OF assms(1), of p] by (intro mint_inv[OF assms(1)]) simp_all
  then show ?thesis using Lp_Mint by simp
next
  case (Lp_Burn p a n)
  then show ?thesis using assms by (simp add: burn_inv)
next
  case (Lp_Transfer p a b n)
  then show ?thesis using assms transfer_inv[of cap r p a b n] by simp
qed

lemma lp_run_inv:
  "lp_inv cap r \<Longrightarrow> cap + sum_list (map minted ops) < 2 ^ 128 \<Longrightarrow>
   lp_inv (cap + sum_list (map minted ops)) (foldl lp_step r ops)"
proof (induction ops arbitrary: cap r)
  case (Cons op ops)
  have "lp_inv (cap + minted op) (lp_step r op)"
    using Cons.prems by (intro lp_step_inv) simp_all
  from Cons.IH[OF this] Cons.prems show ?case by (simp add: add.assoc)
qed simp

text \<open>
  from an empty registry, after any sequence of mints, burns and transfers (failed ones
  included), what the holders of a pair have between them is its total supply, as long as the
  amounts ever minted fit in 128 bits: a transfer neither creates nor destroys tokens and a
  failed operation changes no balance.
\<close>

theorem lp_run_conserves:
  assumes "sum_list (map minted ops) < 2 ^ 128"
  shows "(\<Sum>a \<in> UNIV. balance (foldl lp_step lp_new ops) p a) = total_supply (foldl lp_step lp_new ops) p"
proof -
  have "lp_inv 0 lp_new"
    by (simp add: lp_inv_def held_def balance_def holders_def total_supply_def lp_new_def)
  from lp_run_inv[OF this, of ops] assms show ?thesis by (simp add: lp_inv_def held_def)
qed

theorem lp_run_conserves_witness:
  "(\<Sum>a \<in> UNIV. balance (foldl lp_step lp_new
      [Lp_Mint \<lparr>token_a = 1, token_b = 2\<rparr> 7 100, Lp_Transfer \<lparr>token_a = 1, token_b = 2\<rparr> 7 8 40])
      \<lparr>token_a = 1, token_b = 2\<rparr> a)
   = total_supply (foldl lp_step lp_new
      [Lp_Mint \<lparr>token_a = 1, token_b = 2\<rparr> 7 100, Lp_Transfer \<lparr>token_a = 1, token_b = 2\<rparr> 7 8 40])
      \<lparr>token_a = 1, token_b = 2\<rparr>"
  by (rule lp_run_conserves) simp

text \<open>
  Burning nothing panics for a pair that was never minted, where a result is declared: the
  balance check passes and \<open>self.total_supply[pair]\<close> indexes a missing key.
\<close>

lemma burn_zero_panics: "fst (burn lp_new p a 0) = Panic"
  by (simp add: burn_def lp_new_def balance_def holders_def put_balance_def)

end
