(* ===== verification/Validators.thy ===== *)
theory Validators
  imports Prelude "HOL-Library.AList" "HOL-Library.Multiset" "HOL-Library.Product_Lexorder"
begin

text \<open>
  The validator set of \<open>zbx-staking\<close>: \<open>validator.rs\<close> (registration, delegation totals,
  election) and \<open>rewards.rs\<close> (interval reward distribution and claims), with the error type of
  \<open>error.rs\<close>, the constants of \<open>lib.rs\<close> and the subsidy schedule of
  \<open>zbx-types/src/lib.rs\<close>.

  The hash map of validators is an association list whose order stands for the iteration
  order of the map; that the election does not depend on it is a theorem. \<open>verify_pop\<close>, the
  BLS proof-of-possession check of the pairing library, is an argument of the operation that
  calls it. Amounts are 128-bit; unchecked sums and products wrap.
\<close>

section \<open>Constants and errors (lib.rs, error.rs)\<close>

definition MIN_SELF_STAKE :: u128 where "MIN_SELF_STAKE = 100000 * 10 ^ 18"
definition MAX_VALIDATORS :: usize where "MAX_VALIDATORS = 100"
definition REWARD_INTERVAL :: u64 where "REWARD_INTERVAL = 100"
definition INITIAL_BLOCK_REWARD :: u128 where "INITIAL_BLOCK_REWARD = 2 * 10 ^ 18"
definition HALVING_INTERVAL :: u64 where "HALVING_INTERVAL = 63072000"

definition block_reward_at :: "u64 \<Rightarrow> u128" where
  "block_reward_at height =
     (let halvings = height div HALVING_INTERVAL
      in if halvings \<ge> 64 then 0 else drop_bit halvings INITIAL_BLOCK_REWARD)"

datatype staking_error =
    AlreadyRegistered address
  | NotFound address
  | InsufficientSelfStake u128 u128
  | UnbondingPeriod u64
  | StJailed
  | DelegationTooSmall u128
  | NoPendingRewards address
  | EpochNotComplete
  | InvalidEvidence string
  | DuplicateEvidence
  | EvidenceNotFound
  | AppealNotAllowed
  | AppealWindowExpired
  | Persistence string
  | InvalidAmount
  | InsufficientStake
  | UnknownValidator
  | NoDelegation
  | UnexpectedValue u128 u128
  | InsufficientDelegation u128 u128
  | NothingToWithdraw
  | NotAValidator address
  | BadPayload string
  | EscrowUnderflow u128 u128
  | AppealNotByOffender
  | AppealBondMismatch u128 u128
  | OverturnNotAllowed

section \<open>A validator (validator.rs)\<close>

type_synonym bls_pubkey = "byte list"
type_synonym bls_signature = "byte list"

datatype validator_status = Pending | Active | Jailed | Unbonding u64 | Inactive | Tombstoned

record validator =
  vaddress :: address
  bls_key :: bls_pubkey
  self_stake :: u128
  delegated_stake :: u128
  commission_bps :: nat
  status :: validator_status
  last_signed_block :: u64
  pending_rewards :: u128
  delegator_reward_pool :: u128
  pool_denominator :: u128
  registered_epoch :: u64

definition total_stake :: "validator \<Rightarrow> u128" where
  "total_stake v = sat_add 128 (self_stake v) (delegated_stake v)"

definition is_active :: "validator \<Rightarrow> bool" where
  "is_active v \<longleftrightarrow> status v = Active"

fun excluded :: "validator_status \<Rightarrow> bool" where
  "excluded Jailed = True"
| "excluded Inactive = True"
| "excluded (Unbonding b) = True"
| "excluded Tombstoned = True"
| "excluded Pending = False"
| "excluded Active = False"

definition is_eligible :: "validator \<Rightarrow> bool" where
  "is_eligible v \<longleftrightarrow> MIN_SELF_STAKE \<le> self_stake v \<and> \<not> excluded (status v)"

definition commission_of :: "validator \<Rightarrow> u128 \<Rightarrow> u128" where
  "commission_of v reward =
     (case checked_mul 128 reward (commission_bps v) of
        Some p \<Rightarrow> p div 10000
      | None \<Rightarrow> wrap_mul 128 (reward div 10000) (commission_bps v))"

definition claim_delegator_share :: "validator \<Rightarrow> u128 \<Rightarrow> u128 \<times> validator" where
  "claim_delegator_share v delegator_stake =
     (let pool = delegator_reward_pool v; denom = pool_denominator v in
      if pool = 0 then (0, v)
      else
       (let share =
             (if denom > 0
              then (case checked_mul 128 pool delegator_stake of
                      Some p \<Rightarrow> p div denom
                    | None \<Rightarrow> sat_mul 128 (pool div denom) delegator_stake)
              else pool);
            share = min share pool
        in (share, v\<lparr>delegator_reward_pool := pool - share,
                     pool_denominator := denom - delegator_stake\<rparr>)))"

section \<open>The validator set (validator.rs)\<close>

record validator_set =
  validators :: "(address \<times> validator) list"
  active_set :: "address list"
  current_epoch :: u64

definition validator_set_new :: validator_set where
  "validator_set_new = \<lparr>validators = [], active_set = [], current_epoch = 0\<rparr>"

definition get :: "validator_set \<Rightarrow> address \<Rightarrow> validator option" where
  "get s a = map_of (validators s) a"

text \<open>Writing through the reference \<open>get_mut\<close> returns.\<close>

definition put :: "validator_set \<Rightarrow> address \<Rightarrow> validator \<Rightarrow> validator_set" where
  "put s a v = s\<lparr>validators := AList.update a v (validators s)\<rparr>"

definition register ::
  "validator_set \<Rightarrow> address \<Rightarrow> bls_pubkey \<Rightarrow> u128 \<Rightarrow> nat \<Rightarrow> (staking_error, unit) res \<times> validator_set" where
  "register s address bls_pubkey stake bps =
     (if get s address \<noteq> None then (Err (AlreadyRegistered address), s)
      else if stake < MIN_SELF_STAKE then (Err (InsufficientSelfStake stake MIN_SELF_STAKE), s)
      else (Ok (), put s address
        \<lparr>vaddress = address, bls_key = bls_pubkey, self_stake = stake, delegated_stake = 0,
         commission_bps = min bps 2000, status = Pending, last_signed_block = 0,
         pending_rewards = 0, delegator_reward_pool = 0, pool_denominator = 0,
         registered_epoch = current_epoch s\<rparr>))"

definition register_with_pop ::
  "(bls_pubkey \<Rightarrow> bls_signature \<Rightarrow> address \<Rightarrow> bool) \<Rightarrow> validator_set \<Rightarrow> address \<Rightarrow> bls_pubkey \<Rightarrow>
   bls_signature \<Rightarrow> u128 \<Rightarrow> nat \<Rightarrow> (staking_error, unit) res \<times> validator_set" where
  "register_with_pop verify_pop s address bls_pubkey bls_pop stake bps =
     (if \<not> verify_pop bls_pubkey bls_pop address
      then (Err (InvalidEvidence ''BLS Proof-of-Possession does not verify under keccak256(address || \"zbx-bls-pop-v1\")''), s)
      else register s address bls_pubkey stake bps)"

definition delegate ::
  "validator_set \<Rightarrow> address \<Rightarrow> u128 \<Rightarrow> (staking_error, unit) res \<times> validator_set" where
  "delegate s to amount =
     try_st (ok_or (get s to) (NotFound to)) s (\<lambda>v.
     if excluded (status v) then (Err StJailed, s)
     else (Ok (), put s to (v\<lparr>delegated_stake := sat_add 128 (delegated_stake v) amount\<rparr>)))"

definition undelegate ::
  "validator_set \<Rightarrow> address \<Rightarrow> u128 \<Rightarrow> (staking_error, unit) res \<times> validator_set" where
  "undelegate s from amount =
     try_st (ok_or (get s from) (NotFound from)) s (\<lambda>v.
     if delegated_stake v < amount
     then (Err (InsufficientDelegation (delegated_stake v) amount), s)
     else (Ok (), put s from (v\<lparr>delegated_stake := delegated_stake v - amount\<rparr>)))"

definition claim_rewards ::
  "validator_set \<Rightarrow> address \<Rightarrow> (staking_error, u128) res \<times> validator_set" where
  "claim_rewards s validator =
     try_st (ok_or (get s validator) (NotAValidator validator)) s (\<lambda>v.
     (Ok (pending_rewards v), put s validator (v\<lparr>pending_rewards := 0\<rparr>)))"

text \<open>
  The sort compares stakes in descending order and breaks ties by ascending address, which is
  the lexicographic order of the key below.
\<close>

definition eligible :: "validator_set \<Rightarrow> (address \<times> u128) list" where
  "eligible s = map (\<lambda>(k, v). (vaddress v, total_stake v))
     (filter (\<lambda>(k, v). is_eligible v) (validators s))"

definition rank_key :: "address \<times> u128 \<Rightarrow> int \<times> address" where
  "rank_key e = (- int (snd e), fst e)"

definition new_set :: "validator_set \<Rightarrow> address list" where
  "new_set s = map fst (take MAX_VALIDATORS (sort_key rank_key (eligible s)))"

definition demote :: "address list \<Rightarrow> (address \<times> validator) list \<Rightarrow> address \<Rightarrow> (address \<times> validator) list" where
  "demote elected vs a =
     (if a \<in> set elected then vs
      else AList.map_entry a (\<lambda>v. if status v = Active then v\<lparr>status := Pending\<rparr> else v) vs)"

definition promote :: "(address \<times> validator) list \<Rightarrow> address \<Rightarrow> (address \<times> validator) list" where
  "promote vs a = AList.map_entry a (\<lambda>v. if status v \<noteq> Tombstoned then v\<lparr>status := Active\<rparr> else v) vs"

definition elect_active_set :: "validator_set \<Rightarrow> address list \<times> validator_set" where
  "elect_active_set s =
     (let elected = new_set s;
          vs1 = foldl (demote elected) (validators s) (active_set s);
          vs2 = foldl promote vs1 elected
      in (elected, s\<lparr>validators := vs2, active_set := elected,
                     current_epoch := wrap_add 64 (current_epoch s) 1\<rparr>))"

definition active_bls_keys :: "validator_set \<Rightarrow> bls_pubkey list" where
  "active_bls_keys s = map bls_key (List.map_filter (get s) (active_set s))"

fun barred :: "validator_status \<Rightarrow> bool" where
  "barred Jailed = True"
| "barred Tombstoned = True"
| "barred Inactive = True"
| "barred (Unbonding b) = False"
| "barred Pending = False"
| "barred Active = False"

definition is_active_validator :: "validator_set \<Rightarrow> address \<Rightarrow> bool" where
  "is_active_validator s a \<longleftrightarrow> a \<in> set (active_set s)
     \<and> (case get s a of None \<Rightarrow> False | Some v \<Rightarrow> \<not> barred (status v))"

definition total_stake_of :: "validator_set \<Rightarrow> address \<Rightarrow> u128 option" where
  "total_stake_of s a = map_option total_stake (get s a)"

section \<open>Rewards (rewards.rs)\<close>

text \<open>\<open>Iterator::sum\<close> adds with the wrapping operator.\<close>

definition sum_u128 :: "u128 list \<Rightarrow> u128" where
  "sum_u128 xs = foldl (wrap_add 128) 0 xs"

definition interval_escrow_mint :: "u64 \<Rightarrow> u128 \<Rightarrow> u128" where
  "interval_escrow_mint block_height accumulated_fees =
     (if block_height mod REWARD_INTERVAL \<noteq> 0 then 0
      else (let window_start = block_height - (REWARD_INTERVAL - 1);
                interval_base = sum_u128 (map block_reward_at [window_start ..< Suc block_height])
            in sat_add 128 interval_base accumulated_fees))"

definition credit_active :: "u128 \<Rightarrow> u128 \<Rightarrow> validator \<Rightarrow> validator" where
  "credit_active committee_share total_active_stake v =
     (let weight = total_stake v;
          total_reward = wrap_mul 128 committee_share weight div total_active_stake in
      if total_reward = 0 then v
      else if delegated_stake v = 0
      then v\<lparr>pending_rewards := sat_add 128 (pending_rewards v) total_reward\<rparr>
      else
       (let self_share =
              (case checked_mul 128 total_reward (self_stake v) of
                 Some p \<Rightarrow> p div weight
               | None \<Rightarrow> wrap_mul 128 (total_reward div weight) (self_stake v));
            deleg_gross = total_reward - self_share;
            commission = commission_of v deleg_gross;
            net_deleg = deleg_gross - commission
        in v\<lparr>pending_rewards := sat_add 128 (sat_add 128 (pending_rewards v) self_share) commission,
             pool_denominator := delegated_stake v,
             delegator_reward_pool := sat_add 128 (delegator_reward_pool v) net_deleg\<rparr>))"

definition total_active_stake :: "validator_set \<Rightarrow> u128" where
  "total_active_stake s = sum_u128 (map total_stake (List.map_filter (get s) (active_set s)))"

definition distribute_block_reward ::
  "validator_set \<Rightarrow> u64 \<Rightarrow> address \<Rightarrow> u128 \<Rightarrow> validator_set" where
  "distribute_block_reward s block_height proposer accumulated_fees =
     (if block_height mod REWARD_INTERVAL \<noteq> 0 then s
      else
       (let window_start = block_height - (REWARD_INTERVAL - 1);
            interval_base = sum_u128 (map block_reward_at [window_start ..< Suc block_height]);
            total = sat_add 128 interval_base accumulated_fees in
        if total = 0 then s
        else
         (let proposer_bonus = total div 10;
              committee_share = total - proposer_bonus;
              stake = total_active_stake s in
          if stake = 0 then s
          else
           (let vs1 = AList.map_entry proposer
                  (\<lambda>v. v\<lparr>pending_rewards := sat_add 128 (pending_rewards v) proposer_bonus\<rparr>)
                  (validators s);
                vs2 = foldl (\<lambda>vs a. AList.map_entry a (credit_active committee_share stake) vs)
                  vs1 (active_set s)
            in s\<lparr>validators := vs2\<rparr>))))"

definition distributor_claim_rewards ::
  "validator_set \<Rightarrow> address \<Rightarrow> (staking_error, u128) res \<times> validator_set" where
  "distributor_claim_rewards s validator =
     try_st (ok_or (get s validator) (NotFound validator)) s (\<lambda>v.
     if pending_rewards v = 0 then (Err (NoPendingRewards validator), s)
     else (Ok (pending_rewards v), put s validator (v\<lparr>pending_rewards := 0\<rparr>)))"

definition claim_delegator_reward ::
  "validator_set \<Rightarrow> address \<Rightarrow> address \<Rightarrow> u128 \<Rightarrow> (staking_error, u128) res \<times> validator_set" where
  "claim_delegator_reward s validator delegator delegator_stake =
     (if delegator_stake = 0 then (Err (NoPendingRewards delegator), s)
      else
       try_st (ok_or (get s validator) (NotFound validator)) s (\<lambda>v.
       let (share, v') = claim_delegator_share v delegator_stake; s' = put s validator v' in
       if share = 0 then (Err (NoPendingRewards delegator), s') else (Ok share, s')))"


section \<open>Election\<close>

lemma inj_rank_key: "inj rank_key"
  by (auto simp: inj_def rank_key_def prod_eq_iff)

lemma new_set_perm:
  assumes "mset (validators s) = mset (validators t)"
  shows "new_set s = new_set t"
proof -
  have "mset (eligible s) = mset (eligible t)"
    using assms unfolding eligible_def by (simp only: mset_map mset_filter)
  then have "sort_key rank_key (eligible s) = sort_key rank_key (eligible t)"
    by (intro sort_key_inj_key_eq) (auto intro: inj_on_subset[OF inj_rank_key])
  then show ?thesis by (simp add: new_set_def)
qed

definition vs_keys :: "validator_set \<Rightarrow> address list" where
  "vs_keys s = map fst (validators s)"

definition vs_ok :: "address list \<Rightarrow> address \<Rightarrow> validator \<Rightarrow> bool" where
  "vs_ok active k v \<longleftrightarrow> vaddress v = k \<and> commission_bps v \<le> 2000 \<and> self_stake v < 2 ^ 128
     \<and> (status v = Active \<longrightarrow> k \<in> set active)"

text \<open>
  The invariant of the set: one entry per address, stored under its own address, commission
  at most 20 per cent, every validator marked active is in the active set, and the active set
  is a duplicate-free list of at most 100 registered validators.
\<close>

definition vs_inv :: "validator_set \<Rightarrow> bool" where
  "vs_inv s \<longleftrightarrow> distinct (vs_keys s)
     \<and> list_all (\<lambda>(k, v). vs_ok (active_set s) k v) (validators s)
     \<and> distinct (active_set s) \<and> length (active_set s) \<le> MAX_VALIDATORS
     \<and> list_all (\<lambda>a. a \<in> set (vs_keys s)) (active_set s)"

lemma vs_invD:
  assumes "vs_inv s"
  shows "distinct (vs_keys s)" "distinct (active_set s)" "length (active_set s) \<le> MAX_VALIDATORS"
    "\<And>a. a \<in> set (active_set s) \<Longrightarrow> a \<in> set (vs_keys s)"
    "\<And>k v. get s k = Some v \<Longrightarrow> vs_ok (active_set s) k v"
    "\<And>k v. (k, v) \<in> set (validators s) \<Longrightarrow> vs_ok (active_set s) k v"
  using assms by (auto simp: vs_inv_def list_all_iff get_def dest!: map_of_SomeD)

lemma get_iff:
  assumes "vs_inv s"
  shows "get s k = Some v \<longleftrightarrow> (k, v) \<in> set (validators s)"
  using vs_invD(1)[OF assms] by (auto simp: get_def vs_keys_def dest: map_of_SomeD)

lemma eligible_iff:
  assumes "vs_inv s"
  shows "(a, n) \<in> set (eligible s) \<longleftrightarrow> (\<exists>v. get s a = Some v \<and> is_eligible v \<and> n = total_stake v)"
proof
  assume "(a, n) \<in> set (eligible s)"
  then obtain k v where kv: "(k, v) \<in> set (validators s)" "is_eligible v" "a = vaddress v" "n = total_stake v"
    by (auto simp: eligible_def)
  then have "vaddress v = k" using vs_invD(6)[OF assms kv(1)] by (simp add: vs_ok_def)
  with kv show "\<exists>v. get s a = Some v \<and> is_eligible v \<and> n = total_stake v"
    using get_iff[OF assms] by auto
next
  assume "\<exists>v. get s a = Some v \<and> is_eligible v \<and> n = total_stake v"
  then obtain v where v: "get s a = Some v" "is_eligible v" "n = total_stake v" by blast
  moreover have "vaddress v = a" using vs_invD(5)[OF assms v(1)] by (simp add: vs_ok_def)
  ultimately show "(a, n) \<in> set (eligible s)"
    using get_iff[OF assms] by (force simp: eligible_def)
qed

lemma distinct_eligible:
  assumes "vs_inv s"
  shows "distinct (map fst (eligible s))"
proof -
  have "map fst (eligible s) = map fst (filter (\<lambda>(k, v). is_eligible v) (validators s))"
    using vs_invD(6)[OF assms] by (auto simp: eligible_def vs_ok_def)
  moreover have "distinct (map fst (filter (\<lambda>(k, v). is_eligible v) (validators s)))"
    using vs_invD(1)[OF assms] unfolding vs_keys_def by (rule distinct_map_filter)
  ultimately show ?thesis by simp
qed

lemma sorted_take_drop:
  assumes "sorted (map f xs)" "x \<in> set (take n xs)" "y \<in> set (drop n xs)"
  shows "f x \<le> f y"
proof -
  have "sorted (map f (take n xs) @ map f (drop n xs))"
    using assms(1) by (simp flip: map_append)
  then show ?thesis using assms(2,3) unfolding sorted_append by auto
qed

lemma new_set_facts:
  assumes "vs_inv s"
  shows "length (new_set s) = min MAX_VALIDATORS (length (eligible s))"
    and "distinct (new_set s)"
    and "a \<in> set (new_set s) \<Longrightarrow> \<exists>v. get s a = Some v \<and> is_eligible v"
    and "\<lbrakk>a \<in> set (new_set s); get s a = Some v; get s b = Some w; is_eligible w; b \<notin> set (new_set s)\<rbrakk>
      \<Longrightarrow> total_stake w < total_stake v \<or> total_stake w = total_stake v \<and> a < b"
proof -
  let ?xs = "sort_key rank_key (eligible s)"
  show "length (new_set s) = min MAX_VALIDATORS (length (eligible s))"
    by (simp add: new_set_def min.commute)
  have "mset (map fst ?xs) = mset (map fst (eligible s))" by simp
  then have d: "distinct (map fst ?xs)"
    using distinct_eligible[OF assms] mset_eq_imp_distinct_iff by blast
  then show "distinct (new_set s)" unfolding new_set_def take_map[symmetric] by (rule distinct_take)
  show ex: "\<exists>v. get s a = Some v \<and> is_eligible v" if "a \<in> set (new_set s)" for a
  proof -
    from that obtain n where "(a, n) \<in> set ?xs"
      unfolding new_set_def by (auto dest: in_set_takeD)
    then show ?thesis using eligible_iff[OF assms] by auto
  qed
  assume a: "a \<in> set (new_set s)" "get s a = Some v" and b: "get s b = Some w" "is_eligible w" "b \<notin> set (new_set s)"
  from a(1) obtain n where n: "(a, n) \<in> set (take MAX_VALIDATORS ?xs)" by (auto simp: new_set_def)
  then have "(a, n) \<in> set (eligible s)" by (auto dest: in_set_takeD)
  then have "n = total_stake v" using a(2) eligible_iff[OF assms] by auto
  moreover have "(b, total_stake w) \<in> set ?xs" using b eligible_iff[OF assms] by auto
  then have "(b, total_stake w) \<in> set (drop MAX_VALIDATORS ?xs)"
    using b(3) unfolding new_set_def by (metis UnE append_take_drop_id fst_conv image_eqI list.set_map set_append)
  ultimately have "rank_key (a, total_stake v) \<le> rank_key (b, total_stake w)"
    using n sorted_take_drop[of rank_key ?xs] by simp
  moreover have "a \<noteq> b" using a(1) b(3) by auto
  ultimately show "total_stake w < total_stake v \<or> total_stake w = total_stake v \<and> a < b"
    by (auto simp: rank_key_def less_eq_prod_def)
qed

lemma map_of_map_entry_option:
  "map_of (AList.map_entry a f al) k = (if k = a then map_option f (map_of al k) else map_of al k)"
  by (auto simp: map_of_map_entry split: option.splits)

lemma keys_map_entry [simp]: "map fst (AList.map_entry a f al) = map fst al"
  by (induction al) auto

lemma map_of_demote:
  "map_of (foldl (demote e) al xs) k =
   (if k \<in> set xs \<and> k \<notin> set e
    then map_option (\<lambda>v. if status v = Active then v\<lparr>status := Pending\<rparr> else v) (map_of al k)
    else map_of al k)"
  by (induction xs arbitrary: al)
     (auto simp: demote_def map_of_map_entry_option option.map_comp o_def intro: option.map_cong)

lemma map_of_promote:
  "map_of (foldl promote al xs) k =
   (if k \<in> set xs
    then map_option (\<lambda>v. if status v \<noteq> Tombstoned then v\<lparr>status := Active\<rparr> else v) (map_of al k)
    else map_of al k)"
  by (induction xs arbitrary: al)
     (auto simp: promote_def map_of_map_entry_option option.map_comp o_def intro: option.map_cong)

lemma keys_elect:
  "map fst (foldl (demote e) al xs) = map fst al" "map fst (foldl promote al xs) = map fst al"
  by (induction xs arbitrary: al) (simp_all add: demote_def promote_def)

lemma elect_simps:
  "fst (elect_active_set s) = new_set s"
  "active_set (snd (elect_active_set s)) = new_set s"
  "vs_keys (snd (elect_active_set s)) = vs_keys s"
  by (simp_all add: elect_active_set_def Let_def vs_keys_def keys_elect)

lemma get_elect:
  "get (snd (elect_active_set s)) k = map_option (\<lambda>v.
     if k \<in> set (new_set s) then (if status v \<noteq> Tombstoned then v\<lparr>status := Active\<rparr> else v)
     else if k \<in> set (active_set s) \<and> status v = Active then v\<lparr>status := Pending\<rparr> else v) (get s k)"
  by (cases "get s k") (auto simp: get_def elect_active_set_def Let_def map_of_promote map_of_demote)

lemma elect_status:
  assumes "vs_inv s" "get (snd (elect_active_set s)) k = Some v"
  shows "status v = Active \<longleftrightarrow> k \<in> set (new_set s)"
proof -
  from assms(2) obtain u where u: "get s k = Some u" and v: "v =
     (if k \<in> set (new_set s) then (if status u \<noteq> Tombstoned then u\<lparr>status := Active\<rparr> else u)
     else if k \<in> set (active_set s) \<and> status u = Active then u\<lparr>status := Pending\<rparr> else u)"
    by (auto simp: get_elect)
  have "status u \<noteq> Tombstoned" if "k \<in> set (new_set s)"
    using new_set_facts(3)[OF assms(1) that] u by (auto simp: is_eligible_def)
  moreover have "k \<in> set (active_set s)" if "status u = Active"
    using vs_invD(5)[OF assms(1) u] that by (simp add: vs_ok_def)
  ultimately show ?thesis using v by (auto split: if_splits)
qed

text \<open>An entry-wise criterion for the invariant.\<close>

lemma vs_invI:
  assumes "distinct (vs_keys s)" "\<And>k v. get s k = Some v \<Longrightarrow> vs_ok (active_set s) k v"
    "distinct (active_set s)" "length (active_set s) \<le> MAX_VALIDATORS"
    "\<And>a. a \<in> set (active_set s) \<Longrightarrow> a \<in> set (vs_keys s)"
  shows "vs_inv s"
  using assms by (auto simp: vs_inv_def list_all_iff get_def vs_keys_def)

lemma get_keys: "a \<in> set (vs_keys s) \<longleftrightarrow> get s a \<noteq> None"
  by (auto simp: vs_keys_def get_def map_of_eq_None_iff)

lemma elect_inv:
  assumes "vs_inv s"
  shows "vs_inv (snd (elect_active_set s))"
proof (rule vs_invI)
  show "distinct (vs_keys (snd (elect_active_set s)))" using vs_invD(1)[OF assms] by (simp add: elect_simps)
  show "distinct (active_set (snd (elect_active_set s)))" using new_set_facts(2)[OF assms] by (simp add: elect_simps)
  show "length (active_set (snd (elect_active_set s))) \<le> MAX_VALIDATORS"
    using new_set_facts(1)[OF assms] by (simp add: elect_simps)
  show "a \<in> set (vs_keys (snd (elect_active_set s)))" if "a \<in> set (active_set (snd (elect_active_set s)))" for a
    using that new_set_facts(3)[OF assms] by (auto simp: elect_simps get_keys)
  show "vs_ok (active_set (snd (elect_active_set s))) k v" if k: "get (snd (elect_active_set s)) k = Some v" for k v
  proof -
    from k obtain u where u: "get s k = Some u" "vaddress v = vaddress u" "commission_bps v = commission_bps u"
        "self_stake v = self_stake u"
      by (auto simp: get_elect)
    then show ?thesis using vs_invD(5)[OF assms u(1)] elect_status[OF assms k]
      by (simp add: vs_ok_def elect_simps)
  qed
qed

lemma get_put [simp]: "get (put s a v) k = (if k = a then Some v else get s k)"
  by (simp add: get_def put_def update_conv)

lemma put_inv:
  assumes "vs_inv s" "vs_ok (active_set s) a v"
  shows "vs_inv (put s a v)"
proof (rule vs_invI)
  show "distinct (vs_keys (put s a v))"
    using vs_invD(1)[OF assms(1)] by (simp add: vs_keys_def put_def distinct_update)
  show "a' \<in> set (vs_keys (put s a v))" if "a' \<in> set (active_set (put s a v))" for a'
    using that vs_invD(4)[OF assms(1)] by (simp add: get_keys put_def[of s, THEN arg_cong[of _ _ active_set]])
qed (use assms vs_invD[OF assms(1)] in \<open>auto simp: put_def[of s, THEN arg_cong[of _ _ active_set]] split: if_splits\<close>)


section \<open>Rewards\<close>

lemma sum_u128_exact:
  "a + sum_list xs < 2 ^ 128 \<Longrightarrow> foldl (wrap_add 128) a xs = a + sum_list xs"
proof (induction xs arbitrary: a)
  case (Cons x xs)
  then have "a + x < 2 ^ 128" by simp
  then have "wrap_add 128 a x = a + x" by (rule wrap_add_exact)
  then show ?case using Cons.IH[of "a + x"] Cons.prems by (simp add: add.assoc)
qed simp

lemma commission_of_le:
  assumes "commission_bps v \<le> 10000"
  shows "commission_of v r \<le> r"
proof (cases "r * commission_bps v < 2 ^ 128")
  case True
  have "r * commission_bps v div 10000 \<le> r * 10000 div 10000"
    using assms by (intro div_le_mono mult_le_mono2)
  also have "\<dots> = r" by simp
  finally show ?thesis using True unfolding commission_of_def checked_mul_def by (simp only: if_True option.case)
next
  case False
  have "wrap_mul 128 (r div 10000) (commission_bps v) \<le> r div 10000 * commission_bps v"
    by (simp add: wrap_mul_def mod_less_eq_dividend)
  also have "\<dots> \<le> r div 10000 * 10000" using assms by (rule mult_le_mono2)
  also have "\<dots> \<le> r" by (rule div_times_less_eq_dividend)
  finally show ?thesis using False unfolding commission_of_def checked_mul_def by (simp only: if_False option.case)
qed

definition credited :: "validator \<Rightarrow> nat" where
  "credited v = pending_rewards v + delegator_reward_pool v"

definition ledger :: "(address \<times> validator) list \<Rightarrow> nat" where
  "ledger al = sum_list (map (\<lambda>(k, v). credited v) al)"

lemma credit_active_le:
  assumes "commission_bps v \<le> 10000" "0 < T" "self_stake v < 2 ^ 128"
  shows "credited (credit_active c T v) \<le> credited v + c * total_stake v div T"
proof -
  define w where "w = total_stake v"
  define R where "R = wrap_mul 128 c w div T"
  have R: "R \<le> c * w div T"
    unfolding R_def wrap_mul_def by (intro div_le_mono mod_less_eq_dividend)
  define S where "S = (case checked_mul 128 R (self_stake v) of Some p \<Rightarrow> p div w
     | None \<Rightarrow> wrap_mul 128 (R div w) (self_stake v))"
  define C where "C = commission_of v (R - S)"
  have C: "C \<le> R - S" unfolding C_def by (rule commission_of_le[OF assms(1)])
  have "self_stake v \<le> umax 128" using assms(3) by (simp only: le_umax_iff)
  then have "self_stake v \<le> w" unfolding w_def total_stake_def sat_add_def by simp
  then have sw: "R * self_stake v \<le> R * w" "R div w * self_stake v \<le> R div w * w"
    by (simp_all only: mult_le_mono2)
  have S: "S \<le> R"
  proof (cases "R * self_stake v < 2 ^ 128")
    case True
    then have "S = R * self_stake v div w" unfolding S_def checked_mul_def by (simp only: if_True option.case)
    also have "\<dots> \<le> R * w div w" using sw(1) by (rule div_le_mono)
    also have "\<dots> \<le> R" by simp
    finally show ?thesis .
  next
    case False
    then have "S = wrap_mul 128 (R div w) (self_stake v)"
      unfolding S_def checked_mul_def by (simp only: if_False option.case)
    also have "\<dots> \<le> R div w * self_stake v" by (simp add: wrap_mul_def mod_less_eq_dividend)
    also have "\<dots> \<le> R" using sw(2) div_times_less_eq_dividend le_trans by blast
    finally show ?thesis .
  qed
  show ?thesis
  proof (cases "R = 0 \<or> delegated_stake v = 0")
    case True
    then show ?thesis
      using R sat_add_le[of 128 "pending_rewards v" R]
      by (auto simp: credit_active_def Let_def credited_def R_def[symmetric] w_def[symmetric])
  next
    case False
    have "sat_add 128 (sat_add 128 (pending_rewards v) S) C \<le> pending_rewards v + S + C"
      by (meson add_le_mono1 le_trans sat_add_le)
    moreover have "sat_add 128 (delegator_reward_pool v) (R - S - C) \<le> delegator_reward_pool v + (R - S - C)"
      by (rule sat_add_le)
    moreover have "credited (credit_active c T v) =
        sat_add 128 (sat_add 128 (pending_rewards v) S) C + sat_add 128 (delegator_reward_pool v) (R - S - C)"
      using False unfolding credit_active_def Let_def credited_def C_def S_def R_def w_def by simp
    moreover have "credited v = pending_rewards v + delegator_reward_pool v" by (rule credited_def)
    ultimately show ?thesis using R S C unfolding w_def by linarith
  qed
qed


lemma ledger_map_entry:
  assumes "\<And>v. map_of al a = Some v \<Longrightarrow> credited (f v) \<le> credited v + d v"
  shows "ledger (AList.map_entry a f al) \<le> ledger al + (case map_of al a of None \<Rightarrow> 0 | Some v \<Rightarrow> d v)"
  using assms by (induction al) (auto simp: ledger_def split: if_splits)

lemma credit_active_stake:
  "total_stake (credit_active c T v) = total_stake v" "commission_bps (credit_active c T v) = commission_bps v"
  "self_stake (credit_active c T v) = self_stake v" "status (credit_active c T v) = status v"
  "vaddress (credit_active c T v) = vaddress v"
  by (simp_all add: credit_active_def Let_def total_stake_def)

definition vals_ok :: "(address \<times> validator) list \<Rightarrow> bool" where
  "vals_ok al \<longleftrightarrow> (\<forall>k v. map_of al k = Some v \<longrightarrow> commission_bps v \<le> 10000 \<and> self_stake v < 2 ^ 128)"

lemma credit_all_le:
  assumes "vals_ok al" "0 < T"
  shows "ledger (foldl (\<lambda>vs a. AList.map_entry a (credit_active c T) vs) al xs)
    \<le> ledger al + (\<Sum>v \<leftarrow> List.map_filter (map_of al) xs. c * total_stake v div T)"
  using assms(1)
proof (induction xs arbitrary: al)
  case (Cons x xs)
  let ?al = "AList.map_entry x (credit_active c T) al"
  have ok: "vals_ok ?al"
    using Cons.prems by (auto simp: vals_ok_def map_of_map_entry_option credit_active_stake)
  have "ledger ?al \<le> ledger al + (case map_of al x of None \<Rightarrow> 0 | Some v \<Rightarrow> c * total_stake v div T)"
    using Cons.prems assms(2) by (intro ledger_map_entry credit_active_le) (auto simp: vals_ok_def)
  moreover have eq: "map (\<lambda>v. c * total_stake v div T) ys = map (\<lambda>w. c * w div T) (map total_stake ys)" for ys
    by simp
  have "map total_stake (List.map_filter (map_of ?al) xs) = map total_stake (List.map_filter (map_of al) xs)"
    by (induction xs) (auto simp: map_filter_simps map_of_map_entry_option credit_active_stake split: option.splits)
  then have "(\<Sum>v \<leftarrow> List.map_filter (map_of ?al) xs. c * total_stake v div T)
    = (\<Sum>v \<leftarrow> List.map_filter (map_of al) xs. c * total_stake v div T)"
    unfolding eq by (simp only:)
  ultimately show ?case
    using Cons.IH[OF ok] by (auto simp: map_filter_simps split: option.splits)
qed (simp add: List.map_filter_simps)

lemma sum_div_le: "(\<Sum>x \<leftarrow> xs. c * f x div T) \<le> c * sum_list (map f xs) div (T :: nat)"
proof (induction xs)
  case (Cons x xs)
  have "c * f x div T + c * sum_list (map f xs) div T \<le> (c * f x + c * sum_list (map f xs)) div T"
    by (metis div_add1_eq le_add1)
  with Cons show ?case by (simp add: distrib_left)
qed simp


lemma vs_inv_vals_ok: "vs_inv s \<Longrightarrow> vals_ok (validators s)"
  using vs_invD(5)[of s] by (fastforce simp: vals_ok_def get_def vs_ok_def)

lemma distribute_le:
  assumes "vs_inv s" "sum_list (map total_stake (List.map_filter (get s) (active_set s))) < 2 ^ 128"
  shows "ledger (validators (distribute_block_reward s h p fees)) \<le> ledger (validators s) + interval_escrow_mint h fees"
proof -
  define total where "total = interval_escrow_mint h fees"
  have tot: "sat_add 128 (sum_u128 (map block_reward_at [h - (REWARD_INTERVAL - 1) ..< Suc h])) fees = total"
    if "h mod REWARD_INTERVAL = 0"
    using that unfolding total_def interval_escrow_mint_def Let_def by (simp only: if_False not_True_eq_False refl simp_thms)
  define T where "T = total_active_stake s"
  define vs1 where "vs1 = AList.map_entry p
    (\<lambda>v. v\<lparr>pending_rewards := sat_add 128 (pending_rewards v) (total div 10)\<rparr>) (validators s)"
  define c where "c = total - total div 10"
  have T: "T = sum_list (map total_stake (List.map_filter (get s) (active_set s)))"
    using sum_u128_exact[of 0] assms(2) unfolding T_def total_active_stake_def sum_u128_def by (simp only: add_0)
  have bonus: "ledger vs1 \<le> ledger (validators s) + total div 10"
  proof -
    have "ledger vs1 \<le> ledger (validators s) + (case map_of (validators s) p of None \<Rightarrow> 0 | Some v \<Rightarrow> total div 10)"
      unfolding vs1_def
    proof (rule ledger_map_entry)
      fix v
      show "credited (v\<lparr>pending_rewards := sat_add 128 (pending_rewards v) (total div 10)\<rparr>) \<le> credited v + total div 10"
        using sat_add_le[of 128 "pending_rewards v" "total div 10"] by (simp add: credited_def)
    qed
    then show ?thesis by (auto split: option.splits)
  qed
  have ok: "vals_ok vs1"
    using vs_inv_vals_ok[OF assms(1)] by (auto simp: vals_ok_def vs1_def map_of_map_entry_option)
  have "map total_stake (List.map_filter (map_of vs1) xs) = map total_stake (List.map_filter (get s) xs)" for xs
    unfolding vs1_def get_def
    by (induction xs) (auto simp: map_filter_simps map_of_map_entry_option total_stake_def split: option.splits)
  then have share: "c * sum_list (map total_stake (List.map_filter (map_of vs1) (active_set s))) div T \<le> c"
    using T by simp
  show ?thesis
  proof (cases "h mod REWARD_INTERVAL \<noteq> 0 \<or> total = 0 \<or> T = 0")
    case True
    then have "distribute_block_reward s h p fees = s"
      using tot unfolding distribute_block_reward_def Let_def T_def by auto
    then show ?thesis by simp
  next
    case False
    then have eq: "validators (distribute_block_reward s h p fees)
      = foldl (\<lambda>vs a. AList.map_entry a (credit_active c T) vs) vs1 (active_set s)"
      using tot unfolding distribute_block_reward_def Let_def T_def vs1_def c_def by simp
    have "ledger (foldl (\<lambda>vs a. AList.map_entry a (credit_active c T) vs) vs1 (active_set s)) \<le> ledger vs1 + c"
      using credit_all_le[OF ok, of T c "active_set s"] False
        sum_div_le[of c total_stake T "List.map_filter (map_of vs1) (active_set s)"] share by linarith
    then show ?thesis unfolding eq using bonus c_def total_def by linarith
  qed
qed


section \<open>Every operation keeps the invariant\<close>

lemma map_entry_inv:
  assumes "vs_inv s" "\<And>v. vs_ok (active_set s) a v \<Longrightarrow> vs_ok (active_set s) a (f v)"
  shows "vs_inv (s\<lparr>validators := AList.map_entry a f (validators s)\<rparr>)"
  using vs_invD[OF assms(1)] assms(2)
  by (intro vs_invI) (auto simp: vs_keys_def get_def map_of_map_entry_option split: if_splits)

lemma fold_map_entry_inv:
  assumes "vs_inv (s\<lparr>validators := al\<rparr>)" "\<And>a v. vs_ok (active_set s) a v \<Longrightarrow> vs_ok (active_set s) a (f v)"
  shows "vs_inv (s\<lparr>validators := foldl (\<lambda>vs a. AList.map_entry a f vs) al xs\<rparr>)"
  using assms(1)
proof (induction xs arbitrary: al)
  case (Cons x xs)
  have "vs_inv (s\<lparr>validators := AList.map_entry x f al\<rparr>)"
    using map_entry_inv[OF Cons.prems, of x f] assms(2) by simp
  then show ?case using Cons.IH by simp
qed simp

lemma distribute_inv:
  assumes "vs_inv s"
  shows "vs_inv (distribute_block_reward s h p fees)"
proof -
  have 1: "vs_inv (s\<lparr>validators := AList.map_entry p
      (\<lambda>v. v\<lparr>pending_rewards := sat_add 128 (pending_rewards v) b\<rparr>) (validators s)\<rparr>)" for b
    using assms by (rule map_entry_inv) (simp add: vs_ok_def)
  have "vs_inv (s\<lparr>validators := foldl (\<lambda>vs a. AList.map_entry a (credit_active c T) vs)
      (AList.map_entry p (\<lambda>v. v\<lparr>pending_rewards := sat_add 128 (pending_rewards v) b\<rparr>) (validators s))
      (active_set s)\<rparr>)" for b c T
    by (rule fold_map_entry_inv[OF 1]) (simp add: vs_ok_def credit_active_stake)
  then show ?thesis using assms unfolding distribute_block_reward_def Let_def by simp
qed

lemma claim_share_ok: "vs_ok A k v \<Longrightarrow> vs_ok A k (snd (claim_delegator_share v n))"
  by (simp add: claim_delegator_share_def Let_def vs_ok_def)

datatype vs_op =
    Vs_Register address bls_pubkey bls_signature u128 nat
  | Vs_Delegate address u128
  | Vs_Undelegate address u128
  | Vs_Claim address
  | Vs_Elect
  | Vs_Distribute u64 address u128
  | Vs_Claim_Delegator address address u128

primrec vs_step :: "(bls_pubkey \<Rightarrow> bls_signature \<Rightarrow> address \<Rightarrow> bool) \<Rightarrow> validator_set \<Rightarrow> vs_op \<Rightarrow> validator_set" where
  "vs_step vp s (Vs_Register a pk pop n b) = snd (register_with_pop vp s a pk pop n b)"
| "vs_step vp s (Vs_Delegate a n) = snd (delegate s a n)"
| "vs_step vp s (Vs_Undelegate a n) = snd (undelegate s a n)"
| "vs_step vp s (Vs_Claim a) = snd (claim_rewards s a)"
| "vs_step vp s Vs_Elect = snd (elect_active_set s)"
| "vs_step vp s (Vs_Distribute h p f) = distribute_block_reward s h p f"
| "vs_step vp s (Vs_Claim_Delegator a d n) = snd (claim_delegator_reward s a d n)"

text \<open>The self-stake a registration carries is a 128-bit amount.\<close>

fun vs_op_fits :: "vs_op \<Rightarrow> bool" where
  "vs_op_fits (Vs_Register a pk pop n b) = (n < 2 ^ 128)"
| "vs_op_fits _ = True"

lemma vs_step_inv:
  assumes "vs_inv s" "vs_op_fits op"
  shows "vs_inv (vs_step vp s op)"
proof (cases op)
  case (Vs_Register a pk pop n b)
  then show ?thesis using assms
    by (auto simp: register_with_pop_def register_def intro!: put_inv simp: vs_ok_def)
next
  case (Vs_Delegate a n)
  then show ?thesis using assms vs_invD(5)[OF assms(1), of a]
    by (cases "get s a") (auto simp: delegate_def vs_ok_def intro!: put_inv)
next
  case (Vs_Undelegate a n)
  then show ?thesis using assms vs_invD(5)[OF assms(1), of a]
    by (cases "get s a") (auto simp: undelegate_def vs_ok_def intro!: put_inv)
next
  case (Vs_Claim a)
  then show ?thesis using assms vs_invD(5)[OF assms(1), of a]
    by (cases "get s a") (auto simp: claim_rewards_def vs_ok_def intro!: put_inv)
next
  case (Vs_Claim_Delegator a d n)
  then show ?thesis using assms vs_invD(5)[OF assms(1), of a]
    by (cases "get s a")
       (auto simp: claim_delegator_reward_def split_beta Let_def intro!: put_inv claim_share_ok)
qed (use assms in \<open>simp_all add: elect_inv distribute_inv\<close>)

interpretation vset: inv_machine "vs_step vp" vs_inv vs_op_fits
  for vp :: "bls_pubkey \<Rightarrow> bls_signature \<Rightarrow> address \<Rightarrow> bool"
  by unfold_locales (rule vs_step_inv)

lemma vs_inv_new: "vs_inv validator_set_new"
  by (simp add: vs_inv_def validator_set_new_def vs_keys_def)

section \<open>Properties\<close>

text \<open>The validator \<open>register\<close> stores, on which the statements below are evaluated.\<close>

definition registered :: "address \<Rightarrow> u128 \<Rightarrow> validator" where
  "registered a n =
     \<lparr>vaddress = a, bls_key = [], self_stake = n, delegated_stake = 0, commission_bps = 500,
      status = Pending, last_signed_block = 0, pending_rewards = 0, delegator_reward_pool = 0,
      pool_denominator = 0, registered_epoch = 0\<rparr>"

definition two_validators :: validator_set where
  "two_validators = validator_set_new\<lparr>validators :=
     [(1, registered 1 (2 * MIN_SELF_STAKE)), (2, registered 2 (3 * MIN_SELF_STAKE))]\<rparr>"

lemma two_validators_inv: "vs_inv two_validators" "vs_inv (two_validators\<lparr>active_set := [2]\<rparr>)"
  by (simp_all add: vs_inv_def vs_ok_def two_validators_def validator_set_new_def registered_def
      vs_keys_def MIN_SELF_STAKE_def MAX_VALIDATORS_def)

text \<open>
  C36: the election does not depend on the iteration order of the hash map: two sets that hold
  the same entries in any order elect the same committee in the same order, and leave every
  validator in the same state.
\<close>

theorem elect_order_independent:
  assumes "vs_inv s" "mset (validators s) = mset (validators t)" "active_set s = active_set t"
  shows "fst (elect_active_set s) = fst (elect_active_set t)
    \<and> get (snd (elect_active_set s)) = get (snd (elect_active_set t))"
proof -
  have "mset (map fst (validators s)) = mset (map fst (validators t))" using assms(2) by simp
  then have "distinct (map fst (validators t))"
    using vs_invD(1)[OF assms(1)] mset_eq_imp_distinct_iff unfolding vs_keys_def by blast
  then have "map_of (validators s) = map_of (validators t)"
    using map_of_inject_set[of "validators s" "validators t"] vs_invD(1)[OF assms(1)] mset_eq_setD[OF assms(2)]
    by (simp add: vs_keys_def)
  then have "get s = get t" by (simp add: get_def fun_eq_iff)
  then show ?thesis using new_set_perm[OF assms(2)] assms(3) by (simp add: elect_simps get_elect fun_eq_iff cong: if_cong)
qed

theorem elect_order_independent_witness:
  "fst (elect_active_set two_validators)
     = fst (elect_active_set (two_validators\<lparr>validators := rev (validators two_validators)\<rparr>))
   \<and> get (snd (elect_active_set two_validators))
     = get (snd (elect_active_set (two_validators\<lparr>validators := rev (validators two_validators)\<rparr>)))"
  by (rule elect_order_independent) (simp_all add: two_validators_inv)

text \<open>
  the elected committee is the top of the eligible validators: as many as there are seats
  or candidates, no duplicates, only eligible validators (never a jailed, unbonding, inactive
  or tombstoned one), and a candidate left out has less stake than every elected one, or the
  same stake and a larger address.
\<close>

theorem elect_top_stake:
  assumes "vs_inv s"
  shows "length (fst (elect_active_set s)) = min MAX_VALIDATORS (length (eligible s))
    \<and> distinct (fst (elect_active_set s))
    \<and> (\<forall>a \<in> set (fst (elect_active_set s)). \<exists>v. get s a = Some v \<and> is_eligible v)
    \<and> (\<forall>a b v w. a \<in> set (fst (elect_active_set s)) \<and> b \<notin> set (fst (elect_active_set s))
        \<and> get s a = Some v \<and> get s b = Some w \<and> is_eligible w
        \<longrightarrow> total_stake w < total_stake v \<or> total_stake w = total_stake v \<and> a < b)"
  using new_set_facts[OF assms] by (auto simp: elect_simps)

theorem elect_top_stake_witness:
  "length (fst (elect_active_set two_validators)) = 2"
proof -
  have "length (eligible two_validators) = 2"
    by (simp add: eligible_def two_validators_def validator_set_new_def registered_def is_eligible_def
        MIN_SELF_STAKE_def)
  then show ?thesis using elect_top_stake[OF two_validators_inv(1)] by (simp add: MAX_VALIDATORS_def)
qed

text \<open>
  from an empty set, any sequence of registrations, delegations, undelegations, claims,
  elections and reward distributions keeps the invariant of the validator set.
\<close>

theorem validator_run_inv:
  assumes "list_all vs_op_fits ops"
  shows "vs_inv (foldl (vs_step verify_pop) validator_set_new ops)"
  using vs_inv_new assms by (rule vset.inv_run)

theorem validator_run_inv_witness:
  "vs_inv (foldl (vs_step (\<lambda>pk sig a. length sig = 96)) validator_set_new
     [Vs_Register 7 [1] (replicate 96 0) (10 ^ 24) 5000, Vs_Elect, Vs_Distribute 100 7 0])"
  by (rule validator_run_inv) simp

text \<open>
  an election leaves exactly the elected validators active.
\<close>

theorem elect_active_iff:
  assumes "vs_inv s" "get (snd (elect_active_set s)) a = Some v"
  shows "is_active v \<longleftrightarrow> a \<in> set (active_set (snd (elect_active_set s)))"
  using elect_status[OF assms] by (simp add: is_active_def elect_simps)

theorem elect_active_iff_witness:
  "is_active ((registered 2 (3 * MIN_SELF_STAKE))\<lparr>status := Active\<rparr>)
   \<longleftrightarrow> 2 \<in> set (active_set (snd (elect_active_set two_validators)))"
proof (rule elect_active_iff[OF two_validators_inv(1)])
  show "get (snd (elect_active_set two_validators)) 2 = Some ((registered 2 (3 * MIN_SELF_STAKE))\<lparr>status := Active\<rparr>)"
    unfolding get_elect
    by (simp add: new_set_def eligible_def two_validators_def validator_set_new_def registered_def
        is_eligible_def MIN_SELF_STAKE_def MAX_VALIDATORS_def total_stake_def sat_add_def umax_def rank_key_def get_def)
qed

text \<open>
  an interval distribution never credits more than the executor mints into the staking
  escrow for that block: the sum over all validators of pending rewards and delegator pools
  grows by at most \<open>interval_escrow_mint\<close>, so claims are always covered by the escrow.
\<close>

theorem distribute_within_mint:
  assumes "vs_inv s" "sum_list (map total_stake (List.map_filter (get s) (active_set s))) < 2 ^ 128"
  shows "(\<Sum>(k, v) \<leftarrow> validators (distribute_block_reward s h p fees). pending_rewards v + delegator_reward_pool v)
    \<le> (\<Sum>(k, v) \<leftarrow> validators s. pending_rewards v + delegator_reward_pool v) + interval_escrow_mint h fees"
  using distribute_le[OF assms] by (simp add: ledger_def credited_def)

theorem distribute_within_mint_witness:
  "(\<Sum>(k, v) \<leftarrow> validators (distribute_block_reward (two_validators\<lparr>active_set := [2]\<rparr>) 100 2 5).
      pending_rewards v + delegator_reward_pool v)
   \<le> (\<Sum>(k, v) \<leftarrow> validators (two_validators\<lparr>active_set := [2]\<rparr>). pending_rewards v + delegator_reward_pool v)
     + interval_escrow_mint 100 5"
  by (rule distribute_within_mint[OF two_validators_inv(2)])
     (simp add: two_validators_def validator_set_new_def registered_def total_stake_def sat_add_def umax_def
       MIN_SELF_STAKE_def get_def map_filter_simps)

section \<open>Delegators' claims\<close>

text \<open>The delegators of one validator claim one after the other.\<close>

fun claims :: "validator \<Rightarrow> u128 list \<Rightarrow> u128 list" where
  "claims v [] = []"
| "claims v (n # ns) = (let (share, v') = claim_delegator_share v n in share # claims v' ns)"

lemma claim_share_exact:
  assumes "pool * n < 2 ^ 128" "0 < pool" "n \<le> d" "0 < d" "delegator_reward_pool v = pool" "pool_denominator v = d"
  shows "claim_delegator_share v n =
    (pool * n div d, v\<lparr>delegator_reward_pool := pool - pool * n div d, pool_denominator := d - n\<rparr>)"
proof -
  have "pool * n div d \<le> pool * d div d" using assms(3) by (intro div_le_mono mult_le_mono2)
  also have "\<dots> = pool" using assms(4) by simp
  finally have "min (pool * n div d) pool = pool * n div d" by simp
  then show ?thesis using assms unfolding claim_delegator_share_def checked_mul_def Let_def by simp
qed

lemma claims_empty_pool: "delegator_reward_pool v = 0 \<Longrightarrow> claims v ns = replicate (length ns) 0"
  by (induction ns) (simp_all add: claim_delegator_share_def)

lemma claim_keeps_ratio:
  fixes pool n d P D :: nat
  assumes "P * d \<le> pool * D" "n \<le> d" "0 < d"
  shows "P * n div D \<le> pool * n div d" "P * (d - n) \<le> (pool - pool * n div d) * D"
proof -
  have "P * n * d \<le> pool * n * D" using mult_le_mono1[OF assms(1), of n] by (simp add: ac_simps)
  have x: "pool * n div d * d \<le> pool * n" by (rule div_times_less_eq_dividend)
  show "P * n div D \<le> pool * n div d"
  proof (cases "D = 0")
    case False
    have "P * n div D * D * d \<le> P * n * d" by (simp add: div_times_less_eq_dividend)
    also have "\<dots> \<le> pool * n * D" by fact
    finally have "P * n div D * d \<le> pool * n" using False by (simp add: mult.commute mult.left_commute)
    then show ?thesis using assms(3) by (simp add: less_eq_div_iff_mult_less_eq)
  qed simp
  have "pool * (d - n) \<le> (pool - pool * n div d) * d"
    using diff_le_mono2[OF x, of "pool * d"] by (simp add: diff_mult_distrib diff_mult_distrib2)
  then have "pool * (d - n) * D \<le> (pool - pool * n div d) * d * D" by (rule mult_le_mono1)
  moreover have "P * (d - n) * d \<le> pool * (d - n) * D" using mult_le_mono1[OF assms(1), of "d - n"] by (simp add: ac_simps)
  ultimately have "P * (d - n) * d \<le> (pool - pool * n div d) * d * D" by (rule order_trans[rotated])
  then have "P * (d - n) * d \<le> (pool - pool * n div d) * D * d" by (simp only: ac_simps)
  then show "P * (d - n) \<le> (pool - pool * n div d) * D" using assms(3) by simp
qed

lemma claims_proportional:
  assumes "P * pool_denominator v \<le> delegator_reward_pool v * D" "sum_list ns = pool_denominator v"
    "delegator_reward_pool v * pool_denominator v < 2 ^ 128" "list_all (\<lambda>n. 0 < n) ns" "0 < P"
  shows "list_all2 (\<lambda>share n. P * n div D \<le> share) (claims v ns) ns
    \<and> sum_list (claims v ns) = (if ns = [] then 0 else delegator_reward_pool v)"
  using assms
proof (induction ns arbitrary: v)
  case (Cons n ns)
  let ?pool = "delegator_reward_pool v" and ?d = "pool_denominator v"
  have d: "0 < ?d" "n \<le> ?d" using Cons.prems by auto
  have pool: "0 < ?pool" using Cons.prems(1,5) d by (cases "?pool = 0") auto
  have "?pool * n \<le> ?pool * ?d" using d(2) by (rule mult_le_mono2)
  then have ov: "?pool * n < 2 ^ 128" using Cons.prems(3) by (rule le_less_trans)
  define v' where "v' = v\<lparr>delegator_reward_pool := ?pool - ?pool * n div ?d, pool_denominator := ?d - n\<rparr>"
  have c: "claim_delegator_share v n = (?pool * n div ?d, v')"
    unfolding v'_def using ov pool d by (intro claim_share_exact) auto
  note ratio = claim_keeps_ratio[OF Cons.prems(1) d(2,1)]
  have "delegator_reward_pool v' * pool_denominator v' \<le> ?pool * ?d"
    unfolding v'_def by (simp add: mult_le_mono)
  then have "delegator_reward_pool v' * pool_denominator v' < 2 ^ 128"
    using Cons.prems(3) by (rule le_less_trans)
  then have IH: "list_all2 (\<lambda>share n. P * n div D \<le> share) (claims v' ns) ns
      \<and> sum_list (claims v' ns) = (if ns = [] then 0 else delegator_reward_pool v')"
    using Cons.prems ratio(2) by (intro Cons.IH) (auto simp: v'_def)
  have "?pool * n div ?d \<le> ?pool * ?d div ?d" using d(2) by (intro div_le_mono mult_le_mono2)
  then have le: "?pool * n div ?d \<le> ?pool" using d by simp
  show ?case
  proof (cases "ns = []")
    case True
    then have "n = ?d" using Cons.prems(2) by simp
    then show ?thesis using c ratio(1) True d by simp
  next
    case False
    have "delegator_reward_pool v' = ?pool - ?pool * n div ?d" by (simp add: v'_def)
    then show ?thesis using c ratio(1) IH False le by simp
  qed
qed simp

text \<open>
  when every delegator of the snapshot claims once, in any order, each receives at least
  the floor of its proportional share of the pool as it was distributed, and the pool is paid
  out to the last unit.
\<close>

theorem claims_fair:
  assumes "0 < delegator_reward_pool v" "ns \<noteq> []" "list_all (\<lambda>n. 0 < n) ns"
    "sum_list ns = pool_denominator v" "delegator_reward_pool v * pool_denominator v < 2 ^ 128"
  shows "list_all2 (\<lambda>share n. delegator_reward_pool v * n div pool_denominator v \<le> share) (claims v ns) ns
    \<and> sum_list (claims v ns) = delegator_reward_pool v"
  using claims_proportional[of "delegator_reward_pool v" v "pool_denominator v" ns] assms
  by (simp add: mult.commute)

theorem claims_fair_witness:
  "list_all2 (\<lambda>share n. 1200 * n div 4000 \<le> share)
     (claims ((registered 1 5)\<lparr>delegator_reward_pool := 1200, pool_denominator := 4000\<rparr>) [3000, 1000]) [3000, 1000]"
  using claims_fair[of "(registered 1 5)\<lparr>delegator_reward_pool := 1200, pool_denominator := 4000\<rparr>" "[3000, 1000]"]
  by simp

text \<open>
  Nothing records who has claimed. A delegator with a quarter of the stake that claims four
  times takes the whole pool: the decayed denominator restores its share after every claim.
\<close>

lemma repeated_claims_drain_pool:
  "claims ((registered 1 5)\<lparr>delegator_reward_pool := 1200, pool_denominator := 4000\<rparr>)
     [1000, 1000, 1000, 1000, 3000] = [300, 300, 300, 300, 0]"
  by (simp add: claim_delegator_share_def registered_def checked_mul_def)

text \<open>
  At the smallest admissible stake the product \<open>committee_share * weight\<close> exceeds 128 bits and
  wraps: a validator that is alone in the committee is credited less than a ten-thousandth of
  the committee share of a first-epoch interval (100 blocks of 2 ZBX, less the proposer bonus).
\<close>

lemma reward_product_wraps:
  "credited (credit_active (180 * 10 ^ 18) MIN_SELF_STAKE (registered 1 MIN_SELF_STAKE)) * 10000 < 180 * 10 ^ 18"
  by (simp add: credited_def credit_active_def registered_def total_stake_def MIN_SELF_STAKE_def
      wrap_mul_def sat_add_def umax_def)

end
