(* ===== verification/Escrow.thy ===== *)
theory Escrow
  imports Validators
begin

text \<open>
  The staking escrow, \<open>zbx-staking/src/staking_escrow.rs\<close>: per address, the locked amount,
  the queue of unbonding entries and the claimable amount. \<open>actually_slashed\<close> never exceeds
  the 128-bit \<open>slash_amount\<close> it is taken from, so its unchecked additions are exact; the
  unchecked addition that computes a release block is written with its wrap-around.
\<close>

section \<open>The registry\<close>

definition UNBONDING_PERIOD :: u64 where "UNBONDING_PERIOD = 907200"

record unbonding_entry =
  uamount :: u128
  release_block :: u64

record escrow_entry =
  locked :: u128
  unbonding :: "unbonding_entry list"
  claimable :: u128
  total_staked_ever :: u128
  total_slashed_ever :: u128

definition escrow_default :: escrow_entry where
  "escrow_default = \<lparr>locked = 0, unbonding = [], claimable = 0, total_staked_ever = 0, total_slashed_ever = 0\<rparr>"

type_synonym escrow_registry = "address \<rightharpoonup> escrow_entry"

definition escrow_get :: "escrow_registry \<Rightarrow> address \<Rightarrow> escrow_entry" where
  "escrow_get r a = (case r a of None \<Rightarrow> escrow_default | Some e \<Rightarrow> e)"

definition total_unbonding :: "escrow_entry \<Rightarrow> u128" where
  "total_unbonding e = sum_u128 (map uamount (unbonding e))"

definition total_escrowed :: "escrow_entry \<Rightarrow> u128" where
  "total_escrowed e = sat_add 128 (sat_add 128 (locked e) (total_unbonding e)) (claimable e)"

definition stake :: "escrow_registry \<Rightarrow> address \<Rightarrow> u128 \<Rightarrow> escrow_registry" where
  "stake r a amount =
     (if amount = 0 then r
      else (let e = escrow_get r a in
        r(a \<mapsto> e\<lparr>locked := sat_add 128 (locked e) amount,
                 total_staked_ever := sat_add 128 (total_staked_ever e) amount\<rparr>)))"

definition begin_unbond ::
  "escrow_registry \<Rightarrow> address \<Rightarrow> u128 \<Rightarrow> u64 \<Rightarrow> (staking_error, u64) res \<times> escrow_registry" where
  "begin_unbond r a amount current_block =
     (if amount = 0 then (Err InvalidAmount, r)
      else (let e = escrow_get r a; r0 = r(a \<mapsto> e) in
        if locked e < amount then (Err InsufficientStake, r0)
        else (let release = wrap_add 64 current_block UNBONDING_PERIOD in
          (Ok release, r0(a \<mapsto> e\<lparr>locked := locked e - amount,
             unbonding := unbonding e @ [\<lparr>uamount = amount, release_block = release\<rparr>]\<rparr>)))))"

definition finalise_unbond :: "escrow_registry \<Rightarrow> address \<Rightarrow> u64 \<Rightarrow> u128 \<times> escrow_registry" where
  "finalise_unbond r a current_block =
     (case r a of
        None \<Rightarrow> (0, r)
      | Some e \<Rightarrow>
         (let matured = (\<lambda>u. current_block \<ge> release_block u);
              released = foldl (\<lambda>acc u. sat_add 128 acc (uamount u)) 0 (filter matured (unbonding e));
              e1 = e\<lparr>unbonding := filter (\<lambda>u. \<not> matured u) (unbonding e)\<rparr>;
              e2 = (if released > 0 then e1\<lparr>claimable := sat_add 128 (claimable e1) released\<rparr> else e1)
          in (released, r(a \<mapsto> e2))))"

definition withdraw ::
  "escrow_registry \<Rightarrow> address \<Rightarrow> u128 \<Rightarrow> (staking_error, unit) res \<times> escrow_registry" where
  "withdraw r a amount =
     (if amount = 0 then (Err InvalidAmount, r)
      else (let e = escrow_get r a; r0 = r(a \<mapsto> e) in
        if claimable e < amount then (Err NothingToWithdraw, r0)
        else (Ok (), r0(a \<mapsto> e\<lparr>claimable := claimable e - amount\<rparr>))))"

text \<open>The loop over the unbonding queue, oldest entry first; it stops when nothing is left to take.\<close>

fun slash_loop :: "u128 \<Rightarrow> u128 \<Rightarrow> unbonding_entry list \<Rightarrow> u128 \<times> unbonding_entry list" where
  "slash_loop slash_amount acc [] = (acc, [])"
| "slash_loop slash_amount acc (u # us) =
     (if slash_amount = 0 then (acc, u # us)
      else (let from_entry = min slash_amount (uamount u);
                (acc', us') = slash_loop (slash_amount - from_entry) (acc + from_entry) us
            in (acc', u\<lparr>uamount := uamount u - from_entry\<rparr> # us')))"

definition slash :: "escrow_registry \<Rightarrow> address \<Rightarrow> u128 \<Rightarrow> u128 \<times> escrow_registry" where
  "slash r a slash_amount =
     (case r a of
        None \<Rightarrow> (0, r)
      | Some e \<Rightarrow>
         (let from_locked = min slash_amount (locked e);
              rest = slash_amount - from_locked;
              e1 = e\<lparr>locked := locked e - from_locked\<rparr>;
              (slashed, e2) =
                (if rest > 0
                 then (let (acc, us) = slash_loop rest from_locked (unbonding e1)
                       in (acc, e1\<lparr>unbonding := filter (\<lambda>u. uamount u > 0) us\<rparr>))
                 else (from_locked, e1))
          in (slashed, r(a \<mapsto> e2\<lparr>total_slashed_ever := sat_add 128 (total_slashed_ever e2) slashed\<rparr>))))"

section \<open>The entry as an account\<close>

text \<open>
  Seen from outside, an entry is one balance and a queue of dated amounts. \<open>due t\<close> is what the
  entry can ever pay out by block \<open>t\<close> without a further unbonding request.
\<close>

definition holding :: "escrow_entry \<Rightarrow> nat" where
  "holding e = locked e + sum_list (map uamount (unbonding e)) + claimable e"

definition due :: "u64 \<Rightarrow> escrow_entry \<Rightarrow> nat" where
  "due t e = claimable e + sum_list (map uamount (filter (\<lambda>u. release_block u \<le> t) (unbonding e)))"

lemma sat_fold_exact:
  "a + sum_list (map uamount us) < 2 ^ 128 \<Longrightarrow>
   foldl (\<lambda>acc u. sat_add 128 acc (uamount u)) a us = a + sum_list (map uamount us)"
proof (induction us arbitrary: a)
  case (Cons u us)
  then have "a + uamount u < 2 ^ 128" by simp
  then have "sat_add 128 a (uamount u) = a + uamount u" by (rule sat_add_exact)
  with Cons.IH[of "a + uamount u"] Cons.prems show ?case by (simp add: add.assoc)
qed simp

lemma sum_filter_split:
  "sum_list (map f (filter P xs)) + sum_list (map f (filter (\<lambda>x. \<not> P x) xs)) = (sum_list (map f xs) :: nat)"
  by (induction xs) auto

lemma sum_filter_le: "sum_list (map f (filter P xs)) \<le> (sum_list (map f xs) :: nat)"
  by (induction xs) auto

lemma escrow_get_upd [simp]: "escrow_get (r(a \<mapsto> e)) b = (if b = a then e else escrow_get r b)"
  by (simp add: escrow_get_def)

lemma finalise_entry:
  assumes "holding (escrow_get r a) < 2 ^ 128"
  shows "holding (escrow_get (snd (finalise_unbond r a c)) b) = holding (escrow_get r b)"
    "c \<le> t \<Longrightarrow> due t (escrow_get (snd (finalise_unbond r a c)) b) = due t (escrow_get r b)"
proof -
  define e where "e = escrow_get r a"
  let ?m = "\<lambda>u. release_block u \<le> c"
  define rel where "rel = sum_list (map uamount (filter ?m (unbonding e)))"
  have "claimable e + rel \<le> holding e" 
    unfolding holding_def rel_def using sum_filter_le[of uamount ?m "unbonding e"] by linarith
  then have fit: "claimable e + rel < 2 ^ 128" using assms unfolding e_def[symmetric] by (rule le_less_trans)
  then have r: "foldl (\<lambda>acc u. sat_add 128 acc (uamount u)) 0 (filter ?m (unbonding e)) = rel"
    using sat_fold_exact[of 0 "filter ?m (unbonding e)"] rel_def by linarith
  have s: "sat_add 128 (claimable e) rel = claimable e + rel" using fit by (rule sat_add_exact)
  define e' where "e' = e\<lparr>unbonding := filter (\<lambda>u. \<not> ?m u) (unbonding e), claimable := claimable e + rel\<rparr>"
  have fin: "escrow_get (snd (finalise_unbond r a c)) b = (if b = a then e' else escrow_get r b)"
  proof (cases "r a")
    case None
    then have "e' = escrow_get r a" by (simp add: e'_def e_def rel_def escrow_get_def escrow_default_def)
    then show ?thesis using None by (simp add: finalise_unbond_def)
  next
    case (Some x)
    then have "x = e" by (simp add: e_def escrow_get_def)
    then show ?thesis using Some r s by (auto simp: finalise_unbond_def Let_def e'_def)
  qed
  have "holding e' = holding e"
    using sum_filter_split[of uamount ?m "unbonding e"] by (simp add: holding_def e'_def rel_def)
  then show "holding (escrow_get (snd (finalise_unbond r a c)) b) = holding (escrow_get r b)"
    by (simp add: fin e_def)
  assume t: "c \<le> t"
  let ?d = "filter (\<lambda>u. release_block u \<le> t) (unbonding e)"
  have "filter ?m ?d = filter ?m (unbonding e)"
    using t by (auto intro!: filter_cong)
  moreover have "filter (\<lambda>u. \<not> ?m u) ?d = filter (\<lambda>u. release_block u \<le> t) (filter (\<lambda>u. \<not> ?m u) (unbonding e))"
    by (simp add: conj_commute)
  ultimately have "due t e' = due t e"
    using sum_filter_split[of uamount ?m ?d] unfolding due_def e'_def rel_def by simp
  then show "due t (escrow_get (snd (finalise_unbond r a c)) b) = due t (escrow_get r b)"
    by (simp add: fin e_def)
qed

lemma slash_loop_spec:
  assumes "slash_loop n acc us = (acc', us')"
  shows "acc' + sum_list (map uamount us') = acc + sum_list (map uamount us)" "acc \<le> acc'" "acc' \<le> acc + n"
    "sum_list (map uamount (filter (\<lambda>u. release_block u \<le> t) us'))
     \<le> sum_list (map uamount (filter (\<lambda>u. release_block u \<le> t) us))"
proof -
  have "acc' + sum_list (map uamount us') = acc + sum_list (map uamount us) \<and> acc \<le> acc' \<and> acc' \<le> acc + n
    \<and> sum_list (map uamount (filter (\<lambda>u. release_block u \<le> t) us'))
     \<le> sum_list (map uamount (filter (\<lambda>u. release_block u \<le> t) us))"
    using assms
  proof (induction us arbitrary: n acc acc' us')
    case (Cons u us)
    show ?case
    proof (cases "n = 0")
      case False
      obtain a x where ax: "slash_loop (n - min n (uamount u)) (acc + min n (uamount u)) us = (a, x)" by fastforce
      from Cons.IH[OF this] ax Cons.prems False show ?thesis by (auto simp: Let_def)
    qed (use Cons.prems in simp)
  qed simp
  then show "acc' + sum_list (map uamount us') = acc + sum_list (map uamount us)" "acc \<le> acc'" "acc' \<le> acc + n"
    "sum_list (map uamount (filter (\<lambda>u. release_block u \<le> t) us'))
     \<le> sum_list (map uamount (filter (\<lambda>u. release_block u \<le> t) us))" by blast+
qed

lemma sum_filter_pos: "sum_list (map uamount (filter (\<lambda>u. uamount u > 0) us)) = sum_list (map uamount us)"
  by (induction us) auto

lemma sum_filter_pos_due:
  "sum_list (map uamount (filter (\<lambda>u. release_block u \<le> t) (filter (\<lambda>u. uamount u > 0) us)))
   = sum_list (map uamount (filter (\<lambda>u. release_block u \<le> t) us))"
  by (induction us) auto

lemma slash_entry:
  "holding (escrow_get (snd (slash r a n)) b) + (if b = a then fst (slash r a n) else 0) = holding (escrow_get r b)"
  "due t (escrow_get (snd (slash r a n)) b) \<le> due t (escrow_get r b)"
  "fst (slash r a n) \<le> n"
proof -
  have "holding (escrow_get (snd (slash r a n)) b) + (if b = a then fst (slash r a n) else 0) = holding (escrow_get r b)
    \<and> due t (escrow_get (snd (slash r a n)) b) \<le> due t (escrow_get r b) \<and> fst (slash r a n) \<le> n"
  proof (cases "r a")
    case (Some e)
    show ?thesis
    proof (cases "n \<le> locked e")
      case True
      then show ?thesis using Some by (auto simp: slash_def Let_def escrow_get_def holding_def due_def)
    next
      case False
      obtain acc us where au: "slash_loop (n - locked e) (locked e) (unbonding e) = (acc, us)"
        by fastforce
      have "slash r a n = (acc, r(a \<mapsto> e\<lparr>locked := 0, unbonding := filter (\<lambda>u. uamount u > 0) us,
          total_slashed_ever := sat_add 128 (total_slashed_ever e) acc\<rparr>))"
        using Some False au by (simp add: slash_def Let_def)
      then show ?thesis
        using slash_loop_spec(1-3)[OF au] slash_loop_spec(4)[OF au, of t] Some False
        by (auto simp: escrow_get_def holding_def due_def sum_filter_pos sum_filter_pos_due simp del: filter_filter)
    qed
  qed (simp add: slash_def escrow_get_def)
  then show "holding (escrow_get (snd (slash r a n)) b) + (if b = a then fst (slash r a n) else 0) = holding (escrow_get r b)"
    "due t (escrow_get (snd (slash r a n)) b) \<le> due t (escrow_get r b)" "fst (slash r a n) \<le> n" by blast+
qed

section \<open>Runs\<close>

datatype escrow_op =
    E_Stake address u128
  | E_Unbond address u128 u64
  | E_Finalise address u64
  | E_Withdraw address u128
  | E_Slash address u128

text \<open>
  A run keeps, beside the registry, what has left it and what has entered it: the amounts
  staked, withdrawn and slashed per address, the unbonding requests that were accepted with
  their release blocks, and the latest block at which entries were finalised.
\<close>

record escrow_world =
  reg :: escrow_registry
  staked :: "address \<Rightarrow> nat"
  paid :: "address \<Rightarrow> nat"
  burnt :: "address \<Rightarrow> nat"
  requests :: "(address \<times> nat \<times> nat) list"
  now :: nat

definition escrow_world_new :: escrow_world where
  "escrow_world_new = \<lparr>reg = Map.empty, staked = \<lambda>_. 0, paid = \<lambda>_. 0, burnt = \<lambda>_. 0, requests = [], now = 0\<rparr>"

fun escrow_step :: "escrow_world \<Rightarrow> escrow_op \<Rightarrow> escrow_world" where
  "escrow_step w (E_Stake a n) = w\<lparr>reg := stake (reg w) a n, staked := (staked w)(a := staked w a + n)\<rparr>"
| "escrow_step w (E_Unbond a n c) =
     (case begin_unbond (reg w) a n c of
        (Ok release, r) \<Rightarrow> w\<lparr>reg := r, requests := (a, n, release) # requests w\<rparr>
      | (_, r) \<Rightarrow> w\<lparr>reg := r\<rparr>)"
| "escrow_step w (E_Finalise a c) = w\<lparr>reg := snd (finalise_unbond (reg w) a c), now := max (now w) c\<rparr>"
| "escrow_step w (E_Withdraw a n) =
     (case withdraw (reg w) a n of
        (Ok _, r) \<Rightarrow> w\<lparr>reg := r, paid := (paid w)(a := paid w a + n)\<rparr>
      | (_, r) \<Rightarrow> w\<lparr>reg := r\<rparr>)"
| "escrow_step w (E_Slash a n) =
     (case slash (reg w) a n of (k, r) \<Rightarrow> w\<lparr>reg := r, burnt := (burnt w)(a := burnt w a + k)\<rparr>)"

fun stakes_of :: "address \<Rightarrow> escrow_op \<Rightarrow> nat" where
  "stakes_of b (E_Stake a n) = (if b = a then n else 0)"
| "stakes_of b _ = 0"

text \<open>The unbonding requests of an address that have been released by block \<open>t\<close>.\<close>

definition released_by :: "nat \<Rightarrow> address \<Rightarrow> (address \<times> nat \<times> nat) list \<Rightarrow> nat" where
  "released_by t a rs = (\<Sum>(b, n, release) \<leftarrow> rs. if b = a \<and> release \<le> t then n else 0)"

definition escrow_inv :: "escrow_world \<Rightarrow> bool" where
  "escrow_inv w \<longleftrightarrow> (\<forall>a. holding (escrow_get (reg w) a) + paid w a + burnt w a = staked w a)
     \<and> (\<forall>a t. now w \<le> t \<longrightarrow> due t (escrow_get (reg w) a) + paid w a \<le> released_by t a (requests w))"

lemma escrow_invD:
  "escrow_inv w \<Longrightarrow> holding (escrow_get (reg w) a) + paid w a + burnt w a = staked w a"
  "escrow_inv w \<Longrightarrow> now w \<le> t \<Longrightarrow> due t (escrow_get (reg w) a) + paid w a \<le> released_by t a (requests w)"
  by (simp_all add: escrow_inv_def)

lemma begin_unbond_entry:
  assumes "begin_unbond r a n c = (x, r')"
  shows "holding (escrow_get r' b) = holding (escrow_get r b)"
    "(\<exists>release. x = Ok release \<and> due t (escrow_get r' b) =
        due t (escrow_get r b) + (if b = a \<and> release \<le> t then n else 0))
     \<or> (\<exists>e. x = Err e \<and> due t (escrow_get r' b) = due t (escrow_get r b))"
  using assms by (auto simp: begin_unbond_def Let_def holding_def due_def split: if_splits)

lemma withdraw_entry:
  assumes "withdraw r a n = (x, r')"
  shows "(x = Ok () \<and> holding (escrow_get r' b) + (if b = a then n else 0) = holding (escrow_get r b)
        \<and> due t (escrow_get r' b) + (if b = a then n else 0) = due t (escrow_get r b))
     \<or> (\<exists>e. x = Err e \<and> escrow_get r' b = escrow_get r b)"
  using assms by (auto simp: withdraw_def Let_def holding_def due_def split: if_splits)

lemma stake_entry:
  assumes "holding (escrow_get r a) + n < 2 ^ 128"
  shows "holding (escrow_get (stake r a n) b) = holding (escrow_get r b) + (if b = a then n else 0)"
    "due t (escrow_get (stake r a n) b) = due t (escrow_get r b)"
proof -
  have "locked (escrow_get r a) + n \<le> holding (escrow_get r a) + n" by (simp add: holding_def)
  then have "locked (escrow_get r a) + n < 2 ^ 128" using assms by (rule le_less_trans)
  then have "sat_add 128 (locked (escrow_get r a)) n = locked (escrow_get r a) + n" by (rule sat_add_exact)
  then show "holding (escrow_get (stake r a n) b) = holding (escrow_get r b) + (if b = a then n else 0)"
    "due t (escrow_get (stake r a n) b) = due t (escrow_get r b)"
    by (auto simp: stake_def Let_def holding_def due_def)
qed

lemma escrow_step_inv:
  assumes "escrow_inv w" "\<And>a. staked (escrow_step w op) a < 2 ^ 128"
  shows "escrow_inv (escrow_step w op)"
proof (cases op)
  case (E_Stake a n)
  have "holding (escrow_get (reg w) a) + n \<le> staked (escrow_step w op) a"
    using escrow_invD(1)[OF assms(1), of a] E_Stake by simp
  then have "holding (escrow_get (reg w) a) + n < 2 ^ 128" using assms(2) by (rule le_less_trans)
  note st = stake_entry[OF this]
  have "holding (escrow_get (stake (reg w) a n) b) + paid w b + burnt w b = ((staked w)(a := staked w a + n)) b" for b
    using st(1)[of b] escrow_invD(1)[OF assms(1), of b] by (auto split: if_splits)
  then show ?thesis using st(2) assms(1) E_Stake by (simp add: escrow_inv_def)
next
  case (E_Unbond a n c)
  obtain x r' where xr: "begin_unbond (reg w) a n c = (x, r')" by fastforce
  note h = begin_unbond_entry(1)[OF xr]
  show ?thesis
  proof (cases x)
    case (Ok release)
    have "due t (escrow_get r' b) = due t (escrow_get (reg w) b) + (if b = a \<and> release \<le> t then n else 0)" for t b
      using begin_unbond_entry(2)[OF xr, of t b] Ok by simp
    then show ?thesis using assms(1) h E_Unbond Ok xr
      by (auto simp: escrow_inv_def released_by_def)
  next
    case (Err e)
    have "due t (escrow_get r' b) = due t (escrow_get (reg w) b)" for t b
      using begin_unbond_entry(2)[OF xr, of t b] Err by simp
    then show ?thesis using assms(1) h E_Unbond Err xr by (auto simp: escrow_inv_def)
  next
    case Panic
    then show ?thesis using begin_unbond_entry(2)[OF xr] by simp
  qed
next
  case (E_Finalise a c)
  have "holding (escrow_get (reg w) a) \<le> staked (escrow_step w op) a"
    using escrow_invD(1)[OF assms(1), of a] E_Finalise by simp
  then have "holding (escrow_get (reg w) a) < 2 ^ 128" using assms(2) by (rule le_less_trans)
  from finalise_entry[OF this, of c] assms(1) E_Finalise show ?thesis by (auto simp: escrow_inv_def)
next
  case (E_Withdraw a n)
  obtain x r' where xr: "withdraw (reg w) a n = (x, r')" by fastforce
  show ?thesis
  proof (cases x)
    case (Ok u)
    have *: "holding (escrow_get r' b) + (if b = a then n else 0) = holding (escrow_get (reg w) b)"
      "due t (escrow_get r' b) + (if b = a then n else 0) = due t (escrow_get (reg w) b)" for t b
      using withdraw_entry[OF xr, of b t] Ok by auto
    have w': "escrow_step w op = w\<lparr>reg := r', paid := (paid w)(a := paid w a + n)\<rparr>"
      using E_Withdraw Ok xr by simp
    show ?thesis unfolding w' escrow_inv_def
    proof (intro conjI allI impI)
      fix b
      show "holding (escrow_get (reg (w\<lparr>reg := r', paid := (paid w)(a := paid w a + n)\<rparr>)) b)
        + paid (w\<lparr>reg := r', paid := (paid w)(a := paid w a + n)\<rparr>) b
        + burnt (w\<lparr>reg := r', paid := (paid w)(a := paid w a + n)\<rparr>) b
        = staked (w\<lparr>reg := r', paid := (paid w)(a := paid w a + n)\<rparr>) b"
        using *(1)[of b] escrow_invD(1)[OF assms(1), of b] by (auto split: if_splits)
    next
      fix b t
      assume "now (w\<lparr>reg := r', paid := (paid w)(a := paid w a + n)\<rparr>) \<le> t"
      then show "due t (escrow_get (reg (w\<lparr>reg := r', paid := (paid w)(a := paid w a + n)\<rparr>)) b)
        + paid (w\<lparr>reg := r', paid := (paid w)(a := paid w a + n)\<rparr>) b
        \<le> released_by t b (requests (w\<lparr>reg := r', paid := (paid w)(a := paid w a + n)\<rparr>))"
        using *(2)[of t b] escrow_invD(2)[OF assms(1), of t b] by (auto split: if_splits)
    qed
  next
    case (Err e)
    have "escrow_get r' b = escrow_get (reg w) b" for b using withdraw_entry[OF xr, of b 0] Err by auto
    then show ?thesis using assms(1) E_Withdraw Err xr by (auto simp: escrow_inv_def)
  next
    case Panic
    then show ?thesis using withdraw_entry[OF xr] by simp
  qed
next
  case (E_Slash a n)
  have w': "escrow_step w op = w\<lparr>reg := snd (slash (reg w) a n), burnt := (burnt w)(a := burnt w a + fst (slash (reg w) a n))\<rparr>"
    using E_Slash by (simp add: split_beta)
  have "holding (escrow_get (snd (slash (reg w) a n)) b) + paid w b
      + ((burnt w)(a := burnt w a + fst (slash (reg w) a n))) b = staked w b" for b
    using slash_entry(1)[of "reg w" a n b] escrow_invD(1)[OF assms(1), of b] by (auto split: if_splits)
  moreover have "due t (escrow_get (snd (slash (reg w) a n)) b) + paid w b \<le> released_by t b (requests w)"
    if "now w \<le> t" for t b
    using slash_entry(2)[of t "reg w" a n b] escrow_invD(2)[OF assms(1) that, of b] by linarith
  ultimately show ?thesis unfolding w' escrow_inv_def by simp
qed


lemma staked_run:
  "staked (foldl escrow_step w ops) a = staked w a + sum_list (map (stakes_of a) ops)"
proof (induction ops arbitrary: w)
  case (Cons op ops)
  have "staked (escrow_step w op) a = staked w a + stakes_of a op"
    by (cases op) (auto split: res.splits prod.splits)
  with Cons show ?case by simp
qed simp

lemma escrow_run_inv:
  "escrow_inv w \<Longrightarrow> (\<And>a. staked (foldl escrow_step w ops) a < 2 ^ 128) \<Longrightarrow> escrow_inv (foldl escrow_step w ops)"
proof (induction ops arbitrary: w)
  case (Cons op ops)
  have "staked (escrow_step w op) a < 2 ^ 128" for a
    using Cons.prems(2)[of a] staked_run[of "escrow_step w op" ops a]
    by (metis foldl_Cons le_add1 le_less_trans)
  then have "escrow_inv (escrow_step w op)" by (rule escrow_step_inv[OF Cons.prems(1)])
  then show ?case using Cons.IH Cons.prems(2) by simp
qed simp

lemma escrow_inv_new: "escrow_inv escrow_world_new"
  by (simp add: escrow_inv_def escrow_world_new_def escrow_get_def escrow_default_def holding_def due_def)

lemma escrow_reachable_inv:
  assumes "\<And>a. sum_list (map (stakes_of a) ops) < 2 ^ 128"
  shows "escrow_inv (foldl escrow_step escrow_world_new ops)"
  using assms by (intro escrow_run_inv[OF escrow_inv_new]) (simp add: staked_run escrow_world_new_def)

text \<open>
  C37: the escrow conserves funds. After any sequence of operations, failed ones included, what
  an address ever staked is what is still locked, unbonding or claimable, plus what it withdrew,
  plus what was slashed from it, as long as its stakes fit in 128 bits.
\<close>

theorem escrow_conserves:
  assumes "\<And>a. sum_list (map (stakes_of a) ops) < 2 ^ 128"
  shows "(let w = foldl escrow_step escrow_world_new ops; e = escrow_get (reg w) a
     in locked e + sum_list (map uamount (unbonding e)) + claimable e + paid w a + burnt w a)
     = sum_list (map (stakes_of a) ops)"
  using escrow_invD(1)[OF escrow_reachable_inv[OF assms], of a] staked_run[of escrow_world_new ops a]
  by (simp add: Let_def holding_def escrow_world_new_def)

theorem escrow_conserves_witness:
  "(let w = foldl escrow_step escrow_world_new [E_Stake 1 100, E_Unbond 1 40 7, E_Slash 1 70];
        e = escrow_get (reg w) 1
    in locked e + sum_list (map uamount (unbonding e)) + claimable e + paid w 1 + burnt w 1)
   = sum_list (map (stakes_of 1) [E_Stake 1 100, E_Unbond 1 40 7, E_Slash 1 70])"
  by (rule escrow_conserves) simp

text \<open>
  nothing leaves the escrow before its unbonding period has passed. What an address has
  withdrawn, together with what it could still withdraw, is at most the total of its accepted
  unbonding requests whose release block has been reached by the latest finalisation; slashing
  in between only lowers it.
\<close>

theorem no_early_withdrawal:
  assumes "\<And>a. sum_list (map (stakes_of a) ops) < 2 ^ 128"
  shows "(let w = foldl escrow_step escrow_world_new ops
     in paid w a + claimable (escrow_get (reg w) a) \<le> released_by (now w) a (requests w))"
  using escrow_invD(2)[OF escrow_reachable_inv[OF assms] order_refl, of a]
  by (simp add: Let_def due_def)

theorem no_early_withdrawal_witness:
  "(let w = foldl escrow_step escrow_world_new
        [E_Stake 1 100, E_Unbond 1 40 7, E_Finalise 1 8, E_Withdraw 1 40, E_Finalise 1 907207, E_Withdraw 1 30]
    in paid w 1 + claimable (escrow_get (reg w) 1) \<le> released_by (now w) 1 (requests w))"
  by (rule no_early_withdrawal) simp

text \<open>
  An accepted request is released exactly \<open>UNBONDING_PERIOD\<close> blocks later, and a slash takes
  the full amount as long as there is stake, from the locked part first.
\<close>

lemma begin_unbond_release:
  assumes "fst (begin_unbond r a n c) = Ok release" "c + UNBONDING_PERIOD < 2 ^ 64"
  shows "release = c + UNBONDING_PERIOD"
proof -
  have "wrap_add 64 c UNBONDING_PERIOD = c + UNBONDING_PERIOD" using assms(2) by (rule wrap_add_exact)
  then show ?thesis using assms(1) by (auto simp: begin_unbond_def Let_def split: if_splits)
qed

lemma slash_loop_amount: "fst (slash_loop n acc us) = acc + min n (sum_list (map uamount us))"
proof (induction us arbitrary: n acc)
  case (Cons u us)
  have "fst (slash_loop n acc (u # us)) = (if n = 0 then acc else
      fst (slash_loop (n - min n (uamount u)) (acc + min n (uamount u)) us))"
    by (simp add: Let_def split_beta)
  then show ?case using Cons[of "n - min n (uamount u)" "acc + min n (uamount u)"] by (auto simp: min_def)
qed simp

text \<open>
  a slash takes the requested amount, or everything that is locked or unbonding if that is
  less: moving stake into the unbonding queue does not protect it.
\<close>

theorem slash_reaches_unbonding:
  "fst (slash r a n) = min n (locked (escrow_get r a) + sum_list (map uamount (unbonding (escrow_get r a))))"
proof (cases "r a")
  case (Some e)
  show ?thesis
  proof (cases "n \<le> locked e")
    case False
    have "fst (slash r a n) = fst (slash_loop (n - locked e) (locked e) (unbonding e))"
      using Some False by (simp add: slash_def Let_def split_beta)
    moreover have "escrow_get r a = e" using Some by (simp add: escrow_get_def)
    ultimately show ?thesis
      using False slash_loop_amount[of "n - locked e" "locked e" "unbonding e"] by (simp only:)
  qed (use Some in \<open>simp add: slash_def Let_def escrow_get_def\<close>)
qed (simp add: slash_def escrow_get_def escrow_default_def)

end
