(* ===== verification/Delegation.thy ===== *)
theory Delegation
  imports Escrow
begin

text \<open>
  Delegation records, \<open>zbx-staking/src/delegation.rs\<close>, and their agreement with the totals the
  validator set keeps. The operations take and return both the registry and the validator set
  (\<open>&mut ValidatorSet\<close>), an error leaving whatever had been written before it. \<open>Vec::dedup\<close>
  removes adjacent duplicates only, which is \<open>remdups_adj\<close>.
\<close>

section \<open>The registry\<close>

record delegation_record =
  dvalidator :: address
  damount :: u128
  last_updated_block :: u64
  dunbonding :: "unbonding_entry list"

definition delegation_record_new :: "address \<Rightarrow> u128 \<Rightarrow> u64 \<Rightarrow> delegation_record" where
  "delegation_record_new v n block =
     \<lparr>dvalidator = v, damount = n, last_updated_block = block, dunbonding = []\<rparr>"

definition record_unbonding :: "delegation_record \<Rightarrow> u128" where
  "record_unbonding r = sum_u128 (map uamount (dunbonding r))"

record delegation_registry =
  records :: "address \<times> address \<rightharpoonup> delegation_record" \<comment> \<open>delegator, validator\<close>
  validator_delegators :: "address \<rightharpoonup> address list"

definition delegation_registry_new :: delegation_registry where
  "delegation_registry_new = \<lparr>records = Map.empty, validator_delegators = Map.empty\<rparr>"

definition delegators_of :: "delegation_registry \<Rightarrow> address \<Rightarrow> address list" where
  "delegators_of g v = (case validator_delegators g v of None \<Rightarrow> [] | Some ds \<Rightarrow> ds)"

definition registry_delegate ::
  "delegation_registry \<Rightarrow> validator_set \<Rightarrow> address \<Rightarrow> address \<Rightarrow> u128 \<Rightarrow> u64 \<Rightarrow>
   (staking_error, unit) res \<times> delegation_registry \<times> validator_set" where
  "registry_delegate g s delegator validator amount current_block =
     (if amount = 0 then (Err InvalidAmount, g, s)
      else (case delegate s validator amount of
        (Err e, s1) \<Rightarrow> (Err e, g, s1)
      | (Panic, s1) \<Rightarrow> (Panic, g, s1)
      | (Ok _, s1) \<Rightarrow>
         (let r = (case records g (delegator, validator) of
                     None \<Rightarrow> delegation_record_new validator 0 current_block
                   | Some r \<Rightarrow> r);
              r1 = r\<lparr>damount := sat_add 128 (damount r) amount, last_updated_block := current_block\<rparr>
          in (Ok (),
              \<lparr>records = (records g)((delegator, validator) \<mapsto> r1),
               validator_delegators = (validator_delegators g)
                 (validator \<mapsto> remdups_adj (delegators_of g validator @ [delegator]))\<rparr>,
              s1))))"

definition begin_undelegate ::
  "delegation_registry \<Rightarrow> validator_set \<Rightarrow> address \<Rightarrow> address \<Rightarrow> u128 \<Rightarrow> u64 \<Rightarrow>
   (staking_error, u64) res \<times> delegation_registry \<times> validator_set" where
  "begin_undelegate g s delegator validator amount current_block =
     (if amount = 0 then (Err InvalidAmount, g, s)
      else (case records g (delegator, validator) of
        None \<Rightarrow> (Err NoDelegation, g, s)
      | Some r \<Rightarrow>
         if damount r < amount then (Err InsufficientStake, g, s)
         else
          (let release = wrap_add 64 current_block UNBONDING_PERIOD;
               r1 = r\<lparr>damount := damount r - amount,
                      dunbonding := dunbonding r @ [\<lparr>uamount = amount, release_block = release\<rparr>]\<rparr>;
               g1 = g\<lparr>records := (records g)((delegator, validator) \<mapsto> r1)\<rparr>
           in case undelegate s validator amount of
                (Ok _, s1) \<Rightarrow> (Ok release, g1, s1)
              | (Err e, s1) \<Rightarrow> (Err e, g1, s1)
              | (Panic, s1) \<Rightarrow> (Panic, g1, s1))))"

definition finalise_undelegate ::
  "delegation_registry \<Rightarrow> address \<Rightarrow> address \<Rightarrow> u64 \<Rightarrow> u128 \<times> delegation_registry" where
  "finalise_undelegate g delegator validator current_block =
     (case records g (delegator, validator) of
        None \<Rightarrow> (0, g)
      | Some r \<Rightarrow>
         (let matured = (\<lambda>u. current_block \<ge> release_block u);
              released = foldl (\<lambda>acc u. sat_add 128 acc (uamount u)) 0 (filter matured (dunbonding r))
          in (released, g\<lparr>records := (records g)((delegator, validator) \<mapsto>
                r\<lparr>dunbonding := filter (\<lambda>u. \<not> matured u) (dunbonding r)\<rparr>)\<rparr>)))"

definition claimable_reward ::
  "delegation_registry \<Rightarrow> validator_set \<Rightarrow> address \<Rightarrow> address \<Rightarrow> (staking_error, u128) res" where
  "claimable_reward g s delegator validator =
     bind_res (ok_or (records g (delegator, validator)) NoDelegation) (\<lambda>r.
     bind_res (ok_or (get s validator) UnknownValidator) (\<lambda>v.
     if pool_denominator v = 0 \<or> damount r = 0 then Ok 0
     else Ok (case checked_mul 128 (delegator_reward_pool v) (damount r) of
                Some n \<Rightarrow> n div pool_denominator v
              | None \<Rightarrow> 0)))"

definition slash_record :: "address \<Rightarrow> u128 \<Rightarrow> delegation_registry \<Rightarrow> address \<Rightarrow> delegation_registry" where
  "slash_record validator bps g delegator =
     (case records g (delegator, validator) of
        None \<Rightarrow> g
      | Some r \<Rightarrow>
         (let slash = wrap_mul 128 (damount r) bps div 10000
          in g\<lparr>records := (records g)((delegator, validator) \<mapsto> r\<lparr>damount := damount r - slash\<rparr>)\<rparr>))"

definition apply_delegator_slash :: "delegation_registry \<Rightarrow> address \<Rightarrow> u128 \<Rightarrow> delegation_registry" where
  "apply_delegator_slash g validator bps = foldl (slash_record validator bps) g (delegators_of g validator)"

section \<open>Agreement with the validator set\<close>

definition delegated :: "delegation_registry \<Rightarrow> address \<Rightarrow> address \<Rightarrow> nat" where
  "delegated g d v = (case records g (d, v) of None \<Rightarrow> 0 | Some r \<Rightarrow> damount r)"

definition delegated_total :: "delegation_registry \<Rightarrow> address \<Rightarrow> nat" where
  "delegated_total g v = (\<Sum>d \<in> UNIV. delegated g d v)"

definition dstake :: "validator_set \<Rightarrow> address \<Rightarrow> nat" where
  "dstake s v = (case get s v of None \<Rightarrow> 0 | Some x \<Rightarrow> delegated_stake x)"

lemma delegated_upd [simp]:
  "delegated (g\<lparr>records := (records g)((d, v) \<mapsto> r)\<rparr>) d' v'
   = (if d' = d \<and> v' = v then damount r else delegated g d' v')"
  by (simp add: delegated_def)

lemma delegated_total_change:
  assumes "\<And>d' v'. delegated g' d' v' = (if d' = d \<and> v' = v then n else delegated g d' v')"
  shows "delegated_total g' u + (if u = v then delegated g d v else 0)
     = delegated_total g u + (if u = v then n else 0)"
proof (cases "u = v")
  case True
  have "(\<Sum>x \<in> UNIV. delegated g' x v) = n + (\<Sum>x \<in> UNIV - {d}. delegated g' x v)"
    using assms by (subst sum.remove[of UNIV d]) auto
  also have "(\<Sum>x \<in> UNIV - {d}. delegated g' x v) = (\<Sum>x \<in> UNIV - {d}. delegated g x v)"
    using assms by (intro sum.cong) auto
  finally have "delegated_total g' v = n + (\<Sum>x \<in> UNIV - {d}. delegated g x v)"
    by (simp add: delegated_total_def)
  moreover have "delegated_total g v = delegated g d v + (\<Sum>x \<in> UNIV - {d}. delegated g x v)"
    unfolding delegated_total_def by (subst sum.remove[of UNIV d]) auto
  ultimately show ?thesis using True by simp
qed (use assms in \<open>simp add: delegated_total_def\<close>)

lemma delegated_le_total: "delegated g d v \<le> delegated_total g v"
  unfolding delegated_total_def by (intro member_le_sum) auto

text \<open>
  The agreement the two data structures have to keep: a validator's records, with what slashes of its delegators took from
  them (\<open>off\<close>), add up to the delegated stake it is credited with, which is at most \<open>cap\<close>.
\<close>

definition agree :: "nat \<Rightarrow> (address \<Rightarrow> nat) \<Rightarrow> delegation_registry \<Rightarrow> validator_set \<Rightarrow> bool" where
  "agree cap off g s \<longleftrightarrow> (\<forall>v. delegated_total g v + off v = dstake s v \<and> dstake s v \<le> cap)"

lemma agreeD:
  "agree cap off g s \<Longrightarrow> delegated_total g v \<le> dstake s v" "agree cap off g s \<Longrightarrow> dstake s v \<le> cap"
  "agree cap off g s \<Longrightarrow> delegated_total g v + off v = dstake s v"
  by (auto simp: agree_def dest!: spec[of _ v])

lemma dstake_put [simp]: "dstake (put s a x) v = (if v = a then delegated_stake x else dstake s v)"
  by (simp add: dstake_def)

lemma delegate_dstake:
  assumes "delegate s v n = (x, s')"
  shows "(x = Ok () \<and> (\<exists>y. get s v = Some y \<and> dstake s' = (dstake s)(v := sat_add 128 (dstake s v) n)))
     \<or> ((\<exists>e. x = Err e) \<and> s' = s)"
  using assms unfolding delegate_def
  by (cases "get s v") (auto simp: fun_eq_iff dstake_def split: if_splits)

lemma undelegate_dstake:
  assumes "undelegate s v n = (x, s')"
  shows "(x = Ok () \<and> n \<le> dstake s v \<and> dstake s' = (dstake s)(v := dstake s v - n))
     \<or> ((\<exists>e. x = Err e) \<and> s' = s \<and> (n = 0 \<or> dstake s v < n))"
  using assms unfolding undelegate_def
  by (cases "get s v") (auto simp: fun_eq_iff dstake_def split: if_splits)

lemma undelegate_succeeds:
  assumes "agree cap off g s" "records g (d, v) = Some r" "n \<le> damount r" "0 < n"
  shows "\<exists>s'. undelegate s v n = (Ok (), s') \<and> dstake s' = (dstake s)(v := dstake s v - n)"
proof -
  obtain x s' where xs: "undelegate s v n = (x, s')" by fastforce
  have "delegated g d v = damount r" using assms(2) by (simp add: delegated_def)
  then have "n \<le> dstake s v"
    using agreeD(1)[OF assms(1), of v] assms(3) delegated_le_total[of g d v] by linarith
  with undelegate_dstake[OF xs] xs assms(4) show ?thesis by auto
qed


lemma registry_delegate_agree:
  assumes "agree cap off g s" "cap + n < 2 ^ 128" "registry_delegate g s d v n c = (x, g', s')"
  shows "agree (cap + n) off g' s'"
proof -
  obtain y s1 where y: "delegate s v n = (y, s1)" by fastforce
  have keep: "agree (cap + n) off g s" using assms(1) by (auto simp: agree_def intro: trans_le_add1)
  show ?thesis
  proof (cases "n = 0 \<or> y \<noteq> Ok ()")
    case True
    then have "g' = g" "s' = s"
      using assms(3) y delegate_dstake[OF y] by (auto simp: registry_delegate_def split: if_splits)
    then show ?thesis using keep by simp
  next
    case False
    define old where "old = (case records g (d, v) of None \<Rightarrow> delegation_record_new v 0 c | Some r \<Rightarrow> r)"
    have res: "s' = s1" "records g' = (records g)((d, v) \<mapsto>
        old\<lparr>damount := sat_add 128 (damount old) n, last_updated_block := c\<rparr>)"
      using assms(3) y False by (auto simp: registry_delegate_def Let_def old_def)
    have "damount old = delegated g d v"
      by (simp add: old_def delegated_def delegation_record_new_def split: option.splits)
    then have "delegated g' d' v' = (if d' = d \<and> v' = v then sat_add 128 (delegated g d v) n else delegated g d' v')" for d' v'
      using res(2) by (simp add: delegated_def)
    from delegated_total_change[of g' d v "sat_add 128 (delegated g d v) n" g, OF this]
    have tot: "delegated_total g' u + (if u = v then delegated g d v else 0)
      = delegated_total g u + (if u = v then sat_add 128 (delegated g d v) n else 0)" for u .
    have ds: "dstake s1 = (dstake s)(v := sat_add 128 (dstake s v) n)" using delegate_dstake[OF y] False by auto
    have "dstake s v + n \<le> cap + n" using agreeD(2)[OF assms(1)] by simp
    then have "dstake s v + n < 2 ^ 128" using assms(2) by (rule le_less_trans)
    then have exact: "sat_add 128 (dstake s v) n = dstake s v + n" by (rule sat_add_exact)
    have "delegated g d v + n \<le> dstake s v + n" using delegated_le_total[of g d v] agreeD(1)[OF assms(1), of v] by simp
    then have "delegated g d v + n < 2 ^ 128" using \<open>dstake s v + n < 2 ^ 128\<close> by (rule le_less_trans)
    then have exact': "sat_add 128 (delegated g d v) n = delegated g d v + n" by (rule sat_add_exact)
    have "delegated_total g' u + off u = dstake s' u \<and> dstake s' u \<le> cap + n" for u
      using tot[of u] agreeD(2,3)[OF assms(1), of u] by (auto simp: res(1) ds exact exact' split: if_splits)
    then show ?thesis by (simp add: agree_def)
  qed
qed

lemma begin_undelegate_agree:
  assumes "agree cap off g s" "begin_undelegate g s d v n c = (x, g', s')"
  shows "agree cap off g' s' \<and> ((\<exists>e. x = Err e) \<longrightarrow> g' = g \<and> s' = s) \<and> x \<noteq> Panic"
proof (cases "n = 0 \<or> records g (d, v) = None \<or> (\<exists>r. records g (d, v) = Some r \<and> damount r < n)")
  case True
  then have "g' = g" "s' = s" "\<exists>e. x = Err e" using assms(2) by (auto simp: begin_undelegate_def split: if_splits)
  then show ?thesis using assms(1) by auto
next
  case False
  then obtain r where r: "records g (d, v) = Some r" "n \<le> damount r" "0 < n" by auto
  obtain s1 where s1: "undelegate s v n = (Ok (), s1)" "dstake s1 = (dstake s)(v := dstake s v - n)"
    using undelegate_succeeds[OF assms(1) r] by blast
  have res: "s' = s1" "x = Ok (wrap_add 64 c UNBONDING_PERIOD)" "records g' = (records g)((d, v) \<mapsto>
      r\<lparr>damount := damount r - n, dunbonding := dunbonding r @
        [\<lparr>uamount = n, release_block = wrap_add 64 c UNBONDING_PERIOD\<rparr>]\<rparr>)"
    using assms(2) r s1(1) by (auto simp: begin_undelegate_def Let_def)
  have "delegated g' d' v' = (if d' = d \<and> v' = v then damount r - n else delegated g d' v')" for d' v'
    using res(3) by (simp add: delegated_def)
  from delegated_total_change[of g' d v "damount r - n" g, OF this]
  have tot: "delegated_total g' u + (if u = v then delegated g d v else 0)
    = delegated_total g u + (if u = v then damount r - n else 0)" for u .
  have "delegated g d v = damount r" using r(1) by (simp add: delegated_def)
  then have "delegated_total g' u + off u = dstake s' u \<and> dstake s' u \<le> cap" for u
    using tot[of u] r(2) agreeD(2,3)[OF assms(1), of u] delegated_le_total[of g d v] by (auto simp: res(1) s1(2) split: if_splits)
  then show ?thesis using res(2) by (simp add: agree_def)
qed

lemma finalise_undelegate_delegated:
  "delegated (snd (finalise_undelegate g d v c)) d' v' = delegated g d' v'"
  by (auto simp: finalise_undelegate_def Let_def delegated_def split: option.splits)

lemma slash_record_le: "delegated (slash_record v bps g d) d' v' \<le> delegated g d' v'"
  by (auto simp: slash_record_def Let_def delegated_def split: option.splits)

lemma apply_delegator_slash_le: "delegated (apply_delegator_slash g v bps) d' v' \<le> delegated g d' v'"
proof -
  have "delegated (foldl (slash_record v bps) g ds) d' v' \<le> delegated g d' v'" for ds
    by (induction ds arbitrary: g) (auto intro: order_trans slash_record_le)
  then show ?thesis by (simp add: apply_delegator_slash_def)
qed

lemma agree_shrink:
  assumes "agree cap off g s" "\<And>d v. delegated g' d v \<le> delegated g d v"
  shows "agree cap (\<lambda>v. off v + (delegated_total g v - delegated_total g' v)) g' s"
proof -
  have "delegated_total g' v \<le> delegated_total g v" for v
    unfolding delegated_total_def using assms(2) by (intro sum_mono)
  then have "delegated_total g' v + (off v + (delegated_total g v - delegated_total g' v)) = dstake s v" for v
    using agreeD(3)[OF assms(1), of v] by (metis add.commute add.left_commute le_add_diff_inverse)
  then show ?thesis using agreeD(2)[OF assms(1)] by (simp add: agree_def)
qed

section \<open>Interleaving with the validator set\<close>

datatype del_op =
    Del_Delegate address address u128 u64
  | Del_Undelegate address address u128 u64
  | Del_Finalise address address u64
  | Del_Slash address u128
  | Del_Set vs_op

fun del_step :: "(bls_pubkey \<Rightarrow> bls_signature \<Rightarrow> address \<Rightarrow> bool) \<Rightarrow>
    delegation_registry \<times> validator_set \<Rightarrow> del_op \<Rightarrow> delegation_registry \<times> validator_set" where
  "del_step vp (g, s) (Del_Delegate d v n c) = snd (registry_delegate g s d v n c)"
| "del_step vp (g, s) (Del_Undelegate d v n c) = snd (begin_undelegate g s d v n c)"
| "del_step vp (g, s) (Del_Finalise d v c) = (snd (finalise_undelegate g d v c), s)"
| "del_step vp (g, s) (Del_Slash v bps) = (apply_delegator_slash g v bps, s)"
| "del_step vp (g, s) (Del_Set op) = (g, vs_step vp s op)"

text \<open>
  The validator set's own \<open>delegate\<close> and \<open>undelegate\<close> are called through the registry.
\<close>

fun del_op_ok :: "del_op \<Rightarrow> bool" where
  "del_op_ok (Del_Set (Vs_Delegate a n)) = False"
| "del_op_ok (Del_Set (Vs_Undelegate a n)) = False"
| "del_op_ok _ = True"

fun del_in :: "del_op \<Rightarrow> nat" where
  "del_in (Del_Delegate d v n c) = n"
| "del_in _ = 0"

text \<open>What a run of slashes takes from the records of the delegators of a validator; its delegated stake does not follow.\<close>

definition slashed_by :: "delegation_registry \<Rightarrow> del_op \<Rightarrow> address \<Rightarrow> nat" where
  "slashed_by g op v = (case op of Del_Slash a bps \<Rightarrow> delegated_total g v - delegated_total (apply_delegator_slash g a bps) v | _ \<Rightarrow> 0)"

fun slashed_off :: "(bls_pubkey \<Rightarrow> bls_signature \<Rightarrow> address \<Rightarrow> bool) \<Rightarrow>
    delegation_registry \<times> validator_set \<Rightarrow> del_op list \<Rightarrow> address \<Rightarrow> nat" where
  "slashed_off vp w [] v = 0"
| "slashed_off vp w (op # ops) v = slashed_by (fst w) op v + slashed_off vp (del_step vp w op) ops v"

lemma fold_entry_dstake:
  assumes "\<And>x. delegated_stake (f x) = delegated_stake x"
  shows "(case map_of (foldl (\<lambda>vs a. AList.map_entry a f vs) al xs) v of None \<Rightarrow> 0 | Some x \<Rightarrow> delegated_stake x)
    = (case map_of al v of None \<Rightarrow> 0 | Some x \<Rightarrow> delegated_stake x)"
proof (induction xs arbitrary: al)
  case (Cons x xs)
  show ?case using Cons[of "AList.map_entry x f al"] assms
    by (auto simp: map_of_map_entry_option split: option.splits)
qed simp

lemma distribute_dstake: "dstake (distribute_block_reward s h p f) v = dstake s v"
proof -
  have "(case map_of (AList.map_entry p (\<lambda>v. v\<lparr>pending_rewards := sat_add 128 (pending_rewards v) b\<rparr>) (validators s)) v
      of None \<Rightarrow> 0 | Some x \<Rightarrow> delegated_stake x) = dstake s v" for b
    by (auto simp: map_of_map_entry_option dstake_def get_def split: option.splits)
  moreover have "delegated_stake (credit_active c T x) = delegated_stake x" for c T x
    by (simp add: credit_active_def Let_def)
  ultimately show ?thesis
    unfolding distribute_block_reward_def Let_def
    by (simp add: dstake_def[of "validator_set.validators_update _ _"] get_def[of "validator_set.validators_update _ _"]
        fold_entry_dstake)
qed


lemma elect_dstake: "dstake (snd (elect_active_set s)) v = dstake s v"
  by (cases "get s v") (auto simp: dstake_def get_elect)

lemma vs_step_dstake:
  assumes "del_op_ok (Del_Set op)"
  shows "dstake (vs_step vp s op) v = dstake s v"
proof (cases op)
  case (Vs_Register a pk pop n b)
  then show ?thesis by (auto simp: register_with_pop_def register_def dstake_def)
next
  case (Vs_Claim a)
  then show ?thesis by (cases "get s a") (auto simp: claim_rewards_def, auto simp: dstake_def)
next
  case (Vs_Claim_Delegator a d n)
  then show ?thesis
    by (cases "get s a") (auto simp: claim_delegator_reward_def split_beta Let_def claim_delegator_share_def,
        auto simp: dstake_def)
qed (use assms in \<open>simp_all add: elect_dstake distribute_dstake\<close>)

lemma del_step_agree:
  assumes "agree cap off (fst w) (snd w)" "cap + del_in op < 2 ^ 128" "del_op_ok op"
  shows "agree (cap + del_in op) (\<lambda>v. off v + slashed_by (fst w) op v) (fst (del_step vp w op)) (snd (del_step vp w op))"
proof -
  obtain g s where w: "w = (g, s)" by fastforce
  show ?thesis
  proof (cases op)
    case (Del_Delegate d v n c)
    obtain x g' s' where r: "registry_delegate g s d v n c = (x, g', s')" using prod_cases3 by blast
    have "agree (cap + n) off g' s'" using assms(1,2) Del_Delegate w by (intro registry_delegate_agree[OF _ _ r]) auto
    then show ?thesis using w Del_Delegate r by (simp add: slashed_by_def)
  next
    case (Del_Undelegate d v n c)
    obtain x g' s' where r: "begin_undelegate g s d v n c = (x, g', s')" using prod_cases3 by blast
    show ?thesis using begin_undelegate_agree[OF _ r] assms(1) w Del_Undelegate r by (simp add: slashed_by_def)
  next
    case (Del_Finalise d v c)
    have "delegated_total (snd (finalise_undelegate g d v c)) u = delegated_total g u" for u
      by (simp add: delegated_total_def finalise_undelegate_delegated)
    then show ?thesis using assms(1) w Del_Finalise by (simp add: slashed_by_def agree_def)
  next
    case (Del_Slash v bps)
    have "agree cap (\<lambda>u. off u + (delegated_total g u - delegated_total (apply_delegator_slash g v bps) u)) (apply_delegator_slash g v bps) s"
      using assms(1) w by (intro agree_shrink[OF _ apply_delegator_slash_le]) simp
    then show ?thesis using w Del_Slash by (simp add: slashed_by_def)
  next
    case (Del_Set vop)
    then show ?thesis using assms w vs_step_dstake[of vop vp s] by (simp add: agree_def slashed_by_def)
  qed
qed

lemma del_run_agree:
  "agree cap off (fst w) (snd w) \<Longrightarrow> cap + sum_list (map del_in ops) < 2 ^ 128 \<Longrightarrow> list_all del_op_ok ops \<Longrightarrow>
   agree (cap + sum_list (map del_in ops)) (\<lambda>v. off v + slashed_off vp w ops v)
     (fst (foldl (del_step vp) w ops)) (snd (foldl (del_step vp) w ops))"
proof (induction ops arbitrary: cap off w)
  case (Cons op ops)
  have "agree (cap + del_in op) (\<lambda>v. off v + slashed_by (fst w) op v) (fst (del_step vp w op)) (snd (del_step vp w op))"
    using Cons.prems by (intro del_step_agree) simp_all
  from Cons.IH[OF this] Cons.prems show ?case by (simp add: add.assoc)
qed simp

lemma agree_new: "agree 0 (\<lambda>_. 0) delegation_registry_new validator_set_new"
  by (simp add: agree_def delegated_total_def delegated_def delegation_registry_new_def dstake_def
      get_def validator_set_new_def)

lemma del_reachable_agree:
  assumes "list_all del_op_ok ops" "sum_list (map del_in ops) < 2 ^ 128"
    and "foldl (del_step verify_pop) (delegation_registry_new, validator_set_new) ops = (g, s)"
  shows "agree (sum_list (map del_in ops)) (slashed_off verify_pop (delegation_registry_new, validator_set_new) ops) g s"
proof -
  have "agree (0 + sum_list (map del_in ops)) (\<lambda>v. 0 + slashed_off verify_pop (delegation_registry_new, validator_set_new) ops v)
      (fst (g, s)) (snd (g, s))"
    unfolding assms(3)[symmetric] using agree_new assms(1,2) by (intro del_run_agree) simp_all
  then show ?thesis by simp
qed

lemma slashed_off_none: "list_all (\<lambda>op. \<forall>a bps. op \<noteq> Del_Slash a bps) ops \<Longrightarrow> slashed_off vp w ops v = 0"
  by (induction ops arbitrary: w) (auto simp: slashed_by_def split: del_op.splits)

text \<open>
  C39: the registry and the validator set stay in agreement. After any interleaving of delegations, undelegations,
  finalisations, delegator slashes, registrations, elections, distributions and claims (the validator set's own delegate
  and undelegate are called through the registry only, and what is delegated fits 128 bits), the
  records of the delegators of a validator and what delegator slashes took from them add up to the delegated stake the validator
  is credited with; without such slashes the records alone do.
\<close>

theorem delegations_backed:
  assumes "list_all del_op_ok ops" "sum_list (map del_in ops) < 2 ^ 128"
    and "foldl (del_step verify_pop) (delegation_registry_new, validator_set_new) ops = (g, s)"
  shows "(\<Sum>d \<in> UNIV. delegated g d v) + slashed_off verify_pop (delegation_registry_new, validator_set_new) ops v = dstake s v
    \<and> (list_all (\<lambda>op. \<forall>a bps. op \<noteq> Del_Slash a bps) ops \<longrightarrow> (\<Sum>d \<in> UNIV. delegated g d v) = dstake s v)"
  using agreeD(3)[OF del_reachable_agree[OF assms], of v]
    slashed_off_none[of ops verify_pop "(delegation_registry_new, validator_set_new)" v] by (auto simp: delegated_total_def)

definition sample_run :: "del_op list" where
  "sample_run = [Del_Set (Vs_Register 7 [1] [] (10 ^ 24) 500), Del_Delegate 1 7 50 3, Del_Undelegate 1 7 20 4]"

theorem delegations_backed_witness:
  "(\<Sum>d \<in> UNIV. delegated (fst (foldl (del_step (\<lambda>_ _ _. True)) (delegation_registry_new, validator_set_new) sample_run)) d 7)
   = dstake (snd (foldl (del_step (\<lambda>_ _ _. True)) (delegation_registry_new, validator_set_new) sample_run)) 7"
  by (rule delegations_backed[where ops = sample_run and verify_pop = "\<lambda>_ _ _. True", THEN conjunct2, THEN mp])
     (simp_all add: sample_run_def prod_eq_iff del: foldl.simps)

text \<open>
  undelegation is atomic on every reachable state. \<open>begin_undelegate\<close> writes the record
  before it calls the validator set, which may refuse; because of the agreement above it never
  does, so an error leaves both structures as they were.
\<close>

theorem begin_undelegate_atomic:
  assumes "list_all del_op_ok ops" "sum_list (map del_in ops) < 2 ^ 128"
    and "foldl (del_step verify_pop) (delegation_registry_new, validator_set_new) ops = (g, s)"
    and "begin_undelegate g s d v n c = (Err e, g', s')"
  shows "g' = g \<and> s' = s"
  using begin_undelegate_agree[OF del_reachable_agree[OF assms(1-3)] assms(4)] by simp

theorem begin_undelegate_atomic_witness:
  "(let w = foldl (del_step (\<lambda>_ _ _. True)) (delegation_registry_new, validator_set_new) sample_run
    in snd (begin_undelegate (fst w) (snd w) 1 7 100 9) = w)"
proof -
  define w where "w = foldl (del_step (\<lambda>_ _ _. True)) (delegation_registry_new, validator_set_new) sample_run"
  obtain x g' s' where r: "begin_undelegate (fst w) (snd w) 1 7 100 9 = (x, g', s')" using prod_cases3 by blast
  have "\<exists>r. records (fst w) (1, 7) = Some r \<and> damount r = 30"
    by (simp add: w_def sample_run_def registry_delegate_def delegate_def validator_set_new_def get_def put_def
        delegation_registry_new_def delegation_record_new_def Let_def sat_add_def umax_def
        register_with_pop_def register_def MIN_SELF_STAKE_def begin_undelegate_def undelegate_def)
  then have "x = Err InsufficientStake" using r by (auto simp: begin_undelegate_def)
  then have "g' = fst w \<and> s' = snd w"
    using r by (intro begin_undelegate_atomic[where ops = sample_run and verify_pop = "\<lambda>_ _ _. True"])
       (simp_all add: w_def, simp_all add: sample_run_def)
  then show ?thesis using r by (simp flip: w_def)
qed

text \<open>
  \<open>dedup\<close> removes adjacent duplicates only. A delegator that delegates, lets somebody else
  delegate, and delegates again is listed twice and is slashed twice: 10 per cent of 1000
  leaves 810 instead of 900.
\<close>

lemma delegator_slashed_twice:
  "(let s0 = validator_set_new\<lparr>validators := [(7, registered 7 MIN_SELF_STAKE)]\<rparr>;
        (g, s) = foldl (del_step (\<lambda>_ _ _. True)) (delegation_registry_new, s0)
          [Del_Delegate 1 7 500 0, Del_Delegate 2 7 1000 0, Del_Delegate 1 7 500 0]
    in delegators_of g 7 = [1, 2, 1] \<and> delegated (apply_delegator_slash g 7 1000) 1 7 = 810
       \<and> delegated (apply_delegator_slash g 7 1000) 2 7 = 900)"
  by (simp add: registry_delegate_def delegate_def validator_set_new_def registered_def get_def put_def
      delegation_registry_new_def delegators_of_def delegation_record_new_def Let_def sat_add_def umax_def
      apply_delegator_slash_def slash_record_def wrap_mul_def delegated_def)

end
