(* ===== verification/Slashing.thy ===== *)
theory Slashing
  imports Validators
begin

text \<open>
  The slashing detector, \<open>zbx-staking/src/slashing.rs\<close>: double-sign detection per height and
  phase, consecutive-miss jailing, end-of-epoch liveness faults, and the application of slash
  events to the validator set with content-addressed deduplication. The SHA3-256 digest is an
  argument \<open>sha3\<close> of the operations that hash; the bytes it is applied to are modelled. The
  set of processed identifiers and the per-epoch counters are lists and association lists in
  iteration order.
\<close>

section \<open>Events and state\<close>

definition SLASH_DOUBLE_SIGN :: u128 where "SLASH_DOUBLE_SIGN = 500"
definition MAX_CONSECUTIVE_MISSED :: u64 where "MAX_CONSECUTIVE_MISSED = 20"

datatype slash_evidence =
    DoubleSign u64 h256 h256
  | LivenessFault u64 u64 u64
  | ConsecutiveMiss u64 u64

record slash_event =
  offender :: address
  evidence :: slash_evidence
  slash_amount :: u128
  ejailed :: bool

record slashing_detector =
  vote_records :: "u64 \<times> nat \<rightharpoonup> address \<rightharpoonup> h256"
  missed_blocks :: "((u64 \<times> address) \<times> u64) list"
  consecutive_missed :: "address \<rightharpoonup> u64"
  streak_start :: "address \<rightharpoonup> u64"
  processed :: "h256 list"

definition slashing_detector_new :: slashing_detector where
  "slashing_detector_new = \<lparr>vote_records = Map.empty, missed_blocks = [], consecutive_missed = Map.empty,
     streak_start = Map.empty, processed = []\<rparr>"

definition build_slash :: "address \<Rightarrow> slash_evidence \<Rightarrow> u128 \<Rightarrow> bool \<Rightarrow> slash_event" where
  "build_slash validator ev slash_bps jailed =
     \<lparr>offender = validator, evidence = ev, slash_amount = slash_bps, ejailed = jailed\<rparr>"

section \<open>Detection\<close>

definition record_vote ::
  "slashing_detector \<Rightarrow> address \<Rightarrow> u64 \<Rightarrow> nat \<Rightarrow> h256 \<Rightarrow> slash_event option \<times> slashing_detector" where
  "record_vote d validator height phase block_hash =
     (let d1 = d\<lparr>consecutive_missed := (consecutive_missed d)(validator := None),
                 streak_start := (streak_start d)(validator := None)\<rparr>;
          entry = (case vote_records d1 (height, phase) of None \<Rightarrow> Map.empty | Some m \<Rightarrow> m);
          d2 = d1\<lparr>vote_records := (vote_records d1)((height, phase) \<mapsto> entry)\<rparr>
      in case entry validator of
           Some existing_hash \<Rightarrow>
             if existing_hash \<noteq> block_hash
             then (Some (build_slash validator (DoubleSign height existing_hash block_hash) SLASH_DOUBLE_SIGN True), d2)
             else (None, d2)
         | None \<Rightarrow>
             (None, d2\<lparr>vote_records := (vote_records d2)((height, phase) \<mapsto> entry(validator \<mapsto> block_hash))\<rparr>))"

definition record_missed_block ::
  "slashing_detector \<Rightarrow> address \<Rightarrow> u64 \<Rightarrow> u64 \<Rightarrow> slash_event option \<times> slashing_detector" where
  "record_missed_block d validator epoch block_height =
     (let n = (case map_of (missed_blocks d) (epoch, validator) of None \<Rightarrow> 0 | Some n \<Rightarrow> n);
          d1 = d\<lparr>missed_blocks := AList.update (epoch, validator) (wrap_add 64 n 1) (missed_blocks d)\<rparr>;
          streak0 = (case consecutive_missed d1 validator of None \<Rightarrow> 0 | Some k \<Rightarrow> k);
          d2 = (if streak0 = 0 then d1\<lparr>streak_start := (streak_start d1)(validator \<mapsto> block_height)\<rparr> else d1);
          streak = wrap_add 64 streak0 1
      in if streak \<ge> MAX_CONSECUTIVE_MISSED
         then (let from = (case streak_start d2 validator of None \<Rightarrow> block_height | Some b \<Rightarrow> b)
               in (Some (build_slash validator (ConsecutiveMiss from streak) 0 True),
                   d2\<lparr>consecutive_missed := (consecutive_missed d2)(validator \<mapsto> 0),
                      streak_start := (streak_start d2)(validator := None)\<rparr>))
         else (None, d2\<lparr>consecutive_missed := (consecutive_missed d2)(validator \<mapsto> streak)\<rparr>))"

definition check_liveness_faults :: "slashing_detector \<Rightarrow> u64 \<Rightarrow> u64 \<Rightarrow> slash_event list" where
  "check_liveness_faults d epoch epoch_blocks =
     (let threshold = epoch_blocks div 2 in
      map (\<lambda>((e, validator), missed).
             \<lparr>offender = validator, evidence = LivenessFault epoch missed epoch_blocks, slash_amount = 0, ejailed = True\<rparr>)
          (filter (\<lambda>((e, validator), missed). e = epoch \<and> missed > threshold) (missed_blocks d)))"

definition prune_vote_records :: "slashing_detector \<Rightarrow> u64 \<Rightarrow> slashing_detector" where
  "prune_vote_records d finalized_height =
     d\<lparr>vote_records := (\<lambda>(h, p). if h \<ge> finalized_height then vote_records d (h, p) else None)\<rparr>"

section \<open>Application\<close>

definition le_bytes :: "nat \<Rightarrow> nat \<Rightarrow> byte list" where
  "le_bytes k n = rev (be_bytes k n)"

primrec evidence_bytes :: "slash_evidence \<Rightarrow> byte list" where
  "evidence_bytes (DoubleSign height a b) = le_bytes 8 height @ h256_bytes a @ h256_bytes b"
| "evidence_bytes (LivenessFault epoch missed total_blocks) = le_bytes 8 epoch @ le_bytes 8 missed @ le_bytes 8 total_blocks"
| "evidence_bytes (ConsecutiveMiss from cnt) = le_bytes 8 from @ le_bytes 8 cnt"

definition slash_event_preimage :: "slash_event \<Rightarrow> byte list" where
  "slash_event_preimage ev =
     addr_bytes (offender ev) @ le_bytes 16 (slash_amount ev) @ [if ejailed ev then 1 else 0]
     @ evidence_bytes (evidence ev)"

definition slash_event_id :: "(byte list \<Rightarrow> h256) \<Rightarrow> slash_event \<Rightarrow> h256" where
  "slash_event_id sha3 ev = sha3 (slash_event_preimage ev)"

definition slash_validator :: "slash_event \<Rightarrow> validator \<Rightarrow> validator" where
  "slash_validator ev v =
     (let slash = min (wrap_mul 128 (total_stake v) (slash_amount ev) div 10000) (self_stake v);
          v1 = v\<lparr>self_stake := self_stake v - slash\<rparr>
      in if ejailed ev then v1\<lparr>status := Jailed\<rparr>
         else if self_stake v1 < MIN_SELF_STAKE \<and> status v1 = Active then v1\<lparr>status := Pending\<rparr>
         else v1)"

definition apply_slash ::
  "(byte list \<Rightarrow> h256) \<Rightarrow> slashing_detector \<times> validator_set \<Rightarrow> slash_event \<Rightarrow> slashing_detector \<times> validator_set" where
  "apply_slash sha3 = (\<lambda>(d, s) ev.
     let id = slash_event_id sha3 ev in
     if id \<in> set (processed d) then (d, s)
     else (let d1 = d\<lparr>processed := id # processed d\<rparr>
           in case get s (offender ev) of
                Some v \<Rightarrow> (d1, put s (offender ev) (slash_validator ev v))
              | None \<Rightarrow> (d1, s)))"

definition apply_slashes ::
  "(byte list \<Rightarrow> h256) \<Rightarrow> slashing_detector \<Rightarrow> slash_event list \<Rightarrow> validator_set \<Rightarrow> slashing_detector \<times> validator_set" where
  "apply_slashes sha3 d events s = foldl (apply_slash sha3) (d, s) events"

definition prune_processed :: "slashing_detector \<Rightarrow> usize \<Rightarrow> slashing_detector" where
  "prune_processed d max_size =
     (if length (processed d) \<le> max_size then d
      else (let target = max_size div 2;
                to_drain = length (processed d) - target
            in d\<lparr>processed := drop to_drain (processed d)\<rparr>))"

definition prune_missed_blocks :: "slashing_detector \<Rightarrow> u64 \<Rightarrow> slashing_detector" where
  "prune_missed_blocks d min_epoch =
     d\<lparr>missed_blocks := filter (\<lambda>((e, v), n). e \<ge> min_epoch) (missed_blocks d)\<rparr>"

section \<open>Deduplication\<close>

lemma processed_apply:
  "set (processed (fst (foldl (apply_slash sha3) (d, s) evs)))
   = set (processed d) \<union> set (map (slash_event_id sha3) evs)"
proof (induction evs arbitrary: d s)
  case (Cons ev evs)
  obtain d' s' where ds: "apply_slash sha3 (d, s) ev = (d', s')" by fastforce
  then have "set (processed d') = insert (slash_event_id sha3 ev) (set (processed d))"
    by (auto simp: apply_slash_def Let_def split: if_splits option.splits)
  with Cons[of d' s'] ds show ?case by simp
qed simp

lemma apply_processed:
  "set (map (slash_event_id sha3) evs) \<subseteq> set (processed d) \<Longrightarrow> foldl (apply_slash sha3) (d, s) evs = (d, s)"
  by (induction evs) (simp_all add: apply_slash_def Let_def)

text \<open>
  applying a batch of slash events a second time changes nothing: every event identifier
  of the batch has been recorded, so no validator is slashed or jailed twice for it.
\<close>

theorem apply_slashes_idempotent:
  "(let (d1, s1) = apply_slashes sha3 d events s in apply_slashes sha3 d1 events s1 = (d1, s1))"
proof -
  obtain d1 s1 where ds: "foldl (apply_slash sha3) (d, s) events = (d1, s1)" by fastforce
  have "set (map (slash_event_id sha3) events) \<subseteq> set (processed d1)"
    using processed_apply[of sha3 d s events] ds by auto
  then show ?thesis using ds apply_processed[of sha3 events d1 s1] by (simp add: apply_slashes_def)
qed

lemma le_bytes_inj: "fits k m \<Longrightarrow> fits k n \<Longrightarrow> le_bytes k m = le_bytes k n \<Longrightarrow> m = n"
  by (simp add: le_bytes_def be_bytes_inj)

lemma length_le_bytes [simp]: "length (le_bytes k n) = k"
  by (simp add: le_bytes_def)

text \<open>The fields of an event fit their Rust types.\<close>

primrec evidence_fits :: "slash_evidence \<Rightarrow> bool" where
  "evidence_fits (DoubleSign height a b) = (fits 8 height)"
| "evidence_fits (LivenessFault epoch missed total_blocks) = (fits 8 epoch \<and> fits 8 missed \<and> fits 8 total_blocks)"
| "evidence_fits (ConsecutiveMiss from cnt) = (fits 8 from \<and> fits 8 cnt)"

definition event_fits :: "slash_event \<Rightarrow> bool" where
  "event_fits ev \<longleftrightarrow> fits 16 (slash_amount ev) \<and> evidence_fits (evidence ev)"

lemma evidence_bytes_inj:
  assumes "evidence_fits x" "evidence_fits y" "evidence_bytes x = evidence_bytes y"
  shows "x = y"
proof -
  have "length (evidence_bytes x) = length (evidence_bytes y)" using assms(3) by simp
  then show ?thesis
    using assms by (cases x; cases y)
      (auto dest: le_bytes_inj)
qed

text \<open>
  the bytes hashed into an event identifier determine the event, although the kind of
  evidence is not tagged: two events with the same preimage are equal. Deduplication therefore
  never confuses two different offences unless the hash collides.
\<close>

theorem slash_event_preimage_distinct:
  assumes "event_fits x" "event_fits y" "x \<noteq> y"
  shows "slash_event_preimage x \<noteq> slash_event_preimage y"
proof
  assume "slash_event_preimage x = slash_event_preimage y"
  then have "offender x = offender y" "slash_amount x = slash_amount y" "ejailed x = ejailed y"
    "evidence x = evidence y"
    using assms unfolding slash_event_preimage_def event_fits_def
    by (auto dest: le_bytes_inj evidence_bytes_inj split: if_splits)
  then have "x = y" by (intro slash_event.equality) simp_all
  with assms(3) show False ..
qed

theorem slash_event_preimage_distinct_witness:
  "slash_event_preimage (build_slash 5 (ConsecutiveMiss 3 20) 0 True)
   \<noteq> slash_event_preimage (build_slash 5 (LivenessFault 3 20 0) 0 True)"
  by (rule slash_event_preimage_distinct) (simp_all add: event_fits_def build_slash_def fits_def)

section \<open>Votes\<close>

definition recorded :: "slashing_detector \<Rightarrow> u64 \<Rightarrow> nat \<Rightarrow> address \<Rightarrow> h256 option" where
  "recorded d h p v = (case vote_records d (h, p) of None \<Rightarrow> None | Some m \<Rightarrow> m v)"

lemma record_vote_recorded:
  "recorded (snd (record_vote d v h p x)) h' p' v' =
   (if h' = h \<and> p' = p \<and> v' = v \<and> recorded d h p v = None then Some x else recorded d h' p' v')"
  by (auto simp: record_vote_def recorded_def Let_def split: option.splits)

lemma record_vote_event:
  "fst (record_vote d v h p x) =
   (case recorded d h p v of
      None \<Rightarrow> None
    | Some y \<Rightarrow> if y = x then None else Some (build_slash v (DoubleSign h y x) SLASH_DOUBLE_SIGN True))"
  by (auto simp: record_vote_def recorded_def Let_def split: option.splits)

type_synonym vote = "address \<times> u64 \<times> nat \<times> h256"

fun record_votes :: "slashing_detector \<Rightarrow> vote list \<Rightarrow> slashing_detector" where
  "record_votes d [] = d"
| "record_votes d ((v, h, p, x) # vs) = record_votes (snd (record_vote d v h p x)) vs"

lemma record_votes_recorded:
  "recorded (record_votes d vs) h p v =
   (case recorded d h p v of
      Some y \<Rightarrow> Some y
    | None \<Rightarrow> map_option (\<lambda>(_, _, _, x). x) (List.find (\<lambda>(v', h', p', _). v' = v \<and> h' = h \<and> p' = p) vs))"
  by (induction d vs rule: record_votes.induct) (auto simp: record_vote_recorded split: option.splits)

text \<open>
  double-sign detection is sound and complete. After any sequence of votes, a vote is
  reported if and only if the same validator has already voted for a different block at that
  height and phase before any vote for this one, and the report names the two hashes; a
  validator that repeats its own vote is never accused.
\<close>

theorem double_sign_detection:
  "fst (record_vote (record_votes slashing_detector_new vs) v h p x) =
   (case List.find (\<lambda>(v', h', p', _). v' = v \<and> h' = h \<and> p' = p) vs of
      None \<Rightarrow> None
    | Some (_, _, _, y) \<Rightarrow>
        if y = x then None else Some (build_slash v (DoubleSign h y x) SLASH_DOUBLE_SIGN True))"
proof -
  have "recorded slashing_detector_new h p v = None"
    by (simp add: recorded_def slashing_detector_new_def)
  then show ?thesis
    by (auto simp: record_vote_event record_votes_recorded split: option.splits)
qed

section \<open>Missed blocks\<close>

fun misses :: "slashing_detector \<Rightarrow> address \<Rightarrow> u64 \<Rightarrow> u64 list \<Rightarrow> slash_event option list \<times> slashing_detector" where
  "misses d v epoch [] = ([], d)"
| "misses d v epoch (b # bs) =
     (let (r, d1) = record_missed_block d v epoch b; (rs, d2) = misses d1 v epoch bs in (r # rs, d2))"

definition streak :: "slashing_detector \<Rightarrow> address \<Rightarrow> nat" where
  "streak d v = (case consecutive_missed d v of None \<Rightarrow> 0 | Some k \<Rightarrow> k)"

lemma record_missed_block_below:
  assumes "streak d v < 19"
  shows "fst (record_missed_block d v epoch b) = None"
    "streak (snd (record_missed_block d v epoch b)) v = streak d v + 1"
    "streak_start (snd (record_missed_block d v epoch b)) v
      = (if streak d v = 0 then Some b else streak_start d v)"
  using assms
  by (auto simp: record_missed_block_def Let_def streak_def MAX_CONSECUTIVE_MISSED_def wrap_add_def
      split: option.splits)

lemma record_missed_block_last:
  assumes "streak d v = 19" "streak_start d v = Some from"
  shows "fst (record_missed_block d v epoch b) = Some (build_slash v (ConsecutiveMiss from 20) 0 True)"
    "streak (snd (record_missed_block d v epoch b)) v = 0"
  using assms
  by (auto simp: record_missed_block_def Let_def streak_def MAX_CONSECUTIVE_MISSED_def wrap_add_def
      split: option.splits)

lemma misses_below:
  assumes "0 < streak d v" "streak d v + length bs \<le> 19"
  shows "fst (misses d v epoch bs) = replicate (length bs) None"
    "streak (snd (misses d v epoch bs)) v = streak d v + length bs"
    "streak_start (snd (misses d v epoch bs)) v = streak_start d v"
proof -
  have "fst (misses d v epoch bs) = replicate (length bs) None
    \<and> streak (snd (misses d v epoch bs)) v = streak d v + length bs
    \<and> streak_start (snd (misses d v epoch bs)) v = streak_start d v"
    using assms
  proof (induction bs arbitrary: d)
    case (Cons b bs)
    let ?d1 = "snd (record_missed_block d v epoch b)"
    have r: "fst (record_missed_block d v epoch b) = None" "streak ?d1 v = streak d v + 1"
      "streak_start ?d1 v = streak_start d v"
      using record_missed_block_below[of d v epoch b] Cons.prems by auto
    show ?case using Cons.IH[of ?d1] r Cons.prems by (simp add: split_beta Let_def)
  qed simp
  then show "fst (misses d v epoch bs) = replicate (length bs) None"
    "streak (snd (misses d v epoch bs)) v = streak d v + length bs"
    "streak_start (snd (misses d v epoch bs)) v = streak_start d v" by blast+
qed

lemma misses_append:
  "misses d v epoch (bs @ cs) =
   (let (r1, d1) = misses d v epoch bs; (r2, d2) = misses d1 v epoch cs in (r1 @ r2, d2))"
  by (induction bs arbitrary: d) (simp_all add: split_beta Let_def)

text \<open>
  a validator is jailed on exactly the twentieth block it misses in a row. After a vote,
  the next nineteen misses report nothing and the twentieth reports the streak with the height
  at which it began; the streak then starts again.
\<close>

theorem jailed_at_twenty_misses:
  assumes "length bs = 18"
  shows "fst (misses (snd (record_vote d v h p x)) v epoch (b # bs @ [c])) =
    replicate 19 None @ [Some (build_slash v (ConsecutiveMiss b 20) 0 True)]"
proof -
  define d0 where "d0 = snd (record_vote d v h p x)"
  have "streak d0 v = 0" by (auto simp: d0_def streak_def record_vote_def Let_def split: option.splits)
  then have r: "fst (record_missed_block d0 v epoch b) = None"
    "streak (snd (record_missed_block d0 v epoch b)) v = 1"
    "streak_start (snd (record_missed_block d0 v epoch b)) v = Some b"
    using record_missed_block_below[of d0 v epoch b] by simp_all
  note m = misses_below[of "snd (record_missed_block d0 v epoch b)" v bs epoch]
  have l: "fst (record_missed_block (snd (misses (snd (record_missed_block d0 v epoch b)) v epoch bs)) v epoch c)
      = Some (build_slash v (ConsecutiveMiss b 20) 0 True)"
    using m r assms by (intro record_missed_block_last(1)) simp_all
  have "replicate 19 None = None # replicate 18 (None :: slash_event option)"
    by (simp add: numeral_eq_Suc)
  then show ?thesis using r m(1) l assms
    by (simp add: misses_append split_beta Let_def flip: d0_def)
qed

theorem jailed_at_twenty_misses_witness:
  "fst (misses (snd (record_vote slashing_detector_new 3 1 0 0)) 3 0 (7 # [8 ..< 26] @ [26])) =
   replicate 19 None @ [Some (build_slash 3 (ConsecutiveMiss 7 20) 0 True)]"
  by (rule jailed_at_twenty_misses) simp

section \<open>Effect on the validator set\<close>

lemma slash_validator_ok: "vs_ok A k v \<Longrightarrow> vs_ok A k (slash_validator ev v)"
  by (auto simp: slash_validator_def Let_def vs_ok_def intro: le_less_trans[OF diff_le_self])

lemma apply_slash_inv: "vs_inv s \<Longrightarrow> vs_inv (snd (apply_slash sha3 (d, s) ev))"
  by (auto simp: apply_slash_def Let_def split: option.splits
      intro!: put_inv slash_validator_ok dest: vs_invD(5))

lemma apply_slashes_inv: "vs_inv s \<Longrightarrow> vs_inv (snd (apply_slashes sha3 d evs s))"
proof -
  have "vs_inv (snd w) \<Longrightarrow> vs_inv (snd (foldl (apply_slash sha3) w evs))" for w
  proof (induction evs arbitrary: w)
    case (Cons ev evs)
    then show ?case using apply_slash_inv[of "snd w" sha3 "fst w" ev] by simp
  qed simp
  then show "vs_inv s \<Longrightarrow> vs_inv (snd (apply_slashes sha3 d evs s))" by (simp add: apply_slashes_def)
qed

text \<open>
  slashing keeps the invariant of the validator set, and a validator named by a jailing
  event that had not been processed can no longer be elected.
\<close>

theorem jailing_bars_election:
  assumes "vs_inv s" "ejailed ev" "get s (offender ev) = Some v" "slash_event_id sha3 ev \<notin> set (processed d)"
  shows "vs_inv (snd (apply_slashes sha3 d [ev] s))
    \<and> offender ev \<notin> set (fst (elect_active_set (snd (apply_slashes sha3 d [ev] s))))"
proof -
  let ?s = "snd (apply_slashes sha3 d [ev] s)"
  have inv: "vs_inv ?s" using assms(1) by (rule apply_slashes_inv)
  have "get ?s (offender ev) = Some (slash_validator ev v)"
    using assms(3,4) by (simp add: apply_slashes_def apply_slash_def Let_def)
  moreover have "\<not> is_eligible (slash_validator ev v)"
    using assms(2) by (simp add: is_eligible_def slash_validator_def Let_def)
  ultimately have "offender ev \<notin> set (new_set ?s)" using new_set_facts(3)[OF inv] by fastforce
  then show ?thesis using inv by (simp add: elect_simps)
qed

theorem jailing_bars_election_witness:
  "vs_inv (snd (apply_slashes (\<lambda>_. 0) slashing_detector_new [build_slash 2 (ConsecutiveMiss 1 20) 0 True] two_validators))
   \<and> 2 \<notin> set (fst (elect_active_set (snd (apply_slashes (\<lambda>_. 0) slashing_detector_new
       [build_slash 2 (ConsecutiveMiss 1 20) 0 True] two_validators))))"
proof -
  have "get two_validators 2 = Some (registered 2 (3 * MIN_SELF_STAKE))"
    by (simp add: get_def two_validators_def)
  then show ?thesis
    using jailing_bars_election[of two_validators "build_slash 2 (ConsecutiveMiss 1 20) 0 True"
        "registered 2 (3 * MIN_SELF_STAKE)" "\<lambda>_. 0" slashing_detector_new]
    by (simp add: two_validators_inv build_slash_def slashing_detector_new_def)
qed

text \<open>
  A jailing event overwrites the status of a tombstoned validator, whose exclusion is meant to
  be permanent, with one that an operator may lift.
\<close>

lemma jailing_lifts_tombstone:
  "status (slash_validator (build_slash a (ConsecutiveMiss b 20) 0 True) (v\<lparr>status := Tombstoned\<rparr>)) = Jailed"
  by (simp add: slash_validator_def Let_def build_slash_def)

end
