(* ===== verification/Mempool.thy ===== *)
theory Mempool
  imports Prelude "HOL-Library.AList" "HOL-Library.Sublist"
begin

text \<open>
  The transaction pool, \<open>zbx-mempool\<close>: the nonce tracker of \<open>nonce_tracker.rs\<close>, the pool of
  \<open>pool.rs\<close> (admission, replacement, promotion, block selection, pruning), its errors, and the
  transaction type of \<open>zbx-types/src/transaction.rs\<close> with the fee and intrinsic-gas helpers.

  The pending and queued hash maps are association lists in iteration order. The two
  cryptographic functions the admission calls are arguments: \<open>compute_hash\<close>, the Keccak digest
  of the RLP form the external \<open>rlp\<close> crate produces, and \<open>recover\<close>, the ECDSA signer of the
  signing hash (\<open>None\<close> when the signature does not parse or recover).
\<close>

section \<open>Transactions (transaction.rs)\<close>

definition BLOCK_GAS_LIMIT :: u64 where "BLOCK_GAS_LIMIT = 30000000"

datatype tx_type = Legacy | AccessList | DynamicFee

record transaction =
  tx_kind :: tx_type
  nonce :: u64
  max_priority_fee_per_gas :: u64
  max_fee_per_gas :: u64
  gas_limit :: u64
  recipient :: "address option"
  tx_value :: nat
  tx_data :: "byte list"
  access_list :: "(address \<times> h256 list) list"
  chain_id :: u64

record signature =
  sig_v :: byte
  sig_r :: h256
  sig_s :: h256

record signed_tx =
  tx :: transaction
  sig :: signature
  tx_from :: address
  tx_hash :: h256

type_synonym hash_fun = "transaction \<Rightarrow> signature \<Rightarrow> h256"
type_synonym recover_fun = "transaction \<Rightarrow> signature \<Rightarrow> address option"

definition verify_hash :: "hash_fun \<Rightarrow> signed_tx \<Rightarrow> bool" where
  "verify_hash compute_hash t \<longleftrightarrow> compute_hash (tx t) (sig t) = tx_hash t"

text \<open>The sum is at most the larger of \<open>base_fee\<close> and \<open>max_fee_per_gas\<close>, so it fits in 64 bits.\<close>

definition effective_gas_price :: "signed_tx \<Rightarrow> u64 \<Rightarrow> u64" where
  "effective_gas_price t base_fee =
     (let tip = max_priority_fee_per_gas (tx t); mx = max_fee_per_gas (tx t)
      in base_fee + min tip (mx - base_fee))"

definition intrinsic_gas :: "transaction \<Rightarrow> u64" where
  "intrinsic_gas t =
     (let base = (if recipient t = None then 53000 else 21000);
          data_cost = sum_list (map (\<lambda>b. if b = 0 then 4 else 16) (tx_data t));
          al_cost = length (access_list t) * 2400
            + sum_list (map (\<lambda>(_, slots). length slots * 1900) (access_list t))
      in base + data_cost + al_cost)"

section \<open>Nonce tracker (nonce_tracker.rs)\<close>

record nonce_tracker =
  on_chain :: "address \<rightharpoonup> u64"
  pending_max :: "address \<rightharpoonup> u64"

definition nonce_tracker_new :: nonce_tracker where
  "nonce_tracker_new = \<lparr>on_chain = Map.empty, pending_max = Map.empty\<rparr>"

definition set_on_chain :: "nonce_tracker \<Rightarrow> address \<Rightarrow> u64 \<Rightarrow> nonce_tracker" where
  "set_on_chain t a n =
     (let t1 = t\<lparr>on_chain := (on_chain t)(a \<mapsto> n)\<rparr>
      in case pending_max t1 a of
           Some m \<Rightarrow> if m \<le> n then t1\<lparr>pending_max := (pending_max t1)(a := None)\<rparr> else t1
         | None \<Rightarrow> t1)"

definition on_chain_nonce :: "nonce_tracker \<Rightarrow> address \<Rightarrow> u64" where
  "on_chain_nonce t a = (case on_chain t a of None \<Rightarrow> 0 | Some n \<Rightarrow> n)"

definition next_nonce :: "nonce_tracker \<Rightarrow> address \<Rightarrow> u64" where
  "next_nonce t a = (case pending_max t a of Some n \<Rightarrow> wrap_add 64 n 1 | None \<Rightarrow> on_chain_nonce t a)"

definition record_pending :: "nonce_tracker \<Rightarrow> address \<Rightarrow> u64 \<Rightarrow> nonce_tracker" where
  "record_pending t a n =
     (let entry = (case pending_max t a of None \<Rightarrow> 0 | Some m \<Rightarrow> m)
      in t\<lparr>pending_max := (pending_max t)(a \<mapsto> (if n > entry then n else entry))\<rparr>)"

definition remove_pending :: "nonce_tracker \<Rightarrow> address \<Rightarrow> nonce_tracker" where
  "remove_pending t a = t\<lparr>pending_max := (pending_max t)(a := None)\<rparr>"

section \<open>The pool (pool.rs, error.rs)\<close>

datatype mempool_error =
    AlreadyKnown h256
  | NonceTooLow address u64 u64
  | InsufficientBalance u128 u128
  | GasLimitTooHigh u64 u64
  | FeeTooLow u64 u64
  | PendingFull usize
  | QueuedFull usize
  | InvalidSignature
  | TooManySlotsPerSender address usize usize
  | CumulativeBalanceExceeded address u128 u128
  | ReplacementUnderpriced address u64 u64 u64
  | IntrinsicGasTooLow address u64 u64
  | NonceGapTooLarge address u64 u64 u64

record mempool_config =
  max_pending :: usize
  max_queued :: usize
  min_gas_tip :: u64
  max_tx_size :: usize
  max_slots_per_sender :: usize
  max_nonce_gap :: u64

definition mempool_config_default :: mempool_config where
  "mempool_config_default = \<lparr>max_pending = 5000, max_queued = 2000, min_gas_tip = 1000000,
     max_tx_size = 131072, max_slots_per_sender = 64, max_nonce_gap = 256\<rparr>"

record pending_slot =
  slot_tx :: signed_tx
  priority :: u64

type_synonym slot_key = "address \<times> u64"

record pool =
  config :: mempool_config
  pending :: "(slot_key \<times> pending_slot) list"
  queued :: "(slot_key \<times> signed_tx) list"
  known :: "h256 \<rightharpoonup> slot_key"
  tracker :: nonce_tracker
  base_fee :: u64

definition pool_new :: "mempool_config \<Rightarrow> pool" where
  "pool_new c = \<lparr>config = c, pending = [], queued = [], known = Map.empty,
     tracker = nonce_tracker_new, base_fee = 1000000000\<rparr>"

text \<open>Products of two 64-bit values fit in 128 bits; a value above 128 bits counts as the largest one.\<close>

definition slot_cost :: "signed_tx \<Rightarrow> u128" where
  "slot_cost t =
     (let max_cost = sat_mul 128 (max_fee_per_gas (tx t)) (gas_limit (tx t));
          v = (if tx_value (tx t) \<ge> 2 ^ 128 then umax 128 else tx_value (tx t))
      in sat_add 128 max_cost v)"

definition cost_of :: "signed_tx \<Rightarrow> u128" where
  "cost_of t =
     (let max_cost = max_fee_per_gas (tx t) * gas_limit (tx t);
          v = (if tx_value (tx t) \<ge> 2 ^ 128 then umax 128 else tx_value (tx t))
      in sat_add 128 max_cost v)"

definition total_count :: "pool \<Rightarrow> usize" where
  "total_count p = length (pending p) + length (queued p)"

definition sender_slot_count :: "pool \<Rightarrow> address \<Rightarrow> usize" where
  "sender_slot_count p addr =
     length (filter (\<lambda>((a, _), _). a = addr) (pending p)) + length (filter (\<lambda>((a, _), _). a = addr) (queued p))"

definition sender_cumulative_cost :: "pool \<Rightarrow> address \<Rightarrow> u128" where
  "sender_cumulative_cost p addr =
     (let total = foldl (\<lambda>total ((a, _), slot). if a = addr then sat_add 128 total (cost_of (slot_tx slot)) else total)
        0 (pending p)
      in foldl (\<lambda>total ((a, _), t). if a = addr then sat_add 128 total (cost_of t) else total) total (queued p))"

definition update_base_fee :: "pool \<Rightarrow> u64 \<Rightarrow> pool" where
  "update_base_fee p base_fee_per_gas = p\<lparr>base_fee := base_fee_per_gas\<rparr>"

definition tip_of :: "pool \<Rightarrow> signed_tx \<Rightarrow> u64" where
  "tip_of p t = effective_gas_price t (base_fee p) - base_fee p"

definition MAX_PROMOTE_PER_CALL :: usize where "MAX_PROMOTE_PER_CALL = 256"

text \<open>The loop of \<open>promote_queued\<close>, by the number of promotions it may still make.\<close>

primrec promote_loop :: "nat \<Rightarrow> pool \<Rightarrow> address \<Rightarrow> pool" where
  "promote_loop 0 p addr = p"
| "promote_loop (Suc k) p addr =
     (let expected = next_nonce (tracker p) addr; key = (addr, expected) in
      case map_of (queued p) key of
        Some t \<Rightarrow>
          promote_loop k
            (p\<lparr>queued := AList.delete key (queued p),
               tracker := record_pending (tracker p) addr expected,
               pending := AList.update key \<lparr>slot_tx = t, priority = tip_of p t\<rparr> (pending p)\<rparr>) addr
      | None \<Rightarrow> p)"

definition promote_queued :: "pool \<Rightarrow> address \<Rightarrow> pool" where
  "promote_queued p addr = promote_loop MAX_PROMOTE_PER_CALL p addr"

definition required_tip :: "u64 \<Rightarrow> u64" where
  "required_tip old_tip = sat_mul 64 old_tip 1125 div 1000 + 1"

definition check_replacement :: "pool \<Rightarrow> slot_key \<Rightarrow> u64 \<Rightarrow> (mempool_error, unit) res" where
  "check_replacement p key tip =
     (case map_of (pending p) key of
        Some slot \<Rightarrow>
          if tip < required_tip (priority slot)
          then Err (ReplacementUnderpriced (fst key) (snd key) tip (required_tip (priority slot))) else Ok ()
      | None \<Rightarrow>
         (case map_of (queued p) key of
            Some old \<Rightarrow>
              if tip < required_tip (tip_of p old)
              then Err (ReplacementUnderpriced (fst key) (snd key) tip (required_tip (tip_of p old))) else Ok ()
          | None \<Rightarrow> Ok ()))"

definition other_reserved :: "pool \<Rightarrow> slot_key \<Rightarrow> u128" where
  "other_reserved p key =
     (let reserved = sender_cumulative_cost p (fst key) in
      case map_of (pending p) key of
        Some slot \<Rightarrow> reserved - slot_cost (slot_tx slot)
      | None \<Rightarrow>
         (case map_of (queued p) key of
            Some old \<Rightarrow> reserved - slot_cost old
          | None \<Rightarrow> reserved))"

text \<open>The part of \<open>add_transaction\<close> that does not write (lines 140 to 221).\<close>

definition precheck :: "hash_fun \<Rightarrow> recover_fun \<Rightarrow> pool \<Rightarrow> signed_tx \<Rightarrow> u128 \<Rightarrow> (mempool_error, unit) res" where
  "precheck compute_hash recover p t sender_balance =
     (if known p (tx_hash t) \<noteq> None then Err (AlreadyKnown (tx_hash t))
      else if \<not> verify_hash compute_hash t then Err InvalidSignature
      else if recover (tx t) (sig t) \<noteq> Some (tx_from t) then Err InvalidSignature
      else if gas_limit (tx t) > BLOCK_GAS_LIMIT then Err (GasLimitTooHigh (gas_limit (tx t)) BLOCK_GAS_LIMIT)
      else if tip_of p t < min_gas_tip (config p) then Err (FeeTooLow (tip_of p t) (min_gas_tip (config p)))
      else if gas_limit (tx t) < intrinsic_gas (tx t)
      then Err (IntrinsicGasTooLow (tx_from t) (gas_limit (tx t)) (intrinsic_gas (tx t)))
      else if cost_of t > sender_balance then Err (InsufficientBalance sender_balance (cost_of t))
      else Ok ())"

text \<open>The checks after the nonce tracker has been told the on-chain nonce (lines 229 to 319).\<close>

definition slot_check :: "pool \<Rightarrow> signed_tx \<Rightarrow> u128 \<Rightarrow> u64 \<Rightarrow> (mempool_error, unit) res" where
  "slot_check p t sender_balance on_chain_n =
     (let addr = tx_from t; n = nonce (tx t); key = (addr, n);
          is_replacement = (map_of (pending p) key \<noteq> None \<or> map_of (queued p) key \<noteq> None);
          used = sender_slot_count p addr;
          projected = sat_add 128 (other_reserved p key) (cost_of t)
      in if n < on_chain_n then Err (NonceTooLow addr on_chain_n n)
         else if n - on_chain_n > max_nonce_gap (config p)
         then Err (NonceGapTooLarge addr n on_chain_n (max_nonce_gap (config p)))
         else if \<not> is_replacement \<and> used \<ge> max_slots_per_sender (config p)
         then Err (TooManySlotsPerSender addr (used + 1) (max_slots_per_sender (config p)))
         else if projected > sender_balance then Err (CumulativeBalanceExceeded addr projected sender_balance)
         else check_replacement p key (tip_of p t))"

text \<open>The insertion (lines 324 to 353).\<close>

definition forget_old :: "pool \<Rightarrow> slot_key \<Rightarrow> h256 \<rightharpoonup> slot_key" where
  "forget_old p key =
     (let k1 = (case map_of (pending p) key of Some slot \<Rightarrow> (known p)(tx_hash (slot_tx slot) := None) | None \<Rightarrow> known p)
      in case map_of (queued p) key of Some old \<Rightarrow> k1(tx_hash old := None) | None \<Rightarrow> k1)"

definition insert_tx :: "pool \<Rightarrow> signed_tx \<Rightarrow> (mempool_error, h256) res \<times> pool" where
  "insert_tx p t =
     (let addr = tx_from t; n = nonce (tx t); key = (addr, n); hash = tx_hash t;
          is_replacement = (map_of (pending p) key \<noteq> None \<or> map_of (queued p) key \<noteq> None);
          expected = next_nonce (tracker p) addr;
          p1 = p\<lparr>known := (forget_old p key)(hash \<mapsto> key)\<rparr>
      in if n = expected
         then if \<not> is_replacement \<and> length (pending p1) \<ge> max_pending (config p1)
              then (Err (PendingFull (length (pending p1))), p1\<lparr>known := (known p1)(hash := None)\<rparr>)
              else (Ok hash, promote_queued
                (p1\<lparr>tracker := record_pending (tracker p1) addr n,
                    pending := AList.update key \<lparr>slot_tx = t, priority = tip_of p1 t\<rparr> (pending p1)\<rparr>) addr)
         else if \<not> is_replacement \<and> length (queued p1) \<ge> max_queued (config p1)
              then (Err (QueuedFull (length (queued p1))), p1\<lparr>known := (known p1)(hash := None)\<rparr>)
              else (Ok hash, p1\<lparr>queued := AList.update key t (queued p1)\<rparr>))"

definition add_transaction ::
  "hash_fun \<Rightarrow> recover_fun \<Rightarrow> pool \<Rightarrow> signed_tx \<Rightarrow> u128 \<Rightarrow> u64 \<Rightarrow> (mempool_error, h256) res \<times> pool" where
  "add_transaction compute_hash recover p t sender_balance sender_on_chain_nonce =
     try_st (precheck compute_hash recover p t sender_balance) p (\<lambda>_.
     let p1 = p\<lparr>tracker := set_on_chain (tracker p) (tx_from t) sender_on_chain_nonce\<rparr> in
     try_st (slot_check p1 t sender_balance sender_on_chain_nonce) p1 (\<lambda>_. insert_tx p1 t))"

fun select_loop :: "u64 \<Rightarrow> u64 \<Rightarrow> pending_slot list \<Rightarrow> signed_tx list" where
  "select_loop limit total_gas [] = []"
| "select_loop limit total_gas (slot # slots) =
     (let gas = gas_limit (tx (slot_tx slot)) in
      if wrap_add 64 total_gas gas > limit then select_loop limit total_gas slots
      else slot_tx slot # select_loop limit (wrap_add 64 total_gas gas) slots)"

definition select_transactions :: "pool \<Rightarrow> u64 \<Rightarrow> signed_tx list" where
  "select_transactions p limit =
     select_loop limit 0 (sort_key (\<lambda>s. - int (priority s)) (map snd (pending p)))"

definition remove_one :: "pool \<Rightarrow> signed_tx \<Rightarrow> pool" where
  "remove_one p t =
     (let key = (tx_from t, nonce (tx t))
      in p\<lparr>pending := AList.delete key (pending p), queued := AList.delete key (queued p),
           known := (known p)(tx_hash t := None),
           tracker := set_on_chain (tracker p) (tx_from t) (wrap_add 64 (nonce (tx t)) 1)\<rparr>)"

definition remove_confirmed :: "pool \<Rightarrow> signed_tx list \<Rightarrow> pool" where
  "remove_confirmed p txs = foldl promote_queued (foldl remove_one p txs) (map tx_from txs)"


section \<open>The nonce tracker as an interface\<close>

text \<open>
  What the pool relies on: recording the expected nonce moves the expectation to the next one,
  and leaves other accounts alone. The expectation then counts the consecutive nonces recorded.
\<close>

locale nonce_source =
  fixes nxt :: "'t \<Rightarrow> address \<Rightarrow> u64"
    and rec :: "'t \<Rightarrow> address \<Rightarrow> u64 \<Rightarrow> 't"
    and below_max :: "'t \<Rightarrow> bool"
  assumes rec_next: "below_max t \<Longrightarrow> nxt t a + 1 < 2 ^ 64 \<Longrightarrow>
      nxt (rec t a (nxt t a)) a = nxt t a + 1 \<and> below_max (rec t a (nxt t a))"
    and rec_other: "b \<noteq> a \<Longrightarrow> nxt (rec t a n) b = nxt t b"
begin

primrec advance :: "nat \<Rightarrow> 't \<Rightarrow> address \<Rightarrow> 't" where
  "advance 0 t a = t"
| "advance (Suc k) t a = advance k (rec t a (nxt t a)) a"

lemma advance_next: "below_max t \<Longrightarrow> nxt t a + k < 2 ^ 64 \<Longrightarrow> nxt (advance k t a) a = nxt t a + k"
proof (induction k arbitrary: t)
  case (Suc k)
  then have "nxt (rec t a (nxt t a)) a = nxt t a + 1 \<and> below_max (rec t a (nxt t a))"
    by (intro rec_next) simp_all
  with Suc show ?case by simp
qed simp

lemma advance_other: "b \<noteq> a \<Longrightarrow> nxt (advance k t a) b = nxt t b"
  by (induction k arbitrary: t) (simp_all add: rec_other)

end

text \<open>No account has a pending transaction with the largest nonce.\<close>

definition tracker_fits :: "nonce_tracker \<Rightarrow> bool" where
  "tracker_fits t \<longleftrightarrow> (\<forall>m \<in> ran (pending_max t). m + 1 < 2 ^ 64)"

lemma tracker_fitsD: "tracker_fits t \<Longrightarrow> pending_max t a = Some m \<Longrightarrow> wrap_add 64 m 1 = m + 1"
  unfolding tracker_fits_def by (intro wrap_add_exact) (auto intro: ranI)

interpretation nt: nonce_source next_nonce record_pending tracker_fits
proof
  fix t a
  assume t: "tracker_fits t" and n: "next_nonce t a + 1 < 2 ^ 64"
  define n where "n = next_nonce t a"
  have pm: "pending_max (record_pending t a n) = (pending_max t)(a \<mapsto> n)"
    using tracker_fitsD[OF t, of a]
    by (cases "pending_max t a") (auto simp: n_def next_nonce_def record_pending_def)
  have "next_nonce (record_pending t a n) a = wrap_add 64 n 1"
    using pm by (simp add: next_nonce_def)
  also have "\<dots> = n + 1" using n unfolding n_def by (rule wrap_add_exact)
  finally show "next_nonce (record_pending t a (next_nonce t a)) a = next_nonce t a + 1
      \<and> tracker_fits (record_pending t a (next_nonce t a))"
    using t n pm by (auto simp: n_def tracker_fits_def ran_def)
next
  fix b a :: address and t n
  assume "b \<noteq> a"
  then show "next_nonce (record_pending t a n) b = next_nonce t b"
    by (auto simp: next_nonce_def record_pending_def on_chain_nonce_def Let_def split: option.splits)
qed

section \<open>Slots\<close>

abbreviation keys :: "('k \<times> 'v) list \<Rightarrow> 'k set" where
  "keys al \<equiv> fst ` set al"

definition nonces :: "pool \<Rightarrow> address \<Rightarrow> nat set" where
  "nonces p a = {n. (a, n) \<in> keys (pending p) \<union> keys (queued p)}"

definition tx_key :: "signed_tx \<Rightarrow> slot_key" where
  "tx_key t = (tx_from t, nonce (tx t))"

definition slot_ok :: "slot_key \<Rightarrow> signed_tx \<Rightarrow> bool" where
  "slot_ok k t \<longleftrightarrow> k = tx_key t \<and> gas_limit (tx t) \<le> BLOCK_GAS_LIMIT \<and> intrinsic_gas (tx t) \<le> gas_limit (tx t)"

text \<open>
  The invariant of the pool: one slot per key, every transaction under its sender and nonce
  with an admissible gas limit, and no sender with more distinct nonces than it may have slots.
\<close>

definition slots_ok :: "(slot_key \<times> pending_slot) list \<Rightarrow> (slot_key \<times> signed_tx) list \<Rightarrow> bool" where
  "slots_ok ps qs \<longleftrightarrow> distinct (map fst ps) \<and> distinct (map fst qs)
     \<and> list_all (\<lambda>(k, s). slot_ok k (slot_tx s)) ps \<and> list_all (\<lambda>(k, t). slot_ok k t) qs"

definition pool_inv :: "pool \<Rightarrow> bool" where
  "pool_inv p \<longleftrightarrow> slots_ok (pending p) (queued p) \<and> (\<forall>a. card (nonces p a) \<le> max_slots_per_sender (config p))"

lemma set_update_subset: "set (AList.update k v al) \<subseteq> insert (k, v) (set al)"
  by (induction al) auto

lemma set_delete: "set (AList.delete k al) = {x \<in> set al. fst x \<noteq> k}"
  by (auto simp: AList.delete_eq)

lemma distinct_delete: "distinct (map fst al) \<Longrightarrow> distinct (map fst (AList.delete k al))"
  by (simp add: AList.delete_eq distinct_map_filter)

lemma slots_ok_update:
  assumes "slots_ok ps qs" "slot_ok k t"
  shows "slots_ok (AList.update k \<lparr>slot_tx = t, priority = x\<rparr> ps) qs" "slots_ok ps (AList.update k t qs)"
  using assms set_update_subset[of k "\<lparr>slot_tx = t, priority = x\<rparr>" ps] set_update_subset[of k t qs]
  by (fastforce simp: slots_ok_def list_all_iff distinct_update)+

lemma slots_ok_delete:
  assumes "slots_ok ps qs"
  shows "slots_ok (AList.delete k ps) qs" "slots_ok ps (AList.delete k qs)"
  using assms by (auto simp: slots_ok_def list_all_iff set_delete distinct_delete)

lemma slots_ok_queued: "slots_ok ps qs \<Longrightarrow> map_of qs k = Some t \<Longrightarrow> slot_ok k t"
  by (auto simp: slots_ok_def list_all_iff dest: map_of_SomeD)

section \<open>Promotion\<close>

definition promote_one :: "pool \<Rightarrow> slot_key \<Rightarrow> signed_tx \<Rightarrow> pool" where
  "promote_one p key t =
     p\<lparr>queued := AList.delete key (queued p), tracker := record_pending (tracker p) (fst key) (snd key),
       pending := AList.update key \<lparr>slot_tx = t, priority = tip_of p t\<rparr> (pending p)\<rparr>"

lemma promote_loop_Suc:
  "promote_loop (Suc k) p a =
   (case map_of (queued p) (a, next_nonce (tracker p) a) of
      Some t \<Rightarrow> promote_loop k (promote_one p (a, next_nonce (tracker p) a) t) a
    | None \<Rightarrow> p)"
  unfolding promote_one_def Let_def promote_loop.simps(2) fst_conv snd_conv ..

lemma promote_one_keys:
  assumes "map_of (queued p) key = Some t"
  shows "keys (pending (promote_one p key t)) \<union> keys (queued (promote_one p key t))
    = keys (pending p) \<union> keys (queued p)"
  using map_of_SomeD[OF assms]
  by (auto simp: promote_one_def dom_update set_delete image_iff) force+

lemma promote_loop_rule:
  assumes "P p" "\<And>p t. P p \<Longrightarrow> map_of (queued p) (a, next_nonce (tracker p) a) = Some t \<Longrightarrow>
    P (promote_one p (a, next_nonce (tracker p) a) t)"
  shows "P (promote_loop k p a)"
  using assms(1)
proof (induction k arbitrary: p)
  case (Suc k)
  then show ?case
    unfolding promote_loop_Suc by (auto split: option.splits intro: assms(2))
qed simp

lemma promote_queued_rule:
  assumes "P p" "\<And>p t. P p \<Longrightarrow> map_of (queued p) (a, next_nonce (tracker p) a) = Some t \<Longrightarrow>
    P (promote_one p (a, next_nonce (tracker p) a) t)"
  shows "P (promote_queued p a)"
  unfolding promote_queued_def by (rule promote_loop_rule[of P]) (use assms in auto)

lemma promote_one_slots:
  assumes "slots_ok (pending p) (queued p)" "map_of (queued p) key = Some t"
  shows "slots_ok (pending (promote_one p key t)) (queued (promote_one p key t))"
  using assms by (simp add: promote_one_def slots_ok_delete slots_ok_update slots_ok_queued)

lemma promote_one_config [simp]: "config (promote_one p key t) = config p"
  by (simp add: promote_one_def)

lemma promote_queued_slots:
  assumes "slots_ok (pending p) (queued p)"
  shows "slots_ok (pending (promote_queued p a)) (queued (promote_queued p a))
    \<and> keys (pending (promote_queued p a)) \<union> keys (queued (promote_queued p a)) = keys (pending p) \<union> keys (queued p)
    \<and> config (promote_queued p a) = config p"
  using assms
  by (intro promote_queued_rule[where P = "\<lambda>q. slots_ok (pending q) (queued q)
    \<and> keys (pending q) \<union> keys (queued q) = keys (pending p) \<union> keys (queued p) \<and> config q = config p"])
     (auto simp: promote_one_keys promote_one_slots)

lemma promote_queued_inv: "pool_inv p \<Longrightarrow> pool_inv (promote_queued p a)"
  using promote_queued_slots[of p a] by (simp add: pool_inv_def nonces_def)

section \<open>Admission\<close>

lemma card_nonces_le: "card (nonces p a) \<le> sender_slot_count p a"
proof -
  let ?f = "\<lambda>x. snd (fst x)"
  have "nonces p a \<subseteq> ?f ` set (filter (\<lambda>((a', _), _). a' = a) (pending p))
      \<union> ?f ` set (filter (\<lambda>((a', _), _). a' = a) (queued p))"
    by (force simp: nonces_def)
  then have "card (nonces p a) \<le> card (?f ` set (filter (\<lambda>((a', _), _). a' = a) (pending p))
      \<union> ?f ` set (filter (\<lambda>((a', _), _). a' = a) (queued p)))"
    by (intro card_mono) auto
  also have "\<dots> \<le> card (?f ` set (filter (\<lambda>((a', _), _). a' = a) (pending p)))
      + card (?f ` set (filter (\<lambda>((a', _), _). a' = a) (queued p)))" by (rule card_Un_le)
  also have "\<dots> \<le> sender_slot_count p a"
    unfolding sender_slot_count_def
    by (intro add_mono; rule order_trans[OF card_image_le]; (rule card_length | simp))
  finally show ?thesis .
qed

lemma finite_nonces [simp]: "finite (nonces p a)"
proof -
  have "nonces p a \<subseteq> snd ` (keys (pending p) \<union> keys (queued p))" by (force simp: nonces_def)
  then show ?thesis by (rule finite_subset) simp
qed

lemma add_key_inv:
  assumes "pool_inv p" "slots_ok (pending q) (queued q)" "config q = config p"
    and "keys (pending q) \<union> keys (queued q) = insert (a, n) (keys (pending p) \<union> keys (queued p))"
    and "(a, n) \<in> keys (pending p) \<union> keys (queued p) \<or> sender_slot_count p a < max_slots_per_sender (config p)"
  shows "pool_inv q"
proof -
  have eq: "nonces q b = (if b = a then insert n (nonces p b) else nonces p b)" for b
    using assms(4) by (auto simp: nonces_def)
  have "card (nonces q b) \<le> max_slots_per_sender (config p)" for b
  proof (cases "b = a \<and> n \<notin> nonces p a")
    case True
    then have "sender_slot_count p a < max_slots_per_sender (config p)" using assms(5) by (auto simp: nonces_def)
    then show ?thesis using True card_nonces_le[of p a] by (simp add: eq)
  next
    case False
    then have "nonces q b = nonces p b" by (auto simp: eq insert_absorb)
    then show ?thesis using assms(1) by (simp add: pool_inv_def)
  qed
  then show ?thesis using assms(2,3) by (simp add: pool_inv_def)
qed

lemma insert_tx_cases:
  obtains (full) e m where "insert_tx p t = (Err e, p\<lparr>known := m\<rparr>)"
  | (queue) m where "insert_tx p t = (Ok (tx_hash t), p\<lparr>known := m, queued := AList.update (tx_key t) t (queued p)\<rparr>)"
      "nonce (tx t) \<noteq> next_nonce (tracker p) (tx_from t)"
  | (ready) m where "insert_tx p t = (Ok (tx_hash t), promote_queued (p\<lparr>known := m,
        tracker := record_pending (tracker p) (tx_from t) (nonce (tx t)),
        pending := AList.update (tx_key t) \<lparr>slot_tx = t, priority = tip_of p t\<rparr> (pending p)\<rparr>) (tx_from t))"
      "nonce (tx t) = next_nonce (tracker p) (tx_from t)"
proof -
  let ?R = "map_of (pending p) (tx_key t) \<noteq> None \<or> map_of (queued p) (tx_key t) \<noteq> None"
  show ?thesis
  proof (cases "nonce (tx t) = next_nonce (tracker p) (tx_from t)")
    case True
    show ?thesis
      by (cases "\<not> ?R \<and> max_pending (config p) \<le> length (pending p)")
         (rule full, use True in \<open>simp add: insert_tx_def Let_def tx_key_def\<close>,
          rule ready[OF _ True], use True in \<open>simp add: insert_tx_def Let_def tx_key_def tip_of_def\<close>)
  next
    case False
    show ?thesis
      by (cases "\<not> ?R \<and> max_queued (config p) \<le> length (queued p)")
         (rule full, use False in \<open>simp add: insert_tx_def Let_def tx_key_def\<close>,
          rule queue[OF _ False], use False in \<open>simp add: insert_tx_def Let_def tx_key_def\<close>)
  qed
qed

lemma insert_tx_inv:
  assumes "pool_inv p" "slot_ok (tx_key t) t"
    and "tx_key t \<in> keys (pending p) \<union> keys (queued p) \<or> sender_slot_count p (tx_from t) < max_slots_per_sender (config p)"
  shows "pool_inv (snd (insert_tx p t))"
proof -
  have so: "slots_ok (pending p) (queued p)" using assms(1) by (simp add: pool_inv_def)
  have kn: "pool_inv (p\<lparr>known := m\<rparr>)" for m using assms(1) by (simp add: pool_inv_def nonces_def)
  have st: "slot_ok (tx_from t, nonce (tx t)) t" using assms(2) by (simp add: tx_key_def)
  note add = add_key_inv[OF assms(1), of _ "tx_from t" "nonce (tx t)"]
  have room: "(tx_from t, nonce (tx t)) \<in> keys (pending p) \<union> keys (queued p)
      \<or> sender_slot_count p (tx_from t) < max_slots_per_sender (config p)"
    using assms(3) by (simp add: tx_key_def)
  have q: "pool_inv (p\<lparr>known := m, queued := AList.update (tx_key t) t (queued p)\<rparr>)" for m
    by (rule add[OF _ _ _ room]) (simp_all add: slots_ok_update[OF so st] dom_update tx_key_def)
  have pe: "pool_inv (p\<lparr>known := m, tracker := r,
      pending := AList.update (tx_key t) \<lparr>slot_tx = t, priority = x\<rparr> (pending p)\<rparr>)" for m r x
    by (rule add[OF _ _ _ room]) (simp_all add: slots_ok_update[OF so st] dom_update tx_key_def)
  show ?thesis
    by (cases rule: insert_tx_cases[of p t]) (simp_all add: kn q promote_queued_inv[OF pe])
qed


lemma precheck_Ok:
  assumes "precheck ch rv p t bal = Ok u"
  shows "known p (tx_hash t) = None" "ch (tx t) (sig t) = tx_hash t" "rv (tx t) (sig t) = Some (tx_from t)"
    "gas_limit (tx t) \<le> BLOCK_GAS_LIMIT" "intrinsic_gas (tx t) \<le> gas_limit (tx t)"
    "min_gas_tip (config p) \<le> tip_of p t" "cost_of t \<le> bal"
  using assms by (cases "known p (tx_hash t)"; simp add: precheck_def verify_hash_def split: if_splits)+

lemma slot_check_Ok:
  assumes "slot_check p t bal n = Ok u"
  shows "n \<le> nonce (tx t)" "nonce (tx t) \<le> n + max_nonce_gap (config p)"
    "map_of (pending p) (tx_key t) \<noteq> None \<or> map_of (queued p) (tx_key t) \<noteq> None
      \<or> sender_slot_count p (tx_from t) < max_slots_per_sender (config p)"
    "sat_add 128 (other_reserved p (tx_key t)) (cost_of t) \<le> bal"
    "check_replacement p (tx_key t) (tip_of p t) = Ok ()"
  using assms by (auto simp: slot_check_def Let_def tx_key_def split: if_splits)

lemma precheck_not_Panic [simp]: "precheck ch rv p t bal \<noteq> Panic"
  by (simp add: precheck_def)

lemma add_transaction_cases:
  obtains (pre) e where "add_transaction ch rv p t bal n = (Err e, p)"
  | (slot) e where "add_transaction ch rv p t bal n
      = (Err e, p\<lparr>tracker := set_on_chain (tracker p) (tx_from t) n\<rparr>)"
  | (ins) q where "q = p\<lparr>tracker := set_on_chain (tracker p) (tx_from t) n\<rparr>"
      "precheck ch rv p t bal = Ok ()" "slot_check q t bal n = Ok ()"
      "add_transaction ch rv p t bal n = insert_tx q t"
proof -
  have np: "slot_check q t bal n \<noteq> Panic" for q
    by (simp add: slot_check_def Let_def check_replacement_def split: option.splits)
  show ?thesis
    using that by (cases "precheck ch rv p t bal";
        cases "slot_check (p\<lparr>tracker := set_on_chain (tracker p) (tx_from t) n\<rparr>) t bal n")
      (auto simp: add_transaction_def Let_def np)
qed

lemma map_of_keys: "map_of al k \<noteq> None \<longleftrightarrow> k \<in> keys al"
  by (auto simp: map_of_eq_None_iff)

lemma add_transaction_inv:
  assumes "pool_inv p"
  shows "pool_inv (snd (add_transaction ch rv p t bal n))"
proof (cases rule: add_transaction_cases[of ch rv p t bal n])
  case (ins q)
  have q: "pool_inv q" using assms ins(1) by (simp add: pool_inv_def nonces_def)
  moreover have "slot_ok (tx_key t) t" using precheck_Ok(4,5)[OF ins(2)] by (simp add: slot_ok_def)
  moreover have "tx_key t \<in> keys (pending q) \<union> keys (queued q)
      \<or> sender_slot_count q (tx_from t) < max_slots_per_sender (config q)"
    using slot_check_Ok(3)[OF ins(3)] unfolding map_of_keys by blast
  ultimately show ?thesis unfolding ins(4) by (rule insert_tx_inv)
qed (use assms in \<open>simp_all add: pool_inv_def nonces_def\<close>)

lemma remove_one_inv:
  assumes "pool_inv p"
  shows "pool_inv (remove_one p t)"
proof -
  have "nonces (remove_one p t) a \<subseteq> nonces p a" for a
    by (auto simp: nonces_def remove_one_def Let_def set_delete)
  then have "card (nonces (remove_one p t) a) \<le> card (nonces p a)" for a by (intro card_mono) auto
  moreover have "config (remove_one p t) = config p" by (simp add: remove_one_def Let_def)
  ultimately show ?thesis
    using assms unfolding pool_inv_def
    by (auto simp: remove_one_def Let_def slots_ok_delete intro: order_trans)
qed

lemma remove_confirmed_inv:
  assumes "pool_inv p"
  shows "pool_inv (remove_confirmed p txs)"
proof -
  have r: "pool_inv q \<Longrightarrow> pool_inv (foldl remove_one q txs)" for q
    by (induction txs arbitrary: q) (simp_all add: remove_one_inv)
  have "pool_inv q \<Longrightarrow> pool_inv (foldl promote_queued q as)" for q as
    by (induction as arbitrary: q) (simp_all add: promote_queued_inv)
  with r[OF assms] show ?thesis by (simp add: remove_confirmed_def)
qed

datatype pool_op =
    P_Add signed_tx u128 u64
  | P_Confirm "signed_tx list"
  | P_Base_Fee u64

primrec pool_step :: "hash_fun \<Rightarrow> recover_fun \<Rightarrow> pool \<Rightarrow> pool_op \<Rightarrow> pool" where
  "pool_step ch rv p (P_Add t bal n) = snd (add_transaction ch rv p t bal n)"
| "pool_step ch rv p (P_Confirm txs) = remove_confirmed p txs"
| "pool_step ch rv p (P_Base_Fee f) = update_base_fee p f"

interpretation mp: inv_machine "pool_step ch rv" pool_inv "\<lambda>_. True"
  for ch :: hash_fun and rv :: recover_fun
proof
  fix p op
  assume "pool_inv p"
  then show "pool_inv (pool_step ch rv p op)"
    by (cases op) (simp_all add: add_transaction_inv remove_confirmed_inv,
        simp add: update_base_fee_def pool_inv_def nonces_def)
qed

lemma pool_new_inv: "pool_inv (pool_new c)"
  by (simp add: pool_inv_def slots_ok_def nonces_def pool_new_def)

section \<open>Properties\<close>


text \<open>
  what is admitted was checked. A transaction the pool accepts has a hash that matches its
  contents, was signed by the account it names, was not already known, fits the block, covers
  its intrinsic gas, pays at least the minimum tip, is affordable on its own, and has a nonce
  between the account's on-chain nonce and that nonce plus the allowed gap.
\<close>

theorem admitted_tx_valid:
  assumes "fst (add_transaction compute_hash recover p t balance n) = Ok h"
  shows "h = tx_hash t \<and> known p h = None
    \<and> compute_hash (tx t) (sig t) = tx_hash t \<and> recover (tx t) (sig t) = Some (tx_from t)
    \<and> intrinsic_gas (tx t) \<le> gas_limit (tx t) \<and> gas_limit (tx t) \<le> BLOCK_GAS_LIMIT
    \<and> min_gas_tip (config p) \<le> tip_of p t \<and> cost_of t \<le> balance
    \<and> n \<le> nonce (tx t) \<and> nonce (tx t) \<le> n + max_nonce_gap (config p)"
proof (cases rule: add_transaction_cases[of compute_hash recover p t balance n])
  case (ins q)
  have "h = tx_hash t" using assms unfolding ins(4) by (simp add: insert_tx_def Let_def split: if_splits)
  moreover have "config q = config p" using ins(1) by simp
  ultimately show ?thesis using precheck_Ok[OF ins(2)] slot_check_Ok(1,2)[OF ins(3)] by simp
qed (use assms in simp_all)


section \<open>Reservations\<close>

definition pooled_cost :: "pool \<Rightarrow> address \<Rightarrow> nat" where
  "pooled_cost p a = (\<Sum>(k, s) \<leftarrow> pending p. if fst k = a then cost_of (slot_tx s) else 0)
     + (\<Sum>(k, t) \<leftarrow> queued p. if fst k = a then cost_of t else 0)"

lemma sat_fold_min:
  assumes "acc = min x (umax 128)"
  shows "foldl (\<lambda>tot ((b, n), s). if b = a then sat_add 128 tot (f s) else tot) acc xs
    = min (x + (\<Sum>(k, s) \<leftarrow> xs. if fst k = a then f s else 0)) (umax 128)"
  using assms
proof (induction xs arbitrary: acc x)
  case (Cons y ys)
  obtain b n s where y: "y = ((b, n), s)" by (metis prod.exhaust)
  have "sat_add 128 acc (f s) = min (x + f s) (umax 128)"
    using Cons.prems unfolding sat_add_def by linarith
  then show ?case
    using Cons.IH[of "sat_add 128 acc (f s)" "x + f s"] Cons.IH[of acc x] Cons.prems y
    by (simp add: add.assoc)
qed simp

lemma sender_cumulative_cost_min: "sender_cumulative_cost p a = min (pooled_cost p a) (umax 128)"
proof -
  define X where "X = (\<Sum>(k, s) \<leftarrow> pending p. if fst k = a then cost_of (slot_tx s) else 0)"
  have "foldl (\<lambda>tot ((b, n), s). if b = a then sat_add 128 tot (cost_of (slot_tx s)) else tot) 0 (pending p)
      = min X (umax 128)"
    using sat_fold_min[of 0 0 a "\<lambda>s. cost_of (slot_tx s)" "pending p"] by (simp add: X_def)
  from sat_fold_min[OF this, of a cost_of "queued p"] this show ?thesis
    by (simp add: sender_cumulative_cost_def Let_def pooled_cost_def X_def)
qed

lemma sum_update_le:
  "(\<Sum>(k, v) \<leftarrow> AList.update key x al. f k v) \<le> (\<Sum>(k, v) \<leftarrow> al. f k v) + (f key x :: nat)"
  by (induction al) auto

lemma sum_delete:
  assumes "distinct (map fst al)" "map_of al key = Some x"
  shows "(\<Sum>(k, v) \<leftarrow> AList.delete key al. f k v) + f key x = (\<Sum>(k, v) \<leftarrow> al. f k v :: nat)"
  using assms
proof (induction al)
  case (Cons y ys)
  obtain k v where y: "y = (k, v)" by fastforce
  show ?case
  proof (cases "k = key")
    case True
    then have "AList.delete key ys = ys" using Cons.prems y by (force simp: AList.delete_eq filter_id_conv)
    then show ?thesis using True Cons.prems y by (simp add: AList.delete_eq)
  next
    case False
    then show ?thesis using Cons y by (simp add: AList.delete_eq)
  qed
qed simp

lemma promote_one_cost:
  assumes "slots_ok (pending p) (queued p)" "map_of (queued p) key = Some t"
  shows "pooled_cost (promote_one p key t) a \<le> pooled_cost p a"
proof -
  let ?f = "\<lambda>k s. if fst k = a then cost_of (slot_tx s) else 0" and ?g = "\<lambda>k t. if fst k = a then cost_of t else 0"
  obtain b n where key: "key = (b, n)" by fastforce
  have "(\<Sum>(k, v) \<leftarrow> AList.delete key (queued p). ?g k v) + ?g key t = (\<Sum>(k, v) \<leftarrow> queued p. ?g k v)"
    using assms by (intro sum_delete) (simp_all add: slots_ok_def)
  moreover have "(\<Sum>(k, v) \<leftarrow> AList.update key \<lparr>slot_tx = t, priority = tip_of p t\<rparr> (pending p). ?f k v)
      \<le> (\<Sum>(k, v) \<leftarrow> pending p. ?f k v) + ?f key \<lparr>slot_tx = t, priority = tip_of p t\<rparr>"
    by (rule sum_update_le)
  ultimately show ?thesis
    by (cases "b = a") (simp_all add: pooled_cost_def promote_one_def key)
qed

lemma promote_queued_cost:
  assumes "slots_ok (pending p) (queued p)"
  shows "pooled_cost (promote_queued p b) a \<le> pooled_cost p a"
proof -
  have "slots_ok (pending (promote_queued p b)) (queued (promote_queued p b))
    \<and> pooled_cost (promote_queued p b) a \<le> pooled_cost p a"
    using assms by (intro promote_queued_rule[where P = "\<lambda>q. slots_ok (pending q) (queued q)
        \<and> pooled_cost q a \<le> pooled_cost p a"])
      (auto intro: promote_one_slots order_trans[OF promote_one_cost])
  then show ?thesis ..
qed

lemma insert_tx_cost:
  assumes "slots_ok (pending p) (queued p)" "slot_ok (tx_key t) t" "fst (insert_tx p t) = Ok h"
  shows "pooled_cost (snd (insert_tx p t)) (tx_from t) \<le> pooled_cost p (tx_from t) + cost_of t"
proof (cases rule: insert_tx_cases[of p t])
  case (full e m)
  then show ?thesis using assms(3) by simp
next
  case (queue m)
  have "(\<Sum>(k, v) \<leftarrow> AList.update (tx_key t) t (queued p). (\<lambda>k t'. if fst k = tx_from t then cost_of t' else 0) k v)
    \<le> (\<Sum>(k, v) \<leftarrow> queued p. (\<lambda>k t'. if fst k = tx_from t then cost_of t' else 0) k v) + cost_of t"
    using sum_update_le[of "\<lambda>k t'. if fst k = tx_from t then cost_of t' else 0" "tx_key t" t "queued p"]
    by (simp add: tx_key_def)
  then show ?thesis using queue by (simp add: pooled_cost_def)
next
  case (ready m)
  let ?s = "\<lparr>slot_tx = t, priority = tip_of p t\<rparr>"
  let ?q = "p\<lparr>known := m, tracker := record_pending (tracker p) (tx_from t) (nonce (tx t)),
      pending := AList.update (tx_key t) ?s (pending p)\<rparr>"
  have "pooled_cost (snd (insert_tx p t)) (tx_from t) \<le> pooled_cost ?q (tx_from t)"
    using ready slots_ok_update(1)[OF assms(1,2)] by (simp add: promote_queued_cost)
  also have "(\<Sum>(k, v) \<leftarrow> AList.update (tx_key t) ?s (pending p).
      (\<lambda>k s. if fst k = tx_from t then cost_of (slot_tx s) else 0) k v)
    \<le> (\<Sum>(k, v) \<leftarrow> pending p. (\<lambda>k s. if fst k = tx_from t then cost_of (slot_tx s) else 0) k v) + cost_of t"
    using sum_update_le[of "\<lambda>k s. if fst k = tx_from t then cost_of (slot_tx s) else 0" "tx_key t" ?s "pending p"]
    by (simp add: tx_key_def)
  then have "pooled_cost ?q (tx_from t) \<le> pooled_cost p (tx_from t) + cost_of t"
    by (simp add: pooled_cost_def)
  finally show ?thesis .
qed

text \<open>
  the pool never over-commits an account. When a transaction is accepted for a nonce that
  had no slot, everything the pool then holds for its sender, at its maximal cost, is covered
  by the balance the submission was checked against.
\<close>

theorem admitted_tx_covered:
  assumes "pool_inv p" "balance < umax 128"
    and "fst (add_transaction compute_hash recover p t balance n) = Ok h"
    and "(tx_from t, nonce (tx t)) \<notin> keys (pending p) \<union> keys (queued p)"
  shows "pooled_cost (snd (add_transaction compute_hash recover p t balance n)) (tx_from t) \<le> balance"
proof (cases rule: add_transaction_cases[of compute_hash recover p t balance n])
  case (ins q)
  have same: "pending q = pending p" "queued q = queued p" using ins(1) by simp_all
  have "other_reserved q (tx_key t) = sender_cumulative_cost q (tx_from t)"
    using assms(4) unfolding other_reserved_def
    by (simp add: same tx_key_def map_of_eq_None_iff[THEN iffD2])
  then have "sat_add 128 (min (pooled_cost q (tx_from t)) (umax 128)) (cost_of t) \<le> balance"
    using slot_check_Ok(4)[OF ins(3)] by (simp add: sender_cumulative_cost_min)
  then have "pooled_cost q (tx_from t) + cost_of t \<le> balance"
    using assms(2) unfolding sat_add_def by linarith
  moreover have "slots_ok (pending q) (queued q)" using assms(1) by (simp add: same pool_inv_def)
  moreover have "slot_ok (tx_key t) t" using precheck_Ok(4,5)[OF ins(2)] by (simp add: slot_ok_def)
  ultimately show ?thesis using insert_tx_cost[of q t h] assms(3) unfolding ins(4) by (meson order_trans)
qed (use assms in simp_all)

definition sample_tx :: "address \<Rightarrow> u64 \<Rightarrow> u64 \<Rightarrow> signed_tx" where
  "sample_tx a n tip =
     \<lparr>tx = \<lparr>tx_kind = DynamicFee, nonce = n, max_priority_fee_per_gas = tip, max_fee_per_gas = 10 ^ 10,
            gas_limit = 21000, recipient = Some 1, tx_value = 5, tx_data = [], access_list = [], chain_id = 8989\<rparr>,
      sig = \<lparr>sig_v = 0, sig_r = 0, sig_s = 0\<rparr>, tx_from = a, tx_hash = of_nat (n + 1000 * tip)\<rparr>"

definition sample_hash :: hash_fun where
  "sample_hash t s = of_nat (nonce t + 1000 * max_priority_fee_per_gas t)"

definition sample_recover :: recover_fun where
  "sample_recover t s = Some 7"

lemmas sample_defs = sample_tx_def sample_hash_def sample_recover_def pool_new_def mempool_config_default_def
  nonce_tracker_new_def

lemmas admission_defs = add_transaction_def precheck_def slot_check_def insert_tx_def verify_hash_def
  tip_of_def effective_gas_price_def intrinsic_gas_def cost_of_def slot_cost_def BLOCK_GAS_LIMIT_def
  set_on_chain_def next_nonce_def on_chain_nonce_def record_pending_def sender_slot_count_def
  other_reserved_def sender_cumulative_cost_def check_replacement_def required_tip_def forget_old_def
  sat_add_def sat_mul_def umax_def wrap_add_def Let_def

lemma promote_loop_nil: "queued p = [] \<Longrightarrow> promote_loop k p a = p"
  by (cases k) (simp_all add: Let_def)

lemma promote_none: "queued p = [] \<Longrightarrow> promote_queued p a = p"
  by (simp add: promote_queued_def promote_loop_nil)

lemma promote_queued_step:
  "promote_queued p a =
   (case map_of (queued p) (a, next_nonce (tracker p) a) of
      Some t \<Rightarrow> promote_loop 255 (promote_one p (a, next_nonce (tracker p) a) t) a
    | None \<Rightarrow> p)"
  using promote_loop_Suc[of 255 p a] by (simp add: promote_queued_def MAX_PROMOTE_PER_CALL_def)

lemma sample_admitted:
  "fst (add_transaction sample_hash sample_recover (pool_new mempool_config_default) (sample_tx 7 0 (10 ^ 9)) (10 ^ 18) 0)
   = Ok (tx_hash (sample_tx 7 0 (10 ^ 9)))"
  by (simp add: admission_defs sample_defs)

theorem admitted_tx_valid_witness:
  "sample_recover (tx (sample_tx 7 0 (10 ^ 9))) (sig (sample_tx 7 0 (10 ^ 9))) = Some (tx_from (sample_tx 7 0 (10 ^ 9)))"
  using admitted_tx_valid[OF sample_admitted] by blast

theorem admitted_tx_covered_witness:
  "pooled_cost (snd (add_transaction sample_hash sample_recover (pool_new mempool_config_default)
     (sample_tx 7 0 (10 ^ 9)) (10 ^ 18) 0)) 7 \<le> 10 ^ 18"
proof -
  have "pooled_cost (snd (add_transaction sample_hash sample_recover (pool_new mempool_config_default)
     (sample_tx 7 0 (10 ^ 9)) (10 ^ 18) 0)) (tx_from (sample_tx 7 0 (10 ^ 9))) \<le> 10 ^ 18"
    by (rule admitted_tx_covered[OF pool_new_inv _ sample_admitted]) (simp_all add: umax_def pool_new_def)
  then show ?thesis by (simp add: sample_tx_def)
qed

section \<open>Promotion and selection\<close>

definition queued_of :: "pool \<Rightarrow> address \<Rightarrow> nat" where
  "queued_of p a = (\<Sum>(k, t) \<leftarrow> queued p. if fst k = a then 1 else 0)"

lemma queued_of_promote_one:
  assumes "slots_ok (pending p) (queued p)" "map_of (queued p) (a, n) = Some t"
  shows "queued_of (promote_one p (a, n) t) a + 1 = queued_of p a"
  using sum_delete[of "queued p" "(a, n)" t "\<lambda>k _. if fst k = a then 1 else 0"] assms
  by (simp add: queued_of_def promote_one_def slots_ok_def)

lemma promote_loop_complete:
  assumes "slots_ok (pending p) (queued p)" "queued_of p a < k"
  shows "map_of (queued (promote_loop k p a)) (a, next_nonce (tracker (promote_loop k p a)) a) = None"
  using assms
proof (induction k arbitrary: p)
  case (Suc k)
  show ?case
  proof (cases "map_of (queued p) (a, next_nonce (tracker p) a)")
    case None
    then show ?thesis by (simp only: promote_loop_Suc option.case)
  next
    case (Some t)
    have "queued_of (promote_one p (a, next_nonce (tracker p) a) t) a < k"
      using queued_of_promote_one[OF Suc.prems(1) Some] Suc.prems(2) by simp
    from Suc.IH[OF promote_one_slots[OF Suc.prems(1) Some] this] Some show ?thesis
      by (simp only: promote_loop_Suc option.case)
  qed
qed simp

lemma sum_filter_one:
  "(\<Sum>(k, t) \<leftarrow> xs. if fst k = a then 1 else 0) = length (filter (\<lambda>k. fst k = a) (map fst xs))"
  by (induction xs) auto

lemma queued_of_le:
  assumes "pool_inv p"
  shows "queued_of p a \<le> max_slots_per_sender (config p)"
proof -
  let ?ks = "filter (\<lambda>k. fst k = a) (map fst (queued p))"
  have "queued_of p a = length ?ks"
    unfolding queued_of_def sum_filter_one ..
  also have "\<dots> = card (set ?ks)"
    using assms by (intro distinct_card[symmetric] distinct_filter) (simp add: pool_inv_def slots_ok_def)
  also have "\<dots> = card (snd ` set ?ks)"
    by (rule card_image[symmetric]) (auto simp: inj_on_def prod_eq_iff)
  also have "\<dots> \<le> card (nonces p a)"
    by (rule card_mono[OF finite_nonces]) (force simp: nonces_def)
  also have "\<dots> \<le> max_slots_per_sender (config p)" using assms by (simp add: pool_inv_def)
  finally show ?thesis .
qed

text \<open>
  promotion is complete. With a per-sender limit below the 256 promotions a call may make
  (the default is 64), \<open>promote_queued\<close> leaves no transaction queued that has the nonce the
  account is expected to use next.
\<close>

theorem promote_queued_complete:
  assumes "pool_inv p" "max_slots_per_sender (config p) < MAX_PROMOTE_PER_CALL"
  shows "map_of (queued (promote_queued p a)) (a, next_nonce (tracker (promote_queued p a)) a) = None"
  unfolding promote_queued_def
  using queued_of_le[OF assms(1), of a] assms by (intro promote_loop_complete) (simp_all add: pool_inv_def)

theorem promote_queued_complete_witness:
  "map_of (queued (promote_queued (pool_new mempool_config_default) 7))
     (7, next_nonce (tracker (promote_queued (pool_new mempool_config_default) 7)) 7) = None"
  by (rule promote_queued_complete[OF pool_new_inv])
     (simp add: pool_new_def mempool_config_default_def MAX_PROMOTE_PER_CALL_def)

definition gas_of :: "signed_tx list \<Rightarrow> nat" where
  "gas_of ts = sum_list (map (\<lambda>t. gas_limit (tx t)) ts)"

lemma select_loop_spec:
  assumes "tg \<le> limit" "limit < 2 ^ 63"
    and "\<And>s. s \<in> set slots \<Longrightarrow> gas_limit (tx (slot_tx s)) \<le> BLOCK_GAS_LIMIT"
  shows "tg + gas_of (select_loop limit tg slots) \<le> limit
    \<and> (\<forall>s \<in> set slots. slot_tx s \<notin> set (select_loop limit tg slots) \<longrightarrow>
        limit < tg + gas_of (select_loop limit tg slots) + gas_limit (tx (slot_tx s)))
    \<and> (\<exists>ss. subseq ss slots \<and> select_loop limit tg slots = map slot_tx ss)"
  using assms
proof (induction slots arbitrary: tg)
  case (Cons s slots)
  define g where "g = gas_limit (tx (slot_tx s))"
  have "g \<le> BLOCK_GAS_LIMIT" using Cons.prems(3)[of s] by (simp add: g_def)
  then have "tg + g < 2 ^ 64" using Cons.prems(1,2) by (simp add: BLOCK_GAS_LIMIT_def)
  then have w: "wrap_add 64 tg g = tg + g" by (rule wrap_add_exact)
  show ?case
  proof (cases "tg + g \<le> limit")
    case True
    have eq: "select_loop limit tg (s # slots) = slot_tx s # select_loop limit (tg + g) slots"
      using True w by (simp add: Let_def flip: g_def)
    from Cons.IH[OF True Cons.prems(2)] Cons.prems(3)
    obtain ss where IH: "tg + g + gas_of (select_loop limit (tg + g) slots) \<le> limit"
      "\<forall>s' \<in> set slots. slot_tx s' \<notin> set (select_loop limit (tg + g) slots) \<longrightarrow>
        limit < tg + g + gas_of (select_loop limit (tg + g) slots) + gas_limit (tx (slot_tx s'))"
      "subseq ss slots" "select_loop limit (tg + g) slots = map slot_tx ss" by auto
    then show ?thesis unfolding eq by (intro conjI exI[of _ "s # ss"]) (auto simp: gas_of_def g_def add.assoc)
  next
    case False
    have eq: "select_loop limit tg (s # slots) = select_loop limit tg slots"
      using False w by (simp add: Let_def flip: g_def)
    from Cons.IH[OF Cons.prems(1,2)] Cons.prems(3)
    obtain ss where IH: "tg + gas_of (select_loop limit tg slots) \<le> limit"
      "\<forall>s' \<in> set slots. slot_tx s' \<notin> set (select_loop limit tg slots) \<longrightarrow>
        limit < tg + gas_of (select_loop limit tg slots) + gas_limit (tx (slot_tx s'))"
      "subseq ss slots" "select_loop limit tg slots = map slot_tx ss" by auto
    then show ?thesis unfolding eq using False by (intro conjI exI[of _ ss]) (auto simp: g_def)
  qed
qed (simp add: gas_of_def)


lemma subseq_sorted_wrt:
  "subseq xs ys \<Longrightarrow> sorted_wrt P ys \<Longrightarrow> sorted_wrt P xs \<and> set xs \<subseteq> set ys"
  by (induction rule: list_emb.induct) auto

text \<open>
  block selection fills the block greedily and never overfills it. The gas limits of the
  selected transactions add up to at most the block's limit, the selection is a subsequence of
  the pending slots in descending order of tip, and a pending transaction that was left out
  does not fit in what remains.
\<close>

theorem select_transactions_greedy:
  assumes "pool_inv p" "limit < 2 ^ 63"
  shows "gas_of (select_transactions p limit) \<le> limit
    \<and> (\<forall>(k, s) \<in> set (pending p). slot_tx s \<notin> set (select_transactions p limit) \<longrightarrow>
        limit < gas_of (select_transactions p limit) + gas_limit (tx (slot_tx s)))
    \<and> (\<exists>ss. sorted_wrt (\<lambda>x y. priority x \<ge> priority y) ss \<and> set ss \<subseteq> snd ` set (pending p)
        \<and> select_transactions p limit = map slot_tx ss)"
proof -
  let ?slots = "sort_key (\<lambda>s. - int (priority s)) (map snd (pending p))"
  have gas: "gas_limit (tx (slot_tx s)) \<le> BLOCK_GAS_LIMIT" if "s \<in> set ?slots" for s
    using that assms(1) by (auto simp: pool_inv_def slots_ok_def list_all_iff slot_ok_def)
  have "select_transactions p limit = select_loop limit 0 ?slots" by (simp add: select_transactions_def)
  note spec = select_loop_spec[of 0 limit ?slots, OF _ assms(2) gas, simplified, folded this]
  then obtain ss where ss: "subseq ss ?slots" "select_transactions p limit = map slot_tx ss" by blast
  have "sorted (map (\<lambda>s. - int (priority s)) ?slots)" by simp
  then have "sorted_wrt (\<lambda>x y. priority x \<ge> priority y) ?slots" by (simp add: sorted_wrt_map)
  from subseq_sorted_wrt[OF ss(1) this]
  have "sorted_wrt (\<lambda>x y. priority x \<ge> priority y) ss" "set ss \<subseteq> snd ` set (pending p)" by auto
  then show ?thesis using spec ss(2) by auto
qed

theorem select_transactions_greedy_witness:
  "gas_of (select_transactions (pool_new mempool_config_default) 30000000) \<le> 30000000"
  using select_transactions_greedy[OF pool_new_inv[of mempool_config_default], of 30000000] by simp

text \<open>
  a replacement of a pending transaction pays at least 12.5 per cent more than the tip it
  replaces.
\<close>

theorem replacement_pays_more:
  assumes "fst (add_transaction compute_hash recover p t balance n) = Ok h"
    and "map_of (pending p) (tx_from t, nonce (tx t)) = Some slot" "priority slot * 1125 < 2 ^ 64"
  shows "priority slot * 1125 < tip_of p t * 1000"
proof (cases rule: add_transaction_cases[of compute_hash recover p t balance n])
  case (ins q)
  have "sat_mul 64 (priority slot) 1125 = priority slot * 1125" using assms(3) by (rule sat_mul_exact)
  then have "priority slot * 1125 div 1000 + 1 \<le> tip_of q t"
    using slot_check_Ok(5)[OF ins(3)] assms(2) ins(1)
    by (simp add: check_replacement_def tx_key_def required_tip_def split: if_splits)
  moreover have "tip_of q t = tip_of p t" using ins(1) by (simp add: tip_of_def)
  ultimately show ?thesis by linarith
qed (use assms in simp_all)

definition sample_pool :: "mempool_config \<Rightarrow> pool" where
  "sample_pool c = (pool_new c)\<lparr>
     pending := [((7, 0), \<lparr>slot_tx = sample_tx 7 0 (10 ^ 9), priority = 10 ^ 9\<rparr>)],
     known := [tx_hash (sample_tx 7 0 (10 ^ 9)) \<mapsto> (7, 0)],
     tracker := record_pending nonce_tracker_new 7 0\<rparr>"

theorem replacement_pays_more_witness:
  "(10 :: nat) ^ 9 * 1125 < tip_of (sample_pool mempool_config_default) (sample_tx 7 0 (2 * 10 ^ 9)) * 1000"
proof -
  have "fst (add_transaction sample_hash sample_recover (sample_pool mempool_config_default)
      (sample_tx 7 0 (2 * 10 ^ 9)) (10 ^ 18) 0) = Ok (tx_hash (sample_tx 7 0 (2 * 10 ^ 9)))"
    by (simp add: admission_defs sample_pool_def sample_defs)
  from replacement_pays_more[OF this, of "\<lparr>slot_tx = sample_tx 7 0 (10 ^ 9), priority = 10 ^ 9\<rparr>"]
  show ?thesis by (simp add: sample_pool_def sample_tx_def)
qed

section \<open>Where the pool does not do what it means to\<close>

text \<open>
  \<open>set_on_chain\<close> drops the pending maximum when it equals the on-chain nonce, although that
  nonce is still to be used. A sender's second transaction is then compared with the nonce of
  its first, goes to the queue and is not selected.
\<close>

lemma second_tx_not_pending:
  "(let p = snd (add_transaction sample_hash sample_recover (sample_pool mempool_config_default)
        (sample_tx 7 1 (10 ^ 9)) (10 ^ 18) 0)
    in map (\<lambda>t. nonce (tx t)) (select_transactions p 30000000) = [0] \<and> map fst (queued p) = [(7, 1)])"
  by (simp add: admission_defs sample_pool_def sample_defs select_transactions_def)

text \<open>
  With two transactions pending, a replacement of the first does not replace it. Its nonce is
  below the expected one, so the replacement is queued while the old transaction stays pending,
  keeps being selected for blocks and is no longer known; the sender now has three slots where
  the limit is two.
\<close>

definition pool_of_two :: "mempool_config \<Rightarrow> pool" where
  "pool_of_two c = (sample_pool c)\<lparr>
     pending := [((7, 0), \<lparr>slot_tx = sample_tx 7 0 (10 ^ 9), priority = 10 ^ 9\<rparr>),
                 ((7, 1), \<lparr>slot_tx = sample_tx 7 1 (10 ^ 9), priority = 10 ^ 9\<rparr>)],
     tracker := record_pending nonce_tracker_new 7 1\<rparr>"

lemma replacement_leaves_old_pending:
  "(let (r, p) = add_transaction sample_hash sample_recover
        (pool_of_two (mempool_config_default\<lparr>max_slots_per_sender := 2\<rparr>))
        (sample_tx 7 0 (2 * 10 ^ 9)) (10 ^ 18) 0
    in is_Ok r \<and> sample_tx 7 0 (10 ^ 9) \<in> set (select_transactions p 30000000)
       \<and> sample_tx 7 0 (2 * 10 ^ 9) \<notin> set (select_transactions p 30000000)
       \<and> known p (tx_hash (sample_tx 7 0 (10 ^ 9))) = None \<and> sender_slot_count p 7 = 3)"
  by (simp add: admission_defs pool_of_two_def sample_pool_def sample_defs select_transactions_def)

text \<open>Promotion ignores \<open>max_pending\<close>: two transactions are pending where one is allowed.\<close>

lemma promotion_exceeds_max_pending:
  "(let c = mempool_config_default\<lparr>max_pending := 1\<rparr>;
        p1 = snd (add_transaction sample_hash sample_recover (pool_new c) (sample_tx 7 1 (10 ^ 9)) (10 ^ 18) 0);
        p2 = snd (add_transaction sample_hash sample_recover p1 (sample_tx 7 0 (10 ^ 9)) (10 ^ 18) 0)
    in length (pending p2) = 2)"
  by (simp add: admission_defs sample_defs promote_queued_step promote_one_def promote_loop_nil AList.delete_eq)

text \<open>Selection ignores nonces: a sender's second transaction is put before its first.\<close>

lemma selection_breaks_nonce_order:
  "map (\<lambda>t. nonce (tx t)) (select_transactions ((sample_pool mempool_config_default)\<lparr>
     pending := [((7, 0), \<lparr>slot_tx = sample_tx 7 0 1, priority = 1\<rparr>),
                 ((7, 1), \<lparr>slot_tx = sample_tx 7 1 2, priority = 2\<rparr>)]\<rparr>) 30000000) = [1, 0]"
  by (simp add: select_transactions_def sample_tx_def wrap_add_def Let_def)

text \<open>
  Confirming another transaction for the same nonce drops the pooled one from its slot but
  leaves its hash known for ever.
\<close>

lemma confirm_leaks_known:
  "(let p = remove_confirmed (sample_pool mempool_config_default) [sample_tx 7 0 5]
    in pending p = [] \<and> queued p = [] \<and> known p (tx_hash (sample_tx 7 0 (10 ^ 9))) = Some (7, 0))"
  by (simp add: remove_confirmed_def remove_one_def sample_pool_def sample_defs promote_none
      Let_def AList.delete_eq)

end
