(* ===== verification/Votes.thy ===== *)
theory Votes
  imports Prelude "HOL-Library.AList"
begin

text \<open>
  Votes, quorum certificates and equivocation evidence, \<open>zbx-consensus/src/vote.rs\<close>, with the
  errors of \<open>error.rs\<close>. The hash and the BLS operations are the fields of \<open>crypto\<close>, a parameter
  of every operation that calls them; nothing is assumed of them here. The votes of an
  accumulator are an association list in the iteration order of the hash map.
\<close>

section \<open>Parameters and errors\<close>

type_synonym bls_pubkey = "byte list"
type_synonym bls_sig = "byte list"

record crypto =
  keccak256 :: "byte list \<Rightarrow> h256"
  verify_single :: "bls_sig \<Rightarrow> bls_pubkey \<Rightarrow> h256 \<Rightarrow> bool"
  verify_aggregate :: "bls_sig \<Rightarrow> bls_pubkey list \<Rightarrow> h256 \<Rightarrow> bool"
  aggregate_signatures :: "bls_sig list \<Rightarrow> bls_sig option"

text \<open>
  \<open>DuplicateVote\<close> carries a text that prints the voter, or the block number and phase. Of the other
  texts only the fixed part is kept.
\<close>

datatype duplicate = Voter_Dup address | Phase_Dup u64 byte

datatype consensus_error =
    SafetyViolation string
  | StaleRound u64 u64
  | InsufficientVotes usize usize
  | InvalidProposer u64
  | TimeoutErr u64
  | DuplicateVote duplicate
  | BlockNotFound string
  | StaleProposal u64 u64
  | InvalidTimeoutCertificate
  | Equivocation u64 h256 h256
  | RemoteEquivocation address u64 byte h256 h256
  | ConsecutiveTimeoutsExceeded u64
  | InvalidQC u64
  | InvalidMessage string
  | RateLimitExceeded
  | InvalidEpoch u64 u64
  | EmptyValidatorSet

section \<open>Votes and certificates\<close>

record vote_data =
  block_hash :: h256
  block_number :: u64
  vphase :: byte
  epoch :: u64

definition signing_bytes :: "vote_data \<Rightarrow> byte list" where
  "signing_bytes d = h256_bytes (block_hash d) @ be_bytes 8 (block_number d) @ [vphase d] @ be_bytes 8 (epoch d)"

record vote =
  vdata :: vote_data
  voter :: address
  vsignature :: bls_sig

record quorum_certificate =
  qc_data :: vote_data
  agg_signature :: bls_sig
  signers :: "address list"
  signer_pubkeys :: "bls_pubkey list"

abbreviation qc_round :: "quorum_certificate \<Rightarrow> u64" where
  "qc_round q \<equiv> block_number (qc_data q)"

definition signer_count :: "quorum_certificate \<Rightarrow> usize" where
  "signer_count q = length (signers q)"

definition vote_hash :: "crypto \<Rightarrow> vote_data \<Rightarrow> h256" where
  "vote_hash c d = keccak256 c (signing_bytes d)"

definition qc_verify :: "crypto \<Rightarrow> quorum_certificate \<Rightarrow> bool" where
  "qc_verify c q =
     (if signer_pubkeys q = [] then True
      else verify_aggregate c (agg_signature q) (signer_pubkeys q) (vote_hash c (qc_data q)))"

section \<open>The vote accumulator\<close>

record vote_accumulator =
  acc_data :: vote_data
  acc_votes :: "(address \<times> vote \<times> bls_pubkey) list"
  acc_quorum :: usize

definition vote_accumulator_new :: "vote_data \<Rightarrow> usize \<Rightarrow> vote_accumulator" where
  "vote_accumulator_new d q = \<lparr>acc_data = d, acc_votes = [], acc_quorum = q\<rparr>"

definition form_qc :: "crypto \<Rightarrow> vote_accumulator \<Rightarrow> quorum_certificate" where
  "form_qc c acc =
     (let entries = map snd (acc_votes acc);
          sigs = map (\<lambda>(v, pk). vsignature v) entries;
          agg = (case aggregate_signatures c sigs of Some s \<Rightarrow> s | None \<Rightarrow> replicate 96 0)
      in \<lparr>qc_data = acc_data acc, agg_signature = agg, signers = map (\<lambda>(v, pk). voter v) entries,
          signer_pubkeys = map snd entries\<rparr>)"

definition add_vote ::
  "crypto \<Rightarrow> vote_accumulator \<Rightarrow> vote \<Rightarrow> bls_pubkey \<Rightarrow>
   (consensus_error, quorum_certificate option) res \<times> vote_accumulator" where
  "add_vote c acc v pubkey =
     (if vdata v \<noteq> acc_data acc then (Ok None, acc)
      else if map_of (acc_votes acc) (voter v) \<noteq> None then (Err (DuplicateVote (Voter_Dup (voter v))), acc)
      else if \<not> verify_single c (vsignature v) pubkey (vote_hash c (vdata v)) then (Ok None, acc)
      else
       (let acc1 = acc\<lparr>acc_votes := AList.update (voter v) (v, pubkey) (acc_votes acc)\<rparr>
        in if length (acc_votes acc1) \<ge> acc_quorum acc1 then (Ok (Some (form_qc c acc1)), acc1)
           else (Ok None, acc1)))"

section \<open>Equivocation evidence\<close>

record equivocation_evidence =
  ev_validator :: address
  ev_round :: u64
  ev_phase :: byte
  vote_a :: vote
  vote_b :: vote
  ev_pubkey :: bls_pubkey

definition evidence_verify :: "crypto \<Rightarrow> equivocation_evidence \<Rightarrow> bool" where
  "evidence_verify c e =
     (if voter (vote_a e) \<noteq> voter (vote_b e) \<or> voter (vote_a e) \<noteq> ev_validator e
         \<or> block_number (vdata (vote_a e)) \<noteq> block_number (vdata (vote_b e))
         \<or> vphase (vdata (vote_a e)) \<noteq> vphase (vdata (vote_b e))
         \<or> block_hash (vdata (vote_a e)) = block_hash (vdata (vote_b e))
         \<or> block_number (vdata (vote_a e)) \<noteq> ev_round e
         \<or> vphase (vdata (vote_a e)) \<noteq> ev_phase e
      then False
      else verify_single c (vsignature (vote_a e)) (ev_pubkey e) (vote_hash c (vdata (vote_a e)))
         \<and> verify_single c (vsignature (vote_b e)) (ev_pubkey e) (vote_hash c (vdata (vote_b e))))"

section \<open>What is signed\<close>

definition data_fits :: "vote_data \<Rightarrow> bool" where
  "data_fits d \<longleftrightarrow> fits 8 (block_number d) \<and> fits 8 (epoch d)"

lemma signing_bytes_inj:
  assumes "data_fits x" "data_fits y" "signing_bytes x = signing_bytes y"
  shows "x = y"
proof -
  have "block_hash x = block_hash y" "be_bytes 8 (block_number x) = be_bytes 8 (block_number y)"
    "vphase x = vphase y" "be_bytes 8 (epoch x) = be_bytes 8 (epoch y)"
    using assms(3) by (simp_all add: signing_bytes_def)
  then show ?thesis
    using assms(1,2) by (intro vote_data.equality) (auto simp: data_fits_def dest: be_bytes_inj)
qed

section \<open>Certificates rest on distinct, verified votes\<close>

text \<open>
  Every vote an accumulator counts is for its own data, is stored under its voter and carries a
  signature that verifies under the key it came with.
\<close>

definition acc_ok :: "crypto \<Rightarrow> vote_accumulator \<Rightarrow> bool" where
  "acc_ok c acc \<longleftrightarrow> distinct (map fst (acc_votes acc))
     \<and> list_all (\<lambda>(a, v, pk). voter v = a \<and> vdata v = acc_data acc
          \<and> verify_single c (vsignature v) pk (vote_hash c (acc_data acc))) (acc_votes acc)"

lemma acc_ok_new [simp]: "acc_ok c (vote_accumulator_new d q)"
  by (simp add: acc_ok_def vote_accumulator_new_def)

lemma update_fresh: "map_of al k = None \<Longrightarrow> AList.update k v al = al @ [(k, v)]"
  by (induction al) (auto split: if_splits)

lemma add_vote_cases:
  obtains (other) "vdata v \<noteq> acc_data acc" "add_vote c acc v pk = (Ok None, acc)"
  | (dup) "add_vote c acc v pk = (Err (DuplicateVote (Voter_Dup (voter v))), acc)"
  | (bad) "add_vote c acc v pk = (Ok None, acc)"
  | (counted) acc1 where "acc1 = acc\<lparr>acc_votes := acc_votes acc @ [(voter v, v, pk)]\<rparr>"
      "vdata v = acc_data acc" "map_of (acc_votes acc) (voter v) = None"
      "verify_single c (vsignature v) pk (vote_hash c (vdata v))"
      "add_vote c acc v pk =
        (Ok (if length (acc_votes acc1) \<ge> acc_quorum acc then Some (form_qc c acc1) else None), acc1)"
proof -
  consider "vdata v \<noteq> acc_data acc" | "vdata v = acc_data acc" "map_of (acc_votes acc) (voter v) \<noteq> None"
    | "vdata v = acc_data acc" "map_of (acc_votes acc) (voter v) = None"
      "\<not> verify_single c (vsignature v) pk (vote_hash c (vdata v))"
    | "vdata v = acc_data acc" "map_of (acc_votes acc) (voter v) = None"
      "verify_single c (vsignature v) pk (vote_hash c (vdata v))" by blast
  then show ?thesis
  proof cases
    case 1 then show ?thesis by (intro other) (simp_all add: add_vote_def)
  next
    case 2 then show ?thesis by (intro dup) (simp add: add_vote_def)
  next
    case 3 then show ?thesis by (intro bad) (simp add: add_vote_def)
  next
    case 4 then show ?thesis
      by (intro counted[of "acc\<lparr>acc_votes := acc_votes acc @ [(voter v, v, pk)]\<rparr>"])
         (simp_all add: add_vote_def Let_def update_fresh)
  qed
qed

lemma add_vote_ok:
  assumes "acc_ok c acc"
  shows "acc_ok c (snd (add_vote c acc v pk))"
proof (cases rule: add_vote_cases[of v acc c pk])
  case (counted acc1)
  then have "voter v \<notin> fst ` set (acc_votes acc)" by (simp add: map_of_eq_None_iff)
  then show ?thesis using assms counted by (auto simp: acc_ok_def list_all_iff)
qed (use assms in simp_all)

text \<open>A certificate that is backed: enough distinct signers, all with a verified vote for its data.\<close>

definition qc_backed :: "crypto \<Rightarrow> usize \<Rightarrow> quorum_certificate \<Rightarrow> bool" where
  "qc_backed c quorum q \<longleftrightarrow> distinct (signers q) \<and> quorum \<le> length (signers q)
     \<and> length (signer_pubkeys q) = length (signers q)
     \<and> (\<exists>sigs. length sigs = length (signers q)
          \<and> list_all2 (\<lambda>s pk. verify_single c s pk (vote_hash c (qc_data q))) sigs (signer_pubkeys q))"

lemma form_qc_backed:
  assumes "acc_ok c acc" "acc_quorum acc \<le> length (acc_votes acc)"
  shows "qc_backed c (acc_quorum acc) (form_qc c acc)" "qc_data (form_qc c acc) = acc_data acc"
    "signers (form_qc c acc) = map fst (acc_votes acc)"
    "signer_pubkeys (form_qc c acc) = map (\<lambda>(a, v, pk). pk) (acc_votes acc)"
proof -
  show d: "qc_data (form_qc c acc) = acc_data acc" by (simp add: form_qc_def Let_def)
  show s: "signers (form_qc c acc) = map fst (acc_votes acc)"
    using assms(1) by (auto simp: form_qc_def Let_def acc_ok_def list_all_iff)
  show p: "signer_pubkeys (form_qc c acc) = map (\<lambda>(a, v, pk). pk) (acc_votes acc)"
    by (auto simp: form_qc_def Let_def)
  have "list_all2 (\<lambda>s pk. verify_single c s pk (vote_hash c (acc_data acc)))
      (map (\<lambda>(a, v, pk). vsignature v) (acc_votes acc)) (map (\<lambda>(a, v, pk). pk) (acc_votes acc))"
    using assms(1) unfolding acc_ok_def by (auto simp: list_all2_conv_all_nth list_all_length split_beta)
  then show "qc_backed c (acc_quorum acc) (form_qc c acc)"
    using assms unfolding qc_backed_def d s p acc_ok_def
    by (auto intro!: exI[of _ "map (\<lambda>(a, v, pk). vsignature v) (acc_votes acc)"])
qed

lemma add_vote_qc:
  assumes "acc_ok c acc" "fst (add_vote c acc v pk) = Ok (Some q)"
  shows "qc_backed c (acc_quorum acc) q \<and> qc_data q = acc_data acc
    \<and> signers q = map fst (acc_votes (snd (add_vote c acc v pk)))
    \<and> signer_pubkeys q = map (\<lambda>(a, v, pk). pk) (acc_votes (snd (add_vote c acc v pk)))"
proof (cases rule: add_vote_cases[of v acc c pk])
  case (counted acc1)
  have ok: "acc_ok c acc1" using add_vote_ok[OF assms(1), of v pk] counted(5) by simp
  have "acc_quorum acc1 = acc_quorum acc" "acc_data acc1 = acc_data acc" using counted(1) by simp_all
  moreover have "acc_quorum acc \<le> length (acc_votes acc1)" "q = form_qc c acc1"
    using assms(2) counted(5) by (auto split: if_splits)
  ultimately show ?thesis using form_qc_backed[OF ok] counted(5) by simp
qed (use assms in simp_all)

section \<open>Quorum intersection\<close>

text \<open>
  What a committee of \<open>n\<close> validators needs of its quorum: two quorums overlap in more than a
  third of the committee. The engine's choice \<open>2 * n / 3 + 1\<close> provides it.
\<close>

locale quorum_rule =
  fixes quorum :: "nat \<Rightarrow> nat"
  assumes overlap: "n + n div 3 < 2 * quorum n"
begin

lemma quorum_intersect:
  assumes "finite V" "A \<subseteq> V" "B \<subseteq> V" "quorum (card V) \<le> card A" "quorum (card V) \<le> card B"
  shows "card V div 3 < card (A \<inter> B)"
proof -
  have "finite A" "finite B" using assms finite_subset by blast+
  then have "card (A \<union> B) + card (A \<inter> B) = card A + card B" using card_Un_Int[of A B] by linarith
  moreover have "card (A \<union> B) \<le> card V" using assms by (intro card_mono) auto
  moreover define k where "k = card V div 3"
  then have "card V + k < 2 * quorum (card V)" using overlap by blast
  ultimately have "k < card (A \<inter> B)" using assms(4,5) by linarith
  then show ?thesis by (simp only: k_def)
qed

end

definition committee_quorum :: "usize \<Rightarrow> usize" where
  "committee_quorum n = (2 * n) div 3 + 1"

interpretation bft: quorum_rule committee_quorum
proof
  show "n + n div 3 < 2 * committee_quorum n" for n
    unfolding committee_quorum_def by presburger
qed

section \<open>Certified certificates\<close>

text \<open>
  A certified quorum certificate: at least a quorum of distinct members of the committee, each
  with a signature over the certified data that verifies under its registered key.
\<close>

definition signed_by :: "crypto \<Rightarrow> (address \<rightharpoonup> bls_pubkey) \<Rightarrow> vote_data \<Rightarrow> address \<Rightarrow> bool" where
  "signed_by c keys d a \<longleftrightarrow> (\<exists>pk sg. keys a = Some pk \<and> verify_single c sg pk (vote_hash c d))"

definition certified :: "crypto \<Rightarrow> address list \<Rightarrow> (address \<rightharpoonup> bls_pubkey) \<Rightarrow> quorum_certificate \<Rightarrow> bool" where
  "certified c vs keys q \<longleftrightarrow> distinct (signers q) \<and> committee_quorum (length vs) \<le> length (signers q)
     \<and> set (signers q) \<subseteq> set vs \<and> list_all (signed_by c keys (qc_data q)) (signers q)"

lemma certified_overlap:
  assumes "distinct vs" "certified c vs keys p" "certified c vs keys q"
  shows "length vs div 3 < card {a \<in> set vs. signed_by c keys (qc_data p) a \<and> signed_by c keys (qc_data q) a}"
proof -
  have n: "card (set vs) = length vs" using assms(1) by (rule distinct_card)
  have "length vs div 3 < card (set (signers p) \<inter> set (signers q))"
    using bft.quorum_intersect[of "set vs" "set (signers p)" "set (signers q)"] assms
    unfolding n certified_def by (simp add: distinct_card)
  also have "\<dots> \<le> card {a \<in> set vs. signed_by c keys (qc_data p) a \<and> signed_by c keys (qc_data q) a}"
    using assms(2,3) by (intro card_mono) (auto simp: certified_def list_all_iff)
  finally show ?thesis .
qed

lemma certified_registry_grows: "certified c vs keys q \<Longrightarrow> keys \<subseteq>\<^sub>m keys' \<Longrightarrow> certified c vs keys' q"
  by (auto simp: certified_def signed_by_def list_all_iff map_le_def dom_def; metis)

end
