(* ===== verification/HotStuff2.thy ===== *)
theory HotStuff2
  imports Votes
begin

text \<open>
  The HotStuff-2 engine, \<open>zbx-consensus/src/hotstuff2.rs\<close>: timeout shares and certificates, the
  adaptive round timer, and the handlers of the state machine. A block is a value of a type
  parameter with its header hash as the argument \<open>bhash\<close>. \<open>Instant::now()\<close> is an argument
  of the operations that read the clock; durations are nanoseconds. Rounds are 64-bit and
  their successors wrap.
\<close>

section \<open>Timeouts\<close>

definition DELTA_MIN :: nat where "DELTA_MIN = 500 * 10 ^ 6"
definition DELTA_MAX :: nat where "DELTA_MAX = 30 * 10 ^ 9"
definition DELTA_INIT :: nat where "DELTA_INIT = 5 * 10 ^ 9"

record timeout_share =
  ts_round :: u64
  ts_highest_qc_round :: u64
  ts_highest_qc_hash :: "h256 option"
  ts_validator :: address
  ts_signature :: bls_sig

definition share_bytes :: "timeout_share \<Rightarrow> byte list" where
  "share_bytes s =
     be_bytes 8 (ts_round s) @ be_bytes 8 (ts_highest_qc_round s)
     @ (case ts_highest_qc_hash s of Some h \<Rightarrow> h256_bytes h | None \<Rightarrow> replicate 32 0)
     @ addr_bytes (ts_validator s)"

definition share_hash :: "crypto \<Rightarrow> timeout_share \<Rightarrow> h256" where
  "share_hash c s = keccak256 c (share_bytes s)"

record timeout_certificate =
  tc_round :: u64
  tc_highest_qc_round :: u64
  tc_agg_signature :: bls_sig
  signer_hashes :: "h256 list"
  tc_signer_pubkeys :: "bls_pubkey list"
  tc_signers :: "address list"
  tc_signer_count :: usize
  signer_signatures :: "bls_sig list"

definition tc_verify :: "crypto \<Rightarrow> timeout_certificate \<Rightarrow> usize \<Rightarrow> bool" where
  "tc_verify c t quorum =
     (if tc_signer_count t < quorum then False
      else if length (signer_hashes t) \<noteq> length (tc_signer_pubkeys t)
          \<or> length (signer_hashes t) \<noteq> length (signer_signatures t)
          \<or> length (signer_hashes t) \<noteq> tc_signer_count t then False
      else if \<not> distinct (tc_signers t) then False
      else list_all (\<lambda>((sig, pk), msg). verify_single c sig pk msg)
             (zip (zip (signer_signatures t) (tc_signer_pubkeys t)) (signer_hashes t)))"

record adaptive_timer =
  current_delta :: nat
  start_time :: "nat option"
  consecutive_timeouts :: u64

definition adaptive_timer_new :: adaptive_timer where
  "adaptive_timer_new = \<lparr>current_delta = DELTA_INIT, start_time = None, consecutive_timeouts = 0\<rparr>"

definition timer_start :: "adaptive_timer \<Rightarrow> nat \<Rightarrow> adaptive_timer" where
  "timer_start t now = t\<lparr>start_time := Some now\<rparr>"

definition is_expired :: "adaptive_timer \<Rightarrow> nat \<Rightarrow> bool" where
  "is_expired t now = (case start_time t of Some s \<Rightarrow> now - s \<ge> current_delta t | None \<Rightarrow> False)"

definition on_quorum_reached :: "adaptive_timer \<Rightarrow> nat \<Rightarrow> adaptive_timer" where
  "on_quorum_reached t now =
     (let t1 = (case start_time t of
                  Some start \<Rightarrow>
                    t\<lparr>current_delta := min (max (max (current_delta t * 3 div 4) ((now - start) * 2)) DELTA_MIN) DELTA_MAX\<rparr>
                | None \<Rightarrow> t)
      in t1\<lparr>consecutive_timeouts := 0, start_time := None\<rparr>)"

definition on_timeout :: "adaptive_timer \<Rightarrow> adaptive_timer" where
  "on_timeout t = t\<lparr>current_delta := min (current_delta t * 3 div 2) DELTA_MAX,
     consecutive_timeouts := wrap_add 64 (consecutive_timeouts t) 1, start_time := None\<rparr>"

record tc_accumulator =
  shares :: "(address \<times> timeout_share \<times> bls_pubkey) list"
  tc_quorum :: usize

definition tc_accumulator_new :: "usize \<Rightarrow> tc_accumulator" where
  "tc_accumulator_new q = \<lparr>shares = [], tc_quorum = q\<rparr>"

definition build_tc :: "crypto \<Rightarrow> tc_accumulator \<Rightarrow> timeout_certificate option" where
  "build_tc c acc =
     (let entries = shares acc;
          round = (case entries of [] \<Rightarrow> 0 | (_, s, _) # _ \<Rightarrow> ts_round s);
          highest = fold max (map (\<lambda>(_, s, _). ts_highest_qc_round s) entries) 0;
          sigs = map (\<lambda>(_, s, _). ts_signature s) entries
      in case aggregate_signatures c sigs of
           None \<Rightarrow> None
         | Some agg \<Rightarrow> Some
             \<lparr>tc_round = round, tc_highest_qc_round = highest, tc_agg_signature = agg,
              signer_hashes = map (\<lambda>(_, s, _). share_hash c s) entries,
              tc_signer_pubkeys = map (\<lambda>(_, _, pk). pk) entries, tc_signers = map fst entries,
              tc_signer_count = length entries, signer_signatures = sigs\<rparr>)"

definition add_share ::
  "crypto \<Rightarrow> tc_accumulator \<Rightarrow> timeout_share \<Rightarrow> bls_pubkey \<Rightarrow> timeout_certificate option \<times> tc_accumulator" where
  "add_share c acc s pubkey =
     (if map_of (shares acc) (ts_validator s) \<noteq> None then (None, acc)
      else if \<not> verify_single c (ts_signature s) pubkey (share_hash c s) then (None, acc)
      else
       (let acc1 = acc\<lparr>shares := AList.update (ts_validator s) (s, pubkey) (shares acc)\<rparr>
        in if length (shares acc1) \<ge> tc_quorum acc1 then (build_tc c acc1, acc1) else (None, acc1)))"

section \<open>The engine\<close>

datatype hs2_phase =
    WaitingProposal u64
  | Voted u64 h256
  | ViewChange u64
  | CommittedPhase u64 h256

datatype 'b hs2_event =
    Committed 'b quorum_certificate
  | VoteRequest vote_data
  | ProposalRequired u64 h256 quorum_certificate
  | TimeoutBroadcast timeout_share
  | NewLeaderPropose u64 timeout_certificate

record hotstuff2 =
  hphase :: hs2_phase
  highest_qc :: quorum_certificate
  prev_qc :: "quorum_certificate option"
  round_timer :: adaptive_timer
  vote_accum :: "vote_accumulator option"
  tc_accum :: tc_accumulator
  hvalidator :: address
  validator_set :: "address list"
  hquorum :: usize
  hepoch :: u64
  voted_at :: "u64 \<rightharpoonup> h256"
  seen_votes :: "u64 \<times> byte \<times> address \<rightharpoonup> h256 \<times> vote \<times> bls_pubkey"
  validator_pubkeys :: "address \<rightharpoonup> bls_pubkey"

definition genesis_qc :: quorum_certificate where
  "genesis_qc = \<lparr>qc_data = \<lparr>block_hash = 0, block_number = 0, vphase = 0, epoch = 0\<rparr>,
     agg_signature = replicate 96 0, signers = [], signer_pubkeys = []\<rparr>"

definition hotstuff2_new ::
  "quorum_certificate \<Rightarrow> address \<Rightarrow> address list \<Rightarrow> (consensus_error, hotstuff2) res" where
  "hotstuff2_new qc validator validators =
     (if validators = [] then Panic
      else (let quorum = committee_quorum (length validators) in Ok
        \<lparr>hphase = WaitingProposal 1, highest_qc = qc, prev_qc = None, round_timer = adaptive_timer_new,
         vote_accum = None, tc_accum = tc_accumulator_new quorum, hvalidator = validator,
         validator_set = validators, hquorum = quorum, hepoch = 0, voted_at = Map.empty,
         seen_votes = Map.empty, validator_pubkeys = Map.empty\<rparr>))"

definition try_new ::
  "quorum_certificate \<Rightarrow> address \<Rightarrow> address list \<Rightarrow> (consensus_error, hotstuff2) res" where
  "try_new qc validator validators =
     (if validators = [] then Err EmptyValidatorSet else hotstuff2_new qc validator validators)"

definition register_validator_pubkey :: "hotstuff2 \<Rightarrow> address \<Rightarrow> bls_pubkey \<Rightarrow> hotstuff2" where
  "register_validator_pubkey s a pk =
     (case validator_pubkeys s a of
        Some existing \<Rightarrow> if existing \<noteq> pk then s else s\<lparr>validator_pubkeys := (validator_pubkeys s)(a \<mapsto> pk)\<rparr>
      | None \<Rightarrow> s\<lparr>validator_pubkeys := (validator_pubkeys s)(a \<mapsto> pk)\<rparr>)"

definition on_proposal ::
  "('b \<Rightarrow> h256) \<Rightarrow> hotstuff2 \<Rightarrow> 'b \<Rightarrow> quorum_certificate \<Rightarrow> nat \<Rightarrow>
   (consensus_error, 'b hs2_event list) res \<times> hotstuff2" where
  "on_proposal bhash s block justify now =
     (let justify_round = qc_round justify;
          round = wrap_add 64 justify_round 1;
          highest_round = qc_round (highest_qc s) in
      if justify_round < highest_round then (Err (StaleProposal round highest_round), s)
      else
       (let events = (case prev_qc s of
              Some pqc \<Rightarrow> if justify_round = wrap_add 64 (qc_round pqc) 1 then [Committed block justify] else []
            | None \<Rightarrow> []);
            s1 = (if justify_round > highest_round
                  then s\<lparr>prev_qc := Some (highest_qc s), highest_qc := justify\<rparr> else s);
            bh = bhash block
        in case voted_at s1 round of
             Some prev_hash \<Rightarrow>
               if prev_hash \<noteq> bh then (Err (Equivocation round prev_hash bh), s1) else (Ok events, s1)
           | None \<Rightarrow>
              (let vd = \<lparr>block_hash = bh, block_number = round, vphase = 0, epoch = hepoch s1\<rparr>
               in (Ok (events @ [VoteRequest vd]),
                   s1\<lparr>vote_accum := Some (vote_accumulator_new vd (hquorum s1)),
                      voted_at := (voted_at s1)(round \<mapsto> bh),
                      hphase := Voted round bh,
                      round_timer := timer_start (round_timer s1) now\<rparr>))))"

definition leader_index :: "crypto \<Rightarrow> h256 \<Rightarrow> u64 \<Rightarrow> usize \<Rightarrow> usize" where
  "leader_index c seed round n =
     (let hash = keccak256 c (h256_bytes seed @ be_bytes 8 round)
      in be_val (take 8 (h256_bytes hash)) mod n)"

definition is_leader :: "crypto \<Rightarrow> hotstuff2 \<Rightarrow> u64 \<Rightarrow> bool" where
  "is_leader c s round =
     (if validator_set s = [] then False
      else validator_set s ! leader_index c (block_hash (qc_data (highest_qc s))) round (length (validator_set s))
           = hvalidator s)"

definition on_vote ::
  "crypto \<Rightarrow> hotstuff2 \<Rightarrow> vote \<Rightarrow> bls_pubkey \<Rightarrow> nat \<Rightarrow>
   (consensus_error, 'b hs2_event list) res \<times> hotstuff2" where
  "on_vote c s v pubkey now =
     (if voter v \<notin> set (validator_set s) then (Ok [], s)
      else if validator_pubkeys s (voter v) \<noteq> Some pubkey then (Ok [], s)
      else if \<not> verify_single c (vsignature v) pubkey (vote_hash c (vdata v)) then (Ok [], s)
      else
       (let key = (block_number (vdata v), vphase (vdata v), voter v);
            go = (\<lambda>s1. case vote_accum s1 of
               None \<Rightarrow> (Ok [], s1)
             | Some acc \<Rightarrow>
                (let (r, acc1) = add_vote c acc v pubkey; s2 = s1\<lparr>vote_accum := Some acc1\<rparr>
                 in case r of
                      Ok (Some qc) \<Rightarrow>
                       (let s3 = s2\<lparr>round_timer := on_quorum_reached (round_timer s2) now\<rparr>;
                            s4 = (if qc_round qc > qc_round (highest_qc s3)
                                  then s3\<lparr>prev_qc := Some (highest_qc s3), highest_qc := qc\<rparr> else s3);
                            next_round = wrap_add 64 (qc_round qc) 1;
                            s5 = s4\<lparr>hphase := WaitingProposal next_round, vote_accum := None,
                                    tc_accum := tc_accumulator_new (hquorum s4)\<rparr>
                        in if is_leader c s5 next_round
                           then (Ok [ProposalRequired next_round (block_hash (qc_data qc)) qc], s5)
                           else (Ok [], s5))
                    | _ \<Rightarrow> (Ok [], s2)))
        in case seen_votes s key of
             Some (prev_hash, prev_vote, _) \<Rightarrow>
               if prev_hash \<noteq> block_hash (vdata v)
               then (Err (RemoteEquivocation (voter prev_vote) (block_number (vdata prev_vote))
                      (vphase (vdata prev_vote)) (block_hash (vdata prev_vote)) (block_hash (vdata v))), s)
               else go s
           | None \<Rightarrow> go (s\<lparr>seen_votes := (seen_votes s)(key \<mapsto> (block_hash (vdata v), v, pubkey))\<rparr>)))"

definition on_timeout_share ::
  "crypto \<Rightarrow> hotstuff2 \<Rightarrow> timeout_share \<Rightarrow> bls_pubkey \<Rightarrow>
   (consensus_error, 'b hs2_event list) res \<times> hotstuff2" where
  "on_timeout_share c s share pubkey =
     (let (r, acc) = add_share c (tc_accum s) share pubkey; s1 = s\<lparr>tc_accum := acc\<rparr>
      in case r of
           None \<Rightarrow> (Ok [], s1)
         | Some tc \<Rightarrow>
             if \<not> tc_verify c tc (hquorum s1) then (Err InvalidTimeoutCertificate, s1)
             else
              (let next_round = wrap_add 64 (tc_round tc) 1;
                   s2 = s1\<lparr>hphase := WaitingProposal next_round, vote_accum := None\<rparr>
               in if is_leader c s2 next_round then (Ok [NewLeaderPropose next_round tc], s2) else (Ok [], s2)))"

definition verify_tc :: "crypto \<Rightarrow> hotstuff2 \<Rightarrow> timeout_certificate \<Rightarrow> bool" where
  "verify_tc c s tc = tc_verify c tc (hquorum s)"

definition prune_voted_below :: "hotstuff2 \<Rightarrow> u64 \<Rightarrow> hotstuff2" where
  "prune_voted_below s committed_round =
     s\<lparr>voted_at := (\<lambda>r. if r \<ge> committed_round then voted_at s r else None),
       seen_votes := (\<lambda>(r, p, a). if r \<ge> committed_round then seen_votes s (r, p, a) else None)\<rparr>"

definition build_remote_equivocation_evidence ::
  "crypto \<Rightarrow> hotstuff2 \<Rightarrow> address \<Rightarrow> u64 \<Rightarrow> byte \<Rightarrow> vote \<Rightarrow> bls_pubkey \<Rightarrow> equivocation_evidence option" where
  "build_remote_equivocation_evidence c s validator round phase new_vote new_pk =
     (case seen_votes s (round, phase, validator) of
        None \<Rightarrow> None
      | Some (_, prev_vote, _) \<Rightarrow>
         (let ev = \<lparr>ev_validator = validator, ev_round = round, ev_phase = phase, vote_a = prev_vote,
                    vote_b = new_vote, ev_pubkey = new_pk\<rparr>
          in if evidence_verify c ev then Some ev else None))"

definition check_timer :: "hotstuff2 \<Rightarrow> u64 \<Rightarrow> nat \<Rightarrow> 'b hs2_event option \<times> hotstuff2" where
  "check_timer s current_round now =
     (if is_expired (round_timer s) now
      then (Some (TimeoutBroadcast \<lparr>ts_round = current_round, ts_highest_qc_round = qc_round (highest_qc s),
              ts_highest_qc_hash = Some (block_hash (qc_data (highest_qc s))), ts_validator = hvalidator s,
              ts_signature = replicate 96 0\<rparr>),
            s\<lparr>round_timer := on_timeout (round_timer s), hphase := ViewChange current_round\<rparr>)
      else (None, s))"

definition current_round :: "hotstuff2 \<Rightarrow> u64" where
  "current_round s = (case hphase s of
       WaitingProposal r \<Rightarrow> r
     | Voted r _ \<Rightarrow> r
     | ViewChange r \<Rightarrow> r
     | CommittedPhase _ _ \<Rightarrow> wrap_add 64 (qc_round (highest_qc s)) 1)"


section \<open>The invariant of the engine\<close>

definition timer_ok :: "adaptive_timer \<Rightarrow> bool" where
  "timer_ok t \<longleftrightarrow> DELTA_MIN \<le> current_delta t \<and> current_delta t \<le> DELTA_MAX"

definition known_voter :: "hotstuff2 \<Rightarrow> address \<Rightarrow> bls_pubkey \<Rightarrow> bool" where
  "known_voter s a pk \<longleftrightarrow> a \<in> set (validator_set s) \<and> validator_pubkeys s a = Some pk"

definition accum_ok :: "crypto \<Rightarrow> hotstuff2 \<Rightarrow> vote_accumulator \<Rightarrow> bool" where
  "accum_ok c s acc \<longleftrightarrow> acc_ok c acc \<and> acc_quorum acc = hquorum s
     \<and> list_all (\<lambda>(a, v, pk). known_voter s a pk) (acc_votes acc)"

definition seen_ok :: "crypto \<Rightarrow> hotstuff2 \<Rightarrow> bool" where
  "seen_ok c s \<longleftrightarrow> (\<forall>r p a h v pk. seen_votes s (r, p, a) = Some (h, v, pk) \<longrightarrow>
     voter v = a \<and> block_number (vdata v) = r \<and> vphase (vdata v) = p \<and> block_hash (vdata v) = h
     \<and> known_voter s a pk \<and> verify_single c (vsignature v) pk (vote_hash c (vdata v)))"

definition tc_acc_ok :: "crypto \<Rightarrow> tc_accumulator \<Rightarrow> bool" where
  "tc_acc_ok c acc \<longleftrightarrow> distinct (map fst (shares acc))
     \<and> list_all (\<lambda>(a, s, pk). ts_validator s = a \<and> verify_single c (ts_signature s) pk (share_hash c s)) (shares acc)"

definition hs2_inv :: "crypto \<Rightarrow> hotstuff2 \<Rightarrow> bool" where
  "hs2_inv c s \<longleftrightarrow> timer_ok (round_timer s)
     \<and> (case vote_accum s of None \<Rightarrow> True | Some acc \<Rightarrow> accum_ok c s acc)
     \<and> seen_ok c s \<and> tc_acc_ok c (tc_accum s) \<and> tc_quorum (tc_accum s) = hquorum s
     \<and> hquorum s = committee_quorum (length (validator_set s))"

lemma timer_ok_new: "timer_ok adaptive_timer_new"
  by (simp add: timer_ok_def adaptive_timer_new_def DELTA_MIN_def DELTA_MAX_def DELTA_INIT_def)

lemma timer_ok_ops:
  "timer_ok t \<Longrightarrow> timer_ok (timer_start t now)" "timer_ok t \<Longrightarrow> timer_ok (on_quorum_reached t now)"
  "timer_ok t \<Longrightarrow> timer_ok (on_timeout t)"
  by (auto simp: timer_ok_def timer_start_def on_quorum_reached_def on_timeout_def DELTA_MIN_def
      DELTA_MAX_def split: option.splits)

lemma hs2_inv_new: "hotstuff2_new qc v vs = Ok s \<Longrightarrow> hs2_inv c s"
  by (auto simp: hotstuff2_new_def Let_def hs2_inv_def timer_ok_new seen_ok_def tc_acc_ok_def
      tc_accumulator_new_def split: if_splits)

text \<open>What a handler changes matters to the invariant only in these components.\<close>

lemma hs2_inv_frame:
  assumes "hs2_inv c s" "timer_ok (round_timer t)"
    "validator_set t = validator_set s" "validator_pubkeys t = validator_pubkeys s" "hquorum t = hquorum s"
    "case vote_accum t of None \<Rightarrow> True | Some acc \<Rightarrow> accum_ok c s acc"
    "seen_ok c s \<Longrightarrow> seen_ok c t" "tc_acc_ok c (tc_accum t)" "tc_quorum (tc_accum t) = hquorum s"
  shows "hs2_inv c t"
  using assms by (auto simp: hs2_inv_def accum_ok_def known_voter_def split: option.splits)

lemma hs2_invD:
  assumes "hs2_inv c s"
  shows "timer_ok (round_timer s)" "\<And>acc. vote_accum s = Some acc \<Longrightarrow> accum_ok c s acc" "seen_ok c s"
    "tc_acc_ok c (tc_accum s)" "tc_quorum (tc_accum s) = hquorum s"
    "hquorum s = committee_quorum (length (validator_set s))"
  using assms by (auto simp: hs2_inv_def)

section \<open>Proposals\<close>

lemma on_proposal_cases:
  fixes bhash :: "'b \<Rightarrow> h256" and block :: 'b and q :: quorum_certificate
  defines "r \<equiv> wrap_add 64 (qc_round q) 1"
  obtains (stale) e where "qc_round q < qc_round (highest_qc s)" "on_proposal bhash s block q now = (Err e, s)"
  | (again) s1 x where "qc_round (highest_qc s) \<le> qc_round q"
      "s1 = (if qc_round q > qc_round (highest_qc s) then s\<lparr>prev_qc := Some (highest_qc s), highest_qc := q\<rparr> else s)"
      "voted_at s r \<noteq> None" "on_proposal bhash s block q now = (x, s1)"
      "\<forall>evs d. x = Ok evs \<longrightarrow> VoteRequest d \<notin> set evs"
  | (fresh) s1 evs vd where "qc_round (highest_qc s) \<le> qc_round q"
      "s1 = (if qc_round q > qc_round (highest_qc s) then s\<lparr>prev_qc := Some (highest_qc s), highest_qc := q\<rparr> else s)"
      "voted_at s r = None" "vd = \<lparr>block_hash = bhash block, block_number = r, vphase = 0, epoch = hepoch s\<rparr>"
      "\<forall>d. VoteRequest d \<notin> set evs"
      "on_proposal bhash s block q now = (Ok (evs @ [VoteRequest vd]),
        s1\<lparr>vote_accum := Some (vote_accumulator_new vd (hquorum s)), voted_at := (voted_at s)(r \<mapsto> bhash block),
           hphase := Voted r (bhash block), round_timer := timer_start (round_timer s) now\<rparr>)"
proof -
  define evs where "evs = (case prev_qc s of
     Some pqc \<Rightarrow> if qc_round q = wrap_add 64 (qc_round pqc) 1 then [Committed block q] else [] | None \<Rightarrow> [])"
  define s1 where "s1 = (if qc_round q > qc_round (highest_qc s)
     then s\<lparr>prev_qc := Some (highest_qc s), highest_qc := q\<rparr> else s)"
  have nv: "\<forall>d. VoteRequest d \<notin> set evs" by (simp add: evs_def split: option.splits)
  have same: "voted_at s1 = voted_at s" "hepoch s1 = hepoch s" "hquorum s1 = hquorum s" "round_timer s1 = round_timer s"
    by (simp_all add: s1_def)
  show ?thesis
  proof (cases "qc_round q < qc_round (highest_qc s)")
    case True
    then show ?thesis by (intro stale) (simp_all add: on_proposal_def Let_def)
  next
    case False
    then have op: "on_proposal bhash s block q now = (case voted_at s1 r of
        Some prev_hash \<Rightarrow> if prev_hash \<noteq> bhash block then (Err (Equivocation r prev_hash (bhash block)), s1) else (Ok evs, s1)
      | None \<Rightarrow> (let vd = \<lparr>block_hash = bhash block, block_number = r, vphase = 0, epoch = hepoch s1\<rparr>
         in (Ok (evs @ [VoteRequest vd]), s1\<lparr>vote_accum := Some (vote_accumulator_new vd (hquorum s1)),
             voted_at := (voted_at s1)(r \<mapsto> bhash block), hphase := Voted r (bhash block),
             round_timer := timer_start (round_timer s1) now\<rparr>)))"
      unfolding on_proposal_def Let_def evs_def s1_def r_def by simp
    show ?thesis
    proof (cases "voted_at s r")
      case None
      show ?thesis using False None nv op
        by (intro fresh[OF _ s1_def None refl nv]) (simp_all add: same Let_def)
    next
      case (Some h)
      show ?thesis using False Some nv op
        by (cases "h = bhash block") (auto intro!: again[OF _ s1_def] simp: same)
    qed
  qed
qed

lemma on_proposal_inv:
  assumes "hs2_inv c s"
  shows "hs2_inv c (snd (on_proposal bhash s b q now))"
proof (cases rule: on_proposal_cases[of q s bhash b now])
  case (stale e)
  then show ?thesis using assms by simp
next
  case (again s1 x)
  then have "hs2_inv c s1" using assms hs2_invD[OF assms]
    by (intro hs2_inv_frame[OF assms]) (auto simp: seen_ok_def known_voter_def split: option.splits)
  then show ?thesis using again by simp
next
  case (fresh s1 evs vd)
  have t: "timer_ok (timer_start (round_timer s) now)" using hs2_invD(1)[OF assms] by (rule timer_ok_ops)
  have "hs2_inv c (s1\<lparr>vote_accum := Some (vote_accumulator_new vd (hquorum s)),
      voted_at := m, hphase := ph, round_timer := timer_start (round_timer s) now\<rparr>)" for m ph
    using fresh(2) t hs2_invD[OF assms]
    by (intro hs2_inv_frame[OF assms])
       (auto simp: seen_ok_def known_voter_def accum_ok_def vote_accumulator_new_def acc_ok_def)
  then show ?thesis using fresh(6) by simp
qed

section \<open>Votes\<close>

text \<open>A vote that passed the membership, key and signature checks is counted in state \<open>s\<close>.\<close>

definition count_vote :: "crypto \<Rightarrow> hotstuff2 \<Rightarrow> vote \<Rightarrow> bls_pubkey \<Rightarrow> nat \<Rightarrow>
    (consensus_error, 'b hs2_event list) res \<times> hotstuff2" where
  "count_vote c s1 v pubkey now = (case vote_accum s1 of
       None \<Rightarrow> (Ok [], s1)
     | Some acc \<Rightarrow>
        (let (r, acc1) = add_vote c acc v pubkey; s2 = s1\<lparr>vote_accum := Some acc1\<rparr>
         in case r of
              Ok (Some qc) \<Rightarrow>
               (let s3 = s2\<lparr>round_timer := on_quorum_reached (round_timer s2) now\<rparr>;
                    s4 = (if qc_round qc > qc_round (highest_qc s3)
                          then s3\<lparr>prev_qc := Some (highest_qc s3), highest_qc := qc\<rparr> else s3);
                    next_round = wrap_add 64 (qc_round qc) 1;
                    s5 = s4\<lparr>hphase := WaitingProposal next_round, vote_accum := None,
                            tc_accum := tc_accumulator_new (hquorum s4)\<rparr>
                in if is_leader c s5 next_round
                   then (Ok [ProposalRequired next_round (block_hash (qc_data qc)) qc], s5)
                   else (Ok [], s5))
            | _ \<Rightarrow> (Ok [], s2)))"

abbreviation vote_key :: "vote \<Rightarrow> u64 \<times> byte \<times> address" where
  "vote_key v \<equiv> (block_number (vdata v), vphase (vdata v), voter v)"

lemma on_vote_cases:
  assumes "on_vote c s v pk now = (x, t)"
  obtains (dropped) "x = Ok []" "t = s"
  | (equivocation) h u pk' where "known_voter s (voter v) pk" "verify_single c (vsignature v) pk (vote_hash c (vdata v))"
      "seen_votes s (vote_key v) = Some (h, u, pk')" "h \<noteq> block_hash (vdata v)" "t = s"
      "x = Err (RemoteEquivocation (voter u) (block_number (vdata u)) (vphase (vdata u))
          (block_hash (vdata u)) (block_hash (vdata v)))"
  | (counted) s1 where "known_voter s (voter v) pk" "verify_single c (vsignature v) pk (vote_hash c (vdata v))"
      "s1 = s \<or> (seen_votes s (vote_key v) = None
        \<and> s1 = s\<lparr>seen_votes := (seen_votes s)(vote_key v \<mapsto> (block_hash (vdata v), v, pk))\<rparr>)"
      "count_vote c s1 v pk now = (x, t)"
proof (cases "known_voter s (voter v) pk \<and> verify_single c (vsignature v) pk (vote_hash c (vdata v))")
  case False
  then show ?thesis using assms by (intro dropped) (auto simp: on_vote_def known_voter_def split: if_splits)
next
  case ok: True
  have *: "(x, t) = (case seen_votes s (vote_key v) of
      Some (prev_hash, prev_vote, _) \<Rightarrow>
        if prev_hash \<noteq> block_hash (vdata v)
        then (Err (RemoteEquivocation (voter prev_vote) (block_number (vdata prev_vote))
               (vphase (vdata prev_vote)) (block_hash (vdata prev_vote)) (block_hash (vdata v))), s)
        else count_vote c s v pk now
    | None \<Rightarrow> count_vote c (s\<lparr>seen_votes := (seen_votes s)(vote_key v \<mapsto> (block_hash (vdata v), v, pk))\<rparr>) v pk now)"
    using ok unfolding assms[symmetric] on_vote_def count_vote_def Let_def known_voter_def by simp
  show ?thesis
  proof (cases "seen_votes s (vote_key v)")
    case None
    then show ?thesis using ok *
      by (intro counted[of "s\<lparr>seen_votes := (seen_votes s)(vote_key v \<mapsto> (block_hash (vdata v), v, pk))\<rparr>"]) auto
  next
    case (Some e)
    then obtain h u pk' where e: "e = (h, u, pk')" by (metis prod_cases3)
    show ?thesis
    proof (cases "h = block_hash (vdata v)")
      case True
      then show ?thesis using * Some e ok by (intro counted[of s]) auto
    next
      case False
      then show ?thesis using * Some e ok by (intro equivocation) auto
    qed
  qed
qed

lemma seen_ok_add:
  assumes "seen_ok c s" "known_voter s (voter v) pk" "verify_single c (vsignature v) pk (vote_hash c (vdata v))"
  shows "seen_ok c (s\<lparr>seen_votes := (seen_votes s)(vote_key v \<mapsto> (block_hash (vdata v), v, pk))\<rparr>)"
  using assms by (auto simp: seen_ok_def known_voter_def)

lemma add_vote_accum_ok:
  assumes "accum_ok c s acc" "known_voter s (voter v) pk"
  shows "accum_ok c s (snd (add_vote c acc v pk))"
proof (cases rule: add_vote_cases[of v acc c pk])
  case (counted acc1)
  then show ?thesis using assms add_vote_ok[of c acc v pk] by (auto simp: accum_ok_def)
qed (use assms in simp_all)

text \<open>The state after a certificate was formed.\<close>

definition after_qc :: "crypto \<Rightarrow> hotstuff2 \<Rightarrow> quorum_certificate \<Rightarrow> nat \<Rightarrow> hotstuff2" where
  "after_qc c s qc now =
     s\<lparr>round_timer := on_quorum_reached (round_timer s) now,
       prev_qc := (if qc_round qc > qc_round (highest_qc s) then Some (highest_qc s) else prev_qc s),
       highest_qc := (if qc_round qc > qc_round (highest_qc s) then qc else highest_qc s),
       hphase := WaitingProposal (wrap_add 64 (qc_round qc) 1), vote_accum := None,
       tc_accum := tc_accumulator_new (hquorum s)\<rparr>"

lemma count_vote_cases:
  assumes "count_vote c s v pk now = (x, t)"
  obtains (none) "vote_accum s = None" "x = Ok []" "t = s"
  | (more) acc where "vote_accum s = Some acc" "x = Ok []" "t = s\<lparr>vote_accum := Some (snd (add_vote c acc v pk))\<rparr>"
  | (formed) acc qc evs where "vote_accum s = Some acc" "fst (add_vote c acc v pk) = Ok (Some qc)"
      "t = after_qc c s qc now" "x = Ok evs" "\<forall>d. VoteRequest d \<notin> set evs"
proof (cases "vote_accum s")
  case None
  then show ?thesis using assms by (intro none) (simp_all add: count_vote_def)
next
  case (Some acc)
  obtain r acc1 where ra: "add_vote c acc v pk = (r, acc1)" by fastforce
  show ?thesis
  proof (cases "\<exists>qc. r = Ok (Some qc)")
    case True
    then obtain qc where qc: "r = Ok (Some qc)" ..
    have "(x, t) = (Ok (if is_leader c (after_qc c s qc now) (wrap_add 64 (qc_round qc) 1)
        then [ProposalRequired (wrap_add 64 (qc_round qc) 1) (block_hash (qc_data qc)) qc] else []), after_qc c s qc now)"
      using Some ra qc unfolding assms[symmetric] by (auto simp: count_vote_def Let_def after_qc_def)
    then show ?thesis using ra qc by (intro formed[OF Some]) auto
  next
    case False
    then show ?thesis using Some ra assms
      by (intro more[OF Some]) (auto simp: count_vote_def Let_def split: res.splits option.splits)
  qed
qed

lemma count_vote_inv:
  assumes "hs2_inv c s" "known_voter s (voter v) pk" "count_vote c s v pk now = (x, t)"
  shows "hs2_inv c t"
  using assms(3)
proof (cases rule: count_vote_cases)
  case none
  then show ?thesis using assms by simp
next
  case (more acc)
  have "accum_ok c s (snd (add_vote c acc v pk))"
    using hs2_invD(2)[OF assms(1) more(1)] assms(2) by (rule add_vote_accum_ok)
  then show ?thesis unfolding more(3)
    using hs2_invD[OF assms(1)] by (intro hs2_inv_frame[OF assms(1)]) (auto simp: seen_ok_def known_voter_def)
next
  case (formed acc qc evs)
  have t: "timer_ok (on_quorum_reached (round_timer s) now)" using hs2_invD(1)[OF assms(1)] by (rule timer_ok_ops)
  show ?thesis
    unfolding formed(3) after_qc_def using t
    by (intro hs2_inv_frame[OF assms(1)]) (auto simp: seen_ok_def known_voter_def tc_acc_ok_def tc_accumulator_new_def)
qed

lemma counted_state_inv:
  assumes "hs2_inv c s" "known_voter s (voter v) pk" "verify_single c (vsignature v) pk (vote_hash c (vdata v))"
    "s1 = s \<or> (seen_votes s (vote_key v) = None
        \<and> s1 = s\<lparr>seen_votes := (seen_votes s)(vote_key v \<mapsto> (block_hash (vdata v), v, pk))\<rparr>)"
  shows "hs2_inv c s1" "known_voter s1 (voter v) pk" "highest_qc s1 = highest_qc s" "voted_at s1 = voted_at s"
    "validator_set s1 = validator_set s" "validator_pubkeys s1 = validator_pubkeys s"
proof -
  let ?m = "(seen_votes s)(vote_key v \<mapsto> (block_hash (vdata v), v, pk))"
  have "seen_ok c (s\<lparr>seen_votes := ?m\<rparr>)" using hs2_invD(3)[OF assms(1)] assms(2,3) by (rule seen_ok_add)
  then have "hs2_inv c (s\<lparr>seen_votes := ?m\<rparr>)"
    using hs2_invD(1,2,4,5)[OF assms(1)] by (intro hs2_inv_frame[OF assms(1)]) (simp_all split: option.splits)
  then show "hs2_inv c s1" using assms(1,4) by blast
  show "known_voter s1 (voter v) pk" "highest_qc s1 = highest_qc s" "voted_at s1 = voted_at s"
    "validator_set s1 = validator_set s" "validator_pubkeys s1 = validator_pubkeys s"
    using assms(2,4) by (auto simp: known_voter_def)
qed

lemma on_vote_inv:
  assumes "hs2_inv c s" "on_vote c s v pk now = (x, t)"
  shows "hs2_inv c t"
  using assms(2)
proof (cases rule: on_vote_cases)
  case (counted s1)
  show ?thesis by (rule count_vote_inv[OF counted_state_inv(1,2)[OF assms(1) counted(1-3)] counted(4)])
qed (use assms in simp_all)

section \<open>Timeouts and the remaining operations\<close>

lemma add_share_ok:
  assumes "tc_acc_ok c acc"
  shows "tc_acc_ok c (snd (add_share c acc sh pk))" "tc_quorum (snd (add_share c acc sh pk)) = tc_quorum acc"
proof -
  have "tc_acc_ok c (snd (add_share c acc sh pk)) \<and> tc_quorum (snd (add_share c acc sh pk)) = tc_quorum acc"
  proof (cases "map_of (shares acc) (ts_validator sh)")
    case None
    then have "ts_validator sh \<notin> fst ` set (shares acc)" by (simp add: map_of_eq_None_iff)
    then show ?thesis using assms None by (simp add: add_share_def Let_def tc_acc_ok_def update_fresh)
  qed (use assms in \<open>simp add: add_share_def\<close>)
  then show "tc_acc_ok c (snd (add_share c acc sh pk))" "tc_quorum (snd (add_share c acc sh pk)) = tc_quorum acc"
    by blast+
qed

lemma on_timeout_share_inv:
  assumes "hs2_inv c s"
  shows "hs2_inv c (snd (on_timeout_share c s sh pk :: (consensus_error, 'b hs2_event list) res \<times> hotstuff2))"
proof -
  obtain r acc where ra: "add_share c (tc_accum s) sh pk = (r, acc)" by fastforce
  have acc: "tc_acc_ok c acc" "tc_quorum acc = hquorum s"
    using add_share_ok[OF hs2_invD(4)[OF assms], of sh pk] hs2_invD(5)[OF assms] ra by simp_all
  have 1: "hs2_inv c (s\<lparr>tc_accum := acc\<rparr>)"
    using acc hs2_invD[OF assms]
    by (intro hs2_inv_frame[OF assms]) (auto simp: seen_ok_def known_voter_def split: option.splits)
  have 2: "hs2_inv c (s\<lparr>tc_accum := acc, hphase := ph, vote_accum := None\<rparr>)" for ph
    using acc hs2_invD[OF assms] by (intro hs2_inv_frame[OF assms]) (auto simp: seen_ok_def known_voter_def)
  show ?thesis using 1 2 by (auto simp: on_timeout_share_def ra Let_def split: option.splits)
qed

lemma prune_inv: "hs2_inv c s \<Longrightarrow> hs2_inv c (prune_voted_below s r)"
  by (auto simp: hs2_inv_def prune_voted_below_def seen_ok_def accum_ok_def known_voter_def
      split: option.splits if_splits)

lemma check_timer_inv:
  assumes "hs2_inv c s"
  shows "hs2_inv c (snd (check_timer s r now :: 'b hs2_event option \<times> hotstuff2))"
proof (cases "is_expired (round_timer s) now")
  case True
  have "hs2_inv c (s\<lparr>round_timer := on_timeout (round_timer s), hphase := ViewChange r\<rparr>)"
    using timer_ok_ops(3)[OF hs2_invD(1)[OF assms]] hs2_invD(2,4,5)[OF assms]
    by (intro hs2_inv_frame[OF assms]) (simp_all add: seen_ok_def known_voter_def split: option.splits)
  then show ?thesis using True by (simp add: check_timer_def)
qed (use assms in \<open>simp add: check_timer_def\<close>)

lemma register_inv:
  assumes "hs2_inv c s"
  shows "hs2_inv c (register_validator_pubkey s a pk)"
proof -
  have kv: "known_voter s b pk' \<Longrightarrow> known_voter (register_validator_pubkey s a pk) b pk'" for b pk'
    by (auto simp: register_validator_pubkey_def known_voter_def split: option.splits)
  have same: "round_timer (register_validator_pubkey s a pk) = round_timer s"
    "vote_accum (register_validator_pubkey s a pk) = vote_accum s"
    "seen_votes (register_validator_pubkey s a pk) = seen_votes s"
    "tc_accum (register_validator_pubkey s a pk) = tc_accum s"
    "hquorum (register_validator_pubkey s a pk) = hquorum s"
    "validator_set (register_validator_pubkey s a pk) = validator_set s"
    by (simp_all add: register_validator_pubkey_def split: option.splits)
  show ?thesis
    using assms kv by (auto simp: hs2_inv_def same seen_ok_def accum_ok_def list_all_iff split: option.splits)
qed


section \<open>The machine and its traces\<close>

datatype 'b hs2_in =
    In_Proposal 'b quorum_certificate nat
  | In_Vote vote bls_pubkey nat
  | In_Timeout timeout_share bls_pubkey
  | In_Timer u64 nat
  | In_Prune u64
  | In_Register address bls_pubkey

definition outputs :: "(consensus_error, 'b hs2_event list) res \<Rightarrow> 'b hs2_event list" where
  "outputs r = (case r of Ok evs \<Rightarrow> evs | _ \<Rightarrow> [])"

fun hs2_handle :: "crypto \<Rightarrow> ('b \<Rightarrow> h256) \<Rightarrow> hotstuff2 \<Rightarrow> 'b hs2_in \<Rightarrow> 'b hs2_event list \<times> hotstuff2" where
  "hs2_handle c bhash s (In_Proposal b q now) = map_prod outputs id (on_proposal bhash s b q now)"
| "hs2_handle c bhash s (In_Vote v pk now) = map_prod outputs id (on_vote c s v pk now)"
| "hs2_handle c bhash s (In_Timeout sh pk) = map_prod outputs id (on_timeout_share c s sh pk)"
| "hs2_handle c bhash s (In_Timer r now) = map_prod (\<lambda>e. case e of None \<Rightarrow> [] | Some x \<Rightarrow> [x]) id (check_timer s r now)"
| "hs2_handle c bhash s (In_Prune r) = ([], prune_voted_below s r)"
| "hs2_handle c bhash s (In_Register a pk) = ([], register_validator_pubkey s a pk)"

definition hs2_step :: "crypto \<Rightarrow> ('b \<Rightarrow> h256) \<Rightarrow> hotstuff2 \<Rightarrow> 'b hs2_in \<Rightarrow> hotstuff2" where
  "hs2_step c bhash s i = snd (hs2_handle c bhash s i)"

lemma hs2_step_inv: "hs2_inv c s \<Longrightarrow> hs2_inv c (hs2_step c bhash s i)"
proof (cases i)
  case (In_Vote v pk now)
  assume inv: "hs2_inv c s"
  obtain x :: "(consensus_error, 'a hs2_event list) res" and t where "on_vote c s v pk now = (x, t)" by fastforce
  with on_vote_inv[OF inv this] In_Vote show ?thesis by (simp add: hs2_step_def)
qed (simp_all add: hs2_step_def on_proposal_inv on_timeout_share_inv check_timer_inv prune_inv register_inv)

lemma highest_mono: "qc_round (highest_qc s) \<le> qc_round (highest_qc (hs2_step c bhash s i))"
proof (cases i)
  case (In_Proposal b q now)
  show ?thesis by (cases rule: on_proposal_cases[of q s bhash b now]) (auto simp: hs2_step_def In_Proposal)
next
  case (In_Vote v pk now)
  obtain x :: "(consensus_error, 'a hs2_event list) res" and t where xt: "on_vote c s v pk now = (x, t)" by fastforce
  from xt have "qc_round (highest_qc s) \<le> qc_round (highest_qc t)"
  proof (cases rule: on_vote_cases)
    case (counted s1)
    have "highest_qc s1 = highest_qc s" using counted(3) by auto
    with counted(4) show ?thesis by (cases rule: count_vote_cases) (auto simp: after_qc_def)
  qed simp_all
  then show ?thesis by (simp add: hs2_step_def In_Vote xt)
next
  case (In_Timeout sh pk)
  obtain r acc where "add_share c (tc_accum s) sh pk = (r, acc)" by fastforce
  then show ?thesis by (simp add: hs2_step_def In_Timeout on_timeout_share_def Let_def split: option.splits)
next
  case (In_Timer r now) then show ?thesis by (simp add: hs2_step_def check_timer_def)
next
  case (In_Prune r) then show ?thesis by (simp add: hs2_step_def prune_voted_below_def)
next
  case (In_Register a pk) then show ?thesis
    by (simp add: hs2_step_def register_validator_pubkey_def split: option.splits)
qed

interpretation hs2: ranked_machine "hs2_step c bhash" "hs2_inv c" "\<lambda>_. True" "\<lambda>s. qc_round (highest_qc s)"
  for c :: crypto and bhash :: "'b \<Rightarrow> h256"
  by unfold_locales (auto intro: hs2_step_inv highest_mono)

text \<open>
  What the engine asks of its driver: certificates are for rounds that have a successor, and the
  guard is pruned only up to the round after the highest certificate (the committed round is
  below it).
\<close>

fun input_ok :: "hotstuff2 \<Rightarrow> 'b hs2_in \<Rightarrow> bool" where
  "input_ok s (In_Proposal b q now) = (qc_round q + 1 < 2 ^ 64)"
| "input_ok s (In_Prune r) = (r \<le> qc_round (highest_qc s) + 1)"
| "input_ok s _ = True"

text \<open>The events emitted on the way from the initial state to a reachable one.\<close>

inductive hs2_trace :: "crypto \<Rightarrow> ('b \<Rightarrow> h256) \<Rightarrow> hotstuff2 \<Rightarrow> 'b hs2_event list \<Rightarrow> hotstuff2 \<Rightarrow> bool"
  for c :: crypto and bhash :: "'b \<Rightarrow> h256" and s0 :: hotstuff2 where
  start: "hs2_trace c bhash s0 [] s0"
| step: "hs2_trace c bhash s0 evs s \<Longrightarrow> input_ok s i \<Longrightarrow> hs2_handle c bhash s i = (out, t) \<Longrightarrow>
    hs2_trace c bhash s0 (evs @ out) t"

fun vote_request :: "'b hs2_event \<Rightarrow> vote_data option" where
  "vote_request (VoteRequest d) = Some d"
| "vote_request _ = None"

definition vote_requests :: "'b hs2_event list \<Rightarrow> vote_data list" where
  "vote_requests evs = List.map_filter vote_request evs"

lemma vote_requests_simps [simp]:
  "vote_requests [] = []" "vote_requests (xs @ ys) = vote_requests xs @ vote_requests ys"
  "vote_requests [VoteRequest d] = [d]"
  by (simp_all add: vote_requests_def map_filter_def)

lemma vote_requests_none: "\<forall>d. VoteRequest d \<notin> set evs \<Longrightarrow> vote_requests evs = []"
proof -
  assume a: "\<forall>d. VoteRequest d \<notin> set evs"
  have "vote_request e = None" if "e \<in> set evs" for e using a that by (cases e) auto
  then show ?thesis by (auto simp: vote_requests_def map_filter_def filter_empty_conv)
qed

lemma trace_inv: "hs2_trace c bhash s0 evs s \<Longrightarrow> hs2_inv c s0 \<Longrightarrow> hs2_inv c s"
proof (induction rule: hs2_trace.induct)
  case (step evs s i out t)
  then show ?case using hs2_step_inv[of c s bhash i] by (simp add: hs2_step_def)
qed

text \<open>
  One step emits at most one vote request, for a round above the highest certificate in which
  the engine has not voted, and remembers it; otherwise the guard keeps what still matters.
\<close>

lemma handle_votes:
  assumes "hs2_handle c bhash s i = (out, t)" "input_ok s i"
  shows "(vote_requests out = [] \<and>
      (\<forall>r. voted_at s r \<noteq> None \<longrightarrow> voted_at t r \<noteq> None \<or> r \<le> qc_round (highest_qc t)))
    \<or> (\<exists>d. vote_requests out = [d] \<and> voted_at s (block_number d) = None
        \<and> qc_round (highest_qc s) < block_number d \<and> voted_at t = (voted_at s)(block_number d \<mapsto> block_hash d))"
proof (cases i)
  case (In_Proposal b q now)
  have w: "wrap_add 64 (qc_round q) 1 = qc_round q + 1"
    using assms(2) In_Proposal by (intro wrap_add_exact) simp
  show ?thesis
  proof (cases rule: on_proposal_cases[of q s bhash b now])
    case (stale e)
    then show ?thesis using assms(1) In_Proposal by (auto simp: outputs_def)
  next
    case (again s1 x)
    have "vote_requests (outputs x) = []"
      using again(5) by (cases x) (auto simp: outputs_def intro: vote_requests_none)
    moreover have "voted_at s1 = voted_at s" using again(2) by simp
    ultimately show ?thesis using assms(1) In_Proposal again(4) by auto
  next
    case (fresh s1 evs vd)
    have "out = evs @ [VoteRequest vd]" "voted_at t = (voted_at s)(block_number vd \<mapsto> block_hash vd)"
      using assms(1) In_Proposal fresh(4,6) by (auto simp: outputs_def)
    then show ?thesis
      using fresh(1,3,4) vote_requests_none[OF fresh(5)] w by auto
  qed
next
  case (In_Vote v pk now)
  obtain x :: "(consensus_error, 'a hs2_event list) res" and t' where xt: "on_vote c s v pk now = (x, t')"
    by fastforce
  then have "vote_requests (outputs x) = [] \<and> voted_at t' = voted_at s"
  proof (cases rule: on_vote_cases)
    case (counted s1)
    have "voted_at s1 = voted_at s" using counted(3) by auto
    with counted(4) show ?thesis
      by (cases rule: count_vote_cases) (auto simp: after_qc_def outputs_def vote_requests_none)
  qed (simp_all add: outputs_def)
  then show ?thesis using assms(1) In_Vote xt by auto
next
  case (In_Timeout sh pk)
  obtain r acc where ra: "add_share c (tc_accum s) sh pk = (r, acc)" by fastforce
  have "vote_requests out = [] \<and> voted_at t = voted_at s"
    using assms(1) In_Timeout ra
    by (auto simp: on_timeout_share_def Let_def outputs_def vote_requests_def map_filter_simps
        split: option.splits if_splits)
  then show ?thesis by simp
next
  case (In_Timer r now)
  then show ?thesis using assms(1)
    by (auto simp: check_timer_def vote_requests_def map_filter_simps split: if_splits)
next
  case (In_Prune r)
  then show ?thesis using assms by (auto simp: prune_voted_below_def)
next
  case (In_Register a pk)
  then show ?thesis using assms(1) by (auto simp: register_validator_pubkey_def split: option.splits if_splits)
qed

lemma trace_votes:
  assumes "hs2_trace c bhash s0 evs s"
  shows "distinct (map block_number (vote_requests evs))
    \<and> (\<forall>d \<in> set (vote_requests evs). voted_at s (block_number d) \<noteq> None \<or> block_number d \<le> qc_round (highest_qc s))"
  using assms
proof (induction rule: hs2_trace.induct)
  case (step evs s i out t)
  have mono: "qc_round (highest_qc s) \<le> qc_round (highest_qc t)"
    using highest_mono[of s c bhash i] step.hyps(3) by (simp add: hs2_step_def)
  from handle_votes[OF step.hyps(3,2)] show ?case
  proof (elim disjE exE conjE)
    assume o: "vote_requests out = []"
      and keep: "\<forall>r. voted_at s r \<noteq> None \<longrightarrow> voted_at t r \<noteq> None \<or> r \<le> qc_round (highest_qc t)"
    have "voted_at t (block_number d) \<noteq> None \<or> block_number d \<le> qc_round (highest_qc t)"
      if "d \<in> set (vote_requests evs)" for d
      using step.IH that keep mono by (meson order_trans)
    then show ?thesis using step.IH o by simp
  next
    fix d
    assume d: "vote_requests out = [d]" "voted_at s (block_number d) = None"
      "qc_round (highest_qc s) < block_number d" "voted_at t = (voted_at s)(block_number d \<mapsto> block_hash d)"
    have "block_number d \<notin> block_number ` set (vote_requests evs)" using step.IH d(2,3) by force
    moreover have "voted_at t (block_number e) \<noteq> None \<or> block_number e \<le> qc_round (highest_qc t)"
      if "e \<in> set (vote_requests evs)" for e
      using step.IH that d(4) mono by (metis fun_upd_apply option.distinct(1) order_trans)
    ultimately show ?thesis using step.IH d(1,4) by simp
  qed
qed simp


section \<open>Properties\<close>

text \<open>
  C6: the engine never votes twice in a round. Over every run from the initial state, in which
  proposals, votes, timeouts, timer checks and prunings arrive in any order, it requests at most
  one vote per round, so it never signs two blocks of the same round.
\<close>

theorem no_double_vote:
  assumes "hotstuff2_new qc validator validators = Ok s0" "hs2_trace c bhash s0 evs s"
  shows "distinct (map block_number (vote_requests evs))"
  using trace_votes[OF assms(2)] by blast

definition no_crypto :: crypto where
  "no_crypto = \<lparr>keccak256 = (\<lambda>_. 0), verify_single = (\<lambda>_ _ _. True), verify_aggregate = (\<lambda>_ _ _. True),
     aggregate_signatures = (\<lambda>_. Some [])\<rparr>"

definition sample_engine :: hotstuff2 where
  "sample_engine = \<lparr>hphase = WaitingProposal 1, highest_qc = genesis_qc, prev_qc = None,
     round_timer = adaptive_timer_new, vote_accum = None, tc_accum = tc_accumulator_new 3, hvalidator = 1,
     validator_set = [1, 2, 3, 4], hquorum = 3, hepoch = 0, voted_at = Map.empty, seen_votes = Map.empty,
     validator_pubkeys = Map.empty\<rparr>"

lemma sample_engine_new: "hotstuff2_new genesis_qc 1 [1, 2, 3, 4] = Ok sample_engine"
  by (simp add: hotstuff2_new_def sample_engine_def committee_quorum_def)

theorem no_double_vote_witness:
  "distinct (map block_number (vote_requests (fst (hs2_handle no_crypto id sample_engine (In_Proposal 7 genesis_qc 0)))))"
proof (rule no_double_vote[OF sample_engine_new])
  have "hs2_trace no_crypto id sample_engine ([] @ fst (hs2_handle no_crypto id sample_engine (In_Proposal 7 genesis_qc 0)))
      (snd (hs2_handle no_crypto id sample_engine (In_Proposal 7 genesis_qc 0)))"
    by (rule hs2_trace.step[OF hs2_trace.start]) (simp_all add: genesis_qc_def del: hs2_handle.simps)
  then show "hs2_trace no_crypto id sample_engine (fst (hs2_handle no_crypto id sample_engine (In_Proposal 7 genesis_qc 0)))
      (snd (hs2_handle no_crypto id sample_engine (In_Proposal 7 genesis_qc 0)))" by simp
qed

text \<open>
  the highest certificate never goes back to a lower round, whatever messages arrive.
\<close>

theorem highest_qc_monotone:
  assumes "hotstuff2_new qc validator validators = Ok s0"
  shows "qc_round qc \<le> qc_round (highest_qc (foldl (hs2_step c bhash) s0 inputs))"
proof -
  have "qc_round (highest_qc s0) \<le> qc_round (highest_qc (foldl (hs2_step c bhash) s0 inputs))"
    using hs2_inv_new[OF assms] by (rule hs2.rank_run) (simp add: list_all_iff)
  moreover have "highest_qc s0 = qc" using assms by (auto simp: hotstuff2_new_def Let_def split: if_splits)
  ultimately show ?thesis by simp
qed

theorem highest_qc_monotone_witness:
  "qc_round genesis_qc \<le> qc_round (highest_qc (foldl (hs2_step no_crypto id) sample_engine [In_Proposal 7 genesis_qc 0, In_Prune 9]))"
  by (rule highest_qc_monotone[OF sample_engine_new])

lemma accum_qc_certified:
  assumes "accum_ok c s acc" "hquorum s = committee_quorum (length (validator_set s))" "known_voter s (voter v) pk"
    "fst (add_vote c acc v pk) = Ok (Some q)"
  shows "certified c (validator_set s) (validator_pubkeys s) q"
proof -
  let ?acc = "snd (add_vote c acc v pk)"
  have ok: "accum_ok c s ?acc" using assms(1,3) by (rule add_vote_accum_ok)
  have q: "qc_backed c (acc_quorum acc) q" "qc_data q = acc_data acc" "signers q = map fst (acc_votes ?acc)"
    using add_vote_qc[of c acc v pk q] assms(1,4) by (auto simp: accum_ok_def)
  have d: "acc_data ?acc = acc_data acc" by (cases rule: add_vote_cases[of v acc c pk]) auto
  have "signed_by c (validator_pubkeys s) (qc_data q) a \<and> a \<in> set (validator_set s)"
    if a: "(a, u, pk') \<in> set (acc_votes ?acc)" for a u pk'
  proof -
    have "known_voter s a pk'" using ok a by (auto simp: accum_ok_def list_all_iff)
    moreover have "verify_single c (vsignature u) pk' (vote_hash c (qc_data q))"
      using ok a q(2) d by (auto simp: accum_ok_def acc_ok_def list_all_iff)
    ultimately show ?thesis by (auto simp: signed_by_def known_voter_def)
  qed
  then have "set (signers q) \<subseteq> set (validator_set s)" "list_all (signed_by c (validator_pubkeys s) (qc_data q)) (signers q)"
    using q(3) by (auto simp: list_all_iff)
  then show ?thesis using q(1) assms(1,2) by (simp add: certified_def qc_backed_def accum_ok_def)
qed

text \<open>The committee never changes, and the accumulator always collects votes of the prepare phase.\<close>

definition prepare_accum :: "hotstuff2 \<Rightarrow> bool" where
  "prepare_accum s \<longleftrightarrow> (\<forall>acc. vote_accum s = Some acc \<longrightarrow> vphase (acc_data acc) = 0)"

lemma accum_vote_data: "acc_data (snd (add_vote c acc v pk)) = acc_data acc"
  by (cases rule: add_vote_cases[of v acc c pk]) auto

lemma handle_committee:
  "validator_set (hs2_step c bhash s i) = validator_set s \<and> (prepare_accum s \<longrightarrow> prepare_accum (hs2_step c bhash s i))"
proof (cases i)
  case (In_Proposal b q now)
  show ?thesis by (cases rule: on_proposal_cases[of q s bhash b now])
      (auto simp: hs2_step_def In_Proposal prepare_accum_def vote_accumulator_new_def)
next
  case (In_Vote v pk now)
  obtain x :: "(consensus_error, 'a hs2_event list) res" and t where xt: "on_vote c s v pk now = (x, t)" by fastforce
  from xt have "validator_set t = validator_set s \<and> (prepare_accum s \<longrightarrow> prepare_accum t)"
  proof (cases rule: on_vote_cases)
    case (counted s1)
    have "validator_set s1 = validator_set s" "vote_accum s1 = vote_accum s" using counted(3) by auto
    with counted(4) show ?thesis
      by (cases rule: count_vote_cases) (auto simp: after_qc_def prepare_accum_def accum_vote_data)
  qed simp_all
  then show ?thesis by (simp add: hs2_step_def In_Vote xt)
next
  case (In_Timeout sh pk)
  obtain r acc where "add_share c (tc_accum s) sh pk = (r, acc)" by fastforce
  then show ?thesis by (simp add: hs2_step_def In_Timeout on_timeout_share_def prepare_accum_def Let_def split: option.splits)
next
  case (In_Timer r now) then show ?thesis by (simp add: hs2_step_def check_timer_def prepare_accum_def)
next
  case (In_Prune r) then show ?thesis by (simp add: hs2_step_def prune_voted_below_def prepare_accum_def)
next
  case (In_Register a pk) then show ?thesis
    by (simp add: hs2_step_def register_validator_pubkey_def prepare_accum_def split: option.splits)
qed

lemma trace_committee:
  assumes "hs2_trace c bhash s0 evs s" "hotstuff2_new qc validator vs = Ok s0"
  shows "validator_set s = vs \<and> prepare_accum s"
  using assms
proof (induction rule: hs2_trace.induct)
  case start
  then show ?case by (auto simp: hotstuff2_new_def prepare_accum_def Let_def split: if_splits)
next
  case (step evs s i out t)
  then show ?case using handle_committee[of c bhash s i] by (simp add: hs2_step_def)
qed

lemma vote_forms_certified:
  assumes "hotstuff2_new qc validator validators = Ok s0" "hs2_trace c bhash s0 evs s"
    and "on_vote c s v pk now = (x, t)" "highest_qc t \<noteq> highest_qc s"
  shows "certified c (validator_set s) (validator_pubkeys s) (highest_qc t)" "vphase (qc_data (highest_qc t)) = 0"
proof -
  have inv: "hs2_inv c s" using assms(2) hs2_inv_new[OF assms(1)] by (rule trace_inv)
  from assms(3) have "certified c (validator_set s) (validator_pubkeys s) (highest_qc t) \<and> vphase (qc_data (highest_qc t)) = 0"
  proof (cases rule: on_vote_cases)
    case (counted s1)
    note s1 = counted_state_inv[OF inv counted(1-3)]
    from counted(4) show ?thesis
    proof (cases rule: count_vote_cases)
      case (formed acc q evs')
      have "certified c (validator_set s1) (validator_pubkeys s1) q"
        using accum_qc_certified[OF hs2_invD(2)[OF s1(1) formed(1)] hs2_invD(6)[OF s1(1)] s1(2) formed(2)] .
      moreover have "highest_qc t = q" using formed(3) assms(4) s1(3) by (auto simp: after_qc_def split: if_splits)
      moreover have "vphase (qc_data q) = 0"
      proof -
        have "vote_accum s = Some acc" using formed(1) counted(3) by auto
        then have "vphase (acc_data acc) = 0" using trace_committee[OF assms(2,1)] by (simp add: prepare_accum_def)
        then show ?thesis using add_vote_qc[OF _ formed(2)] hs2_invD(2)[OF s1(1) formed(1)] by (simp add: accum_ok_def)
      qed
      ultimately show ?thesis using s1(5,6) by simp
    qed (use assms(4) s1(3) in simp_all)
  qed (use assms(4) in simp_all)
  then show "certified c (validator_set s) (validator_pubkeys s) (highest_qc t)" "vphase (qc_data (highest_qc t)) = 0" by blast+
qed

text \<open>
  C7: every certificate the engine forms from votes is certified. On a reachable state, if a
  vote changes the highest certificate, the new one carries a quorum of distinct committee
  members whose signatures verify under their registered keys; forged, foreign and repeated
  votes do not count.
\<close>

theorem formed_qc_certified:
  assumes "hotstuff2_new qc validator validators = Ok s0" "hs2_trace c bhash s0 evs s"
    and "on_vote c s v pk now = (x, t)" "highest_qc t \<noteq> highest_qc s"
  shows "certified c (validator_set s) (validator_pubkeys s) (highest_qc t)"
  using vote_forms_certified(1)[OF assms] .

text \<open>
  C5: accountable safety of the HotStuff-2 engine. If two nodes of one committee form certificates for different blocks of
  one round from the votes they receive, more than a third of the committee have signed two different votes for one round and
  phase, under any key registry that extends those of the two nodes.
\<close>

theorem hotstuff2_conflict_exposes_third:
  assumes "distinct vs" "hotstuff2_new qc a vs = Ok s0" "hs2_trace c bhash s0 evs s"
    and "on_vote c s v pk now = (x, t)" "highest_qc t \<noteq> highest_qc s"
    and "hotstuff2_new qc' a' vs = Ok s0'" "hs2_trace c bhash' s0' evs' s'"
    and "on_vote c s' v' pk' now' = (x', t')" "highest_qc t' \<noteq> highest_qc s'"
    and "qc_round (highest_qc t) = qc_round (highest_qc t')"
    and "block_hash (qc_data (highest_qc t)) \<noteq> block_hash (qc_data (highest_qc t'))"
    and "validator_pubkeys s \<subseteq>\<^sub>m registry" "validator_pubkeys s' \<subseteq>\<^sub>m registry"
  shows "length vs div 3 < card {a \<in> set vs. \<exists>d d'. d \<noteq> d' \<and> block_number d = block_number d' \<and> vphase d = vphase d'
    \<and> signed_by c registry d a \<and> signed_by c registry d' a}"
proof -
  let ?q = "highest_qc t" and ?q' = "highest_qc t'"
  let ?both = "{a \<in> set vs. signed_by c registry (qc_data ?q) a \<and> signed_by c registry (qc_data ?q') a}"
  let ?double = "{a \<in> set vs. \<exists>d d'. d \<noteq> d' \<and> block_number d = block_number d' \<and> vphase d = vphase d'
    \<and> signed_by c registry d a \<and> signed_by c registry d' a}"
  note q = vote_forms_certified[OF assms(2-5)] and q' = vote_forms_certified[OF assms(6-9)]
  have "certified c vs registry ?q" "certified c vs registry ?q'"
    using certified_registry_grows[OF q(1) assms(12)] certified_registry_grows[OF q'(1) assms(13)]
      trace_committee[OF assms(3,2)] trace_committee[OF assms(7,6)] by simp_all
  then have "length vs div 3 < card ?both" by (rule certified_overlap[OF assms(1)])
  moreover have "?both \<subseteq> ?double"
  proof
    fix a
    assume "a \<in> ?both"
    moreover have "qc_data ?q \<noteq> qc_data ?q'" "block_number (qc_data ?q) = block_number (qc_data ?q')" using assms(10,11) by auto
    moreover have "vphase (qc_data ?q) = vphase (qc_data ?q')" using q(2) q'(2) by simp
    ultimately show "a \<in> ?double" by (intro CollectI conjI exI[of _ "qc_data ?q"] exI[of _ "qc_data ?q'"]) simp_all
  qed
  then have "card ?both \<le> card ?double" by (intro card_mono) simp_all
  ultimately show ?thesis by linarith
qed

text \<open>
  The committee of the sample engine with registered keys, one of whose members' votes complete
  a certificate.
\<close>

definition sample_vote :: "h256 \<Rightarrow> address \<Rightarrow> vote" where
  "sample_vote h a = \<lparr>vdata = \<lparr>block_hash = h, block_number = 1, vphase = 0, epoch = 0\<rparr>, voter = a, vsignature = []\<rparr>"

definition sample_inputs :: "h256 \<Rightarrow> h256 hs2_in list" where
  "sample_inputs h = [In_Register 1 [1], In_Register 2 [2], In_Register 3 [3], In_Proposal h genesis_qc 0,
     In_Vote (sample_vote h 1) [1] 0, In_Vote (sample_vote h 2) [2] 0]"

primrec run_trace :: "crypto \<Rightarrow> ('b \<Rightarrow> h256) \<Rightarrow> 'b hs2_event list \<times> hotstuff2 \<Rightarrow> 'b hs2_in list \<Rightarrow> 'b hs2_event list \<times> hotstuff2" where
  "run_trace c bhash w [] = w"
| "run_trace c bhash w (i # is) = run_trace c bhash (fst w @ fst (hs2_handle c bhash (snd w) i), snd (hs2_handle c bhash (snd w) i)) is"

primrec inputs_ok :: "crypto \<Rightarrow> ('b \<Rightarrow> h256) \<Rightarrow> hotstuff2 \<Rightarrow> 'b hs2_in list \<Rightarrow> bool" where
  "inputs_ok c bhash s [] = True"
| "inputs_ok c bhash s (i # is) \<longleftrightarrow> input_ok s i \<and> inputs_ok c bhash (snd (hs2_handle c bhash s i)) is"

lemma run_trace_reaches:
  "hs2_trace c bhash s0 (fst w) (snd w) \<Longrightarrow> inputs_ok c bhash (snd w) is \<Longrightarrow>
   hs2_trace c bhash s0 (fst (run_trace c bhash w is)) (snd (run_trace c bhash w is))"
proof (induction "is" arbitrary: w)
  case (Cons i "is")
  then show ?case by (auto intro!: Cons.IH hs2_trace.step)
qed simp

lemmas hs2_eval = sample_engine_def sample_inputs_def sample_vote_def on_proposal_def on_vote_def add_vote_def
  register_validator_pubkey_def vote_accumulator_new_def genesis_qc_def wrap_add_def outputs_def no_crypto_def
  form_qc_def on_quorum_reached_def timer_start_def adaptive_timer_new_def is_leader_def leader_index_def
  tc_accumulator_new_def Let_def

definition sample_state :: "h256 \<Rightarrow> hotstuff2" where
  "sample_state h = snd (run_trace no_crypto id ([], sample_engine) (sample_inputs h))"

lemma sample_state_trace:
  "hs2_trace no_crypto id sample_engine (fst (run_trace no_crypto id ([], sample_engine) (sample_inputs h))) (sample_state h)"
  unfolding sample_state_def
  by (rule run_trace_reaches) (simp_all add: hs2_trace.start, simp add: hs2_eval)

abbreviation completed :: "h256 \<Rightarrow> (consensus_error, h256 hs2_event list) res \<times> hotstuff2" where
  "completed h \<equiv> on_vote no_crypto (sample_state h) (sample_vote h 3) [3] 0"

lemma sample_state_forms:
  "qc_round (highest_qc (snd (completed h))) = 1 \<and> block_hash (qc_data (highest_qc (snd (completed h)))) = h
    \<and> qc_round (highest_qc (sample_state h)) = 0"
  by (simp add: sample_state_def hs2_eval)

lemma sample_state_keys: "validator_pubkeys (sample_state h) = [1 \<mapsto> [1], 2 \<mapsto> [2], 3 \<mapsto> [3]]"
  by (simp add: sample_state_def hs2_eval)

theorem formed_qc_certified_witness:
  "certified no_crypto (validator_set (sample_state 7)) (validator_pubkeys (sample_state 7)) (highest_qc (snd (completed 7)))"
proof -
  have "highest_qc (snd (completed 7)) \<noteq> highest_qc (sample_state 7)" using sample_state_forms[of 7] by (metis zero_neq_one)
  then show ?thesis
    by (intro formed_qc_certified[OF sample_engine_new sample_state_trace, of 7 "sample_vote 7 3" "[3]" 0 "fst (completed 7)"]) simp_all
qed

theorem hotstuff2_conflict_exposes_third_witness:
  "length [1, 2, 3, 4 :: address] div 3 < card {a \<in> set [1, 2, 3, 4]. \<exists>d d'. d \<noteq> d' \<and> block_number d = block_number d'
     \<and> vphase d = vphase d' \<and> signed_by no_crypto [1 \<mapsto> [1], 2 \<mapsto> [2], 3 \<mapsto> [3]] d a
     \<and> signed_by no_crypto [1 \<mapsto> [1], 2 \<mapsto> [2], 3 \<mapsto> [3]] d' a}"
proof (rule hotstuff2_conflict_exposes_third[OF _ sample_engine_new sample_state_trace _ _ sample_engine_new sample_state_trace])
  show "on_vote no_crypto (sample_state 7) (sample_vote 7 3) [3] 0 = (fst (completed 7), snd (completed 7))"
    "on_vote no_crypto (sample_state 8) (sample_vote 8 3) [3] 0 = (fst (completed 8), snd (completed 8))" by simp_all
  show "highest_qc (snd (completed 7)) \<noteq> highest_qc (sample_state 7)" "highest_qc (snd (completed 8)) \<noteq> highest_qc (sample_state 8)"
    using sample_state_forms[of 7] sample_state_forms[of 8] by (metis zero_neq_one)+
  show "qc_round (highest_qc (snd (completed 7))) = qc_round (highest_qc (snd (completed 8)))"
    "block_hash (qc_data (highest_qc (snd (completed 7)))) \<noteq> block_hash (qc_data (highest_qc (snd (completed 8))))"
    using sample_state_forms[of 7] sample_state_forms[of 8] by simp_all
qed (simp_all add: sample_state_keys)

text \<open>
  an equivocation report can always be proved. On a reachable state, when \<open>on_vote\<close>
  reports that a validator signed two blocks in one round and phase, the evidence built from the
  stored vote and the new one verifies: both votes are by the accused, for different blocks of
  that round and phase, with valid signatures. An honest validator is never accused.
\<close>

theorem equivocation_report_has_evidence:
  assumes "hotstuff2_new qc validator validators = Ok s0" "hs2_trace c bhash s0 evs s"
    and "on_vote c s v pk now = (Err (RemoteEquivocation a r ph h1 h2), t)"
  shows "\<exists>ev. build_remote_equivocation_evidence c s a r ph v pk = Some ev \<and> evidence_verify c ev
    \<and> block_hash (vdata (vote_a ev)) = h1 \<and> block_hash (vdata (vote_b ev)) = h2 \<and> validator_pubkeys s a = Some pk"
proof -
  have inv: "hs2_inv c s" using assms(2) hs2_inv_new[OF assms(1)] by (rule trace_inv)
  from assms(3) show ?thesis
  proof (cases rule: on_vote_cases)
    case (equivocation h u pk')
    have u: "voter u = voter v" "block_number (vdata u) = block_number (vdata v)" "vphase (vdata u) = vphase (vdata v)"
      "block_hash (vdata u) = h" "known_voter s (voter v) pk'" "verify_single c (vsignature u) pk' (vote_hash c (vdata u))"
      using hs2_invD(3)[OF inv] equivocation(3) unfolding seen_ok_def by blast+
    have pk: "pk' = pk" using u(5) equivocation(1) by (simp add: known_voter_def)
    have e: "a = voter v" "r = block_number (vdata v)" "ph = vphase (vdata v)" "h1 = h" "h2 = block_hash (vdata v)"
      using equivocation(6) u by simp_all
    have "evidence_verify c \<lparr>ev_validator = a, ev_round = r, ev_phase = ph, vote_a = u, vote_b = v, ev_pubkey = pk\<rparr>"
      using u equivocation(2,4) pk e by (simp add: evidence_verify_def)
    then show ?thesis using equivocation(1,3) e u(4)
      by (simp add: build_remote_equivocation_evidence_def known_voter_def)
  next
    case (counted s1)
    from counted(4) show ?thesis by (cases rule: count_vote_cases) simp_all
  qed simp
qed

theorem equivocation_report_has_evidence_witness:
  "\<exists>ev. build_remote_equivocation_evidence no_crypto (sample_state 7) 2 1 0 (sample_vote 8 2) [2] = Some ev
     \<and> evidence_verify no_crypto ev"
proof -
  let ?r = "on_vote no_crypto (sample_state 7) (sample_vote 8 2) [2] 0 :: (consensus_error, h256 hs2_event list) res \<times> hotstuff2"
  have "fst ?r = Err (RemoteEquivocation 2 1 0 7 8)" by (simp add: sample_state_def hs2_eval)
  then have "?r = (Err (RemoteEquivocation 2 1 0 7 8), snd ?r)" by (metis prod.collapse)
  from equivocation_report_has_evidence[OF sample_engine_new sample_state_trace this] show ?thesis by blast
qed

lemma build_tc_sound:
  assumes "tc_acc_ok c acc" "quorum \<le> length (shares acc)" "build_tc c acc = Some tc"
  shows "tc_verify c tc quorum \<and> distinct (tc_signers tc) \<and> quorum \<le> length (tc_signers tc)"
proof -
  have tc: "tc_signer_count tc = length (shares acc)" "signer_hashes tc = map (\<lambda>(_, s, _). share_hash c s) (shares acc)"
    "tc_signer_pubkeys tc = map (\<lambda>(_, _, pk). pk) (shares acc)" "tc_signers tc = map fst (shares acc)"
    "signer_signatures tc = map (\<lambda>(_, s, _). ts_signature s) (shares acc)"
    using assms(3) by (auto simp: build_tc_def Let_def split: option.splits)
  have "list_all (\<lambda>((sig, pk), msg). verify_single c sig pk msg)
      (zip (zip (signer_signatures tc) (tc_signer_pubkeys tc)) (signer_hashes tc))"
    using assms(1) unfolding tc tc_acc_ok_def by (simp add: list_all_length split_beta)
  then show ?thesis using assms(1,2) by (simp add: tc_verify_def tc tc_acc_ok_def)
qed

text \<open>
  a view change rests on a quorum of verified timeouts. On a reachable state the certificate
  assembled from timeout shares always passes the engine's own verification, so the handler
  never fails, and a certificate it hands to the next leader has a quorum of distinct signers
  with verified signatures.
\<close>

theorem timeout_certificate_sound:
  assumes "hotstuff2_new qc validator validators = Ok s0" "hs2_trace c bhash s0 evs s"
    and "on_timeout_share c s share pk = (x, t)"
  shows "\<exists>out. x = Ok out \<and> (\<forall>r tc. NewLeaderPropose r tc \<in> set out \<longrightarrow>
     tc_verify c tc (committee_quorum (length (validator_set s))) \<and> distinct (tc_signers tc)
     \<and> committee_quorum (length (validator_set s)) \<le> length (tc_signers tc))"
proof -
  have inv: "hs2_inv c s" using assms(2) hs2_inv_new[OF assms(1)] by (rule trace_inv)
  obtain r acc where ra: "add_share c (tc_accum s) share pk = (r, acc)" by fastforce
  have acc: "tc_acc_ok c acc" "tc_quorum acc = hquorum s"
    using add_share_ok[OF hs2_invD(4)[OF inv], of share pk] hs2_invD(5)[OF inv] ra by simp_all
  have sound: "tc_verify c tc (hquorum s) \<and> distinct (tc_signers tc) \<and> hquorum s \<le> length (tc_signers tc)"
    if "r = Some tc" for tc
  proof (rule build_tc_sound[OF acc(1)])
    show "build_tc c acc = Some tc" "hquorum s \<le> length (shares acc)"
      using ra that acc(2) by (auto simp: add_share_def Let_def split: if_splits)
  qed
  then show ?thesis using assms(3) ra hs2_invD(6)[OF inv]
    by (auto simp: on_timeout_share_def Let_def split: option.splits if_splits)
qed

definition sample_share :: "address \<Rightarrow> u64 \<Rightarrow> timeout_share" where
  "sample_share a r = \<lparr>ts_round = r, ts_highest_qc_round = 0, ts_highest_qc_hash = None, ts_validator = a, ts_signature = []\<rparr>"

definition sample_timeouts :: "h256 hs2_in list" where
  "sample_timeouts = [In_Timeout (sample_share 2 1) [2], In_Timeout (sample_share 3 1) [3]]"

definition timeout_state :: hotstuff2 where
  "timeout_state = snd (run_trace no_crypto id ([], sample_engine) sample_timeouts)"

lemmas timeout_eval = sample_timeouts_def on_timeout_share_def add_share_def build_tc_def tc_verify_def
  sample_share_def hs2_eval

lemma be_bytes_zero: "be_bytes k 0 = replicate k 0"
  by (induction k) (simp_all add: replicate_append_same)

lemma zero_hash_prefix: "be_val (take 8 (h256_bytes 0)) = 0"
proof -
  have "take 8 (h256_bytes 0) = be_bytes 8 0" by (simp add: h256_bytes_def be_bytes_zero)
  then show ?thesis by (simp only: be_val_be_bytes mod_0)
qed

lemma timeout_state_trace:
  "hs2_trace no_crypto id sample_engine (fst (run_trace no_crypto id ([], sample_engine) sample_timeouts)) timeout_state"
  unfolding timeout_state_def
  by (rule run_trace_reaches) (simp_all add: hs2_trace.start, simp add: timeout_eval)

theorem timeout_certificate_sound_witness:
  "\<exists>tc. NewLeaderPropose 2 tc \<in> set (case fst (on_timeout_share no_crypto timeout_state (sample_share 4 1) [4] ::
        (consensus_error, h256 hs2_event list) res \<times> hotstuff2) of Ok out \<Rightarrow> out | _ \<Rightarrow> [])
     \<and> tc_verify no_crypto tc 3 \<and> 3 \<le> length (tc_signers tc)"
proof -
  let ?r = "on_timeout_share no_crypto timeout_state (sample_share 4 1) [4] ::
        (consensus_error, h256 hs2_event list) res \<times> hotstuff2"
  have q: "committee_quorum (length (validator_set timeout_state)) = 3"
    by (simp add: timeout_state_def timeout_eval committee_quorum_def)
  have "\<exists>tc. NewLeaderPropose 2 tc \<in> set (case fst ?r of Ok out \<Rightarrow> out | _ \<Rightarrow> [])"
    by (simp add: timeout_state_def timeout_eval zero_hash_prefix)
  moreover have "?r = (fst ?r, snd ?r)" by simp
  from timeout_certificate_sound[OF sample_engine_new timeout_state_trace this]
  obtain out where "fst ?r = Ok out" "\<forall>r tc. NewLeaderPropose r tc \<in> set out \<longrightarrow>
      tc_verify no_crypto tc 3 \<and> distinct (tc_signers tc) \<and> 3 \<le> length (tc_signers tc)"
    unfolding q by blast
  ultimately show ?thesis by auto
qed

section \<open>Where the engine does not do what it means to\<close>

text \<open>
  Timeout shares are not restricted to the committee nor to one round: three strangers with
  shares for three different rounds move the engine to a new view.
\<close>

lemma strangers_force_view_change:
  "hphase (foldl (hs2_step no_crypto id) sample_engine
     [In_Timeout (sample_share 11 5) [], In_Timeout (sample_share 12 9) [], In_Timeout (sample_share 13 100) []])
   = WaitingProposal 6"
  by (simp add: hs2_step_def on_timeout_share_def add_share_def build_tc_def tc_verify_def sample_share_def hs2_eval)

text \<open>
  The certificate of a proposal is not verified: one without a single signer, for any round,
  becomes the highest certificate, after which every honest proposal is stale. (\<open>qc_verify\<close>
  accepts it too, since it has no keys to check.)
\<close>

lemma forged_justify_accepted:
  "(let q = genesis_qc\<lparr>qc_data := \<lparr>block_hash = 5, block_number = 1000, vphase = 0, epoch = 0\<rparr>\<rparr>;
        s = hs2_step no_crypto id sample_engine (In_Proposal 7 q 0)
    in highest_qc s = q \<and> qc_verify no_crypto q
       \<and> fst (on_proposal id s 8 genesis_qc 0) = Err (StaleProposal 1 1000))"
  by (simp add: hs2_step_def qc_verify_def hs2_eval)

text \<open>
  A replica that learns certificates from proposals never commits: when the certificate of round
  r + 1 arrives, \<open>prev_qc\<close> still is the one of round r - 1.
\<close>

definition chain_qc :: "u64 \<Rightarrow> quorum_certificate" where
  "chain_qc r = genesis_qc\<lparr>qc_data := \<lparr>block_hash = of_nat r, block_number = r, vphase = 0, epoch = 0\<rparr>\<rparr>"

lemma follower_does_not_commit:
  "(let (evs, s) = run_trace no_crypto id ([], sample_engine)
        [In_Proposal 1 (chain_qc 0) 0, In_Proposal 2 (chain_qc 1) 0, In_Proposal 3 (chain_qc 2) 0, In_Proposal 4 (chain_qc 3) 0]
    in map vote_request evs = map (\<lambda>r. Some \<lparr>block_hash = of_nat r, block_number = r, vphase = 0, epoch = 0\<rparr>) [1, 2, 3, 4])"
  by (simp add: chain_qc_def hs2_eval)

text \<open>
  When the commit rule does fire, it commits the block that was just proposed, whose round has
  no certificate, instead of the block the certificates are for: here block 9 is committed on a
  certificate for block 7.
\<close>

lemma commits_uncertified_block:
  "(let s = snd (on_vote no_crypto (sample_state 7) (sample_vote 7 3) [3] 0 :: (consensus_error, h256 hs2_event list) res \<times> hotstuff2)
    in \<exists>q rest. fst (on_proposal id s 9 (highest_qc s) 0) = Ok (Committed 9 q # rest) \<and> block_hash (qc_data q) = 7)"
  by (simp add: sample_state_def hs2_eval)

end
