(* ===== verification/Rlp.thy ===== *)
theory Rlp
  imports Prelude
begin

text \<open>
  Recursive-length prefix encoding, \<open>zbx-rlp\<close>: the stream encoder of \<open>encode.rs\<close> with its
  nine-byte list placeholders and their patching, the helpers of \<open>stream.rs\<close>, and the zero-copy
  decoder of \<open>decode.rs\<close>. Slicing is \<open>slice\<close>, which panics out of range, so that
  "the decoder never panics" is a statement about the model. \<open>usize\<close> is 64 bits wide.
\<close>

section \<open>Encoder (encode.rs, stream.rs)\<close>

record rlp_stream =
  buf :: "byte list"
  list_stack :: "usize list" \<comment> \<open>the open lists, innermost first\<close>

definition rlp_new :: rlp_stream where
  "rlp_new = \<lparr>buf = [], list_stack = []\<rparr>"

definition begin_list :: "rlp_stream \<Rightarrow> usize \<Rightarrow> rlp_stream" where
  "begin_list s n = s\<lparr>list_stack := length (buf s) # list_stack s, buf := buf s @ replicate 9 0\<rparr>"

definition new_list :: "usize \<Rightarrow> rlp_stream" where
  "new_list n = begin_list rlp_new n"

definition minimal_bytes :: "u64 \<Rightarrow> byte list" where
  "minimal_bytes n = dropWhile (\<lambda>b. b = 0) (be_bytes 8 n)"

definition encode_string :: "rlp_stream \<Rightarrow> byte list \<Rightarrow> rlp_stream" where
  "encode_string s data =
     (let n = length data in
      if n = 0 then s\<lparr>buf := buf s @ [0x80]\<rparr>
      else if n = 1 \<and> data ! 0 < 0x80 then s\<lparr>buf := buf s @ [data ! 0]\<rparr>
      else if n \<le> 55 then s\<lparr>buf := buf s @ [0x80 + of_nat n] @ data\<rparr>
      else (let len_bytes = minimal_bytes (cast 64 n)
            in s\<lparr>buf := buf s @ [0xb7 + of_nat (length len_bytes)] @ len_bytes @ data\<rparr>))"

definition append_item :: "rlp_stream \<Rightarrow> byte list \<Rightarrow> rlp_stream" where
  "append_item s data = encode_string s data"

definition append_raw :: "rlp_stream \<Rightarrow> byte list \<Rightarrow> rlp_stream" where
  "append_raw s data = s\<lparr>buf := buf s @ data\<rparr>"

definition list_prefix :: "usize \<Rightarrow> byte list" where
  "list_prefix content_len =
     (if content_len \<le> 55 then [0xc0 + of_nat content_len]
      else (let len_bytes = minimal_bytes (cast 64 content_len)
            in (0xf7 + of_nat (length len_bytes)) # len_bytes))"

definition finalize_unbounded_list :: "rlp_stream \<Rightarrow> ('e, rlp_stream) res" where
  "finalize_unbounded_list s =
     (case list_stack s of
        [] \<Rightarrow> Panic
      | start # rest \<Rightarrow>
         (let content_start = start + 9;
              content_len = length (buf s) - content_start;
              prefix = list_prefix content_len;
              shift = int (length prefix) - 9
          in if shift = 0
             then Ok (s\<lparr>list_stack := rest,
                        buf := take start (buf s) @ prefix @ drop (start + length prefix) (buf s)\<rparr>)
             else Ok (s\<lparr>list_stack := rest,
                        buf := take start (buf s) @ prefix @ drop content_start (buf s)\<rparr>)))"

function rlp_out :: "rlp_stream \<Rightarrow> ('e, byte list) res" where
  "rlp_out s =
     (if list_stack s = [] then Ok (buf s)
      else case finalize_unbounded_list s of
        Ok s' \<Rightarrow> rlp_out s'
      | Err e \<Rightarrow> Err e
      | Panic \<Rightarrow> Panic)"
  by pat_completeness auto
termination
  by (relation "measure (\<lambda>s. length (list_stack s))")
     (auto simp: finalize_unbounded_list_def Let_def split: list.splits if_splits)

declare rlp_out.simps [simp del]

definition encode_u8 :: "rlp_stream \<Rightarrow> byte \<Rightarrow> rlp_stream" where
  "encode_u8 s b = encode_string s [b]"

definition encode_u64 :: "rlp_stream \<Rightarrow> u64 \<Rightarrow> rlp_stream" where
  "encode_u64 s n =
     (if n = 0 then s\<lparr>buf := buf s @ [0x80]\<rparr> else encode_string s (minimal_bytes n))"

definition encode_u128 :: "rlp_stream \<Rightarrow> u128 \<Rightarrow> rlp_stream" where
  "encode_u128 s n =
     (if n = 0 then s\<lparr>buf := buf s @ [0x80]\<rparr>
      else encode_string s (dropWhile (\<lambda>b. b = 0) (be_bytes 16 n)))"

definition encode_list :: "byte list list \<Rightarrow> ('e, byte list) res" where
  "encode_list items = rlp_out (foldl append_item (new_list (length items)) items)"

definition encode_u256 :: "byte list \<Rightarrow> ('e, byte list) res" where
  "encode_u256 value = rlp_out (append_item rlp_new (dropWhile (\<lambda>b. b = 0) value))"

definition encode_h256 :: "byte list \<Rightarrow> ('e, byte list) res" where
  "encode_h256 hash = rlp_out (append_item rlp_new hash)"

definition encode_address :: "byte list \<Rightarrow> ('e, byte list) res" where
  "encode_address addr = rlp_out (append_item rlp_new addr)"

section \<open>Decoder (decode.rs)\<close>

datatype rlp_error =
    UnexpectedEnd usize
  | InvalidLeadingByte byte
  | NonCanonical
  | LengthMismatch usize usize
  | ItemCountMismatch
  | RlpOverflow
  | ExpectedString
  | ExpectedList
  | Custom string

definition is_data :: "byte list \<Rightarrow> bool" where
  "is_data data = (case data of [] \<Rightarrow> False | b # _ \<Rightarrow> b < 0xc0)"

definition is_list :: "byte list \<Rightarrow> bool" where
  "is_list data = (case data of [] \<Rightarrow> False | b # _ \<Rightarrow> b \<ge> 0xc0)"

text \<open>\<open>checked_shl(8)\<close> fails only for a shift of 64 or more: it drops the high byte here.\<close>

definition decode_length :: "byte list \<Rightarrow> (rlp_error, usize) res" where
  "decode_length bytes =
     (case bytes of
        [] \<Rightarrow> Err (UnexpectedEnd 0)
      | b # _ \<Rightarrow>
         if b = 0 then Err RlpOverflow
         else Ok (foldl (\<lambda>val b. or (cast 64 (push_bit 8 val)) (unat b)) 0 bytes))"

definition checked_end :: "usize \<Rightarrow> usize \<Rightarrow> (rlp_error, usize) res" where
  "checked_end len_bytes len =
     ok_or (Option.bind (checked_add 64 1 len_bytes) (\<lambda>x. checked_add 64 x len)) RlpOverflow"

definition item_length :: "byte list \<Rightarrow> usize \<Rightarrow> (rlp_error, usize) res" where
  "item_length data pos =
     (if pos \<ge> length data then Err (UnexpectedEnd pos)
      else
       (let b = unat (data ! pos);
            long = (\<lambda>len_bytes.
              if pos + 1 + len_bytes > length data then Err (UnexpectedEnd (pos + 1 + len_bytes))
              else bind_res (slice data (pos + 1) (pos + 1 + len_bytes)) (\<lambda>bs.
                   bind_res (decode_length bs) (\<lambda>len. checked_end len_bytes len)))
        in bind_res
            (if b < 0x80 then Ok 1
             else if b < 0xb8 then Ok (1 + (b - 0x80))
             else if b < 0xc0 then long (b - 0xb7)
             else if b < 0xf8 then Ok (1 + (b - 0xc0))
             else long (b - 0xf7))
            (\<lambda>item_len.
             bind_res (ok_or (checked_add 64 pos item_len) RlpOverflow) (\<lambda>end.
             if end > length data then Err (UnexpectedEnd end) else Ok item_len))))"

definition split_payload :: "byte list \<Rightarrow> (rlp_error, byte list \<times> byte list) res" where
  "split_payload data =
     (case data of
        [] \<Rightarrow> Err (UnexpectedEnd 0)
      | b0 # _ \<Rightarrow>
         (let b = unat b0;
              cut = (\<lambda>i j. bind_res (slice data i j) (\<lambda>x.
                           bind_res (slice data j (length data)) (\<lambda>y. Ok (x, y)))) in
          if b < 0x80 then cut 0 1
          else if b < 0xb8 then
            (let len = b - 0x80 in
             if 1 + len > length data then Err (UnexpectedEnd (1 + len)) else cut 1 (1 + len))
          else if b < 0xc0 then
            (let len_bytes = b - 0xb7 in
             if 1 + len_bytes > length data then Err (UnexpectedEnd (1 + len_bytes))
             else bind_res (slice data 1 (1 + len_bytes)) (\<lambda>bs.
                  bind_res (decode_length bs) (\<lambda>len.
                  bind_res (checked_end len_bytes len) (\<lambda>end.
                  if end > length data then Err (UnexpectedEnd end)
                  else cut (1 + len_bytes) end))))
          else Err ExpectedString))"

definition list_payload :: "byte list \<Rightarrow> (rlp_error, byte list \<times> byte list) res" where
  "list_payload data =
     (case data of
        [] \<Rightarrow> Ok ([], [])
      | b0 # _ \<Rightarrow>
         (let b = unat b0;
              cut = (\<lambda>i j. bind_res (slice data i j) (\<lambda>x.
                           bind_res (slice data j (length data)) (\<lambda>y. Ok (x, y)))) in
          if b < 0xc0 then Err ExpectedList
          else if b < 0xf8 then
            (let len = b - 0xc0 in
             if 1 + len > length data then Err (UnexpectedEnd (1 + len)) else cut 1 (1 + len))
          else
            (let len_bytes = b - 0xf7 in
             if 1 + len_bytes > length data then Err (UnexpectedEnd (1 + len_bytes))
             else bind_res (slice data 1 (1 + len_bytes)) (\<lambda>bs.
                  bind_res (decode_length bs) (\<lambda>len.
                  bind_res (checked_end len_bytes len) (\<lambda>end.
                  if end > length data then Err (UnexpectedEnd end)
                  else cut (1 + len_bytes) end))))))"

definition as_bytes :: "byte list \<Rightarrow> (rlp_error, byte list) res" where
  "as_bytes data = bind_res (split_payload data) (\<lambda>(payload, _). Ok payload)"

lemma item_length_bounds:
  "item_length data pos = Ok l \<Longrightarrow> 1 \<le> l \<and> pos + l \<le> length data"
  by (auto simp: item_length_def checked_end_def Let_def bind_eq_Some_conv split: if_splits)

function count_loop :: "byte list \<Rightarrow> usize \<Rightarrow> usize \<Rightarrow> (rlp_error, usize) res" where
  "count_loop list_bytes pos count =
     (if pos < length list_bytes then
        (case item_length list_bytes pos of
           Ok item_len \<Rightarrow> count_loop list_bytes (pos + item_len) (count + 1)
         | Err e \<Rightarrow> Err e
         | Panic \<Rightarrow> Panic)
      else Ok count)"
  by pat_completeness auto
termination
  by (relation "measure (\<lambda>(bs, pos, c). length bs - pos)") (auto dest!: item_length_bounds)

definition item_count :: "byte list \<Rightarrow> (rlp_error, usize) res" where
  "item_count data =
     (case data of
        [] \<Rightarrow> Ok 0
      | b # _ \<Rightarrow>
         if b < 0xc0 then Ok 0
         else bind_res (list_payload data) (\<lambda>(list_bytes, _). count_loop list_bytes 0 0))"

function at_loop :: "byte list \<Rightarrow> usize \<Rightarrow> usize \<Rightarrow> usize \<Rightarrow> (rlp_error, byte list) res" where
  "at_loop list_bytes n pos idx =
     (if pos < length list_bytes then
        (case item_length list_bytes pos of
           Ok item_len \<Rightarrow>
             if idx = n then slice list_bytes pos (pos + item_len)
             else at_loop list_bytes n (pos + item_len) (idx + 1)
         | Err e \<Rightarrow> Err e
         | Panic \<Rightarrow> Panic)
      else Err ItemCountMismatch)"
  by pat_completeness auto
termination
  by (relation "measure (\<lambda>(bs, n, pos, c). length bs - pos)") (auto dest!: item_length_bounds)

declare count_loop.simps [simp del] at_loop.simps [simp del]

definition item_at :: "byte list \<Rightarrow> usize \<Rightarrow> (rlp_error, byte list) res" where
  "item_at data n = bind_res (list_payload data) (\<lambda>(list_bytes, _). at_loop list_bytes n 0 0)"

definition val_at :: "byte list \<Rightarrow> usize \<Rightarrow> (rlp_error, byte list) res" where
  "val_at data idx = bind_res (item_at data idx) as_bytes"

definition decode_u64 :: "byte list \<Rightarrow> (rlp_error, u64) res" where
  "decode_u64 data =
     bind_res (as_bytes data) (\<lambda>bytes.
     if length bytes > 8 then Err RlpOverflow
     else Ok (foldl (\<lambda>val b. or (cast 64 (push_bit 8 val)) (unat b)) 0 bytes))"


section \<open>Lengths\<close>

lemma or_shift8:
  assumes "v < 2 ^ 56"
  shows "or (cast 64 (push_bit 8 v)) (unat (b::byte)) = v * 256 + unat b"
proof -
  have "cast 64 (push_bit 8 v) = push_bit 8 v"
    using assms by (intro cast_exact) (simp add: push_bit_eq_mult)
  then show ?thesis
    using or_push_bit_add[of "unat b" 8 v] by (simp add: or.commute[of "push_bit 8 v"])
qed

lemma fold_shift8: "length bs \<le> 8 \<Longrightarrow>
  foldl (\<lambda>val b. or (cast 64 (push_bit 8 val)) (unat b)) 0 bs = be_val bs"
proof (induction bs rule: rev_induct)
  case (snoc b bs)
  have "be_val bs < 256 ^ length bs" by (rule be_val_less)
  also have "\<dots> \<le> 256 ^ 7" using snoc.prems by (intro power_increasing) auto
  finally have "be_val bs < 2 ^ 56" by simp
  with snoc show ?case by (simp add: or_shift8)
qed simp

lemma minimal_bytes_facts:
  assumes "0 < n" "n < 2 ^ 64"
  shows "be_val (minimal_bytes n) = n" "length (minimal_bytes n) \<le> 8"
    "minimal_bytes n \<noteq> []" "hd (minimal_bytes n) \<noteq> 0"
proof -
  show v: "be_val (minimal_bytes n) = n"
    using assms(2) by (simp add: minimal_bytes_def be_val_dropWhile be_val_be_bytes)
  show "length (minimal_bytes n) \<le> 8"
    using length_dropWhile_le[of "\<lambda>b. b = 0" "be_bytes 8 n"] by (simp only: minimal_bytes_def length_be_bytes)
  show ne: "minimal_bytes n \<noteq> []" using v assms(1) by auto
  then show "hd (minimal_bytes n) \<noteq> 0"
    unfolding minimal_bytes_def using hd_dropWhile by blast
qed

lemma decode_length_minimal:
  assumes "0 < n" "n < 2 ^ 64"
  shows "decode_length (minimal_bytes n) = Ok n"
proof -
  note f = minimal_bytes_facts[OF assms]
  then obtain b bs where b: "minimal_bytes n = b # bs" "b \<noteq> 0" by (cases "minimal_bytes n") auto
  show ?thesis
    using fold_shift8[OF f(2)] f(1) b unfolding decode_length_def b(1) by simp
qed

lemma unat_hdr: "unat (of_nat (c + n) :: byte) = c + n" if "c + n < 256" for c n
  using that by (simp add: unat_of_nat_byte del: of_nat_add)

lemma hdr_of_nat:
  "0x80 + of_nat n = (of_nat (0x80 + n) :: byte)" "0xb7 + of_nat n = (of_nat (0xb7 + n) :: byte)"
  "0xc0 + of_nat n = (of_nat (0xc0 + n) :: byte)" "0xf7 + of_nat n = (of_nat (0xf7 + n) :: byte)"
  by simp_all

section \<open>One item\<close>

definition rlp_str :: "byte list \<Rightarrow> byte list" where
  "rlp_str d = buf (encode_string rlp_new d)"

lemma encode_string_buf: "encode_string s d = s\<lparr>buf := buf s @ rlp_str d\<rparr>"
  by (simp add: rlp_str_def encode_string_def rlp_new_def Let_def)

text \<open>The three shapes of an encoded byte string.\<close>

lemma rlp_str_cases:
  assumes "length d < 2 ^ 64"
  obtains (single) b where "d = [b]" "unat b < 0x80" "rlp_str d = [b]"
  | (short) "length d \<le> 55" "rlp_str d = of_nat (0x80 + length d) # d"
  | (long) lb where "55 < length d" "lb = minimal_bytes (length d)" "length lb \<le> 8" "lb \<noteq> []"
      "rlp_str d = of_nat (0xb7 + length lb) # lb @ d" "decode_length lb = Ok (length d)"
proof -
  consider "length d = 0" | "length d = 1" "d ! 0 < 0x80"
    | "length d \<noteq> 0" "\<not> (length d = 1 \<and> d ! 0 < 0x80)" "length d \<le> 55" | "55 < length d"
    by linarith
  then show ?thesis
  proof cases
    case 1 then show ?thesis
      by (intro short) (simp_all add: rlp_str_def encode_string_def rlp_new_def)
  next
    case 2
    then obtain b where b: "d = [b]" by (auto simp: length_Suc_conv)
    have "unat b < unat (0x80 :: byte)" using 2 b by (simp add: word_less_nat_alt)
    then show ?thesis using 2 b
      by (intro single[of b]) (simp_all add: rlp_str_def encode_string_def rlp_new_def)
  next
    case 3
    then have "rlp_str d = of_nat (0x80 + length d) # d"
      by (simp add: rlp_str_def encode_string_def rlp_new_def Let_def)
    with 3 show ?thesis by (intro short)
  next
    case 4
    then have n: "0 < length d" by linarith
    have "rlp_str d = of_nat (0xb7 + length (minimal_bytes (length d))) # minimal_bytes (length d) @ d"
      using 4 n assms by (simp add: rlp_str_def encode_string_def rlp_new_def Let_def)
    then show ?thesis
      using 4 minimal_bytes_facts[OF n assms] decode_length_minimal[OF n assms]
      by (intro long[of "minimal_bytes (length d)"]) (simp_all del: length_greater_0_conv)
  qed
qed

lemma checked_end_Ok [simp]:
  "checked_end a b = Ok e \<longleftrightarrow> 1 + a + b < 2 ^ 64 \<and> e = 1 + a + b"
  by (auto simp: checked_end_def bind_eq_Some_conv)

lemma split_payload_str:
  assumes "length d + 9 < 2 ^ 64"
  shows "split_payload (rlp_str d @ rest) = Ok (d, rest)"
proof -
  have "length d < 2 ^ 64" using assms by simp
  then show ?thesis
  proof (cases d rule: rlp_str_cases)
    case (single b)
    then show ?thesis by (simp add: split_payload_def slice_exact)
  next
    case short
    then have "unat (of_nat (0x80 + length d) :: byte) = 0x80 + length d" by (intro unat_hdr) simp
    then show ?thesis using short by (simp add: split_payload_def slice_exact del: of_nat_add)
  next
    case (long lb)
    have u: "unat (of_nat (0xb7 + length lb) :: byte) = 0xb7 + length lb"
      using long(3) by (intro unat_hdr) simp
    have "length lb \<noteq> 0" using long(4) by simp
    then show ?thesis using long(3,5,6) u assms
      by (simp add: split_payload_def slice_exact Let_def del: of_nat_add)
  qed
qed

lemma item_length_str:
  assumes "length p + length (rlp_str d) + length rest < 2 ^ 64"
  shows "item_length (p @ rlp_str d @ rest) (length p) = Ok (length (rlp_str d))"
proof -
  have "length d < 2 ^ 64"
  proof (rule ccontr)
    assume "\<not> length d < 2 ^ 64"
    moreover from this have "length d \<le> length (rlp_str d)"
      by (simp add: rlp_str_def encode_string_def rlp_new_def Let_def)
    ultimately show False using assms by simp
  qed
  then show ?thesis
  proof (cases d rule: rlp_str_cases)
    case (single b)
    then show ?thesis using assms by (simp add: item_length_def nth_append checked_add_def)
  next
    case short
    then have "unat (of_nat (0x80 + length d) :: byte) = 0x80 + length d" by (intro unat_hdr) simp
    then show ?thesis using short assms
      by (simp add: item_length_def nth_append checked_add_def del: of_nat_add)
  next
    case (long lb)
    have u: "unat (of_nat (0xb7 + length lb) :: byte) = 0xb7 + length lb"
      using long(3) by (intro unat_hdr) simp
    have "length lb \<noteq> 0" using long(4) by simp
    then show ?thesis using long(3,5,6) u assms
      by (simp add: item_length_def nth_append slice_exact checked_add_def checked_end_def Let_def
          del: of_nat_add)
  qed
qed

section \<open>Lists of items\<close>

lemma foldl_append_item: "foldl append_item s items = s\<lparr>buf := buf s @ concat (map rlp_str items)\<rparr>"
  by (induction items arbitrary: s) (simp_all add: append_item_def encode_string_buf)

text \<open>Closing a list replaces its placeholder by the prefix, whatever was written before it.\<close>

lemma finalize_list:
  "finalize_unbounded_list (foldl append_item (begin_list s n) items) =
   Ok (s\<lparr>buf := buf s @ list_prefix (length (concat (map rlp_str items))) @ concat (map rlp_str items)\<rparr>)"
  by (simp add: foldl_append_item begin_list_def finalize_unbounded_list_def Let_def)

lemma encode_list_eq:
  "encode_list items = Ok (list_prefix (length (concat (map rlp_str items))) @ concat (map rlp_str items))"
proof -
  have "list_stack (foldl append_item (begin_list rlp_new (length items)) items) \<noteq> []"
    by (simp add: foldl_append_item begin_list_def)
  then show ?thesis
    unfolding encode_list_def new_list_def
    by (subst rlp_out.simps) (simp add: finalize_list rlp_out.simps rlp_new_def)
qed

lemma list_prefix_cases:
  assumes "n < 2 ^ 64"
  obtains (short) "n \<le> 55" "list_prefix n = [of_nat (0xc0 + n)]"
  | (long) lb where "55 < n" "length lb \<le> 8" "lb \<noteq> []"
      "list_prefix n = of_nat (0xf7 + length lb) # lb" "decode_length lb = Ok n"
proof (cases "n \<le> 55")
  case False
  then have n: "0 < n" by simp
  from False show ?thesis
    using minimal_bytes_facts[OF n assms] decode_length_minimal[OF n assms] assms
    by (intro long[of "minimal_bytes n"]) (simp_all add: list_prefix_def Let_def)
qed (simp add: list_prefix_def short)

lemma length_list_prefix: "n < 2 ^ 64 \<Longrightarrow> length (list_prefix n) \<le> 9 \<and> list_prefix n \<noteq> []"
  by (erule list_prefix_cases) auto

lemma list_payload_list:
  assumes "length c + 9 < 2 ^ 64"
  shows "list_payload (list_prefix (length c) @ c @ rest) = Ok (c, rest)"
proof -
  have "length c < 2 ^ 64" using assms by simp
  then show ?thesis
  proof (cases "length c" rule: list_prefix_cases)
    case short
    then have "unat (of_nat (0xc0 + length c) :: byte) = 0xc0 + length c" by (intro unat_hdr) simp
    then show ?thesis using short by (simp add: list_payload_def slice_exact del: of_nat_add)
  next
    case (long lb)
    have u: "unat (of_nat (0xf7 + length lb) :: byte) = 0xf7 + length lb"
      using long(2) by (intro unat_hdr) simp
    have "length lb \<noteq> 0" using long(3) by simp
    then show ?thesis using long(2,4,5) u assms
      by (simp add: list_payload_def slice_exact Let_def del: of_nat_add)
  qed
qed

lemma rlp_str_not_Nil [simp]: "rlp_str d \<noteq> []"
  by (simp add: rlp_str_def encode_string_def rlp_new_def Let_def)

text \<open>
  What the loops over a list payload need of an item: wherever it stands, its declared length is
  its length. Encoded strings and encoded lists both have it.
\<close>

definition rlp_item :: "byte list \<Rightarrow> bool" where
  "rlp_item x \<longleftrightarrow> x \<noteq> [] \<and> (\<forall>p rest. length p + length x + length rest < 2 ^ 64 \<longrightarrow>
     item_length (p @ x @ rest) (length p) = Ok (length x))"

lemma rlp_item_str: "rlp_item (rlp_str d)"
  using item_length_str by (simp add: rlp_item_def)

lemma rlp_item_list: "rlp_item (list_prefix (length c) @ c)"
  unfolding rlp_item_def
proof (intro conjI allI impI)
  have "list_prefix (length c) \<noteq> []" by (simp add: list_prefix_def Let_def)
  then show "list_prefix (length c) @ c \<noteq> []" by simp
next
  fix p rest :: "byte list"
  assume l: "length p + length (list_prefix (length c) @ c) + length rest < 2 ^ 64"
  then have "length c < 2 ^ 64" by simp
  then show "item_length (p @ (list_prefix (length c) @ c) @ rest) (length p) = Ok (length (list_prefix (length c) @ c))"
  proof (cases "length c" rule: list_prefix_cases)
    case short
    then have "unat (of_nat (0xc0 + length c) :: byte) = 0xc0 + length c" by (intro unat_hdr) simp
    then show ?thesis using short l
      by (simp add: item_length_def nth_append checked_add_def del: of_nat_add)
  next
    case (long lb)
    have u: "unat (of_nat (0xf7 + length lb) :: byte) = 0xf7 + length lb"
      using long(2) by (intro unat_hdr) simp
    have "length lb \<noteq> 0" using long(3) by simp
    then show ?thesis using long(2,4,5) u l
      by (simp add: item_length_def nth_append slice_exact checked_add_def checked_end_def Let_def
          del: of_nat_add)
  qed
qed

lemma count_loop_items:
  "list_all rlp_item xs \<Longrightarrow> length p + length (concat xs) < 2 ^ 64 \<Longrightarrow>
   count_loop (p @ concat xs) (length p) c = Ok (c + length xs)"
proof (induction xs arbitrary: p c)
  case Nil then show ?case by (simp add: count_loop.simps)
next
  case (Cons x xs)
  have il: "item_length (p @ x @ concat xs) (length p) = Ok (length x)"
    using Cons.prems by (simp add: rlp_item_def)
  have "count_loop ((p @ x) @ concat xs) (length (p @ x)) (c + 1) = Ok (c + 1 + length xs)"
    using Cons.prems by (intro Cons.IH) (simp_all add: add.assoc)
  with il Cons.prems(1) show ?case by (subst count_loop.simps) (simp add: rlp_item_def)
qed

lemma at_loop_items:
  "list_all rlp_item xs \<Longrightarrow> length p + length (concat xs) < 2 ^ 64 \<Longrightarrow> idx \<le> n \<Longrightarrow>
   at_loop (p @ concat xs) n (length p) idx =
     (if n - idx < length xs then Ok (xs ! (n - idx)) else Err ItemCountMismatch)"
proof (induction xs arbitrary: p idx)
  case Nil then show ?case by (simp add: at_loop.simps)
next
  case (Cons x xs)
  have il: "item_length (p @ x @ concat xs) (length p) = Ok (length x)"
    using Cons.prems by (simp add: rlp_item_def)
  have x: "x \<noteq> []" using Cons.prems(1) by (simp add: rlp_item_def)
  show ?case
  proof (cases "idx = n")
    case True
    with il x show ?thesis by (subst at_loop.simps) (simp add: slice_exact)
  next
    case False
    then have *: "n - idx = Suc (n - (idx + 1))" using Cons.prems by simp
    have "at_loop ((p @ x) @ concat xs) n (length (p @ x)) (idx + 1)
      = (if n - (idx + 1) < length xs then Ok (xs ! (n - (idx + 1))) else Err ItemCountMismatch)"
      using Cons.prems False by (intro Cons.IH) (simp_all add: add.assoc)
    with il x False show ?thesis unfolding * by (subst at_loop.simps) simp
  qed
qed

lemma length_rlp_str: "length d < 2 ^ 64 \<Longrightarrow> length (rlp_str d) \<le> length d + 9"
  by (erule rlp_str_cases) auto

lemma length_items:
  "sum_list (map (\<lambda>d. length d + 9) items) < 2 ^ 64 \<Longrightarrow>
   length (concat (map rlp_str items)) \<le> sum_list (map (\<lambda>d. length d + 9) items)"
proof (induction items)
  case (Cons d items)
  then have "length d < 2 ^ 64" by simp
  from length_rlp_str[OF this] Cons show ?case by simp
qed simp

lemma rlp_out_flat: "rlp_out (append_item rlp_new d) = Ok (rlp_str d)"
  by (simp add: rlp_out.simps append_item_def encode_string_buf rlp_new_def)

lemma as_bytes_str: "length d + 9 < 2 ^ 64 \<Longrightarrow> as_bytes (rlp_str d @ rest) = Ok d"
  by (simp add: as_bytes_def split_payload_str)

interpretation rlp_string: codec rlp_str as_bytes "\<lambda>d. length d + 9 < 2 ^ 64"
  using as_bytes_str[where rest = "[]"] by unfold_locales simp

text \<open>what the stream writes for a byte string decodes to that byte string.\<close>

theorem rlp_string_roundtrip:
  assumes "length d + 9 < 2 ^ 64"
  shows "bind_res (rlp_out (append_item rlp_new d)) as_bytes = Ok d"
  using rlp_string.dec_enc[OF assms] by (simp add: rlp_out_flat)

theorem rlp_string_roundtrip_witness:
  "bind_res (rlp_out (append_item rlp_new [0x7f, 0x80])) as_bytes = Ok [0x7f, 0x80]"
  by (rule rlp_string_roundtrip) simp

text \<open>An encoded list, and what the decoder reads back from it.\<close>

definition rlp_list :: "byte list list \<Rightarrow> byte list" where
  "rlp_list xs = list_prefix (length (concat xs)) @ concat xs"

lemma rlp_item_rlp_list: "rlp_item (rlp_list xs)"
  unfolding rlp_list_def by (rule rlp_item_list)

lemma is_list_rlp_list:
  assumes "length (concat xs) < 2 ^ 64"
  obtains b bs where "rlp_list xs = b # bs" "\<not> b < 0xc0" "is_list (rlp_list xs)"
  using assms
proof (cases "length (concat xs)" rule: list_prefix_cases)
  case short
  then have "unat (of_nat (0xc0 + length (concat xs)) :: byte) = 0xc0 + length (concat xs)" by (intro unat_hdr) simp
  then show ?thesis using short that
    by (simp add: rlp_list_def is_list_def word_less_nat_alt word_le_nat_alt del: of_nat_add)
next
  case (long lb)
  then have "unat (of_nat (0xf7 + length lb) :: byte) = 0xf7 + length lb" by (intro unat_hdr) simp
  then show ?thesis using long that
    by (simp add: rlp_list_def is_list_def word_less_nat_alt word_le_nat_alt del: of_nat_add)
qed

lemma list_payload_rlp_list: "length (concat xs) + 9 < 2 ^ 64 \<Longrightarrow> list_payload (rlp_list xs) = Ok (concat xs, [])"
  unfolding rlp_list_def using list_payload_list[of "concat xs" "[]"] by simp

lemma item_count_list:
  assumes "list_all rlp_item xs" "length (concat xs) + 9 < 2 ^ 64"
  shows "item_count (rlp_list xs) = Ok (length xs)"
proof -
  have l: "length (concat xs) < 2 ^ 64" using assms(2) by simp
  obtain b bs where b: "rlp_list xs = b # bs" "\<not> b < 0xc0" using is_list_rlp_list[OF l] by blast
  have "count_loop (concat xs) 0 0 = Ok (length xs)"
    using count_loop_items[OF assms(1), of "[]" 0] l by simp
  then show ?thesis using list_payload_rlp_list[OF assms(2)] b by (simp add: item_count_def)
qed

lemma item_at_list:
  assumes "list_all rlp_item xs" "length (concat xs) + 9 < 2 ^ 64"
  shows "item_at (rlp_list xs) n = (if n < length xs then Ok (xs ! n) else Err ItemCountMismatch)"
  using list_payload_rlp_list[OF assms(2)] at_loop_items[OF assms(1), of "[]" 0 n] assms(2)
  by (simp add: item_at_def)

lemma list_all_rlp_str: "list_all rlp_item (map rlp_str items)"
  by (simp add: list_all_iff rlp_item_str)

lemma encode_list_rlp: "encode_list items = Ok (rlp_list (map rlp_str items))"
  by (simp add: encode_list_eq rlp_list_def)

text \<open>
  C38: a list written by \<open>encode_list\<close> reads back item by item: the decoder counts the items,
  returns the i-th one for every index of the list and reports a count mismatch beyond it.
\<close>

theorem rlp_list_roundtrip:
  assumes "sum_list (map (\<lambda>d. length d + 9) items) + 9 < 2 ^ 64"
  shows "\<exists>bs. encode_list items = Ok bs \<and> item_count bs = Ok (length items)
    \<and> (\<forall>i. val_at bs i = (if i < length items then Ok (items ! i) else Err ItemCountMismatch))"
proof -
  define c where "c = concat (map rlp_str items)"
  have c: "length c + 9 < 2 ^ 64" using length_items[of items] assms by (simp add: c_def)
  have "length (items ! i) + 9 < 2 ^ 64" if "i < length items" for i
  proof -
    have "length (items ! i) + 9 \<in> set (map (\<lambda>d. length d + 9) items)" using that by auto
    from member_le_sum_list[OF this] show ?thesis using assms by simp
  qed
  then have "as_bytes (rlp_str (items ! i)) = Ok (items ! i)" if "i < length items" for i
    using that by (intro rlp_string.dec_enc)
  then show ?thesis
    using item_at_list[OF list_all_rlp_str, of items] item_count_list[OF list_all_rlp_str, of items] c
    by (intro exI[of _ "rlp_list (map rlp_str items)"]) (simp add: encode_list_rlp val_at_def flip: c_def)
qed

theorem rlp_list_roundtrip_witness:
  "\<exists>bs. encode_list [[1, 2], []] = Ok bs \<and> item_count bs = Ok (length [[1, 2 :: byte], []])
    \<and> (\<forall>i. val_at bs i = (if i < length [[1, 2 :: byte], []] then Ok ([[1, 2], []] ! i) else Err ItemCountMismatch))"
  by (rule rlp_list_roundtrip) simp

definition rlp_u64 :: "u64 \<Rightarrow> byte list" where
  "rlp_u64 n = buf (encode_u64 rlp_new n)"

lemma rlp_u64_eq: "rlp_u64 n = rlp_str (if n = 0 then [] else minimal_bytes n)"
  by (simp add: rlp_u64_def encode_u64_def rlp_new_def rlp_str_def encode_string_def)

lemma decode_rlp_u64: "n < 2 ^ 64 \<Longrightarrow> decode_u64 (rlp_u64 n) = Ok n"
proof (cases "n = 0")
  case True then show ?thesis using as_bytes_str[of "[]" "[]"] by (simp add: rlp_u64_eq decode_u64_def)
next
  case False
  assume "n < 2 ^ 64"
  with False have f: "be_val (minimal_bytes n) = n" "length (minimal_bytes n) \<le> 8"
    using minimal_bytes_facts[of n] by simp_all
  then have "length (minimal_bytes n) + 9 < 2 ^ 64" by simp
  then have "as_bytes (rlp_str (minimal_bytes n)) = Ok (minimal_bytes n)"
    by (rule rlp_string.dec_enc)
  then show ?thesis using False f fold_shift8[OF f(2)] by (simp add: rlp_u64_eq decode_u64_def)
qed

interpretation rlp_int: codec rlp_u64 decode_u64 "\<lambda>n. n < 2 ^ 64"
  by unfold_locales (rule decode_rlp_u64)

text \<open>\<open>decode_u64\<close> reads back every 64-bit integer the stream writes.\<close>

theorem rlp_u64_roundtrip:
  assumes "n < 2 ^ 64"
  shows "bind_res (rlp_out (encode_u64 rlp_new n)) decode_u64 = Ok n"
proof -
  have "(rlp_out (encode_u64 rlp_new n) :: (rlp_error, byte list) res) = Ok (rlp_u64 n)"
    by (simp add: rlp_out.simps rlp_u64_def encode_u64_def rlp_new_def encode_string_def Let_def)
  then show ?thesis using rlp_int.dec_enc[OF assms] by simp
qed

theorem rlp_u64_roundtrip_witness:
  "bind_res (rlp_out (encode_u64 rlp_new 1024)) decode_u64 = Ok 1024"
  by (rule rlp_u64_roundtrip) simp

section \<open>Arbitrary input\<close>

lemma decode_length_not_Panic: "decode_length bs \<noteq> Panic"
  by (simp add: decode_length_def split: list.splits)

lemma checked_end_not_Panic: "checked_end a b \<noteq> Panic"
  by (simp add: checked_end_def)

lemmas rlp_no_panic = bind_res_Panic_iff slice_Panic_iff decode_length_not_Panic checked_end_not_Panic

lemma item_length_not_Panic: "item_length data pos \<noteq> Panic"
  by (auto simp: item_length_def Let_def rlp_no_panic)

lemma split_payload_not_Panic: "split_payload data \<noteq> Panic"
  by (auto simp: split_payload_def Let_def rlp_no_panic split: list.splits)

lemma list_payload_not_Panic: "list_payload data \<noteq> Panic"
  by (auto simp: list_payload_def Let_def rlp_no_panic split: list.splits)

lemma as_bytes_not_Panic: "as_bytes data \<noteq> Panic"
  by (auto simp: as_bytes_def bind_res_Panic_iff split_payload_not_Panic)

lemma count_loop_not_Panic: "count_loop bs pos c \<noteq> Panic"
  by (induction bs pos c rule: count_loop.induct)
     (subst count_loop.simps, simp add: item_length_not_Panic split: res.splits)

lemma at_loop_not_Panic: "at_loop bs n pos idx \<noteq> Panic"
  by (induction bs n pos idx rule: at_loop.induct)
     (subst at_loop.simps, auto simp: item_length_not_Panic slice_Panic_iff split: res.splits
       dest: item_length_bounds)

lemma item_at_not_Panic: "item_at data n \<noteq> Panic"
  by (auto simp: item_at_def bind_res_Panic_iff list_payload_not_Panic at_loop_not_Panic)

text \<open>
  no entry point of the decoder panics, whatever bytes it is given: every slice it takes
  is inside the input and every loop over items makes progress.
\<close>

theorem rlp_decoder_never_panics:
  "as_bytes data \<noteq> Panic \<and> item_count data \<noteq> Panic \<and> item_at data n \<noteq> Panic
   \<and> val_at data n \<noteq> Panic \<and> decode_u64 data \<noteq> Panic"
proof -
  have "item_count data \<noteq> Panic"
    by (auto simp: item_count_def bind_res_Panic_iff list_payload_not_Panic count_loop_not_Panic
        split: list.splits)
  moreover have "val_at data n \<noteq> Panic"
    by (simp add: val_at_def bind_res_Panic_iff item_at_not_Panic as_bytes_not_Panic)
  moreover have "decode_u64 data \<noteq> Panic"
    by (simp add: decode_u64_def bind_res_Panic_iff as_bytes_not_Panic)
  ultimately show ?thesis by (simp add: item_at_not_Panic as_bytes_not_Panic)
qed

text \<open>
  The decoder accepts two encodings of one byte below 0x80: a byte string has one canonical
  encoding and \<open>decode_length\<close> rejects a leading zero, but the single-byte form is not checked.
\<close>

lemma rlp_accepts_non_canonical:
  "as_bytes [0x81, 0x42] = Ok [0x42] \<and> as_bytes [0x42] = Ok [0x42]"
  by (simp add: as_bytes_def split_payload_def slice_def)

end
