(* ===== verification/Nibbles.thy ===== *)
theory Nibbles
  imports Prelude
begin

unbundle bit_operations_syntax

text \<open>
  Nibble paths, \<open>zbx-trie/src/nibbles.rs\<close>. The Rust struct is a byte vector with a cursor, and
  \<open>slice\<close> only moves the cursor; the record \<open>nibbles\<close> is that struct and \<open>view\<close> the
  nibbles from the cursor on. Every operation is shown to be a list operation on views
  (\<open>nib_at\<close>, \<open>nib_sub\<close>, \<open>drop\<close>, \<open>append\<close>, the common prefix), and the theories of the trie
  use views. Indexing and slicing out of range panic. The hex-prefix encoding is a codec.
\<close>

section \<open>The cursor struct\<close>

record nibbles =
  inner :: "byte list"
  offset :: usize

definition view :: "nibbles \<Rightarrow> byte list" where
  "view n = drop (offset n) (inner n)"

fun byte_nibbles :: "byte \<Rightarrow> byte list" where
  "byte_nibbles b = [drop_bit 4 b, b AND 0x0f]"

definition from_bytes :: "byte list \<Rightarrow> nibbles" where
  "from_bytes bytes = \<lparr>inner = concat (map byte_nibbles bytes), offset = 0\<rparr>"

definition nibbles_len :: "nibbles \<Rightarrow> usize" where
  "nibbles_len n = length (inner n) - offset n"

definition nibbles_is_empty :: "nibbles \<Rightarrow> bool" where
  "nibbles_is_empty n \<longleftrightarrow> nibbles_len n = 0"

definition nibbles_at :: "nibbles \<Rightarrow> usize \<Rightarrow> ('e, byte) res" where
  "nibbles_at n i = (if offset n + i < length (inner n) then Ok (inner n ! (offset n + i)) else Panic)"

definition nibbles_slice :: "nibbles \<Rightarrow> usize \<Rightarrow> nibbles" where
  "nibbles_slice n i = n\<lparr>offset := offset n + i\<rparr>"

definition nibbles_common_prefix_len :: "nibbles \<Rightarrow> nibbles \<Rightarrow> usize" where
  "nibbles_common_prefix_len a b =
     length (takeWhile (\<lambda>i. inner a ! (offset a + i) = inner b ! (offset b + i))
       [0 ..< min (nibbles_len a) (nibbles_len b)])"

definition nibbles_empty :: nibbles where
  "nibbles_empty = \<lparr>inner = [], offset = 0\<rparr>"

definition nibbles_single :: "byte \<Rightarrow> nibbles" where
  "nibbles_single nibble = \<lparr>inner = [nibble AND 0x0f], offset = 0\<rparr>"

definition nibbles_sub :: "nibbles \<Rightarrow> usize \<Rightarrow> usize \<Rightarrow> ('e, nibbles) res" where
  "nibbles_sub n start len =
     (let from = offset n + start; to = min (from + len) (length (inner n))
      in bind_res (slice (inner n) from to) (\<lambda>xs. Ok \<lparr>inner = xs, offset = 0\<rparr>))"

definition nibbles_concat :: "nibbles \<Rightarrow> nibbles \<Rightarrow> nibbles" where
  "nibbles_concat a b =
     \<lparr>inner = map (\<lambda>i. inner a ! (offset a + i)) [0 ..< nibbles_len a]
              @ map (\<lambda>i. inner b ! (offset b + i)) [0 ..< nibbles_len b], offset = 0\<rparr>"

section \<open>Views\<close>

definition nib_at :: "byte list \<Rightarrow> usize \<Rightarrow> ('e, byte) res" where
  "nib_at xs i = (if i < length xs then Ok (xs ! i) else Panic)"

definition nib_sub :: "byte list \<Rightarrow> usize \<Rightarrow> usize \<Rightarrow> ('e, byte list) res" where
  "nib_sub xs start len = slice xs start (min (start + len) (length xs))"

fun lcp :: "byte list \<Rightarrow> byte list \<Rightarrow> usize" where
  "lcp (x # xs) (y # ys) = (if x = y then Suc (lcp xs ys) else 0)"
| "lcp _ _ = 0"

definition key_nibbles :: "byte list \<Rightarrow> byte list" where
  "key_nibbles bytes = concat (map byte_nibbles bytes)"

lemma lcp_takeWhile:
  "lcp xs ys = length (takeWhile (\<lambda>i. xs ! i = ys ! i) [0 ..< min (length xs) (length ys)])"
proof (induction xs ys rule: lcp.induct)
  case (1 x xs y ys)
  have "[0 ..< Suc n] = 0 # map Suc [0 ..< n]" for n by (simp add: upt_conv_Cons map_Suc_upt del: upt_Suc)
  then show ?case using 1 by (simp add: takeWhile_map comp_def del: upt_Suc)
qed simp_all

lemma lcp_le: "lcp xs ys \<le> length xs" "lcp xs ys \<le> length ys"
  by (induction xs ys rule: lcp.induct) auto

lemma lcp_take: "take (lcp xs ys) xs = take (lcp xs ys) ys"
  by (induction xs ys rule: lcp.induct) auto

lemma lcp_nth: "lcp xs ys < length xs \<Longrightarrow> lcp xs ys < length ys \<Longrightarrow> xs ! lcp xs ys \<noteq> ys ! lcp xs ys"
  by (induction xs ys rule: lcp.induct) auto

lemma lcp_eq_length: "lcp xs ys = length ys \<longleftrightarrow> (\<exists>zs. xs = ys @ zs)"
  by (induction xs ys rule: lcp.induct) auto

lemma lcp_commute: "lcp xs ys = lcp ys xs"
  by (induction xs ys rule: lcp.induct) auto

text \<open>The struct implements the views.\<close>

lemma view_from_bytes [simp]: "view (from_bytes bs) = key_nibbles bs"
  by (simp add: view_def from_bytes_def key_nibbles_def)

lemma nibbles_len_view [simp]: "nibbles_len n = length (view n)"
  by (simp add: nibbles_len_def view_def)

lemma view_slice [simp]: "view (nibbles_slice n i) = drop i (view n)"
  by (simp add: nibbles_slice_def view_def add.commute)

lemma view_nth: "i < length (view n) \<Longrightarrow> inner n ! (offset n + i) = view n ! i"
  by (simp add: view_def)

text \<open>
  the cursor representation of nibble paths is faithful to plain nibble lists. Moving the
  cursor is \<open>drop\<close>; indexing, sub-paths, concatenation and the common-prefix length are the list
  operations on what the cursor sees, with the same panics.
\<close>

theorem nibbles_refine_lists:
  "view (nibbles_slice n i) = drop i (view n) \<and> nibbles_at n i = nib_at (view n) i
   \<and> nibbles_common_prefix_len n m = lcp (view n) (view m)
   \<and> (offset n \<le> length (inner n) \<longrightarrow>
       (case nibbles_sub n i k of Ok s \<Rightarrow> Ok (view s) | Err e \<Rightarrow> Err e | Panic \<Rightarrow> Panic) = nib_sub (view n) i k)
   \<and> view (nibbles_concat n m) = view n @ view m"
proof (intro conjI impI)
  show "view (nibbles_slice n i) = drop i (view n)" by simp
  show "nibbles_at n i = nib_at (view n) i"
    by (auto simp: nibbles_at_def nib_at_def view_def less_diff_conv add.commute)
  have "takeWhile (\<lambda>i. inner n ! (offset n + i) = inner m ! (offset m + i)) [0 ..< min (length (view n)) (length (view m))]
      = takeWhile (\<lambda>i. view n ! i = view m ! i) [0 ..< min (length (view n)) (length (view m))]"
    by (intro takeWhile_cong) (simp_all add: view_nth)
  then show "nibbles_common_prefix_len n m = lcp (view n) (view m)"
    by (simp add: nibbles_common_prefix_len_def lcp_takeWhile)
  show "view (nibbles_concat n m) = view n @ view m"
    by (intro nth_equalityI) (auto simp: nibbles_concat_def view_def nth_append)
  assume "offset n \<le> length (inner n)"
  then show "(case nibbles_sub n i k of Ok s \<Rightarrow> Ok (view s) | Err e \<Rightarrow> Err e | Panic \<Rightarrow> Panic) = nib_sub (view n) i k"
    by (auto simp: nibbles_sub_def nib_sub_def slice_def view_def Let_def min_def add.commute add.left_commute)
qed

section \<open>Hex-prefix encoding\<close>

fun pack :: "byte list \<Rightarrow> byte list" where
  "pack (a # b # ns) = (push_bit 4 a OR b) # pack ns"
| "pack _ = []"

definition encode_compact :: "byte list \<Rightarrow> bool \<Rightarrow> byte list" where
  "encode_compact ns leaf =
     (let odd = length ns mod 2 = 1;
          flag = (if leaf then 0x20 else 0x00) OR (if odd then 0x10 else 0x00)
      in if odd then (flag OR ns ! 0) # pack (tl ns) else flag # pack ns)"

definition decode_compact :: "byte list \<Rightarrow> ('e, byte list \<times> bool) res" where
  "decode_compact encoded =
     (case encoded of
        [] \<Rightarrow> Panic
      | flag # rest \<Rightarrow>
         (let leaf = (flag AND 0x20 \<noteq> 0); odd = (flag AND 0x10 \<noteq> 0)
          in Ok ((if odd then [flag AND 0x0f] else []) @ concat (map byte_nibbles rest), leaf)))"

definition nibs :: "byte list \<Rightarrow> bool" where
  "nibs ns \<longleftrightarrow> list_all (\<lambda>n. n < 16) ns"

lemma nibs_simps [simp]:
  "nibs []" "nibs (n # ns) \<longleftrightarrow> n < 16 \<and> nibs ns" "nibs (xs @ ys) \<longleftrightarrow> nibs xs \<and> nibs ys"
  by (simp_all add: nibs_def)

lemma nibs_take_drop [simp]: "nibs ns \<Longrightarrow> nibs (take i ns)" "nibs ns \<Longrightarrow> nibs (drop i ns)"
  by (auto simp: nibs_def list_all_iff dest: in_set_takeD in_set_dropD)

lemma nibs_nth: "nibs ns \<Longrightarrow> i < length ns \<Longrightarrow> ns ! i < 16"
  by (simp add: nibs_def list_all_length)

lemma less_16_bits: "n < (16 :: byte) \<longleftrightarrow> (\<forall>k. bit n k \<longrightarrow> k < 4)"
proof -
  have "n < 16 \<longleftrightarrow> unat n < 2 ^ 4" by (simp add: word_less_nat_alt)
  also have "\<dots> \<longleftrightarrow> take_bit 4 (unat n) = unat n" by (simp only: take_bit_nat_eq_self_iff)
  also have "\<dots> \<longleftrightarrow> (\<forall>k. bit n k \<longrightarrow> k < 4)"
    by (auto simp: bit_eq_iff bit_take_bit_iff bit_unsigned_iff)
  finally show ?thesis .
qed

text \<open>The bits of the constants, and of what is built from them.\<close>

lemma bit_const [simp]:
  "bit (0x0f :: int) n \<longleftrightarrow> n < 4" "bit (0x10 :: int) n \<longleftrightarrow> n = 4" "bit (0x20 :: int) n \<longleftrightarrow> n = 5"
proof -
  have c: "(0x0f :: int) = mask 4" "(0x10 :: int) = push_bit 4 1" "(0x20 :: int) = push_bit 5 1"
    by (simp_all add: mask_numeral push_bit_eq_mult)
  show "bit (0x0f :: int) n \<longleftrightarrow> n < 4" unfolding c by (simp only: bit_mask_iff) simp
  show "bit (0x10 :: int) n \<longleftrightarrow> n = 4" "bit (0x20 :: int) n \<longleftrightarrow> n = 5"
    unfolding c by (simp_all only: bit_push_bit_iff bit_1_iff) auto
qed

lemma pack_byte:
  assumes "a < 16" "b < (16 :: byte)"
  shows "drop_bit 4 (push_bit 4 a OR b) = a" "(push_bit 4 a OR b) AND 0x0f = b"
  using assms by (auto intro!: bit_word_eqI simp: less_16_bits bit_simps)

lemma unpack_pack: "nibs ns \<Longrightarrow> even (length ns) \<Longrightarrow> concat (map byte_nibbles (pack ns)) = ns"
  by (induction ns rule: pack.induct) (simp_all add: pack_byte del: drop_bit_or)

lemma byte_nibbles_nibs: "nibs (byte_nibbles b)"
  by (auto simp: less_16_bits bit_simps dest: bit_imp_le_length)

lemma key_nibbles_nibs [simp]: "nibs (key_nibbles bs)"
  using byte_nibbles_nibs by (induction bs) (auto simp: key_nibbles_def simp del: byte_nibbles.simps)

lemma byte_nibbles_inj:
  assumes "byte_nibbles x = byte_nibbles y"
  shows "x = y"
proof (rule bit_word_eqI)
  fix n assume "n < LENGTH(8)"
  have "bit (drop_bit 4 x) (n - 4) = bit (drop_bit 4 y) (n - 4)" "bit (x AND 0x0f) n = bit (y AND 0x0f) n"
    using assms by simp_all
  then show "bit x n = bit y n" by (cases "n < 4") (auto simp: bit_simps simp flip: add_diff_assoc)
qed

lemma key_nibbles_inj: "key_nibbles a = key_nibbles b \<longleftrightarrow> a = b"
proof
  have len: "length (byte_nibbles c) = 2" for c by simp
  assume "key_nibbles a = key_nibbles b"
  then show "a = b"
  proof (induction a arbitrary: b)
    case Nil then show ?case by (cases b) (simp_all add: key_nibbles_def)
  next
    case (Cons x a)
    then obtain y b' where b: "b = y # b'" by (cases b) (auto simp: key_nibbles_def)
    have "byte_nibbles x @ key_nibbles a = byte_nibbles y @ key_nibbles b'"
      using Cons.prems by (simp add: key_nibbles_def b del: byte_nibbles.simps)
    then have "byte_nibbles x = byte_nibbles y" "key_nibbles a = key_nibbles b'" by (simp_all add: len)
    then show ?case using Cons.IH byte_nibbles_inj b by blast
  qed
qed simp

lemma and_flag: "(x :: byte) AND 0x20 = 0 \<longleftrightarrow> \<not> bit x 5" "(x :: byte) AND 0x10 = 0 \<longleftrightarrow> \<not> bit x 4"
  using and_exp_eq_0_iff_not_bit[of x 5] and_exp_eq_0_iff_not_bit[of x 4] by simp_all

lemma flag_bits:
  assumes "n < (16 :: byte)"
  shows "((if l then 0x20 else 0) OR (if d then 0x10 else 0) OR n) AND 0x20 \<noteq> 0 \<longleftrightarrow> l"
    "((if l then 0x20 else 0) OR (if d then 0x10 else 0) OR n) AND 0x10 \<noteq> 0 \<longleftrightarrow> d"
    "((if l then 0x20 else 0) OR (if d then 0x10 else 0) OR n) AND 0x0f = n"
  using assms unfolding and_flag
  by (auto simp: less_16_bits bit_simps intro!: bit_word_eqI)

lemma decode_encode_compact: "nibs ns \<Longrightarrow> decode_compact (encode_compact ns leaf) = Ok (ns, leaf)"
proof (cases "even (length ns)")
  case True
  assume "nibs ns"
  then show ?thesis using True flag_bits[of 0 leaf False]
    by (simp add: decode_compact_def encode_compact_def Let_def unpack_pack del: byte_nibbles.simps)
next
  case False
  assume n: "nibs ns"
  with False obtain m ms where ns: "ns = m # ms" by (cases ns) auto
  have "even (length ms)" using False ns by simp
  then show ?thesis using flag_bits[of m leaf True] n
    by (simp add: decode_compact_def encode_compact_def Let_def unpack_pack or.assoc ns mod_Suc
        del: byte_nibbles.simps)
qed

interpretation hex_prefix: codec "\<lambda>(ns, leaf). encode_compact ns leaf" decode_compact "\<lambda>(ns, leaf). nibs ns"
  by unfold_locales (auto simp: decode_encode_compact)

lemma length_encode_compact: "length (encode_compact ns leaf) = length ns div 2 + 1"
proof -
  have "length (pack ms) = length ms div 2" for ms by (induction ms rule: pack.induct) auto
  then show ?thesis by (cases ns) (simp_all add: encode_compact_def Let_def mod_Suc, presburger)
qed

text \<open>
  the hex-prefix form of a path decodes to the path and to its leaf flag, for paths of odd
  and of even length.
\<close>

theorem hex_prefix_roundtrip:
  assumes "nibs ns"
  shows "decode_compact (encode_compact ns leaf) = Ok (ns, leaf)"
  using hex_prefix.dec_enc[of "(ns, leaf)"] assms by simp

theorem hex_prefix_roundtrip_witness: "decode_compact (encode_compact [1, 2, 15] True) = Ok ([1, 2, 15], True)"
  by (rule hex_prefix_roundtrip) simp

end
