(* ===== verification/Trie_Node.thy ===== *)
theory Trie_Node
  imports Rlp Nibbles
begin

text \<open>
  Trie nodes and their RLP form, \<open>zbx-trie/src/node.rs\<close> and \<open>error.rs\<close>. A branch has a list of
  child references; the Rust array has sixteen, which \<open>node_ok\<close> states. The decoder recurses
  into inline children, which are shorter than the node they stand in.
\<close>

section \<open>Nodes\<close>

datatype trie_node =
    Empty
  | Leaf "byte list" "byte list"
  | Extension "byte list" node_ref
  | Branch "node_ref list" "byte list option"
and node_ref =
    HashRef h256
  | Inline trie_node
  | EmptyRef

datatype trie_error =
    MissingNode h256
  | RlpDecode rlp_error
  | BadChildLength usize
  | BadItemCount usize
  | InvalidProof
  | KeyNotFound
  | Inconsistent

fun trie_encode :: "trie_node \<Rightarrow> ('e, byte list) res"
  and append_ref :: "rlp_stream \<Rightarrow> node_ref \<Rightarrow> ('e, rlp_stream) res"
  and append_refs :: "rlp_stream \<Rightarrow> node_ref list \<Rightarrow> ('e, rlp_stream) res" where
  "trie_encode Empty = Ok [0x80]"
| "trie_encode (Leaf partial value) =
     rlp_out (append_item (append_item (new_list 2) (encode_compact partial True)) value)"
| "trie_encode (Extension partial child) =
     bind_res (append_ref (append_item (new_list 2) (encode_compact partial False)) child) rlp_out"
| "trie_encode (Branch children value) =
     bind_res (append_refs (new_list 17) children) (\<lambda>s.
       rlp_out (append_item s (case value of Some v \<Rightarrow> v | None \<Rightarrow> [])))"
| "append_ref s (HashRef h) = Ok (append_item s (h256_bytes h))"
| "append_ref s (Inline n) = bind_res (trie_encode n) (\<lambda>bs. Ok (append_raw s bs))"
| "append_ref s EmptyRef = Ok (append_item s [])"
| "append_refs s [] = Ok s"
| "append_refs s (c # cs) = bind_res (append_ref s c) (\<lambda>s'. append_refs s' cs)"

definition rlp_err :: "(rlp_error, 'a) res \<Rightarrow> (trie_error, 'a) res" where
  "rlp_err m = (case m of Ok x \<Rightarrow> Ok x | Err e \<Rightarrow> Err (RlpDecode e) | Panic \<Rightarrow> Panic)"

primrec map_res :: "('a \<Rightarrow> ('e, 'b) res) \<Rightarrow> 'a list \<Rightarrow> ('e, 'b list) res" where
  "map_res f [] = Ok []"
| "map_res f (x # xs) = bind_res (f x) (\<lambda>y. bind_res (map_res f xs) (\<lambda>ys. Ok (y # ys)))"

text \<open>A child that is a string: nothing, or the 32 bytes of a hash.\<close>

definition string_ref :: "byte list \<Rightarrow> (trie_error, node_ref) res" where
  "string_ref child_rlp =
     bind_res (rlp_err (as_bytes child_rlp)) (\<lambda>bytes.
     if bytes = [] then Ok EmptyRef
     else if length bytes = 32 then Ok (HashRef (of_nat (be_val bytes)))
     else Err (BadChildLength (length bytes)))"

lemma bind_res_cong [fundef_cong]:
  "m = m' \<Longrightarrow> (\<And>x. m' = Ok x \<Longrightarrow> f x = f' x) \<Longrightarrow> bind_res m f = bind_res m' f'"
  by (cases m') auto

lemma map_res_cong [fundef_cong]:
  "xs = ys \<Longrightarrow> (\<And>x. x \<in> set ys \<Longrightarrow> f x = g x) \<Longrightarrow> map_res f xs = map_res g ys"
  by (induction xs arbitrary: ys) auto

lemma rlp_err_Ok [simp]: "rlp_err m = Ok x \<longleftrightarrow> m = Ok x"
  by (cases m) (simp_all add: rlp_err_def)

lemma at_loop_length: "at_loop bs n pos idx = Ok x \<Longrightarrow> length x \<le> length bs"
  by (induction bs n pos idx rule: at_loop.induct)
     (subst (asm) (2) at_loop.simps, auto split: if_splits res.splits)

lemma item_at_length: "item_at bytes n = Ok x \<Longrightarrow> x \<noteq> [] \<Longrightarrow> length x < length bytes"
  by (auto simp: item_at_def list_payload_def Let_def split: list.splits if_splits dest!: at_loop_length)

lemma is_list_not_Nil: "is_list x \<Longrightarrow> x \<noteq> []"
  by (auto simp: is_list_def)

function trie_decode :: "byte list \<Rightarrow> (trie_error, trie_node) res" where
  "trie_decode bytes =
     bind_res (rlp_err (item_count bytes)) (\<lambda>count.
     if count = 0 then Ok Empty
     else if count = 2 then
       bind_res (rlp_err (val_at bytes 0)) (\<lambda>path_bytes.
       bind_res (decode_compact path_bytes) (\<lambda>(partial, is_leaf).
       if is_leaf then bind_res (rlp_err (val_at bytes 1)) (\<lambda>value. Ok (Leaf partial value))
       else
         bind_res (rlp_err (item_at bytes 1)) (\<lambda>child_rlp.
         bind_res (if is_list child_rlp then bind_res (trie_decode child_rlp) (\<lambda>n. Ok (Inline n))
                   else string_ref child_rlp)
           (\<lambda>child. Ok (Extension partial child)))))
     else if count = 17 then
       bind_res (map_res (\<lambda>i.
           bind_res (rlp_err (item_at bytes i)) (\<lambda>child_rlp.
           if is_list child_rlp then bind_res (trie_decode child_rlp) (\<lambda>n. Ok (Inline n))
           else string_ref child_rlp)) [0 ..< 16])
         (\<lambda>children.
           bind_res (rlp_err (val_at bytes 16)) (\<lambda>val_bytes.
           Ok (Branch children (if val_bytes = [] then None else Some val_bytes))))
     else Err (BadItemCount count))"
  by pat_completeness auto
termination
  by (relation "measure length") (auto intro: item_at_length dest: is_list_not_Nil)

declare trie_decode.simps [simp del]


section \<open>The encoding as a function\<close>

fun enc :: "trie_node \<Rightarrow> byte list" and ref_bytes :: "node_ref \<Rightarrow> byte list" where
  "enc Empty = [0x80]"
| "enc (Leaf p v) = rlp_list [rlp_str (encode_compact p True), rlp_str v]"
| "enc (Extension p c) = rlp_list [rlp_str (encode_compact p False), ref_bytes c]"
| "enc (Branch cs v) = rlp_list (map ref_bytes cs @ [rlp_str (case v of Some w \<Rightarrow> w | None \<Rightarrow> [])])"
| "ref_bytes (HashRef h) = rlp_str (h256_bytes h)"
| "ref_bytes (Inline n) = enc n"
| "ref_bytes EmptyRef = rlp_str []"

lemma append_item_buf: "append_item s d = s\<lparr>buf := buf s @ rlp_str d\<rparr>"
  by (simp add: append_item_def encode_string_buf)

lemma rlp_out_list: "rlp_out ((new_list n)\<lparr>buf := buf (new_list n) @ concat xs\<rparr>) = Ok (rlp_list xs)"
  by (subst rlp_out.simps)
     (simp add: new_list_def begin_list_def rlp_new_def finalize_unbounded_list_def rlp_list_def rlp_out.simps Let_def)

lemma trie_encode_enc:
  "(trie_encode n :: ('e, byte list) res) = Ok (enc n)"
  "(append_ref s c :: ('e, rlp_stream) res) = Ok (s\<lparr>buf := buf s @ ref_bytes c\<rparr>)"
  "(append_refs s cs :: ('e, rlp_stream) res) = Ok (s\<lparr>buf := buf s @ concat (map ref_bytes cs)\<rparr>)"
proof (induction n and s c and s cs rule: trie_encode_append_ref_append_refs.induct)
  case (2 p v)
  show ?case using rlp_out_list[of 2 "[rlp_str (encode_compact p True), rlp_str v]"]
    by (simp add: append_item_buf del: bind_res_Ok_iff)
next
  case (3 p c)
  then show ?case using rlp_out_list[of 2 "[rlp_str (encode_compact p False), ref_bytes c]"]
    by (simp add: append_item_buf del: bind_res_Ok_iff)
next
  case (4 cs v)
  then show ?case
    using rlp_out_list[of 17 "map ref_bytes cs @ [rlp_str (case v of Some w \<Rightarrow> w | None \<Rightarrow> [])]"]
    by (simp add: append_item_buf del: bind_res_Ok_iff)
qed (simp_all add: append_item_buf append_raw_def del: bind_res_Ok_iff)

section \<open>Round trip\<close>

text \<open>
  Nodes as the trie builds them: nibbles below sixteen, lengths far from the width of
  \<open>usize\<close>, sixteen children, no empty branch value, and inline children that are short.
\<close>

abbreviation max_len :: nat where "max_len \<equiv> 2 ^ 60"

fun node_ok :: "trie_node \<Rightarrow> bool" and ref_ok :: "node_ref \<Rightarrow> bool" where
  "node_ok Empty \<longleftrightarrow> True"
| "node_ok (Leaf p v) \<longleftrightarrow> nibs p \<and> length p < max_len \<and> length v < max_len"
| "node_ok (Extension p c) \<longleftrightarrow> nibs p \<and> length p < max_len \<and> ref_ok c"
| "node_ok (Branch cs v) \<longleftrightarrow> length cs = 16 \<and> list_all ref_ok cs \<and> v \<noteq> Some []
     \<and> (case v of Some w \<Rightarrow> length w < max_len | None \<Rightarrow> True)"
| "ref_ok (HashRef h) \<longleftrightarrow> True"
| "ref_ok (Inline n) \<longleftrightarrow> node_ok n \<and> n \<noteq> Empty \<and> length (enc n) < 32"
| "ref_ok EmptyRef \<longleftrightarrow> True"

definition read_child :: "byte list \<Rightarrow> (trie_error, node_ref) res" where
  "read_child bytes = (if is_list bytes then bind_res (trie_decode bytes) (\<lambda>n. Ok (Inline n)) else string_ref bytes)"

lemma rlp_item_ref: "ref_ok c \<Longrightarrow> rlp_item (ref_bytes c)"
proof (cases c)
  case (Inline n)
  assume "ref_ok c"
  then show ?thesis using Inline by (cases n) (simp_all add: rlp_item_rlp_list)
qed (simp_all add: rlp_item_str)

lemma length_short_str: "length d \<le> 55 \<Longrightarrow> length (rlp_str d) \<le> length d + 1"
  by (simp add: rlp_str_def encode_string_def rlp_new_def Let_def)

lemma length_ref_bytes: "ref_ok c \<Longrightarrow> length (ref_bytes c) \<le> 33"
proof (cases c)
  case (HashRef h) then show ?thesis using length_short_str[of "h256_bytes h"] by simp
next
  case EmptyRef then show ?thesis using length_short_str[of "[]"] by simp
qed simp

lemma length_refs: "list_all ref_ok cs \<Longrightarrow> length (concat (map ref_bytes cs)) \<le> 33 * length cs"
  by (induction cs) (use length_ref_bytes in fastforce)+

text \<open>The items of a node, of which it is the encoded list.\<close>

fun items :: "trie_node \<Rightarrow> byte list list" where
  "items Empty = []"
| "items (Leaf p v) = [rlp_str (encode_compact p True), rlp_str v]"
| "items (Extension p c) = [rlp_str (encode_compact p False), ref_bytes c]"
| "items (Branch cs v) = map ref_bytes cs @ [rlp_str (case v of Some w \<Rightarrow> w | None \<Rightarrow> [])]"

lemma enc_items: "n \<noteq> Empty \<Longrightarrow> enc n = rlp_list (items n)"
  by (cases n) simp_all

lemma length_value_str: "length v < max_len \<Longrightarrow> length (rlp_str v) \<le> max_len + 9"
  using length_rlp_str[of v] by simp

lemma length_path_str: "length p < max_len \<Longrightarrow> length (rlp_str (encode_compact p l)) \<le> max_len + 9"
  by (rule length_value_str) (simp add: length_encode_compact)

lemma items_ok:
  assumes "node_ok n"
  shows "list_all rlp_item (items n)" "length (concat (items n)) + 9 < 2 ^ 64"
proof -
  show "list_all rlp_item (items n)"
    using assms by (cases n) (auto simp: rlp_item_str rlp_item_ref list_all_iff)
  show "length (concat (items n)) + 9 < 2 ^ 64"
  proof (cases n)
    case (Leaf p v)
    then show ?thesis using assms length_path_str[of p True] length_value_str[of v] by simp
  next
    case (Extension p c)
    then show ?thesis using assms length_path_str[of p False] length_ref_bytes[of c] by simp
  next
    case (Branch cs v)
    have "length (rlp_str (case v of Some w \<Rightarrow> w | None \<Rightarrow> [])) \<le> max_len + 9"
      using assms Branch by (intro length_value_str) (auto split: option.splits)
    then show ?thesis using assms Branch length_refs[of cs] by simp
  qed simp
qed

lemma enc_read:
  assumes "node_ok n" "n \<noteq> Empty"
  shows item_count_enc: "item_count (enc n) = Ok (length (items n))"
    and item_at_enc: "i < length (items n) \<Longrightarrow> item_at (enc n) i = Ok (items n ! i)"
    and is_list_enc: "is_list (enc n)"
proof -
  note ok = items_ok[OF assms(1)]
  show "item_count (enc n) = Ok (length (items n))"
    using item_count_list[OF ok] assms(2) by (simp add: enc_items)
  show "i < length (items n) \<Longrightarrow> item_at (enc n) i = Ok (items n ! i)"
    using item_at_list[OF ok] assms(2) by (simp add: enc_items)
  have "length (concat (items n)) < 2 ^ 64" using ok(2) by simp
  then have "is_list (rlp_list (items n))" by (rule is_list_rlp_list)
  then show "is_list (enc n)" using assms(2) by (simp add: enc_items)
qed

lemma as_bytes_short: "length d < 2 * max_len \<Longrightarrow> as_bytes (rlp_str d) = Ok d"
  by (rule rlp_string.dec_enc) simp

lemma val_at_path:
  "node_ok n \<Longrightarrow> n \<noteq> Empty \<Longrightarrow> i < length (items n) \<Longrightarrow> items n ! i = rlp_str d \<Longrightarrow> length d < 2 * max_len \<Longrightarrow>
   val_at (enc n) i = Ok d"
  by (simp add: val_at_def item_at_enc as_bytes_short)

lemma not_is_list_str: "length d \<le> 32 \<Longrightarrow> \<not> is_list (rlp_str d)"
proof -
  assume "length d \<le> 32"
  then have "length d < 2 ^ 64" by simp
  then show ?thesis
  proof (cases d rule: rlp_str_cases)
    case (single b) then show ?thesis by (simp add: is_list_def word_le_nat_alt)
  next
    case short
    then have "unat (of_nat (0x80 + length d) :: byte) = 0x80 + length d" by (intro unat_hdr) simp
    then show ?thesis using short \<open>length d \<le> 32\<close> by (simp add: is_list_def word_le_nat_alt del: of_nat_add)
  qed (use \<open>length d \<le> 32\<close> in simp)
qed

lemma h256_bytes_val: "of_nat (be_val (h256_bytes h)) = h"
  unfolding h256_bytes_def be_val_be_bytes
  using unsigned_less[of h, where 'a = nat] by (simp add: mod_less)

lemma rlp_err_simps: "rlp_err (Ok x) = Ok x" "rlp_err Panic = Panic" "rlp_err (Err e) = Err (RlpDecode e)"
  by (simp_all add: rlp_err_def)

lemma map_res_Ok: "(\<And>i. i < length ys \<Longrightarrow> f (xs ! i) = Ok (ys ! i)) \<Longrightarrow> length xs = length ys \<Longrightarrow> map_res f xs = Ok ys"
proof (induction ys arbitrary: xs)
  case (Cons y ys)
  then obtain x xs' where xs: "xs = x # xs'" by (cases xs) auto
  have "f x = Ok y" using Cons.prems(1)[of 0] xs by simp
  moreover have "map_res f xs' = Ok ys"
  proof (rule Cons.IH)
    show "f (xs' ! i) = Ok (ys ! i)" if "i < length ys" for i using Cons.prems(1)[of "Suc i"] that xs by simp
  qed (use Cons.prems xs in simp)
  ultimately show ?case by (simp add: xs)
qed simp

lemma decode_enc:
  shows trie_decode_enc: "node_ok n \<Longrightarrow> trie_decode (enc n) = Ok n"
    and read_child_ref: "ref_ok c \<Longrightarrow> read_child (ref_bytes c) = Ok c"
proof (induction n and c)
  case Empty
  show ?case by (subst trie_decode.simps) (simp add: item_count_def)
next
  case (Leaf p v)
  note ok = Leaf
  have "val_at (enc (Leaf p v)) 0 = Ok (encode_compact p True)" "val_at (enc (Leaf p v)) 1 = Ok v"
    using ok by (auto intro!: val_at_path simp: length_encode_compact simp del: enc.simps)
  then show ?case using ok item_count_enc[OF ok]
    by (subst trie_decode.simps) (simp add: decode_encode_compact rlp_err_simps del: enc.simps bind_res_Ok_iff)
next
  case (Extension p c)
  note ok = Extension(2)
  have "val_at (enc (Extension p c)) 0 = Ok (encode_compact p False)"
    using ok by (auto intro!: val_at_path simp: length_encode_compact simp del: enc.simps)
  moreover have "item_at (enc (Extension p c)) 1 = Ok (ref_bytes c)"
    using item_at_enc[OF ok, of 1] by (simp del: enc.simps)
  ultimately show ?case using ok item_count_enc[OF ok] Extension(1)
    by (subst trie_decode.simps) (simp add: decode_encode_compact read_child_def rlp_err_simps del: enc.simps bind_res_Ok_iff)
next
  case (Branch cs v)
  note ok = Branch(2)
  let ?w = "case v of Some w \<Rightarrow> w | None \<Rightarrow> []"
  have "val_at (enc (Branch cs v)) 16 = Ok ?w"
    using ok by (intro val_at_path) (auto simp: nth_append split: option.splits)
  moreover have "map_res (\<lambda>i. bind_res (rlp_err (item_at (enc (Branch cs v)) i)) (\<lambda>child_rlp.
           if is_list child_rlp then bind_res (trie_decode child_rlp) (\<lambda>n. Ok (Inline n))
           else string_ref child_rlp)) [0 ..< 16] = Ok cs"
  proof (rule map_res_Ok)
    fix i assume i: "i < length cs"
    have "item_at (enc (Branch cs v)) i = Ok (ref_bytes (cs ! i))"
      using item_at_enc[OF ok, of i] i ok by (simp add: nth_append del: enc.simps)
    moreover have "read_child (ref_bytes (cs ! i)) = Ok (cs ! i)"
      using Branch i by (auto simp: list_all_length)
    ultimately show "bind_res (rlp_err (item_at (enc (Branch cs v)) ([0 ..< 16] ! i))) (\<lambda>child_rlp.
           if is_list child_rlp then bind_res (trie_decode child_rlp) (\<lambda>n. Ok (Inline n))
           else string_ref child_rlp) = Ok (cs ! i)"
      using i ok by (simp add: read_child_def rlp_err_simps del: enc.simps bind_res_Ok_iff)
  qed (use ok in simp)
  ultimately show ?case using ok item_count_enc[OF ok]
    by (subst trie_decode.simps) (auto simp: rlp_err_simps simp del: enc.simps bind_res_Ok_iff split: option.splits)
next
  case (HashRef h)
  have "h256_bytes h \<noteq> []" using length_word_bytes(2)[of h] by (metis list.size(3) zero_neq_numeral)
  then show ?case
    by (simp add: read_child_def not_is_list_str string_ref_def as_bytes_short rlp_err_def h256_bytes_val)
next
  case (Inline n)
  then show ?case by (simp add: read_child_def is_list_enc)
next
  case EmptyRef
  show ?case by (simp add: read_child_def not_is_list_str string_ref_def as_bytes_short rlp_err_def)
qed

text \<open>
  a node as the trie builds it decodes from its own encoding, with its inline children, its
  hashes and the distinction between leaf and extension paths.
\<close>

theorem trie_node_roundtrip:
  assumes "node_ok n"
  shows "bind_res (trie_encode n) trie_decode = Ok n"
  using trie_decode_enc[OF assms] by (simp add: trie_encode_enc del: bind_res_Ok_iff)

definition sample_node :: trie_node where
  "sample_node = Branch (replicate 15 EmptyRef @ [Inline (Leaf [7, 1, 2] [0xff])]) (Some [1, 2, 3])"

theorem trie_node_roundtrip_witness: "bind_res (trie_encode sample_node) trie_decode = Ok sample_node"
  by (rule trie_node_roundtrip)
     (simp add: sample_node_def rlp_list_def rlp_str_def encode_string_def rlp_new_def encode_compact_def
       list_prefix_def Let_def list_all_iff)

section \<open>Where the codec fails\<close>

text \<open>
  A two-item node with an empty path makes the decoder panic, although the caller of
  \<open>verify_proof\<close> feeds it the nodes of a proof. And an empty value stored at a branch is not
  told apart from no value.
\<close>

lemma trie_decode_panics: "trie_decode [0xc2, 0x80, 0x80] = Panic"
  by (subst trie_decode.simps)
     (simp add: item_count_def list_payload_def slice_def count_loop.simps item_length_def checked_add_def
       val_at_def item_at_def at_loop.simps as_bytes_def split_payload_def rlp_err_def decode_compact_def)

lemma empty_branch_value_lost:
  "node_ok (Branch cs None) \<Longrightarrow> bind_res (trie_encode (Branch cs (Some []))) trie_decode = Ok (Branch cs None)"
  using trie_decode_enc[of "Branch cs None"] by (simp add: trie_encode_enc del: bind_res_Ok_iff)

end
