(* ===== verification/Trie.thy ===== *)
theory Trie
  imports Trie_Node
begin

text \<open>
  The Merkle Patricia trie, \<open>zbx-trie/src/trie.rs\<close> and \<open>proof.rs\<close>. Keccak-256 is the parameter
  \<open>K\<close>. The node cache is a hash map; it is kept as an association list in which a later write
  shadows an earlier one, so that the list is also the record of what was written. The backing
  database is a map (\<open>MemoryTrieDB\<close>). \<open>insert_node\<close>, \<open>get_node\<close>, \<open>delete_node\<close> and the loop of
  \<open>prove\<close> follow references through the store, so nothing in the code bounds their recursion:
  they are partial functions, \<open>None\<close> standing for a run that does not return.
\<close>

section \<open>State\<close>

definition EMPTY_ROOT :: h256 where
  "EMPTY_ROOT = 0x56e81f171bcc55a6ff8345e692c0f86e5b48e01b996cadc001622fb5e363b421"

record trie =
  root :: h256
  db :: "h256 \<rightharpoonup> byte list"
  cache :: "(h256 \<times> byte list) list"

definition trie_new :: "(h256 \<rightharpoonup> byte list) \<Rightarrow> trie" where
  "trie_new d = \<lparr>root = EMPTY_ROOT, db = d, cache = []\<rparr>"

definition from_root :: "h256 \<Rightarrow> (h256 \<rightharpoonup> byte list) \<Rightarrow> trie" where
  "from_root r d = \<lparr>root = r, db = d, cache = []\<rparr>"

definition fetch :: "trie \<Rightarrow> h256 \<rightharpoonup> byte list" where
  "fetch t h = (case map_of (cache t) h of Some b \<Rightarrow> Some b | None \<Rightarrow> db t h)"

definition store_node ::
  "(byte list \<Rightarrow> h256) \<Rightarrow> trie \<Rightarrow> trie_node \<Rightarrow> (trie_error, node_ref) res \<times> trie" where
  "store_node K t node =
     try_st (trie_encode node) t (\<lambda>encoded.
     if length encoded < 32 then (Ok (Inline node), t)
     else (Ok (HashRef (K encoded)), t\<lparr>cache := (K encoded, encoded) # cache t\<rparr>))"

definition resolve :: "trie \<Rightarrow> node_ref \<Rightarrow> (trie_error, trie_node) res" where
  "resolve t r =
     (case r of
        EmptyRef \<Rightarrow> Ok Empty
      | Inline n \<Rightarrow> Ok n
      | HashRef h \<Rightarrow>
          if h = EMPTY_ROOT then Ok Empty
          else bind_res (ok_or (fetch t h) (MissingNode h)) trie_decode)"

definition commit_root ::
  "(byte list \<Rightarrow> h256) \<Rightarrow> trie \<Rightarrow> trie_node \<Rightarrow> (trie_error, h256) res \<times> trie" where
  "commit_root K t node =
     (if node = Empty then (Ok EMPTY_ROOT, t)
      else try_st (trie_encode node) t (\<lambda>encoded.
        (Ok (K encoded), t\<lparr>cache := (K encoded, encoded) # cache t\<rparr>)))"

section \<open>Insertion\<close>

definition no_children :: "node_ref list" where
  "no_children = replicate 16 EmptyRef"

text \<open>\<open>children[i] = r\<close>, out of range of the array a panic.\<close>

definition set_child :: "node_ref list \<Rightarrow> byte \<Rightarrow> node_ref \<Rightarrow> ('e, node_ref list) res" where
  "set_child cs i r = (if unat i < length cs then Ok (cs[unat i := r]) else Panic)"

definition get_child :: "node_ref list \<Rightarrow> byte \<Rightarrow> ('e, node_ref) res" where
  "get_child cs i = (if unat i < length cs then Ok (cs ! unat i) else Panic)"

text \<open>
  A leaf with the rest of a path after position \<open>cp\<close>, stored under the nibble at \<open>cp\<close>; a path
  that ends there is the value of the branch.
\<close>

definition hang_leaf ::
  "(byte list \<Rightarrow> h256) \<Rightarrow> trie \<Rightarrow> byte list \<Rightarrow> usize \<Rightarrow> byte list \<Rightarrow>
   node_ref list \<times> byte list option \<Rightarrow> (trie_error, node_ref list \<times> byte list option) res \<times> trie" where
  "hang_leaf K t path cp value = (\<lambda>(children, branch_value).
     if cp = length path then (Ok (children, Some value), t)
     else
       try_st (nib_at path cp) t (\<lambda>nibble.
       try_st (nib_sub path (cp + 1) (length path - cp - 1)) t (\<lambda>rest.
       case store_node K t (Leaf rest value) of (r, t1) \<Rightarrow>
       try_st r t1 (\<lambda>ref.
       try_st (set_child children nibble ref) t1 (\<lambda>cs. (Ok (cs, branch_value), t1))))))"

text \<open>The branch, under an extension for the common prefix when there is one.\<close>

definition wrap_branch ::
  "(byte list \<Rightarrow> h256) \<Rightarrow> trie \<Rightarrow> byte list \<Rightarrow> usize \<Rightarrow> node_ref list \<times> byte list option \<Rightarrow>
   (trie_error, trie_node) res \<times> trie" where
  "wrap_branch K t key_remaining cp = (\<lambda>(children, branch_value).
     if cp > 0 then
       try_st (nib_sub key_remaining 0 cp) t (\<lambda>prefix.
       case store_node K t (Branch children branch_value) of (r, t1) \<Rightarrow>
       try_st r t1 (\<lambda>ref. (Ok (Extension prefix ref), t1)))
     else (Ok (Branch children branch_value), t))"

definition insert_at_leaf ::
  "(byte list \<Rightarrow> h256) \<Rightarrow> trie \<Rightarrow> byte list \<Rightarrow> byte list \<Rightarrow> byte list \<Rightarrow> byte list \<Rightarrow>
   (trie_error, trie_node) res \<times> trie" where
  "insert_at_leaf K t key_remaining partial old_val value =
     (let cp = lcp key_remaining partial in
      if cp = length partial \<and> cp = length key_remaining then (Ok (Leaf partial value), t)
      else
       (case hang_leaf K t partial cp old_val (no_children, None) of (r, t1) \<Rightarrow>
        try_st r t1 (\<lambda>cv.
        case hang_leaf K t1 key_remaining cp value cv of (r2, t2) \<Rightarrow>
        try_st r2 t2 (\<lambda>cv2. wrap_branch K t2 key_remaining cp cv2))))"

definition split_extension ::
  "(byte list \<Rightarrow> h256) \<Rightarrow> trie \<Rightarrow> byte list \<Rightarrow> byte list \<Rightarrow> node_ref \<Rightarrow> byte list \<Rightarrow>
   (trie_error, trie_node) res \<times> trie" where
  "split_extension K t key_remaining partial child value =
     (let cp = lcp key_remaining partial in
      try_st (nib_at partial cp) t (\<lambda>ext_nibble.
      try_st (if cp + 1 < length partial then nib_sub partial (cp + 1) (length partial - cp - 1) else Ok []) t
       (\<lambda>ext_remaining.
      case (if ext_remaining = [] then (Ok child, t) else store_node K t (Extension ext_remaining child)) of (r, t1) \<Rightarrow>
      try_st r t1 (\<lambda>ext_branch_child.
      try_st (set_child no_children ext_nibble ext_branch_child) t1 (\<lambda>children.
      case hang_leaf K t1 key_remaining cp value (children, None) of (r2, t2) \<Rightarrow>
      try_st r2 t2 (\<lambda>cv. wrap_branch K t2 key_remaining cp cv))))))"

partial_function (option) insert_node ::
  "(byte list \<Rightarrow> h256) \<Rightarrow> trie \<Rightarrow> trie_node \<Rightarrow> byte list \<Rightarrow> usize \<Rightarrow> byte list \<Rightarrow>
   ((trie_error, trie_node) res \<times> trie) option" where
  "insert_node K t node key depth value =
     (let key_remaining = drop depth key in
      case node of
        Empty \<Rightarrow> Some (Ok (Leaf key_remaining value), t)
      | Leaf partial old_val \<Rightarrow> Some (insert_at_leaf K t key_remaining partial old_val value)
      | Extension partial child \<Rightarrow>
         (let cp = lcp key_remaining partial in
          if cp = length partial then
            (case resolve t child of
               Ok child_node \<Rightarrow>
                 Option.bind (insert_node K t child_node key (depth + cp) value) (\<lambda>(r, t1).
                 Some (try_st r t1 (\<lambda>new_child.
                   case store_node K t1 new_child of (r2, t2) \<Rightarrow>
                   try_st r2 t2 (\<lambda>ref. (Ok (Extension partial ref), t2)))))
             | Err e \<Rightarrow> Some (Err e, t)
             | Panic \<Rightarrow> Some (Panic, t))
          else Some (split_extension K t key_remaining partial child value))
      | Branch children branch_val \<Rightarrow>
          if depth = length key then Some (Ok (Branch children (Some value)), t)
          else
            (case bind_res (nib_at key depth) (\<lambda>idx. bind_res (get_child children idx) (\<lambda>c.
                   bind_res (resolve t c) (\<lambda>n. Ok (idx, n)))) of
               Ok (idx, child_node) \<Rightarrow>
                 Option.bind (insert_node K t child_node key (depth + 1) value) (\<lambda>(r, t1).
                 Some (try_st r t1 (\<lambda>new_child.
                   case store_node K t1 new_child of (r2, t2) \<Rightarrow>
                   try_st r2 t2 (\<lambda>ref.
                   try_st (set_child children idx ref) t2 (\<lambda>cs. (Ok (Branch cs branch_val), t2))))))
             | Err e \<Rightarrow> Some (Err e, t)
             | Panic \<Rightarrow> Some (Panic, t)))"

definition trie_insert ::
  "(byte list \<Rightarrow> h256) \<Rightarrow> trie \<Rightarrow> byte list \<Rightarrow> byte list \<Rightarrow> ((trie_error, unit) res \<times> trie) option" where
  "trie_insert K t key value =
     (let nibbles = key_nibbles key in
      case (if root t = EMPTY_ROOT then Ok Empty else resolve t (HashRef (root t))) of
        Ok old_root \<Rightarrow>
          Option.bind (insert_node K t old_root nibbles 0 value) (\<lambda>(r, t1).
          Some (try_st r t1 (\<lambda>new_root_node.
            case commit_root K t1 new_root_node of (r2, t2) \<Rightarrow>
            try_st r2 t2 (\<lambda>h. (Ok (), t2\<lparr>root := h\<rparr>)))))
      | Err e \<Rightarrow> Some (Err e, t)
      | Panic \<Rightarrow> Some (Panic, t))"

section \<open>Lookup\<close>

partial_function (option) get_node ::
  "trie \<Rightarrow> node_ref \<Rightarrow> byte list \<Rightarrow> usize \<Rightarrow> (trie_error, byte list option) res option" where
  "get_node t r key depth =
     (case resolve t r of
        Err e \<Rightarrow> Some (Err e)
      | Panic \<Rightarrow> Some Panic
      | Ok node \<Rightarrow>
         (case node of
            Empty \<Rightarrow> Some (Ok None)
          | Leaf partial value \<Rightarrow>
             (let key_remaining = drop depth key in
              if lcp key_remaining partial = length partial \<and> length partial = length key_remaining
              then Some (Ok (Some value)) else Some (Ok None))
          | Extension partial child \<Rightarrow>
             (let cp = lcp (drop depth key) partial in
              if cp < length partial then Some (Ok None) else get_node t child key (depth + cp))
          | Branch children value \<Rightarrow>
             if depth = length key then Some (Ok value)
             else
              (case bind_res (nib_at key depth) (get_child children) of
                 Ok c \<Rightarrow> get_node t c key (depth + 1)
               | Err e \<Rightarrow> Some (Err e)
               | Panic \<Rightarrow> Some Panic)))"

definition trie_get :: "trie \<Rightarrow> byte list \<Rightarrow> (trie_error, byte list option) res option" where
  "trie_get t key =
     (if root t = EMPTY_ROOT then Some (Ok None)
      else get_node t (HashRef (root t)) (key_nibbles key) 0)"

section \<open>Deletion\<close>

definition maybe_collapse_branch ::
  "(byte list \<Rightarrow> h256) \<Rightarrow> trie \<Rightarrow> node_ref list \<Rightarrow> byte list option \<Rightarrow> (trie_error, trie_node) res \<times> trie" where
  "maybe_collapse_branch K t children value =
     (let non_empty = filter (\<lambda>i. children ! i \<noteq> EmptyRef) [0 ..< 16] in
      case (non_empty, value) of
        ([], None) \<Rightarrow> (Ok Empty, t)
      | ([], Some v) \<Rightarrow> (Ok (Leaf [] v), t)
      | ([idx], None) \<Rightarrow>
          try_st (resolve t (children ! idx)) t (\<lambda>child_node.
          let prefix = [of_nat idx AND 0x0f :: byte] in
          case child_node of
            Leaf partial v \<Rightarrow> (Ok (Leaf (prefix @ partial) v), t)
          | Extension partial child \<Rightarrow> (Ok (Extension (prefix @ partial) child), t)
          | Branch cs v \<Rightarrow>
             (case store_node K t (Branch cs v) of (r, t1) \<Rightarrow>
              try_st r t1 (\<lambda>ref. (Ok (Extension prefix ref), t1)))
          | Empty \<Rightarrow> (Ok Empty, t))
      | _ \<Rightarrow> (Ok (Branch children value), t))"

text \<open>What an extension becomes over its shrunken child.\<close>

definition collapse_extension ::
  "(byte list \<Rightarrow> h256) \<Rightarrow> trie \<Rightarrow> byte list \<Rightarrow> trie_node \<Rightarrow> (trie_error, trie_node) res \<times> trie" where
  "collapse_extension K t partial new_child =
     (case new_child of
        Empty \<Rightarrow> (Ok Empty, t)
      | Leaf cp2 value \<Rightarrow> (Ok (Leaf (partial @ cp2) value), t)
      | Extension cp2 gc \<Rightarrow> (Ok (Extension (partial @ cp2) gc), t)
      | Branch cs v \<Rightarrow>
         (case store_node K t (Branch cs v) of (r, t1) \<Rightarrow>
          try_st r t1 (\<lambda>ref. (Ok (Extension partial ref), t1))))"

partial_function (option) delete_node ::
  "(byte list \<Rightarrow> h256) \<Rightarrow> trie \<Rightarrow> trie_node \<Rightarrow> byte list \<Rightarrow> usize \<Rightarrow>
   ((trie_error, trie_node \<times> bool) res \<times> trie) option" where
  "delete_node K t node key depth =
     (let key_remaining = drop depth key in
      case node of
        Empty \<Rightarrow> Some (Ok (Empty, False), t)
      | Leaf partial value \<Rightarrow>
          if length key_remaining = length partial \<and> lcp key_remaining partial = length partial
          then Some (Ok (Empty, True), t) else Some (Ok (Leaf partial value, False), t)
      | Extension partial child \<Rightarrow>
          if lcp key_remaining partial \<noteq> length partial then Some (Ok (Extension partial child, False), t)
          else
           (case resolve t child of
              Ok child_node \<Rightarrow>
                Option.bind (delete_node K t child_node key (depth + length partial)) (\<lambda>(r, t1).
                Some (try_st r t1 (\<lambda>(new_child, removed).
                  if \<not> removed then (Ok (Extension partial child, False), t1)
                  else case collapse_extension K t1 partial new_child of (r2, t2) \<Rightarrow>
                       try_st r2 t2 (\<lambda>n. (Ok (n, True), t2)))))
            | Err e \<Rightarrow> Some (Err e, t)
            | Panic \<Rightarrow> Some (Panic, t))
      | Branch children branch_val \<Rightarrow>
          if depth = length key then
            (if branch_val \<noteq> None
             then Some (case maybe_collapse_branch K t children None of (r, t1) \<Rightarrow>
                        try_st r t1 (\<lambda>n. (Ok (n, True), t1)))
             else Some (Ok (Branch children None, False), t))
          else
           (case bind_res (nib_at key depth) (\<lambda>idx. bind_res (get_child children idx) (\<lambda>c.
                   bind_res (resolve t c) (\<lambda>n. Ok (idx, n)))) of
              Ok (idx, child_node) \<Rightarrow>
                Option.bind (delete_node K t child_node key (depth + 1)) (\<lambda>(r, t1).
                Some (try_st r t1 (\<lambda>(new_child, removed).
                  if \<not> removed then (Ok (Branch children branch_val, False), t1)
                  else case (if new_child = Empty then (Ok EmptyRef, t1) else store_node K t1 new_child) of (r2, t2) \<Rightarrow>
                       try_st r2 t2 (\<lambda>ref.
                       try_st (set_child children idx ref) t2 (\<lambda>cs.
                       case maybe_collapse_branch K t2 cs branch_val of (r3, t3) \<Rightarrow>
                       try_st r3 t3 (\<lambda>n. (Ok (n, True), t3)))))))
            | Err e \<Rightarrow> Some (Err e, t)
            | Panic \<Rightarrow> Some (Panic, t)))"

definition trie_delete ::
  "(byte list \<Rightarrow> h256) \<Rightarrow> trie \<Rightarrow> byte list \<Rightarrow> ((trie_error, bool) res \<times> trie) option" where
  "trie_delete K t key =
     (if root t = EMPTY_ROOT then Some (Ok False, t)
      else
       (case resolve t (HashRef (root t)) of
          Ok old_root \<Rightarrow>
            Option.bind (delete_node K t old_root (key_nibbles key) 0) (\<lambda>(r, t1).
            Some (try_st r t1 (\<lambda>(new_root_node, removed).
              if \<not> removed then (Ok False, t1)
              else case commit_root K t1 new_root_node of (r2, t2) \<Rightarrow>
                   try_st r2 t2 (\<lambda>h. (Ok True, t2\<lparr>root := h\<rparr>)))))
        | Err e \<Rightarrow> Some (Err e, t)
        | Panic \<Rightarrow> Some (Panic, t)))"

section \<open>Proofs and commit\<close>

record merkle_proof =
  proof_key :: "byte list"
  proof_value :: "byte list option"
  proof_nodes :: "byte list list"

text \<open>The node the loop looks at, with the nodes collected so far; nothing when it stops.\<close>

definition load :: "trie \<Rightarrow> node_ref \<Rightarrow> byte list list \<Rightarrow> (trie_error, trie_node \<times> byte list list) res" where
  "load t current nodes =
     (case current of
        EmptyRef \<Rightarrow> Ok (Empty, nodes)
      | HashRef h \<Rightarrow>
          if h = EMPTY_ROOT then Ok (Empty, nodes)
          else bind_res (ok_or (fetch t h) (MissingNode h)) (\<lambda>bytes.
               bind_res (trie_decode bytes) (\<lambda>node. Ok (node, nodes @ [bytes])))
      | Inline n \<Rightarrow> Ok (n, nodes))"

partial_function (option) prove_loop ::
  "trie \<Rightarrow> node_ref \<Rightarrow> byte list \<Rightarrow> usize \<Rightarrow> byte list list \<Rightarrow>
   (trie_error, byte list option \<times> byte list list) res option" where
  "prove_loop t current nibbles depth nodes0 =
     (case load t current nodes0 of
        Err e \<Rightarrow> Some (Err e)
      | Panic \<Rightarrow> Some Panic
      | Ok (decoded, nodes) \<Rightarrow>
         (case decoded of
            Empty \<Rightarrow> Some (Ok (None, nodes))
          | Leaf partial v \<Rightarrow>
             (let key_remaining = drop depth nibbles in
              if length key_remaining = length partial \<and> lcp key_remaining partial = length partial
              then Some (Ok (Some v, nodes)) else Some (Ok (None, nodes)))
          | Extension partial child \<Rightarrow>
             (let cp = lcp (drop depth nibbles) partial in
              if cp \<noteq> length partial then Some (Ok (None, nodes))
              else prove_loop t child nibbles (depth + cp) nodes)
          | Branch children v \<Rightarrow>
              if depth = length nibbles then Some (Ok (v, nodes))
              else
               (case bind_res (nib_at nibbles depth) (get_child children) of
                  Ok c \<Rightarrow> prove_loop t c nibbles (depth + 1) nodes
                | Err e \<Rightarrow> Some (Err e)
                | Panic \<Rightarrow> Some Panic)))"

definition prove :: "trie \<Rightarrow> byte list \<Rightarrow> (trie_error, merkle_proof) res option" where
  "prove t key =
     Option.bind (prove_loop t (HashRef (root t)) (key_nibbles key) 0 []) (\<lambda>r.
     Some (bind_res r (\<lambda>(v, nodes). Ok \<lparr>proof_key = key, proof_value = v, proof_nodes = nodes\<rparr>)))"

definition commit :: "trie \<Rightarrow> h256 \<times> trie" where
  "commit t = (root t, t\<lparr>db := db t ++ map_of (cache t), cache := []\<rparr>)"

text \<open>
  The loop of \<open>verify_proof\<close> over the nodes that remain; a branch whose value is asked for has
  to be the last node.
\<close>

fun verify_loop ::
  "(byte list \<Rightarrow> h256) \<Rightarrow> byte list \<Rightarrow> byte list option \<Rightarrow> h256 \<Rightarrow> usize \<Rightarrow> byte list list \<Rightarrow> ('e, bool) res" where
  "verify_loop K nibbles expected expected_hash depth [] = Ok False"
| "verify_loop K nibbles expected expected_hash depth (encoded # nodes) =
     (if K encoded \<noteq> expected_hash then Ok False
      else
       (case trie_decode encoded of
          Err e \<Rightarrow> Ok False
        | Panic \<Rightarrow> Panic
        | Ok node \<Rightarrow>
           (case node of
              Leaf partial value \<Rightarrow>
                (let cp = lcp (drop depth nibbles) partial in
                 if cp = length partial \<and> depth + cp = length nibbles then Ok (expected = Some value)
                 else Ok (expected = None))
            | Extension partial child \<Rightarrow>
                (let cp = lcp (drop depth nibbles) partial in
                 if cp \<noteq> length partial then Ok (expected = None)
                 else
                  (case child of
                     HashRef h \<Rightarrow> verify_loop K nibbles expected h (depth + cp) nodes
                   | EmptyRef \<Rightarrow> Ok (expected = None)
                   | Inline n \<Rightarrow> Ok False))
            | Branch children value \<Rightarrow>
                if depth = length nibbles then (if nodes \<noteq> [] then Ok False else Ok (expected = value))
                else
                 bind_res (nib_at nibbles depth) (\<lambda>idx.
                 bind_res (get_child children idx) (\<lambda>c.
                 case c of
                   HashRef h \<Rightarrow> verify_loop K nibbles expected h (depth + 1) nodes
                 | EmptyRef \<Rightarrow> Ok (expected = None)
                 | Inline n \<Rightarrow> Ok False))
            | Empty \<Rightarrow> Ok (expected = None))))"

definition verify_proof ::
  "(byte list \<Rightarrow> h256) \<Rightarrow> h256 \<Rightarrow> byte list \<Rightarrow> byte list option \<Rightarrow> byte list list \<Rightarrow> ('e, bool) res" where
  "verify_proof K r key expected nodes =
     (if nodes = [] then Ok (r = EMPTY_ROOT \<and> expected = None)
      else verify_loop K (key_nibbles key) expected r 0 nodes)"

definition merkle_verify :: "(byte list \<Rightarrow> h256) \<Rightarrow> merkle_proof \<Rightarrow> h256 \<Rightarrow> ('e, bool) res" where
  "merkle_verify K p r = verify_proof K r (proof_key p) (proof_value p) (proof_nodes p)"

end
