(* ===== verification/Patricia.thy ===== *)
theory Patricia
  imports Nibbles
begin

text \<open>
  What a Patricia trie is, without a store: the trees the Merkle trie represents, with lookup,
  insertion and deletion on them. A tree in normal form (\<open>canon\<close>) is determined by its lookup
  function, and insertion and deletion keep the normal form and act on the lookup function as
  map update and map removal. The Merkle trie is shown to implement these operations.
\<close>

section \<open>Trees\<close>

datatype pt =
    PLeaf "byte list" "byte list"
  | PExt "byte list" pt
  | PBranch "pt option list" "byte list option"

lemma pt_child_size [termination_simp]:
  "cs ! i = Some c \<Longrightarrow> i < length cs \<Longrightarrow> size c < Suc (size_list (size_option size) cs)"
proof -
  assume "cs ! i = Some c" "i < length cs"
  then have "Some c \<in> set cs" by (metis nth_mem)
  then have "size_option size (Some c) \<le> size_list (size_option size) cs" by (rule size_list_estimation') simp
  then show ?thesis by simp
qed

fun plook :: "pt \<Rightarrow> byte list \<Rightarrow> byte list option" where
  "plook (PLeaf p v) k = (if k = p then Some v else None)"
| "plook (PExt p c) k = (if lcp k p = length p then plook c (drop (length p) k) else None)"
| "plook (PBranch cs bv) [] = bv"
| "plook (PBranch cs bv) (n # k) =
     (if unat n < length cs then (case cs ! unat n of None \<Rightarrow> None | Some c \<Rightarrow> plook c k) else None)"

definition hang :: "byte list \<Rightarrow> usize \<Rightarrow> byte list \<Rightarrow> pt option list \<times> byte list option \<Rightarrow> pt option list \<times> byte list option" where
  "hang path cp v = (\<lambda>(cs, bv).
     if cp = length path then (cs, Some v)
     else (cs[unat (path ! cp) := Some (PLeaf (drop (Suc cp) path) v)], bv))"

definition pwrap :: "byte list \<Rightarrow> usize \<Rightarrow> pt option list \<times> byte list option \<Rightarrow> pt" where
  "pwrap k cp = (\<lambda>(cs, bv). if cp > 0 then PExt (take cp k) (PBranch cs bv) else PBranch cs bv)"

definition no_kids :: "pt option list" where "no_kids = replicate 16 None"

definition ext_tail :: "byte list \<Rightarrow> usize \<Rightarrow> pt \<Rightarrow> pt" where
  "ext_tail p cp c = (if Suc cp < length p then PExt (drop (Suc cp) p) c else c)"

fun pins :: "pt \<Rightarrow> byte list \<Rightarrow> byte list \<Rightarrow> pt" where
  "pins (PLeaf p w) k v =
     (let cp = lcp k p in
      if cp = length p \<and> cp = length k then PLeaf p v
      else pwrap k cp (hang k cp v (hang p cp w (no_kids, None))))"
| "pins (PExt p c) k v =
     (let cp = lcp k p in
      if cp = length p then PExt p (pins c (drop cp k) v)
      else pwrap k cp (hang k cp v (no_kids[unat (p ! cp) := Some (ext_tail p cp c)], None)))"
| "pins (PBranch cs bv) [] v = PBranch cs (Some v)"
| "pins (PBranch cs bv) (n # k) v =
     (if unat n < length cs
      then PBranch (cs[unat n := Some (case cs ! unat n of None \<Rightarrow> PLeaf k v | Some c \<Rightarrow> pins c k v)]) bv
      else PBranch cs bv)"

fun pmerge :: "byte list \<Rightarrow> pt option \<Rightarrow> pt option" where
  "pmerge p None = None"
| "pmerge p (Some (PLeaf q v)) = Some (PLeaf (p @ q) v)"
| "pmerge p (Some (PExt q c)) = Some (PExt (p @ q) c)"
| "pmerge p (Some (PBranch cs bv)) = Some (PExt p (PBranch cs bv))"

definition pcollapse :: "pt option list \<Rightarrow> byte list option \<Rightarrow> pt option" where
  "pcollapse cs bv =
     (case (filter (\<lambda>i. cs ! i \<noteq> None) [0 ..< 16], bv) of
        ([], None) \<Rightarrow> None
      | ([], Some v) \<Rightarrow> Some (PLeaf [] v)
      | ([i], None) \<Rightarrow> pmerge [of_nat i] (cs ! i)
      | _ \<Rightarrow> Some (PBranch cs bv))"

fun pdel :: "pt \<Rightarrow> byte list \<Rightarrow> pt option \<times> bool" where
  "pdel (PLeaf p v) k = (if k = p then (None, True) else (Some (PLeaf p v), False))"
| "pdel (PExt p c) k =
     (if lcp k p \<noteq> length p then (Some (PExt p c), False)
      else (case pdel c (drop (length p) k) of
              (r, removed) \<Rightarrow> if removed then (pmerge p r, True) else (Some (PExt p c), False)))"
| "pdel (PBranch cs bv) [] =
     (if bv \<noteq> None then (pcollapse cs None, True) else (Some (PBranch cs bv), False))"
| "pdel (PBranch cs bv) (n # k) =
     (if unat n < length cs then
        (case cs ! unat n of
           None \<Rightarrow> (Some (PBranch cs bv), False)
         | Some c \<Rightarrow> (case pdel c k of
             (r, removed) \<Rightarrow> if removed then (pcollapse (cs[unat n := r]) bv, True) else (Some (PBranch cs bv), False)))
      else (Some (PBranch cs bv), False))"

section \<open>Normal form\<close>

definition val_ok :: "byte list \<Rightarrow> bool" where
  "val_ok v \<longleftrightarrow> v \<noteq> [] \<and> length v < 2 ^ 60"

definition diverse :: "pt option list \<Rightarrow> byte list option \<Rightarrow> bool" where
  "diverse cs bv \<longleftrightarrow> (bv \<noteq> None \<and> (\<exists>i < 16. cs ! i \<noteq> None))
     \<or> (\<exists>i < 16. \<exists>j < 16. i \<noteq> j \<and> cs ! i \<noteq> None \<and> cs ! j \<noteq> None)"

fun is_branch :: "pt \<Rightarrow> bool" where
  "is_branch (PBranch cs bv) = True"
| "is_branch _ = False"

text \<open>No path of the tree is longer than \<open>n\<close>.\<close>

fun canon :: "nat \<Rightarrow> pt \<Rightarrow> bool" where
  "canon n (PLeaf p v) \<longleftrightarrow> nibs p \<and> length p \<le> n \<and> val_ok v"
| "canon n (PExt p c) \<longleftrightarrow> p \<noteq> [] \<and> nibs p \<and> length p \<le> n \<and> is_branch c \<and> canon (n - length p) c"
| "canon n (PBranch cs bv) \<longleftrightarrow> length cs = 16 \<and> diverse cs bv \<and> (\<forall>v. bv = Some v \<longrightarrow> val_ok v)
     \<and> (\<forall>i < length cs. case cs ! i of None \<Rightarrow> True | Some c \<Rightarrow> 0 < n \<and> canon (n - 1) c)"

definition kid_ok :: "nat \<Rightarrow> pt option \<Rightarrow> bool" where
  "kid_ok n c \<longleftrightarrow> (case c of None \<Rightarrow> True | Some c \<Rightarrow> 0 < n \<and> canon (n - 1) c)"

lemma canon_branch:
  "canon n (PBranch cs bv) \<longleftrightarrow> length cs = 16 \<and> diverse cs bv \<and> (\<forall>v. bv = Some v \<longrightarrow> val_ok v) \<and> list_all (kid_ok n) cs"
  by (auto simp: kid_ok_def list_all_length)

declare canon.simps(3) [simp del]

lemma nib_unat: "n < (16 :: byte) \<longleftrightarrow> unat n < 16"
  by (simp add: word_less_nat_alt)


section \<open>Insertion is map update\<close>

lemma unat_nib_inj [simp]: "unat (a :: byte) = unat b \<longleftrightarrow> a = b"
  by (metis word_unat_eq_iff)

lemma plook_ext: "plook (PExt p c) (p @ z) = plook c z"
  "(\<nexists>z. k = p @ z) \<Longrightarrow> plook (PExt p c) k = None"
  using lcp_eq_length[of "p @ z" p] lcp_eq_length[of k p] by auto

lemma prefix_cases:
  obtains z where "k = p @ z" | "\<nexists>z. k = p @ z" by blast

declare plook.simps(2) [simp del]

lemma plook_branch_Cons:
  "length cs = 16 \<Longrightarrow> n < 16 \<Longrightarrow> plook (PBranch cs bv) (n # k) = Option.bind (cs ! unat n) (\<lambda>c. plook c k)"
  by (simp add: nib_unat split: option.splits)

definition pbranch :: "pt option list \<times> byte list option \<Rightarrow> pt" where
  "pbranch = (\<lambda>(cs, bv). PBranch cs bv)"

lemma length_hang: "length (fst (hang path cp v x)) = length (fst x)"
  by (simp add: hang_def split: prod.split)

lemma plook_hang:
  assumes "length cs = 16" "nibs path" "cp \<le> length path" "cp < length path \<Longrightarrow> cs ! unat (path ! cp) = None"
  shows "plook (pbranch (hang path cp v (cs, bv))) k = (if k = drop cp path then Some v else plook (PBranch cs bv) k)"
proof (cases "cp = length path")
  case True
  then show ?thesis by (cases k) (simp_all add: hang_def pbranch_def)
next
  case False
  then have cp: "cp < length path" "drop cp path = path ! cp # drop (Suc cp) path"
    using assms(3) by (simp_all add: Cons_nth_drop_Suc)
  have n: "unat (path ! cp) < 16" using nibs_nth[OF assms(2) cp(1)] by (simp add: nib_unat)
  show ?thesis
  proof (cases k)
    case (Cons m ks)
    then show ?thesis using False cp n assms(1,4)
      by (cases "m = path ! cp") (simp_all add: hang_def pbranch_def nth_list_update split: option.splits)
  qed (use False cp in \<open>simp add: hang_def pbranch_def\<close>)
qed

lemma plook_pwrap:
  assumes "cp \<le> length k"
  shows "plook (pwrap k cp x) (take cp k @ z) = plook (pbranch x) z"
    "(\<nexists>z. k' = take cp k @ z) \<Longrightarrow> plook (pwrap k cp x) k' = None"
  by (cases x; cases "cp = 0"; simp add: pwrap_def pbranch_def plook_ext)+

lemma no_kids_simps [simp]: "length no_kids = 16" "i < 16 \<Longrightarrow> no_kids ! i = None"
  by (simp_all add: no_kids_def)

lemma plook_no_kids [simp]: "plook (PBranch no_kids bv) k = (if k = [] then bv else None)"
  by (cases k) simp_all

text \<open>Two paths with a common prefix of length \<open>cp\<close>, one of which is longer, part at \<open>cp\<close>.\<close>

lemma lcp_parts:
  assumes "cp = lcp k p"
  shows "cp \<le> length k" "cp \<le> length p" "take cp k = take cp p"
    "cp < length k \<Longrightarrow> cp < length p \<Longrightarrow> k ! cp \<noteq> p ! cp"
    "k = take cp k @ drop cp k" "p = take cp k @ drop cp p"
  using assms lcp_le[of k p] lcp_take[of k p] lcp_nth[of k p] by (simp_all, metis append_take_drop_id)

lemma plook_pins_leaf:
  assumes "nibs p" "nibs k"
  shows "plook (pins (PLeaf p w) k v) k' = (if k' = k then Some v else plook (PLeaf p w) k')"
proof (cases "lcp k p = length p \<and> lcp k p = length k")
  case True
  then have "k = p" using lcp_take[of k p] by simp
  then show ?thesis using True by simp
next
  case False
  define cp where "cp = lcp k p"
  note c = lcp_parts[OF cp_def]
  obtain cs bv where h: "hang p cp w (no_kids, None) = (cs, bv)" "length cs = 16"
    using length_hang[of p cp w "(no_kids, None)"] by (metis fst_conv no_kids_simps(1) prod.collapse)
  have free: "cs ! unat (k ! cp) = None" if "cp < length k"
  proof -
    have "unat (k ! cp) < 16" using nibs_nth[OF assms(2) that] by (simp add: nib_unat)
    then show ?thesis using h(1) c(4)[OF that] that c(2)
      by (auto simp: hang_def nth_list_update split: if_splits)
  qed
  have look: "plook (pbranch (hang k cp v (cs, bv))) z = (if z = drop cp k then Some v else if z = drop cp p then Some w else None)" for z
  proof -
    have "plook (PBranch cs bv) z = (if z = drop cp p then Some w else plook (PBranch no_kids None) z)"
      using plook_hang[of no_kids p cp w None z] assms(1) c(2) h(1) nibs_nth[OF assms(1)]
      by (simp add: pbranch_def nib_unat)
    then show ?thesis using plook_hang[OF h(2) assms(2) c(1) free, of v bv z] by simp
  qed
  have p: "pins (PLeaf p w) k v = pwrap k cp (hang k cp v (cs, bv))"
    using False h(1) by (auto simp: Let_def simp flip: cp_def)
  show ?thesis
  proof (cases k' "take cp k" rule: prefix_cases)
    case (1 z)
    have "k' = k \<longleftrightarrow> z = drop cp k" "k' = p \<longleftrightarrow> z = drop cp p" using 1 c(5,6) by (metis same_append_eq)+
    then show ?thesis using plook_pwrap(1)[OF c(1)] look 1 p by simp
  next
    case 2
    then have "k' \<noteq> k" "k' \<noteq> p" using c(5,6) by metis+
    then show ?thesis using plook_pwrap(2)[OF c(1) 2] p by simp
  qed
qed

lemma plook_ext_tail:
  assumes "cp < length p"
  shows "plook (ext_tail p cp c) z = plook (PExt p c) (take (Suc cp) p @ z)"
proof -
  have p: "p = take (Suc cp) p @ drop (Suc cp) p" by simp
  show ?thesis
  proof (cases z "drop (Suc cp) p" rule: prefix_cases)
    case (1 y)
    then have "take (Suc cp) p @ z = p @ y" by (metis append.assoc p)
    then have "plook (PExt p c) (take (Suc cp) p @ z) = plook c y" by (simp add: plook_ext)
    then show ?thesis using 1 by (auto simp: ext_tail_def plook_ext)
  next
    case 2
    then have "\<nexists>y. take (Suc cp) p @ z = p @ y" by (metis append.assoc p same_append_eq)
    moreover have "Suc cp < length p" using 2 assms by (metis Suc_leI append_Nil drop_all le_neq_implies_less)
    ultimately show ?thesis using 2 by (simp add: ext_tail_def plook_ext)
  qed
qed

lemma plook_pins_ext:
  assumes "nibs p" "nibs k" "lcp k p \<noteq> length p"
  shows "plook (pins (PExt p c) k v) k' = (if k' = k then Some v else plook (PExt p c) k')"
proof -
  define cp where "cp = lcp k p"
  note c = lcp_parts[OF cp_def]
  have cp: "cp < length p" using assms(3) c(2) by (simp add: cp_def)
  then have n: "unat (p ! cp) < 16" using nibs_nth[OF assms(1)] by (simp add: nib_unat)
  define cs where "cs = no_kids[unat (p ! cp) := Some (ext_tail p cp c)]"
  have l: "length cs = 16" by (simp add: cs_def)
  have free: "cs ! unat (k ! cp) = None" if "cp < length k"
    using nibs_nth[OF assms(2) that] c(4)[OF that cp] by (simp add: cs_def nib_unat nth_list_update)
  have old: "plook (PBranch cs None) z = plook (PExt p c) (take cp p @ z)" for z
  proof (cases z)
    case Nil
    have "\<nexists>y. take cp p = p @ y" using cp by (metis append_eq_conv_conj le_add1 length_append length_take linorder_not_le min.absorb4)
    then show ?thesis using Nil by (simp add: plook_ext)
  next
    case (Cons m y)
    show ?thesis
    proof (cases "m = p ! cp")
      case True
      then have "take cp p @ z = take (Suc cp) p @ y" using Cons cp by (simp add: take_Suc_conv_app_nth)
      then have "plook (PExt p c) (take cp p @ z) = plook (ext_tail p cp c) y" using plook_ext_tail[OF cp] by simp
      then show ?thesis using True Cons n by (simp add: cs_def)
    next
      case False
      have "\<nexists>x. take cp p @ z = p @ x"
      proof
        assume "\<exists>x. take cp p @ z = p @ x"
        then obtain x where x: "take cp p @ m # y = p @ x" using Cons by blast
        have "(take cp p @ m # y) ! cp = m" using cp by (simp add: nth_append)
        moreover have "(p @ x) ! cp = p ! cp" using cp by (simp add: nth_append)
        ultimately show False using x False by simp
      qed
      then show ?thesis using False Cons by (simp add: cs_def plook_ext nth_list_update)
    qed
  qed
  have look: "plook (pbranch (hang k cp v (cs, None))) z = (if z = drop cp k then Some v else plook (PExt p c) (take cp k @ z))" for z
    using plook_hang[OF l assms(2) c(1) free, of v None z] old c(3) by simp
  have q: "pins (PExt p c) k v = pwrap k cp (hang k cp v (cs, None))"
    using assms(3) by (simp add: Let_def cs_def flip: cp_def)
  show ?thesis
  proof (cases k' "take cp k" rule: prefix_cases)
    case (1 z)
    have "k' = k \<longleftrightarrow> z = drop cp k" using 1 c(5) by (metis same_append_eq)
    then show ?thesis using plook_pwrap(1)[OF c(1)] look 1 q by simp
  next
    case 2
    then have "k' \<noteq> k" using c(5) by metis
    moreover have "\<nexists>z. k' = p @ z" using 2 c(6) by (metis append.assoc)
    ultimately show ?thesis using plook_pwrap(2)[OF c(1) 2] q by (simp add: plook_ext)
  qed
qed

lemma plook_pins:
  assumes "canon n t" "nibs k"
  shows "plook (pins t k v) k' = (if k' = k then Some v else plook t k')"
  using assms
proof (induction t k v arbitrary: n k' rule: pins.induct)
  case (1 p w k v)
  then show ?case by (intro plook_pins_leaf) simp_all
next
  case (2 p c k v)
  show ?case
  proof (cases "lcp k p = length p")
    case True
    then obtain z where z: "k = p @ z" using lcp_eq_length by blast
    have IH: "plook (pins c z v) y = (if y = z then Some v else plook c y)" for y
      using 2 True z by auto
    have "pins (PExt p c) k v = PExt p (pins c z v)" using True z by simp
    then show ?thesis
      by (cases k' p rule: prefix_cases) (auto simp: plook_ext IH z)
  next
    case False
    then show ?thesis using 2 by (intro plook_pins_ext) simp_all
  qed
next
  case (3 cs bv v)
  then show ?case by (cases k') simp_all
next
  case (4 cs bv m k v)
  have l: "length cs = 16" using 4 by (simp add: canon_branch)
  have m: "unat m < 16" using 4 by (simp add: nib_unat)
  show ?case
  proof (cases k')
    case (Cons a ks)
    have "plook (pins c k v) ks = (if ks = k then Some v else plook c ks)" if "cs ! unat m = Some c" for c
    proof -
      have "kid_ok n (cs ! unat m)" using 4 m l by (auto simp: canon_branch list_all_length)
      then show ?thesis using 4 that m l by (auto simp: kid_ok_def)
    qed
    then show ?thesis using Cons m l by (cases "a = m") (auto simp: nth_list_update split: option.splits)
  qed (use l m in simp)
qed


section \<open>Insertion keeps the normal form\<close>

lemma list_all_update: "list_all P xs \<Longrightarrow> P x \<Longrightarrow> list_all P (xs[i := x])"
  by (auto simp: list_all_iff dest!: set_update_subset_insert[THEN subsetD])

definition kids_ok :: "nat \<Rightarrow> pt option list \<times> byte list option \<Rightarrow> bool" where
  "kids_ok n = (\<lambda>(cs, bv). length cs = 16 \<and> list_all (kid_ok n) cs \<and> (\<forall>v. bv = Some v \<longrightarrow> val_ok v))"

lemma canon_pbranch: "canon n (pbranch x) \<longleftrightarrow> kids_ok n x \<and> diverse (fst x) (snd x)"
  by (cases x) (auto simp: pbranch_def canon_branch kids_ok_def)

lemma kids_ok_hang:
  assumes "kids_ok n x" "nibs path" "length path \<le> n + cp" "val_ok v" "cp \<le> length path"
  shows "kids_ok n (hang path cp v x)"
proof (cases "cp = length path")
  case True
  then show ?thesis using assms by (cases x) (simp add: kids_ok_def hang_def)
next
  case False
  then have "kid_ok n (Some (PLeaf (drop (Suc cp) path) v))" using assms by (simp add: kid_ok_def)
  then show ?thesis using assms False by (cases x) (simp add: kids_ok_def hang_def list_all_update)
qed

lemma kids_ok_no_kids: "kids_ok n (no_kids, None)"
  by (simp add: kids_ok_def no_kids_def kid_ok_def list_all_iff)

lemma canon_pwrap:
  assumes "canon (n - cp) (pbranch x)" "nibs k" "cp \<le> length k" "length k \<le> n"
  shows "canon n (pwrap k cp x)"
  using assms by (cases x) (auto simp: pwrap_def pbranch_def)

lemma diverseI_val: "bv \<noteq> None \<Longrightarrow> i < 16 \<Longrightarrow> cs ! i \<noteq> None \<Longrightarrow> diverse cs bv"
  by (auto simp: diverse_def)

lemma diverseI_kids: "i < 16 \<Longrightarrow> j < 16 \<Longrightarrow> i \<noteq> j \<Longrightarrow> cs ! i \<noteq> None \<Longrightarrow> cs ! j \<noteq> None \<Longrightarrow> diverse cs bv"
  unfolding diverse_def by blast

text \<open>The two subtrees of a split hang at different places.\<close>

lemma diverse_hang:
  assumes "length cs = 16" "nibs path" "cp \<le> length path"
    and "bv \<noteq> None \<and> cp < length path \<or> (\<exists>i < 16. cs ! i \<noteq> None \<and> (cp < length path \<longrightarrow> i \<noteq> unat (path ! cp)))"
  shows "diverse (fst (hang path cp v (cs, bv))) (snd (hang path cp v (cs, bv)))"
proof (cases "cp = length path")
  case True
  then show ?thesis using assms(4) by (auto simp: hang_def diverse_def)
next
  case False
  then have n: "unat (path ! cp) < 16" using nibs_nth[OF assms(2)] assms(3) by (simp add: nib_unat)
  show ?thesis
  proof (cases "bv = None")
    case True
    then obtain i where "i < 16" "cs ! i \<noteq> None" "i \<noteq> unat (path ! cp)" using assms(3,4) False by auto
    then show ?thesis using n assms(1) False
      by (intro diverseI_kids[of i "unat (path ! cp)"]) (simp_all add: hang_def)
  next
    case b: False
    then show ?thesis using n assms(1) False
      by (intro diverseI_val[of _ "unat (path ! cp)"]) (simp_all add: hang_def)
  qed
qed

lemma canon_pins_leaf:
  assumes "canon n (PLeaf p w)" "nibs k" "length k \<le> n" "val_ok v"
  shows "canon n (pins (PLeaf p w) k v)"
proof (cases "lcp k p = length p \<and> lcp k p = length k")
  case False
  define cp where "cp = lcp k p"
  note c = lcp_parts[OF cp_def]
  have p: "nibs p" "length p \<le> n" "val_ok w" using assms(1) by simp_all
  let ?x = "hang p cp w (no_kids, None)" and ?cs = "no_kids[unat (p ! cp) := Some (PLeaf (drop (Suc cp) p) w)]"
  have x: "kids_ok (n - cp) ?x" using kids_ok_hang[OF kids_ok_no_kids p(1) _ p(3) c(2), of "n - cp"] p(2) by simp
  have "diverse (fst (hang k cp v ?x)) (snd (hang k cp v ?x))"
  proof (cases "cp = length p")
    case True
    then have "cp < length k" using False c(1) by (auto simp: cp_def)
    then show ?thesis using True diverse_hang[of no_kids k cp "Some w" v] assms(2) c(1) by (simp add: hang_def)
  next
    case cp: False
    then have n: "unat (p ! cp) < 16" using nibs_nth[OF p(1)] c(2) by (simp add: nib_unat)
    have "diverse (fst (hang k cp v (?cs, None))) (snd (hang k cp v (?cs, None)))"
      using n cp c(1,2,4) assms(2)
      by (intro diverse_hang disjI2 exI[of _ "unat (p ! cp)"]) auto
    then show ?thesis using cp by (simp add: hang_def[of p])
  qed
  then have "canon (n - cp) (pbranch (hang k cp v ?x))"
    using kids_ok_hang[OF x assms(2) _ assms(4) c(1)] assms(3) by (simp add: canon_pbranch)
  then have "canon n (pwrap k cp (hang k cp v ?x))" using assms(2,3) c(1) by (intro canon_pwrap)
  then show ?thesis using False by (auto simp: Let_def simp flip: cp_def)
qed (use assms in simp)

lemma canon_mono: "canon m t \<Longrightarrow> m \<le> n \<Longrightarrow> canon n t"
proof (induction m t arbitrary: n rule: canon.induct)
  case (3 m cs bv)
  have "kid_ok n c" if "kid_ok m c" "c \<in> set cs" for c
    using that 3 by (auto simp: kid_ok_def in_set_conv_nth split: option.splits)
  then show ?case using 3(2) by (auto simp: canon_branch list_all_iff)
qed auto

lemma canon_ext_tail:
  assumes "canon n (PExt p c)" "cp < length p"
  shows "kid_ok (n - cp) (Some (ext_tail p cp c))"
proof (cases "Suc cp < length p")
  case True
  then show ?thesis using assms by (auto simp: ext_tail_def kid_ok_def)
next
  case False
  then have "length p = Suc cp" using assms(2) by simp
  then show ?thesis using assms by (auto simp: ext_tail_def kid_ok_def)
qed

lemma canon_pins_split:
  assumes "canon n (PExt p c)" "nibs k" "length k \<le> n" "val_ok v" "lcp k p \<noteq> length p"
  shows "canon n (pins (PExt p c) k v)"
proof -
  define cp where "cp = lcp k p"
  note c = lcp_parts[OF cp_def]
  have cp: "cp < length p" using assms(5) c(2) by (simp add: cp_def)
  then have n: "unat (p ! cp) < 16" using nibs_nth[of p cp] assms(1) by (simp add: nib_unat)
  let ?cs = "no_kids[unat (p ! cp) := Some (ext_tail p cp c)]"
  have x: "kids_ok (n - cp) (?cs, None)"
    using canon_ext_tail[OF assms(1) cp] kids_ok_no_kids[of "n - cp"] by (simp add: kids_ok_def list_all_update)
  have "diverse (fst (hang k cp v (?cs, None))) (snd (hang k cp v (?cs, None)))"
    using n cp c(1,4) assms(2) by (intro diverse_hang) (auto intro!: exI[of _ "unat (p ! cp)"])
  then have "canon (n - cp) (pbranch (hang k cp v (?cs, None)))"
    using kids_ok_hang[OF x assms(2) _ assms(4) c(1)] assms(3) by (simp add: canon_pbranch)
  then have "canon n (pwrap k cp (hang k cp v (?cs, None)))" using assms(2,3) c(1) by (intro canon_pwrap)
  then show ?thesis using assms(5) by (auto simp: Let_def simp flip: cp_def)
qed

lemma is_branch_pins: "is_branch t \<Longrightarrow> is_branch (pins t k v)"
  by (cases t; cases k) auto

lemma diverse_set:
  assumes "length cs = 16" "diverse cs bv"
  shows "diverse (cs[i := Some c]) bv"
proof -
  have "cs[i := Some c] ! j \<noteq> None" if "cs ! j \<noteq> None" "j < 16" for j
    using that assms(1) by (cases "i = j") auto
  then show ?thesis using assms(2) unfolding diverse_def by blast
qed

lemma canon_pins: "canon n t \<Longrightarrow> nibs k \<Longrightarrow> length k \<le> n \<Longrightarrow> val_ok v \<Longrightarrow> canon n (pins t k v)"
proof (induction t k v arbitrary: n rule: pins.induct)
  case (2 p c k v)
  show ?case
  proof (cases "lcp k p = length p")
    case True
    have "canon (n - length p) (pins c (drop (length p) k) v)" using 2 True by (auto intro!: 2(1)[OF refl])
    then show ?thesis using 2 True is_branch_pins by auto
  qed (use 2 canon_pins_split in blast)
next
  case (3 cs bv v)
  then show ?case by (auto simp: canon_branch diverse_def)
next
  case (4 cs bv m k v)
  have m: "unat m < 16" "length cs = 16" using 4 by (simp_all add: nib_unat canon_branch)
  have "kid_ok n (cs ! unat m)" using 4(2) m by (auto simp: canon_branch list_all_length)
  then have "kid_ok n (Some (case cs ! unat m of None \<Rightarrow> PLeaf k v | Some c \<Rightarrow> pins c k v))"
    using 4 m by (auto simp: kid_ok_def split: option.splits)
  then show ?case using 4(2) m by (auto simp: canon_branch list_all_update diverse_set)
qed (use canon_pins_leaf in blast)


section \<open>The normal form is unique\<close>

lemma canon_has_key: "canon n t \<Longrightarrow> \<exists>k. plook t k \<noteq> None"
proof (induction n t rule: canon.induct)
  case (2 n p c)
  then obtain k where "plook c k \<noteq> None" by auto
  then have "plook (PExt p c) (p @ k) \<noteq> None" by (simp add: plook_ext)
  then show ?case by blast
next
  case (3 n cs bv)
  have l: "length cs = 16" using 3(2) by (simp add: canon_branch)
  obtain i where i: "i < 16" "cs ! i \<noteq> None" using 3(2) by (auto simp: canon_branch diverse_def)
  then obtain c where c: "cs ! i = Some c" by blast
  moreover have "canon (n - 1) c" using 3(2) c i l by (auto simp: canon_branch list_all_length kid_ok_def)
  ultimately obtain k where "plook c k \<noteq> None" using 3(1)[of i c] i l by auto
  moreover have "unat (of_nat i :: byte) = i" using i(1) by (simp add: unat_of_nat_byte)
  ultimately have "plook (PBranch cs bv) (of_nat i # k) \<noteq> None" using i c l by simp
  then show ?case by blast
qed auto

text \<open>The keys of a branch have no first nibble in common.\<close>

lemma branch_diverges:
  assumes "canon n (PBranch cs bv)"
  shows "\<exists>k. plook (PBranch cs bv) k \<noteq> None \<and> (\<nexists>z. k = m # z)"
proof -
  have l: "length cs = 16" using assms by (simp add: canon_branch)
  consider "bv \<noteq> None" | i where "i < 16" "cs ! i \<noteq> None" "i \<noteq> unat m"
    using assms unfolding canon_branch diverse_def by metis
  then show ?thesis
  proof cases
    case (2 i)
    then obtain c where c: "cs ! i = Some c" by blast
    have "canon (n - 1) c" using assms c 2 l by (auto simp: canon_branch list_all_length kid_ok_def)
    then obtain k where "plook c k \<noteq> None" using canon_has_key by blast
    moreover have u: "unat (of_nat i :: byte) = i" using 2(1) by (simp add: unat_of_nat_byte)
    ultimately have "plook (PBranch cs bv) (of_nat i # k) \<noteq> None" using 2(1) c l by simp
    moreover have "\<nexists>z. of_nat i # k = m # z" using u 2(3) by auto
    ultimately show ?thesis by blast
  next
    case 1
    then have "plook (PBranch cs bv) [] \<noteq> None" by simp
    then show ?thesis by blast
  qed
qed

lemma ext_key: "plook (PExt p c) k \<noteq> None \<Longrightarrow> \<exists>z. k = p @ z \<and> plook c z \<noteq> None"
  by (cases k p rule: prefix_cases) (auto simp: plook_ext)

text \<open>A tree below an extension is longer than no other extension with the same keys.\<close>

lemma ext_prefix_le:
  assumes "canon n (PExt p c)" "canon m (PExt q d)" "plook (PExt p c) = plook (PExt q d)"
  shows "length q \<le> length p"
proof (rule ccontr)
  assume "\<not> length q \<le> length p"
  then have q: "length p < length q" by simp
  obtain cs bv where c: "c = PBranch cs bv" using assms(1) by (cases c) auto
  have cc: "canon (n - length p) (PBranch cs bv)" using assms(1) c by simp
  obtain k where k: "plook c k \<noteq> None" "\<nexists>z. k = q ! length p # z"
    using branch_diverges[OF cc] c by blast
  have "plook (PExt q d) (p @ k) \<noteq> None" using k(1) assms(3) by (simp add: plook_ext flip: assms(3))
  then obtain z where z: "p @ k = q @ z" using ext_key by blast
  have "k \<noteq> []" using z q by (metis append_Nil2 length_append not_add_less1)
  moreover have "(p @ k) ! length p = q ! length p" unfolding z using q by (simp add: nth_append)
  ultimately have "k = q ! length p # tl k" by (cases k) simp_all
  then show False using k(2) by blast
qed

lemma leaf_keys: "plook (PLeaf p v) k \<noteq> None \<longleftrightarrow> k = p"
  by simp

lemma branch_two_keys:
  assumes "canon n (PBranch cs bv)"
  obtains k k' where "plook (PBranch cs bv) k \<noteq> None" "plook (PBranch cs bv) k' \<noteq> None" "k \<noteq> k'"
proof -
  obtain k where k: "plook (PBranch cs bv) k \<noteq> None" using canon_has_key[OF assms] by blast
  show ?thesis
  proof (cases k)
    case (Cons m z)
    then show ?thesis using that k branch_diverges[OF assms, of m] by blast
  next
    case Nil
    obtain i where i: "i < 16" "cs ! i \<noteq> None" using assms by (auto simp: canon_branch diverse_def)
    have l: "length cs = 16" using assms by (simp add: canon_branch)
    obtain c where c: "cs ! i = Some c" using i by blast
    have "canon (n - 1) c" using assms c i l by (auto simp: canon_branch list_all_length kid_ok_def)
    then obtain z where "plook c z \<noteq> None" using canon_has_key by blast
    then have "plook (PBranch cs bv) (of_nat i # z) \<noteq> None" using i c l by (simp add: unat_of_nat_byte)
    then show ?thesis using that k Nil by blast
  qed
qed

lemma two_keys:
  assumes "canon n t" "\<And>p v. t \<noteq> PLeaf p v"
  obtains k k' where "plook t k \<noteq> None" "plook t k' \<noteq> None" "k \<noteq> k'"
proof (cases t)
  case (PExt p c)
  then obtain cs bv where c: "c = PBranch cs bv" using assms(1) by (cases c) auto
  then have "canon (n - length p) (PBranch cs bv)" using assms(1) PExt by simp
  then obtain k k' where "plook c k \<noteq> None" "plook c k' \<noteq> None" "k \<noteq> k'" using branch_two_keys c by metis
  then show ?thesis using that[of "p @ k" "p @ k'"] PExt by (simp add: plook_ext)
qed (use assms branch_two_keys that in \<open>metis+\<close>)

lemma canon_unique: "canon n t \<Longrightarrow> canon m s \<Longrightarrow> plook t = plook s \<Longrightarrow> t = s"
proof (induction n t arbitrary: m s rule: canon.induct)
  case (1 n p v)
  show ?case
  proof (cases "\<exists>q w. s = PLeaf q w")
    case True
    then obtain q w where s: "s = PLeaf q w" by blast
    have "plook s p = Some v" using 1(3) by (simp flip: 1(3))
    then show ?thesis using s by (auto split: if_splits)
  next
    case False
    then obtain k k' where "plook s k \<noteq> None" "plook s k' \<noteq> None" "k \<noteq> k'" using two_keys[OF 1(2)] by metis
    then show ?thesis using 1(3) by (metis leaf_keys)
  qed
next
  case (2 n p c)
  have c: "canon (n - length p) c" "p \<noteq> []" using 2(2) by simp_all
  show ?case
  proof (cases s)
    case (PLeaf q w)
    obtain k k' where "plook (PExt p c) k \<noteq> None" "plook (PExt p c) k' \<noteq> None" "k \<noteq> k'" using two_keys[OF 2(2)] by blast
    then show ?thesis using 2(4) PLeaf by (metis leaf_keys)
  next
    case (PExt q d)
    have len: "length p = length q"
      using ext_prefix_le[of n p c m q d] ext_prefix_le[of m q d n p c] 2(2-4) PExt by simp
    obtain k where k: "plook c k \<noteq> None" using canon_has_key[OF c(1)] by blast
    then have "plook (PExt q d) (p @ k) \<noteq> None" using 2(4) PExt by (metis plook_ext(1))
    then have pq: "p = q" using ext_key len by (metis append_eq_append_conv)
    have "plook c z = plook d z" for z using 2(4) PExt pq by (metis plook_ext(1))
    then have "c = d" using 2(1)[OF c(1)] 2(3) PExt by (auto intro: ext)
    then show ?thesis using PExt pq by simp
  next
    case (PBranch cs bv)
    obtain k where k: "plook s k \<noteq> None" "\<nexists>z. k = hd p # z" using branch_diverges 2(3) PBranch by metis
    then have "plook (PExt p c) k \<noteq> None" using 2(4) by simp
    then show ?thesis using ext_key k(2) c(2) by (metis append_Cons list.collapse)
  qed
next
  case (3 n cs bv)
  show ?case
  proof (cases s)
    case (PLeaf q w)
    obtain k k' where "plook (PBranch cs bv) k \<noteq> None" "plook (PBranch cs bv) k' \<noteq> None" "k \<noteq> k'" using two_keys[OF 3(2)] by blast
    then show ?thesis using 3(4) PLeaf by (metis leaf_keys)
  next
    case (PExt q d)
    obtain k where k: "plook (PBranch cs bv) k \<noteq> None" "\<nexists>z. k = hd q # z" using branch_diverges 3(2) by metis
    then have "plook (PExt q d) k \<noteq> None" using 3(4) PExt by simp
    moreover have "q \<noteq> []" using 3(3) PExt by simp
    ultimately show ?thesis using ext_key k(2) by (metis append_Cons list.collapse)
  next
    case (PBranch ds dv)
    have l: "length cs = 16" "length ds = 16" using 3(2,3) PBranch by (simp_all add: canon_branch)
    have "bv = dv" using 3(4) PBranch by (metis plook.simps(3))
    moreover have "cs ! i = ds ! i" if i: "i < 16" for i
    proof -
      have u: "unat (of_nat i :: byte) = i" using i by (simp add: unat_of_nat_byte)
      have at: "Option.bind (cs ! i) (\<lambda>c. plook c k) = Option.bind (ds ! i) (\<lambda>c. plook c k)" for k
        using fun_cong[OF 3(4), of "of_nat i # k"] PBranch l u i by (simp split: option.splits)
      have kid: "canon (n - 1) c" if "cs ! i = Some c" for c
        using 3(2) i l that by (auto simp: canon_branch list_all_length kid_ok_def)
      have kid': "canon (m - 1) d" if "ds ! i = Some d" for d
        using 3(3) PBranch i l that by (auto simp: canon_branch list_all_length kid_ok_def)
      show ?thesis
      proof (cases "cs ! i")
        case None
        then have "\<nexists>d. ds ! i = Some d" using at kid' canon_has_key by (metis Option.bind.bind_lzero Option.bind.bind_lunit)
        then show ?thesis using None by simp
      next
        case (Some c)
        obtain z where "plook c z \<noteq> None" using canon_has_key[OF kid[OF Some]] by blast
        then obtain d where d: "ds ! i = Some d" using at[of z] Some by (cases "ds ! i") simp_all
        have "plook c = plook d" using at Some d by (auto intro: ext)
        moreover have "0 < n" using 3(2) i l Some by (auto simp: canon_branch list_all_length kid_ok_def)
        ultimately have "c = d" using i l kid[OF Some] kid'[OF d] Some by (intro 3(1)[of i c "m - 1" d]) simp_all
        then show ?thesis using Some d by simp
      qed
    qed
    ultimately show ?thesis using PBranch l by (simp add: nth_equalityI)
  qed
qed


section \<open>Deletion is map removal\<close>

definition plook_opt :: "pt option \<Rightarrow> byte list \<Rightarrow> byte list option" where
  "plook_opt r k = Option.bind r (\<lambda>t. plook t k)"

lemma plook_opt_simps [simp]: "plook_opt None k = None" "plook_opt (Some t) k = plook t k"
  by (simp_all add: plook_opt_def)

lemma plook_pmerge:
  "plook_opt (pmerge p r) (p @ z) = plook_opt r z"
  "(\<nexists>z. k = p @ z) \<Longrightarrow> plook_opt (pmerge p r) k = None"
proof -
  show "plook_opt (pmerge p r) (p @ z) = plook_opt r z"
  proof (cases "(p, r)" rule: pmerge.cases)
    case (3 p' q c)
    show ?thesis
    proof (cases z q rule: prefix_cases)
      case (1 y)
      then show ?thesis using 3 plook_ext(1)[of "p @ q" c y] by (simp add: plook_ext)
    next
      case 2
      then have "\<nexists>y. p @ z = (p @ q) @ y" by simp
      then show ?thesis using 3 2 plook_ext(2)[of "p @ z" "p @ q" c] by (simp add: plook_ext)
    qed
  qed (auto simp: plook_ext)
  assume k: "\<nexists>z. k = p @ z"
  then have "\<nexists>z. k = (p @ q) @ z" for q by simp
  then show "plook_opt (pmerge p r) k = None"
    using k by (cases "(p, r)" rule: pmerge.cases) (auto simp: plook_ext(2))
qed

lemma filter_kids_Nil: "filter (\<lambda>i. cs ! i \<noteq> None) [0 ..< 16] = [] \<Longrightarrow> i < 16 \<Longrightarrow> cs ! i = None"
  by (metis (mono_tags, lifting) atLeastLessThan_iff empty_filter_conv set_upt zero_le)

lemma filter_kids_single:
  assumes "filter (\<lambda>i. cs ! i \<noteq> None) [0 ..< 16] = [j]"
  shows "j < 16" "cs ! j \<noteq> None" "i < 16 \<Longrightarrow> i \<noteq> j \<Longrightarrow> cs ! i = None"
proof -
  have "{i. i < 16 \<and> cs ! i \<noteq> None} = {j}" using arg_cong[OF assms, of set] by auto
  then show "j < 16" "cs ! j \<noteq> None" "i < 16 \<Longrightarrow> i \<noteq> j \<Longrightarrow> cs ! i = None" by blast+
qed

lemma pcollapse_cases:
  obtains (none) "bv = None" "pcollapse cs bv = None" "\<And>i. i < 16 \<Longrightarrow> cs ! i = None"
  | (val) v where "bv = Some v" "pcollapse cs bv = Some (PLeaf [] v)" "\<And>i. i < 16 \<Longrightarrow> cs ! i = None"
  | (child) j where "bv = None" "pcollapse cs bv = pmerge [of_nat j] (cs ! j)" "j < 16" "cs ! j \<noteq> None"
      "\<And>i. i < 16 \<Longrightarrow> i \<noteq> j \<Longrightarrow> cs ! i = None"
  | (branch) "pcollapse cs bv = Some (PBranch cs bv)" "diverse cs bv"
proof -
  define f where "f = filter (\<lambda>i. cs ! i \<noteq> None) [0 ..< 16]"
  have pc: "pcollapse cs bv = (case (f, bv) of ([], None) \<Rightarrow> None | ([], Some v) \<Rightarrow> Some (PLeaf [] v)
      | ([i], None) \<Rightarrow> pmerge [of_nat i] (cs ! i) | _ \<Rightarrow> Some (PBranch cs bv))"
    by (simp only: pcollapse_def f_def)
  have d: "distinct f" by (simp add: f_def)
  have mem: "i < 16 \<and> cs ! i \<noteq> None" if "i \<in> set f" for i using that by (auto simp: f_def)
  consider "f = []" | j where "f = [j]" | i j l where "f = i # j # l" by (metis list.exhaust)
  then show ?thesis
  proof cases
    case 1
    then have e: "cs ! i = None" if "i < 16" for i using filter_kids_Nil[OF _ that] unfolding f_def by blast
    show ?thesis
    proof (cases bv)
      case None
      then show ?thesis using 1 e pc by (intro none) simp_all
    next
      case (Some v)
      then show ?thesis using 1 e pc by (intro val[of v]) simp_all
    qed
  next
    case (2 j)
    note s = filter_kids_single[of cs j, folded f_def, OF 2]
    show ?thesis
    proof (cases bv)
      case None
      then show ?thesis using child[of j] 2 s pc by simp
    next
      case (Some v)
      then have "diverse cs bv" using s by (intro diverseI_val[of _ j]) simp_all
      then show ?thesis using branch Some 2 pc by simp
    qed
  next
    case (3 i j l)
    then have "diverse cs bv" using d mem[of i] mem[of j] by (intro diverseI_kids[of i j]) auto
    then show ?thesis using branch 3 pc by simp
  qed
qed

lemma plook_pcollapse:
  assumes "length cs = 16"
  shows "plook_opt (pcollapse cs bv) k = plook (PBranch cs bv) k"
proof (cases bv cs rule: pcollapse_cases)
  case (child j)
  show ?thesis
  proof (cases k)
    case Nil
    then have "\<nexists>z. k = [of_nat j] @ z" by simp
    then show ?thesis using child Nil plook_pmerge(2)[of k "[of_nat j]" "cs ! j"] by simp
  next
    case (Cons m z)
    show ?thesis
    proof (cases "m = of_nat j")
      case True
      then have "unat m = j" using child(3) by (simp add: unat_of_nat_byte)
      then show ?thesis using child Cons True assms plook_pmerge(1)[of "[of_nat j]" "cs ! j" z]
        by (auto split: option.splits)
    next
      case False
      then have "unat m \<noteq> j" by (metis of_nat_unat ucast_id)
      moreover have "\<nexists>z. k = [of_nat j] @ z" using Cons False by simp
      ultimately show ?thesis using child Cons assms plook_pmerge(2)[of k "[of_nat j]" "cs ! j"] by simp
    qed
  qed
qed (cases k; simp add: assms)+

lemma pdel_spec:
  assumes "canon n t" "pdel t k = (r, b)"
  shows "(b \<longleftrightarrow> plook t k \<noteq> None) \<and> (b \<longrightarrow> (\<forall>y. plook_opt r y = (if y = k then None else plook t y))) \<and> (\<not> b \<longrightarrow> r = Some t)"
  using assms
proof (induction t k arbitrary: n r b rule: pdel.induct)
  case (1 p v k)
  then show ?case by (auto split: if_splits)
next
  case (2 p c k)
  show ?case
  proof (cases k p rule: prefix_cases)
    case (1 z)
    then have l: "lcp k p = length p" using lcp_eq_length by blast
    obtain r' b' where d: "pdel c z = (r', b')" by fastforce
    have IH: "(b' \<longleftrightarrow> plook c z \<noteq> None) \<and> (b' \<longrightarrow> (\<forall>y. plook_opt r' y = (if y = z then None else plook c y))) \<and> (\<not> b' \<longrightarrow> r' = Some c)"
      using 2(1)[of "n - length p" r' b'] 2(2) l d 1 by simp
    have "plook_opt (pmerge p r') y = (if y = k then None else plook (PExt p c) y)" if "b'" for y
      using IH that 1 by (cases y p rule: prefix_cases) (auto simp: plook_ext plook_pmerge)
    then show ?thesis using 2(3) l d IH 1 by (auto simp: plook_ext split: if_splits)
  next
    case notp: 2
    then have "lcp k p \<noteq> length p" using lcp_eq_length by blast
    then show ?thesis using 2(3) notp by (auto simp: plook_ext)
  qed
next
  case (3 cs bv)
  have l: "length cs = 16" using 3(1) by (simp add: canon_branch)
  show ?case
  proof (cases "bv = None")
    case False
    have "plook_opt (pcollapse cs None) y = (if y = [] then None else plook (PBranch cs bv) y)" for y
      unfolding plook_pcollapse[OF l] by (cases y) simp_all
    then show ?thesis using 3(2) False by auto
  qed (use 3(2) in simp)
next
  case (4 cs bv m k)
  have l: "length cs = 16" using 4(2) by (simp add: canon_branch)
  show ?case
  proof (cases "unat m < 16")
    case m: True
    show ?thesis
    proof (cases "cs ! unat m")
      case None
      then show ?thesis using 4(3) m l by simp
    next
      case (Some c)
      obtain r' b' where d: "pdel c k = (r', b')" by fastforce
      have "canon (n - 1) c" using 4(2) m l Some by (auto simp: canon_branch list_all_length kid_ok_def)
      then have IH: "(b' \<longleftrightarrow> plook c k \<noteq> None) \<and> (b' \<longrightarrow> (\<forall>y. plook_opt r' y = (if y = k then None else plook c y))) \<and> (\<not> b' \<longrightarrow> r' = Some c)"
        using 4(1)[of c "n - 1" r' b'] m l Some d by simp
      have "plook (PBranch (cs[unat m := r']) bv) y = (if y = m # k then None else plook (PBranch cs bv) y)" if "b'" for y
      proof (cases y)
        case (Cons a z)
        have "plook_opt r' z = (if z = k then None else plook c z)" using IH that by simp
        then show ?thesis using Cons m l Some
          by (cases "a = m") (auto simp: nth_list_update plook_opt_def split: option.splits)
      qed simp
      then have "\<forall>y. plook_opt (pcollapse (cs[unat m := r']) bv) y = (if y = m # k then None else plook (PBranch cs bv) y)" if "b'"
        using that plook_pcollapse[of "cs[unat m := r']" bv] l by simp
      then show ?thesis using 4(3) m l Some d IH by (cases b') auto
    qed
  qed (use 4(3) l in simp)
qed

section \<open>Deletion keeps the normal form\<close>

lemma canon_pmerge:
  assumes "canon (n - length p) t" "p \<noteq> []" "nibs p" "length p \<le> n"
  shows "\<exists>s. pmerge p (Some t) = Some s \<and> canon n s"
  using assms by (cases t) (auto simp: canon_branch)

lemma canon_pcollapse:
  assumes "length cs = 16" "list_all (kid_ok n) cs" "\<forall>v. bv = Some v \<longrightarrow> val_ok v" "pcollapse cs bv = Some s"
  shows "canon n s"
proof (cases bv cs rule: pcollapse_cases)
  case (child j)
  then obtain c where c: "cs ! j = Some c" by blast
  have k: "0 < n" "canon (n - 1) c" using assms(1,2) c child(3) by (auto simp: list_all_length kid_ok_def)
  have "(of_nat j :: byte) < 16" using child(3) by (simp add: nib_unat unat_of_nat_byte)
  then obtain s' where "pmerge [of_nat j] (Some c) = Some s'" "canon n s'"
    using canon_pmerge[of n "[of_nat j]" c] k by auto
  then show ?thesis using child(2) c assms(4) by simp
next
  case branch
  then show ?thesis using assms by (simp add: canon_branch)
qed (use assms in auto)

lemma canon_pdel:
  assumes "canon n t" "pdel t k = (Some s, b)"
  shows "canon n s"
  using assms
proof (induction t k arbitrary: n s b rule: pdel.induct)
  case (1 p v k)
  then show ?case by (auto split: if_splits)
next
  case (2 p c k)
  show ?case
  proof (cases "lcp k p = length p \<and> snd (pdel c (drop (length p) k))")
    case True
    then obtain r where d: "pdel c (drop (length p) k) = (r, True)" by (metis prod.collapse)
    then obtain t where t: "r = Some t" using 2(3) True by (cases r) auto
    then have "canon (n - length p) t" using 2(1)[of "n - length p" t True] 2(2) d True by simp
    then show ?thesis using canon_pmerge[of n p t] 2(2,3) d t True by auto
  qed (use 2 in \<open>auto split: if_splits prod.splits\<close>)
next
  case (3 cs bv)
  then show ?case by (auto simp: canon_branch split: if_splits intro: canon_pcollapse)
next
  case (4 cs bv m k)
  have l: "length cs = 16" using 4(2) by (simp add: canon_branch)
  show ?case
  proof (cases "unat m < 16 \<and> (\<exists>c r. cs ! unat m = Some c \<and> pdel c k = (r, True))")
    case True
    then obtain c r where m: "unat m < 16" "cs ! unat m = Some c" "pdel c k = (r, True)" by blast
    have k: "0 < n" "canon (n - 1) c" using 4(2) m l by (auto simp: canon_branch list_all_length kid_ok_def)
    have "kid_ok n r"
      using 4(1)[of c "n - 1" _ True] m l k by (cases r) (simp_all add: kid_ok_def)
    then have "list_all (kid_ok n) (cs[unat m := r])" using 4(2) by (simp add: canon_branch list_all_update)
    then show ?thesis using canon_pcollapse[of "cs[unat m := r]" n bv s] 4(2,3) m l by (auto simp: canon_branch)
  qed (use 4 l in \<open>auto split: if_splits prod.splits option.splits\<close>)
qed

end
