(* ===== verification/Trie_Correct.thy ===== *)
theory Trie_Correct
  imports Trie Patricia
begin

text \<open>
  The Merkle Patricia trie implements the trees of theory Patricia, and so a map from keys to
  values. For a hash function \<open>K\<close> every tree has one node and one reference (\<open>node_of\<close>,
  \<open>mk_ref\<close>); a trie represents a tree when its root is the hash of the tree's node and the store
  has the encodings of the subtrees. What is assumed of \<open>K\<close> is that it has no collision
  on the finite set of encodings the operations read and write, and does not map one of them to
  the root constant of the empty trie.
\<close>

section \<open>Trees as nodes\<close>

definition mk_ref :: "(byte list \<Rightarrow> h256) \<Rightarrow> trie_node \<Rightarrow> node_ref" where
  "mk_ref K n = (if length (enc n) < 32 then Inline n else HashRef (K (enc n)))"

primrec node_of :: "(byte list \<Rightarrow> h256) \<Rightarrow> pt \<Rightarrow> trie_node" where
  "node_of K (PLeaf p v) = Leaf p v"
| "node_of K (PExt p c) = Extension p (mk_ref K (node_of K c))"
| "node_of K (PBranch cs bv) =
     Branch (map (\<lambda>c. case c of None \<Rightarrow> EmptyRef | Some n \<Rightarrow> mk_ref K n) (map (map_option (node_of K)) cs)) bv"

definition ref_opt :: "(byte list \<Rightarrow> h256) \<Rightarrow> pt option \<Rightarrow> node_ref" where
  "ref_opt K c = (case c of None \<Rightarrow> EmptyRef | Some t \<Rightarrow> mk_ref K (node_of K t))"

lemma node_of_branch [simp]: "node_of K (PBranch cs bv) = Branch (map (ref_opt K) cs) bv"
  by (auto simp: ref_opt_def split: option.splits)

declare node_of.simps(3) [simp del]

lemma ref_opt_simps [simp]: "ref_opt K None = EmptyRef" "ref_opt K (Some t) = mk_ref K (node_of K t)"
  by (simp_all add: ref_opt_def)

text \<open>The encodings of the proper subtrees, and of all subtrees.\<close>

primrec encs :: "(byte list \<Rightarrow> h256) \<Rightarrow> pt \<Rightarrow> byte list set" where
  "encs K (PLeaf p v) = {enc (node_of K (PLeaf p v))}"
| "encs K (PExt p c) = insert (enc (node_of K (PExt p c))) (encs K c)"
| "encs K (PBranch cs bv) = insert (enc (node_of K (PBranch cs bv)))
     (\<Union> (set (map (\<lambda>c. case c of None \<Rightarrow> {} | Some s \<Rightarrow> s) (map (map_option (encs K)) cs))))"

definition kids_encs :: "(byte list \<Rightarrow> h256) \<Rightarrow> pt option list \<Rightarrow> byte list set" where
  "kids_encs K cs = (\<Union>t \<in> {t. Some t \<in> set cs}. encs K t)"

fun sub_encs :: "(byte list \<Rightarrow> h256) \<Rightarrow> pt \<Rightarrow> byte list set" where
  "sub_encs K (PLeaf p v) = {}"
| "sub_encs K (PExt p c) = encs K c"
| "sub_encs K (PBranch cs bv) = kids_encs K cs"

lemma encs_sub: "encs K t = insert (enc (node_of K t)) (sub_encs K t)"
proof (cases t)
  case (PBranch cs bv)
  have "(\<Union> (set (map (\<lambda>c. case c of None \<Rightarrow> {} | Some s \<Rightarrow> s) (map (map_option (encs K)) cs)))) = kids_encs K cs"
    by (auto simp: kids_encs_def split: option.splits)
  then show ?thesis using PBranch by (simp del: map_map set_map node_of_branch)
qed simp_all

lemma enc_in_encs [simp]: "enc (node_of K t) \<in> encs K t"
  by (simp add: encs_sub)

declare encs.simps [simp del]

lemma kids_encs_nth: "i < length cs \<Longrightarrow> cs ! i = Some t \<Longrightarrow> encs K t \<subseteq> kids_encs K cs"
  unfolding kids_encs_def by (metis (mono_tags, lifting) UN_upper mem_Collect_eq nth_mem)

lemma kids_encs_update: "kids_encs K (cs[i := c]) \<subseteq> kids_encs K cs \<union> (case c of None \<Rightarrow> {} | Some t \<Rightarrow> encs K t)"
  by (auto simp: kids_encs_def dest!: set_update_subset_insert[THEN subsetD])

lemma kids_encs_update_in: "i < length cs \<Longrightarrow> encs K t \<subseteq> kids_encs K (cs[i := Some t])"
  by (rule kids_encs_nth[of i]) simp_all

lemma kids_encs_no_kids [simp]: "kids_encs K no_kids = {}"
  by (simp add: kids_encs_def no_kids_def)

text \<open>The node of a tree in normal form decodes from its encoding.\<close>

lemma node_of_not_Empty [simp]: "node_of K t \<noteq> Empty"
  by (cases t) simp_all

lemma canon_node_ok: "canon n t \<Longrightarrow> n < 2 ^ 60 \<Longrightarrow> node_ok (node_of K t)"
proof (induction n t rule: canon.induct)
  case (3 n cs bv)
  have "ref_ok (ref_opt K c)" if c: "c \<in> set cs" for c
  proof -
    obtain i where i: "i < length cs" "cs ! i = c" using c by (auto simp: in_set_conv_nth)
    show ?thesis
    proof (cases c)
      case (Some t)
      have "0 < n" "canon (n - 1) t" using 3(2) i Some by (auto simp: canon_branch list_all_length kid_ok_def)
      then have "node_ok (node_of K t)" using 3(1)[of i t] i Some 3(3) by simp
      then show ?thesis using Some by (simp add: mk_ref_def)
    qed simp
  qed
  then show ?case using 3(2) by (auto simp: canon_branch list_all_iff val_ok_def split: option.splits)
qed (auto simp: val_ok_def mk_ref_def)

section \<open>The store\<close>

definition collision_free :: "(byte list \<Rightarrow> h256) \<Rightarrow> byte list set \<Rightarrow> bool" where
  "collision_free K U \<longleftrightarrow> inj_on K U \<and> EMPTY_ROOT \<notin> K ` U"

definition sound :: "(byte list \<Rightarrow> h256) \<Rightarrow> byte list set \<Rightarrow> trie \<Rightarrow> bool" where
  "sound K U t \<longleftrightarrow> (\<forall>(h, e) \<in> set (cache t). h = K e \<and> e \<in> U) \<and> (\<forall>h e. db t h = Some e \<longrightarrow> h = K e \<and> e \<in> U)"

lemma sound_fetch: "sound K U t \<Longrightarrow> fetch t h = Some e \<Longrightarrow> h = K e \<and> e \<in> U"
  by (auto simp: sound_def fetch_def split: option.splits dest!: map_of_SomeD)

definition grows :: "(byte list \<Rightarrow> h256) \<Rightarrow> byte list set \<Rightarrow> trie \<Rightarrow> trie \<Rightarrow> bool" where
  "grows K U t t' \<longleftrightarrow> sound K U t' \<and> (\<forall>h e. fetch t h = Some e \<longrightarrow> fetch t' h = Some e)
     \<and> root t' = root t \<and> db t' = db t"

lemma grows_refl: "sound K U t \<Longrightarrow> grows K U t t"
  by (simp add: grows_def)

lemma grows_trans: "grows K U t s \<Longrightarrow> grows K U s u \<Longrightarrow> grows K U t u"
  by (simp add: grows_def)

lemma grows_sound: "grows K U t s \<Longrightarrow> sound K U s"
  by (simp add: grows_def)

definition stored :: "(byte list \<Rightarrow> h256) \<Rightarrow> trie \<Rightarrow> byte list set \<Rightarrow> bool" where
  "stored K t S \<longleftrightarrow> (\<forall>e \<in> S. 32 \<le> length e \<longrightarrow> fetch t (K e) = Some e)"

lemma stored_grows: "grows K U t s \<Longrightarrow> stored K t S \<Longrightarrow> stored K s S"
  by (auto simp: stored_def grows_def)

lemma stored_mono: "stored K t S \<Longrightarrow> S' \<subseteq> S \<Longrightarrow> stored K t S'"
  by (auto simp: stored_def)

lemma stored_Un: "stored K t (A \<union> B) \<longleftrightarrow> stored K t A \<and> stored K t B"
  by (auto simp: stored_def)

lemma push_grows:
  assumes "collision_free K U" "sound K U t" "e \<in> U"
  shows "grows K U t (t\<lparr>cache := (K e, e) # cache t\<rparr>)" "fetch (t\<lparr>cache := (K e, e) # cache t\<rparr>) (K e) = Some e"
proof -
  have "fetch (t\<lparr>cache := (K e, e) # cache t\<rparr>) h = (if h = K e then Some e else fetch t h)" for h
    by (simp add: fetch_def split: option.split)
  moreover have "e' = e" if "fetch t (K e) = Some e'" for e'
    using sound_fetch[OF assms(2) that] assms(1,3) by (auto simp: collision_free_def inj_on_def)
  ultimately show "grows K U t (t\<lparr>cache := (K e, e) # cache t\<rparr>)" "fetch (t\<lparr>cache := (K e, e) # cache t\<rparr>) (K e) = Some e"
    using assms(2,3) by (auto simp: grows_def sound_def)
qed

lemma store_node_spec:
  assumes "collision_free K U" "sound K U t" "enc n \<in> U"
  obtains t' where "store_node K t n = (Ok (mk_ref K n), t')" "grows K U t t'" "stored K t' {enc n}"
proof (cases "length (enc n) < 32")
  case True
  then show ?thesis using that[of t] grows_refl[OF assms(2)]
    by (simp add: store_node_def trie_encode_enc mk_ref_def stored_def)
next
  case False
  then show ?thesis using that push_grows[OF assms]
    by (simp add: store_node_def trie_encode_enc mk_ref_def stored_def)
qed

lemma store_node_short: "length (enc n) < 32 \<Longrightarrow> store_node K t n = (Ok (mk_ref K n), t)"
  by (simp add: store_node_def trie_encode_enc mk_ref_def)

lemma resolve_ref:
  assumes "collision_free K U" "sound K U t" "canon n s" "n < 2 ^ 60" "stored K t {enc (node_of K s)}"
  shows "resolve t (mk_ref K (node_of K s)) = Ok (node_of K s)"
proof (cases "length (enc (node_of K s)) < 32")
  case False
  then have f: "fetch t (K (enc (node_of K s))) = Some (enc (node_of K s))" using assms(5) by (simp add: stored_def)
  then have "K (enc (node_of K s)) \<noteq> EMPTY_ROOT"
    using sound_fetch[OF assms(2) f] assms(1) imageI[of _ U K] unfolding collision_free_def by metis
  then show ?thesis using f False trie_decode_enc[OF canon_node_ok[OF assms(3,4)]]
    by (simp add: resolve_def mk_ref_def del: bind_res_Ok_iff)
qed (simp add: resolve_def mk_ref_def)


section \<open>Insertion\<close>

lemma nib_at_Ok: "i < length xs \<Longrightarrow> nib_at xs i = Ok (xs ! i)"
  by (simp add: nib_at_def)

lemma nib_sub_tail: "i < length xs \<Longrightarrow> nib_sub xs (Suc i) (length xs - Suc i) = Ok (drop (Suc i) xs)"
  by (simp add: nib_sub_def slice_def) linarith

lemma nib_sub_head: "i \<le> length xs \<Longrightarrow> nib_sub xs 0 i = Ok (take i xs)"
  by (simp add: nib_sub_def slice_def)

lemma set_child_refs: "unat i < length cs \<Longrightarrow> set_child (map (ref_opt K) cs) i (ref_opt K c) = Ok (map (ref_opt K) (cs[unat i := c]))"
  by (simp add: set_child_def map_update)

lemma set_child_Some:
  "unat i < length cs \<Longrightarrow> set_child (map (ref_opt K) cs) i (mk_ref K (node_of K t)) = Ok (map (ref_opt K) (cs[unat i := Some t]))"
  using set_child_refs[of i cs K "Some t"] by simp

lemma get_child_refs: "unat i < length cs \<Longrightarrow> get_child (map (ref_opt K) cs) i = Ok (ref_opt K (cs ! unat i))"
  by (simp add: get_child_def)

lemma no_children_refs: "no_children = map (ref_opt K) no_kids"
  by (simp add: no_children_def no_kids_def)

lemma store_tree:
  assumes "collision_free K U" "sound K U t" "encs K s \<subseteq> U" "stored K t (sub_encs K s)"
  obtains t' where "store_node K t (node_of K s) = (Ok (mk_ref K (node_of K s)), t')" "grows K U t t'" "stored K t' (encs K s)"
proof -
  have "enc (node_of K s) \<in> U" using assms(3) enc_in_encs by blast
  then obtain t' where "store_node K t (node_of K s) = (Ok (mk_ref K (node_of K s)), t')" "grows K U t t'"
    "stored K t' {enc (node_of K s)}" using store_node_spec[OF assms(1,2)] by blast
  then show ?thesis using that assms(4) stored_grows stored_Un[of K t' "{enc (node_of K s)}" "sub_encs K s"]
    by (metis encs_sub insert_is_Un)
qed

lemma hang_leaf_spec:
  assumes "collision_free K U" "sound K U t" "nibs path" "cp \<le> length path" "length cs = 16"
    and "stored K t (kids_encs K cs)" "hang path cp v (cs, bv) = (cs', bv')" "kids_encs K cs' \<subseteq> U"
  obtains t' where "hang_leaf K t path cp v (map (ref_opt K) cs, bv) = (Ok (map (ref_opt K) cs', bv'), t')"
    "grows K U t t'" "stored K t' (kids_encs K cs')" "length cs' = 16"
proof (cases "cp = length path")
  case True
  then show ?thesis using that[of t] assms grows_refl by (simp add: hang_leaf_def hang_def)
next
  case False
  then have cp: "cp < length path" using assms(4) by simp
  then have i: "unat (path ! cp) < length cs" using nibs_nth[OF assms(3)] assms(5) by (simp add: nib_unat)
  let ?s = "PLeaf (drop (Suc cp) path) v"
  have cs': "cs' = cs[unat (path ! cp) := Some ?s]" "bv' = bv" using assms(7) False by (auto simp: hang_def)
  have "encs K ?s \<subseteq> U" using kids_encs_update_in[OF i, of K ?s] assms(8) cs' by blast
  moreover have "stored K t (sub_encs K ?s)" by (simp add: stored_def)
  ultimately obtain t' where t': "store_node K t (node_of K ?s) = (Ok (mk_ref K (node_of K ?s)), t')"
    "grows K U t t'" "stored K t' (encs K ?s)" using store_tree[OF assms(1,2)] by blast
  have "stored K t' (kids_encs K cs \<union> encs K ?s)"
    using t'(3) stored_grows[OF t'(2) assms(6)] by (simp add: stored_Un)
  then have "stored K t' (kids_encs K cs')"
    using kids_encs_update[of K cs "unat (path ! cp)" "Some ?s"] by (auto simp: cs' intro: stored_mono)
  moreover have "hang_leaf K t path cp v (map (ref_opt K) cs, bv) = (Ok (map (ref_opt K) cs', bv'), t')"
    using t'(1) cp set_child_Some[OF i, of K ?s, where 'a = trie_error]
    by (simp add: hang_leaf_def nib_at_Ok nib_sub_tail cs')
  ultimately show ?thesis using that t'(2) cs' assms(5) by simp
qed

lemma wrap_branch_spec:
  assumes "collision_free K U" "sound K U t" "cp \<le> length k" "stored K t (kids_encs K cs)"
    and "encs K (pwrap k cp (cs, bv)) \<subseteq> U"
  obtains t' where "wrap_branch K t k cp (map (ref_opt K) cs, bv) = (Ok (node_of K (pwrap k cp (cs, bv))), t')"
    "grows K U t t'" "stored K t' (sub_encs K (pwrap k cp (cs, bv)))"
proof (cases "cp > 0")
  case True
  then have U: "encs K (PBranch cs bv) \<subseteq> U" using assms(5) by (simp add: pwrap_def encs_sub)
  obtain t' where t': "store_node K t (node_of K (PBranch cs bv)) = (Ok (mk_ref K (node_of K (PBranch cs bv))), t')"
    "grows K U t t'" "stored K t' (encs K (PBranch cs bv))"
    using store_tree[OF assms(1,2) U] assms(4) by auto
  then show ?thesis using that[of t'] True assms(3) by (simp add: wrap_branch_def pwrap_def nib_sub_head)
next
  case False
  then show ?thesis using that[of t] assms grows_refl by (simp add: wrap_branch_def pwrap_def)
qed

text \<open>What an insertion leaves: the node of the new tree, with its subtrees in the store.\<close>

definition builds :: "(byte list \<Rightarrow> h256) \<Rightarrow> byte list set \<Rightarrow> trie \<Rightarrow> pt \<Rightarrow> (trie_error, trie_node) res \<times> trie \<Rightarrow> bool" where
  "builds K U t s x \<longleftrightarrow> (\<exists>t'. x = (Ok (node_of K s), t') \<and> grows K U t t' \<and> stored K t' (sub_encs K s))"

lemma hang_wrap_spec:
  assumes "collision_free K U" "sound K U t" "nibs k" "cp \<le> length k" "length cs = 16" "stored K t (kids_encs K cs)"
    and "encs K (pwrap k cp (hang k cp v (cs, bv))) \<subseteq> U"
  shows "builds K U t (pwrap k cp (hang k cp v (cs, bv)))
    (case hang_leaf K t k cp v (map (ref_opt K) cs, bv) of (r2, t2) \<Rightarrow> try_st r2 t2 (\<lambda>cv2. wrap_branch K t2 k cp cv2))"
proof -
  obtain cs' bv' where h: "hang k cp v (cs, bv) = (cs', bv')" by fastforce
  have "kids_encs K cs' \<subseteq> encs K (pwrap k cp (cs', bv'))" by (auto simp: pwrap_def encs_sub)
  then have U: "kids_encs K cs' \<subseteq> U" using assms(7) h by simp
  obtain t2 where t2: "hang_leaf K t k cp v (map (ref_opt K) cs, bv) = (Ok (map (ref_opt K) cs', bv'), t2)"
    "grows K U t t2" "stored K t2 (kids_encs K cs')" "length cs' = 16"
    using hang_leaf_spec[OF assms(1-6) h U] by blast
  have "encs K (pwrap k cp (cs', bv')) \<subseteq> U" using assms(7) h by simp
  then obtain t3 where "wrap_branch K t2 k cp (map (ref_opt K) cs', bv') = (Ok (node_of K (pwrap k cp (cs', bv'))), t3)"
    "grows K U t2 t3" "stored K t3 (sub_encs K (pwrap k cp (cs', bv')))"
    using wrap_branch_spec[OF assms(1) grows_sound[OF t2(2)] assms(4) t2(3)] by blast
  then show ?thesis using t2(1,2) h by (auto simp: builds_def intro: grows_trans)
qed

lemma builds_grows: "grows K U t t1 \<Longrightarrow> builds K U t1 s x \<Longrightarrow> builds K U t s x"
  by (auto simp: builds_def intro: grows_trans)

lemma kids_encs_pwrap: "kids_encs K (fst x) \<subseteq> encs K (pwrap k cp x)"
  by (cases x) (auto simp: pwrap_def encs_sub)

lemma kids_encs_hang:
  assumes "nibs k" "cp < length k \<Longrightarrow> cs ! unat (k ! cp) = None" "cp \<le> length k" "length cs = 16"
  shows "kids_encs K cs \<subseteq> kids_encs K (fst (hang k cp v (cs, bv)))"
proof -
  have "Some s \<in> set (cs[i := c])" if s: "Some s \<in> set cs" "cs ! i = None" for s c i
  proof -
    obtain j where j: "j < length cs" "cs ! j = Some s" using s(1) by (auto simp: in_set_conv_nth)
    then have "cs[i := c] ! j = Some s" using s(2) by (cases "i = j") auto
    then show ?thesis using j by (metis length_list_update nth_mem)
  qed
  then have "{s. Some s \<in> set cs} \<subseteq> {s. Some s \<in> set (fst (hang k cp v (cs, bv)))}"
    using assms(2,3) by (auto simp: hang_def)
  then show ?thesis unfolding kids_encs_def by blast
qed

lemma insert_at_leaf_spec:
  assumes "collision_free K U" "sound K U t" "nibs k" "nibs p" "encs K (pins (PLeaf p w) k v) \<subseteq> U"
  shows "builds K U t (pins (PLeaf p w) k v) (insert_at_leaf K t k p w v)"
proof (cases "lcp k p = length p \<and> lcp k p = length k")
  case True
  then show ?thesis using grows_refl[OF assms(2)] by (auto simp: insert_at_leaf_def builds_def stored_def)
next
  case False
  define cp where "cp = lcp k p"
  note c = lcp_parts[OF cp_def]
  obtain cs bv where h: "hang p cp w (no_kids, None) = (cs, bv)" by fastforce
  have s: "pins (PLeaf p w) k v = pwrap k cp (hang k cp v (cs, bv))"
    using False h by (auto simp: Let_def simp flip: cp_def)
  have l: "length cs = 16" using length_hang[of p cp w "(no_kids, None)"] h by simp
  have free: "cs ! unat (k ! cp) = None" if "cp < length k"
    using h c(4)[OF that] nibs_nth[OF assms(3) that] c(2)
    by (auto simp: hang_def nth_list_update nib_unat split: if_splits)
  have "kids_encs K cs \<subseteq> U"
    using kids_encs_hang[OF assms(3) free c(1) l, of K v bv] kids_encs_pwrap[of K "hang k cp v (cs, bv)" k cp] assms(5) s
    by simp
  moreover have "stored K t (kids_encs K no_kids)" by (simp add: stored_def)
  ultimately obtain t1 where t1: "hang_leaf K t p cp w (map (ref_opt K) no_kids, None) = (Ok (map (ref_opt K) cs, bv), t1)"
    "grows K U t t1" "stored K t1 (kids_encs K cs)"
    using hang_leaf_spec[OF assms(1,2,4) c(2) no_kids_simps(1) _ h] by blast
  have "builds K U t1 (pwrap k cp (hang k cp v (cs, bv)))
    (case hang_leaf K t1 k cp v (map (ref_opt K) cs, bv) of (r2, t2) \<Rightarrow> try_st r2 t2 (\<lambda>cv2. wrap_branch K t2 k cp cv2))"
    using assms(5) s by (intro hang_wrap_spec[OF assms(1) grows_sound[OF t1(2)] assms(3) c(1) l t1(3)]) simp
  moreover have "insert_at_leaf K t k p w v =
    (case hang_leaf K t1 k cp v (map (ref_opt K) cs, bv) of (r2, t2) \<Rightarrow> try_st r2 t2 (\<lambda>cv2. wrap_branch K t2 k cp cv2))"
    using False t1(1) by (auto simp: insert_at_leaf_def Let_def no_children_refs[of K] simp flip: cp_def)
  ultimately show ?thesis using builds_grows[OF t1(2)] s by simp
qed

lemma ext_tail_ref:
  assumes "collision_free K U" "sound K U t" "cp < length p" "encs K (ext_tail p cp c) \<subseteq> U" "stored K t (encs K c)"
  obtains t1 where "(let er = drop (Suc cp) p in if er = [] then (Ok (mk_ref K (node_of K c)), t)
      else store_node K t (Extension er (mk_ref K (node_of K c)))) = (Ok (mk_ref K (node_of K (ext_tail p cp c))), t1)"
    "grows K U t t1" "stored K t1 (encs K (ext_tail p cp c))"
proof (cases "Suc cp < length p")
  case True
  then have e: "ext_tail p cp c = PExt (drop (Suc cp) p) c" by (simp add: ext_tail_def)
  obtain t1 where "store_node K t (node_of K (ext_tail p cp c)) = (Ok (mk_ref K (node_of K (ext_tail p cp c))), t1)"
    "grows K U t t1" "stored K t1 (encs K (ext_tail p cp c))"
    using store_tree[OF assms(1,2,4)] assms(5) e by auto
  then show ?thesis using that True e by simp
next
  case False
  then show ?thesis using that[of t] assms grows_refl by (simp add: ext_tail_def)
qed

lemma split_extension_spec:
  assumes "collision_free K U" "sound K U t" "nibs k" "nibs p" "lcp k p \<noteq> length p" "stored K t (encs K c)"
    and "encs K (pins (PExt p c) k v) \<subseteq> U"
  shows "builds K U t (pins (PExt p c) k v) (split_extension K t k p (mk_ref K (node_of K c)) v)"
proof -
  define cp where "cp = lcp k p"
  note c = lcp_parts[OF cp_def]
  have cp: "cp < length p" using assms(5) c(2) by (simp add: cp_def)
  then have n: "unat (p ! cp) < length no_kids" using nibs_nth[OF assms(4)] by (simp add: nib_unat)
  define cs where "cs = no_kids[unat (p ! cp) := Some (ext_tail p cp c)]"
  have l: "length cs = 16" by (simp add: cs_def)
  have s: "pins (PExt p c) k v = pwrap k cp (hang k cp v (cs, None))"
    using assms(5) by (simp add: Let_def cs_def flip: cp_def)
  have free: "cs ! unat (k ! cp) = None" if "cp < length k"
    using nibs_nth[OF assms(3) that] c(4)[OF that cp] by (simp add: cs_def nib_unat nth_list_update)
  have U: "kids_encs K cs \<subseteq> U"
    using kids_encs_hang[OF assms(3) free c(1) l, of K v None] kids_encs_pwrap[of K "hang k cp v (cs, None)" k cp] assms(7) s
    by simp
  then have "encs K (ext_tail p cp c) \<subseteq> U" using kids_encs_update_in[OF n] unfolding cs_def by blast
  then obtain t1 where t1: "(let er = drop (Suc cp) p in if er = [] then (Ok (mk_ref K (node_of K c)), t)
      else store_node K t (Extension er (mk_ref K (node_of K c)))) = (Ok (mk_ref K (node_of K (ext_tail p cp c))), t1)"
    "grows K U t t1" "stored K t1 (encs K (ext_tail p cp c))"
    using ext_tail_ref[OF assms(1,2) cp _ assms(6)] by blast
  have st: "stored K t1 (kids_encs K cs)"
    using t1(3) kids_encs_update[of K no_kids "unat (p ! cp)" "Some (ext_tail p cp c)"] by (auto simp: cs_def intro: stored_mono)
  have "builds K U t1 (pwrap k cp (hang k cp v (cs, None)))
    (case hang_leaf K t1 k cp v (map (ref_opt K) cs, None) of (r2, t2) \<Rightarrow> try_st r2 t2 (\<lambda>cv2. wrap_branch K t2 k cp cv2))"
    using assms(7) s by (intro hang_wrap_spec[OF assms(1) grows_sound[OF t1(2)] assms(3) c(1) l st]) simp
  moreover have "split_extension K t k p (mk_ref K (node_of K c)) v =
    (case hang_leaf K t1 k cp v (map (ref_opt K) cs, None) of (r2, t2) \<Rightarrow> try_st r2 t2 (\<lambda>cv2. wrap_branch K t2 k cp cv2))"
  proof -
    have "(if cp + 1 < length p then nib_sub p (cp + 1) (length p - cp - 1) else Ok []) = (Ok (drop (Suc cp) p) :: (trie_error, byte list) res)"
      using cp nib_sub_tail[OF cp] by auto
    then show ?thesis
      using t1(1) cp
      by (simp add: split_extension_def Let_def nib_at_Ok no_children_refs[of K] cs_def set_child_Some[OF n] flip: cp_def)
  qed
  ultimately show ?thesis using builds_grows[OF t1(2)] s by simp
qed


lemma encs_ext: "encs K (PExt p c) = insert (enc (node_of K (PExt p c))) (encs K c)"
  "encs K (PBranch cs bv) = insert (enc (node_of K (PBranch cs bv))) (kids_encs K cs)"
  by (simp_all add: encs_sub)

lemma stored_insert: "stored K t (insert e S) \<longleftrightarrow> stored K t {e} \<and> stored K t S"
  by (auto simp: stored_def)

lemma stored_encs: "stored K t (encs K s) \<longleftrightarrow> stored K t {enc (node_of K s)} \<and> stored K t (sub_encs K s)"
  unfolding encs_sub by (rule stored_insert)

lemma lcp_full: "lcp k p = length p \<and> length p = length k \<longleftrightarrow> k = p"
  using lcp_eq_length[of k p] by (metis append_eq_conv_conj append_Nil2 take_all_iff order_refl)

text \<open>The child a branch has under the next nibble of the key.\<close>

lemma branch_step:
  assumes "collision_free K U" "sound K U t" "canon n (PBranch cs bv)" "n < 2 ^ 60" "stored K t (kids_encs K cs)"
    and "nibs key" "depth < length key"
  shows "bind_res (nib_at key depth) (\<lambda>idx. bind_res (get_child (map (ref_opt K) cs) idx) (\<lambda>c.
             bind_res (resolve t c) (\<lambda>m. Ok (idx, m))))
       = Ok (key ! depth, case cs ! unat (key ! depth) of None \<Rightarrow> Empty | Some c \<Rightarrow> node_of K c)"
    "unat (key ! depth) < length cs"
    "cs ! unat (key ! depth) = Some c \<Longrightarrow> canon (n - 1) c \<and> stored K t (encs K c)"
    "bind_res (nib_at key depth) (get_child (map (ref_opt K) cs)) = Ok (ref_opt K (cs ! unat (key ! depth)))"
proof -
  show i: "unat (key ! depth) < length cs"
    using assms(3) nibs_nth[OF assms(6,7)] by (simp add: canon_branch nib_unat)
  have kid: "canon (n - 1) c \<and> stored K t (encs K c)" if "cs ! unat (key ! depth) = Some c" for c
    using assms(3,5) i that kids_encs_nth[OF i that, of K]
    by (auto simp: canon_branch list_all_length kid_ok_def intro: stored_mono)
  then show "cs ! unat (key ! depth) = Some c \<Longrightarrow> canon (n - 1) c \<and> stored K t (encs K c)" .
  have r: "resolve t (ref_opt K (cs ! unat (key ! depth))) = Ok (case cs ! unat (key ! depth) of None \<Rightarrow> Empty | Some c \<Rightarrow> node_of K c)"
  proof (cases "cs ! unat (key ! depth)")
    case (Some c)
    then show ?thesis using resolve_ref[OF assms(1,2), of "n - 1" c] kid[OF Some] assms(4) by (simp add: stored_encs)
  qed (simp add: resolve_def)
  show "bind_res (nib_at key depth) (\<lambda>idx. bind_res (get_child (map (ref_opt K) cs) idx) (\<lambda>c.
             bind_res (resolve t c) (\<lambda>m. Ok (idx, m))))
       = Ok (key ! depth, case cs ! unat (key ! depth) of None \<Rightarrow> Empty | Some c \<Rightarrow> node_of K c)"
    using assms(7) i r by (simp add: nib_at_Ok get_child_refs del: bind_res_Ok_iff)
  show "bind_res (nib_at key depth) (get_child (map (ref_opt K) cs)) = Ok (ref_opt K (cs ! unat (key ! depth)))"
    using assms(7) i by (simp add: nib_at_Ok get_child_refs del: bind_res_Ok_iff)
qed

lemma store_built:
  assumes "collision_free K U" "encs K s \<subseteq> U" "builds K U t s x"
  obtains t1 t2 where "x = (Ok (node_of K s), t1)" "store_node K t1 (node_of K s) = (Ok (mk_ref K (node_of K s)), t2)"
    "grows K U t t2" "stored K t2 (encs K s)"
proof -
  obtain t1 where t1: "x = (Ok (node_of K s), t1)" "grows K U t t1" "stored K t1 (sub_encs K s)"
    using assms(3) by (auto simp: builds_def)
  obtain t2 where "store_node K t1 (node_of K s) = (Ok (mk_ref K (node_of K s)), t2)" "grows K U t1 t2" "stored K t2 (encs K s)"
    using store_tree[OF assms(1) grows_sound[OF t1(2)] assms(2) t1(3)] by blast
  then show ?thesis using that t1 grows_trans by blast
qed

lemma drop_Cons: "drop depth key = m # k \<Longrightarrow> depth < length key \<and> key ! depth = m \<and> k = drop (Suc depth) key"
  by (metis drop_eq_Nil hd_drop_conv_nth linorder_not_le list.distinct(1) list.sel(1,3) tl_drop drop_Suc)

lemma insert_node_spec:
  assumes "collision_free K U" "n < 2 ^ 60" "canon n s" "nibs key" "depth \<le> length key" "sound K U t"
    "stored K t (sub_encs K s)" "encs K (pins s (drop depth key) v) \<subseteq> U"
  shows "\<exists>x. insert_node K t (node_of K s) key depth v = Some x \<and> builds K U t (pins s (drop depth key) v) x"
  using assms(2-)
proof (induction s "drop depth key" v arbitrary: n depth t rule: pins.induct)
  case (1 p w v)
  then show ?case using insert_at_leaf_spec[OF assms(1), of t "drop depth key" p w v]
    by (subst insert_node.simps) simp
next
  case (2 p c v)
  note prems = 2(2-)
  show ?case
  proof (cases "lcp (drop depth key) p = length p")
    case False
    then show ?thesis using split_extension_spec[OF assms(1), of t "drop depth key" p c v] prems
      by (subst insert_node.simps) (simp add: Let_def)
  next
    case True
    let ?s = "pins c (drop (depth + length p) key) v"
    have p: "pins (PExt p c) (drop depth key) v = PExt p ?s" using True by (simp add: add.commute)
    then have U: "encs K ?s \<subseteq> U" using prems by (simp add: encs_ext)
    have st: "stored K t {enc (node_of K c)}" "stored K t (sub_encs K c)" using prems(6) by (simp_all add: stored_encs)
    have r: "resolve t (mk_ref K (node_of K c)) = Ok (node_of K c)"
      using prems(1,2,5) by (intro resolve_ref[OF assms(1) _ _ _ st(1), of "n - length p"]) simp_all
    have "depth + length p \<le> length key" using True lcp_le(1)[of "drop depth key" p] prems(4) by simp
    moreover have "n - length p < 2 ^ 60" using prems(1) by (rule le_less_trans[OF diff_le_self])
    ultimately obtain x where x: "insert_node K t (node_of K c) key (depth + length p) v = Some x" "builds K U t ?s x"
      using 2(1)[OF refl True, of "depth + length p" "n - length p" t] prems st(2) U True by (auto simp: add.commute)
    obtain t1 t2 where t: "x = (Ok (node_of K ?s), t1)" "store_node K t1 (node_of K ?s) = (Ok (mk_ref K (node_of K ?s)), t2)"
      "grows K U t t2" "stored K t2 (encs K ?s)" using store_built[OF assms(1) U x(2)] by blast
    then show ?thesis using True r x p
      by (subst insert_node.simps) (simp add: Let_def builds_def)
  qed
next
  case (3 cs bv v)
  then have "depth = length key" by simp
  then show ?case using 3 grows_refl
    by (subst insert_node.simps) (simp add: builds_def)
next
  case (4 cs bv m k v)
  note k = drop_Cons[OF 4(2)[symmetric]] and prems = 4(3-)
  have d: "depth < length key" "key ! depth = m" "k = drop (Suc depth) key" using k by simp_all
  have st: "stored K t (kids_encs K cs)" using prems(6) by simp
  note b = branch_step[OF assms(1) prems(5,2,1) st prems(3) d(1)]
  have i: "unat m < length cs" using b(2) d(2) by simp
  let ?s = "case cs ! unat m of None \<Rightarrow> PLeaf k v | Some c \<Rightarrow> pins c k v"
  have p: "pins (PBranch cs bv) (drop depth key) v = PBranch (cs[unat m := Some ?s]) bv"
    unfolding 4(2)[symmetric] using i by simp
  have U: "encs K ?s \<subseteq> U" using prems(7) kids_encs_update_in[OF i, of K ?s] unfolding p by (auto simp: encs_ext)
  have "\<exists>x. insert_node K t (case cs ! unat m of None \<Rightarrow> Empty | Some c \<Rightarrow> node_of K c) key (depth + 1) v = Some x \<and> builds K U t ?s x"
  proof (cases "cs ! unat m")
    case None
    then show ?thesis using d prems grows_refl
      by (subst insert_node.simps) (simp add: builds_def stored_def)
  next
    case (Some c)
    have "canon (n - 1) c" "stored K t (sub_encs K c)" using b(3)[of c] Some d(2) by (simp_all add: stored_encs)
    then show ?thesis using 4(1)[OF i Some d(3)[unfolded Suc_eq_plus1], of "n - 1" t] prems d(1,3) Some U by simp
  qed
  then obtain x where x: "insert_node K t (case cs ! unat m of None \<Rightarrow> Empty | Some c \<Rightarrow> node_of K c) key (depth + 1) v = Some x"
    "builds K U t ?s x" by blast
  obtain t1 t2 where t: "x = (Ok (node_of K ?s), t1)" "store_node K t1 (node_of K ?s) = (Ok (mk_ref K (node_of K ?s)), t2)"
    "grows K U t t2" "stored K t2 (encs K ?s)" using store_built[OF assms(1) U x(2)] by blast
  have "stored K t2 (kids_encs K cs \<union> encs K ?s)" using stored_grows[OF t(3) st] t(4) by (simp add: stored_Un)
  then have "stored K t2 (kids_encs K (cs[unat m := Some ?s]))"
    using kids_encs_update[of K cs "unat m" "Some ?s"] by (auto intro: stored_mono)
  then show ?case using b(1)[unfolded d(2)] x(1) t d(1) set_child_Some[OF i, of K ?s, where 'a = trie_error] unfolding p
    by (subst insert_node.simps) (simp add: builds_def del: bind_res_Ok_iff)
qed

section \<open>Lookup\<close>

lemma get_node_spec:
  assumes "collision_free K U" "n < 2 ^ 60" "canon n s" "nibs key" "depth \<le> length key" "sound K U t" "stored K t (encs K s)"
  shows "get_node t (mk_ref K (node_of K s)) key depth = Some (Ok (plook s (drop depth key)))"
  using assms(2-)
proof (induction s "drop depth key" arbitrary: n depth rule: plook.induct)
  case (1 p v)
  have r: "resolve t (mk_ref K (Leaf p v)) = Ok (Leaf p v)"
    using resolve_ref[OF assms(1) 1(5) 1(2,1)] 1(6) by (simp add: stored_encs)
  then show ?case using lcp_full[of "drop depth key" p] by (subst get_node.simps) (simp add: Let_def)
next
  case (2 p c)
  have r: "resolve t (mk_ref K (node_of K (PExt p c))) = Ok (node_of K (PExt p c))"
    using resolve_ref[OF assms(1) 2(6) 2(3,2)] 2(7) by (simp add: stored_encs)
  show ?case
  proof (cases "lcp (drop depth key) p = length p")
    case True
    have "depth + length p \<le> length key" using True lcp_le(1)[of "drop depth key" p] 2(5) by simp
    moreover have "stored K t (encs K c)" using 2(7) by (simp add: stored_encs[of K t "PExt p c"])
    moreover have "n - length p < 2 ^ 60" using 2(2) by (rule le_less_trans[OF diff_le_self])
    ultimately have "get_node t (mk_ref K (node_of K c)) key (depth + length p) = Some (Ok (plook c (drop (depth + length p) key)))"
      using 2(1)[OF True, of "depth + length p" "n - length p"] 2(2-) by (simp add: add.commute)
    then show ?thesis using r True by (subst get_node.simps) (simp add: Let_def plook.simps(2) add.commute)
  next
    case False
    then have "lcp (drop depth key) p < length p" using lcp_le(2)[of "drop depth key" p] by linarith
    then show ?thesis using r by (subst get_node.simps) (simp add: Let_def plook.simps(2))
  qed
next
  case (3 cs bv)
  have r: "resolve t (mk_ref K (node_of K (PBranch cs bv))) = Ok (node_of K (PBranch cs bv))"
    using resolve_ref[OF assms(1) 3(6) 3(3,2)] 3(7) by (simp add: stored_encs)
  have "depth = length key" using 3(1,5) by simp
  then show ?case using r by (subst get_node.simps) simp
next
  case (4 cs bv m k)
  note d = drop_Cons[OF 4(2)[symmetric]]
  have r: "resolve t (mk_ref K (node_of K (PBranch cs bv))) = Ok (node_of K (PBranch cs bv))"
    using resolve_ref[OF assms(1) 4(7) 4(4,3)] 4(8) by (simp add: stored_encs)
  have st: "stored K t (kids_encs K cs)" using 4(8) by (simp add: stored_encs[of K t "PBranch cs bv"])
  note b = branch_step[OF assms(1) 4(7,4,3) st 4(5) conjunct1[OF d]]
  have i: "unat m < length cs" using b(2) d by simp
  have "get_node t (ref_opt K (cs ! unat m)) key (Suc depth) = Some (Ok (plook (PBranch cs bv) (m # k)))"
  proof (cases "cs ! unat m")
    case None
    then show ?thesis using i by (subst get_node.simps) (simp add: resolve_def)
  next
    case (Some c)
    have "canon (n - 1) c" "stored K t (encs K c)" using b(3)[of c] Some d by simp_all
    then show ?thesis using 4(1)[OF i Some, of "Suc depth" "n - 1"] 4(3-) d Some i by simp
  qed
  then show ?case using r d unfolding 4(2)[symmetric]
    by (subst get_node.simps) (simp add: b(4)[unfolded conjunct1[OF conjunct2[OF d]]] del: bind_res_Ok_iff)
qed


section \<open>Deletion\<close>

definition node_opt :: "(byte list \<Rightarrow> h256) \<Rightarrow> pt option \<Rightarrow> trie_node" where
  "node_opt K r = (case r of None \<Rightarrow> Empty | Some s \<Rightarrow> node_of K s)"

definition encs_opt :: "(byte list \<Rightarrow> h256) \<Rightarrow> pt option \<Rightarrow> byte list set" where
  "encs_opt K r = (case r of None \<Rightarrow> {} | Some s \<Rightarrow> encs K s)"

definition sub_encs_opt :: "(byte list \<Rightarrow> h256) \<Rightarrow> pt option \<Rightarrow> byte list set" where
  "sub_encs_opt K r = (case r of None \<Rightarrow> {} | Some s \<Rightarrow> sub_encs K s)"

lemma opt_simps [simp]:
  "node_opt K None = Empty" "node_opt K (Some s) = node_of K s" "encs_opt K None = {}" "encs_opt K (Some s) = encs K s"
  "sub_encs_opt K None = {}" "sub_encs_opt K (Some s) = sub_encs K s"
  by (simp_all add: node_opt_def encs_opt_def sub_encs_opt_def)

text \<open>The encodings a deletion may write: of the result, and of the results along the path.\<close>

fun del_encs :: "(byte list \<Rightarrow> h256) \<Rightarrow> pt \<Rightarrow> byte list \<Rightarrow> byte list set" where
  "del_encs K (PLeaf p v) k = encs_opt K (fst (pdel (PLeaf p v) k))"
| "del_encs K (PExt p c) k = encs_opt K (fst (pdel (PExt p c) k)) \<union> del_encs K c (drop (length p) k)"
| "del_encs K (PBranch cs bv) [] = encs_opt K (fst (pdel (PBranch cs bv) []))"
| "del_encs K (PBranch cs bv) (m # k) = encs_opt K (fst (pdel (PBranch cs bv) (m # k)))
     \<union> (if unat m < length cs then case cs ! unat m of None \<Rightarrow> {} | Some c \<Rightarrow> del_encs K c k else {})"

lemma del_encs_result: "encs_opt K (fst (pdel s k)) \<subseteq> del_encs K s k"
  by (cases s; cases k) auto

definition builds_opt ::
  "(byte list \<Rightarrow> h256) \<Rightarrow> byte list set \<Rightarrow> trie \<Rightarrow> pt option \<Rightarrow> (trie_error, trie_node) res \<times> trie \<Rightarrow> bool" where
  "builds_opt K U t r x \<longleftrightarrow> (\<exists>t'. x = (Ok (node_opt K r), t') \<and> grows K U t t' \<and> stored K t' (sub_encs_opt K r))"

lemma store_fetched:
  assumes "collision_free K U" "sound K U t" "stored K t (encs K s)"
  obtains t' where "store_node K t (node_of K s) = (Ok (mk_ref K (node_of K s)), t')" "grows K U t t'" "stored K t' (encs K s)"
proof (cases "length (enc (node_of K s)) < 32")
  case True
  then show ?thesis using that[of t] assms grows_refl by (simp add: store_node_short)
next
  case False
  then have "fetch t (K (enc (node_of K s))) = Some (enc (node_of K s))" using assms(3) by (simp add: stored_encs) (simp add: stored_def)
  then have "enc (node_of K s) \<in> U" using sound_fetch[OF assms(2)] by blast
  from store_node_spec[OF assms(1,2) this] obtain t'
    where "store_node K t (node_of K s) = (Ok (mk_ref K (node_of K s)), t')" "grows K U t t'" by blast
  then show ?thesis using that stored_grows assms(3) by blast
qed

lemma merge_spec:
  assumes "collision_free K U" "sound K U t" "stored K t (sub_encs K s)" "encs_opt K (pmerge p (Some s)) \<subseteq> U"
  shows "builds_opt K U t (pmerge p (Some s)) (collapse_extension K t p (node_of K s))"
proof (cases s)
  case (PBranch cs bv)
  then have "encs K s \<subseteq> U" using assms(4) by (auto simp: encs_ext)
  then obtain t' where "store_node K t (node_of K s) = (Ok (mk_ref K (node_of K s)), t')" "grows K U t t'" "stored K t' (encs K s)"
    using store_tree[OF assms(1,2) _ assms(3)] by blast
  then show ?thesis using PBranch by (simp add: collapse_extension_def builds_opt_def)
qed (use assms(2,3) grows_refl in \<open>simp_all add: collapse_extension_def builds_opt_def\<close>)

lemma merge_stored_spec:
  assumes "collision_free K U" "sound K U t" "stored K t (encs K s)"
  shows "builds_opt K U t (pmerge p (Some s)) (collapse_extension K t p (node_of K s))"
proof (cases s)
  case (PBranch cs bv)
  then obtain t' where "store_node K t (node_of K s) = (Ok (mk_ref K (node_of K s)), t')" "grows K U t t'" "stored K t' (encs K s)"
    using store_fetched[OF assms] by blast
  then show ?thesis using PBranch by (simp add: collapse_extension_def builds_opt_def)
qed (use assms grows_refl in \<open>simp_all add: collapse_extension_def builds_opt_def stored_encs\<close>)

lemma single_nibble: "j < 16 \<Longrightarrow> (of_nat j AND 0x0f :: byte) = of_nat j"
proof -
  assume "j < 16"
  then have "(of_nat j :: byte) < 16" by (simp add: nib_unat unat_of_nat_byte)
  then show ?thesis by (auto intro!: bit_word_eqI simp: less_16_bits bit_simps)
qed

lemma ref_opt_eq_EmptyRef [simp]: "ref_opt K c = EmptyRef \<longleftrightarrow> c = None"
  by (cases c) (simp_all add: mk_ref_def)

lemma collapse_branch_spec:
  assumes "collision_free K U" "sound K U t" "n < 2 ^ 60" "length cs = 16" "list_all (kid_ok n) cs" "stored K t (kids_encs K cs)"
  shows "builds_opt K U t (pcollapse cs bv) (maybe_collapse_branch K t (map (ref_opt K) cs) bv)"
proof -
  have f: "filter (\<lambda>i. map (ref_opt K) cs ! i \<noteq> EmptyRef) [0 ..< 16] = filter (\<lambda>i. cs ! i \<noteq> None) [0 ..< 16]"
    using assms(4) by (intro filter_cong) simp_all
  define f where "f = filter (\<lambda>i. cs ! i \<noteq> None) [0 ..< 16]"
  have mc: "maybe_collapse_branch K t (map (ref_opt K) cs) bv = (case (f, bv) of
        ([], None) \<Rightarrow> (Ok Empty, t)
      | ([], Some v) \<Rightarrow> (Ok (Leaf [] v), t)
      | ([idx], None) \<Rightarrow>
          try_st (resolve t (map (ref_opt K) cs ! idx)) t (\<lambda>child_node.
            if child_node = Empty then (Ok Empty, t) else collapse_extension K t [of_nat idx AND 0x0f] child_node)
      | _ \<Rightarrow> (Ok (Branch (map (ref_opt K) cs) bv), t))"
    unfolding maybe_collapse_branch_def f f_def[symmetric] Let_def
    by (auto simp: collapse_extension_def split: list.split option.split trie_node.split intro!: arg_cong[where f = "try_st _ _"])
  have pc: "pcollapse cs bv = (case (f, bv) of ([], None) \<Rightarrow> None | ([], Some v) \<Rightarrow> Some (PLeaf [] v)
      | ([i], None) \<Rightarrow> pmerge [of_nat i] (cs ! i) | _ \<Rightarrow> Some (PBranch cs bv))"
    by (simp only: pcollapse_def f_def)
  consider "f = []" | j where "f = [j]" "bv = None" | "\<not> (f = [] \<or> (\<exists>j. f = [j] \<and> bv = None))" by blast
  then show ?thesis
  proof cases
    case 1
    then show ?thesis using grows_refl[OF assms(2)] unfolding mc pc by (cases bv) (simp_all add: builds_opt_def stored_def)
  next
    case (2 j)
    then have j: "j < 16" "cs ! j \<noteq> None" using filter_kids_single[of cs j] unfolding f_def by blast+
    then obtain s where s: "cs ! j = Some s" by blast
    have "canon (n - 1) s" "stored K t (encs K s)"
      using assms(4-6) j(1) s kids_encs_nth[of j cs s K] by (auto simp: list_all_length kid_ok_def intro: stored_mono)
    then have "resolve t (ref_opt K (cs ! j)) = Ok (node_of K s)" "stored K t (encs K s)"
      using resolve_ref[OF assms(1,2), of "n - 1" s] assms(3) s by (simp_all add: stored_encs)
    then show ?thesis using 2 j(1) assms(4) s merge_stored_spec[OF assms(1,2), of s "[of_nat j]"] unfolding mc pc
      by (simp add: single_nibble)
  next
    case 3
    then have "pcollapse cs bv = Some (PBranch cs bv)" "maybe_collapse_branch K t (map (ref_opt K) cs) bv = (Ok (Branch (map (ref_opt K) cs) bv), t)"
      unfolding mc pc by (auto split: list.split option.split)
    then show ?thesis using grows_refl[OF assms(2)] assms(6) by (simp add: builds_opt_def)
  qed
qed

lemma store_result:
  assumes "collision_free K U" "sound K U t" "encs_opt K r \<subseteq> U" "stored K t (sub_encs_opt K r)"
  shows "\<exists>t'. (if node_opt K r = Empty then (Ok EmptyRef, t) else store_node K t (node_opt K r)) = (Ok (ref_opt K r), t')
    \<and> grows K U t t' \<and> stored K t' (encs_opt K r)"
proof (cases r)
  case None
  then show ?thesis using grows_refl[OF assms(2)] by (simp add: stored_def)
next
  case (Some s)
  then show ?thesis using store_tree[OF assms(1,2), of s] assms(3,4) by auto
qed

lemma canon_kids: "canon n (PBranch cs bv) \<Longrightarrow> length cs = 16 \<and> list_all (kid_ok n) cs"
  by (simp add: canon_branch)

text \<open>The result of a deletion, with whether something was removed.\<close>

definition deletes ::
  "(byte list \<Rightarrow> h256) \<Rightarrow> byte list set \<Rightarrow> trie \<Rightarrow> pt option \<times> bool \<Rightarrow> (trie_error, trie_node \<times> bool) res \<times> trie \<Rightarrow> bool" where
  "deletes K U t d x \<longleftrightarrow> (\<exists>t'. x = (Ok (node_opt K (fst d), snd d), t') \<and> grows K U t t' \<and> stored K t' (sub_encs_opt K (fst d)))"

lemma deletes_built:
  assumes "builds_opt K U t1 r x" "grows K U t t1"
  shows "deletes K U t (r, True) (case x of (r, t1) \<Rightarrow> try_st r t1 (\<lambda>m. (Ok (m, True), t1)))"
  using assms by (auto simp: builds_opt_def deletes_def intro: grows_trans)

lemma delete_node_spec:
  assumes "collision_free K U" "n < 2 ^ 60" "canon n s" "nibs key" "depth \<le> length key" "sound K U t"
    "stored K t (sub_encs K s)" "del_encs K s (drop depth key) \<subseteq> U"
  shows "\<exists>x. delete_node K t (node_of K s) key depth = Some x \<and> deletes K U t (pdel s (drop depth key)) x"
  using assms(2-)
proof (induction s "drop depth key" arbitrary: n depth t rule: pdel.induct)
  case (1 p v)
  then show ?case using lcp_full[of "drop depth key" p] grows_refl[of K U t]
    by (subst delete_node.simps) (auto simp: deletes_def stored_def Let_def)
next
  case (2 p c)
  note prems = 2(2-)
  show ?case
  proof (cases "lcp (drop depth key) p = length p")
    case False
    then show ?thesis using prems grows_refl[of K U t]
      by (subst delete_node.simps) (simp add: deletes_def Let_def)
  next
    case True
    let ?d = "pdel c (drop (depth + length p) key)"
    have st: "stored K t {enc (node_of K c)}" "stored K t (sub_encs K c)" using prems(6) by (simp_all add: stored_encs)
    have n: "n - length p < 2 ^ 60" using prems(1) by (rule le_less_trans[OF diff_le_self])
    have cn: "canon (n - length p) c" using prems(2) by simp
    have r: "resolve t (mk_ref K (node_of K c)) = Ok (node_of K c)"
      by (rule resolve_ref[OF assms(1) prems(5) cn n st(1)])
    have "depth + length p \<le> length key" using True lcp_le(1)[of "drop depth key" p] prems(4) by simp
    moreover have "\<not> lcp (drop depth key) p \<noteq> length p" using True by simp
    ultimately obtain x where x: "delete_node K t (node_of K c) key (depth + length p) = Some x" "deletes K U t ?d x"
      using 2(1)[of "depth + length p" "n - length p" t] prems st(2) cn n by (auto simp: add.commute)
    obtain r' b where d: "?d = (r', b)" by fastforce
    then obtain t1 where t1: "x = (Ok (node_opt K r', b), t1)" "grows K U t t1" "stored K t1 (sub_encs_opt K r')"
      using x(2) by (auto simp: deletes_def)
    have pd: "pdel (PExt p c) (drop depth key) = (if b then (pmerge p r', True) else (Some (PExt p c), False))"
      using True d by (simp add: add.commute)
    show ?thesis
    proof (cases b)
      case False
      then show ?thesis using True r x(1) t1 prems(6) stored_grows[OF t1(2)] unfolding pd
        by (subst delete_node.simps) (simp add: Let_def deletes_def)
    next
      case b: True
      have "builds_opt K U t1 (pmerge p r') (collapse_extension K t1 p (node_opt K r'))"
      proof (cases r')
        case None
        then show ?thesis using grows_refl[OF grows_sound[OF t1(2)]] by (simp add: builds_opt_def collapse_extension_def stored_def)
      next
        case (Some s')
        have "encs_opt K (pmerge p r') \<subseteq> U" using del_encs_result[of K "PExt p c" "drop depth key"] prems(7) pd b by simp
        then show ?thesis using merge_spec[OF assms(1) grows_sound[OF t1(2)], of s' p] t1(3) Some by simp
      qed
      from deletes_built[OF this t1(2)] show ?thesis using True r x(1) t1(1) b unfolding pd
        by (subst delete_node.simps) (simp add: Let_def)
    qed
  qed
next
  case (3 cs bv)
  have d: "depth = length key" using 3(1,5) by simp
  show ?case
  proof (cases "bv = None")
    case True
    then show ?thesis using d 3 grows_refl[of K U t] by (subst delete_node.simps) (simp add: deletes_def)
  next
    case False
    have "builds_opt K U t (pcollapse cs None) (maybe_collapse_branch K t (map (ref_opt K) cs) None)"
      using collapse_branch_spec[OF assms(1) 3(6,2)] canon_kids[OF 3(3)] 3(7) by simp
    from deletes_built[OF this grows_refl[OF 3(6)]] show ?thesis using d False
      by (subst delete_node.simps) simp
  qed
next
  case (4 cs bv m k)
  note k = drop_Cons[OF 4(2)[symmetric]] and prems = 4(3-)
  have d: "depth < length key" "key ! depth = m" "k = drop (Suc depth) key" using k by simp_all
  have st: "stored K t (kids_encs K cs)" using prems(6) by simp
  note b = branch_step[OF assms(1) prems(5,2,1) st prems(3) d(1)]
  have i: "unat m < length cs" using b(2) d(2) by simp
  have same: "deletes K U t (Some (PBranch cs bv), False) (Ok (Branch (map (ref_opt K) cs) bv, False), t1)" if "grows K U t t1" for t1
    using that stored_grows[OF that st] by (simp add: deletes_def)
  show ?case
  proof (cases "cs ! unat m")
    case None
    have "delete_node K t Empty key (depth + 1) = Some (Ok (Empty, False), t)" by (subst delete_node.simps) simp
    then show ?thesis using None b(1)[unfolded d(2)] d(1) i same[OF grows_refl[OF prems(5)]] unfolding 4(2)[symmetric]
      by (subst delete_node.simps) (simp del: bind_res_Ok_iff)
  next
    case (Some c)
    have c: "canon (n - 1) c" "stored K t (sub_encs K c)" using b(3)[of c] Some d(2) by (simp_all add: stored_encs)
    have "del_encs K c k \<subseteq> U" using prems(7) i Some unfolding 4(2)[symmetric] by auto
    moreover have "n - 1 < 2 ^ 60" using prems(1) by (rule le_less_trans[OF diff_le_self])
    ultimately obtain x where x: "delete_node K t (node_of K c) key (depth + 1) = Some x" "deletes K U t (pdel c k) x"
      using 4(1)[OF i Some d(3)[unfolded Suc_eq_plus1], of "n - 1" t] prems(3,5) d(1,3) c by auto
    obtain r' b' where pd: "pdel c k = (r', b')" by fastforce
    then obtain t1 where t1: "x = (Ok (node_opt K r', b'), t1)" "grows K U t t1" "stored K t1 (sub_encs_opt K r')"
      using x(2) by (auto simp: deletes_def)
    show ?thesis
    proof (cases b')
      case False
      then show ?thesis using Some b(1)[unfolded d(2)] d(1) i x(1) t1(1) same[OF t1(2)] pd unfolding 4(2)[symmetric]
        by (subst delete_node.simps) (simp del: bind_res_Ok_iff)
    next
      case True
      have "encs_opt K r' \<subseteq> U" using del_encs_result[of K c k] prems(7) pd i Some unfolding 4(2)[symmetric] by auto
      from store_result[OF assms(1) grows_sound[OF t1(2)] this t1(3)]
      obtain t2 where t2: "(if node_opt K r' = Empty then (Ok EmptyRef, t1) else store_node K t1 (node_opt K r')) = (Ok (ref_opt K r'), t2)"
        "grows K U t1 t2" "stored K t2 (encs_opt K r')" by blast
      have "stored K t2 (kids_encs K cs \<union> encs_opt K r')"
        using stored_grows[OF grows_trans[OF t1(2) t2(2)] st] t2(3) by (simp add: stored_Un)
      then have "stored K t2 (kids_encs K (cs[unat m := r']))"
        using kids_encs_update[of K cs "unat m" r'] by (auto simp: encs_opt_def intro: stored_mono)
      moreover have "kid_ok n r'"
        using canon_pdel[OF c(1)] pd canon_kids[OF prems(2)] i Some
        by (cases r') (auto simp: kid_ok_def list_all_length)
      ultimately have "builds_opt K U t2 (pcollapse (cs[unat m := r']) bv) (maybe_collapse_branch K t2 (map (ref_opt K) (cs[unat m := r'])) bv)"
        using collapse_branch_spec[OF assms(1) grows_sound[OF t2(2)] prems(1), of "cs[unat m := r']" bv] canon_kids[OF prems(2)]
        by (simp add: list_all_update)
      from deletes_built[OF this grows_trans[OF t1(2) t2(2)]] show ?thesis
        using Some b(1)[unfolded d(2)] d(1) i x(1) t1(1) t2(1) pd True set_child_refs[OF i, of K r', where 'a = trie_error]
        unfolding 4(2)[symmetric] by (subst delete_node.simps) (simp del: bind_res_Ok_iff)
    qed
  qed
qed


section \<open>The trie represents a tree\<close>

abbreviation max_path :: nat where "max_path \<equiv> 2 ^ 60 - 1"

definition represents :: "(byte list \<Rightarrow> h256) \<Rightarrow> byte list set \<Rightarrow> trie \<Rightarrow> pt option \<Rightarrow> bool" where
  "represents K U t T \<longleftrightarrow> sound K U t \<and> encs_opt K T \<subseteq> U
     \<and> (case T of None \<Rightarrow> root t = EMPTY_ROOT
        | Some s \<Rightarrow> canon max_path s \<and> root t = K (enc (node_of K s))
            \<and> fetch t (root t) = Some (enc (node_of K s)) \<and> stored K t (sub_encs K s))"

lemma represents_Some:
  assumes "collision_free K U" "represents K U t (Some s)"
  shows "sound K U t" "canon max_path s" "stored K t (sub_encs K s)" "root t = K (enc (node_of K s))"
    "root t \<noteq> EMPTY_ROOT" "resolve t (HashRef (root t)) = Ok (node_of K s)" "stored K t (encs K s)"
proof -
  show s: "sound K U t" "canon max_path s" "stored K t (sub_encs K s)" "root t = K (enc (node_of K s))"
    using assms(2) by (simp_all add: represents_def)
  have f: "fetch t (root t) = Some (enc (node_of K s))" using assms(2) by (auto simp: represents_def)
  show r: "root t \<noteq> EMPTY_ROOT"
    using sound_fetch[OF s(1) f] assms(1) imageI[of _ U K] unfolding collision_free_def by metis
  have "node_ok (node_of K s)" using canon_node_ok[OF s(2)] by simp
  then show "resolve t (HashRef (root t)) = Ok (node_of K s)"
    using f r trie_decode_enc by (simp add: resolve_def del: bind_res_Ok_iff)
  show "stored K t (encs K s)" unfolding stored_encs using f s(3,4) by (simp add: stored_def)
qed

definition pput :: "pt option \<Rightarrow> byte list \<Rightarrow> byte list \<Rightarrow> pt" where
  "pput T k v = (case T of None \<Rightarrow> PLeaf k v | Some s \<Rightarrow> pins s k v)"

definition pdrop :: "pt option \<Rightarrow> byte list \<Rightarrow> pt option" where
  "pdrop T k = (case T of None \<Rightarrow> None | Some s \<Rightarrow> fst (pdel s k))"

lemma length_key_nibbles: "length (key_nibbles key) = 2 * length key"
  by (induction key) (simp_all add: key_nibbles_def)

lemma root_update [simp]:
  "fetch (t\<lparr>root := h\<rparr>) = fetch t" "sound K U (t\<lparr>root := h\<rparr>) = sound K U t" "stored K (t\<lparr>root := h\<rparr>) S = stored K t S"
proof -
  show f: "fetch (t\<lparr>root := h\<rparr>) = fetch t" by (rule ext) (simp add: fetch_def split: option.split)
  show "sound K U (t\<lparr>root := h\<rparr>) = sound K U t" by (simp add: sound_def)
  show "stored K (t\<lparr>root := h\<rparr>) S = stored K t S" by (simp add: stored_def f)
qed

lemma commit_root_spec:
  assumes "collision_free K U" "sound K U t" "encs K s \<subseteq> U" "stored K t (sub_encs K s)" "canon max_path s"
  obtains t' where "commit_root K t (node_of K s) = (Ok (K (enc (node_of K s))), t')" "grows K U t t'"
    "represents K U (t'\<lparr>root := K (enc (node_of K s))\<rparr>) (Some s)"
proof -
  have e: "enc (node_of K s) \<in> U" using assms(3) enc_in_encs by blast
  define t' where "t' = t\<lparr>cache := (K (enc (node_of K s)), enc (node_of K s)) # cache t\<rparr>"
  note p = push_grows[OF assms(1,2) e, folded t'_def]
  have "represents K U (t'\<lparr>root := K (enc (node_of K s))\<rparr>) (Some s)"
    using p(2) grows_sound[OF p(1)] stored_grows[OF p(1) assms(4)] assms(3,5)
    by (simp add: represents_def)
  then show ?thesis using that[OF _ p(1)] by (simp add: commit_root_def trie_encode_enc t'_def)
qed

lemma trie_insert_spec:
  assumes "collision_free K U" "represents K U t T" "length key < 2 ^ 59" "val_ok v"
    and "encs K (pput T (key_nibbles key) v) \<subseteq> U"
  shows "\<exists>t'. trie_insert K t key v = Some (Ok (), t') \<and> represents K U t' (Some (pput T (key_nibbles key) v))"
proof -
  let ?k = "key_nibbles key" and ?s = "pput T (key_nibbles key) v"
  have l: "length ?k \<le> max_path" using assms(3) by (simp add: length_key_nibbles)
  have t: "sound K U t" using assms(2) by (simp add: represents_def)
  define old where "old = (case T of None \<Rightarrow> Empty | Some s \<Rightarrow> node_of K s)"
  have old: "(if root t = EMPTY_ROOT then Ok Empty else resolve t (HashRef (root t))) = Ok old"
  proof (cases T)
    case None
    then show ?thesis using assms(2) by (simp add: represents_def old_def)
  next
    case (Some s)
    then show ?thesis using represents_Some(5,6)[OF assms(1) assms(2)[unfolded Some]] by (simp add: old_def)
  qed
  have "\<exists>x. insert_node K t old ?k 0 v = Some x \<and> builds K U t ?s x"
  proof (cases T)
    case None
    then show ?thesis using grows_refl[OF t]
      by (subst insert_node.simps) (simp add: old_def pput_def builds_def stored_def)
  next
    case (Some s)
    note r = represents_Some[OF assms(1) assms(2)[unfolded Some]]
    show ?thesis using insert_node_spec[OF assms(1) _ r(2) _ _ r(1,3), of ?k 0 v] assms(5) Some
      by (simp add: old_def pput_def)
  qed
  then obtain t1 where t1: "insert_node K t old ?k 0 v = Some (Ok (node_of K ?s), t1)" "grows K U t t1" "stored K t1 (sub_encs K ?s)"
    by (auto simp: builds_def)
  have "canon max_path ?s"
  proof (cases T)
    case None
    then show ?thesis using l assms(4) by (simp add: pput_def)
  next
    case (Some s)
    then show ?thesis using canon_pins[OF represents_Some(2)[OF assms(1) assms(2)[unfolded Some]] _ l assms(4)]
      by (simp add: pput_def)
  qed
  from commit_root_spec[OF assms(1) grows_sound[OF t1(2)] assms(5) t1(3) this]
  obtain t2 where "commit_root K t1 (node_of K ?s) = (Ok (K (enc (node_of K ?s))), t2)"
    "represents K U (t2\<lparr>root := K (enc (node_of K ?s))\<rparr>) (Some ?s)" by blast
  then show ?thesis using t1(1) old by (auto simp: trie_insert_def Let_def)
qed

lemma get_node_resolve: "resolve t r = resolve t r' \<Longrightarrow> get_node t r key depth = get_node t r' key depth"
  by (subst (1 2) get_node.simps) simp

lemma trie_get_spec:
  assumes "collision_free K U" "represents K U t T"
  shows "trie_get t key = Some (Ok (plook_opt T (key_nibbles key)))"
proof (cases T)
  case None
  then show ?thesis using assms(2) by (simp add: represents_def trie_get_def)
next
  case (Some s)
  note r = represents_Some[OF assms(1) assms(2)[unfolded Some]]
  have "resolve t (mk_ref K (node_of K s)) = Ok (node_of K s)"
    using resolve_ref[OF assms(1) r(1,2)] r(7) by (simp add: stored_encs)
  then have "get_node t (HashRef (root t)) (key_nibbles key) 0 = get_node t (mk_ref K (node_of K s)) (key_nibbles key) 0"
    using r(6) by (intro get_node_resolve) simp
  then show ?thesis using get_node_spec[OF assms(1) _ r(2) _ _ r(1,7), of "key_nibbles key" 0] r(5) Some
    by (simp add: trie_get_def)
qed

lemma trie_delete_spec:
  assumes "collision_free K U" "represents K U t T"
    and "(case T of None \<Rightarrow> {} | Some s \<Rightarrow> del_encs K s (key_nibbles key)) \<subseteq> U"
  shows "\<exists>t'. trie_delete K t key = Some (Ok (plook_opt T (key_nibbles key) \<noteq> None), t')
    \<and> represents K U t' (pdrop T (key_nibbles key))"
proof (cases T)
  case None
  then show ?thesis using assms(2) by (simp add: trie_delete_def represents_def pdrop_def)
next
  case (Some s)
  note r = represents_Some[OF assms(1) assms(2)[unfolded Some]]
  let ?k = "key_nibbles key"
  obtain T' b where d: "pdel s ?k = (T', b)" by fastforce
  note spec = pdel_spec[OF r(2) d]
  obtain x where x: "delete_node K t (node_of K s) ?k 0 = Some x" "deletes K U t (T', b) x"
    using delete_node_spec[OF assms(1) _ r(2) _ _ r(1,3), of ?k 0] assms(3) Some d by auto
  then obtain t1 where t1: "x = (Ok (node_opt K T', b), t1)" "grows K U t t1" "stored K t1 (sub_encs_opt K T')"
    by (auto simp: deletes_def)
  show ?thesis
  proof (cases b)
    case False
    then have "represents K U t1 T"
      using assms(2) t1(2) Some stored_grows[OF t1(2)] by (auto simp: represents_def grows_def)
    then show ?thesis using False spec r x t1(1) Some d by (auto simp: trie_delete_def pdrop_def)
  next
    case True
    have U: "encs_opt K T' \<subseteq> U" using del_encs_result[of K s ?k] assms(3) Some d by simp
    have "\<exists>h t2. commit_root K t1 (node_opt K T') = (Ok h, t2) \<and> represents K U (t2\<lparr>root := h\<rparr>) T'"
    proof (cases T')
      case None
      then show ?thesis using grows_sound[OF t1(2)] by (simp add: commit_root_def represents_def)
    next
      case (Some s')
      have "canon max_path s'" using canon_pdel[OF r(2)] d Some by blast
      from commit_root_spec[OF assms(1) grows_sound[OF t1(2)] _ _ this] U t1(3) Some
      obtain t2 where "commit_root K t1 (node_of K s') = (Ok (K (enc (node_of K s'))), t2)"
        "represents K U (t2\<lparr>root := K (enc (node_of K s'))\<rparr>) (Some s')" by auto
      then show ?thesis using Some by auto
    qed
    then show ?thesis using True spec r x t1(1) Some d by (auto simp: trie_delete_def pdrop_def)
  qed
qed

lemma commit_spec:
  assumes "represents K U t T"
  shows "represents K U (snd (commit t)) T"
proof -
  have f: "fetch (snd (commit t)) = fetch t" by (rule ext) (simp add: commit_def fetch_def map_add_def split: option.split)
  have "sound K U (snd (commit t))"
    using assms by (auto simp: represents_def sound_def commit_def map_add_Some_iff dest!: map_of_SomeD)
  moreover have "root (snd (commit t)) = root t" by (simp add: commit_def)
  ultimately show ?thesis using assms by (auto simp: represents_def stored_def f split: option.splits)
qed

section \<open>Runs\<close>

datatype trie_op = TInsert "byte list" "byte list" | TDelete "byte list" | TCommit

fun trie_step :: "(byte list \<Rightarrow> h256) \<Rightarrow> trie \<Rightarrow> trie_op \<Rightarrow> ((trie_error, unit) res \<times> trie) option" where
  "trie_step K t (TInsert key v) = trie_insert K t key v"
| "trie_step K t (TDelete key) = map_option (\<lambda>(r, t1). (bind_res r (\<lambda>_. Ok ()), t1)) (trie_delete K t key)"
| "trie_step K t TCommit = Some (Ok (), snd (commit t))"

fun trie_run :: "(byte list \<Rightarrow> h256) \<Rightarrow> trie \<Rightarrow> trie_op list \<Rightarrow> ((trie_error, unit) res \<times> trie) option" where
  "trie_run K t [] = Some (Ok (), t)"
| "trie_run K t (op # ops) =
     (case trie_step K t op of Some (Ok _, t1) \<Rightarrow> trie_run K t1 ops | x \<Rightarrow> x)"

fun op_ok :: "trie_op \<Rightarrow> bool" where
  "op_ok (TInsert key v) \<longleftrightarrow> length key < 2 ^ 59 \<and> v \<noteq> [] \<and> length v < 2 ^ 60"
| "op_ok _ \<longleftrightarrow> True"

text \<open>The map the operations build, and the trees, with the encodings they have to hash apart.\<close>

fun op_map :: "(byte list \<rightharpoonup> byte list) \<Rightarrow> trie_op \<Rightarrow> (byte list \<rightharpoonup> byte list)" where
  "op_map m (TInsert key v) = m(key \<mapsto> v)"
| "op_map m (TDelete key) = m(key := None)"
| "op_map m TCommit = m"

definition content :: "trie_op list \<Rightarrow> byte list \<rightharpoonup> byte list" where
  "content ops = foldl op_map Map.empty ops"

fun op_tree :: "pt option \<Rightarrow> trie_op \<Rightarrow> pt option" where
  "op_tree T (TInsert key v) = Some (pput T (key_nibbles key) v)"
| "op_tree T (TDelete key) = pdrop T (key_nibbles key)"
| "op_tree T TCommit = T"

fun op_encs :: "(byte list \<Rightarrow> h256) \<Rightarrow> pt option \<Rightarrow> trie_op \<Rightarrow> byte list set" where
  "op_encs K T (TInsert key v) = encs K (pput T (key_nibbles key) v)"
| "op_encs K T (TDelete key) = (case T of None \<Rightarrow> {} | Some s \<Rightarrow> del_encs K s (key_nibbles key))"
| "op_encs K T TCommit = {}"

fun run_encs :: "(byte list \<Rightarrow> h256) \<Rightarrow> pt option \<Rightarrow> trie_op list \<Rightarrow> byte list set" where
  "run_encs K T [] = {}"
| "run_encs K T (op # ops) = op_encs K T op \<union> run_encs K (op_tree T op) ops"

lemma trie_step_spec:
  assumes "collision_free K U" "represents K U t T" "op_ok op" "op_encs K T op \<subseteq> U"
  shows "\<exists>t'. trie_step K t op = Some (Ok (), t') \<and> represents K U t' (op_tree T op)"
proof (cases op)
  case (TInsert key v)
  then show ?thesis using trie_insert_spec[OF assms(1,2), of key v] assms(3,4) by (simp add: val_ok_def)
next
  case (TDelete key)
  then show ?thesis using trie_delete_spec[OF assms(1,2), of key] assms(4) by auto
next
  case TCommit
  then show ?thesis using commit_spec[OF assms(2)] by simp
qed

lemma trie_run_spec:
  assumes "collision_free K U" "represents K U t T" "list_all op_ok ops" "run_encs K T ops \<subseteq> U"
  shows "\<exists>t'. trie_run K t ops = Some (Ok (), t') \<and> represents K U t' (foldl op_tree T ops)"
  using assms(2-)
proof (induction ops arbitrary: t T)
  case (Cons op ops)
  from trie_step_spec[OF assms(1) Cons.prems(1), of op] Cons.prems(2,3)
  obtain t1 where "trie_step K t op = Some (Ok (), t1)" "represents K U t1 (op_tree T op)" by auto
  then show ?case using Cons.IH[of t1 "op_tree T op"] Cons.prems(2,3) by simp
qed simp

text \<open>The tree of a run looks up what the map holds, under the nibbles of a key and nowhere else.\<close>

definition tree_of_map :: "pt option \<Rightarrow> (byte list \<rightharpoonup> byte list) \<Rightarrow> bool" where
  "tree_of_map T m \<longleftrightarrow> (\<forall>s. T = Some s \<longrightarrow> canon max_path s) \<and> (\<forall>key. plook_opt T (key_nibbles key) = m key)
     \<and> (\<forall>k. plook_opt T k \<noteq> None \<longrightarrow> (\<exists>key. k = key_nibbles key))"

lemma op_tree_map:
  assumes "tree_of_map T m" "op_ok op"
  shows "tree_of_map (op_tree T op) (op_map m op)"
proof (cases op)
  case (TInsert key v)
  have l: "length (key_nibbles key) \<le> max_path" "val_ok v" using assms(2) TInsert by (simp_all add: length_key_nibbles val_ok_def)
  have look: "plook (pput T (key_nibbles key) v) k = (if k = key_nibbles key then Some v else plook_opt T k)" for k
    using assms(1) plook_pins[of max_path _ "key_nibbles key" v k] by (cases T) (auto simp: pput_def tree_of_map_def)
  moreover have "canon max_path (pput T (key_nibbles key) v)"
    using assms(1) l by (cases T) (auto simp: pput_def tree_of_map_def intro!: canon_pins)
  ultimately show ?thesis using assms(1) TInsert by (auto simp: tree_of_map_def key_nibbles_inj)
next
  case (TDelete key)
  show ?thesis
  proof (cases T)
    case (Some s)
    obtain T' b where d: "pdel s (key_nibbles key) = (T', b)" by fastforce
    have c: "canon max_path s" using assms(1) Some by (simp add: tree_of_map_def)
    have "plook_opt T' k = (if k = key_nibbles key then None else plook_opt T k)" for k
      using pdel_spec[OF c d] Some by (cases b) auto
    moreover have "canon max_path s'" if "T' = Some s'" for s' using canon_pdel[OF c] d that by blast
    ultimately show ?thesis using assms(1) TDelete Some d by (auto simp: tree_of_map_def pdrop_def key_nibbles_inj)
  qed (use assms TDelete in \<open>auto simp: tree_of_map_def pdrop_def\<close>)
qed (use assms in simp)

lemma run_tree_map: "tree_of_map T m \<Longrightarrow> list_all op_ok ops \<Longrightarrow> tree_of_map (foldl op_tree T ops) (foldl op_map m ops)"
  by (induction ops arbitrary: T m) (simp_all add: op_tree_map)

lemma tree_of_map_unique:
  assumes "tree_of_map T m" "tree_of_map S m"
  shows "T = S"
proof -
  have look: "plook_opt T k = plook_opt S k" for k
  proof (cases "\<exists>key. k = key_nibbles key")
    case True then show ?thesis using assms by (auto simp: tree_of_map_def)
  next
    case False then show ?thesis using assms unfolding tree_of_map_def by metis
  qed
  show ?thesis
  proof (cases T)
    case None
    then have "plook s k = None" if "S = Some s" for s k using look[of k] that by simp
    then show ?thesis using None assms(2) canon_has_key unfolding tree_of_map_def by (metis not_None_eq)
  next
    case (Some t)
    then have c: "canon max_path t" using assms(1) by (simp add: tree_of_map_def)
    then obtain k where "plook t k \<noteq> None" using canon_has_key by blast
    then obtain s where s: "S = Some s" using look[of k] Some by (cases S) simp_all
    have "plook t = plook s" using look Some s by (auto intro: ext)
    then show ?thesis using canon_unique[OF c, of max_path s] assms(2) s Some by (simp add: tree_of_map_def)
  qed
qed

lemma represents_new: "represents K U (trie_new Map.empty) None"
  by (simp add: represents_def trie_new_def sound_def)

lemma tree_of_map_empty: "tree_of_map None Map.empty"
  by (simp add: tree_of_map_def)

lemma run_from_new:
  assumes "collision_free K U" "list_all op_ok ops" "run_encs K None ops \<subseteq> U"
  obtains t where "trie_run K (trie_new Map.empty) ops = Some (Ok (), t)"
    "represents K U t (foldl op_tree None ops)" "tree_of_map (foldl op_tree None ops) (content ops)"
  using trie_run_spec[OF assms(1) represents_new assms(2,3)] run_tree_map[OF tree_of_map_empty assms(2)]
  by (auto simp: content_def)


section \<open>Merkle proofs\<close>

lemma hash_link:
  assumes "collision_free K U" "e \<in> U" "encs K s \<subseteq> U" "K e = K (enc (node_of K s))"
  shows "e = enc (node_of K s)"
proof -
  have "enc (node_of K s) \<in> U" using assms(3) enc_in_encs by blast
  then show ?thesis using assms(1,2,4) by (auto simp: collision_free_def dest: inj_onD)
qed

lemma mk_ref_HashRef: "mk_ref K m = HashRef h \<longleftrightarrow> 32 \<le> length (enc m) \<and> h = K (enc m)"
  by (auto simp: mk_ref_def)

lemma verify_loop_sound:
  assumes "collision_free K U" "n < 2 ^ 60" "canon n s" "encs K s \<subseteq> U" "set nodes \<subseteq> U" "nibs key" "depth \<le> length key"
    and "verify_loop K key v (K (enc (node_of K s))) depth nodes = (Ok True :: ('e, bool) res)"
  shows "v = plook s (drop depth key)"
  using assms(2-)
proof (induction nodes arbitrary: n s depth)
  case (Cons e nodes)
  have e: "e = enc (node_of K s)" using Cons.prems(4,7) by (intro hash_link[OF assms(1) _ Cons.prems(3)]) (auto split: if_splits)
  have dec: "trie_decode e = Ok (node_of K s)" using trie_decode_enc[OF canon_node_ok[OF Cons.prems(2,1)]] e by simp
  note prems = Cons.prems(7)[unfolded verify_loop.simps dec, simplified e simp_thms res.case if_False]
  show ?case
  proof (cases s)
    case (PLeaf p w)
    have "lcp (drop depth key) p = length p \<and> depth + lcp (drop depth key) p = length key \<longleftrightarrow> drop depth key = p"
      using lcp_full[of "drop depth key" p] Cons.prems(6) by auto
    then show ?thesis using prems PLeaf by (auto simp: Let_def split: if_splits)
  next
    case (PExt p c)
    show ?thesis
    proof (cases "lcp (drop depth key) p = length p")
      case True
      have d: "depth + length p \<le> length key" using True lcp_le(1)[of "drop depth key" p] Cons.prems(6) by simp
      have n: "n - length p < 2 ^ 60" using Cons.prems(1) by (rule le_less_trans[OF diff_le_self])
      obtain h where h: "mk_ref K (node_of K c) = HashRef h" "verify_loop K key v h (depth + length p) nodes = (Ok True :: ('e, bool) res)"
        using prems PExt True by (auto simp: Let_def mk_ref_def split: if_splits)
      then have "h = K (enc (node_of K c))" by (simp add: mk_ref_HashRef)
      then have "v = plook c (drop (depth + length p) key)"
        using Cons.IH[of "n - length p" c "depth + length p"] Cons.prems PExt d n h by (simp add: encs_ext)
      then show ?thesis using PExt True by (simp add: plook.simps(2) add.commute)
    next
      case False
      then show ?thesis using prems PExt by (auto simp: Let_def plook.simps(2))
    qed
  next
    case (PBranch cs bv)
    show ?thesis
    proof (cases "depth = length key")
      case True
      then show ?thesis using prems PBranch by (auto split: if_splits)
    next
      case False
      then have d: "depth < length key" using Cons.prems(6) by simp
      have l: "length cs = 16" using Cons.prems(2) PBranch by (simp add: canon_branch)
      have i: "unat (key ! depth) < length cs" using nibs_nth[OF Cons.prems(5) d] l by (simp add: nib_unat)
      have dr: "drop depth key = key ! depth # drop (Suc depth) key" using d by (simp add: Cons_nth_drop_Suc)
      have v: "(case ref_opt K (cs ! unat (key ! depth)) of HashRef h \<Rightarrow> verify_loop K key v h (Suc depth) nodes
          | EmptyRef \<Rightarrow> Ok (v = None) | Inline m \<Rightarrow> Ok False) = (Ok True :: ('e, bool) res)"
        using prems PBranch d i by (simp add: nib_at_Ok get_child_refs False)
      show ?thesis
      proof (cases "cs ! unat (key ! depth)")
        case None
        then show ?thesis using v dr PBranch i by simp
      next
        case (Some c)
        have c: "canon (n - 1) c" using Cons.prems(2) PBranch i Some by (auto simp: canon_branch list_all_length kid_ok_def)
        have U: "encs K c \<subseteq> U" using kids_encs_nth[OF i Some, of K] Cons.prems(3) PBranch by (auto simp: encs_ext)
        have n: "n - 1 < 2 ^ 60" using Cons.prems(1) by (rule le_less_trans[OF diff_le_self])
        have "verify_loop K key v (K (enc (node_of K c))) (Suc depth) nodes = (Ok True :: ('e, bool) res)"
          using v Some by (auto simp: mk_ref_def split: if_splits)
        then have "v = plook c (drop (Suc depth) key)"
          using Cons.IH[OF n c U _ Cons.prems(5)] Cons.prems(4) d by simp
        then show ?thesis using dr PBranch i Some by simp
      qed
    qed
  qed
qed simp

text \<open>
  Where every node is hash-linked the proof the trie produces is accepted; the nodes it collects
  are the ones the verifier walks through.
\<close>

definition linked :: "(byte list \<Rightarrow> h256) \<Rightarrow> pt \<Rightarrow> bool" where
  "linked K s \<longleftrightarrow> (\<forall>e \<in> encs K s. 32 \<le> length e)"

lemma linked_ref: "linked K s \<Longrightarrow> mk_ref K (node_of K s) = HashRef (K (enc (node_of K s)))"
  by (simp add: linked_def mk_ref_def) (use enc_in_encs linorder_not_less in blast)

lemma linked_fetch:
  "linked K s \<Longrightarrow> stored K t (encs K s) \<Longrightarrow> fetch t (K (enc (node_of K s))) = Some (enc (node_of K s))"
  using enc_in_encs[of K s] by (auto simp: stored_def linked_def)

lemma load_root:
  assumes "collision_free K U" "sound K U t" "canon n s" "n < 2 ^ 60" "fetch t (K (enc (node_of K s))) = Some (enc (node_of K s))"
  shows "load t (HashRef (K (enc (node_of K s)))) nodes = Ok (node_of K s, nodes @ [enc (node_of K s)])"
proof -
  have "K (enc (node_of K s)) \<noteq> EMPTY_ROOT"
    using sound_fetch[OF assms(2,5)] assms(1) imageI[of _ U K] unfolding collision_free_def by metis
  then show ?thesis using assms(5) trie_decode_enc[OF canon_node_ok[OF assms(3,4)]]
    by (simp add: load_def del: bind_res_Ok_iff)
qed

definition proves ::
  "(byte list \<Rightarrow> h256) \<Rightarrow> trie \<Rightarrow> pt \<Rightarrow> byte list \<Rightarrow> usize \<Rightarrow> byte list list \<Rightarrow> byte list list \<Rightarrow> bool" where
  "proves K t s key depth nodes0 ns \<longleftrightarrow>
     prove_loop t (HashRef (K (enc (node_of K s)))) key depth nodes0 = Some (Ok (plook s (drop depth key), nodes0 @ ns))
     \<and> ns \<noteq> [] \<and> verify_loop K key (plook s (drop depth key)) (K (enc (node_of K s))) depth ns = (Ok True :: (unit, bool) res)"

lemma prove_loop_complete:
  assumes "collision_free K U" "sound K U t" "n < 2 ^ 60" "canon n s" "linked K s" "stored K t (encs K s)" "nibs key" "depth \<le> length key"
  shows "\<exists>ns. proves K t s key depth nodes0 ns"
  using assms(3-)
proof (induction s arbitrary: n depth nodes0)
  case (PLeaf p w)
  have f: "fetch t (K (enc (node_of K (PLeaf p w)))) = Some (enc (node_of K (PLeaf p w)))"
    using PLeaf(3,4) by (rule linked_fetch)
  note ld = load_root[OF assms(1,2) PLeaf(2,1) f]
  have dec: "trie_decode (enc (Leaf p w)) = Ok (Leaf p w)"
    using trie_decode_enc[OF canon_node_ok[OF PLeaf(2,1)], of K] by simp
  have "lcp (drop depth key) p = length p \<and> depth + lcp (drop depth key) p = length key \<longleftrightarrow> drop depth key = p"
    "length (drop depth key) = length p \<and> lcp (drop depth key) p = length p \<longleftrightarrow> drop depth key = p"
    using lcp_full[of "drop depth key" p] PLeaf(6) by auto
  then show ?case using ld dec unfolding proves_def
    by (intro exI[of _ "[enc (Leaf p w)]"], subst prove_loop.simps) (auto simp: Let_def simp del: enc.simps)
next
  case (PExt p c)
  let ?e = "enc (node_of K (PExt p c))"
  have f: "fetch t (K ?e) = Some ?e" using PExt(4,5) by (rule linked_fetch)
  note ld = load_root[OF assms(1,2) PExt(3,2) f]
  have dec: "trie_decode ?e = Ok (node_of K (PExt p c))" using trie_decode_enc[OF canon_node_ok[OF PExt(3,2)]] .
  have sub: "encs K c \<subseteq> encs K (PExt p c)" by (simp add: encs_ext subset_insertI)
  have c: "linked K c" "stored K t (encs K c)" "canon (n - length p) c" "n - length p < 2 ^ 60"
    using sub PExt(3,4) stored_mono[OF PExt(5) sub] le_less_trans[OF diff_le_self PExt(2)] by (auto simp: linked_def)
  show ?case
  proof (cases "lcp (drop depth key) p = length p")
    case False
    then show ?thesis using ld dec unfolding proves_def
      by (intro exI[of _ "[?e]"], subst prove_loop.simps) (simp add: Let_def plook.simps(2) del: enc.simps)
  next
    case True
    have "depth + length p \<le> length key" using True lcp_le(1)[of "drop depth key" p] PExt(7) by simp
    then obtain ns where "proves K t c key (depth + length p) (nodes0 @ [?e]) ns"
      using PExt(1)[OF c(4,3,1,2) PExt(6)] by blast
    then show ?thesis using ld dec True linked_ref[OF c(1)] unfolding proves_def
      by (intro exI[of _ "?e # ns"], subst prove_loop.simps) (simp add: Let_def plook.simps(2) add.commute del: enc.simps)
  qed
next
  case (PBranch cs bv)
  let ?e = "enc (node_of K (PBranch cs bv))"
  have f: "fetch t (K ?e) = Some ?e" using PBranch(4,5) by (rule linked_fetch)
  note ld = load_root[OF assms(1,2) PBranch(3,2) f]
  have dec: "trie_decode ?e = Ok (node_of K (PBranch cs bv))" using trie_decode_enc[OF canon_node_ok[OF PBranch(3,2)]] .
  show ?case
  proof (cases "depth = length key")
    case True
    then show ?thesis using ld dec unfolding proves_def
      by (intro exI[of _ "[?e]"], subst prove_loop.simps) (simp add: Let_def del: enc.simps)
  next
    case False
    then have d: "depth < length key" using PBranch(7) by simp
    have dr: "drop depth key = key ! depth # drop (Suc depth) key" using d by (simp add: Cons_nth_drop_Suc)
    have sub: "kids_encs K cs \<subseteq> encs K (PBranch cs bv)" by (simp add: encs_ext subset_insertI)
    have st: "stored K t (kids_encs K cs)" by (rule stored_mono[OF PBranch(5) sub])
    note b = branch_step[OF assms(1,2) PBranch(3,2) st PBranch(6) d]
    show ?thesis
    proof (cases "cs ! unat (key ! depth)")
      case None
      have "prove_loop t EmptyRef key (Suc depth) ns = Some (Ok (None, ns))" for ns
        by (subst prove_loop.simps) (simp add: load_def)
      then show ?thesis using ld dec False b(2,4) d dr None unfolding proves_def
        by (intro exI[of _ "[?e]"], subst prove_loop.simps)
           (simp add: Let_def b(4) nib_at_Ok get_child_refs del: enc.simps bind_res_Ok_iff)
    next
      case (Some c)
      have sc: "Some c \<in> set cs" using b(2) Some by (metis nth_mem)
      have c: "canon (n - 1) c" "stored K t (encs K c)" "linked K c" "n - 1 < 2 ^ 60"
        using b(3)[OF Some] PBranch(4) sub kids_encs_nth[OF b(2) Some, of K] le_less_trans[OF diff_le_self PBranch(2)]
        by (auto simp: linked_def)
      obtain ns where "proves K t c key (Suc depth) (nodes0 @ [?e]) ns"
        using PBranch(1)[OF sc _ c(4,1,3,2) PBranch(6) Suc_leI[OF d]] by blast
      then show ?thesis using ld dec False b(2,4) d dr Some linked_ref[OF c(3)] unfolding proves_def
        by (intro exI[of _ "?e # ns"], subst prove_loop.simps)
           (simp add: Let_def b(4) nib_at_Ok get_child_refs del: enc.simps bind_res_Ok_iff)
    qed
  qed
qed

section \<open>What the trie promises\<close>

lemma run_facts:
  assumes "collision_free K U" "list_all op_ok ops" "run_encs K None ops \<subseteq> U"
    and "trie_run K (trie_new Map.empty) ops = Some (Ok (), t)"
  shows "represents K U t (foldl op_tree None ops)" "tree_of_map (foldl op_tree None ops) (content ops)"
  using run_from_new[OF assms(1-3)] assms(4) by (metis option.inject prod.inject)+

text \<open>
  C8: the Merkle Patricia trie is a map. After any sequence of commits, deletions and insertions of values that are not empty
  (the code loses an empty value in a branch; keys shorter than \<open>2 ^ 59\<close>, values than \<open>2 ^ 60\<close> bytes) on an empty
  trie, every operation has returned without an error and every lookup returns exactly what the map built by the same
  operations holds, provided the hash has no collision among the encodings involved.
\<close>

theorem trie_implements_map:
  assumes "collision_free K (run_encs K None ops)" "list_all op_ok ops"
  shows "\<exists>t. trie_run K (trie_new Map.empty) ops = Some (Ok (), t) \<and> (\<forall>key. trie_get t key = Some (Ok (content ops key)))"
proof -
  obtain t where t: "trie_run K (trie_new Map.empty) ops = Some (Ok (), t)"
    "represents K (run_encs K None ops) t (foldl op_tree None ops)" "tree_of_map (foldl op_tree None ops) (content ops)"
    using run_from_new[OF assms order_refl] by blast
  then have "trie_get t key = Some (Ok (content ops key))" for key
    using trie_get_spec[OF assms(1) t(2)] by (simp add: tree_of_map_def)
  then show ?thesis using t(1) by blast
qed

text \<open>
  C9: the root hash commits to the content and to nothing else. Two runs of such operations, with values that are not empty
  and no collision among the encodings of either run, that build the same map, in whatever order and with whatever
  intermediate deletions, end with the same root.
\<close>

theorem trie_root_canonical:
  assumes "collision_free K (run_encs K None ops)" "collision_free K (run_encs K None ops')"
    and "list_all op_ok ops" "list_all op_ok ops'" "content ops = content ops'"
    and "trie_run K (trie_new Map.empty) ops = Some (Ok (), t)" "trie_run K (trie_new Map.empty) ops' = Some (Ok (), t')"
  shows "root t = root t'"
proof -
  let ?T = "foldl op_tree None ops" and ?S = "foldl op_tree None ops'"
  have r: "represents K (run_encs K None ops) t ?T" "tree_of_map ?T (content ops)"
    using run_facts[OF assms(1,3) order_refl assms(6)] by simp_all
  have r': "represents K (run_encs K None ops') t' ?S" "tree_of_map ?S (content ops')"
    using run_facts[OF assms(2,4) order_refl assms(7)] by simp_all
  have "?T = ?S" using tree_of_map_unique[OF r(2)] r'(2) assms(5) by simp
  then show ?thesis using r(1) r'(1) by (auto simp: represents_def split: option.splits)
qed

text \<open>
  C10: Merkle proofs are sound. A proof that verifies against the root of a trie built with values that are not empty states what the
  trie holds under the key, presence and absence alike, whoever made the proof, if the hash does not collide on the nodes of
  the trie and of the proof.
\<close>

theorem merkle_proof_sound:
  assumes "collision_free K (run_encs K None ops \<union> set nodes)" "list_all op_ok ops"
    and "trie_run K (trie_new Map.empty) ops = Some (Ok (), t)"
    and "verify_proof K (root t) key v nodes = (Ok True :: ('e, bool) res)"
  shows "v = content ops key"
proof -
  let ?U = "run_encs K None ops \<union> set nodes" and ?T = "foldl op_tree None ops"
  have r: "represents K ?U t ?T" "tree_of_map ?T (content ops)"
    using run_facts[OF assms(1,2) _ assms(3)] by simp_all
  have c: "plook_opt ?T (key_nibbles key) = content ops key" using r(2) by (simp add: tree_of_map_def)
  show ?thesis
  proof (cases ?T)
    case None
    then have root: "root t = EMPTY_ROOT" using r(1) by (simp add: represents_def)
    have "nodes = []"
    proof (cases nodes)
      case (Cons e es)
      then have "K e = EMPTY_ROOT" using assms(4) root by (auto simp: verify_proof_def split: if_splits)
      moreover have "e \<in> ?U" using Cons by simp
      ultimately show ?thesis using assms(1) imageI[of e ?U K] unfolding collision_free_def by metis
    qed
    then show ?thesis using assms(4) c None by (simp add: verify_proof_def)
  next
    case (Some s)
    note s = represents_Some[OF assms(1) r(1)[unfolded Some]]
    have "encs K s \<subseteq> ?U" using r(1) Some by (simp add: represents_def)
    moreover have "nodes \<noteq> []" using assms(4) s(5) by (auto simp: verify_proof_def)
    moreover have "verify_loop K (key_nibbles key) v (K (enc (node_of K s))) 0 nodes = (Ok True :: ('e, bool) res)"
      using assms(4) calculation(2) s(4) by (simp add: verify_proof_def)
    ultimately have "v = plook s (drop 0 (key_nibbles key))"
      by (intro verify_loop_sound[OF assms(1) _ s(2)]) simp_all
    then show ?thesis using c Some by simp
  qed
qed

text \<open>
  C11: Merkle proofs are complete for hash-linked tries. When the encoding of every node of the trie has at least 32 bytes, so that
  each is stored by its hash, and values are not empty and the hash does not collide, the proof the trie produces for a
  key carries the value it holds, and verifies. Tries of account states are such; the verifier rejects an inline child.
\<close>

theorem merkle_proof_complete:
  assumes "collision_free K (run_encs K None ops)" "list_all op_ok ops"
    and "trie_run K (trie_new Map.empty) ops = Some (Ok (), t)"
    and "\<forall>e \<in> encs_opt K (foldl op_tree None ops). 32 \<le> length e"
  shows "\<exists>p. prove t key = Some (Ok p) \<and> proof_value p = content ops key
    \<and> merkle_verify K p (root t) = (Ok True :: (unit, bool) res)"
proof -
  let ?T = "foldl op_tree None ops"
  have r: "represents K (run_encs K None ops) t ?T" "tree_of_map ?T (content ops)"
    using run_facts[OF assms(1,2) order_refl assms(3)] by simp_all
  have c: "plook_opt ?T (key_nibbles key) = content ops key" using r(2) by (simp add: tree_of_map_def)
  show ?thesis
  proof (cases ?T)
    case None
    then have root: "root t = EMPTY_ROOT" using r(1) by (simp add: represents_def)
    have "prove_loop t (HashRef (root t)) (key_nibbles key) 0 [] = Some (Ok (None, []))"
      by (subst prove_loop.simps) (simp add: load_def root)
    then show ?thesis using c None root by (simp add: prove_def merkle_verify_def verify_proof_def)
  next
    case (Some s)
    note s = represents_Some[OF assms(1) r(1)[unfolded Some]]
    have "linked K s" using assms(4) Some by (simp add: linked_def)
    then obtain ns where "proves K t s (key_nibbles key) 0 [] ns"
      using prove_loop_complete[OF assms(1) s(1) _ s(2) _ s(7)] by fastforce
    then show ?thesis using c Some s(4)
      by (simp add: proves_def prove_def merkle_verify_def verify_proof_def)
  qed
qed


section \<open>A sample hash\<close>

definition sum_hash :: "byte list \<Rightarrow> h256" where
  "sum_hash bs = of_nat (be_val bs)"

definition sample_ops :: "trie_op list" where
  "sample_ops = [TInsert [0x12] [1], TInsert [0x13] [2], TDelete [0x12]]"

lemma sample_encs: "run_encs sum_hash None sample_ops =
  {[196, 130, 32, 18, 1], [194, 32, 1], [194, 32, 2],
  [213, 128, 128, 194, 32, 1, 194, 32, 2, 128, 128, 128, 128, 128, 128, 128,
   128, 128, 128, 128, 128, 128],
  [215, 17, 213, 128, 128, 194, 32, 1, 194, 32, 2, 128, 128, 128, 128, 128,
   128, 128, 128, 128, 128, 128, 128, 128],
  [194, 51, 2], [196, 130, 32, 19, 2]}"
  by code_simp

lemma sample_encs': "run_encs sum_hash None [TInsert [0x13] [2]] = {[196, 130, 32, 19, 2]}"
  by code_simp

lemma sample_free: "collision_free sum_hash (run_encs sum_hash None sample_ops)"
  "collision_free sum_hash (run_encs sum_hash None [TInsert [0x13] [2]])"
  unfolding sample_encs sample_encs'
  by (simp_all add: collision_free_def sum_hash_def be_val_def EMPTY_ROOT_def)

lemma sample_content: "content sample_ops = [[0x13] \<mapsto> [2]]" "content [TInsert [0x13] [2]] = [[0x13] \<mapsto> [2]]"
  by (auto simp: content_def sample_ops_def)

lemma sample_ok: "list_all op_ok sample_ops" "list_all op_ok [TInsert [0x13] [2]]"
  by (simp_all add: sample_ops_def)

theorem trie_implements_map_witness:
  "\<exists>t. trie_run sum_hash (trie_new Map.empty) sample_ops = Some (Ok (), t)
     \<and> (\<forall>key. trie_get t key = Some (Ok (content sample_ops key)))"
  by (rule trie_implements_map[OF sample_free(1) sample_ok(1)])

theorem trie_root_canonical_witness:
  "\<exists>t t'. trie_run sum_hash (trie_new Map.empty) sample_ops = Some (Ok (), t)
     \<and> trie_run sum_hash (trie_new Map.empty) [TInsert [0x13] [2]] = Some (Ok (), t') \<and> root t = root t'"
proof -
  obtain t where t: "trie_run sum_hash (trie_new Map.empty) sample_ops = Some (Ok (), t)"
    using run_from_new[OF sample_free(1) sample_ok(1) order_refl] by blast
  obtain t' where t': "trie_run sum_hash (trie_new Map.empty) [TInsert [0x13] [2]] = Some (Ok (), t')"
    using run_from_new[OF sample_free(2) sample_ok(2) order_refl] by blast
  show ?thesis
    using trie_root_canonical[OF sample_free sample_ok _ t t'] t t' by (simp add: sample_content del: trie_run.simps)
qed

lemma sample_enc: "enc (Leaf [1, 3] [2]) = [196, 130, 32, 19, 2]"
  by code_simp

lemma sample_run:
  "trie_run sum_hash (trie_new Map.empty) [TInsert [0x13] [2]] =
   Some (Ok (), \<lparr>root = sum_hash [196, 130, 32, 19, 2], db = Map.empty, cache = [(sum_hash [196, 130, 32, 19, 2], [196, 130, 32, 19, 2])]\<rparr>)"
  by (simp add: trie_insert_def trie_new_def key_nibbles_def insert_node.simps commit_root_def trie_encode_enc
      sample_enc del: enc.simps)

theorem merkle_proof_sound_witness: "Some [2] = content [TInsert [0x13] [2]] [0x13]"
proof (rule merkle_proof_sound[OF _ sample_ok(2) sample_run])
  let ?e = "[196, 130, 32, 19, 2] :: byte list"
  show "collision_free sum_hash (run_encs sum_hash None [TInsert [0x13] [2]] \<union> set [?e])"
    using sample_free(2) unfolding sample_encs' by simp
  have "trie_decode ?e = Ok (Leaf [1, 3] [2])" using trie_decode_enc[of "Leaf [1, 3] [2]"] by (simp add: sample_enc del: enc.simps)
  then show "verify_proof sum_hash (root \<lparr>root = sum_hash ?e, db = Map.empty, cache = [(sum_hash ?e, ?e)]\<rparr>) [0x13] (Some [2]) [?e]
      = (Ok True :: (unit, bool) res)"
    by (simp add: verify_proof_def key_nibbles_def)
qed

definition long_ops :: "trie_op list" where
  "long_ops = [TInsert [1] (replicate 40 7)]"

lemma long_encs: "run_encs sum_hash None long_ops = {[236, 130, 32, 1, 168,
    7, 7, 7, 7, 7, 7, 7, 7, 7, 7, 7, 7, 7, 7, 7, 7, 7, 7, 7, 7,
    7, 7, 7, 7, 7, 7, 7, 7, 7, 7, 7, 7, 7, 7, 7, 7, 7, 7, 7, 7]}"
  by code_simp

lemma long_free: "collision_free sum_hash (run_encs sum_hash None long_ops)"
  unfolding long_encs by (simp add: collision_free_def sum_hash_def be_val_def EMPTY_ROOT_def)

theorem merkle_proof_complete_witness:
  "\<exists>t p. trie_run sum_hash (trie_new Map.empty) long_ops = Some (Ok (), t) \<and> prove t [1] = Some (Ok p)
     \<and> proof_value p = Some (replicate 40 7) \<and> merkle_verify sum_hash p (root t) = (Ok True :: (unit, bool) res)"
proof -
  have ok: "list_all op_ok long_ops" by (simp add: long_ops_def)
  obtain t where t: "trie_run sum_hash (trie_new Map.empty) long_ops = Some (Ok (), t)"
    using run_from_new[OF long_free ok order_refl] by blast
  have "\<forall>e \<in> encs_opt sum_hash (foldl op_tree None long_ops). 32 \<le> length e" by code_simp
  from merkle_proof_complete[OF long_free ok t this, of "[1]"] show ?thesis
    using t by (auto simp: content_def long_ops_def)
qed
end
