(* ===== verification/Evm_Word.thy ===== *)
theory Evm_Word
  imports Prelude
begin

text \<open>
  The 256-bit arithmetic of the EVM, \<^verbatim>\<open>zbx-evm/src/stack.rs\<close>. A stack word is an array of 32
  big-endian bytes, here a byte list; every operation is translated as the loop over bytes, limbs
  or bits it is. Evm\_Arith relates each of them to arithmetic on the number the bytes stand for.
\<close>

unbundle bit_operations_syntax

section \<open>Words as bytes\<close>

type_synonym word32 = "byte list"

definition zero32 :: word32 where
  "zero32 = replicate 32 0"

definition u256_from_u64 :: "u64 \<Rightarrow> word32" where
  "u256_from_u64 v = replicate 24 0 @ be_bytes 8 v"

definition u256_to_u64 :: "word32 \<Rightarrow> u64" where
  "u256_to_u64 v = be_val (drop 24 v)"

definition u256_is_zero :: "word32 \<Rightarrow> bool" where
  "u256_is_zero a = list_all (\<lambda>b. b = 0) a"

definition is_negative :: "word32 \<Rightarrow> bool" where
  "is_negative a = ((a ! 0) AND 0x80 \<noteq> 0)"

text \<open>The order of byte arrays is lexicographic.\<close>

fun u256_lt :: "word32 \<Rightarrow> word32 \<Rightarrow> bool" where
  "u256_lt (a # as) (b # bs) = (a < b \<or> a = b \<and> u256_lt as bs)"
| "u256_lt as bs = (as = [] \<and> bs \<noteq> [])"

definition u256_gt :: "word32 \<Rightarrow> word32 \<Rightarrow> bool" where
  "u256_gt a b = u256_lt b a"

definition u256_slt :: "word32 \<Rightarrow> word32 \<Rightarrow> bool" where
  "u256_slt a b = (if is_negative a \<noteq> is_negative b then is_negative a else u256_lt a b)"

definition u256_sgt :: "word32 \<Rightarrow> word32 \<Rightarrow> bool" where
  "u256_sgt a b = (if is_negative a \<noteq> is_negative b then is_negative b else u256_gt a b)"

definition u256_and :: "word32 \<Rightarrow> word32 \<Rightarrow> word32" where
  "u256_and a b = map2 (AND) a b"

definition u256_or :: "word32 \<Rightarrow> word32 \<Rightarrow> word32" where
  "u256_or a b = map2 (OR) a b"

definition u256_xor :: "word32 \<Rightarrow> word32 \<Rightarrow> word32" where
  "u256_xor a b = map2 (XOR) a b"

definition u256_not :: "word32 \<Rightarrow> word32" where
  "u256_not a = map NOT a"

section \<open>Addition, subtraction, multiplication\<close>

text \<open>The loops run from the last byte to the first; they return the carry or borrow out of the
  first byte with the bytes.\<close>

fun add_bytes :: "word32 \<Rightarrow> word32 \<Rightarrow> nat \<times> word32" where
  "add_bytes (a # as) (b # bs) =
     (case add_bytes as bs of (carry, r) \<Rightarrow>
      let sum = unat a + unat b + carry in (drop_bit 8 sum, of_nat sum # r))"
| "add_bytes _ _ = (0, [])"

definition u256_add :: "word32 \<Rightarrow> word32 \<Rightarrow> word32" where
  "u256_add a b = snd (add_bytes a b)"

fun sub_bytes :: "word32 \<Rightarrow> word32 \<Rightarrow> int \<times> word32" where
  "sub_bytes (a # as) (b # bs) =
     (case sub_bytes as bs of (borrow, r) \<Rightarrow>
      let diff = int (unat a) - int (unat b) - borrow in (if diff < 0 then 1 else 0, of_int diff # r))"
| "sub_bytes _ _ = (0, [])"

definition u256_sub :: "word32 \<Rightarrow> word32 \<Rightarrow> word32" where
  "u256_sub a b = snd (sub_bytes a b)"

definition negate :: "word32 \<Rightarrow> word32" where
  "negate a = u256_add (u256_not a) (u256_from_u64 1)"

definition to_le_limbs :: "word32 \<Rightarrow> u64 list" where
  "to_le_limbs a =
     [be_val (take 8 (drop 24 a)), be_val (take 8 (drop 16 a)), be_val (take 8 (drop 8 a)), be_val (take 8 a)]"

definition from_le_limbs :: "u64 list \<Rightarrow> word32" where
  "from_le_limbs l = be_bytes 8 (l ! 3) @ be_bytes 8 (l ! 2) @ be_bytes 8 (l ! 1) @ be_bytes 8 (l ! 0)"

text \<open>One product of limbs; the sum fits 128 bits. A row stops at the fourth limb of the result.\<close>

definition mul_cell :: "u64 list \<Rightarrow> u64 list \<Rightarrow> nat \<Rightarrow> u64 list \<times> u64 \<Rightarrow> nat \<Rightarrow> u64 list \<times> u64" where
  "mul_cell la lb i rc j =
     (let prod = la ! i * lb ! j + fst rc ! (i + j) + snd rc
      in ((fst rc)[i + j := cast 64 prod], cast 64 (drop_bit 64 prod)))"

definition mul_row :: "u64 list \<Rightarrow> u64 list \<Rightarrow> u64 list \<Rightarrow> nat \<Rightarrow> u64 list" where
  "mul_row la lb result i = fst (foldl (mul_cell la lb i) (result, 0) [0 ..< 4 - i])"

definition u256_mul :: "word32 \<Rightarrow> word32 \<Rightarrow> word32" where
  "u256_mul a b = from_le_limbs (foldl (mul_row (to_le_limbs a) (to_le_limbs b)) [0, 0, 0, 0] [0 ..< 4])"

section \<open>Division\<close>

fun shl_bytes :: "word32 \<Rightarrow> byte \<times> word32" where
  "shl_bytes [] = (0, [])"
| "shl_bytes (a # as) = (case shl_bytes as of (carry, r) \<Rightarrow> (drop_bit 7 a, (push_bit 1 a OR carry) # r))"

definition u256_shl_one :: "word32 \<Rightarrow> word32" where
  "u256_shl_one a = snd (shl_bytes a)"

definition bit_at :: "word32 \<Rightarrow> nat \<Rightarrow> byte" where
  "bit_at a k = drop_bit (7 - k mod 8) (a ! (k div 8)) AND 1"

definition set_bit_at :: "word32 \<Rightarrow> nat \<Rightarrow> word32" where
  "set_bit_at q k = q[k div 8 := (q ! (k div 8)) OR push_bit (7 - k mod 8) 1]"

text \<open>Shift the remainder left and bring the next bit of the dividend in.\<close>

definition bring_bit :: "word32 \<Rightarrow> byte \<Rightarrow> word32" where
  "bring_bit remainder b = (let r = u256_shl_one remainder in r[31 := (r ! 31) OR b])"

definition div_step :: "word32 \<Rightarrow> word32 \<Rightarrow> word32 \<times> word32 \<Rightarrow> nat \<Rightarrow> word32 \<times> word32" where
  "div_step a b qr k =
     (let r = bring_bit (snd qr) (bit_at a k)
      in if \<not> u256_lt r b then (set_bit_at (fst qr) k, u256_sub r b) else (fst qr, r))"

definition u256_div :: "word32 \<Rightarrow> word32 \<Rightarrow> word32" where
  "u256_div a b =
     (if u256_is_zero b then zero32 else fst (foldl (div_step a b) (zero32, zero32) [0 ..< 256]))"

definition reduce :: "word32 \<Rightarrow> word32 \<Rightarrow> word32" where
  "reduce n r = (if \<not> u256_lt r n then u256_sub r n else r)"

definition mod_step :: "word32 \<Rightarrow> word32 \<Rightarrow> word32 \<Rightarrow> nat \<Rightarrow> word32" where
  "mod_step a b remainder k = reduce b (bring_bit remainder (bit_at a k))"

definition u256_mod :: "word32 \<Rightarrow> word32 \<Rightarrow> word32" where
  "u256_mod a b = (if u256_is_zero b then zero32 else foldl (mod_step a b) zero32 [0 ..< 256])"

definition min_int :: word32 where
  "min_int = 0x80 # replicate 31 0"

definition u256_sdiv :: "word32 \<Rightarrow> word32 \<Rightarrow> word32" where
  "u256_sdiv a b =
     (if u256_is_zero b then zero32
      else if a = min_int \<and> b = replicate 31 0 @ [1] then min_int
      else
       (let abs_a = (if is_negative a then negate a else a);
            abs_b = (if is_negative b then negate b else b);
            q = u256_div abs_a abs_b
        in if is_negative a \<noteq> is_negative b then negate q else q))"

definition u256_smod :: "word32 \<Rightarrow> word32 \<Rightarrow> word32" where
  "u256_smod a b =
     (if u256_is_zero b then zero32
      else
       (let abs_a = (if is_negative a then negate a else a);
            abs_b = (if is_negative b then negate b else b);
            r = u256_mod abs_a abs_b
        in if is_negative a \<and> \<not> u256_is_zero r then negate r else r))"

definition u256_addmod :: "word32 \<Rightarrow> word32 \<Rightarrow> word32 \<Rightarrow> word32" where
  "u256_addmod a b n =
     (if u256_is_zero n then zero32
      else case add_bytes a b of (carry, sm) \<Rightarrow>
       if carry = 1 then foldl (mod_step sm n) (reduce n (bring_bit zero32 1)) [0 ..< 256]
       else u256_mod sm n)"

definition mulmod_step :: "word32 \<Rightarrow> word32 \<Rightarrow> word32 \<Rightarrow> word32 \<Rightarrow> nat \<Rightarrow> word32" where
  "mulmod_step a b n acc k =
     (let acc1 = u256_addmod acc acc n in if bit_at b k = 1 then u256_addmod acc1 a n else acc1)"

definition u256_mulmod :: "word32 \<Rightarrow> word32 \<Rightarrow> word32 \<Rightarrow> word32" where
  "u256_mulmod a b n = (if u256_is_zero n then zero32 else foldl (mulmod_step a b n) zero32 [0 ..< 256])"

section \<open>Exponentiation, sign extension, shifts\<close>

text \<open>The exponent is halved from its first byte to its last, a byte handing its low bit on.\<close>

fun shr_bytes :: "byte \<Rightarrow> word32 \<Rightarrow> word32" where
  "shr_bytes carry [] = []"
| "shr_bytes carry (e # es) = (drop_bit 1 e OR carry) # shr_bytes (push_bit 7 e) es"

lemma length_shr_bytes [simp]: "length (shr_bytes c e) = length e"
  by (induction e arbitrary: c) auto

lemma be_val_zero_iff: "be_val a = 0 \<longleftrightarrow> u256_is_zero a"
  by (induction a) (auto simp: be_val_Cons u256_is_zero_def unsigned_eq_0_iff)

lemma unat_push_byte: "unat (push_bit n (b :: byte)) = unat b * 2 ^ n mod 256"
  by (simp add: unsigned_push_bit_eq take_bit_eq_mod) (simp add: push_bit_eq_mult)

lemma unat_drop_byte: "unat (drop_bit n (b :: byte)) = unat b div 2 ^ n"
  by (simp add: unsigned_drop_bit_eq) (simp add: drop_bit_eq_div take_bit_eq_mod)

lemma byte_shr:
  fixes e c :: byte
  shows "unat (drop_bit 1 e OR push_bit 7 c) = unat e div 2 + 128 * (unat c mod 2)"
proof -
  have d: "unat (drop_bit 1 e) = unat e div 2" by (simp add: unat_drop_byte)
  have p: "unat (push_bit 7 c) = push_bit 7 (unat c mod 2)"
    using mod_mult_mult2[of "unat c" 128 2] by (simp add: unat_push_byte) (simp add: push_bit_eq_mult)
  have "unat (drop_bit 1 e OR push_bit 7 c) = unat (drop_bit 1 e) OR push_bit 7 (unat c mod 2)"
    by (simp only: unsigned_or_eq p)
  also have "\<dots> = unat e div 2 + 2 ^ 7 * (unat c mod 2)"
    unfolding d by (rule or_push_bit_add) (simp add: less_mult_imp_div_less)
  finally show ?thesis by simp
qed

lemma shr_bytes_val: "be_val (shr_bytes (push_bit 7 c) e) = (be_val e + 256 ^ length e * (unat c mod 2)) div 2"
proof (induction e arbitrary: c)
  case (Cons b e)
  let ?n = "256 ^ length e :: nat" and ?c = "unat c mod 2"
  have b: "unat b * ?n = 2 * (unat b div 2 * ?n) + unat b mod 2 * ?n"
    by (metis add_mult_distrib mult.assoc mult_div_mod_eq)
  have "be_val (b # e) + 256 ^ length (b # e) * ?c
      = 2 * ((unat b div 2 + 128 * ?c) * ?n) + (be_val e + ?n * (unat b mod 2))"
    unfolding be_val_Cons b by (simp add: algebra_simps)
  then have "(be_val (b # e) + 256 ^ length (b # e) * ?c) div 2
      = (unat b div 2 + 128 * ?c) * ?n + (be_val e + ?n * (unat b mod 2)) div 2"
    by simp
  then show ?case by (simp add: be_val_Cons byte_shr[simplified] Cons.IH)
qed simp

lemma shr_one_val: "be_val (shr_bytes 0 e) = be_val e div 2"
  using shr_bytes_val[of 0 e] by simp

function exp_loop :: "word32 \<Rightarrow> word32 \<Rightarrow> word32 \<Rightarrow> word32" where
  "exp_loop result b e =
     (if u256_is_zero e then result
      else exp_loop (if (e ! 31) AND 1 = 1 then u256_mul result b else result) (u256_mul b b) (shr_bytes 0 e))"
  by auto

termination
proof (relation "measure (\<lambda>(_, _, e). be_val e)")
  fix result b e
  assume "\<not> u256_is_zero e"
  then have "0 < be_val e" using be_val_zero_iff[of e] by simp
  then show "((if (e ! 31) AND 1 = 1 then u256_mul result b else result, u256_mul b b, shr_bytes 0 e), result, b, e)
      \<in> measure (\<lambda>(_, _, e). be_val e)"
    by (simp add: shr_one_val)
qed simp

declare exp_loop.simps [simp del]

definition u256_exp :: "word32 \<Rightarrow> word32 \<Rightarrow> word32" where
  "u256_exp base e = (if u256_is_zero e then u256_from_u64 1 else exp_loop (u256_from_u64 1) base e)"

text \<open>The number of bytes from the first byte that is not zero.\<close>

definition u256_byte_len :: "word32 \<Rightarrow> u64" where
  "u256_byte_len a = length (dropWhile (\<lambda>b. b = 0) a)"

definition u256_signextend :: "word32 \<Rightarrow> word32 \<Rightarrow> word32" where
  "u256_signextend b x =
     (let b_val = u256_to_u64 b in
      if b_val \<ge> 31 then x
      else
       (let byte_index = 31 - b_val; sign_bit = (x ! byte_index) AND 0x80 \<noteq> 0
        in replicate byte_index (if sign_bit then 0xFF else 0x00)
           @ [if sign_bit then (x ! byte_index) OR 0xFF else (x ! byte_index) AND 0x7F]
           @ drop (byte_index + 1) x))"

definition u256_byte :: "word32 \<Rightarrow> word32 \<Rightarrow> word32" where
  "u256_byte i x =
     (let idx = u256_to_u64 i in if idx \<ge> 32 then zero32 else u256_from_u64 (unat (x ! idx)))"

definition shl_byte :: "word32 \<Rightarrow> nat \<Rightarrow> nat \<Rightarrow> nat \<Rightarrow> byte" where
  "shl_byte val byte_shift bit_shift i =
     (let src = i + byte_shift in
      if src < 32
      then push_bit bit_shift (val ! src)
        OR (if bit_shift > 0 \<and> src + 1 < 32 then drop_bit (8 - bit_shift) (val ! (src + 1)) else 0)
      else 0)"

definition u256_shl :: "word32 \<Rightarrow> word32 \<Rightarrow> word32" where
  "u256_shl shift val =
     (let s = u256_to_u64 shift in
      if s \<ge> 256 then zero32 else if s = 0 then val
      else map (shl_byte val (s div 8) (s mod 8)) [0 ..< 32])"

definition shr_byte :: "word32 \<Rightarrow> nat \<Rightarrow> nat \<Rightarrow> nat \<Rightarrow> byte" where
  "shr_byte val byte_shift bit_shift i =
     (if byte_shift \<le> i
      then let src = i - byte_shift in
        drop_bit bit_shift (val ! src)
        OR (if bit_shift > 0 \<and> src > 0 then push_bit (8 - bit_shift) (val ! (src - 1)) else 0)
      else 0)"

definition u256_shr :: "word32 \<Rightarrow> word32 \<Rightarrow> word32" where
  "u256_shr shift val =
     (let s = u256_to_u64 shift in
      if s \<ge> 256 then zero32 else if s = 0 then val
      else map (shr_byte val (s div 8) (s mod 8)) [0 ..< 32])"

definition sign_fill :: "word32 \<Rightarrow> nat \<Rightarrow> word32" where
  "sign_fill out k = out[k div 8 := (out ! (k div 8)) OR drop_bit (k mod 8) 0x80]"

definition u256_sar :: "word32 \<Rightarrow> word32 \<Rightarrow> word32" where
  "u256_sar shift val =
     (let s = u256_to_u64 shift in
      if s \<ge> 256 then (if is_negative val then replicate 32 0xFF else zero32)
      else if s = 0 then val
      else (let out = u256_shr shift val
            in if is_negative val then foldl sign_fill out [0 ..< s] else out))"

end
