(* ===== verification/Evm_Arith.thy ===== *)
theory Evm_Arith
  imports Evm_Word "HOL-Library.Signed_Division"
begin

text \<open>
  The word operations of \<^verbatim>\<open>zbx-evm/src/stack.rs\<close> against integer arithmetic: \<open>be_val\<close> is the number
  the 32 bytes stand for, \<open>sval\<close> its two's-complement reading. Each loop gets the value it computes;
  the theorems at the end collect them for the unsigned, signed and modular operations and the shifts.
\<close>

unbundle bit_operations_syntax

section \<open>Values of the basic operations\<close>

lemma uint_of_int_byte: "uint (of_int i :: byte) = i mod 256"
  by (simp add: unsigned_of_int take_bit_eq_mod)

lemma add_bytes_val:
  assumes "length a = length b" "add_bytes a b = (c, r)"
  shows "be_val r + c * 256 ^ length a = be_val a + be_val b \<and> length r = length a \<and> c \<le> 1"
  using assms
proof (induction a b arbitrary: c r rule: list_induct2)
  case (Cons x xs y ys)
  obtain c1 r1 where r1: "add_bytes xs ys = (c1, r1)" by (cases "add_bytes xs ys") auto
  note IH = Cons.IH[OF r1]
  define s where "s = unat x + unat y + c1"
  have c: "c = s div 256" "r = of_nat s # r1" using Cons.prems r1 by (simp_all add: drop_bit_eq_div s_def Let_def)
  have "s * 256 ^ length xs = s mod 256 * 256 ^ length xs + s div 256 * (256 * 256 ^ length xs)"
    by (metis add_mult_distrib mod_div_mult_eq mult.assoc)
  then have "be_val r + c * 256 ^ length (x # xs) = s * 256 ^ length xs + be_val r1"
    using IH unfolding c by (simp add: be_val_Cons unat_of_nat_byte)
  also have "\<dots> = be_val (x # xs) + be_val (y # ys)"
    using IH Cons.hyps by (simp add: s_def be_val_Cons algebra_simps)
  finally have val: "be_val r + c * 256 ^ length (x # xs) = be_val (x # xs) + be_val (y # ys)" .
  have "s < 512" using IH unat_byte_less[of x] unat_byte_less[of y] unfolding s_def by linarith
  then have "c \<le> 1" unfolding c by linarith
  then show ?case using val IH c(2) by simp
qed simp

lemma sub_bytes_val:
  assumes "length a = length b" "sub_bytes a b = (c, r)"
  shows "int (be_val r) - c * 256 ^ length a = int (be_val a) - int (be_val b) \<and> length r = length a \<and> c \<in> {0, 1}"
  using assms
proof (induction a b arbitrary: c r rule: list_induct2)
  case (Cons x xs y ys)
  obtain c1 r1 where r1: "sub_bytes xs ys = (c1, r1)" by (cases "sub_bytes xs ys") auto
  note IH = Cons.IH[OF r1]
  define d where "d = int (unat x) - int (unat y) - c1"
  have c: "c = (if d < 0 then 1 else 0)" "r = of_int d # r1" using Cons.prems r1 by (auto simp: d_def Let_def)
  have "int (unat x) < 256" "int (unat y) < 256" using unat_byte_less[of x] unat_byte_less[of y] by linarith+
  moreover have "0 \<le> c1" "c1 \<le> 1" "0 \<le> int (unat x)" "0 \<le> int (unat y)" using IH by auto
  ultimately have "d < 256" "- 256 \<le> d" unfolding d_def by linarith+
  then have "(if d < 0 then d + 256 else d) mod 256 = (if d < 0 then d + 256 else d)" by simp
  then have m: "d mod 256 - c * 256 = d" unfolding c by (simp split: if_splits)
  have "int (be_val r) - c * 256 ^ length (x # xs) = (d mod 256 - c * 256) * 256 ^ length xs + int (be_val r1)"
    using IH unfolding c(2) by (simp add: be_val_Cons uint_of_int_byte algebra_simps)
  also have "\<dots> = int (be_val (x # xs)) - int (be_val (y # ys))"
    unfolding m using IH Cons.hyps by (simp add: d_def be_val_Cons algebra_simps)
  finally show ?case using IH c by auto
qed simp

lemma u256_lt_val: "length a = length b \<Longrightarrow> u256_lt a b \<longleftrightarrow> be_val a < be_val b"
proof (induction a b rule: list_induct2)
  case (Cons x xs y ys)
  let ?n = "256 ^ length xs :: nat"
  have l: "be_val xs < ?n" "be_val ys < ?n" using be_val_less[of xs] be_val_less[of ys] Cons.hyps by simp_all
  have mono: "unat u * ?n + p < unat v * ?n + q" if "unat u < unat v" "p < ?n" for u v :: byte and p q
  proof -
    have "unat u * ?n + p < (unat u + 1) * ?n" using that(2) by simp
    also have "\<dots> \<le> unat v * ?n" using that(1) by (intro mult_le_mono1) simp
    finally show ?thesis by simp
  qed
  show ?case
    using Cons mono[of x y "be_val xs" "be_val ys"] mono[of y x "be_val ys" "be_val xs"] l
    by (auto simp: be_val_Cons word_less_nat_alt word_unat_eq_iff not_less_iff_gr_or_eq)
qed simp


text \<open>A word: 32 bytes. The operations return words, and their values are taken modulo \<open>2 ^ 256\<close>.\<close>

definition w32 :: "word32 \<Rightarrow> bool" where
  "w32 a \<longleftrightarrow> length a = 32"

lemma base_power: "(256 :: 'a :: comm_semiring_1) ^ 32 = 2 ^ 256"
proof -
  have "(256 :: 'a) = 2 ^ 8" by simp
  then have "(256 :: 'a) ^ 32 = 2 ^ (8 * 32)" by (simp only: power_mult)
  then show ?thesis by simp
qed

lemma w32_less: "w32 a \<Longrightarrow> be_val a < 2 ^ 256"
  using be_val_less[of a] by (simp only: w32_def base_power)

lemma w32_less_int: "w32 a \<Longrightarrow> int (be_val a) < 2 ^ 256"
  using w32_less[of a] by (simp only: of_nat_less_iff[symmetric, where 'a = int] of_nat_power of_nat_numeral)

lemma w32_zero [simp]: "w32 zero32" "be_val zero32 = 0"
proof -
  show "w32 zero32" by (simp add: w32_def zero32_def)
  have "u256_is_zero zero32" by (simp add: u256_is_zero_def zero32_def list_all_iff)
  then show "be_val zero32 = 0" by (simp add: be_val_zero_iff)
qed

lemma be_val_replicate_zero [simp]: "be_val (replicate n 0) = 0"
  by (simp add: be_val_zero_iff u256_is_zero_def list_all_iff)

lemma be_val_append: "be_val (a @ b) = be_val a * 256 ^ length b + be_val b"
  by (induction a) (simp_all add: be_val_Cons power_add algebra_simps)

lemma from_u64_val: "w32 (u256_from_u64 v)" "v < 2 ^ 64 \<Longrightarrow> be_val (u256_from_u64 v) = v"
proof -
  show "w32 (u256_from_u64 v)" by (simp add: u256_from_u64_def w32_def)
  show "v < 2 ^ 64 \<Longrightarrow> be_val (u256_from_u64 v) = v"
    by (simp add: u256_from_u64_def be_val_append be_val_be_bytes)
qed

lemma be_val_drop: "be_val (drop k a) = be_val a mod 256 ^ (length a - k)"
proof (cases "k \<le> length a")
  case True
  have "be_val a = be_val (take k a) * 256 ^ (length a - k) + be_val (drop k a)"
    by (metis append_take_drop_id be_val_append length_drop)
  then show ?thesis using be_val_less[of "drop k a"] by simp
qed simp

lemma to_u64_val: "w32 a \<Longrightarrow> u256_to_u64 a = be_val a mod 2 ^ 64"
proof -
  assume "w32 a"
  then have "u256_to_u64 a = be_val a mod 256 ^ 8" by (simp add: u256_to_u64_def be_val_drop w32_def)
  then show ?thesis by simp
qed

lemma evm_add_val: "w32 a \<Longrightarrow> w32 b \<Longrightarrow> w32 (u256_add a b) \<and> be_val (u256_add a b) = (be_val a + be_val b) mod 2 ^ 256"
proof -
  assume w: "w32 a" "w32 b"
  obtain c r where r: "add_bytes a b = (c, r)" by (cases "add_bytes a b")
  have v: "be_val r + c * 2 ^ 256 = be_val a + be_val b" "w32 r"
    using add_bytes_val[OF _ r] w by (simp_all only: w32_def base_power)
  then have "be_val r = (be_val a + be_val b) mod 2 ^ 256"
    using w32_less[of r] by (metis mod_less mod_mult_self1)
  then show ?thesis using r v(2) by (simp add: u256_add_def)
qed

lemma evm_sub_val:
  assumes "w32 a" "w32 b"
  shows "w32 (u256_sub a b) \<and> int (be_val (u256_sub a b)) = (int (be_val a) - int (be_val b)) mod 2 ^ 256"
proof -
  obtain c r where r: "sub_bytes a b = (c, r)" by (cases "sub_bytes a b")
  have v: "int (be_val r) - c * 2 ^ 256 = int (be_val a) - int (be_val b)" "w32 r"
    using sub_bytes_val[OF _ r] assms by (simp_all only: w32_def base_power)
  have "int (be_val r) = (int (be_val r) - c * 2 ^ 256) mod 2 ^ 256"
    using mod_pos_pos_trivial[OF _ w32_less_int[OF v(2)]] mod_mult_self1[of "int (be_val r)" "- c" "2 ^ 256"]
    by simp
  then show ?thesis using r v by (simp add: u256_sub_def)
qed

lemma u256_sub_exact: "w32 a \<Longrightarrow> w32 b \<Longrightarrow> be_val b \<le> be_val a \<Longrightarrow> be_val (u256_sub a b) = be_val a - be_val b"
proof -
  assume w: "w32 a" "w32 b" "be_val b \<le> be_val a"
  have "int (be_val (u256_sub a b)) = int (be_val a - be_val b) mod 2 ^ 256"
    using evm_sub_val[OF w(1,2)] w(3) by (simp add: of_nat_diff)
  also have "\<dots> = int (be_val a - be_val b)"
    using w32_less_int[OF w(1)] by (intro mod_pos_pos_trivial) linarith+
  finally show ?thesis by simp
qed


section \<open>Bits\<close>

lemma be_val_update:
  "i < length q \<Longrightarrow> be_val (q[i := x]) + unat (q ! i) * 256 ^ (length q - 1 - i) = be_val q + unat x * 256 ^ (length q - 1 - i)"
proof (induction q arbitrary: i)
  case (Cons b q)
  show ?case
  proof (cases i)
    case (Suc j)
    then show ?thesis using Cons.IH[of j] Cons.prems by (simp add: be_val_Cons)
  qed (simp add: be_val_Cons)
qed simp

lemma be_val_nth: "i < length a \<Longrightarrow> unat (a ! i) = be_val a div 256 ^ (length a - 1 - i) mod 256"
proof -
  assume i: "i < length a"
  let ?t = "take i a" and ?d = "drop (Suc i) a"
  have "be_val a = be_val (?t @ a ! i # ?d)" using id_take_nth_drop[OF i] by simp
  also have "\<dots> = (be_val ?t * 256 + unat (a ! i)) * 256 ^ (length a - 1 - i) + be_val ?d"
    using i by (simp add: be_val_append be_val_Cons algebra_simps flip: power_Suc)
  finally have "be_val a div 256 ^ (length a - 1 - i) = be_val ?t * 256 + unat (a ! i)"
    using be_val_less[of ?d] by simp
  then show ?thesis by simp
qed

lemma unat_and_one: "unat ((b :: byte) AND 1) = unat b mod 2"
  by (simp add: and_one_eq unat_mod)

lemma div_mod_bit: "x div 2 ^ m mod 2 = of_bool (bit x m)" for x :: nat
  by (simp add: bit_iff_odd mod_2_eq_odd)

lemma bit_position: "k < 256 \<Longrightarrow> 255 - k = 8 * (31 - k div 8) + (7 - k mod 8)" for k :: nat
  using div_mult_mod_eq[of k 8] mod_less_divisor[of 8 k] by linarith

lemma bit_at_val:
  assumes "w32 a" "k < 256"
  shows "unat (bit_at a k) = be_val a div 2 ^ (255 - k) mod 2"
proof -
  let ?m = "7 - k mod 8"
  have i: "k div 8 < length a" using assms by (simp add: w32_def)
  have p: "(256 :: nat) ^ (31 - k div 8) * 2 ^ ?m = 2 ^ (255 - k)"
    unfolding bit_position[OF assms(2)] power_add power_mult by simp
  have "unat (bit_at a k) = (be_val a div 256 ^ (31 - k div 8) mod 256) div 2 ^ ?m mod 2"
    using be_val_nth[OF i] assms(1) by (simp add: bit_at_def unat_and_one unat_drop_byte w32_def)
  also have "\<dots> = be_val a div 256 ^ (31 - k div 8) div 2 ^ ?m mod 2"
    using bit_take_bit_iff[of 8 "be_val a div 256 ^ (31 - k div 8)" ?m] by (simp add: div_mod_bit take_bit_eq_mod)
  finally show ?thesis by (simp add: div_mult2_eq[symmetric] p)
qed


lemma byte_or_val: "\<not> bit y m \<Longrightarrow> m < 8 \<Longrightarrow> unat (y OR push_bit m 1) = unat y + 2 ^ m" for y :: byte
proof -
  assume m: "\<not> bit y m" "m < 8"
  have "unat (push_bit m (1 :: byte)) = 2 ^ m mod 2 ^ 8" unfolding unat_push_byte by simp
  also have "\<dots> = 2 ^ m" using m(2) by (intro mod_less power_strict_increasing) simp_all
  finally have p: "unat (push_bit m (1 :: byte)) = push_bit m 1" by simp
  have "unat y + push_bit m 1 = unat y OR push_bit m 1"
    using m by (intro disjunctive_add) (auto simp: bit_push_bit_iff bit_unsigned_iff bit_1_iff bit_exp_iff)
  then show ?thesis unfolding unsigned_or_eq p by simp
qed

lemma set_bit_at_val:
  assumes "w32 q" "k < 256" "\<not> bit (be_val q) (255 - k)"
  shows "w32 (set_bit_at q k)" "be_val (set_bit_at q k) = be_val q + 2 ^ (255 - k)"
proof -
  let ?i = "k div 8" and ?m = "7 - k mod 8"
  show "w32 (set_bit_at q k)" using assms(1) by (simp add: w32_def set_bit_at_def)
  have i: "?i < length q" and l: "length q - 1 - ?i = 31 - ?i" using assms by (simp_all add: w32_def)
  have p: "(256 :: nat) ^ (31 - ?i) * 2 ^ ?m = 2 ^ (255 - k)"
    unfolding bit_position[OF assms(2)] power_add power_mult by simp
  have "be_val q div 2 ^ (255 - k) mod 2 = 0" using assms(3) by (simp add: div_mod_bit)
  then have "unat (bit_at q k) = 0" using bit_at_val[OF assms(1,2)] by simp
  then have "\<not> bit (q ! ?i) ?m"
    by (simp add: bit_at_def unat_and_one unat_drop_byte div_mod_bit bit_unsigned_iff)
  then have o: "unat ((q ! ?i) OR push_bit ?m 1) = unat (q ! ?i) + 2 ^ ?m" by (rule byte_or_val) simp
  show "be_val (set_bit_at q k) = be_val q + 2 ^ (255 - k)"
    using be_val_update[OF i, of "(q ! ?i) OR push_bit ?m 1"] unfolding set_bit_at_def o l p[symmetric]
    by (simp add: algebra_simps)
qed

lemma byte_shl:
  fixes a c :: byte
  assumes "unat c \<le> 1"
  shows "unat (push_bit 1 a OR c) = 2 * unat a mod 256 + unat c"
proof -
  have p: "unat (push_bit 1 a) = push_bit 1 (unat a mod 128)"
    unfolding unat_push_byte using mod_mult_mult1[of 2 "unat a" 128] by (simp add: push_bit_eq_mult mult.commute)
  have "unat (push_bit 1 a OR c) = unat c OR push_bit 1 (unat a mod 128)"
    by (simp only: unsigned_or_eq p or.commute)
  also have "\<dots> = unat c + 2 ^ 1 * (unat a mod 128)" using assms by (intro or_push_bit_add) simp
  finally show ?thesis using mod_mult_mult1[of 2 "unat a" 128] by simp
qed

lemma shl_bytes_val:
  "shl_bytes a = (c, r) \<Longrightarrow> be_val r + unat c * 256 ^ length a = 2 * be_val a \<and> length r = length a \<and> unat c \<le> 1"
proof (induction a arbitrary: c r)
  case (Cons b a)
  obtain c1 r1 where r1: "shl_bytes a = (c1, r1)" by (cases "shl_bytes a")
  note IH = Cons.IH[OF r1]
  have r: "c = drop_bit 7 b" "r = (push_bit 1 b OR c1) # r1" using Cons.prems r1 by simp_all
  have c: "unat c = unat b div 128" by (simp add: r(1) unat_drop_byte)
  have "2 * unat b = 2 * (unat b mod 128) + 256 * (unat b div 128)"
  proof -
    have "x = r + 128 * q \<Longrightarrow> 2 * x = 2 * r + 256 * q" for x q r :: nat by simp
    from this[OF mod_mult_div_eq[symmetric]] show ?thesis .
  qed
  then have "2 * unat b = 2 * unat b mod 256 + 256 * (unat b div 128)"
    using mod_mult_mult1[of 2 "unat b" 128] by simp
  then have "2 * unat b * 256 ^ length a = (2 * unat b mod 256) * 256 ^ length a + 256 * (unat b div 128) * 256 ^ length a"
    by (metis add_mult_distrib)
  then have "be_val r + unat c * 256 ^ length (b # a) = 2 * be_val (b # a)"
    using IH byte_shl[of c1 b] unfolding r(2) be_val_Cons c by (simp add: algebra_simps)
  moreover have "unat c \<le> 1" using unat_byte_less[of b] unfolding c by linarith
  ultimately show ?case using IH r(2) by simp
qed simp

lemma bring_bit_val:
  assumes "w32 r" "unat b \<le> 1"
  shows "w32 (bring_bit r b)" "be_val (bring_bit r b) = 2 * be_val r mod 2 ^ 256 + unat b"
proof -
  obtain c s where s: "shl_bytes r = (c, s)" by (cases "shl_bytes r")
  have v: "be_val s + unat c * 2 ^ 256 = 2 * be_val r" "w32 s"
    using shl_bytes_val[OF s] assms(1) by (simp_all only: w32_def base_power)
  have bb: "bring_bit r b = s[31 := (s ! 31) OR b]" by (simp add: bring_bit_def u256_shl_one_def s)
  then show "w32 (bring_bit r b)" using v(2) by (simp add: w32_def)
  have e: "be_val s = 2 * be_val r mod 2 ^ 256" using w32_less[OF v(2)] v(1)[symmetric] by simp
  have l: "31 < length s" "length s - 1 - 31 = 0" using v(2) by (simp_all add: w32_def)
  have "unat (s ! 31) mod 2 = be_val s mod 256 mod 2" using be_val_nth[OF l(1)] l(2) by simp
  also have "\<dots> = be_val s mod 2" by (rule mod_mod_cancel) simp
  also have "\<dots> = 2 * be_val r mod 2" unfolding e by (rule mod_mod_cancel) simp
  also have "\<dots> = 0" by simp
  finally have "even (unat (s ! 31))" by presburger
  then have nb: "\<not> bit (s ! 31) 0" using bit_unsigned_iff[of "s ! 31" 0, where 'a = nat] by (simp add: bit_0)
  have "unat ((s ! 31) OR b) = unat (s ! 31) + unat b"
  proof (cases "unat b = 0")
    case True
    then have "b = 0" by (simp add: unsigned_eq_0_iff)
    then show ?thesis by simp
  next
    case False
    then have "b = 1" using assms(2) by (metis le_neq_implies_less less_one unat_1 word_unat_eq_iff)
    then show ?thesis using byte_or_val[OF nb] by simp
  qed
  then show "be_val (bring_bit r b) = 2 * be_val r mod 2 ^ 256 + unat b"
    using be_val_update[OF l(1), of "(s ! 31) OR b"] l(2) unfolding bb e[symmetric] by simp
qed

lemma bring_bit_exact:
  "w32 r \<Longrightarrow> unat b \<le> 1 \<Longrightarrow> 2 * be_val r + 1 < 2 ^ 256 \<Longrightarrow> be_val (bring_bit r b) = 2 * be_val r + unat b"
  using bring_bit_val(2)[of r b] by simp

section \<open>Division and modular arithmetic\<close>

lemma divmod_step:
  fixes q r B b :: nat
  assumes "r < B" "b \<le> 1"
  shows "(2 * (q * B + r) + b) div B = 2 * q + (if B \<le> 2 * r + b then 1 else 0)"
    and "(2 * (q * B + r) + b) mod B = (if B \<le> 2 * r + b then 2 * r + b - B else 2 * r + b)"
proof -
  let ?x = "2 * r + b"
  have e: "2 * (q * B + r) + b = (2 * q) * B + ?x" by simp
  have x: "?x div B = (if B \<le> ?x then 1 else 0)" "?x mod B = (if B \<le> ?x then ?x - B else ?x)"
    using assms by (auto simp: div_nat_eqI le_mod_geq mod_less)
  show "(2 * (q * B + r) + b) div B = 2 * q + (if B \<le> ?x then 1 else 0)"
    unfolding e using assms x(1) by (simp only: div_mult_self3)
  show "(2 * (q * B + r) + b) mod B = (if B \<le> ?x then ?x - B else ?x)"
    unfolding e using x(2) by (simp only: mod_mult_self3)
qed

text \<open>The next bit of a number read from the top.\<close>

lemma next_bit:
  fixes S :: nat
  assumes "k < 256"
  shows "S div 2 ^ (255 - k) = 2 * (S div 2 ^ (256 - k)) + S div 2 ^ (255 - k) mod 2"
proof -
  have "256 - k = Suc (255 - k)" using assms by simp
  then have "S div 2 ^ (256 - k) = S div 2 ^ (255 - k) div 2"
    by (metis div_mult2_eq mult.commute power_Suc)
  then show ?thesis by (simp only: mult_div_mod_eq)
qed

lemma reduce_val:
  assumes "w32 n" "w32 r"
  shows "w32 (reduce n r)" "be_val (reduce n r) = (if be_val n \<le> be_val r then be_val r - be_val n else be_val r)"
  using assms u256_lt_val[of r n] evm_sub_val[of r n] u256_sub_exact[of r n]
  by (auto simp: reduce_def w32_def not_less)

lemma mod_step_val:
  assumes w: "w32 a" "w32 n" "w32 r" and k: "k < 256"
    and r: "be_val r = S div 2 ^ (256 - k) mod be_val n" and S: "S mod 2 ^ 256 = be_val a"
    and n: "0 < be_val n" and fits: "2 * be_val r + 1 < 2 ^ 256"
  shows "w32 (mod_step a n r k)" "be_val (mod_step a n r k) = S div 2 ^ (255 - k) mod be_val n"
proof -
  let ?b = "bit_at a k" and ?Q = "S div 2 ^ (256 - k)"
  have "be_val a div 2 ^ (255 - k) mod 2 = S div 2 ^ (255 - k) mod 2"
    unfolding S[symmetric] div_mod_bit using bit_take_bit_iff[of 256 S "255 - k"] k by (simp add: take_bit_eq_mod) linarith
  then have bit: "unat ?b = S div 2 ^ (255 - k) mod 2" using bit_at_val[OF w(1) k] by simp
  then have b1: "unat ?b \<le> 1" by linarith
  note br = bring_bit_val(1)[OF w(3) b1] bring_bit_exact[OF w(3) b1]
  note red = reduce_val[OF w(2) br(1)]
  show "w32 (mod_step a n r k)" using red(1) by (simp add: mod_step_def)
  have "S div 2 ^ (255 - k) = 2 * (?Q div be_val n * be_val n + be_val r) + unat ?b"
    using next_bit[OF k, of S] r bit by simp
  moreover have "be_val r < be_val n" using n r by simp
  ultimately have "S div 2 ^ (255 - k) mod be_val n
      = (if be_val n \<le> 2 * be_val r + unat ?b then 2 * be_val r + unat ?b - be_val n else 2 * be_val r + unat ?b)"
    using divmod_step(2)[OF _ b1] by metis
  then show "be_val (mod_step a n r k) = S div 2 ^ (255 - k) mod be_val n"
    using red(2) br(2)[OF fits] by (simp only: mod_step_def)
qed

lemma mod_loop_inv:
  assumes w: "w32 a" "w32 n" "w32 r0" and S: "S mod 2 ^ 256 = be_val a" and n: "0 < be_val n"
    and r0: "be_val r0 = S div 2 ^ 256 mod be_val n"
  shows "k \<le> 256 \<Longrightarrow> (\<And>j. j < k \<Longrightarrow> 2 * (S div 2 ^ (256 - j) mod be_val n) + 1 < 2 ^ 256) \<Longrightarrow>
      w32 (foldl (mod_step a n) r0 [0 ..< k])
      \<and> be_val (foldl (mod_step a n) r0 [0 ..< k]) = S div 2 ^ (256 - k) mod be_val n"
proof (induction k)
  case (Suc k)
  let ?r = "foldl (mod_step a n) r0 [0 ..< k]"
  have r: "w32 ?r" "be_val ?r = S div 2 ^ (256 - k) mod be_val n" using Suc.IH Suc.prems by simp_all
  have "2 * be_val ?r + 1 < 2 ^ 256" unfolding r(2) by (rule Suc.prems(2)) simp
  then show ?case using mod_step_val[OF w(1,2) r(1) _ r(2) S n] Suc.prems by simp
qed (use w r0 in simp)

text \<open>The top bits of a number, doubled, stay below \<open>2 ^ 256\<close> as long as few of them are taken.\<close>

lemma top_bits_fit:
  fixes S n :: nat
  assumes "S < 2 ^ l" "j + l < 512" "256 \<le> l" "j \<le> 256"
  shows "2 * (S div 2 ^ (256 - j) mod n) + 1 < 2 ^ 256"
proof -
  have p: "(2 :: nat) ^ l = 2 ^ (l + j - 256) * 2 ^ (256 - j)" using assms(3,4) by (simp only: power_add[symmetric]) simp
  have "S div 2 ^ (256 - j) mod n \<le> S div 2 ^ (256 - j)" by (rule mod_less_eq_dividend)
  also have "\<dots> < 2 ^ (l + j - 256)" using assms(1) by (simp only: p less_mult_imp_div_less)
  finally have "2 * (S div 2 ^ (256 - j) mod n) + 1 < 2 ^ Suc (l + j - 256)" by simp
  also have "(2 :: nat) ^ Suc (l + j - 256) \<le> 2 ^ 256" using assms(2,3) by (intro power_increasing) simp_all
  finally show ?thesis .
qed

lemma mod_loop_val:
  assumes "w32 a" "w32 n" "w32 r0" "S mod 2 ^ 256 = be_val a" "0 < be_val n" "be_val r0 = S div 2 ^ 256 mod be_val n"
    and small: "be_val n \<le> 2 ^ 255 \<or> S < 2 ^ 256" and k: "k \<le> 256"
  shows "w32 (foldl (mod_step a n) r0 [0 ..< k])
      \<and> be_val (foldl (mod_step a n) r0 [0 ..< k]) = S div 2 ^ (256 - k) mod be_val n"
proof (rule mod_loop_inv[OF assms(1-6) k])
  fix j assume j: "j < k"
  show "2 * (S div 2 ^ (256 - j) mod be_val n) + 1 < 2 ^ 256"
    using small
  proof
    assume "be_val n \<le> 2 ^ 255"
    moreover have "S div 2 ^ (256 - j) mod be_val n < be_val n" using assms(5) by simp
    ultimately show ?thesis by simp
  next
    assume "S < 2 ^ 256"
    then show ?thesis using j k by (intro top_bits_fit[of S 256]) simp_all
  qed
qed

lemma u256_mod_val: "w32 a \<Longrightarrow> w32 b \<Longrightarrow> w32 (u256_mod a b) \<and>
    be_val (u256_mod a b) = (if be_val b = 0 then 0 else be_val a mod be_val b)"
  using mod_loop_val[of a b zero32 "be_val a" 256] w32_less[of a]
  by (simp add: u256_mod_def be_val_zero_iff[symmetric] del: upt_conv_Cons)


lemma div_loop_mod: "snd (foldl (div_step a b) (q, r) ks) = foldl (mod_step a b) r ks"
proof (induction ks arbitrary: q r)
  case (Cons k ks)
  have "div_step a b (q, r) k = (fst (div_step a b (q, r) k), mod_step a b r k)"
    by (simp add: div_step_def mod_step_def reduce_def Let_def)
  then show ?case using Cons by (metis foldl_Cons)
qed simp

lemma div_loop_val:
  assumes w: "w32 a" "w32 b" and b: "0 < be_val b"
  shows "k \<le> 256 \<Longrightarrow> w32 (fst (foldl (div_step a b) (zero32, zero32) [0 ..< k]))
      \<and> be_val (fst (foldl (div_step a b) (zero32, zero32) [0 ..< k]))
        = be_val a div 2 ^ (256 - k) div be_val b * 2 ^ (256 - k)"
proof (induction k)
  case 0
  then show ?case using w32_less[OF w(1)] by simp
next
  case (Suc k)
  let ?q = "fst (foldl (div_step a b) (zero32, zero32) [0 ..< k])"
    and ?r = "foldl (mod_step a b) zero32 [0 ..< k]" and ?A = "be_val a" and ?B = "be_val b" and ?b = "bit_at a k"
  have k: "k < 256" "256 - k = Suc (255 - k)" "256 - Suc k = 255 - k" using Suc.prems by simp_all
  have q: "w32 ?q" "be_val ?q = ?A div 2 ^ (256 - k) div ?B * 2 ^ (256 - k)" using Suc by simp_all
  have S: "?A mod 2 ^ 256 = ?A" "?A < 2 ^ 256" using w32_less[OF w(1)] by simp_all
  have r0: "be_val zero32 = ?A div 2 ^ 256 mod ?B" using S(2) by simp
  have r: "w32 ?r" "be_val ?r = ?A div 2 ^ (256 - k) mod ?B"
    using mod_loop_val[OF w w32_zero(1) S(1) b r0, of k] S(2) k(1) by (simp_all del: upt_conv_Cons)
  have bit: "unat ?b = ?A div 2 ^ (255 - k) mod 2" "unat ?b \<le> 1" using bit_at_val[OF w(1) k(1)] by simp_all
  have rB: "be_val ?r < ?B" using b r(2) by simp
  have "?A div 2 ^ (255 - k) = 2 * (?A div 2 ^ (256 - k) div ?B * ?B + be_val ?r) + unat ?b"
    using next_bit[OF k(1), of ?A] r(2) bit(1) by simp
  then have quot: "?A div 2 ^ (255 - k) div ?B
      = 2 * (?A div 2 ^ (256 - k) div ?B) + (if ?B \<le> 2 * be_val ?r + unat ?b then 1 else 0)"
    using divmod_step(1)[OF rB bit(2)] by metis
  have "2 * be_val ?r + 1 < 2 ^ 256" unfolding r(2) using S(2) k(1) by (intro top_bits_fit[of _ 256]) simp_all
  then have br: "w32 (bring_bit ?r ?b)" "be_val (bring_bit ?r ?b) = 2 * be_val ?r + unat ?b"
    using bring_bit_val(1)[OF r(1) bit(2)] bring_bit_exact[OF r(1) bit(2)] by simp_all
  have "be_val ?q div 2 ^ (255 - k) mod 2 = 0" unfolding q(2) k(2) by simp
  then have nb: "\<not> bit (be_val ?q) (255 - k)" by (simp add: div_mod_bit)
  have step: "fst (foldl (div_step a b) (zero32, zero32) [0 ..< Suc k])
      = (if ?B \<le> 2 * be_val ?r + unat ?b then set_bit_at ?q k else ?q)"
    using u256_lt_val[of "bring_bit ?r ?b" b] br w(2) div_loop_mod[of a b zero32 zero32 "[0 ..< k]"]
    by (simp add: div_step_def w32_def not_less Let_def)
  show ?case
    unfolding step k(3) quot using set_bit_at_val[OF q(1) k(1) nb] q unfolding k(2) by (simp add: algebra_simps)
qed

lemma u256_div_val: "w32 a \<Longrightarrow> w32 b \<Longrightarrow> w32 (u256_div a b) \<and> be_val (u256_div a b) = be_val a div be_val b"
  using div_loop_val[of a b 256] by (simp add: u256_div_def be_val_zero_iff[symmetric] del: upt_conv_Cons)

lemma u256_addmod_val:
  assumes "w32 a" "w32 b" "w32 n" "be_val n \<le> 2 ^ 255 \<or> be_val a + be_val b < 2 ^ 256"
  shows "w32 (u256_addmod a b n) \<and>
    be_val (u256_addmod a b n) = (if be_val n = 0 then 0 else (be_val a + be_val b) mod be_val n)"
proof (cases "be_val n = 0")
  case False
  let ?S = "be_val a + be_val b"
  obtain c s where s: "add_bytes a b = (c, s)" by (cases "add_bytes a b")
  have v: "be_val s + c * 2 ^ 256 = ?S" "w32 s" "c \<le> 1"
    using add_bytes_val[OF _ s] assms(1,2) by (simp_all only: w32_def base_power)
  have S: "?S mod 2 ^ 256 = be_val s" "?S div 2 ^ 256 = c" using w32_less[OF v(2)] unfolding v(1)[symmetric] by simp_all
  have one: "w32 (bring_bit zero32 1)" "be_val (bring_bit zero32 1) = 1"
    using bring_bit_val[of zero32 1] by simp_all
  have r0: "w32 (reduce n (bring_bit zero32 1))" "be_val (reduce n (bring_bit zero32 1)) = 1 mod be_val n"
    using reduce_val[OF assms(3) one(1)] False by (auto simp: one(2))
  show ?thesis
  proof (cases "c = 1")
    case True
    have "be_val (reduce n (bring_bit zero32 1)) = ?S div 2 ^ 256 mod be_val n" using r0(2) S(2) True by simp
    then show ?thesis
      using mod_loop_val[OF v(2) assms(3) r0(1) S(1) _ _ assms(4), of 256] False
      by (simp add: u256_addmod_def s True be_val_zero_iff[symmetric] del: upt_conv_Cons)
  next
    case no: False
    then have "?S = be_val s" using v(1,3) by simp
    then show ?thesis using u256_mod_val[OF v(2) assms(3)] no False
      by (simp add: u256_addmod_def s be_val_zero_iff[symmetric])
  qed
qed (simp add: u256_addmod_def be_val_zero_iff)


lemma mulmod_loop_val:
  assumes w: "w32 a" "w32 b" "w32 n" and n: "0 < be_val n" "be_val n \<le> 2 ^ 255"
  shows "k \<le> 256 \<Longrightarrow> w32 (foldl (mulmod_step a b n) zero32 [0 ..< k])
      \<and> be_val (foldl (mulmod_step a b n) zero32 [0 ..< k]) = be_val a * (be_val b div 2 ^ (256 - k)) mod be_val n"
proof (induction k)
  case (Suc k)
  let ?acc = "foldl (mulmod_step a b n) zero32 [0 ..< k]" and ?A = "be_val a" and ?B = "be_val b" and ?n = "be_val n"
  let ?acc1 = "u256_addmod ?acc ?acc n"
  have k: "k < 256" "256 - Suc k = 255 - k" using Suc.prems by simp_all
  have acc: "w32 ?acc" "be_val ?acc = ?A * (?B div 2 ^ (256 - k)) mod ?n" using Suc by simp_all
  have acc1: "w32 ?acc1" "be_val ?acc1 = 2 * (?A * (?B div 2 ^ (256 - k))) mod ?n"
    using u256_addmod_val[OF acc(1) acc(1) w(3)] n acc(2) by (simp_all add: mod_add_eq mult_2)
  have bit: "bit_at b k = 1 \<longleftrightarrow> ?B div 2 ^ (255 - k) mod 2 = 1"
    unfolding bit_at_val[OF w(2) k(1), symmetric] by (metis unat_1 word_unat_eq_iff)
  have acc2: "w32 (u256_addmod ?acc1 a n)" "be_val (u256_addmod ?acc1 a n) = (be_val ?acc1 + ?A) mod ?n"
    using u256_addmod_val[OF acc1(1) w(1,3)] n by simp_all
  have s: "?A * (?B div 2 ^ (255 - k)) = 2 * (?A * (?B div 2 ^ (256 - k))) + ?A * (?B div 2 ^ (255 - k) mod 2)"
    by (subst next_bit[OF k(1)]) (simp add: algebra_simps)
  have step: "foldl (mulmod_step a b n) zero32 [0 ..< Suc k] = (if bit_at b k = 1 then u256_addmod ?acc1 a n else ?acc1)"
    using mulmod_step_def[of a b n ?acc k] by (simp add: Let_def)
  show ?case
  proof (cases "?B div 2 ^ (255 - k) mod 2 = 1")
    case True
    then have "be_val (u256_addmod ?acc1 a n) = ?A * (?B div 2 ^ (255 - k)) mod ?n"
      unfolding acc2(2) acc1(2) using s by (simp add: mod_add_left_eq)
    then show ?thesis unfolding step k(2) using acc2(1) True bit by simp
  next
    case False
    then have "be_val ?acc1 = ?A * (?B div 2 ^ (255 - k)) mod ?n" unfolding acc1(2) by (subst s) simp
    then show ?thesis unfolding step k(2) using acc1(1) False bit by simp
  qed
qed (use w32_less[OF w(2)] in simp)

lemma u256_mulmod_val:
  assumes "w32 a" "w32 b" "w32 n" "be_val n \<le> 2 ^ 255"
  shows "w32 (u256_mulmod a b n) \<and>
    be_val (u256_mulmod a b n) = (if be_val n = 0 then 0 else be_val a * be_val b mod be_val n)"
  using mulmod_loop_val[OF assms(1-3) _ assms(4), of 256]
  by (simp add: u256_mulmod_def be_val_zero_iff[symmetric] del: upt_conv_Cons)

section \<open>Multiplication and exponentiation\<close>

definition limbs_val :: "u64 list \<Rightarrow> nat" where
  "limbs_val l = (\<Sum>i < length l. l ! i * (2 ^ 64) ^ i)"

lemma limbs_val_update:
  "i < length l \<Longrightarrow> limbs_val (l[i := x]) + l ! i * (2 ^ 64) ^ i = limbs_val l + x * (2 ^ 64) ^ i"
proof -
  assume i: "i < length l"
  have "(\<Sum>j < length l. l[i := x] ! j * (2 ^ 64) ^ j)
      = x * (2 ^ 64) ^ i + (\<Sum>j \<in> {..< length l} - {i}. l[i := x] ! j * (2 ^ 64) ^ j)"
    using i by (subst sum.remove[of _ i]) auto
  also have "(\<Sum>j \<in> {..< length l} - {i}. l[i := x] ! j * (2 ^ 64) ^ j) = (\<Sum>j \<in> {..< length l} - {i}. l ! j * (2 ^ 64) ^ j)"
    by (rule sum.cong) auto
  finally show ?thesis using i sum.remove[of "{..< length l}" i "\<lambda>j. l ! j * (2 ^ 64) ^ j"]
    by (simp add: limbs_val_def)
qed

lemma limbs_val_four: "limbs_val [a, b, c, d] = a + b * 2 ^ 64 + c * 2 ^ 128 + d * 2 ^ 192"
  by (simp add: limbs_val_def)

lemma to_le_limbs_val: "w32 a \<Longrightarrow> limbs_val (to_le_limbs a) = be_val a \<and> list_all (\<lambda>x. x < 2 ^ 64) (to_le_limbs a)"
proof -
  assume w: "w32 a"
  let ?t = "\<lambda>k. take 8 (drop k a)"
  have e: "a = ?t 0 @ ?t 8 @ ?t 16 @ ?t 24"
    using append_take_drop_id[of 8 a] append_take_drop_id[of 8 "drop 8 a"] append_take_drop_id[of 8 "drop 16 a"] w
    by (simp add: w32_def)
  have l: "length (?t k) = 8" if "k \<le> 24" for k using w that by (simp add: w32_def)
  have "be_val a = be_val (?t 0 @ ?t 8 @ ?t 16 @ ?t 24)" using e by simp
  also have "\<dots> = be_val (?t 24) + be_val (?t 16) * 256 ^ 8 + be_val (?t 8) * 256 ^ 16 + be_val (?t 0) * 256 ^ 24"
    unfolding be_val_append length_append using l[of 8] l[of 16] l[of 24] by simp
  also have "\<dots> = limbs_val (to_le_limbs a)"
    by (simp add: to_le_limbs_def limbs_val_four)
  finally have v: "limbs_val (to_le_limbs a) = be_val a" by simp
  have "be_val (?t k) < 2 ^ 64" if "k \<le> 24" for k using be_val_less[of "?t k"] l[OF that] by simp
  then show ?thesis using v by (simp add: to_le_limbs_def) (metis drop0 le0)
qed


lemma mul_cell_val:
  fixes x y r c :: nat
  assumes "x < 2 ^ 64" "y < 2 ^ 64" "r < 2 ^ 64" "c < 2 ^ 64"
  shows "cast 64 (x * y + r + c) + cast 64 (drop_bit 64 (x * y + r + c)) * 2 ^ 64 = x * y + r + c"
proof -
  have "x * y \<le> (2 ^ 64 - 1) * (2 ^ 64 - 1)" using assms by (intro mult_le_mono) simp_all
  then have "x * y + r + c < 2 ^ 64 * 2 ^ 64" using assms by simp
  then have "(x * y + r + c) div 2 ^ 64 < 2 ^ 64" by (rule less_mult_imp_div_less)
  then show ?thesis by (simp add: cast_def drop_bit_eq_div)
qed

lemma mul_row_inv:
  assumes l: "length la = 4" "length lb = 4" "length res = 4" "i < 4"
    and b: "list_all (\<lambda>x. x < 2 ^ 64) la" "list_all (\<lambda>x. x < 2 ^ 64) lb" "list_all (\<lambda>x. x < 2 ^ 64) res"
  shows "j \<le> 4 - i \<Longrightarrow> \<exists>r c. foldl (mul_cell la lb i) (res, 0) [0 ..< j] = (r, c) \<and> length r = 4 \<and> c < 2 ^ 64
      \<and> list_all (\<lambda>x. x < 2 ^ 64) r
      \<and> limbs_val r + c * (2 ^ 64) ^ (i + j) = limbs_val res + la ! i * (\<Sum>t < j. lb ! t * (2 ^ 64) ^ t) * (2 ^ 64) ^ i"
proof (induction j)
  case (Suc j)
  then obtain r c where IH: "foldl (mul_cell la lb i) (res, 0) [0 ..< j] = (r, c)" "length r = 4" "c < 2 ^ 64"
      "list_all (\<lambda>x. x < 2 ^ 64) r"
      "limbs_val r + c * (2 ^ 64) ^ (i + j) = limbs_val res + la ! i * (\<Sum>t < j. lb ! t * (2 ^ 64) ^ t) * (2 ^ 64) ^ i"
    by auto
  let ?B = "2 ^ 64 :: nat" and ?p = "la ! i * lb ! j + r ! (i + j) + c"
  have ij: "i + j < length r" using Suc.prems IH(2) l by simp
  have small: "la ! i < ?B" "lb ! j < ?B" "r ! (i + j) < ?B"
    using b IH(4) ij l Suc.prems by (simp_all add: list_all_length)
  have cell: "cast 64 ?p + cast 64 (drop_bit 64 ?p) * ?B = ?p" using mul_cell_val[OF small IH(3)] .
  let ?r = "r[i + j := cast 64 ?p]" and ?c = "cast 64 (drop_bit 64 ?p)"
  have "limbs_val ?r + ?c * ?B ^ (i + Suc j) + r ! (i + j) * ?B ^ (i + j)
      = limbs_val r + (cast 64 ?p + ?c * ?B) * ?B ^ (i + j)"
    using limbs_val_update[OF ij, of "cast 64 ?p"] by (simp add: algebra_simps)
  also have "\<dots> = limbs_val r + ?p * ?B ^ (i + j)" unfolding cell ..
  also have "\<dots> = limbs_val r + c * ?B ^ (i + j) + la ! i * lb ! j * ?B ^ (i + j) + r ! (i + j) * ?B ^ (i + j)"
    by (simp add: add_mult_distrib)
  finally have "limbs_val ?r + ?c * ?B ^ (i + Suc j) = limbs_val r + c * ?B ^ (i + j) + la ! i * lb ! j * ?B ^ (i + j)"
    by linarith
  also have "\<dots> = limbs_val res + la ! i * (\<Sum>t < Suc j. lb ! t * ?B ^ t) * ?B ^ i"
    unfolding IH(5) by (simp add: power_add add_mult_distrib add_mult_distrib2 mult.assoc mult.commute mult.left_commute)
  finally have "limbs_val ?r + ?c * ?B ^ (i + Suc j) = limbs_val res + la ! i * (\<Sum>t < Suc j. lb ! t * ?B ^ t) * ?B ^ i" .
  moreover have "foldl (mul_cell la lb i) (res, 0) [0 ..< Suc j] = (?r, ?c)"
    using IH(1) by (simp add: mul_cell_def Let_def)
  moreover have "list_all (\<lambda>x. x < ?B) ?r"
    using IH(4) set_update_subset_insert[of r "i + j" "cast 64 ?p"] by (auto simp: list_all_iff cast_def)
  moreover have "?c < ?B" by (simp add: cast_def)
  ultimately show ?case using IH(2) by (intro exI[of _ ?r] exI[of _ ?c]) simp
qed (use l b in simp)

lemma limbs_val_split:
  assumes "length lb = 4" "i \<le> 4"
  shows "\<exists>h. limbs_val lb * (2 ^ 64) ^ i = (\<Sum>t < 4 - i. lb ! t * (2 ^ 64) ^ t) * (2 ^ 64) ^ i + h * (2 ^ 64) ^ 4"
proof -
  let ?B = "2 ^ 64 :: nat" and ?h = "\<Sum>t \<in> {4 - i ..< 4}. lb ! t * (2 ^ 64) ^ (t + i - 4)"
  have U: "{..< 4 :: nat} = {..< 4 - i} \<union> {4 - i ..< 4}" using assms(2) by auto
  have "limbs_val lb = (\<Sum>t < 4 - i. lb ! t * ?B ^ t) + (\<Sum>t \<in> {4 - i ..< 4}. lb ! t * ?B ^ t)"
    unfolding limbs_val_def assms(1) by (subst U) (rule sum.union_disjoint, auto)
  moreover have "(\<Sum>t \<in> {4 - i ..< 4}. lb ! t * ?B ^ t) * ?B ^ i = ?h * ?B ^ 4"
    unfolding sum_distrib_right
  proof (rule sum.cong)
    fix t assume "t \<in> {4 - i ..< 4}"
    then have "t + i = (t + i - 4) + 4" by auto
    then show "lb ! t * ?B ^ t * ?B ^ i = lb ! t * ?B ^ (t + i - 4) * ?B ^ 4"
      by (metis mult.assoc power_add)
  qed simp
  ultimately have "limbs_val lb * ?B ^ i = (\<Sum>t < 4 - i. lb ! t * ?B ^ t) * ?B ^ i + ?h * ?B ^ 4"
    by (simp only: add_mult_distrib)
  then show ?thesis ..
qed

lemma four_limbs: "length r = 4 \<Longrightarrow> \<exists>a b c d. r = [a, b, c, d]"
  by (auto simp: numeral_eq_Suc length_Suc_conv)

lemma limbs_val_less: "list_all (\<lambda>x. x < 2 ^ 64) r \<Longrightarrow> length r = 4 \<Longrightarrow> limbs_val r < (2 ^ 64) ^ 4"
  using four_limbs[of r] by (auto simp: limbs_val_four)

lemma mul_row_val:
  assumes l: "length la = 4" "length lb = 4" "length res = 4" "i < 4"
    and b: "list_all (\<lambda>x. x < 2 ^ 64) la" "list_all (\<lambda>x. x < 2 ^ 64) lb" "list_all (\<lambda>x. x < 2 ^ 64) res"
  shows "length (mul_row la lb res i) = 4" "list_all (\<lambda>x. x < 2 ^ 64) (mul_row la lb res i)"
    "limbs_val (mul_row la lb res i) mod (2 ^ 64) ^ 4 = (limbs_val res + la ! i * (2 ^ 64) ^ i * limbs_val lb) mod (2 ^ 64) ^ 4"
proof -
  let ?B = "2 ^ 64 :: nat"
  have s: "i + (4 - i) = 4" using l(4) by simp
  obtain r c where r: "foldl (mul_cell la lb i) (res, 0) [0 ..< 4 - i] = (r, c)" "length r = 4" "list_all (\<lambda>x. x < ?B) r"
      "limbs_val r + c * ?B ^ 4 = limbs_val res + la ! i * (\<Sum>t < 4 - i. lb ! t * ?B ^ t) * ?B ^ i"
    using mul_row_inv[OF assms order_refl] unfolding s by auto
  then have m: "mul_row la lb res i = r" by (simp add: mul_row_def)
  obtain h where h: "limbs_val lb * ?B ^ i = (\<Sum>t < 4 - i. lb ! t * ?B ^ t) * ?B ^ i + h * ?B ^ 4"
    using limbs_val_split[OF l(2), of i] l(4) by auto
  have "limbs_val res + la ! i * ?B ^ i * limbs_val lb = limbs_val res + la ! i * (limbs_val lb * ?B ^ i)"
    by (simp only: mult.assoc mult.commute[of "limbs_val lb"])
  also have "\<dots> = limbs_val r + (c + la ! i * h) * ?B ^ 4"
    unfolding h using r(4) by (simp only: add_mult_distrib add_mult_distrib2 mult.assoc)
  finally show "limbs_val (mul_row la lb res i) mod ?B ^ 4 = (limbs_val res + la ! i * ?B ^ i * limbs_val lb) mod ?B ^ 4"
    unfolding m by (simp only: mod_mult_self1)
  show "length (mul_row la lb res i) = 4" "list_all (\<lambda>x. x < ?B) (mul_row la lb res i)" using r m by simp_all
qed

lemma mul_rows_val:
  assumes l: "length la = 4" "length lb = 4"
    and b: "list_all (\<lambda>x. x < 2 ^ 64) la" "list_all (\<lambda>x. x < 2 ^ 64) lb"
  shows "n \<le> 4 \<Longrightarrow> length (foldl (mul_row la lb) [0, 0, 0, 0] [0 ..< n]) = 4
      \<and> list_all (\<lambda>x. x < 2 ^ 64) (foldl (mul_row la lb) [0, 0, 0, 0] [0 ..< n])
      \<and> limbs_val (foldl (mul_row la lb) [0, 0, 0, 0] [0 ..< n]) mod (2 ^ 64) ^ 4
        = ((\<Sum>t < n. la ! t * (2 ^ 64) ^ t) * limbs_val lb) mod (2 ^ 64) ^ 4"
proof (induction n)
  case (Suc n)
  let ?r = "foldl (mul_row la lb) [0, 0, 0, 0] [0 ..< n]" and ?B = "2 ^ 64 :: nat"
  have r: "length ?r = 4" "list_all (\<lambda>x. x < ?B) ?r"
    "limbs_val ?r mod ?B ^ 4 = ((\<Sum>t < n. la ! t * ?B ^ t) * limbs_val lb) mod ?B ^ 4" using Suc by simp_all
  note row = mul_row_val[OF l r(1) _ b r(2), of n]
  have "limbs_val (mul_row la lb ?r n) mod ?B ^ 4
      = ((\<Sum>t < n. la ! t * ?B ^ t) * limbs_val lb + la ! n * ?B ^ n * limbs_val lb) mod ?B ^ 4"
    using row(3) Suc.prems mod_add_cong[OF r(3) refl] by (simp only: Suc_le_eq)
  then show ?case using row(1,2) Suc.prems by (simp add: add_mult_distrib)
qed (simp add: limbs_val_four)

lemma from_le_limbs_val:
  "length l = 4 \<Longrightarrow> list_all (\<lambda>x. x < 2 ^ 64) l \<Longrightarrow> w32 (from_le_limbs l) \<and> be_val (from_le_limbs l) = limbs_val l"
  using four_limbs[of l] by (auto simp: from_le_limbs_def w32_def be_val_append be_val_be_bytes limbs_val_four)

lemma evm_mul_val: "w32 a \<Longrightarrow> w32 b \<Longrightarrow> w32 (u256_mul a b) \<and> be_val (u256_mul a b) = be_val a * be_val b mod 2 ^ 256"
proof -
  assume w: "w32 a" "w32 b"
  let ?la = "to_le_limbs a" and ?lb = "to_le_limbs b"
  let ?r = "foldl (mul_row ?la ?lb) [0, 0, 0, 0] [0 ..< 4]"
  have l: "length ?la = 4" "length ?lb = 4" by (simp_all add: to_le_limbs_def)
  note va = to_le_limbs_val[OF w(1)] and vb = to_le_limbs_val[OF w(2)]
  have r: "length ?r = 4" "list_all (\<lambda>x. x < 2 ^ 64) ?r"
    "limbs_val ?r mod (2 ^ 64) ^ 4 = (limbs_val ?la * limbs_val ?lb) mod (2 ^ 64) ^ 4"
  proof -
    have s: "(\<Sum>t < 4. ?la ! t * (2 ^ 64) ^ t) = limbs_val ?la" by (simp only: limbs_val_def l(1))
    show "length ?r = 4" "list_all (\<lambda>x. x < 2 ^ 64) ?r"
      "limbs_val ?r mod (2 ^ 64) ^ 4 = (limbs_val ?la * limbs_val ?lb) mod (2 ^ 64) ^ 4"
      using mul_rows_val[OF l conjunct2[OF va] conjunct2[OF vb] order_refl] unfolding s by blast+
  qed
  have "limbs_val ?r = be_val a * be_val b mod (2 ^ 64) ^ 4"
    using r(3) va vb limbs_val_less[OF r(2,1)] by (simp only: mod_less)
  then have "limbs_val ?r = be_val a * be_val b mod 2 ^ 256" by (simp only: power_mult[symmetric]) simp
  then show ?thesis using from_le_limbs_val[OF r(1,2)] by (simp only: u256_mul_def)
qed


lemma low_bit: "w32 e \<Longrightarrow> (e ! 31) AND 1 = 1 \<longleftrightarrow> odd (be_val e)"
proof -
  assume w: "w32 e"
  have "unat ((e ! 31) AND 1) = be_val e mod 256 mod 2"
    using be_val_nth[of 31 e] w by (simp add: unat_and_one w32_def)
  also have "\<dots> = be_val e mod 2" by (rule mod_mod_cancel) simp
  finally have "unat ((e ! 31) AND 1) = be_val e mod 2" .
  then show ?thesis by (metis odd_iff_mod_2_eq_one unat_1 word_unat_eq_iff)
qed

lemma exp_loop_val:
  "w32 r \<Longrightarrow> w32 b \<Longrightarrow> w32 e \<Longrightarrow> w32 (exp_loop r b e) \<and> be_val (exp_loop r b e) = be_val r * be_val b ^ be_val e mod 2 ^ 256"
proof (induction r b e rule: exp_loop.induct)
  case (1 r b e)
  let ?M = "2 ^ 256 :: nat"
  show ?case
  proof (cases "u256_is_zero e")
    case True
    then have "be_val e = 0" "exp_loop r b e = r" by (simp_all add: be_val_zero_iff exp_loop.simps)
    then show ?thesis using 1(2) w32_less[OF 1(2)] by simp
  next
    case False
    let ?r = "if (e ! 31) AND 1 = 1 then u256_mul r b else r"
    have r: "w32 ?r" "be_val ?r = (if odd (be_val e) then be_val r * be_val b else be_val r) mod ?M"
      using evm_mul_val[OF 1(2,3)] low_bit[OF 1(4)] 1(2) w32_less[OF 1(2)] by auto
    have bb: "w32 (u256_mul b b)" "be_val (u256_mul b b) = (be_val b * be_val b) mod ?M"
      using evm_mul_val[OF 1(3,3)] by simp_all
    have e: "w32 (shr_bytes 0 e)" using 1(4) by (simp add: w32_def)
    have IH: "w32 (exp_loop r b e)" "be_val (exp_loop r b e) = be_val ?r * be_val (u256_mul b b) ^ (be_val e div 2) mod ?M"
      using 1(1)[OF False r(1) bb(1) e] False by (simp_all add: exp_loop.simps[of r b e] shr_one_val)
    have "be_val ?r * be_val (u256_mul b b) ^ (be_val e div 2) mod ?M
        = (if odd (be_val e) then be_val r * be_val b else be_val r) * (be_val b * be_val b) ^ (be_val e div 2) mod ?M"
      unfolding r(2) bb(2) by (simp only: mod_mult_left_eq mod_mult_right_eq power_mod mod_mult_eq)
        (metis (no_types, lifting) mod_mult_left_eq mod_mult_right_eq power_mod)
    also have "(if odd (be_val e) then be_val r * be_val b else be_val r) * (be_val b * be_val b) ^ (be_val e div 2)
        = be_val r * be_val b ^ be_val e"
    proof -
      have "(be_val b * be_val b) ^ (be_val e div 2) = be_val b ^ (2 * (be_val e div 2))"
        by (simp only: power_mult power2_eq_square)
      moreover have "odd (be_val e) \<Longrightarrow> be_val b ^ be_val e = be_val b * be_val b ^ (2 * (be_val e div 2))"
        by (metis odd_two_times_div_two_succ power_Suc Suc_eq_plus1)
      ultimately show ?thesis by (auto simp: mult.assoc)
    qed
    finally show ?thesis using IH by simp
  qed
qed

lemma u256_exp_val: "w32 b \<Longrightarrow> w32 e \<Longrightarrow> w32 (u256_exp b e) \<and> be_val (u256_exp b e) = be_val b ^ be_val e mod 2 ^ 256"
proof -
  assume w: "w32 b" "w32 e"
  have one: "be_val (u256_from_u64 1) = 1" by (rule from_u64_val(2)) simp
  show ?thesis
  proof (cases "u256_is_zero e")
    case True
    then have "be_val e = 0" by (simp add: be_val_zero_iff)
    then show ?thesis using True one from_u64_val(1) by (simp add: u256_exp_def)
  next
    case False
    then show ?thesis using exp_loop_val[OF from_u64_val(1) w, of 1] one by (simp add: u256_exp_def)
  qed
qed

section \<open>Signed operations\<close>

text \<open>The two's-complement reading of a word.\<close>

definition sval :: "word32 \<Rightarrow> int" where
  "sval a = (if 2 ^ 255 \<le> be_val a then int (be_val a) - 2 ^ 256 else int (be_val a))"

lemma top_half: "x < 2 * d \<Longrightarrow> x div d mod 2 = 1 \<longleftrightarrow> d \<le> x" for x d :: nat
proof (cases "d \<le> x")
  case True
  assume "x < 2 * d"
  with True have "x div d = Suc 0" by (simp add: div_nat_eqI)
  then show ?thesis using True by simp
qed simp

lemma is_negative_val: "w32 a \<Longrightarrow> is_negative a \<longleftrightarrow> 2 ^ 255 \<le> be_val a"
proof -
  assume w: "w32 a"
  have "(a ! 0) AND 2 ^ 7 = 0 \<longleftrightarrow> \<not> bit (a ! 0) 7" by (rule and_exp_eq_0_iff_not_bit)
  then have "is_negative a \<longleftrightarrow> bit (a ! 0) 7" by (simp add: is_negative_def)
  also have "\<dots> \<longleftrightarrow> unat (bit_at a 0) = 1"
    using div_mod_bit[of "unat (a ! 0)" 7] by (simp add: bit_at_def unat_and_one unat_drop_byte bit_unsigned_iff)
  also have "unat (bit_at a 0) = be_val a div 2 ^ 255 mod 2" using bit_at_val[OF w, of 0] by simp
  finally show ?thesis using w32_less[OF w] top_half[of "be_val a" "2 ^ 255"] by simp
qed


lemma be_val_not: "be_val (map NOT a) + be_val a + 1 = 256 ^ length a"
proof (induction a)
  case (Cons b a)
  have "unat (NOT b) + unat b = 255"
  proof -
    have "NOT b = 255 - b" by (simp add: not_eq_complement)
    moreover have "b \<le> 255" by (simp add: word_le_nat_alt) (use unat_byte_less[of b] in linarith)
    ultimately have "unat (NOT b) = 255 - unat b" using unat_sub[of b 255] by simp
    then show ?thesis using unat_byte_less[of b] by linarith
  qed
  then have "(unat (NOT b) + unat b) * 256 ^ length a = 255 * 256 ^ length a" by simp
  then show ?case using Cons by (simp add: be_val_Cons algebra_simps)
qed simp

lemma negate_val: "w32 a \<Longrightarrow> w32 (negate a) \<and> be_val (negate a) = (2 ^ 256 - be_val a) mod 2 ^ 256"
proof -
  assume w: "w32 a"
  have one: "be_val (u256_from_u64 1) = 1" by (rule from_u64_val(2)) simp
  have wn: "w32 (u256_not a)" using w by (simp add: w32_def u256_not_def)
  have "be_val (u256_not a) + be_val a + 1 = 2 ^ 256"
    using be_val_not[of a] w unfolding u256_not_def w32_def by (simp only: base_power)
  then have "be_val (u256_not a) + 1 = 2 ^ 256 - be_val a" by linarith
  then show ?thesis using evm_add_val[OF wn from_u64_val(1), of 1] one by (simp add: negate_def)
qed

definition abs32 :: "word32 \<Rightarrow> word32" where
  "abs32 a = (if is_negative a then negate a else a)"

lemma abs32_val: "w32 a \<Longrightarrow> w32 (abs32 a) \<and> int (be_val (abs32 a)) = \<bar>sval a\<bar>"
  using negate_val[of a] is_negative_val[of a] w32_less[of a]
  by (auto simp: abs32_def sval_def of_nat_diff)

lemma sval_neg: "w32 a \<Longrightarrow> sval a < 0 \<longleftrightarrow> is_negative a"
  using w32_less[of a] is_negative_val[of a] by (auto simp: sval_def)

lemma sval_zero: "w32 a \<Longrightarrow> sval a = 0 \<longleftrightarrow> be_val a = 0"
  using w32_less[of a] by (auto simp: sval_def)

text \<open>A word whose number is a given integer modulo \<open>2 ^ 256\<close>.\<close>

lemma negate_int: "w32 a \<Longrightarrow> int (be_val (negate a)) = (- int (be_val a)) mod 2 ^ 256"
  using negate_val[of a] w32_less[of a] by (simp add: zmod_int of_nat_diff mod_diff_left_eq[symmetric] zmod_zminus1_eq_if)


lemma abs32_div:
  assumes "w32 a" "w32 b"
  shows "w32 (u256_div (abs32 a) (abs32 b))" "int (be_val (u256_div (abs32 a) (abs32 b))) = \<bar>sval a\<bar> div \<bar>sval b\<bar>"
  using u256_div_val[of "abs32 a" "abs32 b"] abs32_val[OF assms(1)] abs32_val[OF assms(2)] by (simp_all add: zdiv_int)

lemma u256_sdiv_val:
  assumes w: "w32 a" "w32 b"
  shows "w32 (u256_sdiv a b) \<and> int (be_val (u256_sdiv a b)) = (sval a sdiv sval b) mod 2 ^ 256"
proof -
  let ?q = "u256_div (abs32 a) (abs32 b)"
  note q = abs32_div[OF w]
  have sgn: "sval a sdiv sval b = (if is_negative a \<noteq> is_negative b then - int (be_val ?q) else int (be_val ?q))"
    using sval_neg[OF w(1)] sval_neg[OF w(2)] unfolding q(2) signed_divide_int_def by (auto simp: sgn_if)
  consider "u256_is_zero b" | "\<not> u256_is_zero b" "a = min_int" "b = replicate 31 0 @ [1]"
    | "\<not> u256_is_zero b" "\<not> (a = min_int \<and> b = replicate 31 0 @ [1])" by blast
  then show ?thesis
  proof cases
    case 1
    then have "sval b = 0" using sval_zero[OF w(2)] by (simp add: be_val_zero_iff)
    then show ?thesis using 1 by (simp add: u256_sdiv_def signed_divide_int_def)
  next
    case 2
    have "be_val min_int = 2 ^ 255" "be_val b = 1" using 2(3) by (simp_all add: min_int_def be_val_Cons be_val_append)
    then have "sval a = - (2 ^ 255)" "sval b = 1" using 2(2) by (simp_all add: sval_def)
    then show ?thesis using 2 \<open>be_val min_int = 2 ^ 255\<close> by (simp add: u256_sdiv_def min_int_def w32_def signed_divide_int_def)
  next
    case 3
    then have "u256_sdiv a b = (if is_negative a \<noteq> is_negative b then negate ?q else ?q)"
      by (auto simp: u256_sdiv_def abs32_def Let_def)
    then show ?thesis using sgn negate_int[OF q(1)] negate_val[OF q(1)] q(1) w32_less_int[OF q(1)] by auto
  qed
qed

lemma u256_smod_val:
  assumes w: "w32 a" "w32 b"
  shows "w32 (u256_smod a b) \<and> int (be_val (u256_smod a b)) = (if sval b = 0 then 0 else sval a smod sval b) mod 2 ^ 256"
proof (cases "u256_is_zero b")
  case False
  let ?r = "u256_mod (abs32 a) (abs32 b)"
  have b0: "be_val b \<noteq> 0" "sval b \<noteq> 0" using False sval_zero[OF w(2)] by (simp_all add: be_val_zero_iff)
  have r: "w32 ?r" "int (be_val ?r) = \<bar>sval a\<bar> mod \<bar>sval b\<bar>"
    using u256_mod_val[of "abs32 a" "abs32 b"] abs32_val[OF w(1)] abs32_val[OF w(2)] b0(2)
    by (auto simp: zmod_int of_nat_eq_0_iff[where 'a = int, symmetric] simp del: of_nat_eq_0_iff)
  have s: "sval a smod sval b = (if is_negative a then - int (be_val ?r) else int (be_val ?r))"
    using sval_neg[OF w(1)] unfolding r(2) signed_modulo_int_def by (auto simp: sgn_if)
  have "u256_smod a b = (if is_negative a \<and> be_val ?r \<noteq> 0 then negate ?r else ?r)"
    using False by (simp add: u256_smod_def abs32_def Let_def be_val_zero_iff)
  then show ?thesis using s b0(2) negate_int[OF r(1)] negate_val[OF r(1)] r(1) w32_less_int[OF r(1)] by auto
next
  case True
  then have "sval b = 0" using sval_zero[OF w(2)] by (simp add: be_val_zero_iff)
  then show ?thesis using True by (simp add: u256_smod_def)
qed

lemma u256_slt_val: "w32 a \<Longrightarrow> w32 b \<Longrightarrow> u256_slt a b \<longleftrightarrow> sval a < sval b"
  using u256_lt_val[of a b] is_negative_val[of a] is_negative_val[of b] w32_less_int[of a] w32_less_int[of b]
  by (auto simp: u256_slt_def sval_def w32_def)

lemma u256_sgt_val: "w32 a \<Longrightarrow> w32 b \<Longrightarrow> u256_sgt a b \<longleftrightarrow> sval b < sval a"
  using u256_slt_val[of b a] by (auto simp: u256_sgt_def u256_slt_def u256_gt_def)


section \<open>Shifts\<close>

lemma bit_be_val: "w32 a \<Longrightarrow> bit (be_val a) n \<longleftrightarrow> n < 256 \<and> bit (a ! (31 - n div 8)) (n mod 8)"
proof (cases "n < 256")
  case True
  assume w: "w32 a"
  let ?i = "31 - n div 8"
  have i: "?i < length a" and l: "length a - 1 - ?i = n div 8" using True w by (simp_all add: w32_def)
  have "unat (a ! ?i) = take_bit 8 (drop_bit (8 * (n div 8)) (be_val a))"
    using be_val_nth[OF i] unfolding l by (simp add: take_bit_eq_mod drop_bit_eq_div power_mult)
  then have "bit (a ! ?i) (n mod 8) \<longleftrightarrow> bit (take_bit 8 (drop_bit (8 * (n div 8)) (be_val a))) (n mod 8)"
    by (metis bit_unsigned_iff bit_nat_iff possible_bit_nat bit_imp_possible_bit)
  then show ?thesis using True by (simp add: bit_take_bit_iff bit_drop_bit_eq)
next
  case False
  assume "w32 a"
  then have "be_val a = take_bit 256 (be_val a)" using w32_less[of a] by (simp add: take_bit_nat_eq_self)
  then show ?thesis using False bit_take_bit_iff[of 256 "be_val a" n] by auto
qed

lemma w32_map [simp]: "w32 (map f [0 ..< 32])"
  by (simp add: w32_def)

lemma bit_map32: "bit (be_val (map f [0 ..< 32])) n \<longleftrightarrow> n < 256 \<and> bit (f (31 - n div 8)) (n mod 8)"
  by (auto simp: bit_be_val)

lemma bit_byte: "bit (b :: byte) n \<Longrightarrow> n < 8"
  using bit_imp_le_length[of b n] by simp

lemma bit_be_val_at: "w32 a \<Longrightarrow> m < 8 \<Longrightarrow> bit (be_val a) (8 * u + m) \<longleftrightarrow> u < 32 \<and> bit (a ! (31 - u)) m"
  by (auto simp: bit_be_val)

lemma shl_bits:
  assumes w: "w32 v" and m: "m < 8" "b < 8" "u < 32"
  shows "bit (shl_byte v y b (31 - u)) m \<longleftrightarrow> 8 * y + b \<le> 8 * u + m \<and> bit (be_val v) (8 * u + m - (8 * y + b))"
proof (cases "b \<le> m")
  case True
  have high: "\<not> bit x (8 - b + m)" for x :: byte using bit_byte[of x "8 - b + m"] True m by auto
  have lhs: "bit (shl_byte v y b (31 - u)) m \<longleftrightarrow> 31 - u + y < 32 \<and> bit (v ! (31 - u + y)) (m - b)"
    using True m high by (simp add: shl_byte_def Let_def bit_or_iff bit_push_bit_iff bit_drop_bit_eq)
  have le: "8 * y + b \<le> 8 * u + m \<longleftrightarrow> y \<le> u" "31 - u + y < 32 \<longleftrightarrow> y \<le> u" using True m by arith+
  have "bit (be_val v) (8 * u + m - (8 * y + b)) \<longleftrightarrow> bit (v ! (31 - u + y)) (m - b)" if "y \<le> u"
  proof -
    have e: "8 * u + m - (8 * y + b) = 8 * (u - y) + (m - b)" "31 - u + y = 31 - (u - y)" using that True m by arith+
    have l: "m - b < 8" "u - y < 32" using m by arith+
    show ?thesis unfolding e using bit_be_val_at[OF w l(1), of "u - y"] l(2) by blast
  qed
  then show ?thesis unfolding lhs le by blast
next
  case False
  have lhs: "bit (shl_byte v y b (31 - u)) m \<longleftrightarrow> 31 - u + y + 1 < 32 \<and> bit (v ! (31 - u + y + 1)) (8 - b + m)"
    using False m by (auto simp: shl_byte_def Let_def bit_or_iff bit_push_bit_iff bit_drop_bit_eq)
  have le: "8 * y + b \<le> 8 * u + m \<longleftrightarrow> y < u" "31 - u + y + 1 < 32 \<longleftrightarrow> y < u" using False m by arith+
  have "bit (be_val v) (8 * u + m - (8 * y + b)) \<longleftrightarrow> bit (v ! (31 - u + y + 1)) (8 - b + m)" if "y < u"
  proof -
    have e: "8 * u + m - (8 * y + b) = 8 * (u - y - 1) + (8 - b + m)" "31 - u + y + 1 = 31 - (u - y - 1)"
      using that False m by arith+
    have l: "8 - b + m < 8" "u - y - 1 < 32" using False m by arith+
    show ?thesis unfolding e using bit_be_val_at[OF w l(1), of "u - y - 1"] l(2) by blast
  qed
  then show ?thesis unfolding lhs le by blast
qed

lemma shr_bits:
  assumes w: "w32 v" and m: "m < 8" "b < 8" "u < 32"
  shows "bit (shr_byte v y b (31 - u)) m \<longleftrightarrow> bit (be_val v) (8 * u + m + (8 * y + b))"
proof (cases "b + m < 8")
  case True
  have "bit (shr_byte v y b (31 - u)) m \<longleftrightarrow> y \<le> 31 - u \<and> bit (v ! (31 - u - y)) (b + m)"
    using True m by (auto simp: shr_byte_def Let_def bit_or_iff bit_push_bit_iff bit_drop_bit_eq)
  moreover have "8 * u + m + (8 * y + b) = 8 * (u + y) + (b + m)" "31 - u - y = 31 - (u + y)" "y \<le> 31 - u \<longleftrightarrow> u + y < 32"
    using m by arith+
  ultimately show ?thesis using bit_be_val_at[OF w True, of "u + y"] by (simp only:)
next
  case False
  have high: "\<not> bit x (b + m)" for x :: byte using bit_byte[of x "b + m"] False by auto
  have "bit (shr_byte v y b (31 - u)) m \<longleftrightarrow> y < 31 - u \<and> bit (v ! (31 - u - y - 1)) (m - (8 - b))"
    using False m high by (auto simp: shr_byte_def Let_def bit_or_iff bit_push_bit_iff bit_drop_bit_eq)
  moreover have "8 * u + m + (8 * y + b) = 8 * (u + y + 1) + (m - (8 - b))" "31 - u - y - 1 = 31 - (u + y + 1)"
    "y < 31 - u \<longleftrightarrow> u + y + 1 < 32"
    using False m by arith+
  moreover have "m - (8 - b) < 8" using m by arith
  ultimately show ?thesis using bit_be_val_at[OF w, of "m - (8 - b)" "u + y + 1"] by (simp only:)
qed


lemma div_mod_8: "n < 256 \<Longrightarrow> n div 8 < 32 \<and> n mod 8 < 8 \<and> 8 * (n div 8) + n mod 8 = n" for n :: nat
  by auto

lemma w32_shl: "w32 v \<Longrightarrow> w32 (u256_shl sh v)"
  by (simp add: u256_shl_def Let_def)

lemma w32_shr: "w32 v \<Longrightarrow> w32 (u256_shr sh v)"
  by (simp add: u256_shr_def Let_def)

lemma bit_shl:
  assumes "w32 v" "s = u256_to_u64 sh"
  shows "bit (be_val (u256_shl sh v)) n \<longleftrightarrow> n < 256 \<and> s \<le> n \<and> bit (be_val v) (n - s)"
proof -
  consider "s \<ge> 256" | "s = 0" | "0 < s" "s < 256" by linarith
  then show ?thesis
  proof cases
    case 3
    have "bit (shl_byte v (s div 8) (s mod 8) (31 - n div 8)) (n mod 8) \<longleftrightarrow> s \<le> n \<and> bit (be_val v) (n - s)" if "n < 256"
      using shl_bits[OF assms(1), of "n mod 8" "s mod 8" "n div 8" "s div 8"] div_mod_8[OF that] div_mod_8[OF 3(2)] by simp
    then show ?thesis using 3 assms(2) by (auto simp: u256_shl_def Let_def bit_map32)
  qed (use assms bit_be_val[OF assms(1)] in \<open>auto simp: u256_shl_def Let_def\<close>)
qed

lemma bit_shr:
  assumes "w32 v" "s = u256_to_u64 sh"
  shows "bit (be_val (u256_shr sh v)) n \<longleftrightarrow> bit (be_val v) (n + s)"
proof -
  have high: "\<not> bit (be_val v) (n + s)" if "256 \<le> n + s" using bit_be_val[OF assms(1)] that by auto
  consider "s \<ge> 256" | "s = 0" | "0 < s" "s < 256" by linarith
  then show ?thesis
  proof cases
    case 3
    have "bit (shr_byte v (s div 8) (s mod 8) (31 - n div 8)) (n mod 8) \<longleftrightarrow> bit (be_val v) (n + s)" if "n < 256"
      using shr_bits[OF assms(1), of "n mod 8" "s mod 8" "n div 8" "s div 8"] div_mod_8[OF that] div_mod_8[OF 3(2)] by simp
    then show ?thesis using 3 assms(2) high by (cases "n < 256") (auto simp: u256_shr_def Let_def bit_map32)
  qed (use assms high in \<open>auto simp: u256_shr_def Let_def\<close>)
qed

lemma u256_shl_val:
  assumes "w32 v" shows "be_val (u256_shl sh v) = be_val v * 2 ^ u256_to_u64 sh mod 2 ^ 256"
proof -
  have "be_val (u256_shl sh v) = take_bit 256 (push_bit (u256_to_u64 sh) (be_val v))"
    by (rule bit_eqI) (auto simp: bit_shl[OF assms refl] bit_take_bit_iff bit_push_bit_iff)
  then show ?thesis by (simp add: take_bit_eq_mod push_bit_eq_mult)
qed

lemma u256_shr_val:
  assumes "w32 v" shows "be_val (u256_shr sh v) = be_val v div 2 ^ u256_to_u64 sh"
proof -
  have "be_val (u256_shr sh v) = drop_bit (u256_to_u64 sh) (be_val v)"
    by (rule bit_eqI) (auto simp: bit_shr[OF assms refl] bit_drop_bit_eq add.commute)
  then show ?thesis by (simp add: drop_bit_eq_div)
qed

lemma sign_fill_bits:
  assumes "w32 out" "k < 256"
  shows "w32 (sign_fill out k)" "bit (be_val (sign_fill out k)) n \<longleftrightarrow> bit (be_val out) n \<or> n = 255 - k"
proof -
  show w: "w32 (sign_fill out k)" using assms(1) by (simp add: w32_def sign_fill_def)
  have b: "bit (drop_bit (k mod 8) (0x80 :: byte)) m \<longleftrightarrow> m = 7 - k mod 8" for m
  proof -
    have e: "(0x80 :: byte) = 2 ^ 7" by simp
    have "bit (0x80 :: byte) j \<longleftrightarrow> j = 7" for j unfolding e bit_exp_iff by (auto simp: possible_bit_word)
    then have "bit (drop_bit (k mod 8) (0x80 :: byte)) m \<longleftrightarrow> k mod 8 + m = 7" by (simp only: bit_drop_bit_eq comp_def)
    also have "\<dots> \<longleftrightarrow> m = 7 - k mod 8" using mod_less_divisor[of 8 k] by linarith
    finally show ?thesis .
  qed
  show "bit (be_val (sign_fill out k)) n \<longleftrightarrow> bit (be_val out) n \<or> n = 255 - k"
  proof (cases "n < 256")
    case True
    have pos: "n = 255 - k \<longleftrightarrow> 31 - n div 8 = k div 8 \<and> n mod 8 = 7 - k mod 8"
    proof -
      have d: "n div 8 < 32" "k div 8 < 32" "8 * (n div 8) + n mod 8 = n" using True assms(2) by auto
      have "n = 255 - k \<longleftrightarrow> n div 8 = 31 - k div 8 \<and> n mod 8 = 7 - k mod 8"
      proof
        assume "n = 255 - k"
        then have "n = 8 * (31 - k div 8) + (7 - k mod 8)" using bit_position[OF assms(2)] by (simp only:)
        moreover have "x < 8 \<Longrightarrow> (8 * y + x) div 8 = y \<and> (8 * y + x) mod 8 = x" for x y :: nat by simp
        moreover have "7 - k mod 8 < 8" by simp
        ultimately show "n div 8 = 31 - k div 8 \<and> n mod 8 = 7 - k mod 8" by blast
      next
        assume "n div 8 = 31 - k div 8 \<and> n mod 8 = 7 - k mod 8"
        then show "n = 255 - k" using d(3) bit_position[OF assms(2)] by (simp only:)
      qed
      moreover have "n div 8 = 31 - k div 8 \<longleftrightarrow> 31 - n div 8 = k div 8" using d(1,2) by linarith
      ultimately show ?thesis by blast
    qed
    show ?thesis
      unfolding bit_be_val[OF w] bit_be_val[OF assms(1)] pos
      using True assms by (auto simp: sign_fill_def w32_def nth_list_update bit_or_iff b)
  next
    case False
    then show ?thesis using bit_be_val[OF w] bit_be_val[OF assms(1)] by auto
  qed
qed

lemma sign_fill_loop:
  "w32 out \<Longrightarrow> s \<le> 256 \<Longrightarrow> w32 (foldl sign_fill out [0 ..< s])
    \<and> (bit (be_val (foldl sign_fill out [0 ..< s])) n \<longleftrightarrow> bit (be_val out) n \<or> (n < 256 \<and> 256 \<le> n + s))"
proof (induction s)
  case (Suc s)
  then show ?case using sign_fill_bits(1)[of "foldl sign_fill out [0 ..< s]" s]
      sign_fill_bits(2)[of "foldl sign_fill out [0 ..< s]" s n] by auto
qed auto


lemma bit_sval: "w32 a \<Longrightarrow> bit (sval a) n \<longleftrightarrow> (if n < 256 then bit (be_val a) n else is_negative a)"
proof -
  assume w: "w32 a"
  show ?thesis
  proof (cases "is_negative a")
    case True
    then have "sval a = - 1 - int (2 ^ 256 - 1 - be_val a)"
      using is_negative_val[OF w] w32_less[OF w] by (simp add: sval_def of_nat_diff)
    also have "\<dots> = NOT (int (2 ^ 256 - 1 - be_val a))" by (simp add: not_int_def)
    finally have s: "sval a = NOT (int (2 ^ 256 - 1 - be_val a))" .
    have "be_val (u256_not a) = 2 ^ 256 - 1 - be_val a"
      using be_val_not[of a] w unfolding u256_not_def w32_def by (simp add: base_power)
    moreover have wn: "w32 (u256_not a)" using w by (simp add: w32_def u256_not_def)
    ultimately have "bit (2 ^ 256 - 1 - be_val a) n \<longleftrightarrow> n < 256 \<and> \<not> bit (be_val a) n"
      using bit_be_val[OF wn, of n] bit_be_val[OF w, of n] w
      by (auto simp: u256_not_def w32_def bit_not_iff possible_bit_word)
    then show ?thesis using True unfolding s by (simp add: bit_not_int_iff bit_of_nat_iff)
  next
    case False
    then have "sval a = int (be_val a)" using is_negative_val[OF w] by (simp add: sval_def)
    then show ?thesis using False bit_be_val[OF w, of n] by (auto simp: bit_of_nat_iff)
  qed
qed

lemma bit_replicate_ff: "bit (be_val (replicate 32 0xFF)) n \<longleftrightarrow> n < 256"
proof -
  have m: "(0xFF :: byte) = - 1" by simp
  have "w32 (replicate 32 0xFF)" by (simp add: w32_def)
  then show ?thesis by (simp add: bit_be_val m bit_minus_1_iff possible_bit_word)
qed

lemma u256_sar_val:
  assumes w: "w32 v"
  shows "w32 (u256_sar sh v) \<and> int (be_val (u256_sar sh v)) = (sval v div 2 ^ u256_to_u64 sh) mod 2 ^ 256"
proof -
  let ?s = "u256_to_u64 sh"
  have b: "bit (be_val (u256_sar sh v)) n \<longleftrightarrow> n < 256 \<and> (if n + ?s < 256 then bit (be_val v) (n + ?s) else is_negative v)" for n
  proof -
    consider "?s \<ge> 256" | "?s = 0" | "0 < ?s" "?s < 256" by linarith
    then show ?thesis
    proof cases
      case 1
      then show ?thesis using bit_replicate_ff[of n] by (auto simp: u256_sar_def)
    next
      case 2
      then show ?thesis using bit_be_val[OF w, of n] by (auto simp: u256_sar_def)
    next
      case 3
      have "w32 (u256_shr sh v)" using w32_shr[OF w] .
      then show ?thesis
        using 3 sign_fill_loop[of "u256_shr sh v" ?s n] bit_shr[OF w refl, of sh n] bit_be_val[OF w, of "n + ?s"]
        by (auto simp: u256_sar_def Let_def)
    qed
  qed
  have "int (be_val (u256_sar sh v)) = take_bit 256 (drop_bit ?s (sval v))"
    by (rule bit_eqI) (auto simp: bit_of_nat_iff b bit_take_bit_iff bit_drop_bit_eq bit_sval[OF w] add.commute)
  moreover have "w32 (u256_sar sh v)"
    using w w32_shr[OF w, of sh] sign_fill_loop[of "u256_shr sh v" ?s]
    by (auto simp: u256_sar_def Let_def w32_def zero32_def)
  ultimately show ?thesis by (simp add: take_bit_eq_mod drop_bit_eq_div)
qed

lemma signextend_wrong: "u256_signextend zero32 (replicate 31 0 @ [0x80]) = replicate 32 0xFF"
  by code_simp

lemma shift_truncated: "u256_shl (replicate 23 0 @ [1] @ replicate 8 0) (u256_from_u64 1) = u256_from_u64 1"
  by code_simp

lemma ff_val: "be_val (replicate n 0xFF) = 256 ^ n - 1"
proof (induction n)
  case (Suc n)
  have "(0 :: nat) < 256 ^ n" by simp
  then show ?case using Suc by (simp add: be_val_Cons)
qed simp

text \<open>
  The remainder loop drops the bit that leaves the 256 bits when the modulus exceeds \<open>2 ^ 255\<close>.
\<close>

lemma addmod_loses_carry:
  fixes a n defines "a \<equiv> replicate 31 0xFF @ [0xFE]" and "n \<equiv> replicate 32 (0xFF :: byte)"
  shows "be_val (u256_addmod a a n) = 2 ^ 256 - 4" "(be_val a + be_val a) mod be_val n = 2 ^ 256 - 3"
proof -
  let ?S = "2 ^ 257 - 4 :: nat"
  have w: "w32 a" "w32 n" by (simp_all add: a_def n_def w32_def)
  have n: "be_val n = 2 ^ 256 - 1" unfolding n_def ff_val by simp
  have a: "be_val a = 2 ^ 256 - 2" unfolding a_def by (simp add: ff_val)
  show "(be_val a + be_val a) mod be_val n = 2 ^ 256 - 3" unfolding a n by simp
  obtain c s where s: "add_bytes a a = (c, s)" by (cases "add_bytes a a")
  have v: "be_val s + c * 2 ^ 256 = ?S" "w32 s" "c \<le> 1"
    using add_bytes_val[OF _ s] w a by (simp_all add: w32_def base_power)
  have c: "c = 1" using v w32_less[OF v(2)] by (cases "c = 0") auto
  have c2: "be_val s = 2 ^ 256 - 4" using v(1) c by simp
  have one: "w32 (bring_bit zero32 1)" "be_val (bring_bit zero32 1) = 1" using bring_bit_val[of zero32 1] by simp_all
  let ?z = "reduce n (bring_bit zero32 1)" and ?r = "foldl (mod_step s n) (reduce n (bring_bit zero32 1)) [0 ..< 255]"
  have r0: "w32 ?z" "be_val ?z = ?S div 2 ^ 256 mod be_val n" using reduce_val[OF w(2) one(1)] n by (simp_all add: one(2))
  have r: "w32 ?r" "be_val ?r = 2 ^ 256 - 2"
    using mod_loop_inv[OF v(2) w(2) r0(1) _ _ r0(2), of 255] c2 n top_bits_fit[of ?S 257 _ "be_val n"]
    by (simp_all del: upt_conv_Cons)
  have b: "unat (bit_at s 255) = 0" using bit_at_val[OF v(2), of 255] c2 by simp
  have "be_val (mod_step s n ?r 255) = 2 ^ 256 - 4"
    using reduce_val(2)[OF w(2) bring_bit_val(1)[OF r(1)], of "bit_at s 255"] bring_bit_val(2)[OF r(1), of "bit_at s 255"]
    by (simp add: mod_step_def b r(2) n)
  moreover have "u256_addmod a a n = mod_step s n ?r 255"
  proof -
    have "[0 ..< 256] = [0 ..< 255] @ [255 :: nat]" using upt_Suc[of 0 255] by simp
    moreover have "\<not> u256_is_zero n" using n by (simp add: be_val_zero_iff[symmetric])
    ultimately show ?thesis by (simp add: u256_addmod_def s c del: upt_conv_Cons)
  qed
  ultimately show "be_val (u256_addmod a a n) = 2 ^ 256 - 4" by simp
qed


section \<open>The operations against integer arithmetic\<close>

text \<open>
  C32: on words of 32 bytes the unsigned operations are arithmetic modulo \<open>2 ^ 256\<close>: the byte-wise
  addition and subtraction, the limb multiplication, the bitwise long division and remainder
  (zero for a zero divisor) and the square-and-multiply exponentiation; comparison of the arrays is
  comparison of the numbers.
\<close>

theorem evm_unsigned_arithmetic:
  assumes "w32 a" "w32 b"
  shows "int (be_val (u256_add a b)) = (int (be_val a) + int (be_val b)) mod 2 ^ 256
    \<and> int (be_val (u256_sub a b)) = (int (be_val a) - int (be_val b)) mod 2 ^ 256
    \<and> be_val (u256_mul a b) = be_val a * be_val b mod 2 ^ 256
    \<and> be_val (u256_div a b) = be_val a div be_val b
    \<and> be_val (u256_mod a b) = (if be_val b = 0 then 0 else be_val a mod be_val b)
    \<and> be_val (u256_exp a b) = be_val a ^ be_val b mod 2 ^ 256
    \<and> (u256_lt a b \<longleftrightarrow> be_val a < be_val b) \<and> (u256_gt a b \<longleftrightarrow> be_val b < be_val a)
    \<and> (u256_is_zero a \<longleftrightarrow> be_val a = 0)"
proof (intro conjI)
  show "int (be_val (u256_add a b)) = (int (be_val a) + int (be_val b)) mod 2 ^ 256"
    using evm_add_val[OF assms] by (simp add: zmod_int)
  show "u256_lt a b \<longleftrightarrow> be_val a < be_val b" "u256_gt a b \<longleftrightarrow> be_val b < be_val a"
    using assms u256_lt_val[of a b] u256_lt_val[of b a] by (simp_all add: w32_def u256_gt_def)
  show "u256_is_zero a \<longleftrightarrow> be_val a = 0" by (simp add: be_val_zero_iff)
qed (use assms in \<open>simp_all add: evm_sub_val evm_mul_val u256_div_val u256_mod_val u256_exp_val\<close>)

theorem evm_unsigned_arithmetic_witness:
  "be_val (u256_mul (u256_from_u64 7) (u256_from_u64 6)) = 42 \<and> be_val (u256_div (u256_from_u64 43) (u256_from_u64 6)) = 7
   \<and> be_val (u256_exp (u256_from_u64 3) (u256_from_u64 4)) = 81"
  using evm_unsigned_arithmetic[OF from_u64_val(1) from_u64_val(1), of 7 6]
    evm_unsigned_arithmetic[OF from_u64_val(1) from_u64_val(1), of 43 6]
    evm_unsigned_arithmetic[OF from_u64_val(1) from_u64_val(1), of 3 4]
  by (simp add: from_u64_val)



text \<open>
  ADDMOD and MULMOD reduce the exact sum and product, beyond 256 bits, for every modulus up to
  \<open>2 ^ 255\<close>, and to zero for a zero modulus.
\<close>

theorem evm_modular_arithmetic:
  assumes "w32 a" "w32 b" "w32 n" "be_val n \<le> 2 ^ 255"
  shows "be_val (u256_addmod a b n) = (if be_val n = 0 then 0 else (be_val a + be_val b) mod be_val n)
    \<and> be_val (u256_mulmod a b n) = (if be_val n = 0 then 0 else be_val a * be_val b mod be_val n)"
  using u256_addmod_val[OF assms(1-3)] u256_mulmod_val[OF assms] assms(4) by simp

theorem evm_modular_arithmetic_witness:
  "be_val (u256_mulmod (replicate 32 0xFF) (replicate 32 0xFF) (u256_from_u64 10)) = 5"
proof -
  have "w32 (replicate 32 0xFF)" by (simp add: w32_def)
  moreover have "be_val (replicate 32 0xFF) = 2 ^ 256 - 1" unfolding ff_val by simp
  moreover have "be_val (u256_from_u64 10) = 10" by (simp add: from_u64_val)
  ultimately show ?thesis
    using evm_modular_arithmetic[of "replicate 32 0xFF" "replicate 32 0xFF" "u256_from_u64 10"] from_u64_val(1) by simp
qed

text \<open>
  The logical shifts multiply and divide by a power of two; the shift distance is read from the low
  64 bits of its word only, so a distance of \<open>2 ^ 64\<close> shifts by nothing (\<open>shift_truncated\<close>).
\<close>

theorem evm_logical_shifts:
  assumes "w32 sh" "w32 v"
  shows "be_val (u256_shl sh v) = be_val v * 2 ^ (be_val sh mod 2 ^ 64) mod 2 ^ 256
    \<and> be_val (u256_shr sh v) = be_val v div 2 ^ (be_val sh mod 2 ^ 64)"
  using u256_shl_val[OF assms(2), of sh] u256_shr_val[OF assms(2), of sh] to_u64_val[OF assms(1)] by simp

end
