(* ===== verification/Evm_Host.thy ===== *)
theory Evm_Host
  imports Evm_Word
begin

text \<open>
  What the EVM interpreter works on: its errors (\<^verbatim>\<open>zbx-evm/src/error.rs\<close>), the gas schedule
  (\<^verbatim>\<open>gas.rs\<close>, \<^verbatim>\<open>opcodes.rs\<close>), the byte-addressed memory (\<^verbatim>\<open>memory.rs\<close>) and the host that holds the
  accounts (\<^verbatim>\<open>host.rs\<close>). The trait \<^verbatim>\<open>Host\<close> is a record of functions over a host state; \<open>mock_host\<close> and
  its operations are the implementation the crate has, which the executor and the call simulation
  of the RPC server use. An opcode is its byte, as in the \<^verbatim>\<open>repr(u8)\<close> enum.

  What the interpreter relies on, that the newest snapshot can be reverted or committed and that
  values are words of 32 bytes, is stated as locales in Evm\_Safety and Evm\_Types and shown there for
  \<open>mock_host\<close>.
\<close>

section \<open>Errors and gas\<close>

datatype evm_error =
    OutOfGas | StackUnderflow | StackOverflow | InvalidOpcode byte | InvalidJump usize
  | MemoryOutOfBounds usize usize | WriteProtection | Revert string | Precompile string
  | CallDepthExceeded | StaticStateChange | InsufficientBalance | NonceOverflow
  | InitcodeOversize usize | InvalidDeployedCodePrefix | CreateCollision

named_theorems gas_consts \<open>the constants of the gas schedule\<close>

definition GAS_BASE :: u64 where [gas_consts]: "GAS_BASE = 2"
definition GAS_VERY_LOW :: u64 where [gas_consts]: "GAS_VERY_LOW = 3"
definition GAS_LOW :: u64 where [gas_consts]: "GAS_LOW = 5"
definition GAS_MID :: u64 where [gas_consts]: "GAS_MID = 8"
definition GAS_HIGH :: u64 where [gas_consts]: "GAS_HIGH = 10"
definition GAS_JUMPDEST :: u64 where [gas_consts]: "GAS_JUMPDEST = 1"
definition GAS_SLOAD_WARM :: u64 where [gas_consts]: "GAS_SLOAD_WARM = 100"
definition GAS_SLOAD_COLD :: u64 where [gas_consts]: "GAS_SLOAD_COLD = 2100"
definition GAS_SSTORE_SET :: u64 where [gas_consts]: "GAS_SSTORE_SET = 20000"
definition GAS_SSTORE_RESET :: u64 where [gas_consts]: "GAS_SSTORE_RESET = 2900"
definition GAS_SSTORE_DIRTY :: u64 where [gas_consts]: "GAS_SSTORE_DIRTY = 200"
definition GAS_CALL :: u64 where [gas_consts]: "GAS_CALL = 100"
definition GAS_CREATE :: u64 where [gas_consts]: "GAS_CREATE = 32000"
definition GAS_SHA3 :: u64 where [gas_consts]: "GAS_SHA3 = 30"
definition GAS_SHA3_WORD :: u64 where [gas_consts]: "GAS_SHA3_WORD = 6"
definition GAS_COPY_WORD :: u64 where [gas_consts]: "GAS_COPY_WORD = 3"
definition GAS_LOG_BASE :: u64 where [gas_consts]: "GAS_LOG_BASE = 375"
definition GAS_LOG_DATA :: u64 where [gas_consts]: "GAS_LOG_DATA = 8"
definition GAS_LOG_TOPIC :: u64 where [gas_consts]: "GAS_LOG_TOPIC = 375"
definition GAS_COLD_ACCOUNT_ACCESS :: u64 where [gas_consts]: "GAS_COLD_ACCOUNT_ACCESS = 2500"
definition GAS_CALL_VALUE_TRANSFER :: u64 where [gas_consts]: "GAS_CALL_VALUE_TRANSFER = 9000"
definition GAS_NEW_ACCOUNT :: u64 where [gas_consts]: "GAS_NEW_ACCOUNT = 25000"
definition GAS_CALL_STIPEND :: u64 where [gas_consts]: "GAS_CALL_STIPEND = 2300"
definition CALL_DEPTH_LIMIT :: usize where [gas_consts]: "CALL_DEPTH_LIMIT = 1024"
definition GAS_INITCODE_WORD :: u64 where [gas_consts]: "GAS_INITCODE_WORD = 2"
definition GAS_CODE_DEPOSIT_PER_BYTE :: u64 where [gas_consts]: "GAS_CODE_DEPOSIT_PER_BYTE = 200"
definition GAS_SELFDESTRUCT :: u64 where [gas_consts]: "GAS_SELFDESTRUCT = 5000"
definition MAX_INITCODE_SIZE :: usize where "MAX_INITCODE_SIZE = 49152"
definition MAX_CONTRACT_CODE_SIZE :: usize where "MAX_CONTRACT_CODE_SIZE = 24576"

definition words_of :: "u64 \<Rightarrow> u64" where
  "words_of size_bytes = wrap_add 64 size_bytes 31 div 32"

definition memory_cost :: "u64 \<Rightarrow> u128" where
  "memory_cost n = sat_add 128 (sat_mul 128 3 n) (sat_mul 128 n n div 512)"

definition memory_expansion_cost :: "u64 \<Rightarrow> u64 \<Rightarrow> u64" where
  "memory_expansion_cost old_words new_words =
     (let diff = memory_cost new_words - memory_cost old_words in if diff > umax 64 then umax 64 else diff)"

definition copy_cost :: "u64 \<Rightarrow> u64" where
  "copy_cost size_bytes = wrap_mul 64 GAS_COPY_WORD (words_of size_bytes)"

definition sha3_cost :: "u64 \<Rightarrow> u64" where
  "sha3_cost size_bytes = wrap_add 64 GAS_SHA3 (wrap_mul 64 GAS_SHA3_WORD (words_of size_bytes))"

definition log_cost :: "u64 \<Rightarrow> u64 \<Rightarrow> u64" where
  "log_cost data_size topic_count =
     wrap_add 64 (wrap_add 64 GAS_LOG_BASE (wrap_mul 64 GAS_LOG_DATA data_size)) (wrap_mul 64 GAS_LOG_TOPIC topic_count)"

definition forward_gas_eip150 :: "u64 \<Rightarrow> u64 \<Rightarrow> u64" where
  "forward_gas_eip150 gas requested = min requested (gas - gas div 64)"

section \<open>Opcodes\<close>

text \<open>The bytes that \<open>from_u8\<close> maps to an opcode.\<close>

definition opcode_defined :: "nat \<Rightarrow> bool" where
  "opcode_defined b \<longleftrightarrow> b \<le> 0x0b \<or> 0x10 \<le> b \<and> b \<le> 0x1d \<or> b = 0x20 \<or> 0x30 \<le> b \<and> b \<le> 0x48
     \<or> 0x50 \<le> b \<and> b \<le> 0x5b \<or> 0x5f \<le> b \<and> b \<le> 0x9f \<or> 0xa0 \<le> b \<and> b \<le> 0xa4
     \<or> 0xf0 \<le> b \<and> b \<le> 0xf5 \<or> b = 0xfa \<or> 0xfd \<le> b \<and> b \<le> 0xff"

definition static_gas :: "nat \<Rightarrow> u64" where
  "static_gas b =
     (if b \<in> {0x00, 0xf3, 0xfd} then 0
      else if b \<in> {0x20, 0xa0, 0xa1, 0xa2, 0xa3, 0xa4} then 0
      else if b \<in> {0x02, 0x04, 0x05, 0x06, 0x07, 0x0b} then GAS_LOW
      else if b \<in> {0x08, 0x09, 0x56} then GAS_MID
      else if b = 0x0a then 0
      else if b \<in> {0x57, 0x40} then GAS_HIGH
      else if b = 0x5b then GAS_JUMPDEST
      else if b \<in> {0x31, 0x47, 0x32, 0x3b, 0x3f, 0x54, 0x3c} then GAS_SLOAD_WARM
      else if b = 0x55 then 0
      else if b \<in> {0xf0, 0xf5} then GAS_CREATE
      else if b \<in> {0xf1, 0xf2, 0xf4, 0xfa} then GAS_CALL
      else if b \<in> {0xff, 0xfe} then 0
      else GAS_VERY_LOW)"

section \<open>Memory\<close>

definition MAX_MEMORY :: usize where
  "MAX_MEMORY = 32 * 1024 * 1024"

definition memory_ensure :: "byte list \<Rightarrow> usize \<Rightarrow> usize \<Rightarrow> (evm_error, u64) res \<times> byte list" where
  "memory_ensure m offset sz =
     (if sz = 0 then (Ok 0, m)
      else case checked_add 64 offset sz of
        None \<Rightarrow> (Err (MemoryOutOfBounds offset sz), m)
      | Some e \<Rightarrow>
         (if e > MAX_MEMORY then (Err (MemoryOutOfBounds offset sz), m)
          else let old_words = (length m + 31) div 32; new_words = (e + 31) div 32 in
            if new_words > old_words
            then (Ok (memory_expansion_cost old_words new_words), m @ replicate (new_words * 32 - length m) 0)
            else (Ok 0, m)))"

definition memory_read :: "byte list \<Rightarrow> usize \<Rightarrow> usize \<Rightarrow> (evm_error, byte list) res" where
  "memory_read m offset sz =
     (if offset \<ge> length m then Ok (replicate sz 0)
      else bind_res (slice m offset (min (wrap_add 64 offset sz) (length m))) (\<lambda>out.
           Ok (take sz (out @ replicate sz 0))))"

definition memory_write :: "byte list \<Rightarrow> usize \<Rightarrow> byte list \<Rightarrow> (evm_error, byte list) res" where
  "memory_write m offset data =
     (if data = [] then Ok m
      else let e = sat_add 64 offset (length data) in
        if e > MAX_MEMORY then Panic
        else let m1 = m @ replicate (e - length m) 0 in Ok (take offset m1 @ data @ drop e m1))"

section \<open>The host\<close>

record mock_account =
  abalance :: word32
  anonce :: u64
  acode :: "byte list"
  astorage :: "word32 \<rightharpoonup> word32"

definition default_account :: mock_account where
  "default_account = \<lparr>abalance = zero32, anonce = 0, acode = [], astorage = Map.empty\<rparr>"

record mock_snapshot =
  snap_id :: u64
  snap_accounts :: "address \<rightharpoonup> mock_account"
  snap_created :: "address set"

text \<open>The vector of snapshots is kept with its newest element first.\<close>

record mock_host =
  accounts :: "address \<rightharpoonup> mock_account"
  created_this_tx :: "address set"
  snapshots :: "mock_snapshot list"
  next_snapshot_id :: u64
  block_hashes :: "u64 \<rightharpoonup> word32"

definition mock_new :: mock_host where
  "mock_new = \<lparr>accounts = Map.empty, created_this_tx = {}, snapshots = [], next_snapshot_id = 1, block_hashes = Map.empty\<rparr>"

definition account :: "mock_host \<Rightarrow> address \<Rightarrow> mock_account" where
  "account h a = (case accounts h a of Some x \<Rightarrow> x | None \<Rightarrow> default_account)"

text \<open>\<open>entry(a).or_default()\<close>, updated.\<close>

definition with_entry :: "mock_host \<Rightarrow> address \<Rightarrow> (mock_account \<Rightarrow> mock_account) \<Rightarrow> mock_host" where
  "with_entry h a f = h\<lparr>accounts := (accounts h)(a \<mapsto> f (account h a))\<rparr>"

definition mock_balance :: "mock_host \<Rightarrow> address \<Rightarrow> word32" where
  "mock_balance h a = abalance (account h a)"

definition mock_nonce :: "mock_host \<Rightarrow> address \<Rightarrow> u64" where
  "mock_nonce h a = anonce (account h a)"

definition mock_code :: "mock_host \<Rightarrow> address \<Rightarrow> byte list" where
  "mock_code h a = acode (account h a)"

definition mock_code_hash :: "(byte list \<Rightarrow> h256) \<Rightarrow> mock_host \<Rightarrow> address \<Rightarrow> word32" where
  "mock_code_hash K h a = (let c = mock_code h a in if c = [] then zero32 else h256_bytes (K c))"

definition mock_storage_load :: "mock_host \<Rightarrow> address \<Rightarrow> word32 \<Rightarrow> word32" where
  "mock_storage_load h a key = (case astorage (account h a) key of Some v \<Rightarrow> v | None \<Rightarrow> zero32)"

definition mock_storage_store :: "mock_host \<Rightarrow> address \<Rightarrow> word32 \<Rightarrow> word32 \<Rightarrow> mock_host" where
  "mock_storage_store h a key v = with_entry h a (\<lambda>x. x\<lparr>astorage := (astorage x)(key \<mapsto> v)\<rparr>)"

definition mock_set_code :: "mock_host \<Rightarrow> address \<Rightarrow> byte list \<Rightarrow> mock_host" where
  "mock_set_code h a c = with_entry h a (\<lambda>x. x\<lparr>acode := c\<rparr>)"

definition mock_credit :: "mock_host \<Rightarrow> address \<Rightarrow> word32 \<Rightarrow> mock_host" where
  "mock_credit h a v = with_entry h a (\<lambda>x. x\<lparr>abalance := u256_add (abalance x) v\<rparr>)"

definition mock_inc_nonce :: "mock_host \<Rightarrow> address \<Rightarrow> (evm_error, u64) res \<times> mock_host" where
  "mock_inc_nonce h a =
     (let h1 = with_entry h a (\<lambda>x. x) in
      case checked_add 64 (mock_nonce h a) 1 of
        None \<Rightarrow> (Err NonceOverflow, h1)
      | Some n \<Rightarrow> (Ok n, with_entry h1 a (\<lambda>x. x\<lparr>anonce := n\<rparr>)))"

definition mock_transfer :: "mock_host \<Rightarrow> address \<Rightarrow> address \<Rightarrow> word32 \<Rightarrow> (evm_error, unit) res \<times> mock_host" where
  "mock_transfer h src dst v =
     (if v = zero32 then (Ok (), h)
      else let from_bal = mock_balance h src in
       if u256_lt from_bal v then (Err InsufficientBalance, h)
       else let new_from_bal = u256_sub from_bal v; new_to_bal = u256_add (mock_balance h dst) v;
                h1 = with_entry h src (\<lambda>x. x\<lparr>abalance := new_from_bal\<rparr>)
            in (Ok (), with_entry h1 dst (\<lambda>x. x\<lparr>abalance := new_to_bal\<rparr>)))"

definition mock_is_empty :: "mock_host \<Rightarrow> address \<Rightarrow> bool" where
  "mock_is_empty h a =
     (case accounts h a of None \<Rightarrow> True | Some x \<Rightarrow> anonce x = 0 \<and> abalance x = zero32 \<and> acode x = [])"

definition mock_destruct :: "mock_host \<Rightarrow> address \<Rightarrow> address \<Rightarrow> mock_host" where
  "mock_destruct h a beneficiary =
     (let bal = mock_balance h a;
          h1 = (if bal \<noteq> zero32 \<and> a \<noteq> beneficiary then snd (mock_transfer h a beneficiary bal) else h)
      in if a \<in> created_this_tx h1 \<and> accounts h1 a \<noteq> None
         then h1\<lparr>accounts := (accounts h1)(a \<mapsto> \<lparr>abalance = zero32, anonce = 0, acode = [], astorage = Map.empty\<rparr>)\<rparr>
         else h1)"

definition mock_mark_created :: "mock_host \<Rightarrow> address \<Rightarrow> mock_host" where
  "mock_mark_created h a = h\<lparr>created_this_tx := insert a (created_this_tx h)\<rparr>"

definition mock_block_hash :: "mock_host \<Rightarrow> u64 \<Rightarrow> word32" where
  "mock_block_hash h n = (case block_hashes h n of Some v \<Rightarrow> v | None \<Rightarrow> zero32)"

definition mock_snapshot_take :: "mock_host \<Rightarrow> u64 \<times> mock_host" where
  "mock_snapshot_take h =
     (let i = next_snapshot_id h in
      (i, h\<lparr>next_snapshot_id := wrap_add 64 i 1,
            snapshots := \<lparr>snap_id = i, snap_accounts = accounts h, snap_created = created_this_tx h\<rparr> # snapshots h\<rparr>))"

definition mock_revert_to :: "mock_host \<Rightarrow> u64 \<Rightarrow> mock_host" where
  "mock_revert_to h i =
     (case dropWhile (\<lambda>s. snap_id s \<noteq> i) (snapshots h) of
        [] \<Rightarrow> h
      | s # below \<Rightarrow> h\<lparr>snapshots := below, accounts := snap_accounts s, created_this_tx := snap_created s\<rparr>)"

definition mock_commit :: "mock_host \<Rightarrow> u64 \<Rightarrow> mock_host" where
  "mock_commit h i =
     (case dropWhile (\<lambda>s. snap_id s \<noteq> i) (snapshots h) of
        [] \<Rightarrow> h
      | s # below \<Rightarrow> h\<lparr>snapshots := takeWhile (\<lambda>s. snap_id s \<noteq> i) (snapshots h) @ below\<rparr>)"

section \<open>The host as an interface\<close>

text \<open>
  The trait's methods, with the hash function and the precompiled contracts, which read the host
  and return an output and the gas they used or fail.
\<close>

record 'h evm_env =
  h_balance :: "'h \<Rightarrow> address \<Rightarrow> word32"
  h_nonce :: "'h \<Rightarrow> address \<Rightarrow> u64"
  h_code :: "'h \<Rightarrow> address \<Rightarrow> byte list"
  h_code_hash :: "'h \<Rightarrow> address \<Rightarrow> word32"
  h_storage_load :: "'h \<Rightarrow> address \<Rightarrow> word32 \<Rightarrow> word32"
  h_storage_store :: "'h \<Rightarrow> address \<Rightarrow> word32 \<Rightarrow> word32 \<Rightarrow> 'h"
  h_set_code :: "'h \<Rightarrow> address \<Rightarrow> byte list \<Rightarrow> 'h"
  h_inc_nonce :: "'h \<Rightarrow> address \<Rightarrow> (evm_error, u64) res \<times> 'h"
  h_transfer :: "'h \<Rightarrow> address \<Rightarrow> address \<Rightarrow> word32 \<Rightarrow> (evm_error, unit) res \<times> 'h"
  h_is_empty :: "'h \<Rightarrow> address \<Rightarrow> bool"
  h_destruct :: "'h \<Rightarrow> address \<Rightarrow> address \<Rightarrow> 'h"
  h_mark_created :: "'h \<Rightarrow> address \<Rightarrow> 'h"
  h_block_hash :: "'h \<Rightarrow> u64 \<Rightarrow> word32"
  h_snapshot :: "'h \<Rightarrow> u64 \<times> 'h"
  h_revert_to :: "'h \<Rightarrow> u64 \<Rightarrow> 'h"
  h_commit :: "'h \<Rightarrow> u64 \<Rightarrow> 'h"
  keccak :: "byte list \<Rightarrow> h256"
  precompile :: "'h \<Rightarrow> u64 \<Rightarrow> address \<Rightarrow> byte list \<Rightarrow> u64 \<Rightarrow> (byte list \<times> u64) option"

definition mock_env ::
  "(byte list \<Rightarrow> h256) \<Rightarrow> (mock_host \<Rightarrow> u64 \<Rightarrow> address \<Rightarrow> byte list \<Rightarrow> u64 \<Rightarrow> (byte list \<times> u64) option) \<Rightarrow> mock_host evm_env" where
  "mock_env K pre =
     \<lparr>h_balance = mock_balance, h_nonce = mock_nonce, h_code = mock_code, h_code_hash = mock_code_hash K,
      h_storage_load = mock_storage_load, h_storage_store = mock_storage_store, h_set_code = mock_set_code,
      h_inc_nonce = mock_inc_nonce, h_transfer = mock_transfer, h_is_empty = mock_is_empty,
      h_destruct = mock_destruct, h_mark_created = mock_mark_created, h_block_hash = mock_block_hash,
      h_snapshot = mock_snapshot_take, h_revert_to = mock_revert_to, h_commit = mock_commit,
      keccak = K, precompile = pre\<rparr>"

end
