(* ===== verification/Evm.thy ===== *)
theory Evm
  imports Evm_Host
begin

text \<open>
  The EVM interpreter, \<^verbatim>\<open>zbx-evm/src/interpreter.rs\<close>. An operation is a function from the
  interpreter's state to a result and the state it leaves, or nothing when it does not return;
  \<open>bnd\<close> is sequencing with \<^verbatim>\<open>?\<close>. The arms of the match in \<open>step\<close> are grouped by range of opcodes, one
  definition each. A nested call runs an interpreter of its own on the same host: \<open>do_call\<close> and
  \<open>do_create\<close> take the run of the callee as an argument, and \<open>run\<close> ties the knot. The stack is kept
  with its top first.
\<close>

section \<open>State\<close>

datatype exit_status = Succeeded | Reverted | Failed evm_error

record evm_context =
  caller :: address
  callee :: address
  cvalue :: word32
  calldata :: "byte list"
  gas_limit :: u64
  is_static :: bool
  block_number :: u64
  timestamp :: u64
  coinbase :: address
  base_fee :: u64
  gas_price :: u64
  tx_origin :: address
  chain_id :: u64
  randao_mix :: word32

definition CHAIN_ID :: u64 where
  "CHAIN_ID = 8989"

definition effective_chain_id :: "evm_context \<Rightarrow> u64" where
  "effective_chain_id c = (if chain_id c = 0 then CHAIN_ID else chain_id c)"

definition MAX_RETURN_DATA :: usize where
  "MAX_RETURN_DATA = 1024 * 1024"

definition MAX_STACK :: usize where
  "MAX_STACK = 1024"

record evm_log =
  log_address :: address
  log_topics :: "word32 list"
  log_data :: "byte list"

record call_frame =
  frame_snapshot :: u64
  gas_at_entry :: u64
  created_address :: "address option"

datatype call_kind = Call | CallCode | DelegateCall | StaticCall

record 'h interp =
  ctx :: evm_context
  code :: "byte list"
  jumpdests :: "byte list"
  pc :: usize
  stack :: "word32 list"
  memory :: "byte list"
  gas_remaining :: u64
  return_data :: "byte list"
  host :: 'h
  frames :: "call_frame list"
  warm_addresses :: "address set"
  warm_storage :: "(address \<times> word32) set"
  logs :: "evm_log list"

type_synonym ('h, 'a) evm = "'h interp \<Rightarrow> ((evm_error, 'a) res \<times> 'h interp) option"

section \<open>Sequencing\<close>

definition ret :: "'a \<Rightarrow> ('h, 'a) evm" where
  "ret x s = Some (Ok x, s)"

definition fail :: "evm_error \<Rightarrow> ('h, 'a) evm" where
  "fail e s = Some (Err e, s)"

definition lift :: "(evm_error, 'a) res \<Rightarrow> ('h, 'a) evm" where
  "lift r s = Some (r, s)"

definition gets :: "('h interp \<Rightarrow> 'a) \<Rightarrow> ('h, 'a) evm" where
  "gets f s = Some (Ok (f s), s)"

definition upd :: "('h interp \<Rightarrow> 'h interp) \<Rightarrow> ('h, unit) evm" where
  "upd f s = Some (Ok (), f s)"

definition bnd :: "('h, 'a) evm \<Rightarrow> ('a \<Rightarrow> ('h, 'b) evm) \<Rightarrow> ('h, 'b) evm" where
  "bnd m k s = Option.bind (m s) (\<lambda>(r, t). case r of Ok x \<Rightarrow> k x t | Err e \<Rightarrow> Some (Err e, t) | Panic \<Rightarrow> Some (Panic, t))"

section \<open>Stack, gas, memory\<close>

definition push :: "word32 \<Rightarrow> ('h, unit) evm" where
  "push v = bnd (gets stack) (\<lambda>st.
     if length st \<ge> MAX_STACK then fail StackOverflow else upd (\<lambda>s. s\<lparr>stack := v # st\<rparr>))"

definition pop :: "('h, word32) evm" where
  "pop = bnd (gets stack) (\<lambda>st. case st of [] \<Rightarrow> fail StackUnderflow | v # vs \<Rightarrow> bnd (upd (\<lambda>s. s\<lparr>stack := vs\<rparr>)) (\<lambda>_. ret v))"

definition peek :: "usize \<Rightarrow> ('h, word32) evm" where
  "peek depth = bnd (gets stack) (\<lambda>st. if depth \<ge> length st then fail StackUnderflow else ret (st ! depth))"

definition swap :: "usize \<Rightarrow> ('h, unit) evm" where
  "swap depth = bnd (gets stack) (\<lambda>st.
     if depth \<ge> length st then fail StackUnderflow
     else upd (\<lambda>s. s\<lparr>stack := st[0 := st ! depth, depth := st ! 0]\<rparr>))"

definition dup :: "usize \<Rightarrow> ('h, unit) evm" where
  "dup depth = bnd (peek (depth - 1)) push"

definition consume_gas :: "u64 \<Rightarrow> ('h, unit) evm" where
  "consume_gas amount = bnd (gets gas_remaining) (\<lambda>g.
     if g < amount then fail OutOfGas else upd (\<lambda>s. s\<lparr>gas_remaining := g - amount\<rparr>))"

definition refund_gas :: "u64 \<Rightarrow> ('h, unit) evm" where
  "refund_gas amount = upd (\<lambda>s. s\<lparr>gas_remaining := sat_add 64 (gas_remaining s) amount\<rparr>)"

definition gas_used :: "'h interp \<Rightarrow> u64" where
  "gas_used s = gas_limit (ctx s) - gas_remaining s"

definition pop_u64 :: "('h, u64) evm" where
  "pop_u64 = bnd pop (\<lambda>w. ret (u256_to_u64 w))"

definition pop_address :: "('h, address) evm" where
  "pop_address = bnd pop (\<lambda>w. ret (of_nat (be_val (drop 12 w))))"

definition address_word :: "address \<Rightarrow> word32" where
  "address_word a = replicate 12 0 @ addr_bytes a"

text \<open>\<open>memory.ensure\<close>, then paying for the expansion.\<close>

definition ensure :: "usize \<Rightarrow> usize \<Rightarrow> ('h, u64) evm" where
  "ensure offset n = (\<lambda>s. case memory_ensure (memory s) offset n of (r, m) \<Rightarrow> Some (r, s\<lparr>memory := m\<rparr>))"

definition expand :: "usize \<Rightarrow> usize \<Rightarrow> ('h, unit) evm" where
  "expand offset n = bnd (ensure offset n) consume_gas"

definition read_mem :: "usize \<Rightarrow> usize \<Rightarrow> ('h, byte list) evm" where
  "read_mem offset n = bnd (gets memory) (\<lambda>m. lift (memory_read m offset n))"

definition write_mem :: "usize \<Rightarrow> byte list \<Rightarrow> ('h, unit) evm" where
  "write_mem offset data = bnd (gets memory) (\<lambda>m. bnd (lift (memory_write m offset data)) (\<lambda>m1. upd (\<lambda>s. s\<lparr>memory := m1\<rparr>)))"

text \<open>The warm/cold charge for touching an account.\<close>

definition touch :: "address \<Rightarrow> ('h, unit) evm" where
  "touch a = bnd (gets warm_addresses) (\<lambda>w.
     if a \<in> w then ret ()
     else bnd (consume_gas GAS_COLD_ACCOUNT_ACCESS) (\<lambda>_. upd (\<lambda>s. s\<lparr>warm_addresses := insert a w\<rparr>)))"

definition touch_slot :: "address \<times> word32 \<Rightarrow> ('h, unit) evm" where
  "touch_slot slot = bnd (gets warm_storage) (\<lambda>w.
     if slot \<in> w then ret ()
     else bnd (consume_gas (GAS_SLOAD_COLD - GAS_SLOAD_WARM)) (\<lambda>_. upd (\<lambda>s. s\<lparr>warm_storage := insert slot w\<rparr>)))"

section \<open>Jump destinations\<close>

function bitmap_loop :: "byte list \<Rightarrow> byte list \<Rightarrow> usize \<Rightarrow> byte list" where
  "bitmap_loop cd bm p =
     (if p < length cd
      then let op = unat (cd ! p) in
        if op = 0x5b then bitmap_loop cd (bm[p div 8 := or (bm ! (p div 8)) (push_bit (p mod 8) 1)]) (p + 1)
        else if 0x60 \<le> op \<and> op \<le> 0x7f then bitmap_loop cd bm (p + 1 + (op - 0x5f))
        else bitmap_loop cd bm (p + 1)
      else bm)"
  by auto

termination
  by (relation "measure (\<lambda>(cd, bm, p). length cd - p)") auto

declare bitmap_loop.simps [simp del]

definition build_jumpdest_bitmap :: "byte list \<Rightarrow> byte list" where
  "build_jumpdest_bitmap cd = bitmap_loop cd (replicate ((length cd + 7) div 8) 0) 0"

definition is_valid_jumpdest :: "'h interp \<Rightarrow> usize \<Rightarrow> bool" where
  "is_valid_jumpdest s dest \<longleftrightarrow> dest < length (code s) \<and> and (jumpdests s ! (dest div 8)) (push_bit (dest mod 8) 1) \<noteq> 0"

definition interp_new :: "evm_context \<Rightarrow> byte list \<Rightarrow> 'h \<Rightarrow> 'h interp" where
  "interp_new c cd h =
     \<lparr>ctx = c, code = cd, jumpdests = build_jumpdest_bitmap cd, pc = 0, stack = [], memory = [],
      gas_remaining = gas_limit c, return_data = [], host = h, frames = [],
      warm_addresses = {caller c, callee c, coinbase c} \<union> {1, 2, 3, 4, 5, 6, 7, 8, 9}, warm_storage = {}, logs = []\<rparr>"

section \<open>Arithmetic, comparison, bits\<close>

definition unary :: "(word32 \<Rightarrow> word32) \<Rightarrow> ('h, unit) evm" where
  "unary f = bnd pop (\<lambda>a. push (f a))"

definition binary :: "(word32 \<Rightarrow> word32 \<Rightarrow> word32) \<Rightarrow> ('h, unit) evm" where
  "binary f = bnd pop (\<lambda>a. bnd pop (\<lambda>b. push (f a b)))"

definition ternary :: "(word32 \<Rightarrow> word32 \<Rightarrow> word32 \<Rightarrow> word32) \<Rightarrow> ('h, unit) evm" where
  "ternary f = bnd pop (\<lambda>a. bnd pop (\<lambda>b. bnd pop (\<lambda>n. push (f a b n))))"

definition truth :: "bool \<Rightarrow> word32" where
  "truth b = u256_from_u64 (if b then 1 else 0)"

definition exec_arith :: "nat \<Rightarrow> ('h, unit) evm" where
  "exec_arith op =
     (if op = 0x01 then binary u256_add
      else if op = 0x02 then binary u256_mul
      else if op = 0x03 then binary u256_sub
      else if op = 0x04 then binary u256_div
      else if op = 0x05 then binary u256_sdiv
      else if op = 0x06 then binary u256_mod
      else if op = 0x07 then binary u256_smod
      else if op = 0x08 then ternary u256_addmod
      else if op = 0x09 then ternary u256_mulmod
      else if op = 0x0a then
        bnd pop (\<lambda>base. bnd pop (\<lambda>e. bnd (consume_gas (10 + 50 * u256_byte_len e)) (\<lambda>_. push (u256_exp base e))))
      else binary u256_signextend)"

definition exec_compare :: "nat \<Rightarrow> ('h, unit) evm" where
  "exec_compare op =
     (if op = 0x10 then binary (\<lambda>a b. truth (u256_lt a b))
      else if op = 0x11 then binary (\<lambda>a b. truth (u256_gt a b))
      else if op = 0x12 then binary (\<lambda>a b. truth (u256_slt a b))
      else if op = 0x13 then binary (\<lambda>a b. truth (u256_sgt a b))
      else if op = 0x14 then binary (\<lambda>a b. truth (a = b))
      else if op = 0x15 then unary (\<lambda>a. truth (u256_is_zero a))
      else if op = 0x16 then binary u256_and
      else if op = 0x17 then binary u256_or
      else if op = 0x18 then binary u256_xor
      else if op = 0x19 then unary u256_not
      else if op = 0x1a then binary u256_byte
      else if op = 0x1b then binary u256_shl
      else if op = 0x1c then binary u256_shr
      else binary u256_sar)"

definition exec_sha3 :: "'h evm_env \<Rightarrow> ('h, unit) evm" where
  "exec_sha3 E = bnd pop_u64 (\<lambda>offset. bnd pop_u64 (\<lambda>n.
     bnd (expand offset n) (\<lambda>_. bnd (consume_gas (sha3_cost n)) (\<lambda>_.
     bnd (read_mem offset n) (\<lambda>data. push (h256_bytes (keccak E data)))))))"


section \<open>Environment and block information\<close>

definition push_ctx :: "(evm_context \<Rightarrow> word32) \<Rightarrow> ('h, unit) evm" where
  "push_ctx f = bnd (gets (\<lambda>s. f (ctx s))) push"

text \<open>The copy instructions: the source is read from the offset on, padded with zeros.\<close>

definition copy_padded :: "byte list \<Rightarrow> usize \<Rightarrow> usize \<Rightarrow> (evm_error, byte list) res" where
  "copy_padded data src n =
     (let copy_len = min (length data - src) n
      in bind_res (slice data src (src + copy_len)) (\<lambda>chunk. Ok (chunk @ replicate (n - copy_len) 0)))"

definition copy_to_mem :: "('h interp \<Rightarrow> byte list) \<Rightarrow> usize \<Rightarrow> usize \<Rightarrow> usize \<Rightarrow> ('h, unit) evm" where
  "copy_to_mem source dest src n =
     bnd (expand dest n) (\<lambda>_. bnd (consume_gas (copy_cost n)) (\<lambda>_.
     if n > 0
     then bnd (gets source) (\<lambda>data. bnd (lift (copy_padded data src n)) (\<lambda>buf. write_mem dest buf))
     else ret ()))"

definition calldata_word :: "byte list \<Rightarrow> usize \<Rightarrow> word32" where
  "calldata_word data offset =
     (let len = min (length data - offset) 32 in
      if len > 0 then take len (drop offset data) @ replicate (32 - len) 0 else zero32)"

definition returndata_copy :: "usize \<Rightarrow> usize \<Rightarrow> usize \<Rightarrow> ('h, unit) evm" where
  "returndata_copy dest off n =
     bnd (gets return_data) (\<lambda>rd.
     case checked_add 64 off n of
       None \<Rightarrow> fail (MemoryOutOfBounds off n)
     | Some e \<Rightarrow>
        if e > length rd then fail (MemoryOutOfBounds off n)
        else bnd (expand dest n) (\<lambda>_. bnd (consume_gas (wrap_mul 64 3 (words_of n))) (\<lambda>_.
          if n > 0 then write_mem dest (take n (drop off rd)) else ret ())))"

definition exec_env :: "'h evm_env \<Rightarrow> nat \<Rightarrow> ('h, unit) evm" where
  "exec_env E op =
     (if op = 0x30 then push_ctx (\<lambda>c. address_word (callee c))
      else if op = 0x31 then
        bnd pop_address (\<lambda>a. bnd (touch a) (\<lambda>_. bnd (gets (\<lambda>s. h_balance E (host s) a)) push))
      else if op = 0x32 then push_ctx (\<lambda>c. address_word (tx_origin c))
      else if op = 0x33 then push_ctx (\<lambda>c. address_word (caller c))
      else if op = 0x34 then push_ctx cvalue
      else if op = 0x35 then
        bnd pop_u64 (\<lambda>offset. push_ctx (\<lambda>c. calldata_word (calldata c) offset))
      else if op = 0x36 then push_ctx (\<lambda>c. u256_from_u64 (length (calldata c)))
      else if op = 0x37 then
        bnd pop_u64 (\<lambda>dest. bnd pop_u64 (\<lambda>src. bnd pop_u64 (\<lambda>n. copy_to_mem (\<lambda>s. calldata (ctx s)) dest src n)))
      else if op = 0x38 then bnd (gets (\<lambda>s. u256_from_u64 (length (code s)))) push
      else if op = 0x39 then
        bnd pop_u64 (\<lambda>dest. bnd pop_u64 (\<lambda>src. bnd pop_u64 (\<lambda>n. copy_to_mem code dest src n)))
      else if op = 0x3a then push_ctx (\<lambda>c. u256_from_u64 (gas_price c))
      else if op = 0x3b then
        bnd pop_address (\<lambda>a. bnd (touch a) (\<lambda>_. bnd (gets (\<lambda>s. u256_from_u64 (length (h_code E (host s) a)))) push))
      else if op = 0x3c then
        bnd pop_address (\<lambda>a. bnd pop_u64 (\<lambda>dest. bnd pop_u64 (\<lambda>src. bnd pop_u64 (\<lambda>n.
        bnd (touch a) (\<lambda>_. copy_to_mem (\<lambda>s. h_code E (host s) a) dest src n)))))
      else if op = 0x3d then bnd (gets (\<lambda>s. u256_from_u64 (length (return_data s)))) push
      else if op = 0x3e then
        bnd pop_u64 (\<lambda>dest. bnd pop_u64 (\<lambda>off. bnd pop_u64 (\<lambda>n. returndata_copy dest off n)))
      else
        bnd pop_address (\<lambda>a. bnd (touch a) (\<lambda>_.
        bnd (gets (\<lambda>s. if h_is_empty E (host s) a then zero32 else h_code_hash E (host s) a)) push)))"

definition exec_block :: "'h evm_env \<Rightarrow> nat \<Rightarrow> ('h, unit) evm" where
  "exec_block E op =
     (if op = 0x40 then
        bnd pop_u64 (\<lambda>n. bnd (gets (\<lambda>s.
          if n < block_number (ctx s) \<and> block_number (ctx s) - n \<le> 256 then h_block_hash E (host s) n else zero32)) push)
      else if op = 0x41 then push_ctx (\<lambda>c. address_word (coinbase c))
      else if op = 0x42 then push_ctx (\<lambda>c. u256_from_u64 (timestamp c))
      else if op = 0x43 then push_ctx (\<lambda>c. u256_from_u64 (block_number c))
      else if op = 0x44 then push_ctx randao_mix
      else if op = 0x45 then push_ctx (\<lambda>c. u256_from_u64 (gas_limit c))
      else if op = 0x46 then push_ctx (\<lambda>c. u256_from_u64 (effective_chain_id c))
      else if op = 0x47 then bnd (gets (\<lambda>s. h_balance E (host s) (callee (ctx s)))) push
      else push_ctx (\<lambda>c. u256_from_u64 (base_fee c)))"

section \<open>Memory, storage, control flow\<close>

definition exec_memory :: "nat \<Rightarrow> ('h, unit) evm" where
  "exec_memory op =
     (if op = 0x50 then bnd pop (\<lambda>_. ret ())
      else if op = 0x51 then
        bnd pop_u64 (\<lambda>offset. bnd (expand offset 32) (\<lambda>_. bnd (read_mem offset 32) push))
      else if op = 0x52 then
        bnd pop_u64 (\<lambda>offset. bnd pop (\<lambda>v. bnd (expand offset 32) (\<lambda>_. write_mem offset v)))
      else
        bnd pop_u64 (\<lambda>offset. bnd pop (\<lambda>v. bnd (expand offset 1) (\<lambda>_. write_mem offset [v ! 31]))))"

definition exec_sload :: "'h evm_env \<Rightarrow> ('h, unit) evm" where
  "exec_sload E =
     bnd pop (\<lambda>key. bnd (gets (\<lambda>s. callee (ctx s))) (\<lambda>a. bnd (touch_slot (a, key)) (\<lambda>_.
     bnd (gets (\<lambda>s. h_storage_load E (host s) a key)) push)))"

text \<open>The original value is read from the host again, so it is the current one.\<close>

definition exec_sstore :: "'h evm_env \<Rightarrow> ('h, unit) evm" where
  "exec_sstore E =
     bnd (gets (\<lambda>s. is_static (ctx s))) (\<lambda>static.
     if static then fail StaticStateChange
     else
       bnd pop (\<lambda>key. bnd pop (\<lambda>v. bnd (gets (\<lambda>s. callee (ctx s))) (\<lambda>a.
       bnd (gets (\<lambda>s. h_storage_load E (host s) a key)) (\<lambda>current.
       bnd (touch_slot (a, key)) (\<lambda>_.
       bnd (if current \<noteq> v
            then bnd (gets (\<lambda>s. h_storage_load E (host s) a key)) (\<lambda>original.
                 if original = current
                 then if u256_is_zero current then consume_gas GAS_SSTORE_SET else consume_gas GAS_SSTORE_RESET
                 else consume_gas GAS_SSTORE_DIRTY)
            else ret ()) (\<lambda>_.
       upd (\<lambda>s. s\<lparr>host := h_storage_store E (host s) a key v\<rparr>))))))))"

definition exec_info :: "nat \<Rightarrow> ('h, unit) evm" where
  "exec_info op =
     (if op = 0x58 then bnd (gets (\<lambda>s. u256_from_u64 (pc s))) push
      else if op = 0x59 then bnd (gets (\<lambda>s. u256_from_u64 (length (memory s)))) push
      else bnd (gets (\<lambda>s. u256_from_u64 (gas_remaining s))) push)"

definition jump_to :: "usize \<Rightarrow> ('h, exit_status option) evm" where
  "jump_to dest = bnd (gets (\<lambda>s. is_valid_jumpdest s dest)) (\<lambda>valid.
     if \<not> valid then fail (InvalidJump dest) else bnd (upd (\<lambda>s. s\<lparr>pc := dest\<rparr>)) (\<lambda>_. ret None))"

text \<open>The instruction is done: go on with the next one.\<close>

definition advance :: "('h, unit) evm \<Rightarrow> ('h, exit_status option) evm" where
  "advance m = bnd m (\<lambda>_. bnd (upd (\<lambda>s. s\<lparr>pc := pc s + 1\<rparr>)) (\<lambda>_. ret None))"

definition exec_jump :: "nat \<Rightarrow> ('h, exit_status option) evm" where
  "exec_jump op =
     (if op = 0x56 then bnd pop_u64 jump_to
      else bnd pop_u64 (\<lambda>dest. bnd pop (\<lambda>cond. if \<not> u256_is_zero cond then jump_to dest else advance (ret ()))))"

definition push_operand :: "byte list \<Rightarrow> usize \<Rightarrow> nat \<Rightarrow> word32" where
  "push_operand cd start n =
     (let e = min (start + n) (length cd); available = e - start
      in replicate (32 - n) 0 @ take available (drop start cd) @ replicate (n - available) 0)"

definition exec_push :: "nat \<Rightarrow> ('h, unit) evm" where
  "exec_push op =
     (let n = op - 0x5f in
      bnd (gets (\<lambda>s. push_operand (code s) (pc s + 1) n)) (\<lambda>v.
      bnd (push v) (\<lambda>_. upd (\<lambda>s. s\<lparr>pc := pc s + n\<rparr>))))"

fun pop_n :: "nat \<Rightarrow> ('h, word32 list) evm" where
  "pop_n 0 = ret []"
| "pop_n (Suc n) = bnd pop (\<lambda>v. bnd (pop_n n) (\<lambda>vs. ret (v # vs)))"

definition exec_log :: "nat \<Rightarrow> ('h, unit) evm" where
  "exec_log op =
     bnd (gets (\<lambda>s. is_static (ctx s))) (\<lambda>static.
     if static then fail StaticStateChange
     else
       (let topic_count = op - 0xa0 in
        bnd pop_u64 (\<lambda>offset. bnd pop_u64 (\<lambda>n. bnd (pop_n topic_count) (\<lambda>topics.
        bnd (expand offset n) (\<lambda>_. bnd (consume_gas (log_cost n topic_count)) (\<lambda>_.
        bnd (read_mem offset n) (\<lambda>data.
        upd (\<lambda>s. s\<lparr>logs := logs s @ [\<lparr>log_address = callee (ctx s), log_topics = topics, log_data = data\<rparr>]\<rparr>)))))))))"

definition exec_halt :: "exit_status \<Rightarrow> ('h, exit_status option) evm" where
  "exec_halt st =
     bnd pop_u64 (\<lambda>offset. bnd pop_u64 (\<lambda>n.
     if n > MAX_RETURN_DATA then fail (MemoryOutOfBounds offset n)
     else bnd (expand offset n) (\<lambda>_. bnd (read_mem offset n) (\<lambda>data.
          bnd (upd (\<lambda>s. s\<lparr>return_data := data\<rparr>)) (\<lambda>_. ret (Some st))))))"

definition exec_selfdestruct :: "'h evm_env \<Rightarrow> ('h, exit_status option) evm" where
  "exec_selfdestruct E =
     bnd (gets (\<lambda>s. is_static (ctx s))) (\<lambda>static.
     if static then fail StaticStateChange
     else bnd pop_address (\<lambda>beneficiary. bnd (consume_gas GAS_SELFDESTRUCT) (\<lambda>_.
          bnd (touch beneficiary) (\<lambda>_.
          bnd (upd (\<lambda>s. s\<lparr>host := h_destruct E (host s) (callee (ctx s)) beneficiary\<rparr>)) (\<lambda>_. ret (Some Succeeded))))))"

section \<open>Calls\<close>

definition is_precompile :: "address \<Rightarrow> bool" where
  "is_precompile a \<longleftrightarrow> list_all (\<lambda>b. b = 0) (take 19 (addr_bytes a)) \<and> 1 \<le> addr_bytes a ! 19 \<and> addr_bytes a ! 19 \<le> 0x0F"

text \<open>
  A nested run: the interpreter built from the current state runs on the host, which the caller
  takes back; of the rest, the status, the gas used, the return data, the warm addresses and the
  logs come back.
\<close>

type_synonym 'h runner = "'h interp \<Rightarrow> ((evm_error, exit_status \<times> u64) res \<times> 'h interp) option"

definition run_sub ::
  "'h runner \<Rightarrow> ('h interp \<Rightarrow> 'h interp) \<Rightarrow> ('h, exit_status \<times> u64 \<times> byte list \<times> address set \<times> evm_log list) evm" where
  "run_sub sub mk s =
     Option.bind (sub (mk s)) (\<lambda>(r, t).
     Some (bind_res r (\<lambda>(status, used). Ok (status, used, return_data t, warm_addresses t, logs t)), s\<lparr>host := host t\<rparr>))"

definition sub_context :: "call_kind \<Rightarrow> evm_context \<Rightarrow> address \<Rightarrow> word32 \<Rightarrow> byte list \<Rightarrow> u64 \<Rightarrow> evm_context" where
  "sub_context kind c target v data forwarded =
     (case kind of
        Call \<Rightarrow> c\<lparr>caller := callee c, callee := target, cvalue := v, calldata := data, gas_limit := forwarded\<rparr>
      | CallCode \<Rightarrow> c\<lparr>caller := callee c, callee := callee c, cvalue := v, calldata := data, gas_limit := forwarded\<rparr>
      | DelegateCall \<Rightarrow> c\<lparr>caller := caller c, callee := callee c, cvalue := cvalue c, calldata := data, gas_limit := forwarded\<rparr>
      | StaticCall \<Rightarrow> c\<lparr>caller := callee c, callee := target, cvalue := zero32, calldata := data, gas_limit := forwarded,
                       is_static := True\<rparr>)"

definition sub_interp ::
  "evm_context \<Rightarrow> byte list \<Rightarrow> u64 \<Rightarrow> u64 \<Rightarrow> address option \<Rightarrow> 'h interp \<Rightarrow> 'h interp" where
  "sub_interp c cd snap forwarded created s =
     (interp_new c cd (host s))
       \<lparr>frames := frames s @ [\<lparr>frame_snapshot = snap, gas_at_entry = forwarded, created_address = created\<rparr>],
        warm_addresses := warm_addresses s\<rparr>"

definition push_zero_with_ret :: "usize \<Rightarrow> usize \<Rightarrow> ('h, unit) evm" where
  "push_zero_with_ret ret_off ret_len =
     bnd (upd (\<lambda>s. s\<lparr>return_data := []\<rparr>)) (\<lambda>_. bnd (expand ret_off ret_len) (\<lambda>_. push (u256_from_u64 0)))"

definition take_snapshot :: "'h evm_env \<Rightarrow> ('h, u64) evm" where
  "take_snapshot E = (\<lambda>s. case h_snapshot E (host s) of (i, h) \<Rightarrow> Some (Ok i, s\<lparr>host := h\<rparr>))"

definition host_do :: "('h \<Rightarrow> 'h) \<Rightarrow> ('h, unit) evm" where
  "host_do f = upd (\<lambda>s. s\<lparr>host := f (host s)\<rparr>)"

text \<open>Writing as much of the returned data as the caller asked for.\<close>

definition write_output :: "usize \<Rightarrow> usize \<Rightarrow> byte list \<Rightarrow> ('h, unit) evm" where
  "write_output ret_off ret_len output =
     bnd (expand ret_off ret_len) (\<lambda>_.
     let copy = min ret_len (length output) in if copy > 0 then write_mem ret_off (take copy output) else ret ())"

definition call_precompile ::
  "'h evm_env \<Rightarrow> address \<Rightarrow> byte list \<Rightarrow> u64 \<Rightarrow> u64 \<Rightarrow> u64 \<Rightarrow> usize \<Rightarrow> usize \<Rightarrow> ('h, unit) evm" where
  "call_precompile E target data forwarded forwarded_billed snap ret_off ret_len =
     bnd (gets (\<lambda>s. precompile E (host s) (timestamp (ctx s)) target data forwarded)) (\<lambda>result.
     case result of
       Some (output, used) \<Rightarrow>
         bnd (host_do (\<lambda>h. h_commit E h snap)) (\<lambda>_. bnd (upd (\<lambda>s. s\<lparr>return_data := output\<rparr>)) (\<lambda>_.
         bnd (write_output ret_off ret_len output) (\<lambda>_.
         bnd (refund_gas (min (forwarded - used) forwarded_billed)) (\<lambda>_. push (u256_from_u64 1)))))
     | None \<Rightarrow>
         bnd (host_do (\<lambda>h. h_revert_to E h snap)) (\<lambda>_. bnd (upd (\<lambda>s. s\<lparr>return_data := []\<rparr>)) (\<lambda>_.
         bnd (expand ret_off ret_len) (\<lambda>_. push (u256_from_u64 0)))))"

definition call_code ::
  "'h evm_env \<Rightarrow> 'h runner \<Rightarrow> call_kind \<Rightarrow> address \<Rightarrow> word32 \<Rightarrow> byte list \<Rightarrow> byte list \<Rightarrow> u64 \<Rightarrow> u64 \<Rightarrow> u64 \<Rightarrow> usize \<Rightarrow> usize \<Rightarrow> ('h, unit) evm" where
  "call_code E sub kind target v data target_code forwarded forwarded_billed snap ret_off ret_len =
     bnd (run_sub sub (\<lambda>s. sub_interp (sub_context kind (ctx s) target v data forwarded) target_code snap forwarded None s))
       (\<lambda>(status, used, sub_return, sub_warm, sub_logs).
     bnd (upd (\<lambda>s. s\<lparr>warm_addresses := sub_warm\<rparr>)) (\<lambda>_.
     bnd (if status = Succeeded
          then bnd (host_do (\<lambda>h. h_commit E h snap)) (\<lambda>_. upd (\<lambda>s. s\<lparr>logs := logs s @ sub_logs\<rparr>))
          else host_do (\<lambda>h. h_revert_to E h snap)) (\<lambda>_.
     bnd (refund_gas (min (forwarded - used) forwarded_billed)) (\<lambda>_.
     bnd (upd (\<lambda>s. s\<lparr>return_data := sub_return\<rparr>)) (\<lambda>_.
     bnd (write_output ret_off ret_len sub_return) (\<lambda>_.
     push (u256_from_u64 (if status = Succeeded then 1 else 0))))))))"


definition transfers :: "call_kind \<Rightarrow> bool" where
  "transfers kind \<longleftrightarrow> kind = Call \<or> kind = CallCode"

text \<open>Everything a call does once the gas to forward is known: value transfer, then the callee.\<close>

definition call_body ::
  "'h evm_env \<Rightarrow> 'h runner \<Rightarrow> call_kind \<Rightarrow> address \<Rightarrow> word32 \<Rightarrow> byte list \<Rightarrow> bool \<Rightarrow> u64 \<Rightarrow> u64 \<Rightarrow> usize \<Rightarrow> usize \<Rightarrow> ('h, unit) evm" where
  "call_body E sub kind target v data actually_transfers forwarded forwarded_billed ret_off ret_len =
     bnd (take_snapshot E) (\<lambda>snap.
     bnd (gets (\<lambda>s. (callee (ctx s), h_balance E (host s) (callee (ctx s))))) (\<lambda>(self, from_bal).
     if kind = Call \<and> actually_transfers \<and> u256_lt from_bal v
     then bnd (host_do (\<lambda>h. h_revert_to E h snap)) (\<lambda>_.
          bnd (refund_gas forwarded_billed) (\<lambda>_. push_zero_with_ret ret_off ret_len))
     else
       bnd (if kind = Call \<and> actually_transfers then host_do (\<lambda>h. snd (h_transfer E h self target v)) else ret ()) (\<lambda>_.
       if is_precompile target then call_precompile E target data forwarded forwarded_billed snap ret_off ret_len
       else
         bnd (gets (\<lambda>s. h_code E (host s) target)) (\<lambda>target_code.
         if target_code = []
         then bnd (host_do (\<lambda>h. h_commit E h snap)) (\<lambda>_. bnd (upd (\<lambda>s. s\<lparr>return_data := []\<rparr>)) (\<lambda>_.
              bnd (expand ret_off ret_len) (\<lambda>_. bnd (refund_gas forwarded_billed) (\<lambda>_. push (u256_from_u64 1)))))
         else call_code E sub kind target v data target_code forwarded forwarded_billed snap ret_off ret_len))))"

text \<open>The charges for a transferred value.\<close>

definition charge_value :: "'h evm_env \<Rightarrow> call_kind \<Rightarrow> address \<Rightarrow> bool \<Rightarrow> ('h, unit) evm" where
  "charge_value E kind target actually_transfers =
     (if actually_transfers
      then bnd (consume_gas GAS_CALL_VALUE_TRANSFER) (\<lambda>_.
           bnd (gets (\<lambda>s. h_is_empty E (host s) target)) (\<lambda>empty.
           if kind = Call \<and> empty then consume_gas GAS_NEW_ACCOUNT else ret ()))
      else ret ())"

definition do_call :: "'h evm_env \<Rightarrow> 'h runner \<Rightarrow> call_kind \<Rightarrow> ('h, unit) evm" where
  "do_call E sub kind =
     bnd pop_u64 (\<lambda>gas_req. bnd pop_address (\<lambda>target.
     bnd (case kind of
            Call \<Rightarrow> pop | CallCode \<Rightarrow> pop
          | DelegateCall \<Rightarrow> gets (\<lambda>s. cvalue (ctx s)) | StaticCall \<Rightarrow> ret zero32) (\<lambda>v.
     bnd (gets (\<lambda>s. is_static (ctx s))) (\<lambda>static.
     if transfers kind \<and> static \<and> \<not> u256_is_zero v then fail StaticStateChange
     else
       bnd pop_u64 (\<lambda>args_off. bnd pop_u64 (\<lambda>args_len. bnd pop_u64 (\<lambda>ret_off. bnd pop_u64 (\<lambda>ret_len.
       bnd (expand args_off args_len) (\<lambda>_. bnd (read_mem args_off args_len) (\<lambda>data.
       bnd (touch target) (\<lambda>_.
       let actually_transfers = (transfers kind \<and> \<not> u256_is_zero v) in
       bnd (charge_value E kind target actually_transfers) (\<lambda>_.
       bnd (gets (\<lambda>s. (length (frames s), gas_remaining s))) (\<lambda>(depth, gas).
       if depth \<ge> CALL_DEPTH_LIMIT then push_zero_with_ret ret_off ret_len
       else
         (let forwarded_billed = forward_gas_eip150 gas gas_req;
              stipend = (if actually_transfers then GAS_CALL_STIPEND else 0);
              forwarded = sat_add 64 forwarded_billed stipend
          in bnd (consume_gas forwarded_billed) (\<lambda>_.
             call_body E sub kind target v data actually_transfers forwarded forwarded_billed ret_off ret_len)))))))))))))))"

section \<open>Contract creation\<close>

definition rlp_encode_u64 :: "u64 \<Rightarrow> byte list" where
  "rlp_encode_u64 n =
     (if n = 0 then [0x80] else if n < 0x80 then [of_nat n]
      else let trimmed = dropWhile (\<lambda>b. b = 0) (be_bytes 8 n) in of_nat (0x80 + length trimmed) # trimmed)"

definition hash_address :: "h256 \<Rightarrow> address" where
  "hash_address h = of_nat (be_val (drop 12 (h256_bytes h)))"

definition create_address :: "(byte list \<Rightarrow> h256) \<Rightarrow> address \<Rightarrow> u64 \<Rightarrow> address" where
  "create_address K sender nonce =
     (let payload = 0x94 # addr_bytes sender @ rlp_encode_u64 nonce
      in hash_address (K (of_nat (0xc0 + length payload) # payload)))"

definition create2_address :: "(byte list \<Rightarrow> h256) \<Rightarrow> address \<Rightarrow> word32 \<Rightarrow> byte list \<Rightarrow> address" where
  "create2_address K sender salt initcode =
     hash_address (K (0xff # addr_bytes sender @ salt @ h256_bytes (K initcode)))"

definition push_zero :: "('h, unit) evm" where
  "push_zero = bnd (upd (\<lambda>s. s\<lparr>return_data := []\<rparr>)) (\<lambda>_. push zero32)"

definition host_inc_nonce :: "'h evm_env \<Rightarrow> address \<Rightarrow> ('h, u64) evm" where
  "host_inc_nonce E a = (\<lambda>s. case h_inc_nonce E (host s) a of (r, h) \<Rightarrow> Some (r, s\<lparr>host := h\<rparr>))"

definition create_context :: "evm_context \<Rightarrow> address \<Rightarrow> word32 \<Rightarrow> u64 \<Rightarrow> evm_context" where
  "create_context c new_addr v forwarded =
     c\<lparr>caller := callee c, callee := new_addr, cvalue := v, calldata := [], gas_limit := forwarded, is_static := False\<rparr>"

text \<open>What happens to the code the constructor returned.\<close>

definition deploy :: "'h evm_env \<Rightarrow> address \<Rightarrow> byte list \<Rightarrow> evm_log list \<Rightarrow> u64 \<Rightarrow> ('h, unit) evm" where
  "deploy E new_addr deployed_code sub_logs snap =
     (let undo = bnd (host_do (\<lambda>h. h_revert_to E h snap)) (\<lambda>_. push_zero);
          deposit_cost = wrap_mul 64 GAS_CODE_DEPOSIT_PER_BYTE (length deployed_code) in
      if length deployed_code > MAX_CONTRACT_CODE_SIZE then undo
      else if deployed_code \<noteq> [] \<and> hd deployed_code = 0xEF then undo
      else
        bnd (gets gas_remaining) (\<lambda>gas.
        if gas < deposit_cost then undo
        else
          bnd (consume_gas deposit_cost) (\<lambda>_. bnd (host_do (\<lambda>h. h_set_code E h new_addr deployed_code)) (\<lambda>_.
          bnd (host_do (\<lambda>h. h_commit E h snap)) (\<lambda>_.
          bnd (upd (\<lambda>s. s\<lparr>logs := logs s @ sub_logs, return_data := []\<rparr>)) (\<lambda>_. push (address_word new_addr)))))))"

definition create_body :: "'h evm_env \<Rightarrow> 'h runner \<Rightarrow> address \<Rightarrow> word32 \<Rightarrow> byte list \<Rightarrow> ('h, unit) evm" where
  "create_body E sub new_addr v initcode =
     bnd (take_snapshot E) (\<lambda>snap.
     bnd (if \<not> u256_is_zero v
          then bnd (gets (\<lambda>s. callee (ctx s))) (\<lambda>self. host_do (\<lambda>h. snd (h_transfer E h self new_addr v))) else ret ()) (\<lambda>_.
     bnd (host_inc_nonce E new_addr) (\<lambda>_. bnd (host_do (\<lambda>h. h_mark_created E h new_addr)) (\<lambda>_.
     bnd (gets (\<lambda>s. forward_gas_eip150 (gas_remaining s) (gas_remaining s))) (\<lambda>forwarded.
     bnd (consume_gas forwarded) (\<lambda>_.
     bnd (run_sub sub (\<lambda>s. sub_interp (create_context (ctx s) new_addr v forwarded) initcode snap forwarded (Some new_addr) s))
       (\<lambda>(status, used, deployed_code, sub_warm, sub_logs).
     bnd (upd (\<lambda>s. s\<lparr>warm_addresses := sub_warm\<rparr>)) (\<lambda>_. bnd (refund_gas (forwarded - used)) (\<lambda>_.
     if status \<noteq> Succeeded
     then bnd (host_do (\<lambda>h. h_revert_to E h snap)) (\<lambda>_. bnd (upd (\<lambda>s. s\<lparr>return_data := deployed_code\<rparr>)) (\<lambda>_. push zero32))
     else deploy E new_addr deployed_code sub_logs snap)))))))))"

definition do_create :: "'h evm_env \<Rightarrow> 'h runner \<Rightarrow> bool \<Rightarrow> ('h, unit) evm" where
  "do_create E sub with_salt =
     bnd (gets (\<lambda>s. is_static (ctx s))) (\<lambda>static.
     if static then fail StaticStateChange
     else
       bnd pop (\<lambda>v. bnd pop_u64 (\<lambda>off. bnd pop_u64 (\<lambda>len.
       bnd (if with_salt then bnd pop (\<lambda>x. ret (Some x)) else ret None) (\<lambda>salt_opt.
       if len > MAX_INITCODE_SIZE then fail (InitcodeOversize len)
       else
         bnd (expand off len) (\<lambda>_. bnd (consume_gas (GAS_INITCODE_WORD * words_of len)) (\<lambda>_.
         bnd (if with_salt then consume_gas (6 * words_of len) else ret ()) (\<lambda>_.
         bnd (read_mem off len) (\<lambda>initcode.
         bnd (gets (\<lambda>s. (length (frames s), callee (ctx s), h_balance E (host s) (callee (ctx s))))) (\<lambda>(depth, self, from_bal).
         if depth \<ge> CALL_DEPTH_LIMIT then push_zero
         else if u256_lt from_bal v then push_zero
         else
           bnd (gets (\<lambda>s. case salt_opt of
                 Some salt \<Rightarrow> create2_address (keccak E) self salt initcode
               | None \<Rightarrow> create_address (keccak E) self (h_nonce E (host s) self))) (\<lambda>new_addr.
           bnd (host_inc_nonce E self) (\<lambda>_.
           bnd (gets (\<lambda>s. h_nonce E (host s) new_addr > 0 \<or> h_code E (host s) new_addr \<noteq> [])) (\<lambda>taken.
           if taken then push_zero else create_body E sub new_addr v initcode)))))))))))))"

section \<open>The interpreter loop\<close>

definition execute :: "'h evm_env \<Rightarrow> 'h runner \<Rightarrow> nat \<Rightarrow> byte \<Rightarrow> ('h, exit_status option) evm" where
  "execute E sub op b =
     (if op = 0x00 then ret (Some Succeeded)
      else if op \<le> 0x0b then advance (exec_arith op)
      else if op \<le> 0x1d then advance (exec_compare op)
      else if op = 0x20 then advance (exec_sha3 E)
      else if op \<le> 0x3f then advance (exec_env E op)
      else if op \<le> 0x48 then advance (exec_block E op)
      else if op \<le> 0x53 then advance (exec_memory op)
      else if op = 0x54 then advance (exec_sload E)
      else if op = 0x55 then advance (exec_sstore E)
      else if op \<le> 0x57 then exec_jump op
      else if op \<le> 0x5a then advance (exec_info op)
      else if op = 0x5b then advance (ret ())
      else if op = 0x5f then advance (push zero32)
      else if op \<le> 0x7f then advance (exec_push op)
      else if op \<le> 0x8f then advance (dup (op - 0x7f))
      else if op \<le> 0x9f then advance (swap (op - 0x8f))
      else if op \<le> 0xa4 then advance (exec_log op)
      else if op = 0xf0 then advance (do_create E sub False)
      else if op = 0xf1 then advance (do_call E sub Call)
      else if op = 0xf2 then advance (do_call E sub CallCode)
      else if op = 0xf3 then exec_halt Succeeded
      else if op = 0xf4 then advance (do_call E sub DelegateCall)
      else if op = 0xf5 then advance (do_create E sub True)
      else if op = 0xfa then advance (do_call E sub StaticCall)
      else if op = 0xfd then exec_halt Reverted
      else if op = 0xfe then fail (InvalidOpcode 0xfe)
      else if op = 0xff then exec_selfdestruct E
      else fail (InvalidOpcode b))"

definition step :: "'h evm_env \<Rightarrow> 'h runner \<Rightarrow> ('h, exit_status option) evm" where
  "step E sub s =
     (if pc s \<ge> length (code s) then Some (Ok (Some Succeeded), s)
      else (let b = code s ! pc s; op = unat b in
        if \<not> opcode_defined op then Some (Err (InvalidOpcode b), s)
        else bnd (consume_gas (static_gas op)) (\<lambda>_. execute E sub op b) s))"

text \<open>Every operation is monotone in the run of the callee, so that \<open>run\<close> is well defined.\<close>

lemma bnd_mono [partial_function_mono]:
  assumes "mono_option (\<lambda>f. m f s)" "\<And>x t. mono_option (\<lambda>f. k f x t)"
  shows "mono_option (\<lambda>f. bnd (m f) (k f) s)"
proof -
  have "mono_option (\<lambda>f. case r of Ok x \<Rightarrow> k f x t | Err e \<Rightarrow> Some (Err e, t) | Panic \<Rightarrow> Some (Panic, t))" for r t
    by (cases r) (auto intro!: partial_function_mono assms)
  then show ?thesis unfolding bnd_def by (intro partial_function_mono assms) (auto split: prod.split)
qed

lemma branch_mono [partial_function_mono]:
  "mono_option (\<lambda>f. m f s) \<Longrightarrow> mono_option (\<lambda>f. n f s) \<Longrightarrow> mono_option (\<lambda>f. (if c then m f else n f) s)"
  "(\<And>x y. mono_option (\<lambda>f. k f x y s)) \<Longrightarrow> mono_option (\<lambda>f. (case p of (x, y) \<Rightarrow> k f x y) s)"
  "(\<And>x. mono_option (\<lambda>f. l f x s)) \<Longrightarrow> mono_option (\<lambda>f. (let x = e in l f x) s)"
  by (cases c; cases p; simp)+

lemma run_sub_mono [partial_function_mono]:
  assumes "\<And>t. mono_option (\<lambda>f. g f t)"
  shows "mono_option (\<lambda>f. run_sub (g f) mk s)"
  unfolding run_sub_def by (intro partial_function_mono assms)

lemma call_code_mono [partial_function_mono]:
  assumes "\<And>t. mono_option (\<lambda>f. g f t)"
  shows "mono_option (\<lambda>f. call_code E (g f) kind target v data cd fw fb snap ro rl s)"
  unfolding call_code_def by (intro partial_function_mono assms)

lemma do_call_mono [partial_function_mono]:
  assumes "\<And>t. mono_option (\<lambda>f. g f t)"
  shows "mono_option (\<lambda>f. do_call E (g f) kind s)"
  unfolding do_call_def call_body_def by (intro partial_function_mono assms)

lemma do_create_mono [partial_function_mono]:
  assumes "\<And>t. mono_option (\<lambda>f. g f t)"
  shows "mono_option (\<lambda>f. do_create E (g f) salted s)"
  unfolding do_create_def create_body_def by (intro partial_function_mono assms)

lemma step_mono [partial_function_mono]:
  assumes "\<And>t. mono_option (\<lambda>f. g f t)"
  shows "mono_option (\<lambda>f. step E (g f) s)"
  unfolding step_def execute_def advance_def by (intro partial_function_mono assms)

partial_function (option) run :: "'h evm_env \<Rightarrow> 'h interp \<Rightarrow> ((evm_error, exit_status \<times> u64) res \<times> 'h interp) option" where
  "run E s =
     Option.bind (step E (\<lambda>t. run E t) s) (\<lambda>(r, t).
     case r of
       Ok (Some status) \<Rightarrow> Some (Ok (status, gas_used t), t)
     | Ok None \<Rightarrow> run E t
     | Err e \<Rightarrow> Some (Ok (Failed e, gas_used t), t)
     | Panic \<Rightarrow> Some (Panic, t))"

end
