(* ===== verification/Evm_Frame.thy ===== *)
theory Evm_Frame
  imports Evm
begin

text \<open>
  Reasoning about the interpreter. \<open>keeps R m\<close> says that whatever \<open>m\<close> returns, it relates the state
  before and after by \<open>R\<close>; for a reflexive and transitive \<open>R\<close> it goes through sequencing and
  branching, so a handler inherits it from the operations it is made of. \<open>quiet\<close> is such a relation
  for everything but calls and host updates: the host, the context, the code, the program counter
  and the logs are left alone and gas is not added.
\<close>

section \<open>Relations kept by operations\<close>

definition keeps :: "('h interp \<Rightarrow> 'h interp \<Rightarrow> bool) \<Rightarrow> ('h, 'a) evm \<Rightarrow> bool" where
  "keeps R m \<longleftrightarrow> (\<forall>s r t. m s = Some (r, t) \<longrightarrow> R s t)"

lemma keepsD: "keeps R m \<Longrightarrow> m s = Some (r, t) \<Longrightarrow> R s t"
  by (auto simp: keeps_def)

lemma bnd_cases:
  assumes "bnd m k s = Some (r, t)"
  obtains x u where "m s = Some (Ok x, u)" "k x u = Some (r, t)"
    | e where "m s = Some (Err e, t)" "r = Err e"
    | "m s = Some (Panic, t)" "r = Panic"
proof (cases "m s")
  case (Some p)
  then show thesis using assms that by (cases p; cases "fst p") (auto simp: bnd_def)
qed (use assms in \<open>simp add: bnd_def\<close>)

lemma bnd_eq_simps [simp]:
  "m s = Some (Ok x, t) \<Longrightarrow> bnd m k s = k x t"
  "m s = Some (Err e, t) \<Longrightarrow> bnd m k s = Some (Err e, t)"
  "m s = Some (Panic, t) \<Longrightarrow> bnd m k s = Some (Panic, t)"
  by (simp_all add: bnd_def)

lemma basic_simps [simp]:
  "ret x s = Some (Ok x, s)" "fail e s = Some (Err e, s)" "lift r s = Some (r, s)"
  "gets f s = Some (Ok (f s), s)" "upd g s = Some (Ok (), g s)"
  by (simp_all add: ret_def fail_def lift_def gets_def upd_def)

named_theorems quiet_intros \<open>operations that keep the relation \<open>quiet\<close>\<close>

locale frame_rel =
  fixes R :: "'h interp \<Rightarrow> 'h interp \<Rightarrow> bool"
  assumes refl: "R s s" and trans: "R s t \<Longrightarrow> R t u \<Longrightarrow> R s u"
begin

lemma keeps_basic:
  "keeps R (ret x)" "keeps R (fail e)" "keeps R (lift r)" "keeps R (gets f)"
  by (auto simp: keeps_def refl)

lemma keeps_upd: "(\<And>s. R s (g s)) \<Longrightarrow> keeps R (upd g)"
  by (auto simp: keeps_def)

lemma keeps_bnd: "keeps R m \<Longrightarrow> (\<And>x. keeps R (k x)) \<Longrightarrow> keeps R (bnd m k)"
  unfolding keeps_def by (blast elim: bnd_cases intro: trans)

end

lemma keeps_branch:
  "keeps R m \<Longrightarrow> keeps R n \<Longrightarrow> keeps R (if c then m else n)"
  "(\<And>x y. keeps R (f x y)) \<Longrightarrow> keeps R (case p of (x, y) \<Rightarrow> f x y)"
  "keeps R g \<Longrightarrow> (\<And>x. keeps R (h x)) \<Longrightarrow> keeps R (case q of None \<Rightarrow> g | Some x \<Rightarrow> h x)"
  "keeps R g \<Longrightarrow> (\<And>x xs. keeps R (l x xs)) \<Longrightarrow> keeps R (case zs of [] \<Rightarrow> g | x # xs \<Rightarrow> l x xs)"
  "(\<And>x. keeps R (w x)) \<Longrightarrow> keeps R (let x = e in w x)"
  by (auto split: prod.splits option.splits list.splits)

section \<open>Operations local to the frame\<close>

definition quiet :: "'h interp \<Rightarrow> 'h interp \<Rightarrow> bool" where
  "quiet s t \<longleftrightarrow> host t = host s \<and> ctx t = ctx s \<and> code t = code s \<and> jumpdests t = jumpdests s \<and> frames t = frames s
     \<and> pc t = pc s \<and> logs t = logs s \<and> gas_remaining t \<le> gas_remaining s"

interpretation quiet_rel: frame_rel quiet
  by unfold_locales (auto simp: quiet_def)

lemmas [quiet_intros] = quiet_rel.keeps_basic quiet_rel.keeps_bnd keeps_branch

lemma quiet_upd [quiet_intros]:
  "keeps quiet (upd (\<lambda>s. s\<lparr>stack := f s\<rparr>))" "keeps quiet (upd (\<lambda>s. s\<lparr>memory := g s\<rparr>))"
  "keeps quiet (upd (\<lambda>s. s\<lparr>return_data := d s\<rparr>))" "keeps quiet (upd (\<lambda>s. s\<lparr>warm_addresses := w s\<rparr>))"
  "keeps quiet (upd (\<lambda>s. s\<lparr>warm_storage := x s\<rparr>))"
  by (auto intro!: quiet_rel.keeps_upd simp: quiet_def)

lemma quiet_stack [quiet_intros]:
  "keeps quiet (push v)" "keeps quiet pop" "keeps quiet (peek n)" "keeps quiet (swap n)"
  unfolding push_def pop_def peek_def swap_def by (intro quiet_intros)+

lemma consume_gas_eq: "consume_gas a s = (if gas_remaining s < a then Some (Err OutOfGas, s)
    else Some (Ok (), s\<lparr>gas_remaining := gas_remaining s - a\<rparr>))"
  by (simp add: consume_gas_def)

lemma quiet_gas [quiet_intros]: "keeps quiet (consume_gas a)"
  by (auto simp: keeps_def consume_gas_eq quiet_def split: if_splits)

lemma quiet_ensure [quiet_intros]: "keeps quiet (ensure off n)"
  by (auto simp: keeps_def ensure_def quiet_def split: prod.splits)

lemma quiet_memory [quiet_intros]:
  "keeps quiet (expand off n)" "keeps quiet (read_mem off n)" "keeps quiet (write_mem off bs)"
  "keeps quiet pop_u64" "keeps quiet pop_address" "keeps quiet (dup n)"
  "keeps quiet (touch a)" "keeps quiet (touch_slot sl)" "keeps quiet (push_ctx f)"
  unfolding expand_def read_mem_def write_mem_def pop_u64_def pop_address_def dup_def touch_def touch_slot_def push_ctx_def
  by (intro quiet_intros)+

lemma quiet_compute [quiet_intros]:
  "keeps quiet (unary f)" "keeps quiet (binary g)" "keeps quiet (ternary h)"
  unfolding unary_def binary_def ternary_def by (intro quiet_intros)+

lemma quiet_copy [quiet_intros]:
  "keeps quiet (copy_to_mem src d o' n)" "keeps quiet (returndata_copy d o' n)" "keeps quiet (write_output o' n bs)"
  "keeps quiet (push_zero_with_ret o' n)" "keeps quiet push_zero" "keeps quiet (charge_value E kind a b)"
  unfolding copy_to_mem_def returndata_copy_def write_output_def push_zero_with_ret_def push_zero_def charge_value_def
  by (intro quiet_intros)+

lemma quiet_exec [quiet_intros]:
  "keeps quiet (exec_arith op)" "keeps quiet (exec_compare op)" "keeps quiet (exec_sha3 E)" "keeps quiet (exec_env E op)"
  "keeps quiet (exec_block E op)" "keeps quiet (exec_memory op)" "keeps quiet (exec_sload E)" "keeps quiet (exec_info op)"
  "keeps quiet (exec_halt st)"
  unfolding exec_arith_def exec_compare_def exec_sha3_def exec_env_def exec_block_def exec_memory_def exec_sload_def
    exec_info_def exec_halt_def
  by (intro quiet_intros)+

lemma quiet_pop_n [quiet_intros]: "keeps quiet (pop_n n)"
proof (induction n)
  case (Suc n)
  then show ?case unfolding pop_n.simps by (intro quiet_intros)
next
  case 0
  show ?case unfolding pop_n.simps by (intro quiet_intros)
qed

end
