(* ===== verification/Evm_Gas.thy ===== *)
theory Evm_Gas
  imports Evm_Frame
begin

text \<open>
  Gas. \<open>adds k m\<close>: the operation leaves at most \<open>k\<close> more gas than it found. Every handler adds
  nothing, calls and creations included, whose refunds are bounded by what they paid in advance.
  So a run never ends with more gas than it started with, and since every instruction costs gas or
  moves the program counter forward, every run ends.
\<close>


section \<open>Gas is never added\<close>

definition adds :: "nat \<Rightarrow> ('h, 'a) evm \<Rightarrow> bool" where
  "adds k m \<longleftrightarrow> keeps (\<lambda>s t. ctx t = ctx s \<and> gas_remaining t \<le> gas_remaining s + k) m"

lemma addsD: "adds k m \<Longrightarrow> m s = Some (r, t) \<Longrightarrow> ctx t = ctx s \<and> gas_remaining t \<le> gas_remaining s + k"
  by (auto simp: adds_def dest: keepsD)

lemma adds_quiet: "keeps quiet m \<Longrightarrow> adds k m"
  by (auto simp: adds_def keeps_def quiet_def) (metis trans_le_add1)

lemma adds_first: "adds k m \<Longrightarrow> (\<And>x. adds 0 (f x)) \<Longrightarrow> adds k (bnd m f)"
  unfolding adds_def keeps_def by (fastforce elim!: bnd_cases)

lemma adds_rest: "adds 0 m \<Longrightarrow> (\<And>x. adds k (f x)) \<Longrightarrow> adds k (bnd m f)"
  unfolding adds_def keeps_def by (fastforce elim!: bnd_cases)

lemma adds_quiet_bnd: "keeps quiet m \<Longrightarrow> (\<And>x. adds k (f x)) \<Longrightarrow> adds k (bnd m f)"
  by (rule adds_rest[OF adds_quiet])

lemma adds_branch:
  "adds k m \<Longrightarrow> adds k n \<Longrightarrow> adds k (if c then m else n)"
  "(\<And>x y. adds k (f x y)) \<Longrightarrow> adds k (case p of (x, y) \<Rightarrow> f x y)"
  "adds k g \<Longrightarrow> (\<And>x. adds k (h x)) \<Longrightarrow> adds k (case q of None \<Rightarrow> g | Some x \<Rightarrow> h x)"
  "(\<And>x. adds k (w x)) \<Longrightarrow> adds k (let x = e in w x)"
  by (auto split: prod.splits option.splits)

lemma adds_consume: "adds (k + a) (f ()) \<Longrightarrow> adds k (bnd (consume_gas a) f)"
  unfolding adds_def keeps_def by (fastforce elim!: bnd_cases simp: consume_gas_eq split: if_splits)

lemma adds_refund: "a \<le> k \<Longrightarrow> (\<And>x. adds 0 (f x)) \<Longrightarrow> adds k (bnd (refund_gas a) f)"
  by (rule adds_first) (auto simp: adds_def keeps_def refund_gas_def intro: order_trans[OF sat_add_le])

lemma adds_updates:
  "adds k (upd (\<lambda>s. s\<lparr>logs := f s\<rparr>))" "adds k (upd (\<lambda>s. s\<lparr>logs := f s, return_data := d s\<rparr>))"
  "adds k (upd (\<lambda>s. s\<lparr>pc := p s\<rparr>))" "adds k (upd (\<lambda>s. s\<lparr>host := hh s\<rparr>))" "adds k (host_do g)"
  "adds k (take_snapshot E)" "adds k (host_inc_nonce E a)" "adds k (run_sub sub mk)"
  by (auto simp: adds_def keeps_def host_do_def take_snapshot_def host_inc_nonce_def run_sub_def bind_eq_Some_conv
      split: prod.splits)

lemmas quiet_ops1 = quiet_rel.keeps_basic quiet_upd quiet_stack quiet_ensure quiet_memory quiet_compute quiet_copy
  quiet_exec quiet_pop_n

lemma quiet_call_value [quiet_intros]:
  "keeps quiet (case kind of Call \<Rightarrow> pop | CallCode \<Rightarrow> pop | DelegateCall \<Rightarrow> gets f | StaticCall \<Rightarrow> ret z)"
  by (cases kind) (simp_all only: call_kind.case quiet_ops1)

lemmas quiet_ops = quiet_ops1 quiet_call_value

lemma adds_nested: "adds 0 (bnd m k) \<Longrightarrow> (\<And>x. adds j (f x)) \<Longrightarrow> adds j (bnd (bnd m k) f)"
  by (rule adds_rest)

lemmas adds_intros = adds_branch adds_consume adds_refund adds_updates adds_updates[THEN adds_rest]
  quiet_ops[THEN adds_quiet] quiet_ops[THEN adds_quiet_bnd] adds_branch(1)[THEN adds_rest]
  quiet_gas[THEN adds_quiet] adds_nested

lemma adds_calls:
  "adds fb (call_precompile E tg data fw fb snap ro rl)"
  "adds fb (call_code E sub kind tg v data cd fw fb snap ro rl)"
  unfolding call_precompile_def call_code_def
  by (intro adds_intros min.cobounded2)+

lemma adds_call_body: "adds fb (call_body E sub kind tg v data at fw fb ro rl)"
  unfolding call_body_def by (intro adds_intros adds_calls order_refl)

lemma adds_call_body': "adds (0 + fb) (call_body E sub kind tg v data at fw fb ro rl)"
  using adds_call_body by simp

lemma adds_do_call: "adds 0 (do_call E sub kind)"
  unfolding do_call_def by (intro adds_intros adds_call_body')

lemma adds_do_create: "adds 0 (do_create E sub salted)"
  unfolding do_create_def create_body_def deploy_def Let_def by (intro adds_intros) simp_all

lemma adds_execute: "adds 0 (execute E sub op b)"
  unfolding execute_def advance_def exec_sstore_def exec_jump_def jump_to_def exec_push_def exec_log_def
    exec_selfdestruct_def Let_def
  by (intro adds_intros adds_do_call[THEN adds_rest] adds_do_create[THEN adds_rest])

lemma adds_step: "adds 0 (step E sub)"
proof -
  have e: "adds 0 (bnd (consume_gas g) (\<lambda>_. execute E sub op b))" for g op b
    by (rule adds_rest[OF adds_quiet[OF quiet_gas] adds_execute])
  show ?thesis
    unfolding adds_def keeps_def step_def Let_def by (auto split: if_splits dest: addsD[OF e])
qed

text \<open>
  Induction along a run: the callee's run in a step satisfies the property too.
\<close>

lemma run_induct [consumes 1, case_names halt error panic continue]:
  assumes run: "run E s = Some (r, t)"
    and halt: "\<And>sub s st t. (\<And>u q v. sub u = Some (q, v) \<Longrightarrow> P u q v) \<Longrightarrow> step E sub s = Some (Ok (Some st), t)
      \<Longrightarrow> P s (Ok (st, gas_used t)) t"
    and err: "\<And>sub s e t. (\<And>u q v. sub u = Some (q, v) \<Longrightarrow> P u q v) \<Longrightarrow> step E sub s = Some (Err e, t)
      \<Longrightarrow> P s (Ok (Failed e, gas_used t)) t"
    and panic: "\<And>sub s t. (\<And>u q v. sub u = Some (q, v) \<Longrightarrow> P u q v) \<Longrightarrow> step E sub s = Some (Panic, t) \<Longrightarrow> P s Panic t"
    and cont: "\<And>sub s w r t. (\<And>u q v. sub u = Some (q, v) \<Longrightarrow> P u q v) \<Longrightarrow> step E sub s = Some (Ok None, w)
      \<Longrightarrow> P w r t \<Longrightarrow> P s r t"
  shows "P s r t"
proof -
  have "F = E \<longrightarrow> P s (fst y) (snd y)" if "run F s = Some y" for F y
    using that
  proof (rule run.raw_induct[rotated], goal_cases)
    case (1 f F s y)
    show ?case
    proof
      assume F: "F = E"
      have sub: "f E u = Some (q, v) \<Longrightarrow> P u q v" for u q v using 1(1)[of E u "(q, v)"] by simp
      obtain q w where step: "step E (f E) s = Some (q, w)" using 1(2) F by (auto simp: bind_eq_Some_conv)
      show "P s (fst y) (snd y)"
      proof (cases q)
        case (Ok o')
        show ?thesis
        proof (cases o')
          case None
          then have "f E w = Some y" using 1(2) step Ok F by simp
          then have "P w (fst y) (snd y)" using sub[of w "fst y" "snd y"] by simp
          then show ?thesis using cont[OF sub] step Ok None by blast
        next
          case (Some st)
          then have "y = (Ok (st, gas_used w), w)" using 1(2) step Ok F by simp
          then show ?thesis using halt[OF sub] step Ok Some by simp
        qed
      next
        case (Err e)
        then have "y = (Ok (Failed e, gas_used w), w)" using 1(2) step F by simp
        then show ?thesis using err[OF sub] step Err by simp
      next
        case Panic
        then have "y = (Panic, w)" using 1(2) step F by simp
        then show ?thesis using panic[OF sub] step Panic by simp
      qed
    qed
  qed
  then show ?thesis using run by force
qed

lemma run_gas: "run E s = Some (r, t) \<Longrightarrow> ctx t = ctx s \<and> gas_remaining t \<le> gas_remaining s
    \<and> (\<forall>st used. r = Ok (st, used) \<longrightarrow> used = gas_used t)"
  by (induction rule: run_induct) (auto dest!: addsD[OF adds_step])


section \<open>Termination\<close>

definition total_op :: "('h, 'a) evm \<Rightarrow> bool" where
  "total_op m \<longleftrightarrow> (\<forall>s. m s \<noteq> None)"

lemma total_basic:
  "total_op (ret x)" "total_op (fail e)" "total_op (lift r)" "total_op (gets f)" "total_op (upd g)" "total_op (consume_gas a)"
  "total_op (refund_gas a)" "total_op (ensure off n)" "total_op (host_do h)" "total_op (take_snapshot E)" "total_op (host_inc_nonce E ad)"
  by (auto simp: total_op_def consume_gas_eq refund_gas_def ensure_def host_do_def take_snapshot_def host_inc_nonce_def
      split: prod.splits)

lemma total_bnd: "total_op m \<Longrightarrow> (\<And>x. total_op (k x)) \<Longrightarrow> total_op (bnd m k)"
proof -
  assume t: "total_op m" "\<And>x. total_op (k x)"
  have "bnd m k s \<noteq> None" for s
  proof -
    obtain p where p: "m s = Some p" using t(1) unfolding total_op_def by blast
    obtain r u where "m s = Some (r, u)" using p by (cases p) simp
    then show ?thesis using t(2) by (cases r) (simp_all add: total_op_def)
  qed
  then show ?thesis by (simp add: total_op_def)
qed

lemma total_branch:
  "total_op m \<Longrightarrow> total_op n \<Longrightarrow> total_op (if c then m else n)"
  "(\<And>x y. total_op (f x y)) \<Longrightarrow> total_op (case p of (x, y) \<Rightarrow> f x y)"
  "total_op g \<Longrightarrow> (\<And>x. total_op (h x)) \<Longrightarrow> total_op (case q of None \<Rightarrow> g | Some x \<Rightarrow> h x)"
  "total_op g \<Longrightarrow> (\<And>x xs. total_op (l x xs)) \<Longrightarrow> total_op (case zs of [] \<Rightarrow> g | x # xs \<Rightarrow> l x xs)"
  "(\<And>x. total_op (w x)) \<Longrightarrow> total_op (let x = e in w x)"
  "total_op a \<Longrightarrow> total_op b \<Longrightarrow> total_op d \<Longrightarrow> total_op (case kind of Call \<Rightarrow> a | CallCode \<Rightarrow> a | DelegateCall \<Rightarrow> b | StaticCall \<Rightarrow> d)"
  by (auto split: prod.splits option.splits list.splits call_kind.splits)

lemmas total_rules = total_basic total_bnd total_branch

lemma total_stack:
  "total_op (push v)" "total_op pop" "total_op (peek n)" "total_op (swap n)" "total_op (expand off n)" "total_op (read_mem off n)"
  "total_op (write_mem off bs)"
  unfolding push_def pop_def peek_def swap_def expand_def read_mem_def write_mem_def by (intro total_rules)+

lemma total_words:
  "total_op pop_u64" "total_op pop_address" "total_op (dup n)"
  "total_op (touch a)" "total_op (touch_slot sl)" "total_op (push_ctx f)"
  "total_op (unary u)" "total_op (binary g)" "total_op (ternary h)"
  unfolding pop_u64_def pop_address_def dup_def touch_def touch_slot_def push_ctx_def unary_def binary_def ternary_def
  by (intro total_rules total_stack)+

lemma total_copy:
  "total_op (copy_to_mem src d o' n)" "total_op (returndata_copy d o' n)" "total_op (write_output o' n bs)"
  "total_op (push_zero_with_ret o' n)" "total_op push_zero" "total_op (charge_value E kind a b)"
  unfolding copy_to_mem_def returndata_copy_def write_output_def push_zero_with_ret_def push_zero_def charge_value_def
  by (intro total_rules total_stack)+

lemma total_pop_n: "total_op (pop_n n)"
  by (induction n; unfold pop_n.simps; intro total_rules total_stack)

lemmas total_intros = total_rules total_stack total_words total_copy total_pop_n

lemma total_exec:
  "total_op (exec_arith op)" "total_op (exec_compare op)" "total_op (exec_sha3 E)" "total_op (exec_env E op)"
  "total_op (exec_block E op)" "total_op (exec_memory op)" "total_op (exec_sload E)" "total_op (exec_info op)"
  "total_op (exec_halt st)" "total_op (exec_sstore E)" "total_op (exec_jump op)" "total_op (exec_push op)" "total_op (exec_log op)"
  "total_op (exec_selfdestruct E)"
  unfolding exec_arith_def exec_compare_def exec_sha3_def exec_env_def exec_block_def exec_memory_def exec_sload_def
    exec_info_def exec_halt_def exec_sstore_def exec_jump_def jump_to_def exec_push_def exec_log_def exec_selfdestruct_def
    advance_def Let_def
  by (intro total_intros)+

lemma total_advance: "total_op m \<Longrightarrow> total_op (advance m)"
  unfolding advance_def by (intro total_intros)

text \<open>The callee returns when it is given at most \<open>g\<close> gas.\<close>

definition ends_below :: "nat \<Rightarrow> 'h runner \<Rightarrow> bool" where
  "ends_below g sub \<longleftrightarrow> (\<forall>t. gas_remaining t \<le> g \<longrightarrow> sub t \<noteq> None)"

lemma run_sub_defined: "sub (mk s) \<noteq> None \<Longrightarrow> run_sub sub mk s \<noteq> None"
  by (auto simp: run_sub_def)

lemma gas_sub_interp: "gas_remaining (sub_interp c cd sn fw cr s) = gas_limit c"
  by (simp add: sub_interp_def interp_new_def)

lemma gas_limit_sub:
  "gas_limit (sub_context kind c tg v data fw) = fw" "gas_limit (create_context c a v fw) = fw"
  by (cases kind) (auto simp: sub_context_def create_context_def)

lemma total_run_calls:
  assumes "ends_below g sub" "fw \<le> g"
  shows "total_op (run_sub sub (\<lambda>s. sub_interp (sub_context kind (ctx s) tg v data fw) cd sn fw' cr s))"
    "total_op (run_sub sub (\<lambda>s. sub_interp (create_context (ctx s) a v fw) cd sn fw' cr s))"
  unfolding total_op_def using assms
  by (intro allI run_sub_defined; simp only: ends_below_def gas_sub_interp gas_limit_sub; blast)+

lemma total_call_body:
  assumes "ends_below g sub" "fw \<le> g"
  shows "total_op (call_body E sub kind tg v data at fw fb ro rl)"
  unfolding call_body_def call_precompile_def call_code_def
  by (intro total_intros total_run_calls[OF assms])


text \<open>Total correctness on the gas left: from \<open>P\<close> the operation returns, and a value comes with \<open>Q\<close>.\<close>

definition okay :: "('h interp \<Rightarrow> bool) \<Rightarrow> ('h, 'a) evm \<Rightarrow> ('a \<Rightarrow> 'h interp \<Rightarrow> bool) \<Rightarrow> bool" where
  "okay P m Q \<longleftrightarrow> (\<forall>s. P s \<longrightarrow> (\<exists>r t. m s = Some (r, t) \<and> (\<forall>x. r = Ok x \<longrightarrow> Q x t)))"

lemma okay_bnd: "okay P m Q \<Longrightarrow> (\<And>x. okay (Q x) (f x) R) \<Longrightarrow> okay P (bnd m f) R"
proof -
  assume m: "okay P m Q" and f: "\<And>x. okay (Q x) (f x) R"
  have "\<exists>r t. bnd m f s = Some (r, t) \<and> (\<forall>x. r = Ok x \<longrightarrow> R x t)" if s: "P s" for s
  proof -
    obtain r t where r: "m s = Some (r, t)" "\<forall>x. r = Ok x \<longrightarrow> Q x t" using m s unfolding okay_def by blast
    show ?thesis
    proof (cases r)
      case (Ok x)
      then show ?thesis using r f[of x] unfolding okay_def by simp
    qed (use r in simp_all)
  qed
  then show ?thesis by (simp add: okay_def)
qed

lemma okay_total: "total_op m \<Longrightarrow> okay P m (\<lambda>_ _. True)"
  unfolding okay_def total_op_def by (metis option.exhaust surj_pair)

lemma okay_quiet: "keeps quiet m \<Longrightarrow> total_op m \<Longrightarrow> okay (\<lambda>s. gas_remaining s \<le> g) m (\<lambda>_ s. gas_remaining s \<le> g)"
  unfolding okay_def total_op_def keeps_def quiet_def by (metis option.exhaust surj_pair le_trans)

lemma okay_quiet_bnd:
  "keeps quiet m \<Longrightarrow> total_op m \<Longrightarrow> (\<And>x. okay (\<lambda>s. gas_remaining s \<le> g) (f x) R)
    \<Longrightarrow> okay (\<lambda>s. gas_remaining s \<le> g) (bnd m f) R"
  by (rule okay_bnd[OF okay_quiet])

lemma okay_gets: "(\<And>v. okay (\<lambda>s. P s \<and> f s = v) (k v) R) \<Longrightarrow> okay P (bnd (gets f) k) R"
  by (simp add: okay_def bnd_def)

lemma okay_branch:
  "(c \<Longrightarrow> okay P m R) \<Longrightarrow> (\<not> c \<Longrightarrow> okay P n R) \<Longrightarrow> okay P (if c then m else n) R"
  by simp

lemma okay_charge_value:
  "okay (\<lambda>s. gas_remaining s \<le> g) (charge_value E kind a b)
     (\<lambda>_ s. gas_remaining s + (if b then GAS_CALL_STIPEND else 0) \<le> g)"
proof (cases b)
  case True
  have "keeps quiet (bnd (gets (\<lambda>s. h_is_empty E (host s) a)) (\<lambda>e. if kind = Call \<and> e then consume_gas GAS_NEW_ACCOUNT else ret ()))"
    "total_op (bnd (gets (\<lambda>s. h_is_empty E (host s) a)) (\<lambda>e. if kind = Call \<and> e then consume_gas GAS_NEW_ACCOUNT else ret ()))"
    by (intro quiet_intros, intro total_intros)
  then have "okay (\<lambda>s. gas_remaining s + GAS_CALL_STIPEND \<le> g)
      (bnd (gets (\<lambda>s. h_is_empty E (host s) a)) (\<lambda>e. if kind = Call \<and> e then consume_gas GAS_NEW_ACCOUNT else ret ()))
      (\<lambda>_ s. gas_remaining s + GAS_CALL_STIPEND \<le> g)"
    using okay_quiet[of _ "g - GAS_CALL_STIPEND"] unfolding okay_def by (metis (no_types, lifting) le_diff_conv2 le_trans le_add2 add_leD2)
  moreover have "okay (\<lambda>s. gas_remaining s \<le> g) (consume_gas GAS_CALL_VALUE_TRANSFER) (\<lambda>_ s. gas_remaining s + GAS_CALL_STIPEND \<le> g)"
    by (auto simp: okay_def consume_gas_eq gas_consts)
  ultimately show ?thesis unfolding charge_value_def using True by (simp only: if_True) (rule okay_bnd)
qed (simp add: charge_value_def okay_def)

lemma forward_le: "forward_gas_eip150 gas req \<le> gas"
  by (simp add: forward_gas_eip150_def min_le_iff_disj)

lemma okay_do_call:
  assumes sub: "ends_below g sub"
  shows "okay (\<lambda>s. gas_remaining s \<le> g) (do_call E sub kind) (\<lambda>_ _. True)"
proof -
  have tail: "okay (\<lambda>s. gas_remaining s + (if at then GAS_CALL_STIPEND else 0) \<le> g)
      (bnd (gets (\<lambda>s. (length (frames s), gas_remaining s))) (\<lambda>(depth, gas).
         if depth \<ge> CALL_DEPTH_LIMIT then push_zero_with_ret ro rl
         else (let fb = forward_gas_eip150 gas req; st = (if at then GAS_CALL_STIPEND else 0); fw = sat_add 64 fb st
               in bnd (consume_gas fb) (\<lambda>_. call_body E sub kind tg v data at fw fb ro rl)))) (\<lambda>_ _. True)" for at ro rl req tg v data
  proof (rule okay_gets)
    fix p :: "nat \<times> nat"
    obtain depth gas where p: "p = (depth, gas)" by (cases p)
    let ?st = "if at then GAS_CALL_STIPEND else 0"
    show "okay (\<lambda>s. gas_remaining s + ?st \<le> g \<and> (length (frames s), gas_remaining s) = p)
        (case p of (depth, gas) \<Rightarrow> if depth \<ge> CALL_DEPTH_LIMIT then push_zero_with_ret ro rl
           else (let fb = forward_gas_eip150 gas req; st = ?st; fw = sat_add 64 fb st
               in bnd (consume_gas fb) (\<lambda>_. call_body E sub kind tg v data at fw fb ro rl))) (\<lambda>_ _. True)"
    proof (cases "gas + ?st \<le> g")
      case True
      have "sat_add 64 (forward_gas_eip150 gas req) ?st \<le> g"
        using True sat_add_le[of 64 "forward_gas_eip150 gas req" ?st] forward_le[of gas req] by linarith
      note total = total_call_body[OF sub this]
      show ?thesis unfolding p prod.case Let_def
        by (rule okay_total) (intro total_intros total)
    qed (auto simp: okay_def p)
  qed
  show ?thesis
    unfolding do_call_def Let_def[of "transfers kind \<and> _"]
    by (intro okay_quiet_bnd okay_branch okay_bnd[OF okay_charge_value tail] okay_total quiet_ops total_intros)
qed


lemma okay_adds_bnd:
  assumes "adds 0 m" "total_op m" "\<And>x. okay (\<lambda>s. gas_remaining s \<le> g) (f x) R"
  shows "okay (\<lambda>s. gas_remaining s \<le> g) (bnd m f) R"
proof (rule okay_bnd[OF _ assms(3)])
  show "okay (\<lambda>s. gas_remaining s \<le> g) m (\<lambda>_ s. gas_remaining s \<le> g)"
    unfolding okay_def
  proof (intro allI impI)
    fix s :: "'a interp"
    assume s: "gas_remaining s \<le> g"
    obtain p where "m s = Some p" using assms(2) unfolding total_op_def by blast
    then obtain r t where "m s = Some (r, t)" by (cases p) simp
    then show "\<exists>r t. m s = Some (r, t) \<and> (\<forall>x. r = Ok x \<longrightarrow> gas_remaining t \<le> g)"
      using addsD[OF assms(1)] s by fastforce
  qed
qed

lemma okay_create_body:
  assumes sub: "ends_below g sub"
  shows "okay (\<lambda>s. gas_remaining s \<le> g) (create_body E sub a v initcode) (\<lambda>_ _. True)"
proof -
  have tail: "okay (\<lambda>s. gas_remaining s \<le> g) (bnd (gets (\<lambda>s. forward_gas_eip150 (gas_remaining s) (gas_remaining s))) (\<lambda>forwarded.
     bnd (consume_gas forwarded) (\<lambda>_.
     bnd (run_sub sub (\<lambda>s. sub_interp (create_context (ctx s) a v forwarded) initcode snap forwarded (Some a) s))
       (\<lambda>(status, used, deployed_code, sub_warm, sub_logs).
     bnd (upd (\<lambda>s. s\<lparr>warm_addresses := sub_warm\<rparr>)) (\<lambda>_. bnd (refund_gas (forwarded - used)) (\<lambda>_.
     if status \<noteq> Succeeded
     then bnd (host_do (\<lambda>h. h_revert_to E h snap)) (\<lambda>_. bnd (upd (\<lambda>s. s\<lparr>return_data := deployed_code\<rparr>)) (\<lambda>_. push zero32))
     else deploy E a deployed_code sub_logs snap)))))) (\<lambda>_ _. True)" for snap
  proof (rule okay_gets)
    fix fw
    show "okay (\<lambda>s. gas_remaining s \<le> g \<and> forward_gas_eip150 (gas_remaining s) (gas_remaining s) = fw)
      (bnd (consume_gas fw) (\<lambda>_.
       bnd (run_sub sub (\<lambda>s. sub_interp (create_context (ctx s) a v fw) initcode snap fw (Some a) s))
       (\<lambda>(status, used, deployed_code, sub_warm, sub_logs).
       bnd (upd (\<lambda>s. s\<lparr>warm_addresses := sub_warm\<rparr>)) (\<lambda>_. bnd (refund_gas (fw - used)) (\<lambda>_.
       if status \<noteq> Succeeded
       then bnd (host_do (\<lambda>h. h_revert_to E h snap)) (\<lambda>_. bnd (upd (\<lambda>s. s\<lparr>return_data := deployed_code\<rparr>)) (\<lambda>_. push zero32))
       else deploy E a deployed_code sub_logs snap))))) (\<lambda>_ _. True)" (is "okay _ ?m _")
    proof (cases "fw \<le> g")
      case True
      have "total_op ?m" unfolding deploy_def Let_def by (intro total_intros total_run_calls(2)[OF sub True])
      then show ?thesis by (rule okay_total)
    next
      case False
      then show ?thesis using forward_le order_trans unfolding okay_def by blast
    qed
  qed
  show ?thesis
    unfolding create_body_def
    by (intro okay_adds_bnd[rotated 2] tail adds_intros total_intros)
qed

lemma okay_do_create:
  assumes sub: "ends_below g sub"
  shows "okay (\<lambda>s. gas_remaining s \<le> g) (do_create E sub salted) (\<lambda>_ _. True)"
  unfolding do_create_def case_prod_beta
  by (intro okay_adds_bnd[rotated 2] okay_branch okay_create_body[OF sub] okay_total total_intros adds_intros)

lemma okay_advance: "okay P m (\<lambda>_ _. True) \<Longrightarrow> okay P (advance m) (\<lambda>_ _. True)"
  unfolding advance_def by (erule okay_bnd) (intro okay_total total_intros)

lemma okay_execute:
  assumes sub: "ends_below g sub"
  shows "okay (\<lambda>s. gas_remaining s \<le> g) (execute E sub op b) (\<lambda>_ _. True)"
  unfolding execute_def
  by (intro okay_branch okay_advance okay_do_call[OF sub] okay_do_create[OF sub] okay_total total_exec total_intros total_advance)


text \<open>An instruction whose static cost is zero makes no call, and moves the program counter if it does not stop.\<close>

definition calm :: "'h interp \<Rightarrow> 'h interp \<Rightarrow> bool" where
  "calm s t \<longleftrightarrow> code t = code s \<and> pc t = pc s \<and> gas_remaining t \<le> gas_remaining s"

interpretation calm_rel: frame_rel calm
  by unfold_locales (auto simp: calm_def)

lemma calm_quiet: "keeps quiet m \<Longrightarrow> keeps calm m"
  by (auto simp: keeps_def quiet_def calm_def)

lemma calm_exec: "keeps calm (exec_sstore E)" "keeps calm (exec_log op)"
proof -
  have u: "keeps calm (upd (\<lambda>s. s\<lparr>host := f s\<rparr>))" "keeps calm (upd (\<lambda>s. s\<lparr>logs := l s\<rparr>))" for f l
    by (auto intro!: calm_rel.keeps_upd simp: calm_def)
  show "keeps calm (exec_sstore E)" "keeps calm (exec_log op)"
    unfolding exec_sstore_def exec_log_def Let_def
    by (intro calm_rel.keeps_bnd keeps_branch u quiet_ops[THEN calm_quiet] quiet_gas[THEN calm_quiet])+
qed

definition onward :: "('h, exit_status option) evm \<Rightarrow> bool" where
  "onward m \<longleftrightarrow> (\<forall>s t. m s = Some (Ok None, t) \<longrightarrow> code t = code s \<and> pc t = pc s + 1 \<and> gas_remaining t \<le> gas_remaining s)"

lemma onward_advance: "keeps calm m \<Longrightarrow> onward (advance m)"
  by (auto simp: onward_def advance_def keeps_def calm_def elim!: bnd_cases)

lemma onward_stops: "onward (ret (Some st))" "onward (fail e)" "onward (exec_halt st)" "onward (exec_selfdestruct E)"
  by (auto simp: onward_def exec_halt_def exec_selfdestruct_def elim!: bnd_cases split: if_splits)

lemma zero_static_gas:
  "static_gas op = 0 \<Longrightarrow> op \<in> {0x00, 0xf3, 0xfd, 0x20, 0xa0, 0xa1, 0xa2, 0xa3, 0xa4, 0x0a, 0x55, 0xff, 0xfe}"
  by (auto simp: static_gas_def gas_consts split: if_splits)

lemma zero_static_execute:
  assumes "static_gas op = 0"
  shows "onward (execute E sub op b)" "total_op (execute E sub op b)"
  using zero_static_gas[OF assms]
  by (auto simp: execute_def intro!: onward_stops onward_advance calm_exec quiet_exec[THEN calm_quiet]
      total_advance total_exec total_basic)

text \<open>One step from \<open>s\<close>, where runs on less gas end: it returns, and going on needs less.\<close>

lemma step_progress:
  assumes sub: "\<And>u. gas_remaining u < gas_remaining s \<Longrightarrow> sub u \<noteq> None"
  obtains r t where "step E sub s = Some (r, t)"
    "r = Ok None \<Longrightarrow> gas_remaining t < gas_remaining s
       \<or> gas_remaining t \<le> gas_remaining s \<and> length (code t) - pc t < length (code s) - pc s"
proof -
  let ?b = "code s ! pc s"
  let ?op = "unat ?b"
  let ?u = "s\<lparr>gas_remaining := gas_remaining s - static_gas ?op\<rparr>"
  consider "length (code s) \<le> pc s \<or> \<not> opcode_defined ?op \<or> gas_remaining s < static_gas ?op"
    | "pc s < length (code s)" "opcode_defined ?op" "static_gas ?op \<le> gas_remaining s" "static_gas ?op = 0"
    | "pc s < length (code s)" "opcode_defined ?op" "static_gas ?op \<le> gas_remaining s" "static_gas ?op > 0"
    by linarith
  then show thesis
  proof cases
    case 1
    then have "\<exists>r t. step E sub s = Some (r, t) \<and> r \<noteq> Ok None" unfolding step_def Let_def by (auto simp: consume_gas_eq)
    then show thesis using that by blast
  next
    case 2
    have e: "step E sub s = execute E sub ?op ?b s" using 2 unfolding step_def Let_def by (simp add: consume_gas_eq)
    obtain p where "execute E sub ?op ?b s = Some p" using zero_static_execute(2)[OF 2(4)] unfolding total_op_def by blast
    then obtain r t where r: "execute E sub ?op ?b s = Some (r, t)" by (cases p) simp
    moreover have "r = Ok None \<Longrightarrow> code t = code s \<and> pc t = pc s + 1 \<and> gas_remaining t \<le> gas_remaining s"
      using zero_static_execute(1)[OF 2(4)] r unfolding onward_def by blast
    ultimately show thesis using that e 2(1) by force
  next
    case 3
    have e: "step E sub s = execute E sub ?op ?b ?u" using 3 unfolding step_def Let_def by (simp add: consume_gas_eq)
    have below: "ends_below (gas_remaining ?u) sub" unfolding ends_below_def using sub 3 by simp
    obtain r t where r: "execute E sub ?op ?b ?u = Some (r, t)"
      using okay_execute[OF below, of E ?op ?b] unfolding okay_def by blast
    moreover have "gas_remaining t \<le> gas_remaining ?u" using addsD[OF adds_execute r] by simp
    ultimately show thesis using that e 3 by force
  qed
qed

lemma run_defined: "\<exists>r t. run E s = Some (r, t)"
proof -
  define d where "d = (\<lambda>s :: 'a interp. (gas_remaining s, length (code s) - pc s))"
  have "wf (inv_image (less_than <*lex*> less_than) d)" by (intro wf_inv_image wf_lex_prod wf_less_than)
  then show ?thesis
  proof (induction s)
    case (less s)
    have sub: "run E u \<noteq> None" if "gas_remaining u < gas_remaining s" for u
      using less[of u] that by (auto simp: d_def)
    obtain r t where r: "step E (run E) s = Some (r, t)"
      and t: "r = Ok None \<Longrightarrow> gas_remaining t < gas_remaining s
        \<or> gas_remaining t \<le> gas_remaining s \<and> length (code t) - pc t < length (code s) - pc s"
      using step_progress[of s "run E" E] sub by blast
    show ?case
    proof (cases "r = Ok None")
      case True
      then have "\<exists>r' t'. run E t = Some (r', t')" using t less[of t] by (auto simp: d_def le_less)
      then show ?thesis using True r by (subst run.simps) simp
    next
      case False
      then show ?thesis using r by (subst run.simps) (auto split: res.splits option.splits)
    qed
  qed
qed

lemma run_not_Err: "run E s = Some (r, t) \<Longrightarrow> r \<noteq> Err e"
  by (induction rule: run_induct) auto

text \<open>
  C27: The interpreter never loops: for any code, any gas, any host and any precompiles its run ends. Either it panics, where the Rust
  code would (a slice past the end of call data or code, memory past the limit), or it reports a status and the gas used, and what
  was used and what is left add up to the gas it was given.
\<close>

theorem evm_run_terminates:
  "\<exists>t. run E (interp_new c cd h) = Some (Panic, t)
     \<or> (\<exists>status used. run E (interp_new c cd h) = Some (Ok (status, used), t) \<and> used + gas_remaining t = gas_limit c)"
proof -
  obtain r t where r: "run E (interp_new c cd h) = Some (r, t)" using run_defined by blast
  then have "ctx t = c" "gas_remaining t \<le> gas_limit c" "\<forall>st used. r = Ok (st, used) \<longrightarrow> used = gas_used t"
    using run_gas[OF r] by (simp_all add: interp_new_def)
  then show ?thesis using r run_not_Err[OF r] by (cases r) (auto simp: gas_used_def)
qed

end
