(* ===== verification/Evm_Safety.thy ===== *)
theory Evm_Safety
  imports Evm_Gas
begin

text \<open>
  What a run leaves of the host. \<open>undo_host\<close> is the contract between the interpreter and its host:
  the newest snapshot can be reverted or committed, and no other operation touches the snapshots.
  From it follow, for every run that does not panic, that snapshots are balanced, that a static
  frame changes nothing, and that a call which pushes zero has undone its effects. \<open>mock_host\<close>
  satisfies the contract. The last section shows that the bitmap of jump destinations marks exactly
  the \<^verbatim>\<open>JUMPDEST\<close> bytes at which an instruction starts.
\<close>

section \<open>Triples\<close>

definition triple :: "('h interp \<Rightarrow> bool) \<Rightarrow> ('h, 'a) evm \<Rightarrow> ('a \<Rightarrow> 'h interp \<Rightarrow> bool) \<Rightarrow> ('h interp \<Rightarrow> bool) \<Rightarrow> bool" where
  "triple P m Q Z \<longleftrightarrow>
     (\<forall>s r t. P s \<longrightarrow> m s = Some (r, t) \<longrightarrow> (case r of Ok x \<Rightarrow> Q x t | Err e \<Rightarrow> Z t | Panic \<Rightarrow> True))"

lemma tripleD:
  assumes "triple P m Q Z" "P s"
  shows "m s = Some (Ok x, t) \<Longrightarrow> Q x t" "m s = Some (Err e, t) \<Longrightarrow> Z t"
  using assms unfolding triple_def by fastforce+

lemma triple_bnd: "triple P m R Z \<Longrightarrow> (\<And>x. triple (R x) (k x) Q Z) \<Longrightarrow> triple P (bnd m k) Q Z"
  unfolding triple_def by (fastforce elim!: bnd_cases)

lemma triple_conseq:
  "triple P' m Q' Z' \<Longrightarrow> (\<And>s. P s \<Longrightarrow> P' s) \<Longrightarrow> (\<And>x s. Q' x s \<Longrightarrow> Q x s) \<Longrightarrow> (\<And>s. Z' s \<Longrightarrow> Z s) \<Longrightarrow> triple P m Q Z"
  unfolding triple_def by (fastforce split: res.splits)

lemma triple_pre: "triple P' m Q Z \<Longrightarrow> (\<And>s. P s \<Longrightarrow> P' s) \<Longrightarrow> triple P m Q Z"
  by (rule triple_conseq)

lemma triple_if:
  "(c \<Longrightarrow> triple P m Q Z) \<Longrightarrow> (\<not> c \<Longrightarrow> triple P n Q Z) \<Longrightarrow> triple P (if c then m else n) Q Z"
  by simp

lemma triple_gets: "(\<And>v. triple (\<lambda>s. P s \<and> f s = v) (k v) Q Z) \<Longrightarrow> triple P (bnd (gets f) k) Q Z"
  unfolding triple_def by simp

lemma triple_read: "(\<And>v. triple P (k v) Q Z) \<Longrightarrow> triple P (bnd (gets f) k) Q Z"
  unfolding triple_def by simp

lemma triple_upd: "(\<And>s. P s \<Longrightarrow> Q () (f s)) \<Longrightarrow> triple P (upd f) Q Z"
  by (auto simp: triple_def)

lemma triple_basic:
  "(\<And>s. P s \<Longrightarrow> Q x s) \<Longrightarrow> triple P (ret x) Q Z" "(\<And>s. P s \<Longrightarrow> Z s) \<Longrightarrow> triple P (fail e) Q Z"
  by (auto simp: triple_def)

lemma triple_push: "(\<And>s. P s \<Longrightarrow> Q () (s\<lparr>stack := v # stack s\<rparr>)) \<Longrightarrow> (\<And>s. P s \<Longrightarrow> Z s) \<Longrightarrow> triple P (push v) Q Z"
  by (auto simp: triple_def push_def elim!: bnd_cases split: if_splits)

lemma triple_absurd: "(\<And>s. \<not> P s) \<Longrightarrow> triple P m Q Z"
  by (simp add: triple_def)

text \<open>A condition on the host, the context and the logs is kept by the operations local to the frame.\<close>

definition local :: "('h interp \<Rightarrow> bool) \<Rightarrow> bool" where
  "local P \<longleftrightarrow> (\<forall>s t. host t = host s \<longrightarrow> ctx t = ctx s \<longrightarrow> logs t = logs s \<longrightarrow> P s \<longrightarrow> P t)"

lemma triple_quiet: "keeps quiet m \<Longrightarrow> local P \<Longrightarrow> (\<And>s. P s \<Longrightarrow> Z s) \<Longrightarrow> triple P m (\<lambda>_. P) Z"
  unfolding triple_def local_def keeps_def quiet_def by (fastforce split: res.splits)

lemma triple_quiet_bnd:
  "keeps quiet m \<Longrightarrow> local P \<Longrightarrow> (\<And>s. P s \<Longrightarrow> Z s) \<Longrightarrow> (\<And>x. triple P (k x) Q Z) \<Longrightarrow> triple P (bnd m k) Q Z"
  by (rule triple_bnd[OF triple_quiet])

lemma triple_refund: "local P \<Longrightarrow> triple P (refund_gas g) (\<lambda>_. P) Z"
  unfolding refund_gas_def by (rule triple_upd) (auto simp: local_def)

section \<open>The host's contract\<close>

locale undo_host =
  fixes E :: "'h evm_env" and view :: "'h \<Rightarrow> 'v" and saved :: "'h \<Rightarrow> (u64 \<times> 'v) list"
  assumes snapshot: "h_snapshot E h = (i, h') \<Longrightarrow> view h' = view h \<and> saved h' = (i, view h) # saved h"
    and revert: "saved h = (i, v) # L \<Longrightarrow> view (h_revert_to E h i) = v \<and> saved (h_revert_to E h i) = L"
    and commit: "saved h = (i, v) # L \<Longrightarrow> view (h_commit E h i) = view h \<and> saved (h_commit E h i) = L"
    and nonce_view: "view h = view h' \<Longrightarrow> h_nonce E h = h_nonce E h'"
    and transfer_nonce: "h_nonce E (snd (h_transfer E h a b w)) = h_nonce E h"
    and inc_nonce: "h_inc_nonce E h a = (r, h') \<Longrightarrow> saved h' = saved h \<and> (h_nonce E h a = 0 \<longrightarrow> is_Ok r)"
    and undisturbed:
      "saved (h_storage_store E h a key w) = saved h" "saved (h_set_code E h a cd) = saved h"
      "saved (snd (h_transfer E h a b w)) = saved h" "saved (h_destruct E h a b) = saved h"
      "saved (h_mark_created E h a) = saved h"
begin

text \<open>The host as the frame found it; as a frame may leave it; and with the snapshot of a call open.\<close>

definition entry where
  "entry S v l c s \<longleftrightarrow> saved (host s) = S \<and> view (host s) = v \<and> logs s = l \<and> ctx s = c"

definition settled where
  "settled frozen S v l c s \<longleftrightarrow> saved (host s) = S \<and> ctx s = c \<and> (frozen \<longrightarrow> view (host s) = v \<and> logs s = l)"

definition pending where
  "pending i frozen S v l c s \<longleftrightarrow>
     saved (host s) = (i, v) # S \<and> ctx s = c \<and> logs s = l \<and> (frozen \<longrightarrow> view (host s) = v)"

lemma local_preds: "local (entry S v l c)" "local (settled fz S v l c)" "local (pending i fz S v l c)"
  by (auto simp: local_def entry_def settled_def pending_def)

lemma entry_settled: "entry S v l c s \<Longrightarrow> settled fz S v l c s"
  by (simp add: entry_def settled_def)

text \<open>What a nested run is assumed to do.\<close>

definition tame :: "'h runner \<Rightarrow> bool" where
  "tame sub \<longleftrightarrow> (\<forall>u q t. sub u = Some (q, t) \<longrightarrow> (\<forall>e. q \<noteq> Err e) \<and> (q \<noteq> Panic
     \<longrightarrow> settled (is_static (ctx u)) (saved (host u)) (view (host u)) (logs u) (ctx u) t))"

lemma triple_snapshot: "triple (entry S v l c) (take_snapshot E) (\<lambda>i. pending i fz S v l c) Z"
  unfolding triple_def take_snapshot_def entry_def pending_def
  using snapshot by (auto split: prod.splits)

lemma triple_revert: "triple (pending i fz S v l c) (host_do (\<lambda>h. h_revert_to E h i)) (\<lambda>_. entry S v l c) Z"
  unfolding host_do_def by (rule triple_upd) (auto simp: pending_def entry_def revert)

lemma triple_commit: "triple (pending i fz S v l c) (host_do (\<lambda>h. h_commit E h i)) (\<lambda>_. settled fz S v l c) Z"
  unfolding host_do_def by (rule triple_upd) (auto simp: pending_def settled_def commit)

lemma triple_run_sub:
  assumes "tame sub" and "\<And>s. ctx s = c \<Longrightarrow> host (mk s) = host s \<and> logs (mk s) = []"
    and "\<And>s. ctx s = c \<Longrightarrow> fz \<Longrightarrow> is_static (ctx (mk s))"
  shows "triple (pending i fz S v l c) (run_sub sub mk)
    (\<lambda>(status, used, out, warm, lg) s. pending i fz S v l c s \<and> (fz \<longrightarrow> lg = [])) Z"
  unfolding triple_def
proof (intro allI impI)
  fix s r t
  assume s: "pending i fz S v l c s" and r: "run_sub sub mk s = Some (r, t)"
  obtain q u where u: "sub (mk s) = Some (q, u)" "t = s\<lparr>host := host u\<rparr>"
    "r = bind_res q (\<lambda>(status, used). Ok (status, used, return_data u, warm_addresses u, logs u))"
    using r by (auto simp: run_sub_def bind_eq_Some_conv)
  have c: "ctx s = c" using s by (simp add: pending_def)
  show "case r of Ok x \<Rightarrow> (case x of (status, used, out, warm, lg) \<Rightarrow> \<lambda>s. pending i fz S v l c s \<and> (fz \<longrightarrow> lg = [])) t
    | Err e \<Rightarrow> Z t | Panic \<Rightarrow> True"
  proof (cases q)
    case (Ok x)
    then have "settled (is_static (ctx (mk s))) (saved (host s)) (view (host s)) [] (ctx (mk s)) u"
      using assms(1) u(1) assms(2)[OF c] unfolding tame_def by fastforce
    then have "pending i fz S v l c t \<and> (fz \<longrightarrow> logs u = [])"
      using s assms(3)[OF c] u(2) by (auto simp: pending_def settled_def)
    then show ?thesis using u(3) Ok by (cases x) simp
  next
    case (Err e)
    then show ?thesis using assms(1) u(1) unfolding tame_def by blast
  qed (use u in simp)
qed

text \<open>After a call: settled, and back at the entry if it pushed zero.\<close>

definition call_post where
  "call_post fz S v l c s \<longleftrightarrow> settled fz S v l c s \<and> (hd (stack s) = zero32 \<longrightarrow> entry S v l c s)"

lemma fails_quiet: "keeps quiet m \<Longrightarrow> triple (entry S v l c) m (\<lambda>_. call_post fz S v l c) (settled fz S v l c)"
  by (rule triple_conseq[OF triple_quiet[OF _ local_preds(1), where Z = "settled fz S v l c"]])
    (auto simp: call_post_def entry_settled)

lemma push_one: "triple (settled fz S v l c) (push (u256_from_u64 1)) (\<lambda>_. call_post fz S v l c) (settled fz S v l c)"
proof (rule triple_push)
  have "u256_from_u64 1 \<noteq> zero32" by code_simp
  then show "call_post fz S v l c (s\<lparr>stack := u256_from_u64 1 # stack s\<rparr>)" if "settled fz S v l c s" for s
    using that by (simp add: call_post_def settled_def)
qed

lemma entry_quiet:
  "keeps quiet m \<Longrightarrow> (\<And>x. triple (entry S v l c) (k x) Q (settled fz S v l c))
    \<Longrightarrow> triple (entry S v l c) (bnd m k) Q (settled fz S v l c)"
  by (erule triple_quiet_bnd[OF _ local_preds(1)]) (auto simp: entry_settled)

lemmas settle_quiet = triple_quiet_bnd[OF _ local_preds(2)]
lemmas settle_refund = triple_bnd[OF triple_refund[OF local_preds(2)]]

lemma triple_call_precompile:
  "triple (pending i fz S v l c) (call_precompile E tg data fw fb i ro rl) (\<lambda>_. call_post fz S v l c) (settled fz S v l c)"
  unfolding call_precompile_def
proof (rule triple_read)
  fix res
  have ok: "triple (pending i fz S v l c)
      (bnd (host_do (\<lambda>h. h_commit E h i)) (\<lambda>_. bnd (upd (\<lambda>s. s\<lparr>return_data := out\<rparr>)) (\<lambda>_.
       bnd (write_output ro rl out) (\<lambda>_. bnd (refund_gas (min (fw - used) fb)) (\<lambda>_. push (u256_from_u64 1))))))
      (\<lambda>_. call_post fz S v l c) (settled fz S v l c)" for out used
    by (intro triple_bnd[OF triple_commit] settle_quiet settle_refund push_one quiet_intros)
  have no: "triple (pending i fz S v l c)
      (bnd (host_do (\<lambda>h. h_revert_to E h i)) (\<lambda>_. bnd (upd (\<lambda>s. s\<lparr>return_data := []\<rparr>)) (\<lambda>_.
       bnd (expand ro rl) (\<lambda>_. push (u256_from_u64 0))))) (\<lambda>_. call_post fz S v l c) (settled fz S v l c)"
    by (intro triple_bnd[OF triple_revert] fails_quiet quiet_intros)
  show "triple (pending i fz S v l c) (case res of
       None \<Rightarrow> bnd (host_do (\<lambda>h. h_revert_to E h i)) (\<lambda>_. bnd (upd (\<lambda>s. s\<lparr>return_data := []\<rparr>)) (\<lambda>_.
         bnd (expand ro rl) (\<lambda>_. push (u256_from_u64 0))))
     | Some (out, used) \<Rightarrow> bnd (host_do (\<lambda>h. h_commit E h i)) (\<lambda>_. bnd (upd (\<lambda>s. s\<lparr>return_data := out\<rparr>)) (\<lambda>_.
         bnd (write_output ro rl out) (\<lambda>_. bnd (refund_gas (min (fw - used) fb)) (\<lambda>_. push (u256_from_u64 1))))))
    (\<lambda>_. call_post fz S v l c) (settled fz S v l c)"
    using ok no by (cases res) auto
qed

lemma triple_call_code:
  assumes sub: "tame sub" and fz: "fz \<Longrightarrow> is_static c \<or> kind = StaticCall"
  shows "triple (pending i fz S v l c) (call_code E sub kind tg w data cd fw fb i ro rl)
    (\<lambda>_. call_post fz S v l c) (settled fz S v l c)"
  unfolding call_code_def
proof (rule triple_bnd[OF triple_run_sub[OF sub]])
  show "is_static (ctx (sub_interp (sub_context kind (ctx s) tg w data fw) cd i fw None s))" if "ctx s = c" fz for s
    using fz[OF that(2)] that(1) by (cases kind) (auto simp: sub_interp_def interp_new_def sub_context_def)
next
  fix x :: "exit_status \<times> u64 \<times> byte list \<times> address set \<times> evm_log list"
  obtain status used out warm lg where x: "x = (status, used, out, warm, lg)" by (cases x)
  let ?tail = "bnd (refund_gas (min (fw - used) fb)) (\<lambda>_. bnd (upd (\<lambda>s. s\<lparr>return_data := out\<rparr>)) (\<lambda>_.
     bnd (write_output ro rl out) (\<lambda>_. push (u256_from_u64 (if status = Succeeded then 1 else 0)))))"
  have warm: "triple P (bnd (upd (\<lambda>s. s\<lparr>warm_addresses := warm\<rparr>)) k) Q Z" if "local P" "triple P (k ()) Q Z"
    for P Q Z and k :: "unit \<Rightarrow> ('h, unit) evm"
    using that by (intro triple_bnd[OF triple_upd]) (auto simp: local_def)
  have "triple (\<lambda>s. pending i fz S v l c s \<and> (fz \<longrightarrow> lg = []))
     (bnd (upd (\<lambda>s. s\<lparr>warm_addresses := warm\<rparr>)) (\<lambda>_.
      bnd (if status = Succeeded
          then bnd (host_do (\<lambda>h. h_commit E h i)) (\<lambda>_. upd (\<lambda>s. s\<lparr>logs := logs s @ lg\<rparr>))
          else host_do (\<lambda>h. h_revert_to E h i)) (\<lambda>_. ?tail))) (\<lambda>_. call_post fz S v l c) (settled fz S v l c)"
  proof (rule warm)
    show "local (\<lambda>s. pending i fz S v l c s \<and> (fz \<longrightarrow> lg = []))" by (auto simp: local_def pending_def)
    show "triple (\<lambda>s. pending i fz S v l c s \<and> (fz \<longrightarrow> lg = [])) (bnd (if status = Succeeded
          then bnd (host_do (\<lambda>h. h_commit E h i)) (\<lambda>_. upd (\<lambda>s. s\<lparr>logs := logs s @ lg\<rparr>))
          else host_do (\<lambda>h. h_revert_to E h i)) (\<lambda>_. ?tail)) (\<lambda>_. call_post fz S v l c) (settled fz S v l c)"
    proof (cases "status = Succeeded")
      case True
      have end_: "triple (settled fz S v l c) ?tail (\<lambda>_. call_post fz S v l c) (settled fz S v l c)"
        unfolding True by (simp only: if_True refl) (intro settle_quiet settle_refund push_one quiet_intros)
      have "triple (\<lambda>s. pending i fz S v l c s \<and> (fz \<longrightarrow> lg = []))
        (bnd (host_do (\<lambda>h. h_commit E h i)) (\<lambda>_. upd (\<lambda>s. s\<lparr>logs := logs s @ lg\<rparr>))) (\<lambda>_. settled fz S v l c) (settled fz S v l c)"
        unfolding host_do_def by (rule triple_bnd[OF triple_upd triple_upd, where R = "\<lambda>_ s. settled fz S v l c s \<and> (fz \<longrightarrow> lg = [])"])
          (auto simp: pending_def settled_def commit)
      then have "triple (\<lambda>s. pending i fz S v l c s \<and> (fz \<longrightarrow> lg = []))
        (bnd (bnd (host_do (\<lambda>h. h_commit E h i)) (\<lambda>_. upd (\<lambda>s. s\<lparr>logs := logs s @ lg\<rparr>))) (\<lambda>_. ?tail))
        (\<lambda>_. call_post fz S v l c) (settled fz S v l c)"
        by (rule triple_bnd[OF _ end_])
      then show ?thesis using True by simp
    next
      case False
      have end_: "triple (entry S v l c) ?tail (\<lambda>_. call_post fz S v l c) (settled fz S v l c)"
        by (intro triple_bnd[OF triple_refund[OF local_preds(1)]] fails_quiet quiet_intros)
      have "triple (pending i fz S v l c) (bnd (host_do (\<lambda>h. h_revert_to E h i)) (\<lambda>_. ?tail))
        (\<lambda>_. call_post fz S v l c) (settled fz S v l c)"
        by (rule triple_bnd[OF triple_revert end_])
      then have "triple (\<lambda>s. pending i fz S v l c s \<and> (fz \<longrightarrow> lg = [])) (bnd (host_do (\<lambda>h. h_revert_to E h i)) (\<lambda>_. ?tail))
        (\<lambda>_. call_post fz S v l c) (settled fz S v l c)"
        by (rule triple_conseq) auto
      then show ?thesis using False by simp
    qed
  qed
  then show "triple ((case x of (status, used, out, warm, lg) \<Rightarrow> \<lambda>s. pending i fz S v l c s \<and> (fz \<longrightarrow> lg = [])))
    (case x of (status, used, out, warm, lg) \<Rightarrow> bnd (upd (\<lambda>s. s\<lparr>warm_addresses := warm\<rparr>)) (\<lambda>_.
      bnd (if status = Succeeded
          then bnd (host_do (\<lambda>h. h_commit E h i)) (\<lambda>_. upd (\<lambda>s. s\<lparr>logs := logs s @ lg\<rparr>))
          else host_do (\<lambda>h. h_revert_to E h i)) (\<lambda>_.
      bnd (refund_gas (min (fw - used) fb)) (\<lambda>_. bnd (upd (\<lambda>s. s\<lparr>return_data := out\<rparr>)) (\<lambda>_.
      bnd (write_output ro rl out) (\<lambda>_. push (u256_from_u64 (if status = Succeeded then 1 else 0))))))))
    (\<lambda>_. call_post fz S v l c) (settled fz S v l c)"
    by (simp add: x)
qed (simp add: sub_interp_def interp_new_def)

lemma triple_transfer:
  "(fz \<Longrightarrow> \<not> at) \<Longrightarrow> triple (pending i fz S v l c)
     (if k \<and> at then host_do (\<lambda>h. snd (h_transfer E h self tg w)) else ret ()) (\<lambda>_. pending i fz S v l c) Z"
  unfolding host_do_def by (intro triple_if triple_upd triple_basic) (auto simp: pending_def undisturbed)

lemma triple_call_body:
  assumes sub: "tame sub" and fz: "fz \<Longrightarrow> (is_static c \<or> kind = StaticCall) \<and> \<not> at"
  shows "triple (entry S v l c) (call_body E sub kind tg w data at fw fb ro rl) (\<lambda>_. call_post fz S v l c) (settled fz S v l c)"
  unfolding call_body_def case_prod_beta
proof (intro triple_bnd[OF triple_snapshot[where fz = fz]] triple_read triple_if)
  fix i p
  show "triple (pending i fz S v l c) (bnd (host_do (\<lambda>h. h_revert_to E h i)) (\<lambda>_. bnd (refund_gas fb) (\<lambda>_. push_zero_with_ret ro rl)))
     (\<lambda>_. call_post fz S v l c) (settled fz S v l c)"
    by (intro triple_bnd[OF triple_revert] triple_bnd[OF triple_refund[OF local_preds(1)]] fails_quiet quiet_intros)
  show "triple (pending i fz S v l c) (bnd (if kind = Call \<and> at then host_do (\<lambda>h. snd (h_transfer E h (fst p) tg w)) else ret ()) (\<lambda>_.
       if is_precompile tg then call_precompile E tg data fw fb i ro rl
       else bnd (gets (\<lambda>s. h_code E (host s) tg)) (\<lambda>target_code.
         if target_code = []
         then bnd (host_do (\<lambda>h. h_commit E h i)) (\<lambda>_. bnd (upd (\<lambda>s. s\<lparr>return_data := []\<rparr>)) (\<lambda>_.
              bnd (expand ro rl) (\<lambda>_. bnd (refund_gas fb) (\<lambda>_. push (u256_from_u64 1)))))
         else call_code E sub kind tg w data target_code fw fb i ro rl))) (\<lambda>_. call_post fz S v l c) (settled fz S v l c)"
    by (intro triple_bnd[OF triple_transfer] triple_if triple_call_precompile triple_read triple_call_code[OF sub]
        triple_bnd[OF triple_commit] settle_quiet settle_refund push_one quiet_intros) (use fz in auto)
qed

lemma triple_do_call:
  assumes sub: "tame sub"
  shows "triple (entry S v l c) (do_call E sub kind) (\<lambda>_. call_post (is_static c \<or> kind = StaticCall) S v l c)
    (settled (is_static c \<or> kind = StaticCall) S v l c)"
proof -
  let ?Q = "\<lambda>_ :: unit. call_post (is_static c \<or> kind = StaticCall) S v l c" and ?Z = "settled (is_static c \<or> kind = StaticCall) S v l c"
  note quiet = entry_quiet
  have body: "triple (entry S v l c) (call_body E sub kind tg w data at fw fb ro rl) ?Q ?Z"
    if "is_static c \<or> kind = StaticCall \<Longrightarrow> \<not> at" for tg w data at fw fb ro rl
    using that by (intro triple_call_body[OF sub]) simp
  show ?thesis
    unfolding do_call_def Let_def case_prod_beta
  proof (rule quiet[OF quiet_memory(4)], rule quiet[OF quiet_memory(5)], rule quiet[OF quiet_call_value], rule triple_gets, goal_cases)
    case (1 gas tg w st)
    show ?case
    proof (cases "transfers kind \<and> st \<and> \<not> u256_is_zero w")
      case True
      then show ?thesis by (auto intro!: triple_basic entry_settled)
    next
      case False
      show ?thesis
      proof (cases "st = is_static c")
        case st: True
        have nt: "\<not> (transfers kind \<and> \<not> u256_is_zero w)" if "is_static c \<or> kind = StaticCall"
          using that False st by (auto simp: transfers_def)
        show ?thesis
          apply (rule triple_pre[where P' = "entry S v l c"])
          using False apply (simp only: if_False)
          apply (intro quiet triple_read triple_if body fails_quiet quiet_intros)
          using nt by auto
      next
        case st: False
        then show ?thesis by (intro triple_absurd) (auto simp: entry_def)
      qed
    qed
  qed
qed

text \<open>A creation needs only the balance of snapshots: it never runs in a static frame.\<close>

definition balanced where
  "balanced S c s \<longleftrightarrow> saved (host s) = S \<and> ctx s = c"

definition opened where
  "opened i S c s \<longleftrightarrow> (\<exists>v. saved (host s) = (i, v) # S) \<and> ctx s = c"

lemma local_balance: "local (balanced S c)" "local (opened i S c)"
  by (auto simp: local_def balanced_def opened_def)

lemma triple_opened:
  "triple (opened i S c) (host_do (\<lambda>h. h_revert_to E h i)) (\<lambda>_. balanced S c) Z"
  "triple (opened i S c) (host_do (\<lambda>h. h_commit E h i)) (\<lambda>_. balanced S c) Z"
  "triple (opened i S c) (host_do (\<lambda>h. h_set_code E h a cd)) (\<lambda>_. opened i S c) Z"
  "triple (opened i S c) (host_do (\<lambda>h. h_mark_created E h a)) (\<lambda>_. opened i S c) Z"
  "triple (balanced S c) (upd (\<lambda>s. s\<lparr>logs := lg s, return_data := rd s\<rparr>)) (\<lambda>_. balanced S c) Z"
  "local P \<Longrightarrow> triple P (upd (\<lambda>s. s\<lparr>warm_addresses := w s\<rparr>)) (\<lambda>_. P) Z"
  unfolding host_do_def
  by (rule triple_upd; auto simp: opened_def balanced_def local_def revert commit undisturbed)+

lemma triple_open: "triple (\<lambda>s. balanced S c s \<and> h_nonce E (host s) a = 0) (take_snapshot E)
    (\<lambda>i s. opened i S c s \<and> h_nonce E (host s) a = 0) Z"
proof -
  have "h_nonce E h' a = h_nonce E h a" if "h_snapshot E h = (i, h')" for h h' i
    using nonce_view[of h' h] snapshot[OF that] by simp
  then show ?thesis
    unfolding triple_def take_snapshot_def balanced_def opened_def using snapshot by (auto split: prod.splits)
qed

lemma triple_endow:
  "triple (\<lambda>s. opened i S c s \<and> h_nonce E (host s) a = 0)
     (if z then bnd (gets f) (\<lambda>self. host_do (\<lambda>h. snd (h_transfer E h self a w))) else ret ())
     (\<lambda>_ s. opened i S c s \<and> h_nonce E (host s) a = 0) Z"
  unfolding host_do_def
  by (intro triple_if triple_read triple_upd triple_basic) (auto simp: opened_def undisturbed transfer_nonce)

lemma triple_first_nonce:
  "triple (\<lambda>s. opened i S c s \<and> h_nonce E (host s) a = 0) (host_inc_nonce E a) (\<lambda>_. opened i S c) Z"
  unfolding triple_def host_inc_nonce_def opened_def
  using inc_nonce by (fastforce split: prod.splits res.splits simp: is_Ok_iff)

lemma triple_affordable:
  assumes "local P" "\<And>s. R s \<Longrightarrow> a \<le> gas_remaining s"
  shows "triple (\<lambda>s. P s \<and> R s) (consume_gas a) (\<lambda>_. P) Z"
  using assms unfolding triple_def local_def by (fastforce simp: consume_gas_eq split: res.splits)

lemma triple_run_create:
  assumes "tame sub"
  shows "triple (opened i S c) (run_sub sub (\<lambda>s. sub_interp (create_context (ctx s) a w fw) cd sn fw cr s)) (\<lambda>_. opened i S c) Z"
proof -
  have "triple (pending i False S v l c) (run_sub sub (\<lambda>s. sub_interp (create_context (ctx s) a w fw) cd sn fw cr s)) (\<lambda>_. opened i S c) Z"
    for v l
    by (rule triple_conseq[OF triple_run_sub[OF assms, where l = l and v = v]])
      (auto simp: sub_interp_def interp_new_def pending_def opened_def split: prod.splits)
  then show ?thesis unfolding triple_def opened_def pending_def by fast
qed

lemma balanced_quiet: "keeps quiet m \<Longrightarrow> triple (balanced S c) m (\<lambda>_. balanced S c) (balanced S c)"
  by (erule triple_quiet[OF _ local_balance(1)])

lemma triple_deploy:
  "triple (opened i S c) (deploy E a cd lg i) (\<lambda>_. balanced S c) (balanced S c)"
  unfolding deploy_def Let_def
proof (intro triple_if triple_bnd[OF triple_opened(1)] triple_gets balanced_quiet quiet_intros, goal_cases)
  case (1 gas)
  show ?case
    by (rule triple_pre[OF triple_bnd[OF triple_opened(1) balanced_quiet[OF quiet_copy(5)]]]) auto
next
  case (2 gas)
  then show ?case
    by (intro triple_bnd[OF triple_affordable[OF local_balance(2)]] triple_bnd[OF triple_opened(3)]
        triple_bnd[OF triple_opened(2)] triple_bnd[OF triple_opened(5)] balanced_quiet quiet_intros) simp
qed

lemma triple_create_body:
  assumes sub: "tame sub"
  shows "triple (\<lambda>s. balanced S c s \<and> h_nonce E (host s) a = 0) (create_body E sub a w initcode) (\<lambda>_. balanced S c) (balanced S c)"
  unfolding create_body_def case_prod_beta
  apply (intro triple_bnd[OF triple_open] triple_bnd[OF triple_endow] triple_bnd[OF triple_first_nonce] triple_bnd[OF triple_opened(4)]
      triple_gets triple_bnd[OF triple_affordable[OF local_balance(2)]] triple_bnd[OF triple_run_create[OF sub]]
      triple_bnd[OF triple_opened(6)[OF local_balance(2)]] triple_bnd[OF triple_refund[OF local_balance(2)]] triple_if triple_deploy
      triple_bnd[OF triple_opened(1)] balanced_quiet quiet_intros)
  using forward_le by auto

text \<open>The four operations a static frame may not perform.\<close>

lemma unless_static:
  assumes "triple (balanced S c) m (\<lambda>_. balanced S c) (balanced S c)"
  shows "triple (entry S v l c) (bnd (gets (\<lambda>s. is_static (ctx s))) (\<lambda>st. if st then fail StaticStateChange else m))
    (\<lambda>_. settled (is_static c) S v l c) (settled (is_static c) S v l c)"
proof (rule triple_gets, rule triple_if)
  fix st
  show "triple (\<lambda>s. entry S v l c s \<and> is_static (ctx s) = st) (fail StaticStateChange)
    (\<lambda>_. settled (is_static c) S v l c) (settled (is_static c) S v l c)"
    by (intro triple_basic) (auto intro: entry_settled)
  show "triple (\<lambda>s. entry S v l c s \<and> is_static (ctx s) = st) m (\<lambda>_. settled (is_static c) S v l c) (settled (is_static c) S v l c)"
    if st: "\<not> st"
  proof (cases "is_static c")
    case False
    then show ?thesis by (intro triple_conseq[OF assms]) (auto simp: entry_def balanced_def settled_def)
  next
    case True
    then show ?thesis using st by (intro triple_absurd) (auto simp: entry_def)
  qed
qed

lemmas bal_quiet = triple_quiet_bnd[OF _ local_balance(1)]

lemma balanced_host:
  "(\<And>s. saved (f s) = saved (host s)) \<Longrightarrow> triple (balanced S c) (upd (\<lambda>s. s\<lparr>host := f s\<rparr>)) (\<lambda>_. balanced S c) Z"
  "triple (balanced S c) (upd (\<lambda>s. s\<lparr>logs := g s\<rparr>)) (\<lambda>_. balanced S c) Z"
  by (rule triple_upd; simp add: balanced_def)+

lemma triple_exec:
  "triple (entry S v l c) (exec_sstore E) (\<lambda>_. settled (is_static c) S v l c) (settled (is_static c) S v l c)"
  "triple (entry S v l c) (exec_log op) (\<lambda>_. settled (is_static c) S v l c) (settled (is_static c) S v l c)"
  "triple (entry S v l c) (exec_selfdestruct E) (\<lambda>_. settled (is_static c) S v l c) (settled (is_static c) S v l c)"
  unfolding exec_sstore_def exec_log_def exec_selfdestruct_def Let_def
  by (rule unless_static, intro bal_quiet balanced_host triple_bnd[OF balanced_host(1)] triple_basic quiet_intros; (simp add: undisturbed)?)+

lemma triple_do_create:
  assumes sub: "tame sub"
  shows "triple (entry S v l c) (do_create E sub salted) (\<lambda>_. settled (is_static c) S v l c) (settled (is_static c) S v l c)"
proof -
  have inc: "triple (balanced S c) (host_inc_nonce E a) (\<lambda>_. balanced S c) (balanced S c)" for a
    unfolding triple_def host_inc_nonce_def balanced_def using inc_nonce by (fastforce split: prod.splits res.splits)
  have body: "triple (balanced S c) (bnd (gets (\<lambda>s. h_nonce E (host s) a > 0 \<or> h_code E (host s) a \<noteq> [])) (\<lambda>taken.
      if taken then push_zero else create_body E sub a w initcode)) (\<lambda>_. balanced S c) (balanced S c)" for a w initcode
  proof (rule triple_gets, rule triple_if)
    fix taken
    show "triple (\<lambda>s. balanced S c s \<and> (0 < h_nonce E (host s) a \<or> h_code E (host s) a \<noteq> []) = taken) push_zero
      (\<lambda>_. balanced S c) (balanced S c)"
      by (rule triple_pre[OF balanced_quiet[OF quiet_copy(5)]]) simp
    show "triple (\<lambda>s. balanced S c s \<and> (0 < h_nonce E (host s) a \<or> h_code E (host s) a \<noteq> []) = taken) (create_body E sub a w initcode)
      (\<lambda>_. balanced S c) (balanced S c)" if "\<not> taken"
      by (rule triple_pre[OF triple_create_body[OF sub]]) (use that in auto)
  qed
  show ?thesis
    unfolding do_create_def case_prod_beta
    by (rule unless_static, intro bal_quiet triple_read triple_if triple_basic body triple_bnd[OF inc] balanced_quiet quiet_intros; simp)
qed

text \<open>Every instruction.\<close>

lemma triple_pc: "local P \<Longrightarrow> triple P (upd (\<lambda>s. s\<lparr>pc := f s\<rparr>)) (\<lambda>_. P) Z"
  by (rule triple_upd) (auto simp: local_def)

lemma triple_advance: "triple P m (\<lambda>_. settled fz S v l c) Z \<Longrightarrow> triple P (advance m) (\<lambda>_. settled fz S v l c) Z"
  unfolding advance_def by (erule triple_bnd) (intro triple_bnd[OF triple_pc[OF local_preds(2)]] triple_basic)

lemma quiet_settled: "keeps quiet m \<Longrightarrow> triple (entry S v l c) m (\<lambda>_. settled fz S v l c) (settled fz S v l c)"
  by (rule triple_conseq[OF triple_quiet[OF _ local_preds(1), where Z = "settled fz S v l c"]]) (auto simp: entry_settled)

lemma triple_jump:
  "triple (entry S v l c) (exec_jump op) (\<lambda>_. settled fz S v l c) (settled fz S v l c)"
  "triple (entry S v l c) (exec_push op) (\<lambda>_. settled fz S v l c) (settled fz S v l c)"
proof -
  have pc: "triple (entry S v l c) (upd (\<lambda>s. s\<lparr>pc := f s\<rparr>)) (\<lambda>_. settled fz S v l c) Z" for f Z
    by (rule triple_upd) (auto simp: entry_def settled_def)
  have j: "triple (entry S v l c) (jump_to d) (\<lambda>_. settled fz S v l c) (settled fz S v l c)" for d
    unfolding jump_to_def by (intro triple_read triple_if triple_bnd[OF pc] triple_basic) (auto intro: entry_settled)
  show "triple (entry S v l c) (exec_jump op) (\<lambda>_. settled fz S v l c) (settled fz S v l c)"
    unfolding exec_jump_def
    by (intro triple_if entry_quiet j triple_advance[OF quiet_settled[OF quiet_rel.keeps_basic(1)]] quiet_memory quiet_stack)
  show "triple (entry S v l c) (exec_push op) (\<lambda>_. settled fz S v l c) (settled fz S v l c)"
    unfolding exec_push_def Let_def by (intro entry_quiet pc quiet_intros)
qed

lemma triple_call_settled:
  "tame sub \<Longrightarrow> triple (entry S v l c) (do_call E sub kind) (\<lambda>_. settled (is_static c) S v l c) (settled (is_static c) S v l c)"
  by (rule triple_conseq[OF triple_do_call]) (auto simp: call_post_def settled_def)

lemma triple_execute:
  assumes sub: "tame sub"
  shows "triple (entry S v l c) (execute E sub op b) (\<lambda>_. settled (is_static c) S v l c) (settled (is_static c) S v l c)"
  unfolding execute_def
  by (intro triple_if triple_advance triple_exec triple_jump triple_call_settled[OF sub] triple_do_create[OF sub] quiet_settled quiet_intros)

lemma step_settled:
  assumes sub: "tame sub" and step: "step E sub s = Some (r, t)" "r \<noteq> Panic"
  shows "settled (is_static (ctx s)) (saved (host s)) (view (host s)) (logs s) (ctx s) t"
proof -
  let ?Z = "settled (is_static (ctx s)) (saved (host s)) (view (host s)) (logs s) (ctx s)"
  have e: "entry (saved (host s)) (view (host s)) (logs s) (ctx s) s" by (simp add: entry_def)
  have "triple (entry (saved (host s)) (view (host s)) (logs s) (ctx s))
      (bnd (consume_gas g) (\<lambda>_. execute E sub op b)) (\<lambda>_. ?Z) ?Z" for g op b
    by (intro entry_quiet triple_execute[OF sub] quiet_intros)
  from tripleD[OF this e] show ?thesis
    using step entry_settled[OF e] unfolding step_def Let_def by (cases r) (auto split: if_splits)
qed

lemma settled_trans:
  "settled (is_static (ctx s)) (saved (host s)) (view (host s)) (logs s) (ctx s) u
    \<Longrightarrow> settled (is_static (ctx u)) (saved (host u)) (view (host u)) (logs u) (ctx u) t
    \<Longrightarrow> settled (is_static (ctx s)) (saved (host s)) (view (host s)) (logs s) (ctx s) t"
  by (auto simp: settled_def)

lemma run_settled:
  "run E s = Some (r, t) \<Longrightarrow> r \<noteq> Panic
    \<Longrightarrow> settled (is_static (ctx s)) (saved (host s)) (view (host s)) (logs s) (ctx s) t"
proof -
  assume "run E s = Some (r, t)" "r \<noteq> Panic"
  then have "(\<forall>e. r \<noteq> Err e) \<and> (r \<noteq> Panic \<longrightarrow> settled (is_static (ctx s)) (saved (host s)) (view (host s)) (logs s) (ctx s) t)"
  proof (induction rule: run_induct)
    case (halt sub s st t)
    then show ?case using step_settled[of sub s _ t] by (force simp: tame_def)
  next
    case (error sub s e t)
    then show ?case using step_settled[of sub s _ t] by (force simp: tame_def)
  next
    case (continue sub s w r t)
    then have "tame sub" by (force simp: tame_def)
    then show ?case using settled_trans step_settled continue(2,3) by blast
  qed simp
  then show ?thesis using \<open>r \<noteq> Panic\<close> by blast
qed

lemma tame_run: "tame (run E)"
  unfolding tame_def using run_settled run_not_Err by blast

lemma run_balanced: "run E s = Some (r, t) \<Longrightarrow> r \<noteq> Panic \<Longrightarrow> saved (host t) = saved (host s)"
  using run_settled by (auto simp: settled_def)

lemma run_static:
  "run E s = Some (r, t) \<Longrightarrow> r \<noteq> Panic \<Longrightarrow> is_static (ctx s) \<Longrightarrow> view (host t) = view (host s) \<and> logs t = logs s"
  using run_settled by (auto simp: settled_def)

lemma call_settled:
  assumes "do_call E (run E) kind s = Some (Ok (), t)"
  shows "kind = StaticCall \<or> hd (stack t) = zero32 \<Longrightarrow> view (host t) = view (host s) \<and> logs t = logs s"
    "saved (host t) = saved (host s)"
proof -
  have "call_post (is_static (ctx s) \<or> kind = StaticCall) (saved (host s)) (view (host s)) (logs s) (ctx s) t"
    by (rule tripleD(1)[OF triple_do_call[OF tame_run] _ assms]) (simp add: entry_def)
  then show "kind = StaticCall \<or> hd (stack t) = zero32 \<Longrightarrow> view (host t) = view (host s) \<and> logs t = logs s"
    "saved (host t) = saved (host s)"
    by (auto simp: call_post_def settled_def entry_def)
qed

end

section \<open>The host of the crate\<close>

definition mock_view :: "mock_host \<Rightarrow> (address \<rightharpoonup> mock_account) \<times> address set" where
  "mock_view h = (accounts h, created_this_tx h)"

definition mock_saved :: "mock_host \<Rightarrow> (u64 \<times> (address \<rightharpoonup> mock_account) \<times> address set) list" where
  "mock_saved h = map (\<lambda>s. (snap_id s, snap_accounts s, snap_created s)) (snapshots h)"

lemma with_entry_simps [simp]:
  "snapshots (with_entry h a f) = snapshots h" "created_this_tx (with_entry h a f) = created_this_tx h"
  "account (with_entry h a f) b = (if b = a then f (account h a) else account h b)"
  by (simp_all add: with_entry_def account_def)

interpretation mock: undo_host "mock_env K pre" mock_view mock_saved
proof unfold_locales
  show "h_snapshot (mock_env K pre) h = (i, h') \<Longrightarrow> mock_view h' = mock_view h \<and> mock_saved h' = (i, mock_view h) # mock_saved h"
    for h i h'
    by (auto simp: mock_env_def mock_snapshot_take_def mock_view_def mock_saved_def Let_def)
  show "mock_saved h = (i, v) # L \<Longrightarrow> mock_view (h_revert_to (mock_env K pre) h i) = v
      \<and> mock_saved (h_revert_to (mock_env K pre) h i) = L" for h i v L
    by (cases "snapshots h") (auto simp: mock_env_def mock_revert_to_def mock_view_def mock_saved_def)
  show "mock_saved h = (i, v) # L \<Longrightarrow> mock_view (h_commit (mock_env K pre) h i) = mock_view h
      \<and> mock_saved (h_commit (mock_env K pre) h i) = L" for h i v L
    by (cases "snapshots h") (auto simp: mock_env_def mock_commit_def mock_view_def mock_saved_def)
  show "mock_view h = mock_view h' \<Longrightarrow> h_nonce (mock_env K pre) h = h_nonce (mock_env K pre) h'" for h h'
    by (auto simp: mock_env_def mock_nonce_def mock_view_def account_def fun_eq_iff)
  show "h_nonce (mock_env K pre) (snd (h_transfer (mock_env K pre) h a b w)) = h_nonce (mock_env K pre) h" for h a b w
    by (auto simp: mock_env_def mock_nonce_def mock_transfer_def Let_def fun_eq_iff)
  show "h_inc_nonce (mock_env K pre) h a = (r, h') \<Longrightarrow> mock_saved h' = mock_saved h
      \<and> (h_nonce (mock_env K pre) h a = 0 \<longrightarrow> is_Ok r)" for h a r h'
    by (auto simp: mock_env_def mock_inc_nonce_def mock_saved_def Let_def checked_add_def split: option.splits if_splits)
qed (auto simp: mock_env_def mock_storage_store_def mock_set_code_def mock_transfer_def mock_destruct_def mock_mark_created_def
    mock_saved_def Let_def)

text \<open>
  C29: A run in a static frame, whatever its code and its nested calls, leaves the accounts (balances,
  nonces, code, storage), the set of created contracts and the logs as they were, unless it panics.
\<close>

theorem evm_static_safe:
  assumes "run (mock_env K pre) s = Some (r, t)" "r \<noteq> Panic" "is_static (ctx s)"
  shows "accounts (host t) = accounts (host s) \<and> created_this_tx (host t) = created_this_tx (host s) \<and> logs t = logs s"
  using mock.run_static[OF assms] by (simp add: mock_view_def)

text \<open>
  C28: A message call, of any of the four kinds, that returns with zero on the stack has had no effect on
  the accounts, the created contracts or the logs, however deep the calls and creations in it went;
  neither has a static call that succeeds. Every call closes the snapshots it opened.
\<close>

theorem evm_failed_call_reverts:
  assumes "do_call (mock_env K pre) (run (mock_env K pre)) kind s = Some (Ok (), t)"
  shows "snapshots (host t) = snapshots (host s) \<and> (hd (stack t) = zero32 \<or> kind = StaticCall
    \<longrightarrow> accounts (host t) = accounts (host s) \<and> created_this_tx (host t) = created_this_tx (host s) \<and> logs t = logs s)"
proof -
  have "inj (\<lambda>s :: mock_snapshot. (snap_id s, snap_accounts s, snap_created s))" by (auto simp: inj_def)
  then have "snapshots (host t) = snapshots (host s)"
    using mock.call_settled(2)[OF assms] by (simp add: mock_saved_def inj_map_eq_map)
  then show ?thesis using mock.call_settled(1)[OF assms] by (auto simp: mock_view_def)
qed

section \<open>Jump destinations\<close>

text \<open>The positions at which an instruction starts: after a \<^verbatim>\<open>PUSHn\<close> comes the one past its operand.\<close>

definition next_instruction :: "byte list \<Rightarrow> nat \<Rightarrow> nat" where
  "next_instruction cd p = (let op = unat (cd ! p) in if 0x60 \<le> op \<and> op \<le> 0x7f then p + 1 + (op - 0x5f) else p + 1)"

inductive starts_from :: "byte list \<Rightarrow> nat \<Rightarrow> nat \<Rightarrow> bool" for cd where
  here: "starts_from cd p p"
| later: "p < length cd \<Longrightarrow> starts_from cd (next_instruction cd p) q \<Longrightarrow> starts_from cd p q"

definition bitmap_has :: "byte list \<Rightarrow> nat \<Rightarrow> bool" where
  "bitmap_has bm d \<longleftrightarrow> and (bm ! (d div 8)) (push_bit (d mod 8) 1) \<noteq> 0"

lemma bitmap_has_bit: "bitmap_has bm d \<longleftrightarrow> bit (bm ! (d div 8)) (d mod 8)"
  by (simp add: bitmap_has_def bit_iff_and_push_bit_not_eq_0)

lemma bitmap_set:
  assumes "p div 8 < length bm"
  shows "bitmap_has (bm[p div 8 := or (bm ! (p div 8)) (push_bit (p mod 8) 1)]) d \<longleftrightarrow> bitmap_has bm d \<or> d = p"
proof (cases "d div 8 = p div 8")
  case True
  have "bit (push_bit (p mod 8) 1 :: byte) (d mod 8) \<longleftrightarrow> d mod 8 = p mod 8" by (auto simp: bit_simps)
  also have "\<dots> \<longleftrightarrow> d = p" using True by (metis div_mult_mod_eq)
  finally show ?thesis using assms True by (simp add: bitmap_has_bit bit_or_iff)
qed (auto simp: bitmap_has_bit)

lemma starts_from_ge: "starts_from cd p q \<Longrightarrow> p \<le> q"
  by (induction rule: starts_from.induct) (auto simp: next_instruction_def Let_def split: if_splits)

lemma starts_from_unfold: "p < length cd \<Longrightarrow> starts_from cd p q \<longleftrightarrow> q = p \<or> starts_from cd (next_instruction cd p) q"
  by (subst starts_from.simps) auto

lemma bitmap_loop_has:
  "length bm = (length cd + 7) div 8 \<Longrightarrow> d < length cd
    \<Longrightarrow> bitmap_has (bitmap_loop cd bm p) d \<longleftrightarrow> bitmap_has bm d \<or> starts_from cd p d \<and> unat (cd ! d) = 0x5b"
proof (induction cd bm p rule: bitmap_loop.induct)
  case (1 cd bm p)
  show ?case
  proof (cases "p < length cd")
    case False
    then show ?thesis using 1(5) starts_from_ge[of cd p d] by (subst bitmap_loop.simps) auto
  next
    case True
    have p: "p div 8 < length bm" using True 1(4) by linarith
    note step = starts_from_unfold[OF True, of d] and loop = bitmap_loop.simps[of cd bm p]
    consider "unat (cd ! p) = 0x5b" | "unat (cd ! p) \<noteq> 0x5b" "0x60 \<le> unat (cd ! p) \<and> unat (cd ! p) \<le> 0x7f"
      | "unat (cd ! p) \<noteq> 0x5b" "\<not> (0x60 \<le> unat (cd ! p) \<and> unat (cd ! p) \<le> 0x7f)" by blast
    then show ?thesis
    proof cases
      case a: 1
      then show ?thesis using 1(1)[OF True refl a] 1(4,5) True bitmap_set[OF p, of d] step
        by (auto simp: loop Let_def next_instruction_def)
    next
      case a: 2
      then show ?thesis using 1(2)[OF True refl a] 1(4,5) True step by (auto simp: loop Let_def next_instruction_def)
    next
      case a: 3
      then show ?thesis using 1(3)[OF True refl a] 1(4,5) True step by (auto simp: loop Let_def next_instruction_def)
    qed
  qed
qed

text \<open>
  C31: A jump is accepted exactly at the positions that hold a \<^verbatim>\<open>JUMPDEST\<close> byte and at which an
  instruction starts when the code is read from its beginning, so never inside the operand of a
  \<^verbatim>\<open>PUSH\<close>.
\<close>

theorem evm_jumpdests_exact:
  "is_valid_jumpdest (interp_new c cd h) dest \<longleftrightarrow> dest < length cd \<and> cd ! dest = 0x5b \<and> starts_from cd 0 dest"
proof (cases "dest < length cd")
  case True
  have none: "\<not> bitmap_has (replicate ((length cd + 7) div 8) 0) dest"
    using True by (simp add: bitmap_has_def)
  have b: "unat (cd ! dest) = 0x5b \<longleftrightarrow> cd ! dest = 0x5b" by (simp add: word_unat_eq_iff)
  show ?thesis
    using bitmap_loop_has[of "replicate ((length cd + 7) div 8) 0" cd dest 0] True none
    by (simp add: is_valid_jumpdest_def interp_new_def build_jumpdest_bitmap_def bitmap_has_def b) blast
qed (simp add: is_valid_jumpdest_def interp_new_def)


section \<open>Examples\<close>

text \<open>A host in which the code of the account \<open>0xCC\<close> is the invalid instruction.\<close>

definition sample_ctx :: "bool \<Rightarrow> evm_context" where
  "sample_ctx static =
     \<lparr>caller = 0xAA, callee = 0xBB, cvalue = zero32, calldata = [], gas_limit = 100000, is_static = static,
      block_number = 1, timestamp = 1, coinbase = 0, base_fee = 1, gas_price = 1, tx_origin = 0xAA, chain_id = 0,
      randao_mix = zero32\<rparr>"

definition sample_host :: mock_host where
  "sample_host = mock_set_code mock_new 0xCC [0xfe]"

definition sample_call :: "mock_host interp" where
  "sample_call = (interp_new (sample_ctx False) [0xf1] sample_host)
     \<lparr>stack := [u256_from_u64 50, u256_from_u64 0xCC, zero32, zero32, zero32, zero32, zero32]\<rparr>"

lemma run_invalid:
  assumes "pc s < length (code s)" "code s ! pc s = 0xfe"
  shows "run E s = Some (Ok (Failed (InvalidOpcode 0xfe), gas_used s), s)"
proof -
  have "step E sub s = Some (Err (InvalidOpcode 0xfe), s)" for sub
    using assms by (simp add: step_def opcode_defined_def static_gas_def execute_def consume_gas_eq)
  then show ?thesis by (subst run.simps) simp
qed

lemma run_static_sstore:
  assumes "pc s < length (code s)" "code s ! pc s = 0x55" "is_static (ctx s)"
  shows "run E s = Some (Ok (Failed StaticStateChange, gas_used s), s)"
proof -
  have "step E sub s = Some (Err StaticStateChange, s)" for sub
    using assms by (simp add: step_def opcode_defined_def static_gas_def execute_def consume_gas_eq advance_def exec_sstore_def)
  then show ?thesis by (subst run.simps) simp
qed

lemma evm_static_safe_witness:
  "\<exists>t. run (mock_env (\<lambda>_. 0) (\<lambda>_ _ _ _ _. None)) (interp_new (sample_ctx True) [0x55] sample_host)
       = Some (Ok (Failed StaticStateChange, 0), t)
     \<and> accounts (host t) = accounts sample_host \<and> created_this_tx (host t) = created_this_tx sample_host \<and> logs t = []"
proof -
  let ?s = "interp_new (sample_ctx True) [0x55] sample_host"
  have r: "run (mock_env (\<lambda>_. 0) (\<lambda>_ _ _ _ _. None)) ?s = Some (Ok (Failed StaticStateChange, 0), ?s)"
    using run_static_sstore[of ?s] by (simp add: interp_new_def sample_ctx_def gas_used_def)
  have s: "is_static (ctx ?s)" "host ?s = sample_host" "logs ?s = []" by (simp_all add: interp_new_def sample_ctx_def)
  have "accounts (host ?s) = accounts (host ?s) \<and> created_this_tx (host ?s) = created_this_tx (host ?s) \<and> logs ?s = logs ?s"
    by (rule evm_static_safe[OF r _ s(1)]) simp
  then show ?thesis using r s by (intro exI[of _ ?s]) (simp only: simp_thms)
qed

text \<open>Evaluation from the left: the continuation is not touched before its turn.\<close>

lemma bnd_lazy: "m = m' \<Longrightarrow> s = s' \<Longrightarrow> bnd m k s = bnd m' k s'"
  by simp

lemma bnd_eval:
  "bnd (gets f) k s = k (f s) s" "bnd (ret x) k s = k x s" "bnd (fail e) k s = Some (Err e, s)" "bnd (upd g) ku s = ku () (g s)"
  "bnd (bnd m j) kj s = bnd m (\<lambda>x. bnd (j x) kj) s" "bnd (lift (Ok x)) k s = k x s"
  "bnd (ensure off 0) kn s = kn 0 s" "bnd (run_sub sub mk) kr s =
     (case sub (mk s) of None \<Rightarrow> None | Some (r, t) \<Rightarrow>
        bnd (lift (bind_res r (\<lambda>(status, used). Ok (status, used, return_data t, warm_addresses t, logs t)))) kr (s\<lparr>host := host t\<rparr>))"
  by (auto simp: bnd_def gets_def ret_def fail_def upd_def lift_def ensure_def memory_ensure_def run_sub_def
      split: option.splits res.splits Option.bind_splits)

lemma bnd_snapshot: "bnd (take_snapshot E) k s = k (fst (h_snapshot E (host s))) (s\<lparr>host := snd (h_snapshot E (host s))\<rparr>)"
  by (simp add: take_snapshot_def bnd_def split: prod.splits)

lemma bnd_pop: "stack s = v # vs \<Longrightarrow> bnd pop k s = k v (s\<lparr>stack := vs\<rparr>)"
  by (simp add: pop_def)

lemma bnd_gas: "a \<le> gas_remaining s \<Longrightarrow> bnd (consume_gas a) k s = k () (s\<lparr>gas_remaining := gas_remaining s - a\<rparr>)"
  by (simp add: consume_gas_eq)

lemma sample_words:
  "of_nat (be_val (drop 12 (u256_from_u64 204))) = (0xCC :: address)" "u256_to_u64 (u256_from_u64 50) = 50"
  "u256_to_u64 zero32 = 0" "u256_is_zero zero32" "\<not> is_precompile 0xCC"
  by code_simp+

lemma sample_call_fails:
  "\<exists>t. do_call (mock_env K pre) (run (mock_env K pre)) Call sample_call = Some (Ok (), t) \<and> hd (stack t) = u256_from_u64 0"
  unfolding do_call_def
  by (simp add: sample_call_def interp_new_def bnd_eval bnd_pop pop_u64_def pop_address_def transfers_def sample_ctx_def
      expand_def read_mem_def memory_read_def touch_def charge_value_def bnd_gas gas_consts forward_gas_eip150_def sample_words
      Let_def call_body_def bnd_snapshot mock_env_def mock_snapshot_take_def mock_new_def sample_host_def mock_set_code_def
      mock_code_def with_entry_def account_def default_account_def call_code_def run_invalid sub_interp_def sub_context_def
      host_do_def refund_gas_def write_output_def push_def MAX_STACK_def gas_used_def
      cong: bnd_lazy)

lemma evm_failed_call_reverts_witness:
  "\<exists>t. do_call (mock_env (\<lambda>_. 0) (\<lambda>_ _ _ _ _. None)) (run (mock_env (\<lambda>_. 0) (\<lambda>_ _ _ _ _. None))) Call sample_call = Some (Ok (), t)
     \<and> hd (stack t) = zero32 \<and> accounts (host t) = accounts sample_host \<and> snapshots (host t) = []"
proof -
  have "zero32 = u256_from_u64 0" by code_simp
  then obtain t where t: "do_call (mock_env (\<lambda>_. 0) (\<lambda>_ _ _ _ _. None)) (run (mock_env (\<lambda>_. 0) (\<lambda>_ _ _ _ _. None))) Call sample_call
      = Some (Ok (), t)" "hd (stack t) = zero32"
    using sample_call_fails[of "\<lambda>_. 0" "\<lambda>_ _ _ _ _. None"] by auto
  have "host sample_call = sample_host" "snapshots sample_host = []"
    by (simp_all add: sample_call_def interp_new_def sample_host_def mock_set_code_def mock_new_def)
  then show ?thesis using t evm_failed_call_reverts[OF t(1)] by auto
qed

section \<open>Deviations\<close>

text \<open>
  \<^verbatim>\<open>MockHost::transfer\<close> reads both balances before it writes either, so that a transfer to oneself
  adds the value. A \<^verbatim>\<open>CALL\<close> with a value to the contract's own address does that.
\<close>

lemma self_transfer_mints:
  "v \<noteq> zero32 \<Longrightarrow> \<not> u256_lt (mock_balance h a) v
    \<Longrightarrow> mock_balance (snd (mock_transfer h a a v)) a = u256_add (mock_balance h a) v"
  by (simp add: mock_transfer_def mock_balance_def Let_def)

text \<open>A copy instruction whose source offset is past the end slices out of range.\<close>

lemma copy_past_end_panics: "length data < src \<Longrightarrow> copy_padded data src n = Panic"
  by (simp add: copy_padded_def slice_def)

text \<open>Storing the value a warm slot already has is free.\<close>

lemma noop_sstore_free:
  assumes "stack s = key # v # rest" "\<not> is_static (ctx s)" "(callee (ctx s), key) \<in> warm_storage s"
    "h_storage_load E (host s) (callee (ctx s)) key = v"
  shows "exec_sstore E s = Some (Ok (), s\<lparr>stack := rest, host := h_storage_store E (host s) (callee (ctx s)) key v\<rparr>)"
  using assms by (simp add: exec_sstore_def bnd_eval bnd_pop touch_slot_def cong: bnd_lazy)

lemma sstore_static_gas: "static_gas 0x55 = 0"
  by (simp add: static_gas_def)

end
