(* ===== verification/Evm_Types.thy ===== *)
theory Evm_Types
  imports Evm_Arith Evm_Safety
begin

text \<open>
  The types the Rust code relies on and the model's lists do not have: a stack item, a storage value
  and a balance are arrays of 32 bytes; the stack has at most 1024 items; the memory is whole words
  and at most 32 MiB. \<open>typed R m\<close> says that the operation keeps them and that its value satisfies \<open>R\<close>;
  it goes through sequencing. \<open>typed_host\<close> is what the host has to provide, and \<open>mock_host\<close> does.
\<close>

section \<open>Words\<close>

named_theorems w32_intros \<open>operations whose results are words of 32 bytes\<close>

lemma w32_if: "w32 a \<Longrightarrow> w32 b \<Longrightarrow> w32 (if c then a else b)"
  by simp

lemma length_shl_bytes: "length (snd (shl_bytes a)) = length a"
  by (induction a rule: shl_bytes.induct) (auto split: prod.splits)

lemma w32_bring: "w32 r \<Longrightarrow> w32 (bring_bit r b)"
  by (simp add: bring_bit_def u256_shl_one_def Let_def w32_def length_shl_bytes)

lemma w32_reduce: "w32 n \<Longrightarrow> w32 r \<Longrightarrow> w32 (reduce n r)"
  using evm_sub_val by (simp add: reduce_def)

lemma w32_steps: "w32 n \<Longrightarrow> w32 r \<Longrightarrow> w32 (foldl (mod_step a n) r ks)"
  by (induction ks arbitrary: r) (auto simp: mod_step_def w32_bring w32_reduce)

lemma w32_basic [w32_intros]:
  "w32 zero32" "w32 (u256_from_u64 v)" "w32 (truth b)" "w32 (h256_bytes h)" "w32 (address_word ad)" "w32 (calldata_word data off)"
  by (auto simp: w32_def truth_def u256_from_u64_def zero32_def address_word_def calldata_word_def Let_def)

lemma w32_bits [w32_intros]:
  "w32 a \<Longrightarrow> w32 b \<Longrightarrow> w32 (u256_and a b)" "w32 a \<Longrightarrow> w32 b \<Longrightarrow> w32 (u256_or a b)" "w32 a \<Longrightarrow> w32 b \<Longrightarrow> w32 (u256_xor a b)"
  "w32 a \<Longrightarrow> w32 (u256_not a)" "w32 a \<Longrightarrow> w32 b \<Longrightarrow> w32 (u256_byte a b)" "w32 b \<Longrightarrow> w32 (u256_signextend a b)"
  "w32 b \<Longrightarrow> w32 (u256_shl a b)" "w32 b \<Longrightarrow> w32 (u256_shr a b)"
  by (auto simp: w32_def u256_and_def u256_or_def u256_xor_def u256_not_def u256_byte_def u256_signextend_def u256_shl_def
      u256_shr_def u256_from_u64_def zero32_def Let_def)

lemma w32_sign_fill: "w32 a \<Longrightarrow> w32 (foldl sign_fill a ks)"
  by (induction ks arbitrary: a) (auto simp: sign_fill_def w32_def)

lemma w32_sar [w32_intros]: "w32 b \<Longrightarrow> w32 (u256_sar a b)"
  by (auto simp: u256_sar_def Let_def intro!: w32_sign_fill w32_bits) (simp add: w32_def)

lemma w32_arith [w32_intros]:
  assumes "w32 a" "w32 b"
  shows "w32 (u256_add a b)" "w32 (u256_sub a b)" "w32 (u256_mul a b)" "w32 (u256_div a b)" "w32 (u256_mod a b)"
    "w32 (u256_exp a b)" "w32 (u256_sdiv a b)" "w32 (u256_smod a b)"
  using evm_add_val[OF assms] evm_sub_val[OF assms] evm_mul_val[OF assms] u256_div_val[OF assms] u256_mod_val[OF assms]
    u256_exp_val[OF assms] u256_sdiv_val[OF assms] u256_smod_val[OF assms] by auto

lemma w32_addmod [w32_intros]: "w32 a \<Longrightarrow> w32 b \<Longrightarrow> w32 n \<Longrightarrow> w32 (u256_addmod a b n)"
proof -
  assume w: "w32 a" "w32 b" "w32 n"
  obtain c r where s: "add_bytes a b = (c, r)" by (cases "add_bytes a b")
  then have r: "w32 r" using add_bytes_val[OF _ s] w by (simp add: w32_def)
  have m: "w32 (foldl (mod_step r n) (reduce n (bring_bit zero32 1)) [0 ..< 256])"
    by (intro w32_steps w32_reduce w32_bring w w32_zero)
  have "w32 (u256_mod r n)" using u256_mod_val[OF r w(3)] by blast
  then show ?thesis unfolding u256_addmod_def s prod.case by (intro w32_if m w32_zero)
qed

lemma w32_mulmod [w32_intros]: "w32 a \<Longrightarrow> w32 b \<Longrightarrow> w32 n \<Longrightarrow> w32 (u256_mulmod a b n)"
proof -
  assume w: "w32 a" "w32 b" "w32 n"
  have "w32 acc \<Longrightarrow> w32 (mulmod_step a b n acc k)" for acc k
    unfolding mulmod_step_def Let_def by (intro w32_if w32_addmod w)
  then have "w32 acc \<Longrightarrow> w32 (foldl (mulmod_step a b n) acc ks)" for acc ks
    by (induction ks arbitrary: acc) simp_all
  then show ?thesis unfolding u256_mulmod_def by (intro w32_if w32_zero) simp
qed

lemma w32_push_operand [w32_intros]: "n \<le> 32 \<Longrightarrow> w32 (push_operand cd start n)"
  by (auto simp: push_operand_def w32_def Let_def)

section \<open>Well-typed states\<close>

definition well_typed :: "('h \<Rightarrow> bool) \<Rightarrow> 'h interp \<Rightarrow> bool" where
  "well_typed good s \<longleftrightarrow> list_all w32 (stack s) \<and> length (stack s) \<le> MAX_STACK
     \<and> 32 dvd length (memory s) \<and> length (memory s) \<le> MAX_MEMORY
     \<and> w32 (cvalue (ctx s)) \<and> w32 (randao_mix (ctx s)) \<and> good (host s)"

definition typed :: "('h \<Rightarrow> bool) \<Rightarrow> ('a \<Rightarrow> bool) \<Rightarrow> ('h, 'a) evm \<Rightarrow> bool" where
  "typed good R m \<longleftrightarrow> triple (well_typed good) m (\<lambda>x s. well_typed good s \<and> R x) (well_typed good)"

named_theorems typed_intros \<open>operations that keep a state well typed\<close>

lemma typed_bnd: "typed g R m \<Longrightarrow> (\<And>x. R x \<Longrightarrow> typed g Q (k x)) \<Longrightarrow> typed g Q (bnd m k)"
  unfolding typed_def triple_def by (fastforce elim!: bnd_cases)

lemma typed_weaken: "typed g R m \<Longrightarrow> (\<And>x. R x \<Longrightarrow> Q x) \<Longrightarrow> typed g Q m"
  unfolding typed_def by (erule triple_conseq) auto

lemma typed_read: "(\<And>s. well_typed g s \<Longrightarrow> typed g Q (k (f s))) \<Longrightarrow> typed g Q (bnd (gets f) k)"
  unfolding typed_def triple_def by simp

lemma typed_basic:
  "R x \<Longrightarrow> typed g R (ret x)" "typed g R (fail e)" "(\<And>s. well_typed g s \<Longrightarrow> well_typed g (f s)) \<Longrightarrow> typed g (\<lambda>_. True) (upd f)"
  by (auto simp: typed_def triple_def)

lemma typed_branch:
  "(c \<Longrightarrow> typed g R m) \<Longrightarrow> (\<not> c \<Longrightarrow> typed g R n) \<Longrightarrow> typed g R (if c then m else n)"
  "(\<And>x y. p = (x, y) \<Longrightarrow> typed g R (f x y)) \<Longrightarrow> typed g R (case p of (x, y) \<Rightarrow> f x y)"
  "typed g R no \<Longrightarrow> (\<And>x. typed g R (yes x)) \<Longrightarrow> typed g R (case q of None \<Rightarrow> no | Some x \<Rightarrow> yes x)"
  by (auto split: prod.splits option.splits)

lemma typed_push [typed_intros]: "w32 v \<Longrightarrow> typed g (\<lambda>_. True) (push v)"
  by (auto simp: typed_def triple_def push_def well_typed_def MAX_STACK_def)

lemma typed_pop [typed_intros]: "typed g w32 pop"
  unfolding pop_def typed_def triple_def by (auto simp: well_typed_def split: list.splits)

lemma typed_peek [typed_intros]: "typed g w32 (peek n)"
  unfolding peek_def typed_def triple_def by (auto simp: well_typed_def list_all_length)

lemma list_all_set_nth: "list_all P xs \<Longrightarrow> P v \<Longrightarrow> list_all P (xs[i := v])"
  by (auto simp: list_all_iff dest!: set_update_subset_insert[THEN subsetD])

lemma typed_swap [typed_intros]: "typed g (\<lambda>_. True) (swap n)"
proof -
  have "list_all w32 (st[0 := st ! n, n := st ! 0])" if "list_all w32 st" "n < length st" for st
    using that by (intro list_all_set_nth) (auto simp: list_all_length intro: order.strict_trans1[of 0 n])
  then show ?thesis unfolding swap_def typed_def triple_def by (auto simp: well_typed_def not_le)
qed

lemma typed_gas [typed_intros]: "typed g (\<lambda>_. True) (consume_gas a)" "typed g (\<lambda>_. True) (refund_gas a)"
  by (auto simp: typed_def triple_def consume_gas_eq refund_gas_def well_typed_def)

lemma typed_upd [typed_intros]:
  "typed g (\<lambda>_. True) (upd (\<lambda>s. s\<lparr>return_data := d s\<rparr>))" "typed g (\<lambda>_. True) (upd (\<lambda>s. s\<lparr>warm_addresses := w s\<rparr>))"
  "typed g (\<lambda>_. True) (upd (\<lambda>s. s\<lparr>warm_storage := x s\<rparr>))" "typed g (\<lambda>_. True) (upd (\<lambda>s. s\<lparr>pc := p s\<rparr>))"
  "typed g (\<lambda>_. True) (upd (\<lambda>s. s\<lparr>logs := l s\<rparr>))" "typed g (\<lambda>_. True) (upd (\<lambda>s. s\<lparr>logs := l s, return_data := d s\<rparr>))"
  by (rule typed_basic; simp add: well_typed_def)+

text \<open>Memory: after \<open>expand\<close> there is room for what is written.\<close>

definition roomy :: "('h \<Rightarrow> bool) \<Rightarrow> usize \<Rightarrow> usize \<Rightarrow> 'h interp \<Rightarrow> bool" where
  "roomy good off n s \<longleftrightarrow> well_typed good s \<and> (0 < n \<longrightarrow> off + n \<le> length (memory s))"

lemma memory_ensure_wf:
  assumes "memory_ensure m off n = (r, m')" "32 dvd length m" "length m \<le> MAX_MEMORY"
  shows "32 dvd length m' \<and> length m' \<le> MAX_MEMORY \<and> (\<forall>x. r = Ok x \<longrightarrow> 0 < n \<longrightarrow> off + n \<le> length m')"
proof -
  obtain k where k: "length m = 32 * k" using assms(2) by auto
  have w: "(length m + 31) div 32 = k" using k by presburger
  have M: "e \<le> MAX_MEMORY \<Longrightarrow> (e + 31) div 32 * 32 \<le> MAX_MEMORY \<and> e \<le> (e + 31) div 32 * 32" for e
  proof -
    assume "e \<le> MAX_MEMORY"
    then have "(e + 31) div 32 \<le> (32 * 2 ^ 20 + 31) div 32" by (intro div_le_mono) (simp add: MAX_MEMORY_def)
    then show ?thesis using div_mult_mod_eq[of "e + 31" 32] mod_less_divisor[of 32 "e + 31"]
      unfolding MAX_MEMORY_def by auto
  qed
  show ?thesis
    using assms M[of "off + n"] k unfolding memory_ensure_def Let_def w
    by (auto split: if_splits option.splits)
qed

lemma expand_room: "triple (well_typed g) (expand off n) (\<lambda>_. roomy g off n) (well_typed g)"
  unfolding triple_def
proof (intro allI impI)
  fix s r t
  assume s: "well_typed g s" and e: "expand off n s = Some (r, t)"
  obtain q m where m: "memory_ensure (memory s) off n = (q, m)" by fastforce
  have "32 dvd length m \<and> length m \<le> MAX_MEMORY \<and> (\<forall>x. q = Ok x \<longrightarrow> 0 < n \<longrightarrow> off + n \<le> length m)"
    using memory_ensure_wf[OF m] s by (simp add: well_typed_def)
  then show "case r of Ok x \<Rightarrow> roomy g off n t | Err e \<Rightarrow> well_typed g t | Panic \<Rightarrow> True"
    using e s unfolding expand_def by (cases q) (auto simp: ensure_def m consume_gas_eq roomy_def well_typed_def split: if_splits)
qed

lemma typed_expand [typed_intros]: "typed g (\<lambda>_. True) (expand off n)"
  unfolding typed_def by (rule triple_conseq[OF expand_room]) (auto simp: roomy_def)

lemma write_room: "length bs \<le> n \<Longrightarrow> triple (roomy g off n) (write_mem off bs) (\<lambda>_ s. well_typed g s \<and> True) (well_typed g)"
  unfolding triple_def write_mem_def roomy_def
  by (auto simp: memory_write_def well_typed_def sat_add_def umax_def MAX_MEMORY_def Let_def split: if_splits)

lemma typed_read_mem [typed_intros]: "typed g (\<lambda>bs. length bs = n) (read_mem off n)"
  unfolding typed_def triple_def read_mem_def memory_read_def
  by (auto split: if_splits res.splits simp: bind_res_Err_iff)

lemma typed_write:
  "length bs \<le> n \<Longrightarrow> typed g (\<lambda>_. True) (bnd (expand off n) (\<lambda>_. write_mem off bs))"
  unfolding typed_def by (rule triple_bnd[OF expand_room write_room])

lemma roomy_gas: "triple (roomy g off n) (consume_gas a) (\<lambda>_. roomy g off n) (well_typed g)"
  by (auto simp: triple_def consume_gas_eq roomy_def well_typed_def)

lemma roomy_done: "triple (roomy g off n) (ret ()) (\<lambda>_ s. well_typed g s \<and> True) (well_typed g)"
  by (auto simp: triple_def roomy_def)

lemma length_copy_padded: "copy_padded data src n = Ok buf \<Longrightarrow> length buf = n"
  by (auto simp: copy_padded_def Let_def)

lemma copy_padded_not_Err: "copy_padded data src n \<noteq> Err e"
  by (simp add: copy_padded_def Let_def bind_res_Err_iff)

lemma triple_lift: "(\<And>x s. P s \<Longrightarrow> r = Ok x \<Longrightarrow> Q x s) \<Longrightarrow> (\<And>e s. P s \<Longrightarrow> r = Err e \<Longrightarrow> Z s) \<Longrightarrow> triple P (lift r) Q Z"
  by (auto simp: triple_def split: res.splits)

lemma typed_copy [typed_intros]:
  "typed g (\<lambda>_. True) (copy_to_mem src d o' n)" "typed g (\<lambda>_. True) (returndata_copy d o' n)"
  "typed g (\<lambda>_. True) (write_output o' n bs)"
proof -
  have c: "triple (roomy g d n) (bnd (lift (copy_padded data o' n)) (\<lambda>buf. write_mem d buf)) (\<lambda>_ s. well_typed g s \<and> True) (well_typed g)" for data
  proof (rule triple_bnd[OF triple_lift])
    show "roomy g d n s \<and> length buf = n" if "roomy g d n s" "copy_padded data o' n = Ok buf" for buf s
      using that length_copy_padded by blast
    show "triple (\<lambda>s. roomy g d n s \<and> length buf = n) (write_mem d buf) (\<lambda>_ s. well_typed g s \<and> True) (well_typed g)" for buf
    proof (cases "length buf = n")
      case True
      then show ?thesis by (intro triple_pre[OF write_room[of buf n]]) auto
    qed (simp add: triple_absurd)
  qed (simp add: copy_padded_not_Err)
  show "typed g (\<lambda>_. True) (copy_to_mem src d o' n)"
    unfolding copy_to_mem_def typed_def
    by (intro triple_bnd[OF expand_room] triple_bnd[OF roomy_gas] triple_if triple_read c roomy_done)
  have w: "triple (roomy g off k) (write_mem off (take k' xs)) (\<lambda>_ s. well_typed g s \<and> True) (well_typed g)" if "k' \<le> k" for off k k' xs
    by (rule write_room) (use that in simp)
  show "typed g (\<lambda>_. True) (returndata_copy d o' n)"
    unfolding returndata_copy_def
  proof (intro typed_read typed_branch typed_basic)
    show "typed g (\<lambda>_. True) (bnd (expand d n) (\<lambda>_. bnd (consume_gas a) (\<lambda>_. if n > 0 then write_mem d (take n xs) else ret ())))" for a xs
      unfolding typed_def by (intro triple_bnd[OF expand_room] triple_bnd[OF roomy_gas] triple_if w roomy_done order_refl)
  qed
  show "typed g (\<lambda>_. True) (write_output o' n bs)"
    unfolding write_output_def typed_def Let_def by (intro triple_bnd[OF expand_room] triple_if w roomy_done min.cobounded1)
qed


lemmas typed_rules = typed_read typed_bnd typed_basic typed_branch

lemma typed_words [typed_intros]:
  "typed g (\<lambda>_. True) pop_u64" "typed g (\<lambda>_. True) pop_address" "typed g (\<lambda>_. True) (dup n)"
  "typed g (\<lambda>_. True) (touch a)" "typed g (\<lambda>_. True) (touch_slot sl)"
  "(\<And>c. w32 (cvalue c) \<Longrightarrow> w32 (randao_mix c) \<Longrightarrow> w32 (f c)) \<Longrightarrow> typed g (\<lambda>_. True) (push_ctx f)"
  unfolding pop_u64_def pop_address_def dup_def touch_def touch_slot_def push_ctx_def
  by (rule typed_rules typed_intros w32_intros typed_write TrueI | assumption | (simp add: well_typed_def w32_def; fail))+

lemma typed_compute [typed_intros]:
  "(\<And>a. w32 a \<Longrightarrow> w32 (u a)) \<Longrightarrow> typed g (\<lambda>_. True) (unary u)"
  "(\<And>a b. w32 a \<Longrightarrow> w32 b \<Longrightarrow> w32 (f a b)) \<Longrightarrow> typed g (\<lambda>_. True) (binary f)"
  "(\<And>a b n. w32 a \<Longrightarrow> w32 b \<Longrightarrow> w32 n \<Longrightarrow> w32 (h a b n)) \<Longrightarrow> typed g (\<lambda>_. True) (ternary h)"
  unfolding unary_def binary_def ternary_def
  by (rule typed_rules typed_intros | assumption | blast)+

lemma typed_exec [typed_intros]:
  "typed g (\<lambda>_. True) (exec_arith op)" "typed g (\<lambda>_. True) (exec_compare op)" "typed g (\<lambda>_. True) (exec_info op)"
  "typed g (\<lambda>_. True) (exec_sha3 E)" "typed g (\<lambda>_. True) (push_zero_with_ret o' n)" "typed g (\<lambda>_. True) push_zero"
  unfolding exec_arith_def exec_compare_def exec_info_def exec_sha3_def push_zero_with_ret_def push_zero_def
  by (rule typed_rules typed_intros w32_intros TrueI | assumption)+

lemma typed_pop_n [typed_intros]: "typed g (list_all w32) (pop_n n)"
  by (induction n; unfold pop_n.simps) (rule typed_rules typed_intros | assumption | (simp; fail))+

lemma typed_memory [typed_intros]: "typed g (\<lambda>_. True) (exec_memory op)"
  unfolding exec_memory_def by (rule typed_rules typed_intros w32_intros typed_write TrueI | assumption | (simp add: well_typed_def w32_def; fail))+

lemma typed_halt [typed_intros]: "typed g (\<lambda>_. True) (exec_halt st)"
  unfolding exec_halt_def by (rule typed_rules typed_intros w32_intros TrueI | assumption)+

lemma typed_advance [typed_intros]: "typed g (\<lambda>_. True) m \<Longrightarrow> typed g (\<lambda>_. True) (advance m)"
  unfolding advance_def by (rule typed_rules typed_intros w32_intros TrueI | assumption)+

lemma typed_jump [typed_intros]: "typed g (\<lambda>_. True) (exec_jump op)"
  unfolding exec_jump_def jump_to_def by (rule typed_rules typed_intros w32_intros TrueI | assumption)+

lemma typed_exec_push [typed_intros]: "op \<le> 0x7f \<Longrightarrow> typed g (\<lambda>_. True) (exec_push op)"
  unfolding exec_push_def Let_def by (rule typed_rules typed_intros w32_intros typed_write TrueI | assumption | (simp add: well_typed_def w32_def; fail))+

lemma typed_log [typed_intros]: "typed g (\<lambda>_. True) (exec_log op)"
  unfolding exec_log_def Let_def by (rule typed_rules typed_intros w32_intros TrueI | assumption)+


lemma typed_gets: "(\<And>s. well_typed g s \<Longrightarrow> R (f s)) \<Longrightarrow> typed g R (gets f)"
  unfolding typed_def triple_def by simp

section \<open>What the host provides\<close>

locale typed_host =
  fixes E :: "'h evm_env" and good :: "'h \<Rightarrow> bool"
  assumes host_reads:
      "good h \<Longrightarrow> w32 (h_balance E h a)" "good h \<Longrightarrow> w32 (h_code_hash E h a)"
      "good h \<Longrightarrow> w32 (h_storage_load E h a key)" "good h \<Longrightarrow> w32 (h_block_hash E h n)"
    and host_writes:
      "good h \<Longrightarrow> w32 w \<Longrightarrow> good (h_storage_store E h a key w)" "good h \<Longrightarrow> good (h_set_code E h a cd)"
      "good h \<Longrightarrow> good (snd (h_inc_nonce E h a))" "good h \<Longrightarrow> w32 w \<Longrightarrow> good (snd (h_transfer E h a b w))"
      "good h \<Longrightarrow> good (h_destruct E h a b)" "good h \<Longrightarrow> good (h_mark_created E h a)"
      "good h \<Longrightarrow> good (snd (h_snapshot E h))" "good h \<Longrightarrow> good (h_revert_to E h i)" "good h \<Longrightarrow> good (h_commit E h i)"
begin

lemma good_state: "well_typed good s \<Longrightarrow> good (host s)"
  by (simp add: well_typed_def)

lemma host_words:
  "well_typed good s \<Longrightarrow> w32 (h_balance E (host s) a)" "well_typed good s \<Longrightarrow> w32 (h_storage_load E (host s) a key)"
  "well_typed good s \<Longrightarrow> w32 (if h_is_empty E (host s) a then zero32 else h_code_hash E (host s) a)"
  "well_typed good s \<Longrightarrow> w32 (if c then h_block_hash E (host s) n else zero32)"
  by (simp_all add: host_reads good_state)

lemma typed_host_ops:
  "typed good (\<lambda>_. True) (take_snapshot E)" "typed good (\<lambda>_. True) (host_inc_nonce E a)"
  "typed good (\<lambda>_. True) (host_do (\<lambda>h. h_revert_to E h i))" "typed good (\<lambda>_. True) (host_do (\<lambda>h. h_commit E h i))"
  "typed good (\<lambda>_. True) (host_do (\<lambda>h. h_set_code E h a cd))" "typed good (\<lambda>_. True) (host_do (\<lambda>h. h_mark_created E h a))"
  "w32 w \<Longrightarrow> typed good (\<lambda>_. True) (host_do (\<lambda>h. snd (h_transfer E h a b w)))"
  "w32 w \<Longrightarrow> typed good (\<lambda>_. True) (upd (\<lambda>s. s\<lparr>host := h_storage_store E (host s) a key w\<rparr>))"
  "typed good (\<lambda>_. True) (upd (\<lambda>s. s\<lparr>host := h_destruct E (host s) (callee (ctx s)) b\<rparr>))"
proof -
  have *: "(\<And>h. good h \<Longrightarrow> good (f h)) \<Longrightarrow> typed good (\<lambda>_. True) (host_do f)" for f
    unfolding host_do_def by (rule typed_basic(3)) (simp add: well_typed_def)
  have "h_snapshot E h = (j, h') \<Longrightarrow> good h \<Longrightarrow> good h'" "h_inc_nonce E h a = (r, h') \<Longrightarrow> good h \<Longrightarrow> good h'" for h h' j r
    using host_writes(7)[of h] host_writes(3)[of h a] by auto
  then show "typed good (\<lambda>_. True) (take_snapshot E)" "typed good (\<lambda>_. True) (host_inc_nonce E a)"
    unfolding take_snapshot_def host_inc_nonce_def typed_def triple_def well_typed_def
    by (auto split: prod.splits res.splits)
  show "typed good (\<lambda>_. True) (host_do (\<lambda>h. h_revert_to E h i))" "typed good (\<lambda>_. True) (host_do (\<lambda>h. h_commit E h i))"
    "typed good (\<lambda>_. True) (host_do (\<lambda>h. h_set_code E h a cd))" "typed good (\<lambda>_. True) (host_do (\<lambda>h. h_mark_created E h a))"
    by (rule *; simp add: host_writes)+
  show "typed good (\<lambda>_. True) (host_do (\<lambda>h. snd (h_transfer E h a b w)))"
    "typed good (\<lambda>_. True) (upd (\<lambda>s. s\<lparr>host := h_storage_store E (host s) a key w\<rparr>))" if "w32 w"
    using that by (auto intro!: * typed_basic(3) simp: host_writes well_typed_def)
  show "typed good (\<lambda>_. True) (upd (\<lambda>s. s\<lparr>host := h_destruct E (host s) (callee (ctx s)) b\<rparr>))"
    by (rule typed_basic(3)) (simp add: well_typed_def host_writes)
qed

lemma typed_host_exec:
  "typed good (\<lambda>_. True) (exec_env E op)" "typed good (\<lambda>_. True) (exec_block E op)" "typed good (\<lambda>_. True) (exec_sload E)"
  "typed good (\<lambda>_. True) (exec_sstore E)" "typed good (\<lambda>_. True) (exec_selfdestruct E)"
  "typed good (\<lambda>_. True) (charge_value E kind a b)"
  unfolding exec_env_def exec_block_def exec_sload_def exec_sstore_def exec_selfdestruct_def charge_value_def
  by (rule typed_rules typed_host_ops typed_intros w32_intros host_words TrueI | assumption)+

text \<open>Nested runs.\<close>

definition sound where
  "sound sub \<longleftrightarrow> (\<forall>u q t. well_typed good u \<longrightarrow> sub u = Some (q, t) \<longrightarrow> q \<noteq> Panic \<longrightarrow> well_typed good t)"

lemma typed_run_sub:
  assumes "sound sub" "\<And>s. well_typed good s \<Longrightarrow> well_typed good (mk s)"
  shows "typed good (\<lambda>_. True) (run_sub sub mk)"
  unfolding typed_def triple_def
proof (intro allI impI)
  fix s r t
  assume s: "well_typed good s" and r: "run_sub sub mk s = Some (r, t)"
  obtain q u where u: "sub (mk s) = Some (q, u)" "t = s\<lparr>host := host u\<rparr>"
    "r = bind_res q (\<lambda>(status, used). Ok (status, used, return_data u, warm_addresses u, logs u))"
    using r by (auto simp: run_sub_def bind_eq_Some_conv)
  have "well_typed good t" if "q \<noteq> Panic"
  proof -
    have "well_typed good u" using assms s u(1) that unfolding sound_def by blast
    then show ?thesis using s u(2) by (simp add: well_typed_def)
  qed
  then show "case r of Ok x \<Rightarrow> well_typed good t \<and> True | Err e \<Rightarrow> well_typed good t | Panic \<Rightarrow> True"
    using u(3) by (cases q) auto
qed

lemma typed_sub_interp:
  "well_typed good s \<Longrightarrow> w32 w \<Longrightarrow> well_typed good (sub_interp (sub_context kind (ctx s) tg w data fw) cd i fw cr s)"
  "well_typed good s \<Longrightarrow> w32 w \<Longrightarrow> well_typed good (sub_interp (create_context (ctx s) a w fw) cd i fw cr s)"
  by (cases kind; simp add: well_typed_def sub_interp_def interp_new_def sub_context_def create_context_def MAX_STACK_def MAX_MEMORY_def)
    (simp add: well_typed_def sub_interp_def interp_new_def sub_context_def create_context_def MAX_STACK_def MAX_MEMORY_def)

lemma typed_do_call:
  assumes "sound sub"
  shows "typed good (\<lambda>_. True) (do_call E sub kind)"
proof -
  have v: "typed good w32 (case kind of Call \<Rightarrow> pop | CallCode \<Rightarrow> pop | DelegateCall \<Rightarrow> gets (\<lambda>s. cvalue (ctx s)) | StaticCall \<Rightarrow> ret zero32)"
    by (cases kind; simp only: call_kind.case; rule typed_pop typed_gets typed_basic) (auto simp: well_typed_def)
  show ?thesis
    unfolding do_call_def call_body_def call_precompile_def call_code_def Let_def
    by (rule v typed_rules typed_host_ops typed_host_exec typed_run_sub[OF assms] typed_sub_interp typed_intros w32_intros TrueI | assumption)+
qed

lemma typed_do_create:
  assumes "sound sub"
  shows "typed good (\<lambda>_. True) (do_create E sub salted)"
proof -
  have salt: "typed good (\<lambda>_. True) (if b then bnd pop (\<lambda>x. ret (Some x)) else ret None)" for b
    by (rule typed_rules typed_intros TrueI)+
  show ?thesis
    unfolding do_create_def create_body_def deploy_def Let_def
    by (rule salt typed_rules typed_host_ops typed_run_sub[OF assms] typed_sub_interp typed_intros w32_intros TrueI | assumption)+
qed

lemma typed_execute:
  assumes "sound sub"
  shows "typed good (\<lambda>_. True) (execute E sub op b)"
  unfolding execute_def
  by (rule typed_rules typed_do_call[OF assms] typed_do_create[OF assms] typed_host_exec typed_intros w32_intros TrueI | assumption)+

lemma step_typed:
  assumes "sound sub" "well_typed good s" "step E sub s = Some (r, t)" "r \<noteq> Panic"
  shows "well_typed good t"
proof -
  have "typed good (\<lambda>_. True) (bnd (consume_gas g) (\<lambda>_. execute E sub op b))" for g op b
    by (rule typed_bnd[OF typed_gas(1) typed_execute[OF assms(1)]])
  from tripleD[OF this[unfolded typed_def] assms(2)] show ?thesis
    using assms(2-4) unfolding step_def Let_def by (cases r) (auto split: if_splits)
qed

lemma run_typed: "run E s = Some (r, t) \<Longrightarrow> well_typed good s \<Longrightarrow> r \<noteq> Panic \<Longrightarrow> well_typed good t"
proof -
  assume "run E s = Some (r, t)" "well_typed good s" "r \<noteq> Panic"
  then have "well_typed good s \<longrightarrow> r \<noteq> Panic \<longrightarrow> well_typed good t"
  proof (induction rule: run_induct)
    case (halt sub s st t)
    then have "sound sub" by (auto simp: sound_def)
    then show ?case using step_typed halt(2) by blast
  next
    case (error sub s e t)
    then have "sound sub" by (auto simp: sound_def)
    then show ?case using step_typed error(2) by blast
  next
    case (continue sub s w r t)
    then have "sound sub" by (auto simp: sound_def)
    then show ?case using step_typed continue(2,3) by blast
  qed simp
  then show ?thesis using \<open>well_typed good s\<close> \<open>r \<noteq> Panic\<close> by blast
qed

end

text \<open>The host of the crate: balances, storage values and block hashes have 32 bytes, in snapshots too.\<close>

definition typed_accounts :: "(address \<rightharpoonup> mock_account) \<Rightarrow> bool" where
  "typed_accounts m \<longleftrightarrow> (\<forall>a x. m a = Some x \<longrightarrow> w32 (abalance x) \<and> (\<forall>k v. astorage x k = Some v \<longrightarrow> w32 v))"

definition typed_mock :: "mock_host \<Rightarrow> bool" where
  "typed_mock h \<longleftrightarrow> typed_accounts (accounts h) \<and> list_all (\<lambda>s. typed_accounts (snap_accounts s)) (snapshots h)
     \<and> (\<forall>n v. block_hashes h n = Some v \<longrightarrow> w32 v)"

lemma typed_account:
  "typed_mock h \<Longrightarrow> w32 (abalance (account h a)) \<and> (\<forall>k v. astorage (account h a) k = Some v \<longrightarrow> w32 v)"
  by (auto simp: typed_mock_def typed_accounts_def account_def default_account_def w32_basic split: option.splits)

lemma typed_with_entry:
  "typed_mock h \<Longrightarrow> w32 (abalance (f (account h a))) \<Longrightarrow> (\<And>k v. astorage (f (account h a)) k = Some v \<Longrightarrow> w32 v)
    \<Longrightarrow> typed_mock (with_entry h a f)"
  by (auto simp: typed_mock_def typed_accounts_def with_entry_def)

lemma typed_mock_transfer:
  assumes "typed_mock h" "w32 w"
  shows "typed_mock (snd (mock_transfer h a b w))"
proof -
  have "w32 (u256_sub (mock_balance h a) w)" "w32 (u256_add (mock_balance h b) w)"
    using typed_account[OF assms(1)] assms(2) by (auto simp: mock_balance_def intro: w32_arith)
  then show ?thesis using assms typed_account[OF assms(1)]
    by (auto simp: mock_transfer_def Let_def intro!: typed_with_entry split: if_splits)
qed

lemma list_all_dropWhile: "list_all P xs \<Longrightarrow> list_all P (dropWhile Q xs)" "list_all P xs \<Longrightarrow> list_all P (takeWhile Q xs)"
  by (auto simp: list_all_iff dest: set_dropWhileD set_takeWhileD)

interpretation mock_typed: typed_host "mock_env K pre" typed_mock
proof unfold_locales
  fix h a key w b i cd n
  assume h: "typed_mock h"
  note acc = typed_account[OF h]
  show "w32 (h_balance (mock_env K pre) h a)" "w32 (h_code_hash (mock_env K pre) h a)"
    "w32 (h_storage_load (mock_env K pre) h a key)" "w32 (h_block_hash (mock_env K pre) h n)"
    using acc[of a] h by (auto simp: mock_env_def mock_balance_def mock_code_hash_def mock_storage_load_def mock_block_hash_def Let_def
        w32_basic typed_mock_def split: option.splits)
  show "w32 w \<Longrightarrow> typed_mock (h_storage_store (mock_env K pre) h a key w)" "typed_mock (h_set_code (mock_env K pre) h a cd)"
    "typed_mock (snd (h_inc_nonce (mock_env K pre) h a))" "w32 w \<Longrightarrow> typed_mock (snd (h_transfer (mock_env K pre) h a b w))"
    using acc h by (auto simp: mock_env_def mock_storage_store_def mock_set_code_def mock_inc_nonce_def Let_def typed_mock_transfer
        intro!: typed_with_entry split: option.splits if_splits)
  show "typed_mock (h_destruct (mock_env K pre) h a b)"
    using typed_mock_transfer[OF h, of "mock_balance h a" a b] acc[of a] h
    by (auto simp: mock_env_def mock_destruct_def Let_def mock_balance_def typed_mock_def typed_accounts_def w32_basic split: if_splits)
  show "typed_mock (h_mark_created (mock_env K pre) h a)" "typed_mock (snd (h_snapshot (mock_env K pre) h))"
    using h by (simp_all add: mock_env_def mock_mark_created_def mock_snapshot_take_def typed_mock_def Let_def)
  have d: "list_all (\<lambda>s. typed_accounts (snap_accounts s)) (dropWhile (\<lambda>s. snap_id s \<noteq> i) (snapshots h))"
    "list_all (\<lambda>s. typed_accounts (snap_accounts s)) (takeWhile (\<lambda>s. snap_id s \<noteq> i) (snapshots h))"
    using h by (simp_all add: typed_mock_def list_all_dropWhile)
  show "typed_mock (h_revert_to (mock_env K pre) h i)" "typed_mock (h_commit (mock_env K pre) h i)"
    using d h by (auto simp: mock_env_def mock_revert_to_def mock_commit_def typed_mock_def split: list.splits)
qed

text \<open>
  C30: Types are kept. From a well-typed start every run that does not panic ends in a state whose stack has
  at most 1024 items of 32 bytes each, whose memory is made of whole words and at most 32 MiB, and whose
  host holds balances and storage values of 32 bytes only.
\<close>

theorem evm_state_typed:
  assumes "run (mock_env K pre) (interp_new c cd h) = Some (r, t)" "r \<noteq> Panic"
    and "w32 (cvalue c)" "w32 (randao_mix c)" "typed_mock h"
  shows "length (stack t) \<le> 1024 \<and> list_all w32 (stack t) \<and> 32 dvd length (memory t) \<and> length (memory t) \<le> 2 ^ 25 \<and> typed_mock (host t)"
proof -
  have "well_typed typed_mock (interp_new c cd h)" using assms by (simp add: well_typed_def interp_new_def)
  from mock_typed.run_typed[OF assms(1) this assms(2)] show ?thesis
    by (simp add: well_typed_def MAX_STACK_def MAX_MEMORY_def)
qed

lemma evm_state_typed_witness:
  "\<exists>t. run (mock_env (\<lambda>_. 0) (\<lambda>_ _ _ _ _. None)) (interp_new (sample_ctx True) [0x55] sample_host)
      = Some (Ok (Failed StaticStateChange, 0), t) \<and> length (stack t) \<le> 1024 \<and> list_all w32 (stack t) \<and> typed_mock (host t)"
proof -
  let ?s = "interp_new (sample_ctx True) [0x55] sample_host"
  have r: "run (mock_env (\<lambda>_. 0) (\<lambda>_ _ _ _ _. None)) ?s = Some (Ok (Failed StaticStateChange, 0), ?s)"
    using run_static_sstore[of ?s] by (simp add: interp_new_def sample_ctx_def gas_used_def)
  have w: "w32 (cvalue (sample_ctx True))" "w32 (randao_mix (sample_ctx True))" "typed_mock sample_host"
    by (simp_all add: sample_ctx_def sample_host_def mock_set_code_def typed_mock_def typed_accounts_def mock_new_def with_entry_def
        account_def default_account_def)
  show ?thesis using evm_state_typed[OF r _ w] r by blast
qed

end
