(* ===== verification/Block_Header.thy ===== *)
theory Block_Header
  imports Fees Mempool
begin

text \<open>
  Block headers, \<^verbatim>\<open>zbx-types/src/block.rs\<close>: the canonical encoding whose Keccak hash identifies a
  block, the validation of a header against its parent, and the base-fee rule it applies. The hash is
  a parameter. Of an error message only the fixed text is kept. The lemmas show that the encoding
  commits to every field but the committee signature, and that a validated chain is determined by
  its head; the last section compares the base-fee rule with the one the block producer uses.
\<close>

section \<open>Headers and blocks\<close>

record block_header =
  parent_hash :: h256
  uncle_hash :: h256
  header_coinbase :: address
  state_root :: h256
  transactions_root :: h256
  receipts_root :: h256
  logs_bloom :: "byte list"
  difficulty :: "256 word"
  number :: u64
  header_gas_limit :: u64
  header_gas_used :: u64
  header_timestamp :: u64
  extra_data :: "byte list"
  mix_hash :: h256
  header_nonce :: u64
  base_fee_per_gas :: u64
  committee_signature :: "byte list"
  header_epoch :: u64
  epoch_seed :: "h256 option"

record block_body =
  transactions :: "signed_tx list"
  uncles :: "block_header list"

record block =
  header :: block_header
  body :: block_body

datatype zbx_error =
    InvalidHex string | InvalidLength usize usize | RlpDecode string | SignatureError string
  | InvalidAddress string | ArithmeticOverflow | InvalidTransaction string | InvalidInput string
  | StorageError string | ConsensusErr string

definition canonical_encode :: "block_header \<Rightarrow> byte list" where
  "canonical_encode h =
     h256_bytes (parent_hash h) @ h256_bytes (uncle_hash h) @ addr_bytes (header_coinbase h)
     @ h256_bytes (state_root h) @ h256_bytes (transactions_root h) @ h256_bytes (receipts_root h)
     @ logs_bloom h @ h256_bytes (difficulty h)
     @ be_bytes 8 (number h) @ be_bytes 8 (header_gas_limit h) @ be_bytes 8 (header_gas_used h)
     @ be_bytes 8 (header_timestamp h)
     @ be_bytes 4 (cast 32 (length (extra_data h))) @ extra_data h
     @ h256_bytes (mix_hash h) @ be_bytes 8 (header_nonce h) @ be_bytes 8 (base_fee_per_gas h)
     @ be_bytes 8 (header_epoch h)
     @ (case epoch_seed h of None \<Rightarrow> [0] | Some s \<Rightarrow> 1 # h256_bytes s)"

definition header_hash :: "(byte list \<Rightarrow> h256) \<Rightarrow> block_header \<Rightarrow> h256" where
  "header_hash K h = K (canonical_encode h)"

definition hash_of_block :: "(byte list \<Rightarrow> h256) \<Rightarrow> block \<Rightarrow> h256" where
  "hash_of_block K b = header_hash K (header b)"

definition block_coinbase :: "block \<Rightarrow> address" where
  "block_coinbase b = header_coinbase (header b)"

definition number_of_block :: "block \<Rightarrow> u64" where
  "number_of_block b = number (header b)"

definition genesis :: "h256 \<Rightarrow> u64 \<Rightarrow> block" where
  "genesis root time =
     \<lparr>header =
        \<lparr>parent_hash = 0, uncle_hash = 0, header_coinbase = 0, state_root = root, transactions_root = 0,
         receipts_root = 0, logs_bloom = replicate 256 0, difficulty = 0, number = 0,
         header_gas_limit = BLOCK_GAS_LIMIT, header_gas_used = 0, header_timestamp = time,
         extra_data = map (\<lambda>c. of_nat (of_char c)) ''Zebvix Genesis'', mix_hash = 0, header_nonce = 0,
         base_fee_per_gas = 1000000000, committee_signature = [], header_epoch = 0, epoch_seed = None\<rparr>,
      body = \<lparr>transactions = [], uncles = []\<rparr>\<rparr>"

section \<open>Validation against the parent\<close>

text \<open>The products fit 128 bits. A gas limit of 1 gives a target of 0.\<close>

definition compute_eip1559_base_fee :: "u64 \<Rightarrow> u64 \<Rightarrow> u64 \<Rightarrow> (zbx_error, u64) res" where
  "compute_eip1559_base_fee parent_base used limit =
     (if limit = 0 then Ok parent_base
      else let target = limit div 2 in
        if used = target then Ok parent_base
        else let adj = parent_base div 8 in
          if used > target
          then (if target = 0 then Panic
                else let bump = min (max (parent_base * (used - target) div target) 1) adj
                  in Ok (cast 64 (sat_add 128 parent_base bump)))
          else let cut = min (parent_base * (target - used) div target) adj in Ok (cast 64 (parent_base - cut)))"

definition validate_against_parent ::
  "(byte list \<Rightarrow> h256) \<Rightarrow> block_header \<Rightarrow> block_header \<Rightarrow> (zbx_error, unit) res" where
  "validate_against_parent K self parent =
     (if parent_hash self \<noteq> header_hash K parent then Err (ConsensusErr ''parent_hash mismatch'')
      else if number self \<noteq> wrap_add 64 (number parent) 1 then Err (ConsensusErr ''block number gap'')
      else if header_timestamp self \<le> header_timestamp parent
        then Err (ConsensusErr ''block timestamp must be strictly increasing'')
      else if header_gas_used self > header_gas_limit self then Err (ConsensusErr ''gas_used exceeds gas_limit'')
      else if header_gas_limit self > BLOCK_GAS_LIMIT
        then Err (ConsensusErr ''block gas_limit exceeds protocol maximum'')
      else if length (extra_data self) > 32 then Err (ConsensusErr ''extra_data too long'')
      else if number parent > 0 \<or> base_fee_per_gas parent > 0
        then bind_res (compute_eip1559_base_fee (base_fee_per_gas parent) (header_gas_used parent) (header_gas_limit parent))
          (\<lambda>expected. if base_fee_per_gas self \<noteq> expected then Err (ConsensusErr ''base_fee_per_gas mismatch'') else Ok ())
      else Ok ())"

section \<open>The encoding commits to the header\<close>

text \<open>The ranges of the Rust types.\<close>

definition header_fits :: "block_header \<Rightarrow> bool" where
  "header_fits h \<longleftrightarrow> length (logs_bloom h) = 256 \<and> fits 4 (length (extra_data h))
     \<and> list_all (fits 8) [number h, header_gas_limit h, header_gas_used h, header_timestamp h, header_nonce h,
          base_fee_per_gas h, header_epoch h]"

lemma seed_encoding_inj:
  "(case s of None \<Rightarrow> [0 :: byte] | Some x \<Rightarrow> 1 # h256_bytes x) = (case t of None \<Rightarrow> [0] | Some x \<Rightarrow> 1 # h256_bytes x) \<longleftrightarrow> s = t"
  by (auto split: option.splits)

lemma canonical_encode_inj:
  assumes "header_fits x" "header_fits y" "canonical_encode x = canonical_encode y"
  shows "x\<lparr>committee_signature := []\<rparr> = y\<lparr>committee_signature := []\<rparr>"
proof -
  have cast: "cast 32 (length (extra_data h)) = length (extra_data h)" if "header_fits h" for h
    using that by (simp add: header_fits_def fits_def cast_def)
  have b: "be_bytes 8 m = be_bytes 8 n \<longleftrightarrow> m = n" if "fits 8 m" "fits 8 n" for m n
    using that be_bytes_inj by blast
  have e: "be_bytes 4 (length (extra_data x)) @ extra_data x @ r = be_bytes 4 (length (extra_data y)) @ extra_data y @ r'
      \<longleftrightarrow> extra_data x = extra_data y \<and> r = r'" for r r'
    using be_bytes_inj[of 4 "length (extra_data x)" "length (extra_data y)"] assms(1,2) by (auto simp: header_fits_def)
  show ?thesis
    using assms unfolding canonical_encode_def cast[OF assms(1)] cast[OF assms(2)]
    by (intro block_header.equality) (auto simp: header_fits_def b e seed_encoding_inj)
qed

section \<open>Chains\<close>

text \<open>A chain of headers, newest first, each valid against the one below it.\<close>

fun valid_chain :: "(byte list \<Rightarrow> h256) \<Rightarrow> block_header list \<Rightarrow> bool" where
  "valid_chain K (x # y # r) \<longleftrightarrow> validate_against_parent K x y = Ok () \<and> valid_chain K (y # r)"
| "valid_chain K _ \<longleftrightarrow> True"

definition unsigned_header :: "block_header \<Rightarrow> block_header" where
  "unsigned_header h = h\<lparr>committee_signature := []\<rparr>"

lemma valid_against_parent:
  assumes "validate_against_parent K x y = Ok ()"
  shows "parent_hash x = header_hash K y" "number x = wrap_add 64 (number y) 1" "header_timestamp y < header_timestamp x"
    "header_gas_used x \<le> header_gas_limit x" "header_gas_limit x \<le> BLOCK_GAS_LIMIT" "length (extra_data x) \<le> 32"
    "number y > 0 \<or> base_fee_per_gas y > 0 \<Longrightarrow>
       compute_eip1559_base_fee (base_fee_per_gas y) (header_gas_used y) (header_gas_limit y) = Ok (base_fee_per_gas x)"
  using assms unfolding validate_against_parent_def by (auto split: if_splits)

lemma same_parent_hash: "unsigned_header x = unsigned_header y \<Longrightarrow> parent_hash x = parent_hash y"
  by (metis block_header.simps(1) block_header.ext_inject block_header.surjective block_header.update_convs(17) unsigned_header_def)

lemma same_hash_unsigned:
  assumes "header_hash K x = header_hash K y" "inj_on K (canonical_encode ` H)" "x \<in> H" "y \<in> H"
    and "header_fits x" "header_fits y"
  shows "unsigned_header x = unsigned_header y"
proof -
  have "canonical_encode x = canonical_encode y"
    using assms(1) by (intro inj_onD[OF assms(2)]) (simp_all add: header_hash_def assms(3,4))
  then show ?thesis using assms(5,6) canonical_encode_inj[of x y] by (simp add: unsigned_header_def)
qed

text \<open>
  C25: The hash of the newest header determines a validated chain: two chains of the same length whose heads have
  the same hash agree block by block in everything but the committee signatures, provided the hash
  does not collide on the headers that occur.
\<close>

theorem chain_determined_by_head:
  assumes "valid_chain K (x # xs)" "valid_chain K (y # ys)" "length xs = length ys"
    and "header_hash K x = header_hash K y"
    and "list_all header_fits (x # xs)" "list_all header_fits (y # ys)"
    and "inj_on K (canonical_encode ` set (x # xs @ y # ys))"
  shows "map unsigned_header (x # xs) = map unsigned_header (y # ys)"
  using assms
proof (induction xs arbitrary: x y ys)
  case Nil
  show ?case using same_hash_unsigned[OF Nil(4), of "set (x # [] @ y # ys)"] Nil(3,5,6,7) by simp
next
  case (Cons x' xs)
  obtain y' ys' where ys: "ys = y' # ys'" using Cons.prems(3) by (cases ys) auto
  have u: "unsigned_header x = unsigned_header y"
    using Cons.prems(5,6) by (intro same_hash_unsigned[OF Cons.prems(4,7)]) simp_all
  have "header_hash K x' = header_hash K y'"
    using same_parent_hash[OF u] Cons.prems(1,2) valid_against_parent(1) unfolding ys by auto
  then have "map unsigned_header (x' # xs) = map unsigned_header (y' # ys')"
    using Cons.prems unfolding ys by (intro Cons.IH) (auto elim: inj_on_subset)
  then show ?case using u unfolding ys by simp
qed

text \<open>
  Along a validated chain heights are consecutive and timestamps grow strictly, so that no block repeats.
\<close>

theorem valid_chain_ordered:
  assumes "valid_chain K (xs @ [g])" "number g + length xs < 2 ^ 64"
  shows "map number (xs @ [g]) = rev [number g ..< number g + length xs + 1]
    \<and> sorted_wrt (>) (map header_timestamp (xs @ [g]))"
  using assms
proof (induction xs)
  case (Cons x xs)
  obtain y r where r: "xs @ [g] = y # r" by (cases "xs @ [g]") auto
  have v: "validate_against_parent K x y = Ok ()" "valid_chain K (xs @ [g])" using Cons.prems(1) r by simp_all
  have IH: "map number (y # r) = rev [number g ..< number g + length xs + 1]" "sorted_wrt (>) (map header_timestamp (y # r))"
    using Cons.IH[OF v(2)] Cons.prems(2) r by simp_all
  have "number y = number g + length xs" using IH(1) by simp
  then have "number x = number g + length xs + 1" using valid_against_parent(2)[OF v(1)] Cons.prems(2) by simp
  moreover have "header_timestamp z < header_timestamp x" if "z \<in> set (y # r)" for z
    using valid_against_parent(3)[OF v(1)] IH(2) that by auto
  ultimately show ?case using IH r by simp
qed simp

text \<open>A block on the genesis block, with a hash that counts the bytes.\<close>

definition sample_hash :: "byte list \<Rightarrow> h256" where
  "sample_hash bs = of_nat (length bs)"

definition sample_child :: block_header where
  "sample_child = (header (genesis 7 1700000000))
     \<lparr>parent_hash := header_hash sample_hash (header (genesis 7 1700000000)), number := 1, header_timestamp := 1700000005,
      header_gas_used := 21000, extra_data := [], base_fee_per_gas := 875000000\<rparr>"

lemma sample_valid: "valid_chain sample_hash [sample_child\<lparr>committee_signature := cs\<rparr>, header (genesis 7 1700000000)]"
  by (simp add: sample_child_def validate_against_parent_def genesis_def header_hash_def sample_hash_def
      canonical_encode_def compute_eip1559_base_fee_def cast_def BLOCK_GAS_LIMIT_def wrap_add_def Let_def)

lemma sample_lengths: "length (canonical_encode (header (genesis 7 1700000000)))
    = length (canonical_encode (sample_child\<lparr>committee_signature := cs\<rparr>)) + 14"
  by (simp add: sample_child_def genesis_def canonical_encode_def)

lemma sample_fits: "header_fits (sample_child\<lparr>committee_signature := cs\<rparr>)" "header_fits (header (genesis 7 1700000000))"
  by (simp_all add: header_fits_def sample_child_def genesis_def fits_def BLOCK_GAS_LIMIT_def)

lemma chain_determined_by_head_witness:
  "map unsigned_header [sample_child, header (genesis 7 1700000000)]
     = map unsigned_header [sample_child\<lparr>committee_signature := [1]\<rparr>, header (genesis 7 1700000000)]"
proof (rule chain_determined_by_head[of sample_hash])
  have same: "canonical_encode (sample_child\<lparr>committee_signature := [1]\<rparr>) = canonical_encode sample_child"
    by (simp add: canonical_encode_def)
  show "header_hash sample_hash sample_child = header_hash sample_hash (sample_child\<lparr>committee_signature := [1]\<rparr>)"
    by (simp add: header_hash_def same)
  have "length (canonical_encode (header (genesis 7 1700000000))) < 2 ^ 256"
    by (simp add: genesis_def canonical_encode_def)
  then show "inj_on sample_hash (canonical_encode ` set (sample_child # [header (genesis 7 1700000000)]
      @ sample_child\<lparr>committee_signature := [1]\<rparr> # [header (genesis 7 1700000000)]))"
    using sample_lengths[of "committee_signature sample_child"]
    by (auto simp: inj_on_def same sample_hash_def word_of_nat_eq_iff take_bit_nat_eq_self)
  have self: "sample_child\<lparr>committee_signature := []\<rparr> = sample_child"
    by (simp add: sample_child_def genesis_def)
  show "valid_chain sample_hash (sample_child # [header (genesis 7 1700000000)])"
    "list_all header_fits (sample_child # [header (genesis 7 1700000000)])"
    using sample_valid[of "[]"] sample_fits(1)[of "[]"] sample_fits(2) by (simp_all add: self)
qed (use sample_valid[of "[1]"] sample_fits(1)[of "[1]"] sample_fits(2) in simp_all)

lemma valid_chain_ordered_witness:
  "map number [sample_child, header (genesis 7 1700000000)] = [1, 0]
    \<and> sorted_wrt (>) (map header_timestamp [sample_child, header (genesis 7 1700000000)])"
proof -
  have self: "sample_child\<lparr>committee_signature := []\<rparr> = sample_child"
    by (simp add: sample_child_def genesis_def)
  show ?thesis
    using valid_chain_ordered[of sample_hash "[sample_child]" "header (genesis 7 1700000000)"] sample_valid[of "[]"]
    by (simp add: self genesis_def)
qed

section \<open>The base fee\<close>

lemma header_base_fee_bounds:
  assumes "compute_eip1559_base_fee fee used limit = Ok f" "fee + fee div 8 < 2 ^ 64"
  shows "fee - fee div 8 \<le> f \<and> f \<le> fee + fee div 8 \<and> (used \<le> limit div 2 \<longrightarrow> f \<le> fee) \<and> (limit div 2 \<le> used \<longrightarrow> fee \<le> f)"
proof -
  have s: "cast 64 (sat_add 128 fee (min a (fee div 8))) = fee + min a (fee div 8)" for a
    using assms(2) by (simp add: sat_add_def umax_def cast_def min_def)
  have c: "cast 64 (fee - k) = fee - k" for k using assms(2) by (simp add: cast_def)
  have m: "fee - fee div 8 \<le> fee + k" "fee - k \<le> fee + fee div 8" "fee - fee div 8 \<le> fee - min k (fee div 8)" for k
    by simp_all
  show ?thesis using assms(1) unfolding compute_eip1559_base_fee_def Let_def s c by (auto split: if_splits intro: m)
qed

lemma header_base_fee_Panic_iff: "compute_eip1559_base_fee fee used limit = Panic \<longleftrightarrow> limit = 1 \<and> 0 < used"
  by (auto simp: compute_eip1559_base_fee_def Let_def)

text \<open>
  The rule is not the one of \<^verbatim>\<open>BaseFeeCalculator\<close>, which the block producer uses and which divides the
  change by 8: a block that follows a fuller block than the target is rejected.
\<close>

lemma produced_fee_rejected:
  "next_base_fee 1000000000 16000000 30000000 = Ok 1008333333"
  "compute_eip1559_base_fee 1000000000 16000000 30000000 = Ok 1066666666"
  by (simp_all add: next_base_fee_def compute_eip1559_base_fee_def fee_consts sat_mul_def sat_add_def umax_def cast_def
      checked_add_def Let_def)

lemma low_fee_stuck: "fee < 8 \<Longrightarrow> limit \<noteq> 1 \<Longrightarrow> compute_eip1559_base_fee fee used limit = Ok fee"
  by (auto simp: compute_eip1559_base_fee_def Let_def sat_add_def umax_def cast_def)

end
