(* ===== verification/Block_Store.thy ===== *)
theory Block_Store
  imports Block_Header "HOL-Library.AList"
begin

text \<open>
  The store of recent blocks of the consensus engine, \<^verbatim>\<open>zbx-consensus/src/block_store.rs\<close>. The hash map
  is an association list, the queue of insertions a list with its front first. The hash function is a
  parameter. The lemmas are about the invariant of the queue and about which blocks a store still holds.
\<close>

record block_store =
  blocks :: "(h256 \<times> block) list"
  insertion_order :: "h256 list"
  capacity :: usize

definition block_store_new :: "usize \<Rightarrow> block_store" where
  "block_store_new n = \<lparr>blocks = [], insertion_order = [], capacity = n\<rparr>"

definition add_block :: "(byte list \<Rightarrow> h256) \<Rightarrow> block_store \<Rightarrow> block \<Rightarrow> block_store" where
  "add_block K s b =
     (let hash = hash_of_block K b in
      if map_of (blocks s) hash \<noteq> None then s
      else
       (let s1 = (if length (blocks s) \<ge> capacity s
                  then (case insertion_order s of
                          oldest # rest \<Rightarrow> s\<lparr>insertion_order := rest, blocks := AList.delete oldest (blocks s)\<rparr>
                        | [] \<Rightarrow> s)
                  else s)
        in s1\<lparr>insertion_order := insertion_order s1 @ [hash], blocks := AList.update hash b (blocks s1)\<rparr>))"

definition get_block :: "block_store \<Rightarrow> h256 \<Rightarrow> block option" where
  "get_block s h = map_of (blocks s) h"

definition remove_block :: "block_store \<Rightarrow> h256 \<Rightarrow> block option \<times> block_store" where
  "remove_block s h = (map_of (blocks s) h, s\<lparr>blocks := AList.delete h (blocks s)\<rparr>)"

section \<open>A bounded queue\<close>

text \<open>As long as nothing is removed the queue lists exactly the blocks held, oldest first.\<close>

definition store_ok :: "(byte list \<Rightarrow> h256) \<Rightarrow> block_store \<Rightarrow> bool" where
  "store_ok K s \<longleftrightarrow> insertion_order s = map fst (blocks s) \<and> distinct (map fst (blocks s))
     \<and> list_all (\<lambda>(h, b). hash_of_block K b = h) (blocks s)"

definition held :: "block_store \<Rightarrow> block list" where
  "held s = map snd (blocks s)"

lemma add_absent: "map_of al k = None \<Longrightarrow> AList.update k v al = al @ [(k, v)]"
  by (induction al) (auto split: if_splits)

lemma delete_first: "distinct (map fst ((k, v) # al)) \<Longrightarrow> AList.delete k ((k, v) # al) = al"
  by (force simp: AList.delete_eq filter_id_conv)

lemma held_hashes: "store_ok K s \<Longrightarrow> map fst (blocks s) = map (hash_of_block K) (held s)"
  by (auto simp: store_ok_def held_def list_all_iff)

lemma get_held: "store_ok K s \<Longrightarrow> get_block s h = find (\<lambda>b. hash_of_block K b = h) (held s)"
proof -
  have "map_of al h = find (\<lambda>b. hash_of_block K b = h) (map snd al)"
    if "list_all (\<lambda>(h, b). hash_of_block K b = h) al" for al
    using that by (induction al) auto
  then show "store_ok K s \<Longrightarrow> ?thesis" by (simp add: store_ok_def get_block_def held_def)
qed

lemma get_block_hash: "store_ok K s \<Longrightarrow> get_block s h = Some b \<Longrightarrow> hash_of_block K b = h"
  by (auto simp: store_ok_def get_block_def list_all_iff dest!: map_of_SomeD)

lemma add_block_sound:
  assumes "store_ok K s"
  shows "store_ok K (add_block K s b)
    \<and> held (add_block K s b) =
        (if hash_of_block K b \<in> hash_of_block K ` set (held s) then held s
         else (if capacity s \<le> length (held s) then tl (held s) else held s) @ [b])"
proof -
  let ?h = "hash_of_block K b"
  have known: "map_of (blocks s) ?h \<noteq> None \<longleftrightarrow> ?h \<in> hash_of_block K ` set (held s)"
    using held_hashes[OF assms] by (metis list.set_map map_of_eq_None_iff)
  show ?thesis
  proof (cases "map_of (blocks s) ?h")
    case (Some x)
    then show ?thesis using assms known by (simp add: add_block_def)
  next
    case None
    then have fresh: "?h \<notin> fst ` set (blocks s)" by (simp add: map_of_eq_None_iff)
    show ?thesis
    proof (cases "capacity s \<le> length (blocks s) \<and> blocks s \<noteq> []")
      case False
      have "add_block K s b = s\<lparr>insertion_order := insertion_order s @ [?h], blocks := blocks s @ [(?h, b)]\<rparr>"
        using None False assms by (auto simp: add_block_def add_absent store_ok_def Let_def)
      then show ?thesis using assms fresh known None False by (auto simp: store_ok_def held_def)
    next
      case True
      then obtain old bo rest where bl: "blocks s = (old, bo) # rest" by (cases "blocks s") auto
      have del: "AList.delete old (blocks s) = rest" using assms bl delete_first[of old bo rest] by (simp add: store_ok_def)
      have "add_block K s b = s\<lparr>insertion_order := map fst rest @ [?h], blocks := rest @ [(?h, b)]\<rparr>"
        using None True assms del add_absent[of rest ?h b] by (simp add: add_block_def store_ok_def Let_def bl split: if_splits)
      then show ?thesis using assms fresh known None True by (auto simp: store_ok_def held_def bl)
    qed
  qed
qed

text \<open>
  The store refines a queue of the latest blocks: adding a block it does not hold appends it and, when
  it is full, drops the oldest; a block it holds changes nothing.
\<close>

theorem add_block_refines_queue:
  assumes "store_ok K s"
  shows "store_ok K (add_block K s b)
    \<and> held (add_block K s b) =
        (if hash_of_block K b \<in> hash_of_block K ` set (held s) then held s
         else (if capacity s \<le> length (held s) then tl (held s) else held s) @ [b])"
  using assms by (rule add_block_sound)

lemma block_store_new_ok: "store_ok K (block_store_new n)" "held (block_store_new n) = []" "capacity (block_store_new n) = n"
  by (simp_all add: store_ok_def held_def block_store_new_def)

lemma capacity_add: "capacity (add_block K s b) = capacity s"
  by (simp add: add_block_def Let_def split: list.splits)

definition adds :: "(byte list \<Rightarrow> h256) \<Rightarrow> usize \<Rightarrow> block list \<Rightarrow> block_store" where
  "adds K n bs = foldl (add_block K) (block_store_new n) bs"

lemma adds_snoc [simp]: "adds K n (bs @ [b]) = add_block K (adds K n bs) b" "adds K n [] = block_store_new n"
  by (simp_all add: adds_def)

lemma adds_held:
  assumes "distinct (map (hash_of_block K) bs)" "0 < n"
  shows "store_ok K (adds K n bs) \<and> held (adds K n bs) = drop (length bs - n) bs \<and> capacity (adds K n bs) = n"
  using assms(1)
proof (induction bs rule: rev_induct)
  case (snoc b bs)
  have IH: "store_ok K (adds K n bs)" "held (adds K n bs) = drop (length bs - n) bs" "capacity (adds K n bs) = n"
    using snoc by simp_all
  have "hash_of_block K b \<notin> hash_of_block K ` set (held (adds K n bs))"
    using snoc.prems set_drop_subset[of "length bs - n" bs] unfolding IH(2) by auto
  moreover have "tl (drop (length bs - n) bs) = drop (Suc (length bs) - n) bs" if "n \<le> length bs"
    using that by (simp add: tl_drop drop_Suc[symmetric] Suc_diff_le)
  ultimately show ?case
    using add_block_sound[OF IH(1), of b] IH assms(2) by (auto simp: capacity_add)
qed (use block_store_new_ok in simp)

text \<open>
  Of a sequence of distinct blocks a store finds exactly the last \<open>capacity\<close> ones, by their hashes.
\<close>

theorem block_store_keeps_last:
  assumes "distinct (map (hash_of_block K) bs)" "0 < n"
  shows "get_block (adds K n bs) h = find (\<lambda>b. hash_of_block K b = h) (drop (length bs - n) bs)
    \<and> length (blocks (adds K n bs)) = min n (length bs)"
proof -
  note a = adds_held[OF assms]
  have "length (blocks (adds K n bs)) = length (held (adds K n bs))" by (simp add: held_def)
  then show ?thesis using a get_held[of K "adds K n bs" h] by simp
qed

definition sample_block :: "block_header \<Rightarrow> block" where
  "sample_block h = \<lparr>header = h, body = \<lparr>transactions = [], uncles = []\<rparr>\<rparr>"

lemma sample_blocks_distinct:
  "distinct (map (hash_of_block sample_hash) [sample_block (header (genesis 7 1700000000)), sample_block sample_child])"
proof -
  have self: "sample_child\<lparr>committee_signature := []\<rparr> = sample_child" by (simp add: sample_child_def genesis_def)
  have "length (canonical_encode (header (genesis 7 1700000000))) < 2 ^ 256"
    by (simp add: genesis_def canonical_encode_def)
  then show ?thesis
    using sample_lengths[of "[]"] self
    by (auto simp: sample_block_def hash_of_block_def header_hash_def sample_hash_def word_of_nat_eq_iff take_bit_nat_eq_self)
qed

lemma block_store_keeps_last_witness:
  "length (blocks (adds sample_hash 1 [sample_block (header (genesis 7 1700000000)), sample_block sample_child])) = 1"
  using block_store_keeps_last[OF sample_blocks_distinct, of 1] by simp

lemma add_block_refines_queue_witness:
  "held (add_block sample_hash (block_store_new 1) (sample_block sample_child)) = [sample_block sample_child]"
  using add_block_refines_queue[OF block_store_new_ok(1), of sample_hash 1 "sample_block sample_child"]
  by (simp add: block_store_new_def held_def)

section \<open>Removal breaks the bound\<close>

text \<open>
  Removing a block leaves its hash in the queue. When the store is full again the next insertion drops
  that stale hash instead of a block, and the store grows past its capacity.
\<close>

lemma removal_exceeds_capacity:
  assumes "distinct (map (hash_of_block K) [a, b, c, d])"
  shows "length (blocks (add_block K (add_block K (snd (remove_block (adds K 2 [a, b]) (hash_of_block K a))) c) d)) = 3"
  using assms by (auto simp: adds_def block_store_new_def add_block_def remove_block_def Let_def)

end
