(* ===== verification/Safety_Rules.thy ===== *)
theory Safety_Rules
  imports Votes
begin

text \<open>
  The voting rules of a validator, \<^verbatim>\<open>zbx-consensus/src/safety_rules.rs\<close>. The signing key is a
  parameter \<open>sign\<close>, a function from the hash to the signature. The file system is a map from paths to
  the safety states that can be read back from there; whether the write and the rename of one call
  succeed is an argument. The theorems are about histories of votes, lock updates, epoch changes and
  restarts from the file.
\<close>

section \<open>State and operations\<close>

record safety_state =
  highest_vote_round :: u64
  locked_round :: u64
  locked_qc :: "quorum_certificate option"
  safety_epoch :: u64
  voted_phases :: "(u64 \<times> byte) set"

definition safety_default :: safety_state where
  "safety_default = \<lparr>highest_vote_round = 0, locked_round = 0, locked_qc = None, safety_epoch = 0, voted_phases = {}\<rparr>"

record safety_rules =
  safety_st :: safety_state
  safety_address :: address
  persist_path :: "string option"

type_synonym wal_files = "string \<rightharpoonup> safety_state"

definition safety_rules_new :: "address \<Rightarrow> safety_rules" where
  "safety_rules_new a = \<lparr>safety_st = safety_default, safety_address = a, persist_path = None\<rparr>"

definition new_with_persist :: "address \<Rightarrow> string \<Rightarrow> wal_files \<Rightarrow> safety_rules" where
  "new_with_persist a path files =
     \<lparr>safety_st = (case files path of Some s \<Rightarrow> s | None \<Rightarrow> safety_default), safety_address = a,
      persist_path = Some path\<rparr>"

definition persist_state :: "safety_rules \<Rightarrow> bool \<Rightarrow> wal_files \<Rightarrow> wal_files" where
  "persist_state sr written files =
     (case persist_path sr of
        Some path \<Rightarrow> if written then files(path \<mapsto> safety_st sr) else files
      | None \<Rightarrow> files)"

definition cast_vote ::
  "crypto \<Rightarrow> (h256 \<Rightarrow> bls_sig) \<Rightarrow> safety_rules \<Rightarrow> vote_data \<Rightarrow> quorum_certificate \<Rightarrow> bool \<Rightarrow> wal_files \<Rightarrow>
   (consensus_error, vote) res \<times> safety_rules \<times> wal_files" where
  "cast_vote c sign sr data parent_qc written files =
     (let st = safety_st sr; phase_key = (block_number data, vphase data) in
      if block_number data < highest_vote_round st
        then (Err (StaleRound (block_number data) (highest_vote_round st)), sr, files)
      else if phase_key \<in> voted_phases st
        then (Err (DuplicateVote (Phase_Dup (block_number data) (vphase data))), sr, files)
      else if qc_round parent_qc < locked_round st
        then (Err (SafetyViolation ''parent QC round < locked round''), sr, files)
      else if epoch data \<noteq> safety_epoch st \<and> safety_epoch st \<noteq> 0
        then (Err (SafetyViolation ''epoch mismatch''), sr, files)
      else
       (let sr1 = sr\<lparr>safety_st := st\<lparr>highest_vote_round := block_number data,
                                      voted_phases := insert phase_key (voted_phases st)\<rparr>\<rparr>
        in (Ok \<lparr>vdata = data, voter = safety_address sr, vsignature = sign (vote_hash c data)\<rparr>,
            sr1, persist_state sr1 written files)))"

definition update_locked_qc :: "safety_rules \<Rightarrow> quorum_certificate \<Rightarrow> safety_rules" where
  "update_locked_qc sr qc =
     (if qc_round qc > locked_round (safety_st sr)
      then sr\<lparr>safety_st := (safety_st sr)\<lparr>locked_round := qc_round qc, locked_qc := Some qc\<rparr>\<rparr> else sr)"

definition advance_epoch :: "safety_rules \<Rightarrow> u64 \<Rightarrow> safety_rules" where
  "advance_epoch sr new_epoch =
     (if new_epoch > safety_epoch (safety_st sr)
      then sr\<lparr>safety_st := (safety_st sr)\<lparr>safety_epoch := new_epoch, voted_phases := {}\<rparr>\<rparr> else sr)"

section \<open>Histories\<close>

text \<open>
  A history of one validator: the calls it receives and its restarts. A restart without a path
  begins anew, one with a path reads the file.
\<close>

datatype safety_in =
    Cast vote_data quorum_certificate bool
  | Lock quorum_certificate
  | New_Epoch u64
  | Restart

fun safety_step ::
  "crypto \<Rightarrow> (h256 \<Rightarrow> bls_sig) \<Rightarrow> safety_rules \<times> wal_files \<Rightarrow> safety_in \<Rightarrow> vote list \<times> safety_rules \<times> wal_files" where
  "safety_step c sign (sr, files) (Cast d q written) =
     (case cast_vote c sign sr d q written files of (Ok v, s) \<Rightarrow> ([v], s) | (_, s) \<Rightarrow> ([], s))"
| "safety_step c sign (sr, files) (Lock q) = ([], update_locked_qc sr q, files)"
| "safety_step c sign (sr, files) (New_Epoch e) = ([], advance_epoch sr e, files)"
| "safety_step c sign (sr, files) Restart =
     ([], (case persist_path sr of
             Some path \<Rightarrow> new_with_persist (safety_address sr) path files
           | None \<Rightarrow> safety_rules_new (safety_address sr)), files)"

fun safety_run ::
  "crypto \<Rightarrow> (h256 \<Rightarrow> bls_sig) \<Rightarrow> safety_rules \<times> wal_files \<Rightarrow> safety_in list \<Rightarrow> vote list \<times> safety_rules \<times> wal_files" where
  "safety_run c sign s [] = ([], s)"
| "safety_run c sign s (i # is) =
     (let (vs, t) = safety_step c sign s i; (ws, u) = safety_run c sign t is in (vs @ ws, u))"

lemma cast_vote_cases:
  obtains (refused) e where "cast_vote c sign sr d q written files = (Err e, sr, files)"
  | (voted) sr1 where
      "cast_vote c sign sr d q written files =
        (Ok \<lparr>vdata = d, voter = safety_address sr, vsignature = sign (vote_hash c d)\<rparr>, sr1, persist_state sr1 written files)"
      "sr1 = sr\<lparr>safety_st := (safety_st sr)\<lparr>highest_vote_round := block_number d,
         voted_phases := insert (block_number d, vphase d) (voted_phases (safety_st sr))\<rparr>\<rparr>"
      "highest_vote_round (safety_st sr) \<le> block_number d"
      "(block_number d, vphase d) \<notin> voted_phases (safety_st sr)"
      "locked_round (safety_st sr) \<le> qc_round q"
      "epoch d = safety_epoch (safety_st sr) \<or> safety_epoch (safety_st sr) = 0"
  by (cases "fst (cast_vote c sign sr d q written files)")
     (auto simp: cast_vote_def Let_def split: if_splits)

section \<open>What a validator never signs twice\<close>

text \<open>The state a restart comes back with.\<close>

definition recovered :: "safety_rules \<Rightarrow> wal_files \<Rightarrow> safety_state" where
  "recovered sr files = (case persist_path sr of
     Some path \<Rightarrow> (case files path of Some s \<Rightarrow> s | None \<Rightarrow> safety_default) | None \<Rightarrow> safety_default)"

definition signed_state :: "safety_state \<Rightarrow> vote_data \<Rightarrow> safety_state" where
  "signed_state st d = st\<lparr>highest_vote_round := block_number d,
     voted_phases := insert (block_number d, vphase d) (voted_phases st)\<rparr>"

text \<open>
  A validator remembers what it signed when its state forbids every key it has signed: a state
  forbids no key it may still sign, it forbids what it signs, and it goes on forbidding it. With
  \<open>epochs\<close> the contract covers changes of epoch.
\<close>

locale vote_memory =
  fixes good :: "safety_state \<Rightarrow> bool"
    and forbids :: "safety_state \<Rightarrow> 'k \<Rightarrow> bool"
    and vkey :: "vote_data \<Rightarrow> 'k"
    and epochs :: bool
  assumes fresh: "\<lbrakk>good st; (block_number d, vphase d) \<notin> voted_phases st; epoch d = safety_epoch st \<or> safety_epoch st = 0\<rbrakk>
      \<Longrightarrow> \<not> forbids st (vkey d)"
    and signed: "\<lbrakk>good st; epoch d = safety_epoch st \<or> safety_epoch st = 0; forbids st k \<or> k = vkey d\<rbrakk>
      \<Longrightarrow> forbids (signed_state st d) k"
    and good_signed: "good st \<Longrightarrow> good (signed_state st d)"
    and locked: "forbids (st\<lparr>locked_round := r, locked_qc := q\<rparr>) = forbids st" "good (st\<lparr>locked_round := r, locked_qc := q\<rparr>) = good st"
    and renewed: "\<lbrakk>epochs; good st; safety_epoch st < e\<rbrakk> \<Longrightarrow> good (st\<lparr>safety_epoch := e, voted_phases := {}\<rparr>)"
      "\<lbrakk>epochs; good st; safety_epoch st < e; forbids st k\<rbrakk> \<Longrightarrow> forbids (st\<lparr>safety_epoch := e, voted_phases := {}\<rparr>) k"
begin

definition allowed :: "bool \<Rightarrow> safety_in \<Rightarrow> bool" where
  "allowed restarts i = (case i of Cast d q w \<Rightarrow> restarts \<longrightarrow> w | Lock q \<Rightarrow> True | New_Epoch e \<Rightarrow> epochs | Restart \<Rightarrow> restarts)"

definition ready :: "bool \<Rightarrow> safety_rules \<Rightarrow> wal_files \<Rightarrow> bool" where
  "ready restarts sr files \<longleftrightarrow> good (safety_st sr) \<and> (restarts \<longrightarrow> persist_path sr \<noteq> None \<and> good (recovered sr files))"

definition spent :: "bool \<Rightarrow> safety_rules \<Rightarrow> wal_files \<Rightarrow> 'k \<Rightarrow> bool" where
  "spent restarts sr files k \<longleftrightarrow> forbids (safety_st sr) k \<and> (restarts \<longrightarrow> forbids (recovered sr files) k)"

lemma step_memory:
  assumes "ready r sr files" "allowed r i" "safety_step c sign (sr, files) i = (vs, sr1, files1)"
  shows "ready r sr1 files1" "spent r sr files k \<Longrightarrow> spent r sr1 files1 k"
    "(vs = [] \<or> (\<exists>v. vs = [v] \<and> \<not> spent r sr files (vkey (vdata v)) \<and> spent r sr1 files1 (vkey (vdata v))))"
proof -
  have g: "good (safety_st sr)" "r \<Longrightarrow> persist_path sr \<noteq> None" "r \<Longrightarrow> good (recovered sr files)"
    using assms(1) by (auto simp: ready_def)
  have "ready r sr1 files1 \<and> (spent r sr files k \<longrightarrow> spent r sr1 files1 k)
    \<and> (vs = [] \<or> (\<exists>v. vs = [v] \<and> \<not> spent r sr files (vkey (vdata v)) \<and> spent r sr1 files1 (vkey (vdata v))))"
  proof (cases i)
    case (Cast d q w)
    show ?thesis
    proof (cases rule: cast_vote_cases[of c sign sr d q w files])
      case (refused e)
      then show ?thesis using assms(1,3) by (simp add: Cast)
    next
      case (voted sr')
      have st: "safety_st sr' = signed_state (safety_st sr) d" "persist_path sr' = persist_path sr"
        using voted(2) by (simp_all add: signed_state_def)
      have rec: "r \<Longrightarrow> recovered sr1 files1 = signed_state (safety_st sr) d"
        using assms(2,3) voted(1) st g(2) by (auto simp: Cast allowed_def recovered_def persist_state_def)
      have "sr1 = sr'" "vs = [\<lparr>vdata = d, voter = safety_address sr, vsignature = sign (vote_hash c d)\<rparr>]"
        using assms(3) voted(1) by (simp_all add: Cast)
      then show ?thesis
        using rec st g voted(4,6) fresh signed good_signed by (auto simp: ready_def spent_def)
    qed
  next
    case (Lock q)
    then show ?thesis
      using assms(1,3) by (auto simp: update_locked_qc_def ready_def spent_def locked recovered_def)
  next
    case (New_Epoch e)
    then show ?thesis
      using assms g renewed by (auto simp: advance_epoch_def ready_def spent_def allowed_def recovered_def)
  next
    case Restart
    then have "r" using assms(2) by (simp add: allowed_def)
    then obtain path where "persist_path sr = Some path" using g(2) by blast
    then show ?thesis
      using assms(3) g \<open>r\<close> Restart by (auto simp: ready_def spent_def recovered_def new_with_persist_def)
  qed
  then show "ready r sr1 files1" "spent r sr files k \<Longrightarrow> spent r sr1 files1 k"
    "(vs = [] \<or> (\<exists>v. vs = [v] \<and> \<not> spent r sr files (vkey (vdata v)) \<and> spent r sr1 files1 (vkey (vdata v))))" by blast+
qed

lemma run_memory:
  assumes "ready r sr files" "list_all (allowed r) is" "safety_run c sign (sr, files) is = (vs, t)"
  shows "distinct (map (vkey \<circ> vdata) vs) \<and> list_all (\<lambda>v. \<not> spent r sr files (vkey (vdata v))) vs"
  using assms
proof (induction "is" arbitrary: sr files vs)
  case (Cons i "is")
  obtain ws sr1 files1 us where s: "safety_step c sign (sr, files) i = (ws, sr1, files1)"
    and u: "safety_run c sign (sr1, files1) is = (us, t)" "vs = ws @ us"
    using Cons.prems(3) by (auto simp: Let_def split: prod.splits)
  have al: "allowed r i" using Cons.prems(2) by simp
  note sm = step_memory[OF Cons.prems(1) al s]
  have IH: "distinct (map (vkey \<circ> vdata) us) \<and> list_all (\<lambda>v. \<not> spent r sr1 files1 (vkey (vdata v))) us"
    using Cons.IH[OF sm(1) _ u(1)] Cons.prems(2) by (simp add: comp_def)
  have later: "list_all (\<lambda>v. \<not> spent r sr files (vkey (vdata v))) us" using IH sm(2) by (auto simp: list_all_iff)
  from sm(3) show ?case
  proof (elim disjE exE conjE)
    fix v assume "ws = [v]" "\<not> spent r sr files (vkey (vdata v))" "spent r sr1 files1 (vkey (vdata v))"
    then show ?thesis using IH later u(2) by (auto simp: list_all_iff image_iff comp_def)
  qed (use IH later u(2) in \<open>simp add: comp_def\<close>)
qed simp

end

text \<open>Without changes of epoch a key is a block number and a phase; with them the epoch is part of it.\<close>

interpretation phase_memory: vote_memory "\<lambda>_. True" "\<lambda>st k. k \<in> voted_phases st"
  "\<lambda>d. (block_number d, vphase d)" False
  by unfold_locales (auto simp: signed_state_def)

interpretation epoch_memory: vote_memory "\<lambda>st. 0 < safety_epoch st"
  "\<lambda>st (e, k). e < safety_epoch st \<or> e = safety_epoch st \<and> k \<in> voted_phases st"
  "\<lambda>d. (epoch d, block_number d, vphase d)" True
  by unfold_locales (auto simp: signed_state_def)

definition no_new_epoch :: "safety_in \<Rightarrow> bool" where
  "no_new_epoch i = (case i of New_Epoch e \<Rightarrow> False | _ \<Rightarrow> True)"

text \<open>Restarts are covered when the rules have a file and every write to it succeeds.\<close>

definition durable :: "safety_rules \<Rightarrow> safety_in list \<Rightarrow> bool" where
  "durable sr is \<longleftrightarrow> Restart \<notin> set is
     \<or> persist_path sr \<noteq> None \<and> list_all (\<lambda>i. case i of Cast d q w \<Rightarrow> w | _ \<Rightarrow> True) is"

text \<open>
  C4: Within an epoch a validator signs at most one vote for a block number and phase, whatever it is
  asked and however often it restarts, if it never restarts or keeps a file that is written.
\<close>

theorem safety_rules_no_double_vote:
  assumes "safety_run c sign (sr, files) is = (vs, t)" "list_all no_new_epoch is" "durable sr is"
  shows "distinct (map (\<lambda>v. (block_number (vdata v), vphase (vdata v))) vs)"
proof -
  have "phase_memory.ready (Restart \<in> set is) sr files"
    using assms(3) by (auto simp: phase_memory.ready_def durable_def)
  moreover have "list_all (phase_memory.allowed (Restart \<in> set is)) is"
    using assms(2,3) unfolding list_all_iff durable_def phase_memory.allowed_def no_new_epoch_def
    by (fastforce split: safety_in.splits)
  ultimately show ?thesis
    using phase_memory.run_memory[OF _ _ assms(1)] by (auto simp: comp_def)
qed

text \<open>
  Over changes of epoch it signs at most one vote for an epoch, block number and phase, once it and
  its file have left epoch 0.
\<close>

theorem safety_rules_no_double_vote_epochs:
  assumes "safety_run c sign (sr, files) is = (vs, t)" "durable sr is"
    and "safety_epoch (safety_st sr) \<noteq> 0" "safety_epoch (recovered sr files) \<noteq> 0"
  shows "distinct (map (\<lambda>v. (epoch (vdata v), block_number (vdata v), vphase (vdata v))) vs)"
proof -
  have "epoch_memory.ready (Restart \<in> set is) sr files"
    using assms(2-4) by (auto simp: epoch_memory.ready_def durable_def)
  moreover have "list_all (epoch_memory.allowed (Restart \<in> set is)) is"
    using assms(2) unfolding list_all_iff durable_def epoch_memory.allowed_def
    by (fastforce split: safety_in.splits)
  ultimately show ?thesis
    using epoch_memory.run_memory[OF _ _ assms(1)] by (auto simp: comp_def)
qed


text \<open>A validator votes, restarts from its file and votes on; the second request is refused.\<close>

definition sample_qc :: "u64 \<Rightarrow> quorum_certificate" where
  "sample_qc n = \<lparr>qc_data = \<lparr>block_hash = 7, block_number = n, vphase = 0, epoch = 1\<rparr>, agg_signature = [],
     signers = [], signer_pubkeys = []\<rparr>"

definition sample_data :: "h256 \<Rightarrow> u64 \<Rightarrow> u64 \<Rightarrow> vote_data" where
  "sample_data h n e = \<lparr>block_hash = h, block_number = n, vphase = 0, epoch = e\<rparr>"

definition sample_rules :: safety_rules where
  "sample_rules = \<lparr>safety_st = safety_default\<lparr>safety_epoch := 1\<rparr>, safety_address = 3, persist_path = Some ''wal''\<rparr>"

definition sample_files :: wal_files where
  "sample_files = [''wal'' \<mapsto> safety_default\<lparr>safety_epoch := 1\<rparr>]"

definition sample_history :: "safety_in list" where
  "sample_history = [Cast (sample_data 5 1 1) (sample_qc 0) True, Restart, Cast (sample_data 6 1 1) (sample_qc 0) True,
     Cast (sample_data 6 2 1) (sample_qc 1) True]"

lemmas safety_sample_defs = sample_qc_def sample_data_def sample_rules_def sample_files_def sample_history_def

lemma sample_history_votes:
  "map vdata (fst (safety_run c sign (sample_rules, sample_files) sample_history)) = [sample_data 5 1 1, sample_data 6 2 1]"
  by (simp add: safety_sample_defs cast_vote_def Let_def new_with_persist_def persist_state_def safety_default_def)

lemma safety_rules_no_double_vote_witness:
  "\<forall>c sign. distinct (map (\<lambda>v. (block_number (vdata v), vphase (vdata v)))
     (fst (safety_run c sign (sample_rules, sample_files) sample_history)))"
  by (intro allI, rule safety_rules_no_double_vote[OF surjective_pairing])
     (simp_all add: safety_sample_defs no_new_epoch_def durable_def)

lemma safety_rules_no_double_vote_epochs_witness:
  "\<forall>c sign. distinct (map (\<lambda>v. (epoch (vdata v), block_number (vdata v), vphase (vdata v)))
     (fst (safety_run c sign (sample_rules, sample_files) (sample_history @ [New_Epoch 2]))))"
  by (intro allI, rule safety_rules_no_double_vote_epochs[OF surjective_pairing])
     (simp_all add: safety_sample_defs durable_def recovered_def)

section \<open>The lock\<close>

lemma update_locked_qc_mono: "locked_round (safety_st sr) \<le> locked_round (safety_st (update_locked_qc sr q))"
  "qc_round q \<le> locked_round (safety_st (update_locked_qc sr q))"
  by (simp_all add: update_locked_qc_def)

lemma step_lock_mono:
  assumes "i \<noteq> Restart" "safety_step c sign (sr, files) i = (vs, sr1, files1)"
  shows "locked_round (safety_st sr) \<le> locked_round (safety_st sr1)"
proof (cases i)
  case (Cast d q w)
  then show ?thesis using assms(2) by (cases rule: cast_vote_cases[of c sign sr d q w files]) auto
qed (use assms update_locked_qc_mono(1)[of sr] in \<open>auto simp: advance_epoch_def\<close>)

lemma run_lock_mono:
  assumes "Restart \<notin> set is" "safety_run c sign (sr, files) is = (vs, sr1, files1)"
  shows "locked_round (safety_st sr) \<le> locked_round (safety_st sr1)
    \<and> (\<forall>q. Lock q \<in> set is \<longrightarrow> qc_round q \<le> locked_round (safety_st sr1))"
  using assms
proof (induction "is" arbitrary: sr files vs)
  case (Cons i "is")
  obtain ws sr' files' us where s: "safety_step c sign (sr, files) i = (ws, sr', files')"
    and u: "safety_run c sign (sr', files') is = (us, sr1, files1)"
    using Cons.prems(2) by (auto simp: Let_def split: prod.splits)
  have "locked_round (safety_st sr) \<le> locked_round (safety_st sr')"
    using step_lock_mono[OF _ s] Cons.prems(1) by auto
  moreover have "i = Lock q \<Longrightarrow> qc_round q \<le> locked_round (safety_st sr')" for q
    using s update_locked_qc_mono(2) by auto
  ultimately show ?case using Cons.IH[OF _ u] Cons.prems(1) by (auto intro: order_trans)
qed simp

text \<open>
  A validator that has locked a certificate refuses, until it restarts, every proposal whose parent
  certificate is of a lower round, over changes of epoch as well.
\<close>

theorem lock_respected:
  assumes "safety_run c sign s is = (vs, sr, files)" "Lock q \<in> set is" "Restart \<notin> set is"
    and "qc_round parent < qc_round q"
  shows "\<exists>e. cast_vote c sign sr d parent written files' = (Err e, sr, files')"
proof -
  obtain sr0 files0 where "s = (sr0, files0)" by (cases s)
  then have "qc_round q \<le> locked_round (safety_st sr)" using run_lock_mono assms(1-3) by blast
  then show ?thesis
    using assms(4) by (cases rule: cast_vote_cases[of c sign sr d parent written files']) auto
qed

lemma lock_respected_witness:
  "\<forall>c sign. \<exists>e. cast_vote c sign (update_locked_qc sample_rules (sample_qc 4)) (sample_data 6 5 1) (sample_qc 3) True sample_files
     = (Err e, update_locked_qc sample_rules (sample_qc 4), sample_files)"
  by (intro allI, rule lock_respected[of _ _ "(sample_rules, sample_files)" "[Lock (sample_qc 4)]" "[]" _ sample_files "sample_qc 4"])
     (simp_all add: sample_qc_def)

section \<open>Where the memory ends\<close>

text \<open>
  The three ways in which a validator signs two blocks of one number and phase: a restart of rules made
  by \<^verbatim>\<open>SafetyRules::new\<close>, which is what the node constructs; a restart after a failed write, which is
  logged only; and a change of epoch from epoch 0, in which any epoch is signed.
\<close>

lemma restart_signs_twice:
  "map vdata (fst (safety_run c sign (safety_rules_new a, files)
     [Cast (sample_data 5 1 1) (sample_qc 0) True, Restart, Cast (sample_data 6 1 1) (sample_qc 0) True]))
   = [sample_data 5 1 1, sample_data 6 1 1]"
  by (simp add: safety_sample_defs cast_vote_def Let_def safety_rules_new_def persist_state_def safety_default_def)

lemma failed_write_signs_twice:
  "map vdata (fst (safety_run c sign (sample_rules, sample_files)
     [Cast (sample_data 5 1 1) (sample_qc 0) False, Restart, Cast (sample_data 6 1 1) (sample_qc 0) True]))
   = [sample_data 5 1 1, sample_data 6 1 1]"
  by (simp add: safety_sample_defs cast_vote_def Let_def new_with_persist_def persist_state_def safety_default_def)

lemma first_epoch_signs_twice:
  "map vdata (fst (safety_run c sign (safety_rules_new a, files)
     [Cast (sample_data 5 1 1) (sample_qc 0) True, New_Epoch 1, Cast (sample_data 6 1 1) (sample_qc 0) True]))
   = [sample_data 5 1 1, sample_data 6 1 1]"
  by (simp add: safety_sample_defs cast_vote_def Let_def safety_rules_new_def persist_state_def safety_default_def advance_epoch_def)

text \<open>A lock is written only with the next vote: a restart forgets it.\<close>

lemma restart_forgets_lock:
  "locked_round (safety_st (fst (snd (safety_run c sign (sample_rules, sample_files) [Lock (sample_qc 4), Restart])))) = 0"
  by (simp add: safety_sample_defs update_locked_qc_def new_with_persist_def safety_default_def)

end
