(* ===== verification/Pacemaker.thy ===== *)
theory Pacemaker
  imports Votes
begin

text \<open>
  The timing of rounds: the pacemaker of \<^verbatim>\<open>zbx-consensus/src/liveness.rs\<close> with its integer backoff,
  and the coordinator of \<^verbatim>\<open>pacemaker.rs\<close> that collects timeout shares into certificates. Durations and
  instants are nanoseconds, and the clock is an argument of the operations that read it. The signing
  key is a parameter \<open>sign\<close> with its public key. The shares of an accumulator are an association list
  in the iteration order of the hash map. The first lemmas are about the backoff, the others about the
  invariant of the coordinator, its certificates and its rounds.
\<close>

section \<open>The round timer\<close>

record pacemaker_config =
  base_timeout :: nat
  backoff_num :: u64
  backoff_den :: u64
  max_timeout :: nat

definition default_config :: pacemaker_config where
  "default_config = \<lparr>base_timeout = 2 * 10 ^ 9, backoff_num = 3, backoff_den = 2, max_timeout = 30 * 10 ^ 9\<rparr>"

record round_state =
  rs_round :: u64
  rs_epoch :: u64
  started_at :: nat
  timeout :: nat
  consecutive_timeouts :: u32

definition round_state_new :: "u64 \<Rightarrow> u64 \<Rightarrow> nat \<Rightarrow> nat \<Rightarrow> round_state" where
  "round_state_new r e t now = \<lparr>rs_round = r, rs_epoch = e, started_at = now, timeout = t, consecutive_timeouts = 0\<rparr>"

definition is_timed_out :: "round_state \<Rightarrow> nat \<Rightarrow> bool" where
  "is_timed_out s now \<longleftrightarrow> now - started_at s \<ge> timeout s"

record pacemaker =
  config :: pacemaker_config
  current :: round_state

definition pacemaker_new :: "pacemaker_config \<Rightarrow> nat \<Rightarrow> pacemaker" where
  "pacemaker_new cfg now = \<lparr>config = cfg, current = round_state_new 1 1 (base_timeout cfg) now\<rparr>"

definition advance_round :: "pacemaker \<Rightarrow> u64 \<Rightarrow> u64 \<Rightarrow> nat \<Rightarrow> pacemaker" where
  "advance_round p new_round e now =
     (if new_round \<le> rs_round (current p) then p
      else p\<lparr>current := round_state_new new_round e (base_timeout (config p)) now\<rparr>)"

definition start_round :: "pacemaker \<Rightarrow> u64 \<Rightarrow> u64 \<Rightarrow> nat \<Rightarrow> pacemaker" where
  "start_round p r e now = p\<lparr>current := round_state_new r e (base_timeout (config p)) now\<rparr>"

definition backoff_step :: "pacemaker_config \<Rightarrow> u64 option \<Rightarrow> u64 option" where
  "backoff_step cfg acc = Option.bind acc (\<lambda>ms. Option.bind (checked_mul 64 ms (backoff_num cfg))
     (\<lambda>x. Some (x div max (backoff_den cfg) 1)))"

definition backoff_timeout :: "pacemaker_config \<Rightarrow> u32 \<Rightarrow> nat" where
  "backoff_timeout cfg consecutive =
     (let base_ms = cast 64 (base_timeout cfg div 10 ^ 6); new_ms = (backoff_step cfg ^^ consecutive) (Some base_ms)
      in min (case new_ms of Some ms \<Rightarrow> ms * 10 ^ 6 | None \<Rightarrow> max_timeout cfg) (max_timeout cfg))"

definition on_timeout :: "pacemaker \<Rightarrow> nat \<Rightarrow> u64 \<times> pacemaker" where
  "on_timeout p now =
     (let consecutive = wrap_add 32 (consecutive_timeouts (current p)) 1
      in (rs_round (current p),
          p\<lparr>current := \<lparr>rs_round = wrap_add 64 (rs_round (current p)) 1, rs_epoch = rs_epoch (current p), started_at = now,
              timeout = backoff_timeout (config p) consecutive, consecutive_timeouts = consecutive\<rparr>\<rparr>))"

section \<open>The backoff\<close>

text \<open>A timer that keeps timing out, at the instants \<open>ts\<close>.\<close>

definition timeouts :: "pacemaker \<Rightarrow> nat list \<Rightarrow> pacemaker" where
  "timeouts p ts = foldl (\<lambda>p now. snd (on_timeout p now)) p ts"

lemma timeouts_snoc [simp]: "timeouts p [] = p" "timeouts p (ts @ [t]) = snd (on_timeout (timeouts p ts) t)"
  by (simp_all add: timeouts_def)

lemma timeouts_state:
  assumes "length ts < 2 ^ 32" "r + length ts < 2 ^ 64"
  shows "rs_round (current (timeouts (start_round p r e now) ts)) = r + length ts
    \<and> consecutive_timeouts (current (timeouts (start_round p r e now) ts)) = length ts
    \<and> config (timeouts (start_round p r e now) ts) = config p
    \<and> timeout (current (timeouts (start_round p r e now) ts))
        = (if ts = [] then base_timeout (config p) else backoff_timeout (config p) (length ts))"
  using assms
proof (induction ts rule: rev_induct)
  case (snoc t ts)
  then show ?case by (simp add: on_timeout_def Let_def)
qed (simp add: start_round_def round_state_new_def)

lemma backoff_step_None [simp]: "backoff_step cfg None = None"
  by (simp add: backoff_step_def)

lemma backoff_step_grows:
  assumes "backoff_den cfg \<le> backoff_num cfg" "0 < backoff_num cfg" "backoff_step cfg (Some ms) = Some ms'"
  shows "ms \<le> ms'"
proof -
  have m: "ms' = ms * backoff_num cfg div max (backoff_den cfg) 1"
    using assms(3) by (auto simp: backoff_step_def bind_eq_Some_conv)
  have "ms * max (backoff_den cfg) 1 \<le> ms * backoff_num cfg" using assms(1,2) by (intro mult_le_mono2) simp
  then have "ms * max (backoff_den cfg) 1 div max (backoff_den cfg) 1 \<le> ms'" unfolding m by (rule div_le_mono)
  then show ?thesis by simp
qed

lemma backoff_timeout_le: "backoff_timeout cfg k \<le> max_timeout cfg"
  by (simp add: backoff_timeout_def Let_def)

lemma backoff_timeout_Suc:
  assumes "backoff_den cfg \<le> backoff_num cfg" "0 < backoff_num cfg"
  shows "backoff_timeout cfg k \<le> backoff_timeout cfg (Suc k)"
proof (cases "(backoff_step cfg ^^ k) (Some (cast 64 (base_timeout cfg div 10 ^ 6)))")
  case None
  then show ?thesis by (simp add: backoff_timeout_def Let_def)
next
  case (Some ms)
  then show ?thesis
    using backoff_step_grows[OF assms] by (fastforce simp: backoff_timeout_def Let_def min_def split: option.splits)
qed

lemma backoff_timeout_mono:
  assumes "backoff_den cfg \<le> backoff_num cfg" "0 < backoff_num cfg" "j \<le> k"
  shows "backoff_timeout cfg j \<le> backoff_timeout cfg k"
  using assms(3) by (rule lift_Suc_mono_le[of "backoff_timeout cfg", rotated]) (rule backoff_timeout_Suc[OF assms(1,2)])

lemma backoff_timeout_0:
  assumes "base_timeout cfg = 10 ^ 6 * ms" "ms < 2 ^ 64" "base_timeout cfg \<le> max_timeout cfg"
  shows "backoff_timeout cfg 0 = base_timeout cfg"
  using assms by (simp add: backoff_timeout_def Let_def)

text \<open>
  A round that keeps timing out waits longer each time and never longer than the maximum: whatever the
  ratio, if it is at least one, and even where the product overflows 64 bits.
\<close>

theorem pacemaker_backoff:
  assumes "base_timeout (config p) = 10 ^ 6 * ms" "ms < 2 ^ 64" "base_timeout (config p) \<le> max_timeout (config p)"
    and "0 < backoff_den (config p)" "backoff_den (config p) \<le> backoff_num (config p)"
    and "length (ts @ us) < 2 ^ 32" "r + length (ts @ us) < 2 ^ 64"
  shows "timeout (current (timeouts (start_round p r e now) ts)) \<le> timeout (current (timeouts (start_round p r e now) (ts @ us)))
    \<and> timeout (current (timeouts (start_round p r e now) (ts @ us))) \<le> max_timeout (config p)
    \<and> rs_round (current (timeouts (start_round p r e now) (ts @ us))) = r + length ts + length us"
proof -
  have t: "timeout (current (timeouts (start_round p r e now) xs)) = backoff_timeout (config p) (length xs)"
    if "length xs \<le> length (ts @ us)" for xs
    using timeouts_state[of xs r p e now] that assms(6,7) backoff_timeout_0[OF assms(1-3)] by auto
  have "rs_round (current (timeouts (start_round p r e now) (ts @ us))) = r + length ts + length us"
    using timeouts_state[of "ts @ us" r p e now] assms(6,7) by simp
  then show ?thesis
    using t[of ts] t[of "ts @ us"] backoff_timeout_le[of "config p"] assms(4,5)
      backoff_timeout_mono[of "config p" "length ts" "length (ts @ us)"] by simp
qed

lemma funpow_six: "(f ^^ 6) x = f (f (f (f (f (f x)))))" "(f ^^ 7) x = f (f (f (f (f (f (f x))))))"
  by (simp_all add: numeral_eq_Suc)

lemma backoff_step_default: "backoff_step default_config (Some ms) = (if ms * 3 < 2 ^ 64 then Some (ms * 3 div 2) else None)"
proof -
  have "max (2 :: nat) 1 = 2" by simp
  then show ?thesis by (simp only: backoff_step_def default_config_def pacemaker_config.simps checked_mul_def) simp
qed

lemma default_base: "cast 64 (base_timeout default_config div 10 ^ 6) = 2000" "max_timeout default_config = 30 * 10 ^ 9"
  by (simp_all add: default_config_def cast_def)

lemma default_backoff:
  "backoff_timeout default_config 6 = 22780 * 10 ^ 6" "backoff_timeout default_config 7 = 30 * 10 ^ 9"
  unfolding backoff_timeout_def default_base Let_def funpow_six by (simp_all add: backoff_step_default)

lemma pacemaker_backoff_witness:
  "timeout (current (timeouts (start_round (pacemaker_new default_config 0) 5 1 0) [2, 3]))
     \<le> timeout (current (timeouts (start_round (pacemaker_new default_config 0) 5 1 0) ([2, 3] @ [4])))
   \<and> timeout (current (timeouts (start_round (pacemaker_new default_config 0) 5 1 0) ([2, 3] @ [4]))) \<le> 30 * 10 ^ 9
   \<and> rs_round (current (timeouts (start_round (pacemaker_new default_config 0) 5 1 0) ([2, 3] @ [4]))) = 5 + length [2 :: nat, 3] + length [4 :: nat]"
  using pacemaker_backoff[of "pacemaker_new default_config 0" 2000 "[2, 3]" "[4]" 5 1 0]
  by (simp add: pacemaker_new_def default_config_def)

text \<open>With the default configuration the seventh timeout in a row and every later one waits the full 30 seconds.\<close>

lemma default_backoff_saturates:
  assumes "7 \<le> k"
  shows "backoff_timeout default_config k = 30 * 10 ^ 9"
proof (rule antisym)
  show "backoff_timeout default_config k \<le> 30 * 10 ^ 9"
    using backoff_timeout_le[of default_config k] by (simp add: default_config_def)
  show "30 * 10 ^ 9 \<le> backoff_timeout default_config k"
    using backoff_timeout_mono[of default_config 7 k] assms default_backoff(2) by (simp add: default_config_def)
qed

text \<open>
  The division is done at every step, so the result is not the quotient of the powers that the comment
  gives: after six timeouts it is 22780 ms.
\<close>

lemma backoff_is_not_the_power_ratio: "backoff_timeout default_config 6 \<noteq> 2000 * 3 ^ 6 div 2 ^ 6 * 10 ^ 6"
  by (simp add: default_backoff)


section \<open>Timeout shares and certificates\<close>

record timeout_data =
  td_round :: u64
  td_epoch :: u64
  td_high_qc_round :: u64

definition timeout_bytes :: "timeout_data \<Rightarrow> byte list" where
  "timeout_bytes d = be_bytes 8 (td_round d) @ be_bytes 8 (td_epoch d) @ be_bytes 8 (td_high_qc_round d)"

definition timeout_hash :: "crypto \<Rightarrow> timeout_data \<Rightarrow> h256" where
  "timeout_hash c d = keccak256 c (timeout_bytes d)"

record round_share =
  share_data :: timeout_data
  share_validator :: address
  share_pubkey :: bls_pubkey
  share_signature :: bls_sig

record round_certificate =
  tc_round :: u64
  tc_epoch :: u64
  tc_high_qc_round :: u64
  tc_agg_signature :: bls_sig
  tc_signers :: "address list"

definition next_round :: "round_certificate \<Rightarrow> u64" where
  "next_round tc = wrap_add 64 (tc_round tc) 1"

record share_accumulator =
  sa_round :: u64
  sa_epoch :: u64
  sa_quorum :: usize
  sa_shares :: "(address \<times> round_share) list"

definition share_accumulator_new :: "u64 \<Rightarrow> u64 \<Rightarrow> usize \<Rightarrow> share_accumulator" where
  "share_accumulator_new r e q = \<lparr>sa_round = r, sa_epoch = e, sa_quorum = q, sa_shares = []\<rparr>"

definition certify :: "crypto \<Rightarrow> share_accumulator \<Rightarrow> round_certificate" where
  "certify c acc = (let entries = sa_shares acc in
     \<lparr>tc_round = sa_round acc, tc_epoch = sa_epoch acc,
      tc_high_qc_round = fold (\<lambda>(_, s). max (td_high_qc_round (share_data s))) entries 0,
      tc_agg_signature = (case aggregate_signatures c (map (\<lambda>(_, s). share_signature s) entries) of
         Some a \<Rightarrow> a | None \<Rightarrow> replicate 96 0),
      tc_signers = map fst entries\<rparr>)"

definition insert_share :: "crypto \<Rightarrow> share_accumulator \<Rightarrow> round_share \<Rightarrow> round_certificate option \<times> share_accumulator" where
  "insert_share c acc share =
     (if td_round (share_data share) \<noteq> sa_round acc \<or> td_epoch (share_data share) \<noteq> sa_epoch acc then (None, acc)
      else if map_of (sa_shares acc) (share_validator share) \<noteq> None then (None, acc)
      else if \<not> verify_single c (share_signature share) (share_pubkey share) (timeout_hash c (share_data share))
        then (None, acc)
      else
       (let acc1 = acc\<lparr>sa_shares := AList.update (share_validator share) share (sa_shares acc)\<rparr>
        in if length (sa_shares acc1) < sa_quorum acc1 then (None, acc1) else (Some (certify c acc1), acc1)))"

section \<open>The coordinator\<close>

datatype coordinator_event =
  BroadcastTimeout round_share | NewTc round_certificate | NewRound u64 | Noop

record coordinator =
  inner :: pacemaker
  co_round :: u64
  co_epoch :: u64
  self_addr :: address
  self_pubkey :: bls_pubkey
  co_quorum :: usize
  high_qc_round :: u64
  tc_accumulators :: "u64 \<rightharpoonup> share_accumulator"
  delta_ms :: u64
  delta_min_ms :: u64
  delta_max_ms :: u64

definition coordinator_new ::
  "address \<Rightarrow> bls_pubkey \<Rightarrow> usize \<Rightarrow> u64 \<Rightarrow> u64 \<Rightarrow> pacemaker_config \<Rightarrow> nat \<Rightarrow> coordinator" where
  "coordinator_new a pk n r e cfg now =
     \<lparr>inner = pacemaker_new cfg now, co_round = r, co_epoch = e, self_addr = a, self_pubkey = pk,
      co_quorum = 2 * (wrap_sub 64 n 1 div 3) + 1, high_qc_round = 0, tc_accumulators = Map.empty,
      delta_ms = 2000, delta_min_ms = 500, delta_max_ms = 30000\<rparr>"

definition build_timeout_share :: "crypto \<Rightarrow> (h256 \<Rightarrow> bls_sig) \<Rightarrow> coordinator \<Rightarrow> round_share" where
  "build_timeout_share c sign co =
     (let d = \<lparr>td_round = co_round co, td_epoch = co_epoch co, td_high_qc_round = high_qc_round co\<rparr>
      in \<lparr>share_data = d, share_validator = self_addr co, share_pubkey = self_pubkey co,
          share_signature = sign (timeout_hash c d)\<rparr>)"

definition tick :: "crypto \<Rightarrow> (h256 \<Rightarrow> bls_sig) \<Rightarrow> coordinator \<Rightarrow> nat \<Rightarrow> coordinator_event" where
  "tick c sign co now =
     (if is_timed_out (current (inner co)) now then BroadcastTimeout (build_timeout_share c sign co) else Noop)"

definition advance_to_round :: "coordinator \<Rightarrow> u64 \<Rightarrow> nat \<Rightarrow> coordinator" where
  "advance_to_round co r now =
     (if r > co_round co then co\<lparr>co_round := r, inner := start_round (inner co) r (co_epoch co) now\<rparr> else co)"

definition adapt_delta :: "coordinator \<Rightarrow> bool \<Rightarrow> coordinator" where
  "adapt_delta co success =
     (if success then co\<lparr>delta_ms := max (wrap_mul 64 (delta_ms co) 7 div 8) (delta_min_ms co)\<rparr>
      else co\<lparr>delta_ms := min (sat_mul 64 (delta_ms co) 3 div 2) (delta_max_ms co)\<rparr>)"

definition on_qc :: "coordinator \<Rightarrow> quorum_certificate \<Rightarrow> nat \<Rightarrow> coordinator_event \<times> coordinator" where
  "on_qc co qc now =
     (if qc_round qc \<ge> co_round co
      then (let next = wrap_add 64 (qc_round qc) 1;
                co1 = co\<lparr>high_qc_round := max (high_qc_round co) (qc_round qc)\<rparr>
            in (NewRound next, adapt_delta (advance_to_round co1 next now) True))
      else (Noop, co))"

definition on_timeout_share ::
  "crypto \<Rightarrow> coordinator \<Rightarrow> round_share \<Rightarrow> nat \<Rightarrow> (consensus_error, coordinator_event) res \<times> coordinator" where
  "on_timeout_share c co share now =
     (if td_epoch (share_data share) \<noteq> co_epoch co
      then (Err (InvalidEpoch (co_epoch co) (td_epoch (share_data share))), co)
      else
       (let r = td_round (share_data share);
            acc = (case tc_accumulators co r of Some a \<Rightarrow> a | None \<Rightarrow> share_accumulator_new r (co_epoch co) (co_quorum co));
            (out, acc1) = insert_share c acc share;
            co1 = co\<lparr>tc_accumulators := (tc_accumulators co)(r \<mapsto> acc1)\<rparr>
        in case out of
             Some tc \<Rightarrow>
              (let co2 = co1\<lparr>tc_accumulators := (\<lambda>x. if x \<ge> r then tc_accumulators co1 x else None)\<rparr>
               in (Ok (NewTc tc), advance_to_round (adapt_delta co2 False) (next_round tc) now))
           | None \<Rightarrow> (Ok Noop, co1)))"

section \<open>The invariant of the coordinator\<close>

definition share_for :: "crypto \<Rightarrow> u64 \<Rightarrow> u64 \<Rightarrow> address \<Rightarrow> round_share \<Rightarrow> bool" where
  "share_for c r e a s \<longleftrightarrow> share_validator s = a \<and> td_round (share_data s) = r \<and> td_epoch (share_data s) = e
     \<and> verify_single c (share_signature s) (share_pubkey s) (timeout_hash c (share_data s))"

definition sacc_ok :: "crypto \<Rightarrow> coordinator \<Rightarrow> u64 \<Rightarrow> share_accumulator \<Rightarrow> bool" where
  "sacc_ok c co r acc \<longleftrightarrow> sa_round acc = r \<and> sa_epoch acc = co_epoch co \<and> sa_quorum acc = co_quorum co
     \<and> distinct (map fst (sa_shares acc)) \<and> list_all (\<lambda>(a, s). share_for c r (co_epoch co) a s) (sa_shares acc)"

definition co_inv :: "crypto \<Rightarrow> coordinator \<Rightarrow> bool" where
  "co_inv c co \<longleftrightarrow> delta_min_ms co = 500 \<and> delta_max_ms co = 30000 \<and> 500 \<le> delta_ms co \<and> delta_ms co \<le> 30000
     \<and> (\<forall>r acc. tc_accumulators co r = Some acc \<longrightarrow> sacc_ok c co r acc)"

lemma co_inv_new: "co_inv c (coordinator_new a pk n r e cfg now)"
  by (simp add: co_inv_def coordinator_new_def)

lemma adapt_delta_inv: "co_inv c co \<Longrightarrow> co_inv c (adapt_delta co b)"
  by (auto simp: co_inv_def adapt_delta_def sacc_ok_def)

lemma advance_to_round_inv: "co_inv c (advance_to_round co r now) = co_inv c co"
  by (simp add: co_inv_def advance_to_round_def sacc_ok_def)

lemma advance_to_round_fields [simp]:
  "co_round (advance_to_round co r now) = max (co_round co) r" "co_epoch (advance_to_round co r now) = co_epoch co"
  "co_quorum (advance_to_round co r now) = co_quorum co" "tc_accumulators (advance_to_round co r now) = tc_accumulators co"
  "co_round (adapt_delta co b) = co_round co" "co_epoch (adapt_delta co b) = co_epoch co"
  "co_quorum (adapt_delta co b) = co_quorum co" "tc_accumulators (adapt_delta co b) = tc_accumulators co"
  by (simp_all add: advance_to_round_def adapt_delta_def)

lemma fresh_append: "map_of al k = None \<Longrightarrow> AList.update k v al = al @ [(k, v)]"
  by (rule update_fresh)

lemma insert_share_ok:
  assumes "sacc_ok c co r acc" "insert_share c acc share = (out, acc1)"
  shows "sacc_ok c co r acc1" "out = Some tc \<Longrightarrow> tc = certify c acc1 \<and> co_quorum co \<le> length (sa_shares acc1)"
proof -
  have f: "map_of (sa_shares acc) k = None \<longleftrightarrow> k \<notin> fst ` set (sa_shares acc)" for k by (simp add: map_of_eq_None_iff)
  show "sacc_ok c co r acc1"
    using assms by (auto simp: insert_share_def Let_def sacc_ok_def share_for_def update_fresh f split: if_splits)
  show "tc = certify c acc1 \<and> co_quorum co \<le> length (sa_shares acc1)" if "out = Some tc"
    using assms that by (auto simp: insert_share_def Let_def sacc_ok_def split: if_splits)
qed

lemma fold_max_shares:
  "m \<le> fold (\<lambda>(_, s). max (f s)) xs m"
  "(a, s) \<in> set xs \<Longrightarrow> f s \<le> fold (\<lambda>(_, s). max (f s)) xs (m :: nat)"
proof (induction xs arbitrary: m)
  case (Cons x xs)
  { case 1 show ?case using Cons.IH(1)[of "max (f (snd x)) m"] by (simp add: split_beta) }
  { case 2 then show ?case using Cons.IH(1)[of "max (f s) m"] Cons.IH(2) by (auto simp: split_beta) }
qed simp_all

lemma certify_sound:
  assumes "sacc_ok c co r acc"
  shows "distinct (tc_signers (certify c acc))" "length (tc_signers (certify c acc)) = length (sa_shares acc)"
    "tc_round (certify c acc) = r" "tc_epoch (certify c acc) = co_epoch co"
    "a \<in> set (tc_signers (certify c acc)) \<Longrightarrow>
       \<exists>s. share_for c r (co_epoch co) a s \<and> td_high_qc_round (share_data s) \<le> tc_high_qc_round (certify c acc)"
proof -
  show "\<exists>s. share_for c r (co_epoch co) a s \<and> td_high_qc_round (share_data s) \<le> tc_high_qc_round (certify c acc)"
    if "a \<in> set (tc_signers (certify c acc))"
  proof -
    have "a \<in> fst ` set (sa_shares acc)" using that by (simp add: certify_def Let_def)
    then obtain s where s: "(a, s) \<in> set (sa_shares acc)" by auto
    then have "share_for c r (co_epoch co) a s" using assms by (auto simp: sacc_ok_def list_all_iff)
    then show ?thesis
      using fold_max_shares(2)[OF s, of "\<lambda>s. td_high_qc_round (share_data s)" 0] by (auto simp: certify_def Let_def)
  qed
qed (use assms in \<open>simp_all add: certify_def Let_def sacc_ok_def\<close>)

text \<open>What one share does to the coordinator, once its accumulator is known to be sound.\<close>

lemma on_timeout_share_cases:
  assumes "co_inv c co" "on_timeout_share c co share now = (x, co1)"
  obtains (epoch) e where "x = Err e" "co1 = co"
  | (kept) accs where "x = Ok Noop" "co1 = co\<lparr>tc_accumulators := accs\<rparr>" "\<forall>r acc. accs r = Some acc \<longrightarrow> sacc_ok c co r acc"
  | (formed) accs acc where "x = Ok (NewTc (certify c acc))" "sacc_ok c co (td_round (share_data share)) acc"
      "co_quorum co \<le> length (sa_shares acc)" "\<forall>r acc. accs r = Some acc \<longrightarrow> sacc_ok c co r acc"
      "co1 = advance_to_round (adapt_delta (co\<lparr>tc_accumulators := accs\<rparr>) False) (wrap_add 64 (td_round (share_data share)) 1) now"
proof -
  define r where "r = td_round (share_data share)"
  define acc where "acc = (case tc_accumulators co r of Some a \<Rightarrow> a | None \<Rightarrow> share_accumulator_new r (co_epoch co) (co_quorum co))"
  obtain out acc1 where ins: "insert_share c acc share = (out, acc1)" by fastforce
  have "sacc_ok c co r acc"
    using assms(1) by (auto simp: acc_def co_inv_def sacc_ok_def share_accumulator_new_def split: option.splits)
  note ok = insert_share_ok[OF this ins]
  have accs: "\<forall>r' a. ((tc_accumulators co)(r \<mapsto> acc1)) r' = Some a \<longrightarrow> sacc_ok c co r' a"
    using ok(1) assms(1) by (auto simp: co_inv_def)
  show ?thesis
  proof (cases "td_epoch (share_data share) \<noteq> co_epoch co")
    case True
    then show ?thesis using assms(2) by (intro epoch) (auto simp: on_timeout_share_def)
  next
    case False
    note eq = assms(2)[unfolded on_timeout_share_def Let_def, folded r_def, folded acc_def, unfolded ins]
    show ?thesis
    proof (cases out)
      case None
      then show ?thesis using eq False by (intro kept[OF _ _ accs]) (auto simp: fun_upd_def)
    next
      case (Some tc)
      have tc: "tc = certify c acc1" "co_quorum co \<le> length (sa_shares acc1)" using ok(2)[OF Some] by simp_all
      have r: "next_round tc = wrap_add 64 r 1" using certify_sound(3)[OF ok(1)] by (simp add: tc next_round_def)
      have "\<forall>r' a. (if r \<le> r' then ((tc_accumulators co)(r \<mapsto> acc1)) r' else None) = Some a \<longrightarrow> sacc_ok c co r' a"
        using accs by simp
      from formed[OF _ _ tc(2) this] show ?thesis using eq False ok(1) Some r tc(1) by (auto simp: r_def cong: if_cong)
    qed
  qed
qed

datatype coordinator_in = In_QC quorum_certificate nat | In_Share round_share nat

fun co_step :: "crypto \<Rightarrow> coordinator \<Rightarrow> coordinator_in \<Rightarrow> coordinator" where
  "co_step c co (In_QC q now) = snd (on_qc co q now)"
| "co_step c co (In_Share sh now) = snd (on_timeout_share c co sh now)"

lemma co_inv_accs: "co_inv c co \<Longrightarrow> \<forall>r acc. accs r = Some acc \<longrightarrow> sacc_ok c co r acc \<Longrightarrow> co_inv c (co\<lparr>tc_accumulators := accs\<rparr>)"
  by (simp add: co_inv_def sacc_ok_def)

lemma co_step_fields:
  assumes "co_inv c co"
  shows "co_inv c (co_step c co i) \<and> co_round co \<le> co_round (co_step c co i)
    \<and> co_epoch (co_step c co i) = co_epoch co \<and> co_quorum (co_step c co i) = co_quorum co"
proof (cases i)
  case (In_QC q now)
  have "co_inv c (co\<lparr>high_qc_round := h\<rparr>)" for h using assms by (simp add: co_inv_def sacc_ok_def)
  then show ?thesis using assms by (simp add: In_QC on_qc_def Let_def adapt_delta_inv advance_to_round_inv)
next
  case (In_Share sh now)
  obtain x co1 where s: "on_timeout_share c co sh now = (x, co1)" by fastforce
  with assms show ?thesis
  proof (cases rule: on_timeout_share_cases)
    case (kept accs)
    then show ?thesis using co_inv_accs[OF assms] s by (simp add: In_Share)
  next
    case (formed accs acc)
    then show ?thesis using co_inv_accs[OF assms] s by (simp add: In_Share adapt_delta_inv advance_to_round_inv)
  qed (use assms s In_Share in simp)
qed

interpretation coord: ranked_machine "co_step c" "co_inv c" "\<lambda>_. True" co_round for c :: crypto
  by unfold_locales (simp_all add: co_step_fields)

lemma co_run_fields:
  "co_inv c co \<Longrightarrow> co_epoch (foldl (co_step c) co is) = co_epoch co \<and> co_quorum (foldl (co_step c) co is) = co_quorum co"
  by (induction "is" arbitrary: co) (simp_all add: co_step_fields)

text \<open>
  C26: On every state the coordinator of \<open>n\<close> validators reaches, a timeout certificate it forms names at least
  \<open>2 * ((n - 1) div 3) + 1\<close> distinct addresses, holds for each of them a share of its round and epoch whose signature
  verifies under the key the share carries, reports a certificate round no lower than any of theirs, and moves the coordinator
  past its round; rounds never go back and the adaptive delta stays within its bounds. That an address belongs to the
  committee, and the key to the address, is checked nowhere.
\<close>

theorem round_certificate_sound:
  assumes "co = foldl (co_step c) (coordinator_new a pk n r0 e cfg t0) is" "0 < n" "n < 2 ^ 64"
    and "on_timeout_share c co share now = (Ok (NewTc tc), co1)" "tc_round tc + 1 < 2 ^ 64"
  shows "distinct (tc_signers tc) \<and> 2 * ((n - 1) div 3) + 1 \<le> length (tc_signers tc) \<and> tc_epoch tc = e
    \<and> list_all (\<lambda>v. \<exists>s. share_for c (tc_round tc) e v s \<and> td_high_qc_round (share_data s) \<le> tc_high_qc_round tc) (tc_signers tc)
    \<and> tc_round tc < co_round co1 \<and> r0 \<le> co_round co1 \<and> 500 \<le> delta_ms co1 \<and> delta_ms co1 \<le> 30000"
proof -
  let ?s = "coordinator_new a pk n r0 e cfg t0"
  have inv: "co_inv c co" unfolding assms(1) by (intro coord.inv_run co_inv_new) (simp add: list_all_iff)
  have f: "co_epoch co = e" "co_quorum co = 2 * ((n - 1) div 3) + 1"
    using co_run_fields[OF co_inv_new, of c a pk n r0 e cfg t0 "is"] assms(1,2) by (simp_all add: coordinator_new_def)
  have r0: "r0 \<le> co_round co"
    using coord.rank_run[OF co_inv_new, of "is" a pk n r0 e cfg t0 c] assms(1) by (simp add: list_all_iff coordinator_new_def)
  have "co_step c co (In_Share share now) = co1" using assms(4) by simp
  then have inv1: "co_inv c co1" using co_step_fields[OF inv] by metis
  show ?thesis
    using inv assms(4)
  proof (cases rule: on_timeout_share_cases)
    case (formed accs acc)
    note cs = certify_sound[OF formed(2)]
    have tc: "tc = certify c acc" using formed(1) by simp
    have "co_round co1 = max (co_round co) (tc_round tc + 1)"
      using formed(5) cs(3) assms(5) by (simp add: tc)
    then show ?thesis
      using cs formed(3) f r0 inv1 unfolding tc by (auto simp: list_all_iff co_inv_def)
  qed simp_all
qed


definition any_crypto :: crypto where
  "any_crypto = \<lparr>keccak256 = (\<lambda>_. 0), verify_single = (\<lambda>_ _ _. True), verify_aggregate = (\<lambda>_ _ _. True),
     aggregate_signatures = (\<lambda>_. Some [])\<rparr>"

definition sample_round_share :: "address \<Rightarrow> u64 \<Rightarrow> round_share" where
  "sample_round_share a r = \<lparr>share_data = \<lparr>td_round = r, td_epoch = 1, td_high_qc_round = 2\<rparr>, share_validator = a,
     share_pubkey = [], share_signature = []\<rparr>"

lemmas coordinator_eval = coordinator_new_def on_timeout_share_def insert_share_def certify_def share_accumulator_new_def
  sample_round_share_def any_crypto_def next_round_def Let_def

definition sample_coordinator :: "usize \<Rightarrow> coordinator_in list \<Rightarrow> coordinator" where
  "sample_coordinator n is = foldl (co_step any_crypto) (coordinator_new 9 [] n 5 1 default_config 0) is"

lemma round_certificate_sound_witness:
  "\<exists>tc co1. on_timeout_share any_crypto
       (sample_coordinator 4 [In_Share (sample_round_share 1 5) 0, In_Share (sample_round_share 2 5) 0])
       (sample_round_share 3 5) 0 = (Ok (NewTc tc), co1)
     \<and> distinct (tc_signers tc) \<and> 3 \<le> length (tc_signers tc) \<and> 5 < co_round co1"
proof -
  let ?co = "sample_coordinator 4 [In_Share (sample_round_share 1 5) 0, In_Share (sample_round_share 2 5) 0]"
  obtain tc co1 where out: "on_timeout_share any_crypto ?co (sample_round_share 3 5) 0 = (Ok (NewTc tc), co1)" "tc_round tc = 5"
    by (simp add: sample_coordinator_def coordinator_eval)
  show ?thesis
    using round_certificate_sound[OF sample_coordinator_def _ _ out(1)] out by auto
qed

section \<open>Where the coordinator does not do what it means to\<close>

text \<open>
  The comment equates \<^verbatim>\<open>2f+1\<close> with two thirds plus one. For three validators the quorum is one, so a single
  share moves the coordinator on; for six it is three, so two disjoint quorums exist.
\<close>

lemma single_share_certifies:
  "\<exists>tc co1. on_timeout_share any_crypto (sample_coordinator 3 []) (sample_round_share 1 5) 0 = (Ok (NewTc tc), co1)
     \<and> tc_signers tc = [1] \<and> co_round co1 = 6"
  by (simp add: sample_coordinator_def coordinator_eval)

lemma coordinator_quorum_small:
  "co_quorum (coordinator_new a pk 6 r e cfg now) = 3" "co_quorum (coordinator_new a pk 3 r e cfg now) = 1"
  by (simp_all add: coordinator_new_def)

text \<open>
  The key a share is verified with is the one it brings along: whoever can sign at all can sign for any
  address. The delta that certificates and quorums adapt is not what the timer waits for.
\<close>

lemma timer_ignores_delta:
  "timeout (current (inner (snd (on_qc (coordinator_new a pk n r e cfg now) q now')))) = base_timeout cfg"
  by (simp add: on_qc_def coordinator_new_def adapt_delta_def advance_to_round_def start_round_def round_state_new_def
      pacemaker_new_def Let_def)

end
