(* ===== verification/HotStuff.thy ===== *)
theory HotStuff
  imports Block_Store Safety_Rules Pacemaker
begin

text \<open>
  The consensus engine the node runs, \<^verbatim>\<open>zbx-consensus/src/hotstuff.rs\<close>: three-phase HotStuff over the
  voting rules, the round timer, the block store and the vote accumulators of the other theories. The
  state carries the files of the voting rules as \<open>wal\<close>. Parameters of the handlers are the hash and BLS
  functions \<open>c\<close>, the signing key \<open>sign\<close>, whether a write of the file succeeds, and the clock. A
  machine of all entry points follows, with its invariant, its simulation of the voting rules, and the
  properties of what it votes for and commits.
\<close>

section \<open>The validator set\<close>

definition Prepare :: byte where "Prepare = 0"
definition PreCommit :: byte where "PreCommit = 1"
definition Commit :: byte where "Commit = 2"

datatype consensus_event =
    Committed block quorum_certificate
  | VoteCast vote
  | ProposalRequired u64 h256
  | Timeout_Event u64

record valset =
  validators :: "address list"
  vs_quorum :: usize
  vs_seed :: h256

definition valset_new :: "address list \<Rightarrow> (consensus_error, valset) res" where
  "valset_new vs =
     (if vs = [] then Panic else Ok \<lparr>validators = vs, vs_quorum = committee_quorum (length vs), vs_seed = 0\<rparr>)"

definition proposer_for_round :: "crypto \<Rightarrow> valset \<Rightarrow> u64 \<Rightarrow> (consensus_error, address) res" where
  "proposer_for_round c vs round =
     (let n = length (validators vs) in
      if n = 0 then Panic
      else if vs_seed vs = 0 then Ok (validators vs ! (round mod n))
      else
       (let h = keccak256 c (h256_bytes (vs_seed vs) @ be_bytes 8 round);
            idx_raw = be_val (take 8 (h256_bytes h))
        in Ok (validators vs ! (idx_raw mod n))))"

definition set_epoch_seed :: "valset \<Rightarrow> h256 \<Rightarrow> valset" where
  "set_epoch_seed vs seed = vs\<lparr>vs_seed := seed\<rparr>"

section \<open>The engine\<close>

record hotstuff =
  my_address :: address
  validator_set :: valset
  rules :: safety_rules
  wal :: wal_files
  round_timer :: pacemaker
  store :: block_store
  vote_accumulators :: "u64 \<times> byte \<rightharpoonup> vote_accumulator"
  committed_height :: u64
  highest_qc :: "quorum_certificate option"
  seen_votes :: "u64 \<times> byte \<times> address \<rightharpoonup> h256 \<times> vote \<times> bls_pubkey"
  validator_pubkeys :: "address \<rightharpoonup> bls_pubkey"
  dropped_unregistered :: u64
  dropped_pubkey_mismatch :: u64
  dropped_invalid_sig :: u64
  dropped_non_validator :: u64

definition hotstuff_new :: "address \<Rightarrow> safety_rules \<Rightarrow> wal_files \<Rightarrow> valset \<Rightarrow> nat \<Rightarrow> hotstuff" where
  "hotstuff_new a sr files vs now =
     \<lparr>my_address = a, validator_set = vs, rules = sr, wal = files, round_timer = pacemaker_new default_config now,
      store = block_store_new 1024, vote_accumulators = Map.empty, committed_height = 0, highest_qc = None,
      seen_votes = Map.empty, validator_pubkeys = Map.empty, dropped_unregistered = 0, dropped_pubkey_mismatch = 0,
      dropped_invalid_sig = 0, dropped_non_validator = 0\<rparr>"

definition update_validator_set :: "hotstuff \<Rightarrow> address list \<Rightarrow> (consensus_error, hotstuff) res" where
  "update_validator_set s addrs =
     bind_res (valset_new addrs) (\<lambda>vs. Ok (s\<lparr>validator_set := vs\<lparr>vs_seed := vs_seed (validator_set s)\<rparr>\<rparr>))"

definition rotate_epoch_seed :: "hotstuff \<Rightarrow> h256 \<Rightarrow> hotstuff" where
  "rotate_epoch_seed s seed = s\<lparr>validator_set := set_epoch_seed (validator_set s) seed\<rparr>"

definition check_pubkey_registry_invariant :: "hotstuff \<Rightarrow> address list" where
  "check_pubkey_registry_invariant s = filter (\<lambda>a. validator_pubkeys s a = None) (validators (validator_set s))"

definition register_validator_pubkey :: "hotstuff \<Rightarrow> address \<Rightarrow> bls_pubkey \<Rightarrow> hotstuff" where
  "register_validator_pubkey s a pk =
     (case validator_pubkeys s a of
        Some existing \<Rightarrow> if existing \<noteq> pk then s else s\<lparr>validator_pubkeys := (validator_pubkeys s)(a \<mapsto> pk)\<rparr>
      | None \<Rightarrow> s\<lparr>validator_pubkeys := (validator_pubkeys s)(a \<mapsto> pk)\<rparr>)"

definition prune_seen_votes_below :: "hotstuff \<Rightarrow> u64 \<Rightarrow> hotstuff" where
  "prune_seen_votes_below s committed =
     s\<lparr>seen_votes := (\<lambda>(r, p, a). if r \<ge> committed then seen_votes s (r, p, a) else None)\<rparr>"

definition build_remote_equivocation_evidence ::
  "crypto \<Rightarrow> hotstuff \<Rightarrow> address \<Rightarrow> u64 \<Rightarrow> byte \<Rightarrow> vote \<Rightarrow> bls_pubkey \<Rightarrow> equivocation_evidence option" where
  "build_remote_equivocation_evidence c s validator round phase new_vote new_pk =
     (case seen_votes s (round, phase, validator) of
        None \<Rightarrow> None
      | Some (_, prev_vote, _) \<Rightarrow>
         (let ev = \<lparr>ev_validator = validator, ev_round = round, ev_phase = phase, vote_a = prev_vote,
                    vote_b = new_vote, ev_pubkey = new_pk\<rparr>
          in if evidence_verify c ev then Some ev else None))"

definition current_round :: "hotstuff \<Rightarrow> u64" where
  "current_round s = rs_round (current (round_timer s))"

text \<open>The voting rules called from a handler: their state and file change in place.\<close>

definition engine_vote ::
  "crypto \<Rightarrow> (h256 \<Rightarrow> bls_sig) \<Rightarrow> hotstuff \<Rightarrow> vote_data \<Rightarrow> quorum_certificate \<Rightarrow> bool \<Rightarrow>
   (consensus_error, vote) res \<times> hotstuff" where
  "engine_vote c sign s d q written =
     (case cast_vote c sign (rules s) d q written (wal s) of (r, sr, files) \<Rightarrow> (r, s\<lparr>rules := sr, wal := files\<rparr>))"

definition on_proposal ::
  "crypto \<Rightarrow> (h256 \<Rightarrow> bls_sig) \<Rightarrow> hotstuff \<Rightarrow> block \<Rightarrow> quorum_certificate \<Rightarrow> bool \<Rightarrow>
   (consensus_error, consensus_event list) res \<times> hotstuff" where
  "on_proposal c sign s block parent_qc written =
     (if \<not> qc_verify c parent_qc then (Err (InvalidQC (number_of_block block)), s)
      else
       (let round = number_of_block block in
        try_st (proposer_for_round c (validator_set s) round) s (\<lambda>proposer.
          if block_coinbase block \<noteq> proposer then (Err (InvalidProposer round), s)
          else if proposer \<notin> set (validators (validator_set s)) then (Err (InvalidProposer round), s)
          else
           (let s1 = s\<lparr>store := add_block (keccak256 c) (store s) block\<rparr>;
                d = \<lparr>block_hash = hash_of_block (keccak256 c) block, block_number = round, vphase = Prepare,
                     epoch = header_epoch (header block)\<rparr>;
                (r, s2) = engine_vote c sign s1 d parent_qc written
            in try_st r s2 (\<lambda>v. (Ok [VoteCast v], s2))))))"

definition vote_phase ::
  "crypto \<Rightarrow> (h256 \<Rightarrow> bls_sig) \<Rightarrow> hotstuff \<Rightarrow> quorum_certificate \<Rightarrow> byte \<Rightarrow> bool \<Rightarrow> consensus_event list \<times> hotstuff" where
  "vote_phase c sign s qc phase written =
     (case engine_vote c sign s \<lparr>block_hash = block_hash (qc_data qc), block_number = qc_round qc, vphase = phase,
              epoch = rs_epoch (current (round_timer s))\<rparr> qc written of
        (Ok v, t) \<Rightarrow> ([VoteCast v], t) | (_, t) \<Rightarrow> ([], t))"

definition on_qc ::
  "crypto \<Rightarrow> (h256 \<Rightarrow> bls_sig) \<Rightarrow> hotstuff \<Rightarrow> quorum_certificate \<Rightarrow> bool \<Rightarrow> nat \<Rightarrow>
   (consensus_error, consensus_event list) res \<times> hotstuff" where
  "on_qc c sign s qc written now =
     (if vphase (qc_data qc) = 0
      then (let s1 = s\<lparr>rules := update_locked_qc (rules s) qc, highest_qc := Some qc\<rparr>;
                (evs, s2) = vote_phase c sign s1 qc PreCommit written
            in (Ok evs, s2))
      else if vphase (qc_data qc) = 1
      then (let (evs, s1) = vote_phase c sign s qc Commit written in (Ok evs, s1))
      else if vphase (qc_data qc) = 2
      then (case get_block (store s) (block_hash (qc_data qc)) of
              Some block \<Rightarrow>
                if number_of_block block > committed_height s
                then (Ok [Committed block qc],
                      s\<lparr>committed_height := number_of_block block,
                        round_timer := advance_round (round_timer s) (wrap_add 64 (number_of_block block) 1) (epoch (qc_data qc)) now\<rparr>)
                else (Ok [], s)
            | None \<Rightarrow> (Ok [], s))
      else (Err (InvalidMessage ''unknown QC phase''), s))"

definition count_vote ::
  "crypto \<Rightarrow> (h256 \<Rightarrow> bls_sig) \<Rightarrow> hotstuff \<Rightarrow> vote \<Rightarrow> bls_pubkey \<Rightarrow> bool \<Rightarrow> nat \<Rightarrow>
   (consensus_error, consensus_event list) res \<times> hotstuff" where
  "count_vote c sign s v pubkey written now =
     (let key = (block_number (vdata v), vphase (vdata v));
          quorum = vs_quorum (validator_set s);
          acc = (case vote_accumulators s key of Some a \<Rightarrow> a | None \<Rightarrow> vote_accumulator_new (vdata v) quorum);
          (r, acc1) = add_vote c acc v pubkey;
          s1 = s\<lparr>vote_accumulators := (vote_accumulators s)(key \<mapsto> acc1)\<rparr>
      in try_st r s1 (\<lambda>out. case out of Some qc \<Rightarrow> on_qc c sign s1 qc written now | None \<Rightarrow> (Ok [], s1)))"

definition on_vote ::
  "crypto \<Rightarrow> (h256 \<Rightarrow> bls_sig) \<Rightarrow> hotstuff \<Rightarrow> vote \<Rightarrow> bls_pubkey \<Rightarrow> bool \<Rightarrow> nat \<Rightarrow>
   (consensus_error, consensus_event list) res \<times> hotstuff" where
  "on_vote c sign s v voter_pubkey written now =
     (if voter v \<notin> set (validators (validator_set s))
      then (Ok [], s\<lparr>dropped_non_validator := sat_add 64 (dropped_non_validator s) 1\<rparr>)
      else case validator_pubkeys s (voter v) of
        None \<Rightarrow> (Ok [], s\<lparr>dropped_unregistered := sat_add 64 (dropped_unregistered s) 1\<rparr>)
      | Some registered \<Rightarrow>
          if registered \<noteq> voter_pubkey
          then (Ok [], s\<lparr>dropped_pubkey_mismatch := sat_add 64 (dropped_pubkey_mismatch s) 1\<rparr>)
          else if \<not> verify_single c (vsignature v) voter_pubkey (vote_hash c (vdata v))
          then (Ok [], s\<lparr>dropped_invalid_sig := sat_add 64 (dropped_invalid_sig s) 1\<rparr>)
          else
           (let ek = (block_number (vdata v), vphase (vdata v), voter v) in
            case seen_votes s ek of
              Some (prev_hash, prev_vote, _) \<Rightarrow>
                if prev_hash \<noteq> block_hash (vdata v)
                then (Err (RemoteEquivocation (voter prev_vote) (block_number (vdata prev_vote)) (vphase (vdata prev_vote))
                        (block_hash (vdata prev_vote)) (block_hash (vdata v))), s)
                else count_vote c sign s v voter_pubkey written now
            | None \<Rightarrow>
                count_vote c sign (s\<lparr>seen_votes := (seen_votes s)(ek \<mapsto> (block_hash (vdata v), v, voter_pubkey))\<rparr>)
                  v voter_pubkey written now))"

definition on_round_timeout :: "hotstuff \<Rightarrow> nat \<Rightarrow> consensus_event \<times> hotstuff" where
  "on_round_timeout s now =
     (let (timed_out, p) = on_timeout (round_timer s) now in (Timeout_Event timed_out, s\<lparr>round_timer := p\<rparr>))"


section \<open>The machine\<close>

text \<open>
  The entry points, with the success of a file write and the time of the call. A set of validators
  that is empty stops the process; the machine then stays where it is.
\<close>

datatype hs_in =
    In_Proposal block quorum_certificate bool
  | In_Vote vote bls_pubkey bool nat
  | In_Round_Timeout nat
  | In_Register address bls_pubkey
  | In_Prune u64
  | In_Seed h256
  | In_Swap "address list"

definition events :: "(consensus_error, consensus_event list) res \<Rightarrow> consensus_event list" where
  "events r = (case r of Ok evs \<Rightarrow> evs | _ \<Rightarrow> [])"

lemma events_simps [simp]: "events (Ok evs) = evs" "events (Err e) = []" "events Panic = []"
  by (simp_all add: events_def)

fun hs_handle ::
  "crypto \<Rightarrow> (h256 \<Rightarrow> bls_sig) \<Rightarrow> hotstuff \<Rightarrow> hs_in \<Rightarrow> consensus_event list \<times> hotstuff" where
  "hs_handle c sign s (In_Proposal b q w) = map_prod events id (on_proposal c sign s b q w)"
| "hs_handle c sign s (In_Vote v pk w now) = map_prod events id (on_vote c sign s v pk w now)"
| "hs_handle c sign s (In_Round_Timeout now) = map_prod (\<lambda>e. [e]) id (on_round_timeout s now)"
| "hs_handle c sign s (In_Register a pk) = ([], register_validator_pubkey s a pk)"
| "hs_handle c sign s (In_Prune r) = ([], prune_seen_votes_below s r)"
| "hs_handle c sign s (In_Seed h) = ([], rotate_epoch_seed s h)"
| "hs_handle c sign s (In_Swap vs) = ([], case update_validator_set s vs of Ok t \<Rightarrow> t | _ \<Rightarrow> s)"

fun hs_run ::
  "crypto \<Rightarrow> (h256 \<Rightarrow> bls_sig) \<Rightarrow> hotstuff \<Rightarrow> hs_in list \<Rightarrow> consensus_event list \<times> hotstuff" where
  "hs_run c sign s [] = ([], s)"
| "hs_run c sign s (i # is) =
     (let (es, t) = hs_handle c sign s i; (fs, u) = hs_run c sign t is in (es @ fs, u))"

definition votes_of :: "consensus_event list \<Rightarrow> vote list" where
  "votes_of evs = List.map_filter (\<lambda>e. case e of VoteCast v \<Rightarrow> Some v | _ \<Rightarrow> None) evs"

definition commits_of :: "consensus_event list \<Rightarrow> (block \<times> quorum_certificate) list" where
  "commits_of evs = List.map_filter (\<lambda>e. case e of Committed b q \<Rightarrow> Some (b, q) | _ \<Rightarrow> None) evs"

lemma votes_of_simps [simp]:
  "votes_of [] = []" "votes_of (VoteCast v # es) = v # votes_of es" "votes_of (Committed b q # es) = votes_of es"
  "votes_of (Timeout_Event r # es) = votes_of es" "votes_of (xs @ ys) = votes_of xs @ votes_of ys"
  by (simp_all add: votes_of_def map_filter_simps map_filter_def)

lemma commits_of_simps [simp]:
  "commits_of [] = []" "commits_of (VoteCast v # es) = commits_of es"
  "commits_of (Committed b q # es) = (b, q) # commits_of es"
  "commits_of (Timeout_Event r # es) = commits_of es" "commits_of (xs @ ys) = commits_of xs @ commits_of ys"
  by (simp_all add: commits_of_def map_filter_simps map_filter_def)

lemma in_commits_of: "(b, q) \<in> set (commits_of evs) \<longleftrightarrow> Committed b q \<in> set evs"
  by (induction evs) (auto simp: commits_of_def map_filter_simps split: consensus_event.splits)

section \<open>The shape of the handlers\<close>

lemma vote_phase_cases:
  obtains (silent) "vote_phase c sign s qc ph w = ([], s)"
  | (voted) v sr files d where "vote_phase c sign s qc ph w = ([VoteCast v], s\<lparr>rules := sr, wal := files\<rparr>)"
      "cast_vote c sign (rules s) d qc w (wal s) = (Ok v, sr, files)"
proof -
  let ?d = "\<lparr>block_hash = block_hash (qc_data qc), block_number = qc_round qc, vphase = ph, epoch = rs_epoch (current (round_timer s))\<rparr>"
  show ?thesis
  proof (cases rule: cast_vote_cases[of c sign "rules s" ?d qc w "wal s"])
    case (refused e)
    then show ?thesis by (intro silent) (simp add: vote_phase_def engine_vote_def)
  next
    case (voted sr1)
    then show ?thesis by (intro that(2)) (simp_all add: vote_phase_def engine_vote_def)
  qed
qed

lemma on_qc_cases:
  obtains (silent) x where "on_qc c sign s qc w now = (x, s)" "events x = []"
  | (locked) t where "t = s\<lparr>rules := update_locked_qc (rules s) qc, highest_qc := Some qc\<rparr>"
      "on_qc c sign s qc w now = (Ok [], t)"
  | (lock_vote) t v sr files d where "t = s\<lparr>rules := update_locked_qc (rules s) qc, highest_qc := Some qc\<rparr>"
      "on_qc c sign s qc w now = (Ok [VoteCast v], t\<lparr>rules := sr, wal := files\<rparr>)"
      "cast_vote c sign (rules t) d qc w (wal t) = (Ok v, sr, files)"
  | (vote) v sr files d where "on_qc c sign s qc w now = (Ok [VoteCast v], s\<lparr>rules := sr, wal := files\<rparr>)"
      "cast_vote c sign (rules s) d qc w (wal s) = (Ok v, sr, files)"
  | (commit) b p where "on_qc c sign s qc w now =
        (Ok [Committed b qc], s\<lparr>committed_height := number_of_block b, round_timer := p\<rparr>)"
      "vphase (qc_data qc) = Commit" "get_block (store s) (block_hash (qc_data qc)) = Some b"
      "committed_height s < number_of_block b"
proof -
  let ?t = "s\<lparr>rules := update_locked_qc (rules s) qc, highest_qc := Some qc\<rparr>"
  consider "vphase (qc_data qc) = 0" | "vphase (qc_data qc) = 1" | "vphase (qc_data qc) = 2"
    | "vphase (qc_data qc) \<notin> {0, 1, 2}" by blast
  then show ?thesis
  proof cases
    case 1
    then show ?thesis
      by (cases rule: vote_phase_cases[of c sign ?t qc PreCommit w])
         (auto simp: on_qc_def intro: locked[OF refl] lock_vote[OF refl])
  next
    case 2
    then show ?thesis
      by (cases rule: vote_phase_cases[of c sign s qc Commit w])
         (auto simp: on_qc_def intro: silent vote)
  next
    case 3
    show ?thesis
    proof (cases "get_block (store s) (block_hash (qc_data qc))")
      case None
      then show ?thesis using 3 by (intro silent[of "Ok []"]) (simp_all add: on_qc_def)
    next
      case (Some b)
      show ?thesis
      proof (cases "committed_height s < number_of_block b")
        case True
        then show ?thesis using 3 Some by (intro commit) (simp_all add: on_qc_def Commit_def)
      next
        case False
        then show ?thesis using 3 Some by (intro silent[of "Ok []"]) (simp_all add: on_qc_def)
      qed
    qed
  next
    case 4
    then show ?thesis by (intro silent[of "Err (InvalidMessage ''unknown QC phase'')"]) (simp_all add: on_qc_def)
  qed
qed

lemma on_proposal_shape:
  obtains (refused) x where "on_proposal c sign s b q w = (x, s)" "events x = []"
  | (stored) x where "on_proposal c sign s b q w = (x, s\<lparr>store := add_block (keccak256 c) (store s) b\<rparr>)" "events x = []"
  | (voted) v sr files d where
      "on_proposal c sign s b q w = (Ok [VoteCast v], s\<lparr>store := add_block (keccak256 c) (store s) b, rules := sr, wal := files\<rparr>)"
      "cast_vote c sign (rules s) d q w (wal s) = (Ok v, sr, files)" "qc_verify c q"
      "proposer_for_round c (validator_set s) (number_of_block b) = Ok (block_coinbase b)"
      "d = \<lparr>block_hash = hash_of_block (keccak256 c) b, block_number = number_of_block b, vphase = Prepare,
            epoch = header_epoch (header b)\<rparr>"
proof -
  let ?d = "\<lparr>block_hash = hash_of_block (keccak256 c) b, block_number = number_of_block b, vphase = Prepare,
            epoch = header_epoch (header b)\<rparr>"
  show ?thesis
  proof (cases "qc_verify c q \<and> proposer_for_round c (validator_set s) (number_of_block b) = Ok (block_coinbase b)
      \<and> block_coinbase b \<in> set (validators (validator_set s))")
    case True
    show ?thesis
    proof (cases rule: cast_vote_cases[of c sign "rules s" ?d q w "wal s"])
      case (refused e)
      then show ?thesis using True
        by (intro stored[of "Err e"]) (simp_all add: on_proposal_def engine_vote_def Let_def)
    next
      case (voted sr1)
      then show ?thesis using True
        by (intro that(3)) (simp_all add: on_proposal_def engine_vote_def Let_def)
    qed
  next
    case False
    have "snd (on_proposal c sign s b q w) = s \<and> events (fst (on_proposal c sign s b q w)) = []"
      using False by (cases "proposer_for_round c (validator_set s) (number_of_block b)") (auto simp: on_proposal_def Let_def)
    then show ?thesis by (metis prod.collapse refused)
  qed
qed

text \<open>A vote is dropped, reported or counted; it is counted only from a member under its registered key.\<close>

definition member_vote :: "crypto \<Rightarrow> hotstuff \<Rightarrow> vote \<Rightarrow> bls_pubkey \<Rightarrow> bool" where
  "member_vote c s v pk \<longleftrightarrow> voter v \<in> set (validators (validator_set s)) \<and> validator_pubkeys s (voter v) = Some pk
     \<and> verify_single c (vsignature v) pk (vote_hash c (vdata v))"

definition note_vote :: "hotstuff \<Rightarrow> vote \<Rightarrow> bls_pubkey \<Rightarrow> hotstuff" where
  "note_vote s v pk = s\<lparr>seen_votes := (seen_votes s)((block_number (vdata v), vphase (vdata v), voter v)
     \<mapsto> (block_hash (vdata v), v, pk))\<rparr>"

lemma on_vote_drops:
  assumes "\<not> member_vote c s v pk"
  shows "\<exists>a b d e. on_vote c sign s v pk w now = (Ok [], s\<lparr>dropped_unregistered := a, dropped_pubkey_mismatch := b,
      dropped_invalid_sig := d, dropped_non_validator := e\<rparr>)"
proof -
  let ?d = "\<lambda>a b d e. s\<lparr>dropped_unregistered := a, dropped_pubkey_mismatch := b, dropped_invalid_sig := d, dropped_non_validator := e\<rparr>"
  have upd: "s\<lparr>dropped_unregistered := n\<rparr> = ?d n (dropped_pubkey_mismatch s) (dropped_invalid_sig s) (dropped_non_validator s)"
    "s\<lparr>dropped_pubkey_mismatch := n\<rparr> = ?d (dropped_unregistered s) n (dropped_invalid_sig s) (dropped_non_validator s)"
    "s\<lparr>dropped_invalid_sig := n\<rparr> = ?d (dropped_unregistered s) (dropped_pubkey_mismatch s) n (dropped_non_validator s)"
    "s\<lparr>dropped_non_validator := n\<rparr> = ?d (dropped_unregistered s) (dropped_pubkey_mismatch s) (dropped_invalid_sig s) n" for n
    by simp_all
  consider "voter v \<notin> set (validators (validator_set s))"
    | "voter v \<in> set (validators (validator_set s))" "validator_pubkeys s (voter v) = None"
    | k where "voter v \<in> set (validators (validator_set s))" "validator_pubkeys s (voter v) = Some k" "k \<noteq> pk"
    | "voter v \<in> set (validators (validator_set s))" "validator_pubkeys s (voter v) = Some pk"
      "\<not> verify_single c (vsignature v) pk (vote_hash c (vdata v))"
    using assms unfolding member_vote_def by (metis not_Some_eq)
  then show ?thesis
  proof cases
    case 1 then show ?thesis unfolding on_vote_def by (simp, metis upd(4))
  next
    case 2 then show ?thesis unfolding on_vote_def by (simp, metis upd(1))
  next
    case 3 then show ?thesis unfolding on_vote_def by (simp, metis upd(2))
  next
    case 4 then show ?thesis unfolding on_vote_def by (simp, metis upd(3))
  qed
qed

lemma hs_vote_cases:
  assumes "on_vote c sign s v pk w now = (x, t)"
  obtains (dropped) a b d e where "t = s\<lparr>dropped_unregistered := a, dropped_pubkey_mismatch := b,
      dropped_invalid_sig := d, dropped_non_validator := e\<rparr>" "events x = []"
  | (counted) s1 where "s1 = s \<or> s1 = note_vote s v pk" "member_vote c s v pk" "count_vote c sign s1 v pk w now = (x, t)"
proof -
  have self: "s = s\<lparr>dropped_unregistered := dropped_unregistered s, dropped_pubkey_mismatch := dropped_pubkey_mismatch s,
      dropped_invalid_sig := dropped_invalid_sig s, dropped_non_validator := dropped_non_validator s\<rparr>" by simp
  show ?thesis
  proof (cases "member_vote c s v pk")
    case False
    then show ?thesis using on_vote_drops[OF False, of sign w now] assms by (metis dropped events_simps(1) prod.inject)
  next
    case True
    then have ov: "(x, t) = (case seen_votes s (block_number (vdata v), vphase (vdata v), voter v) of
        Some (h, u, k) \<Rightarrow> if h \<noteq> block_hash (vdata v)
          then (Err (RemoteEquivocation (voter u) (block_number (vdata u)) (vphase (vdata u)) (block_hash (vdata u)) (block_hash (vdata v))), s)
          else count_vote c sign s v pk w now
      | None \<Rightarrow> count_vote c sign (note_vote s v pk) v pk w now)"
      using assms[symmetric] by (simp add: on_vote_def member_vote_def note_vote_def Let_def split: option.split)
    show ?thesis
    proof (cases "seen_votes s (block_number (vdata v), vphase (vdata v), voter v)")
      case None
      then show ?thesis using ov True by (intro counted) simp_all
    next
      case (Some e)
      then obtain h u k where e: "seen_votes s (block_number (vdata v), vphase (vdata v), voter v) = Some (h, u, k)"
        by (cases e) simp
      show ?thesis
      proof (cases "h = block_hash (vdata v)")
        case True
        then show ?thesis using ov e \<open>member_vote c s v pk\<close> by (intro counted[of s]) simp_all
      next
        case False
        then have "t = s" "events x = []" using ov e by auto
        then show ?thesis using dropped self by metis
      qed
    qed
  qed
qed

text \<open>Counting a vote touches one accumulator and, when a certificate forms, calls \<open>on_qc\<close> with it.\<close>

definition accumulator :: "hotstuff \<Rightarrow> vote \<Rightarrow> vote_accumulator" where
  "accumulator s v = (case vote_accumulators s (block_number (vdata v), vphase (vdata v)) of
     Some a \<Rightarrow> a | None \<Rightarrow> vote_accumulator_new (vdata v) (vs_quorum (validator_set s)))"

lemma accumulator_note [simp]: "accumulator (note_vote s v pk) u = accumulator s u"
  by (simp add: accumulator_def note_vote_def split: option.split)

lemma hs_count_cases:
  assumes "count_vote c sign s v pk w now = (x, t)"
  obtains (no_qc) acc1 where "acc1 = snd (add_vote c (accumulator s v) v pk)" "events x = []"
      "t = s\<lparr>vote_accumulators := (vote_accumulators s)((block_number (vdata v), vphase (vdata v)) \<mapsto> acc1)\<rparr>"
  | (qc) acc1 qc s1 where "add_vote c (accumulator s v) v pk = (Ok (Some qc), acc1)"
      "s1 = s\<lparr>vote_accumulators := (vote_accumulators s)((block_number (vdata v), vphase (vdata v)) \<mapsto> acc1)\<rparr>"
      "on_qc c sign s1 qc w now = (x, t)"
proof -
  obtain r acc1 where add: "add_vote c (accumulator s v) v pk = (r, acc1)" by fastforce
  let ?s1 = "s\<lparr>vote_accumulators := (vote_accumulators s)((block_number (vdata v), vphase (vdata v)) \<mapsto> acc1)\<rparr>"
  have cv: "try_st r ?s1 (\<lambda>out. case out of Some qc \<Rightarrow> on_qc c sign ?s1 qc w now | None \<Rightarrow> (Ok [], ?s1)) = (x, t)"
    using assms add by (simp add: count_vote_def accumulator_def Let_def)
  show ?thesis
  proof (cases "\<exists>q. r = Ok (Some q)")
    case True
    then show ?thesis using cv add qc by fastforce
  next
    case False
    then have "t = ?s1" "events x = []"
      using cv by (cases r; auto simp: split: option.splits)+
    then show ?thesis using add by (intro no_qc) auto
  qed
qed


section \<open>The engine simulates the voting rules\<close>

lemma safety_run_append:
  "safety_run c sign s (xs @ ys) =
     (let (vs, t) = safety_run c sign s xs; (ws, u) = safety_run c sign t ys in (vs @ ws, u))"
  by (induction xs arbitrary: s) (simp_all add: Let_def split: prod.splits)

text \<open>What one call does to the voting rules: nothing, a lock, a vote, or a lock and a vote.\<close>

definition rules_step :: "crypto \<Rightarrow> (h256 \<Rightarrow> bls_sig) \<Rightarrow> hotstuff \<Rightarrow> consensus_event list \<Rightarrow> hotstuff \<Rightarrow> bool" where
  "rules_step c sign s evs t \<longleftrightarrow> (\<exists>js. safety_run c sign (rules s, wal s) js = (votes_of evs, rules t, wal t)
     \<and> list_all (\<lambda>j. case j of Cast _ _ _ \<Rightarrow> True | Lock _ \<Rightarrow> True | _ \<Rightarrow> False) js)"

lemma rules_step_silent: "rules t = rules s \<Longrightarrow> wal t = wal s \<Longrightarrow> votes_of evs = [] \<Longrightarrow> rules_step c sign s evs t"
  unfolding rules_step_def by (intro exI[of _ "[]"]) simp

lemma rules_step_vote:
  assumes "cast_vote c sign (rules s) d q w (wal s) = (Ok v, sr, files)" "rules t = sr" "wal t = files"
  shows "rules_step c sign s [VoteCast v] t"
  unfolding rules_step_def using assms by (intro exI[of _ "[Cast d q w]"]) simp

lemma rules_step_seq:
  assumes "rules_step c sign s es t" "rules_step c sign t fs u"
  shows "rules_step c sign s (es @ fs) u"
proof -
  obtain xs ys where "safety_run c sign (rules s, wal s) xs = (votes_of es, rules t, wal t)"
    "safety_run c sign (rules t, wal t) ys = (votes_of fs, rules u, wal u)"
    "list_all (\<lambda>j. case j of Cast _ _ _ \<Rightarrow> True | Lock _ \<Rightarrow> True | _ \<Rightarrow> False) (xs @ ys)"
    using assms unfolding rules_step_def by auto
  then show ?thesis unfolding rules_step_def by (intro exI[of _ "xs @ ys"]) (simp add: safety_run_append)
qed

lemma rules_step_lock: "rules_step c sign s [] (s\<lparr>rules := update_locked_qc (rules s) qc, highest_qc := h\<rparr>)"
  unfolding rules_step_def by (intro exI[of _ "[Lock qc]"]) simp

lemma on_qc_rules:
  assumes "on_qc c sign s qc w now = (x, t)"
  shows "rules_step c sign s (events x) t"
proof (cases rule: on_qc_cases[of c sign s qc w now])
  case (silent x')
  then show ?thesis using assms by (auto intro!: rules_step_silent)
next
  case (locked t')
  then show ?thesis using assms rules_step_lock by auto
next
  case (lock_vote t' v sr files d)
  have "rules_step c sign t' [VoteCast v] (t'\<lparr>rules := sr, wal := files\<rparr>)"
    using lock_vote(3) by (rule rules_step_vote) simp_all
  then show ?thesis
    using rules_step_seq[OF rules_step_lock[where c = c and sign = sign and s = s and qc = qc and h = "Some qc"]] lock_vote(1,2) assms by fastforce
next
  case (vote v sr files d)
  then show ?thesis using assms by (auto intro: rules_step_vote)
next
  case (commit b p)
  then show ?thesis using assms by (auto intro!: rules_step_silent)
qed

lemma rules_step_from: "rules_step c sign s1 es t \<Longrightarrow> rules s1 = rules s \<Longrightarrow> wal s1 = wal s \<Longrightarrow> rules_step c sign s es t"
  by (simp add: rules_step_def)

lemma on_vote_rules:
  assumes "on_vote c sign s v pk w now = (x, t)"
  shows "rules_step c sign s (events x) t"
  using assms
proof (cases rule: hs_vote_cases)
  case (dropped a b d e)
  then show ?thesis by (simp add: rules_step_silent)
next
  case (counted s1)
  have s1: "rules s1 = rules s" "wal s1 = wal s" using counted(1) by (auto simp: note_vote_def)
  from counted(3) show ?thesis
  proof (cases rule: hs_count_cases)
    case (no_qc acc1)
    then show ?thesis using s1 by (simp add: rules_step_silent)
  next
    case (qc acc1 q s2)
    have "rules s2 = rules s" "wal s2 = wal s" using qc(2) s1 by simp_all
    with on_qc_rules[OF qc(3)] show ?thesis by (rule rules_step_from)
  qed
qed

lemma handle_rules:
  assumes "hs_handle c sign s i = (es, t)"
  shows "rules_step c sign s es t"
proof (cases i)
  case (In_Proposal b q w)
  then show ?thesis
    using assms
    by (cases rule: on_proposal_shape[of c sign s b q w]) (auto intro!: rules_step_silent elim!: rules_step_vote)
next
  case (In_Vote v pk w now)
  obtain x u where "on_vote c sign s v pk w now = (x, u)" by fastforce
  then show ?thesis using assms on_vote_rules In_Vote by fastforce
next
  case (In_Round_Timeout now)
  then show ?thesis using assms by (auto simp: on_round_timeout_def Let_def split: prod.splits intro!: rules_step_silent)
next
  case (In_Register a pk)
  then show ?thesis using assms
    by (auto simp: register_validator_pubkey_def split: option.splits if_splits intro!: rules_step_silent)
next
  case (In_Swap vs)
  then show ?thesis using assms
    by (auto simp: update_validator_set_def valset_new_def split: if_splits intro!: rules_step_silent)
qed (use assms in \<open>auto simp: prune_seen_votes_below_def rotate_epoch_seed_def intro!: rules_step_silent\<close>)

lemma run_rules: "hs_run c sign s is = (es, t) \<Longrightarrow> rules_step c sign s es t"
proof (induction "is" arbitrary: s es)
  case (Cons i "is")
  obtain fs u gs where "hs_handle c sign s i = (fs, u)" "hs_run c sign u is = (gs, t)" "es = fs @ gs"
    using Cons.prems by (auto simp: Let_def split: prod.splits)
  then show ?case using rules_step_seq handle_rules Cons.IH by blast
qed (simp add: rules_step_silent)

text \<open>
  C3: Between two starts of the node, whatever proposals, votes, timeouts and changes of the validator set it handles and in
  whatever order, the engine refines its voting rules: its votes are the votes of a history of votes and locks of those
  rules from the rules it started with, which ends in the rules and the file it is left with. So it signs at most one
  vote for a block number and phase. A restart is not such a step: the node makes its rules anew, without a file.
\<close>

theorem hotstuff_no_double_vote:
  "\<exists>js. list_all (\<lambda>j. case j of Cast _ _ _ \<Rightarrow> True | Lock _ \<Rightarrow> True | _ \<Rightarrow> False) js
    \<and> safety_run c sign (rules s, wal s) js
      = (votes_of (fst (hs_run c sign s is)), rules (snd (hs_run c sign s is)), wal (snd (hs_run c sign s is)))
    \<and> distinct (map (\<lambda>v. (block_number (vdata v), vphase (vdata v))) (votes_of (fst (hs_run c sign s is))))"
proof -
  obtain es t where r: "hs_run c sign s is = (es, t)" by fastforce
  obtain js where js: "safety_run c sign (rules s, wal s) js = (votes_of es, rules t, wal t)"
    "list_all (\<lambda>j. case j of Cast _ _ _ \<Rightarrow> True | Lock _ \<Rightarrow> True | _ \<Rightarrow> False) js"
    using run_rules[OF r] by (auto simp: rules_step_def)
  have "phase_memory.ready False (rules s) (wal s)" by (simp add: phase_memory.ready_def)
  moreover have "list_all (phase_memory.allowed False) js"
    using js(2) unfolding list_all_iff phase_memory.allowed_def by (fastforce split: safety_in.splits)
  ultimately have "distinct (map (\<lambda>v. (block_number (vdata v), vphase (vdata v))) (votes_of es))"
    using phase_memory.run_memory[OF _ _ js(1), of False] by (auto simp: comp_def)
  then show ?thesis using js by (intro exI[of _ js]) (simp add: r)
qed

section \<open>Commits\<close>

lemma handle_commits:
  assumes "hs_handle c sign s i = (es, t)"
  shows "commits_of es = [] \<and> committed_height t = committed_height s
    \<or> (\<exists>b q v pk w now acc1. i = In_Vote v pk w now \<and> commits_of es = [(b, q)] \<and> committed_height s < number_of_block b
         \<and> committed_height t = number_of_block b \<and> vphase (qc_data q) = Commit
         \<and> get_block (store s) (block_hash (qc_data q)) = Some b \<and> member_vote c s v pk
         \<and> add_vote c (accumulator s v) v pk = (Ok (Some q), acc1))"
proof (cases i)
  case (In_Proposal b q w)
  then show ?thesis using assms
    by (cases rule: on_proposal_shape[of c sign s b q w]) auto
next
  case (In_Vote v pk w now)
  obtain x u where ov: "on_vote c sign s v pk w now = (x, u)" by fastforce
  then have est: "es = events x" "t = u" using assms In_Vote by auto
  from ov show ?thesis
  proof (cases rule: hs_vote_cases)
    case (dropped a b d e)
    then show ?thesis using est by simp
  next
    case (counted s1)
    have s1: "committed_height s1 = committed_height s" "store s1 = store s" using counted(1) by (auto simp: note_vote_def)
    from counted(3) show ?thesis
    proof (cases rule: hs_count_cases)
      case (no_qc acc1)
      then show ?thesis using est s1 by simp
    next
      case (qc acc1 q s2)
      have s2: "committed_height s2 = committed_height s" "store s2 = store s" using qc(2) s1 by simp_all
      show ?thesis
      proof (cases rule: on_qc_cases[of c sign s2 q w now])
        case (commit b p)
        then have "commits_of es = [(b, q)]" "committed_height t = number_of_block b" using est qc(3) by auto
        moreover have "accumulator s1 v = accumulator s v" using counted(1) by auto
        ultimately show ?thesis using commit s2 In_Vote counted(2) qc(1) by auto
      qed (use est qc(3) s2 in \<open>auto simp: events_def\<close>)
    qed
  qed
next
  case (In_Round_Timeout now)
  then show ?thesis using assms by (auto simp: on_round_timeout_def Let_def split: prod.splits)
next
  case (In_Register a pk)
  then show ?thesis using assms by (auto simp: register_validator_pubkey_def split: option.splits if_splits)
next
  case (In_Swap vs)
  then show ?thesis using assms by (auto simp: update_validator_set_def valset_new_def split: if_splits)
qed (use assms in \<open>auto simp: prune_seen_votes_below_def rotate_epoch_seed_def\<close>)

text \<open>
  The heights the engine commits grow strictly: no height is committed twice and none is committed
  after a larger one.
\<close>

theorem hotstuff_commits_ascend:
  "sorted_wrt (<) (map (number_of_block \<circ> fst) (commits_of (fst (hs_run c sign s is))))
   \<and> list_all (\<lambda>p. committed_height s < number_of_block (fst p)) (commits_of (fst (hs_run c sign s is)))"
proof (induction "is" arbitrary: s)
  case (Cons i "is")
  obtain fs u gs t where h: "hs_handle c sign s i = (fs, u)" "hs_run c sign u is = (gs, t)" by fastforce
  note IH = Cons.IH[of u]
  have "commits_of fs = [] \<and> committed_height u = committed_height s
    \<or> (\<exists>p. commits_of fs = [p] \<and> committed_height s < number_of_block (fst p) \<and> committed_height u = number_of_block (fst p))"
    using handle_commits[OF h(1)] by fastforce
  then show ?case using IH h by (auto simp: list_all_iff intro: less_trans)
qed simp


section \<open>What a commit rests on\<close>

text \<open>
  The invariant, as long as the validator set is not swapped: the set is the one the engine was made
  with, an accumulator is filed under its block number and phase and holds verified votes of members
  under their registered keys, with the quorum of the set; the store files blocks under their hashes.
\<close>

definition acc_for :: "crypto \<Rightarrow> hotstuff \<Rightarrow> u64 \<times> byte \<Rightarrow> vote_accumulator \<Rightarrow> bool" where
  "acc_for c s k acc \<longleftrightarrow> acc_ok c acc \<and> acc_quorum acc = vs_quorum (validator_set s)
     \<and> (block_number (acc_data acc), vphase (acc_data acc)) = k
     \<and> list_all (\<lambda>(a, v, pk). a \<in> set (validators (validator_set s)) \<and> validator_pubkeys s a = Some pk) (acc_votes acc)"

definition hs_inv :: "crypto \<Rightarrow> address list \<Rightarrow> hotstuff \<Rightarrow> bool" where
  "hs_inv c vs s \<longleftrightarrow> validators (validator_set s) = vs \<and> vs_quorum (validator_set s) = committee_quorum (length vs)
     \<and> store_ok (keccak256 c) (store s) \<and> (\<forall>k acc. vote_accumulators s k = Some acc \<longrightarrow> acc_for c s k acc)"

definition no_swap :: "hs_in \<Rightarrow> bool" where
  "no_swap i = (case i of In_Swap _ \<Rightarrow> False | _ \<Rightarrow> True)"

lemma hs_inv_new: "valset_new vs = Ok vset \<Longrightarrow> hs_inv c vs (hotstuff_new a sr files vset now)"
  by (auto simp: valset_new_def hs_inv_def hotstuff_new_def block_store_new_ok split: if_splits)

lemma hs_inv_frame:
  assumes "hs_inv c vs s" "validators (validator_set t) = validators (validator_set s)"
    "vs_quorum (validator_set t) = vs_quorum (validator_set s)" "store t = store s"
    "vote_accumulators t = vote_accumulators s" "validator_pubkeys s \<subseteq>\<^sub>m validator_pubkeys t"
  shows "hs_inv c vs t"
  using assms by (fastforce simp: hs_inv_def acc_for_def list_all_iff map_le_def dom_def)

lemma on_qc_frame:
  assumes "on_qc c sign s qc w now = (x, t)"
  shows "validator_set t = validator_set s" "store t = store s" "vote_accumulators t = vote_accumulators s"
    "validator_pubkeys t = validator_pubkeys s" "seen_votes t = seen_votes s"
  using assms by (cases rule: on_qc_cases[of c sign s qc w now]; auto)+

lemma accumulator_for:
  assumes "hs_inv c vs s"
  shows "acc_for c s (block_number (vdata v), vphase (vdata v)) (accumulator s v)"
  using assms
  by (auto simp: accumulator_def hs_inv_def acc_for_def vote_accumulator_new_def acc_ok_def split: option.splits)

lemma add_vote_for:
  assumes "acc_for c s k acc" "member_vote c s v pk"
  shows "acc_for c s k (snd (add_vote c acc v pk))"
  using assms add_vote_ok[of c acc v pk]
  by (cases rule: add_vote_cases[of v acc c pk]) (auto simp: acc_for_def member_vote_def)

lemma formed_certified:
  assumes "acc_for c s k acc" "member_vote c s v pk" "fst (add_vote c acc v pk) = Ok (Some q)"
    and "vs_quorum (validator_set s) = committee_quorum (length (validators (validator_set s)))"
  shows "certified c (validators (validator_set s)) (validator_pubkeys s) q"
proof -
  let ?acc = "snd (add_vote c acc v pk)"
  have ok: "acc_for c s k ?acc" using assms(1,2) by (rule add_vote_for)
  have q: "qc_backed c (acc_quorum acc) q" "qc_data q = acc_data acc" "signers q = map fst (acc_votes ?acc)"
    using add_vote_qc[of c acc v pk q] assms(1,3) by (auto simp: acc_for_def)
  have d: "acc_data ?acc = acc_data acc" by (cases rule: add_vote_cases[of v acc c pk]) auto
  have "signed_by c (validator_pubkeys s) (qc_data q) a \<and> a \<in> set (validators (validator_set s))"
    if a: "(a, u, pk') \<in> set (acc_votes ?acc)" for a u pk'
  proof -
    have "a \<in> set (validators (validator_set s))" "validator_pubkeys s a = Some pk'"
      using ok a by (auto simp: acc_for_def list_all_iff)
    moreover have "verify_single c (vsignature u) pk' (vote_hash c (qc_data q))"
      using ok a q(2) d by (auto simp: acc_for_def acc_ok_def list_all_iff)
    ultimately show ?thesis by (auto simp: signed_by_def)
  qed
  then show ?thesis using q(1,3) assms(1,4) by (auto simp: certified_def qc_backed_def acc_for_def list_all_iff)
qed

lemma add_block_inv: "store_ok K s \<Longrightarrow> store_ok K (add_block K s b)"
  using add_block_sound[of K s b] by simp

lemma hs_vote_inv:
  assumes "hs_inv c vs s" "on_vote c sign s v pk w now = (x, t)"
  shows "hs_inv c vs t \<and> validator_pubkeys t = validator_pubkeys s"
  using assms(2)
proof (cases rule: hs_vote_cases)
  case (dropped a b d e)
  then show ?thesis using hs_inv_frame[OF assms(1), of t] by simp
next
  case (counted s1)
  have s1: "hs_inv c vs s1" "validator_pubkeys s1 = validator_pubkeys s" "member_vote c s1 v pk"
    using counted(1,2) hs_inv_frame[OF assms(1), of s1] assms(1) by (auto simp: note_vote_def member_vote_def)
  let ?upd = "\<lambda>acc1. s1\<lparr>vote_accumulators := (vote_accumulators s1)((block_number (vdata v), vphase (vdata v)) \<mapsto> acc1)\<rparr>"
  have "acc_for c s1 (block_number (vdata v), vphase (vdata v)) (snd (add_vote c (accumulator s1 v) v pk))"
    using accumulator_for[OF s1(1)] s1(3) by (rule add_vote_for)
  then have upd: "hs_inv c vs (?upd (snd (add_vote c (accumulator s1 v) v pk)))"
    using s1(1) by (auto simp: hs_inv_def acc_for_def)
  from counted(3) show ?thesis
  proof (cases rule: hs_count_cases)
    case (no_qc acc1)
    then show ?thesis using upd s1(2) by simp
  next
    case (qc acc1 q s2)
    then have "hs_inv c vs s2" "validator_pubkeys s2 = validator_pubkeys s" using upd s1(2) by simp_all
    then show ?thesis using on_qc_frame[OF qc(3)] hs_inv_frame[of c vs s2 t] by simp
  qed
qed

lemma register_grows: "validator_pubkeys s \<subseteq>\<^sub>m validator_pubkeys (register_validator_pubkey s a pk)"
  by (auto simp: register_validator_pubkey_def map_le_def split: option.splits)

lemma handle_inv:
  assumes "hs_inv c vs s" "no_swap i" "hs_handle c sign s i = (es, t)"
  shows "hs_inv c vs t \<and> validator_pubkeys s \<subseteq>\<^sub>m validator_pubkeys t"
proof (cases i)
  case (In_Proposal b q w)
  have add: "hs_inv c vs (s\<lparr>store := add_block (keccak256 c) (store s) b\<rparr>)"
    using assms(1) add_block_inv[of "keccak256 c" "store s" b] by (auto simp: hs_inv_def acc_for_def)
  then have "hs_inv c vs (s\<lparr>store := add_block (keccak256 c) (store s) b, rules := sr, wal := files\<rparr>)" for sr files
    by (rule hs_inv_frame) simp_all
  with add assms show ?thesis
    by (cases rule: on_proposal_shape[of c sign s b q w]) (auto simp: In_Proposal)
next
  case (In_Vote v pk w now)
  then show ?thesis using assms hs_vote_inv[OF assms(1)] by (cases "on_vote c sign s v pk w now") auto
next
  case (In_Register a pk)
  have "hs_inv c vs (register_validator_pubkey s a pk)"
    using register_grows[of s a pk]
    by (intro hs_inv_frame[OF assms(1)]) (auto simp: register_validator_pubkey_def split: option.splits)
  then show ?thesis using assms(3) register_grows by (auto simp: In_Register)
qed (use assms hs_inv_frame[OF assms(1), of t] in \<open>auto simp: on_round_timeout_def Let_def no_swap_def
      prune_seen_votes_below_def rotate_epoch_seed_def set_epoch_seed_def split: prod.splits\<close>)

lemma run_certified:
  assumes "hs_inv c vs s" "list_all no_swap is" "hs_run c sign s is = (es, t)"
  shows "hs_inv c vs t \<and> validator_pubkeys s \<subseteq>\<^sub>m validator_pubkeys t
    \<and> (\<forall>(b, q) \<in> set (commits_of es). certified c vs (validator_pubkeys t) q \<and> vphase (qc_data q) = Commit
          \<and> block_hash (qc_data q) = hash_of_block (keccak256 c) b)"
  using assms
proof (induction "is" arbitrary: s es)
  case (Cons i "is")
  obtain fs u gs where h: "hs_handle c sign s i = (fs, u)" "hs_run c sign u is = (gs, t)" "es = fs @ gs"
    using Cons.prems by (auto simp: Let_def split: prod.splits)
  have u: "hs_inv c vs u" "validator_pubkeys s \<subseteq>\<^sub>m validator_pubkeys u"
    using handle_inv[OF Cons.prems(1) _ h(1)] Cons.prems(2) by simp_all
  have IH: "hs_inv c vs t" "validator_pubkeys u \<subseteq>\<^sub>m validator_pubkeys t"
    "\<forall>(b, q) \<in> set (commits_of gs). certified c vs (validator_pubkeys t) q \<and> vphase (qc_data q) = Commit
          \<and> block_hash (qc_data q) = hash_of_block (keccak256 c) b"
    using Cons.IH[OF u(1) _ h(2)] Cons.prems(2) by simp_all
  have keys: "validator_pubkeys s \<subseteq>\<^sub>m validator_pubkeys t" using u(2) IH(2) by (rule map_le_trans)
  have "certified c vs (validator_pubkeys t) q \<and> vphase (qc_data q) = Commit \<and> block_hash (qc_data q) = hash_of_block (keccak256 c) b"
    if bq: "(b, q) \<in> set (commits_of fs)" for b q
  proof -
    obtain v pk acc1 where f: "vphase (qc_data q) = Commit" "get_block (store s) (block_hash (qc_data q)) = Some b"
      "member_vote c s v pk" "add_vote c (accumulator s v) v pk = (Ok (Some q), acc1)"
      using handle_commits[OF h(1)] bq by auto
    have "certified c vs (validator_pubkeys s) q"
      using formed_certified[OF accumulator_for[OF Cons.prems(1), of v] f(3), of q] f(4) Cons.prems(1) by (simp add: hs_inv_def)
    moreover have "block_hash (qc_data q) = hash_of_block (keccak256 c) b"
      using f(2) Cons.prems(1) get_block_hash by (fastforce simp: hs_inv_def)
    ultimately show ?thesis using f(1) certified_registry_grows[OF _ keys] by blast
  qed
  then show ?case using IH keys h(3) by auto
qed simp


text \<open>
  C2: Every block the engine commits, while its validator set is not swapped, comes with a commit
  certificate for its hash, signed by a quorum of distinct validators of the set whose signatures verify
  under their registered keys.
\<close>

theorem hotstuff_commits_certified:
  assumes "valset_new vs = Ok vset" "list_all no_swap is"
    and "hs_run c sign (hotstuff_new a sr files vset now) is = (es, t)" "Committed b q \<in> set es"
  shows "certified c vs (validator_pubkeys t) q \<and> vphase (qc_data q) = Commit
    \<and> block_hash (qc_data q) = hash_of_block (keccak256 c) b"
  using run_certified[OF hs_inv_new[OF assms(1)] assms(2,3)] assms(4) by (auto simp: in_commits_of[symmetric])

text \<open>
  C1: Accountability across nodes. If two nodes with one validator set commit different blocks in one
  round, more than a third of the validators have signed two different votes for one round and phase,
  under any key registry that extends those of the nodes.
\<close>

theorem hotstuff_fork_exposes_third:
  assumes "valset_new vs = Ok vset" "distinct vs" "list_all no_swap is" "list_all no_swap is'"
    and "hs_run c sign (hotstuff_new a sr files vset now) is = (es, t)"
    and "hs_run c sign' (hotstuff_new a' sr' files' vset now') is' = (es', t')"
    and "Committed b q \<in> set es" "Committed b' q' \<in> set es'" "qc_round q = qc_round q'"
    and "hash_of_block (keccak256 c) b \<noteq> hash_of_block (keccak256 c) b'"
    and "validator_pubkeys t \<subseteq>\<^sub>m registry" "validator_pubkeys t' \<subseteq>\<^sub>m registry"
  shows "length vs div 3 < card {v \<in> set vs. \<exists>d d'. d \<noteq> d' \<and> block_number d = block_number d' \<and> vphase d = vphase d'
     \<and> signed_by c registry d v \<and> signed_by c registry d' v}"
proof -
  have q: "certified c vs registry q" "vphase (qc_data q) = Commit" "block_hash (qc_data q) = hash_of_block (keccak256 c) b"
    using run_certified[OF hs_inv_new[OF assms(1)] assms(3,5)] assms(7) certified_registry_grows[OF _ assms(11)]
    by (auto simp: in_commits_of[symmetric])
  have q': "certified c vs registry q'" "vphase (qc_data q') = Commit" "block_hash (qc_data q') = hash_of_block (keccak256 c) b'"
    using run_certified[OF hs_inv_new[OF assms(1)] assms(4,6)] assms(8) certified_registry_grows[OF _ assms(12)]
    by (auto simp: in_commits_of[symmetric])
  have "qc_data q \<noteq> qc_data q'" using q(3) q'(3) assms(10) by auto
  then have "{v \<in> set vs. signed_by c registry (qc_data q) v \<and> signed_by c registry (qc_data q') v}
      \<subseteq> {v \<in> set vs. \<exists>d d'. d \<noteq> d' \<and> block_number d = block_number d' \<and> vphase d = vphase d'
           \<and> signed_by c registry d v \<and> signed_by c registry d' v}"
    using q(2) q'(2) assms(9) by (smt (verit) Collect_mono)
  then have "card {v \<in> set vs. signed_by c registry (qc_data q) v \<and> signed_by c registry (qc_data q') v}
      \<le> card {v \<in> set vs. \<exists>d d'. d \<noteq> d' \<and> block_number d = block_number d' \<and> vphase d = vphase d'
           \<and> signed_by c registry d v \<and> signed_by c registry d' v}"
    by (intro card_mono) auto
  with certified_overlap[OF assms(2) q(1) q'(1)] show ?thesis by linarith
qed

text \<open>A chain of one validator, whose commit vote is enough.\<close>

definition solo_crypto :: crypto where
  "solo_crypto = any_crypto\<lparr>keccak256 := sample_hash\<rparr>"

definition solo_set :: valset where
  "solo_set = \<lparr>validators = [0], vs_quorum = 1, vs_seed = 0\<rparr>"

definition solo_vote :: "block \<Rightarrow> vote" where
  "solo_vote b = \<lparr>vdata = \<lparr>block_hash = hash_of_block sample_hash b, block_number = 1, vphase = Commit, epoch = 1\<rparr>,
     voter = 0, vsignature = []\<rparr>"

definition solo_inputs :: "block \<Rightarrow> hs_in list" where
  "solo_inputs b = [In_Register 0 [], In_Proposal b (sample_qc 0) True, In_Vote (solo_vote b) [] True 0]"

definition solo_run :: "block \<Rightarrow> consensus_event list \<times> hotstuff" where
  "solo_run b = hs_run solo_crypto (\<lambda>_. []) (hotstuff_new 0 (safety_rules_new 0) Map.empty solo_set 0) (solo_inputs b)"

definition solo_qc :: "block \<Rightarrow> quorum_certificate" where
  "solo_qc b = \<lparr>qc_data = vdata (solo_vote b), agg_signature = [], signers = [0], signer_pubkeys = [[]]\<rparr>"

lemma solo_set_new: "valset_new [0] = Ok solo_set"
  by (simp add: valset_new_def solo_set_def committee_quorum_def)

lemmas hs_eval = solo_inputs_def hotstuff_new_def register_validator_pubkey_def on_proposal_def qc_verify_def sample_qc_def
  solo_crypto_def any_crypto_def proposer_for_round_def solo_set_def engine_vote_def cast_vote_def safety_rules_new_def
  safety_default_def persist_state_def on_vote_def count_vote_def vote_accumulator_new_def add_vote_def form_qc_def
  on_qc_def get_block_def add_block_def block_store_new_def solo_vote_def solo_qc_def Commit_def Prepare_def Let_def

lemma solo_run_commits:
  assumes "block_coinbase b = 0" "number_of_block b = 1"
  shows "Committed b (solo_qc b) \<in> set (fst (solo_run b)) \<and> validator_pubkeys (snd (solo_run b)) = [0 \<mapsto> []]"
  using assms by (simp add: solo_run_def hs_eval)

definition solo_child :: "byte list \<Rightarrow> block" where
  "solo_child extra = sample_block (sample_child\<lparr>extra_data := extra\<rparr>)"

lemma solo_child_facts: "block_coinbase (solo_child e) = 0" "number_of_block (solo_child e) = 1"
  by (simp_all add: solo_child_def sample_block_def sample_child_def genesis_def block_coinbase_def number_of_block_def)

lemma solo_hashes_differ: "hash_of_block sample_hash (solo_child []) \<noteq> hash_of_block sample_hash (solo_child [7])"
proof -
  have l: "length (canonical_encode (header (solo_child [7]))) = length (canonical_encode (header (solo_child []))) + 1"
    "length (canonical_encode (header (solo_child []))) < 2 ^ 255"
    by (simp_all add: solo_child_def sample_block_def sample_child_def genesis_def canonical_encode_def)
  then show ?thesis
    by (auto simp: hash_of_block_def header_hash_def sample_hash_def word_of_nat_eq_iff take_bit_nat_eq_self)
qed

lemma hotstuff_commits_certified_witness:
  "certified solo_crypto [0] (validator_pubkeys (snd (solo_run (solo_child [])))) (solo_qc (solo_child []))
    \<and> vphase (qc_data (solo_qc (solo_child []))) = Commit
    \<and> block_hash (qc_data (solo_qc (solo_child []))) = hash_of_block (keccak256 solo_crypto) (solo_child [])"
  using solo_run_commits[OF solo_child_facts, of "[]"]
  by (intro hotstuff_commits_certified[OF solo_set_new, of "solo_inputs (solo_child [])" _ _ _ _ _ _ "fst (solo_run (solo_child []))"])
     (simp_all add: solo_inputs_def no_swap_def solo_run_def)

lemma hotstuff_fork_exposes_third_witness:
  "length [0 :: address] div 3 < card {v \<in> set [0]. \<exists>d d'. d \<noteq> d' \<and> block_number d = block_number d' \<and> vphase d = vphase d'
     \<and> signed_by solo_crypto [0 \<mapsto> []] d v \<and> signed_by solo_crypto [0 \<mapsto> []] d' v}"
proof (rule hotstuff_fork_exposes_third[OF solo_set_new])
  have run: "hs_run solo_crypto (\<lambda>_. []) (hotstuff_new 0 (safety_rules_new 0) Map.empty solo_set 0) (solo_inputs (solo_child e))
      = (fst (solo_run (solo_child e)), snd (solo_run (solo_child e)))" for e
    by (simp add: solo_run_def)
  show "hs_run solo_crypto (\<lambda>_. []) (hotstuff_new 0 (safety_rules_new 0) Map.empty solo_set 0) (solo_inputs (solo_child []))
      = (fst (solo_run (solo_child [])), snd (solo_run (solo_child [])))" by (rule run)
  show "hs_run solo_crypto (\<lambda>_. []) (hotstuff_new 0 (safety_rules_new 0) Map.empty solo_set 0) (solo_inputs (solo_child [7]))
      = (fst (solo_run (solo_child [7])), snd (solo_run (solo_child [7])))" by (rule run)
  show "Committed (solo_child []) (solo_qc (solo_child [])) \<in> set (fst (solo_run (solo_child [])))"
    "Committed (solo_child [7]) (solo_qc (solo_child [7])) \<in> set (fst (solo_run (solo_child [7])))"
    using solo_run_commits[OF solo_child_facts] by blast+
  show "hash_of_block (keccak256 solo_crypto) (solo_child []) \<noteq> hash_of_block (keccak256 solo_crypto) (solo_child [7])"
    using solo_hashes_differ by (simp add: solo_crypto_def)
qed (use solo_run_commits[OF solo_child_facts] in \<open>simp_all add: solo_inputs_def no_swap_def solo_qc_def solo_vote_def\<close>)

section \<open>Where the engine does not do what it means to\<close>

text \<open>
  A parent certificate without signers verifies and its round is what the lock is compared with: the
  scheduled proposer gets a vote for any block from a validator locked on any round.
\<close>

lemma forged_parent_bypasses_lock:
  "\<exists>v. fst (on_proposal solo_crypto sign
      (hotstuff_new 0 (update_locked_qc (safety_rules_new 0) (sample_qc 10)) Map.empty solo_set 0)
      (solo_child []) (sample_qc 1000) True) = Ok [VoteCast v] \<and> block_number (vdata v) = 1"
  using solo_child_facts[of "[]"] by (simp add: hs_eval update_locked_qc_def)

text \<open>
  The first vote received for a block number and phase fixes what its accumulator counts; other votes are
  ignored and the accumulator is never replaced. One validator that votes first for another block or
  epoch keeps the honest votes of that round from ever forming a certificate.
\<close>

lemma add_vote_data: "acc_data (snd (add_vote c acc v pk)) = acc_data acc"
  by (cases rule: add_vote_cases[of v acc c pk]) simp_all

lemma foreign_vote_ignored: "vdata v \<noteq> acc_data (accumulator s v) \<Longrightarrow> fst (count_vote c sign s v pk w now) = Ok []"
  by (simp add: count_vote_def accumulator_def[symmetric] add_vote_def Let_def)

lemma first_vote_decides:
  assumes "vote_accumulators s (n, p) = Some acc"
  shows "\<exists>acc'. vote_accumulators (snd (count_vote c sign s v pk w now)) (n, p) = Some acc' \<and> acc_data acc' = acc_data acc"
proof -
  obtain x t where cv: "count_vote c sign s v pk w now = (x, t)" by fastforce
  have "acc_data (snd (add_vote c (accumulator s v) v pk)) = acc_data (accumulator s v)" by (rule add_vote_data)
  moreover from cv have "\<exists>acc1. acc1 = snd (add_vote c (accumulator s v) v pk)
    \<and> vote_accumulators t = (vote_accumulators s)((block_number (vdata v), vphase (vdata v)) \<mapsto> acc1)"
  proof (cases rule: hs_count_cases)
    case (qc acc1 q s1)
    then show ?thesis using on_qc_frame(3)[OF qc(3)] by simp
  qed simp
  ultimately show ?thesis using assms cv by (auto simp: accumulator_def)
qed

text \<open>A swap of the validator set leaves the accumulators under way with the quorum of the old set.\<close>

lemma swap_keeps_old_quorum:
  "update_validator_set s vs = Ok t \<Longrightarrow> vote_accumulators s (block_number (vdata v), vphase (vdata v)) = Some acc
    \<Longrightarrow> acc_quorum (accumulator t v) = acc_quorum acc"
  by (auto simp: update_validator_set_def accumulator_def valset_new_def split: if_splits)

end
