(* ===== verification/Merkle.thy ===== *)
theory Merkle
  imports Prelude
begin

text \<open>
  The binary Merkle tree behind the receipts root, \<^verbatim>\<open>zbx-crypto/src/merkle.rs\<close>. The hash is a parameter.
  A tree is its list of layers, leaves first. The lemmas show that the proof of every leaf verifies and
  that a root binds the leaf of a position, as far as it does: the last section shows what it does not.
\<close>

section \<open>The tree\<close>

record merkle_proof =
  leaf_index :: usize
  leaf_count :: usize
  siblings :: "h256 list"

definition hash_leaf :: "(byte list \<Rightarrow> h256) \<Rightarrow> byte list \<Rightarrow> h256" where
  "hash_leaf K d = K (0 # d)"

definition combine_hashes :: "(byte list \<Rightarrow> h256) \<Rightarrow> h256 \<Rightarrow> h256 \<Rightarrow> h256" where
  "combine_hashes K l r = K (1 # h256_bytes l @ h256_bytes r)"

fun next_layer :: "(byte list \<Rightarrow> h256) \<Rightarrow> h256 list \<Rightarrow> h256 list" where
  "next_layer K (x # y # r) = combine_hashes K x y # next_layer K r"
| "next_layer K [x] = [combine_hashes K x x]"
| "next_layer K [] = []"

lemma length_next_layer: "length (next_layer K xs) = (length xs + 1) div 2"
  by (induction K xs rule: next_layer.induct) auto

function build_from_hashes :: "(byte list \<Rightarrow> h256) \<Rightarrow> h256 list \<Rightarrow> h256 list list" where
  "build_from_hashes K current =
     current # (if length current > 1 then build_from_hashes K (next_layer K current) else [])"
  by auto
termination by (relation "measure (\<lambda>(K, xs). length xs)") (auto simp: length_next_layer)

declare build_from_hashes.simps [simp del]

definition build_tree :: "(byte list \<Rightarrow> h256) \<Rightarrow> byte list list \<Rightarrow> (unit, h256 list list) res" where
  "build_tree K leaves = (if leaves = [] then Panic else Ok (build_from_hashes K (map (hash_leaf K) leaves)))"

definition merkle_root :: "h256 list list \<Rightarrow> h256" where
  "merkle_root layers = (case layers of [] \<Rightarrow> 0 | _ \<Rightarrow> (case last layers of [] \<Rightarrow> 0 | h # _ \<Rightarrow> h))"

definition tree_len :: "h256 list list \<Rightarrow> usize" where
  "tree_len layers = (case layers of [] \<Rightarrow> 0 | l # _ \<Rightarrow> length l)"

fun sibling_path :: "h256 list list \<Rightarrow> usize \<Rightarrow> h256 list" where
  "sibling_path (layer # rest) idx =
     (let sibling_idx = (if idx mod 2 = 0 then idx + 1 else idx - 1)
      in (if sibling_idx < length layer then layer ! sibling_idx else layer ! idx) # sibling_path rest (idx div 2))"
| "sibling_path [] idx = []"

definition proof_of :: "h256 list list \<Rightarrow> usize \<Rightarrow> merkle_proof option" where
  "proof_of layers i =
     (if i \<ge> tree_len layers then None
      else Some \<lparr>leaf_index = i, leaf_count = tree_len layers, siblings = sibling_path (butlast layers) i\<rparr>)"

fun climb :: "(byte list \<Rightarrow> h256) \<Rightarrow> h256 \<Rightarrow> usize \<Rightarrow> h256 list \<Rightarrow> h256" where
  "climb K current index (s # rest) =
     climb K (if index mod 2 = 0 then combine_hashes K current s else combine_hashes K s current) (index div 2) rest"
| "climb K current index [] = current"

definition proof_verify :: "(byte list \<Rightarrow> h256) \<Rightarrow> merkle_proof \<Rightarrow> h256 \<Rightarrow> h256 \<Rightarrow> bool" where
  "proof_verify K p root leaf \<longleftrightarrow> climb K leaf (leaf_index p) (siblings p) = root"

definition tx_merkle_root :: "(byte list \<Rightarrow> h256) \<Rightarrow> h256 list \<Rightarrow> h256" where
  "tx_merkle_root K hs = (if hs = [] then 0 else merkle_root (build_from_hashes K hs))"

section \<open>Every proof verifies\<close>

lemma build_not_Nil [simp]: "build_from_hashes K xs \<noteq> []"
  by (subst build_from_hashes.simps) simp

lemma build_small: "length xs \<le> 1 \<Longrightarrow> build_from_hashes K xs = [xs]"
  by (subst build_from_hashes.simps) simp

lemma build_step: "1 < length xs \<Longrightarrow> build_from_hashes K xs = xs # build_from_hashes K (next_layer K xs)"
  by (subst build_from_hashes.simps) simp

lemma tree_len_build [simp]: "tree_len (build_from_hashes K xs) = length xs"
  by (subst build_from_hashes.simps) (simp add: tree_len_def)

lemma merkle_root_Cons [simp]: "ys \<noteq> [] \<Longrightarrow> merkle_root (xs # ys) = merkle_root ys"
  by (simp add: merkle_root_def split: list.splits)

lemma merkle_root_step: "1 < length xs \<Longrightarrow> merkle_root (build_from_hashes K xs) = merkle_root (build_from_hashes K (next_layer K xs))"
  by (simp add: build_step)

lemma nth_next_layer:
  "i < length xs \<Longrightarrow> next_layer K xs ! (i div 2) =
     (let s = (if i mod 2 = 0 then i + 1 else i - 1); y = (if s < length xs then xs ! s else xs ! i)
      in if i mod 2 = 0 then combine_hashes K (xs ! i) y else combine_hashes K y (xs ! i))"
proof (induction K xs arbitrary: i rule: next_layer.induct)
  case (1 K x y r)
  consider "i = 0" | "i = 1" | j where "i = j + 2" by (metis add_2_eq_Suc' One_nat_def not0_implies_Suc)
  then show ?case
  proof cases
    case 3
    then have "j < length r" "i div 2 = Suc (j div 2)" "i mod 2 = j mod 2" using 1(2) by simp_all
    then show ?thesis using "1.IH"[of j] 3 by (cases "j mod 2 = 0") (auto simp: Let_def nth_Cons' Suc_diff_le)
  qed simp_all
qed simp_all

lemma climb_build:
  "i < length xs \<Longrightarrow> climb K (xs ! i) i (sibling_path (butlast (build_from_hashes K xs)) i) = merkle_root (build_from_hashes K xs)"
proof (induction K xs arbitrary: i rule: build_from_hashes.induct)
  case (1 K xs)
  show ?case
  proof (cases "1 < length xs")
    case True
    have "climb K (next_layer K xs ! (i div 2)) (i div 2) (sibling_path (butlast (build_from_hashes K (next_layer K xs))) (i div 2))
        = merkle_root (build_from_hashes K (next_layer K xs))"
      using True 1(2) by (intro 1(1)) (auto simp: length_next_layer)
    then show ?thesis
      using True nth_next_layer[OF 1(2), of K] by (simp add: build_step Let_def split: if_splits)
  next
    case False
    then have "xs = [xs ! 0]" "i = 0" using 1(2) by (cases xs; simp)+
    then show ?thesis using build_small[of xs K] by (metis False butlast.simps(2) climb.simps(2) leI list.simps(5)
          merkle_root_def last.simps sibling_path.simps(2))
  qed
qed

text \<open>
  C20: The proof of every leaf verifies against the root, and the tree has a proof for exactly its leaves.
\<close>

theorem merkle_tree_proofs_verify:
  "(case proof_of (build_from_hashes K hs) i of
      Some p \<Rightarrow> i < length hs \<and> proof_verify K p (merkle_root (build_from_hashes K hs)) (hs ! i)
    | None \<Rightarrow> length hs \<le> i)"
  using climb_build[of i hs K] by (auto simp: proof_of_def proof_verify_def)

section \<open>What a root binds\<close>

text \<open>The pairs a verification hashes on its way up.\<close>

fun path_pairs :: "(byte list \<Rightarrow> h256) \<Rightarrow> h256 \<Rightarrow> usize \<Rightarrow> h256 list \<Rightarrow> (h256 \<times> h256) list" where
  "path_pairs K current index (s # rest) =
     (let p = (if index mod 2 = 0 then (current, s) else (s, current))
      in p # path_pairs K (combine_hashes K (fst p) (snd p)) (index div 2) rest)"
| "path_pairs K current index [] = []"

lemma climb_inj:
  assumes "climb K a i xs = climb K b i ys" "length xs = length ys"
    and "inj_on (\<lambda>(l, r). combine_hashes K l r) (set (path_pairs K a i xs @ path_pairs K b i ys))"
  shows "a = b \<and> xs = ys"
  using assms
proof (induction xs arbitrary: a b i ys)
  case (Cons x xs)
  obtain y ys' where ys: "ys = y # ys'" using Cons.prems(2) by (cases ys) auto
  define p where "p = (if i mod 2 = 0 then (a, x) else (x, a))"
  define q where "q = (if i mod 2 = 0 then (b, y) else (y, b))"
  have eq: "climb K (combine_hashes K (fst p) (snd p)) (i div 2) xs = climb K (combine_hashes K (fst q) (snd q)) (i div 2) ys'"
    using Cons.prems(1) by (auto simp: ys p_def q_def)
  have pp: "path_pairs K a i (x # xs) = p # path_pairs K (combine_hashes K (fst p) (snd p)) (i div 2) xs"
    "path_pairs K b i (y # ys') = q # path_pairs K (combine_hashes K (fst q) (snd q)) (i div 2) ys'"
    by (simp_all add: p_def q_def Let_def)
  have "combine_hashes K (fst p) (snd p) = combine_hashes K (fst q) (snd q) \<and> xs = ys'"
    using Cons.prems(2,3) unfolding ys pp by (intro Cons.IH[OF eq]) (auto elim: inj_on_subset)
  moreover from this have "p = q"
    using inj_onD[OF Cons.prems(3), of p q] unfolding ys pp by (auto simp: split_beta)
  ultimately show ?case unfolding ys p_def q_def by (auto split: if_splits)
qed simp

text \<open>
  Against the root of a tree no proof for a position, with as many siblings as the tree has levels,
  verifies another leaf than the one that is there, unless the hash collides on the pairs met on the two paths.
\<close>

theorem merkle_root_binds_leaf:
  assumes "i < length hs" "proof_verify K p (merkle_root (build_from_hashes K hs)) x"
    and "leaf_index p = i" "length (siblings p) + 1 = length (build_from_hashes K hs)"
    and "inj_on (\<lambda>(l, r). combine_hashes K l r)
      (set (path_pairs K x i (siblings p) @ path_pairs K (hs ! i) i (sibling_path (butlast (build_from_hashes K hs)) i)))"
  shows "x = hs ! i \<and> proof_of (build_from_hashes K hs) i = Some (p\<lparr>leaf_count := length hs\<rparr>)"
proof -
  have l: "length (sibling_path ls j) = length ls" for ls j by (induction ls arbitrary: j) (simp_all add: Let_def)
  have "x = hs ! i \<and> siblings p = sibling_path (butlast (build_from_hashes K hs)) i"
    using assms(2-4) climb_build[OF assms(1), of K] by (intro climb_inj[OF _ _ assms(5)]) (auto simp: proof_verify_def l)
  then show ?thesis using assms(1,3) by (simp add: proof_of_def)
qed

definition sum_pair_hash :: "byte list \<Rightarrow> h256" where
  "sum_pair_hash bs = of_nat (be_val (take 32 (tl bs)) + 100 * be_val (drop 32 (tl bs)))"

lemma sum_pair_combine: "combine_hashes sum_pair_hash l r = l + 100 * r"
proof -
  have "be_val (h256_bytes h) = unat h" for h :: h256
  proof -
    have "unat h < 2 ^ 256" using unsigned_less[of h, where 'a = nat] by simp
    then show ?thesis by (simp add: h256_bytes_def be_val_be_bytes)
  qed
  then show ?thesis by (simp add: combine_hashes_def sum_pair_hash_def)
qed

lemma three_leaves: "build_from_hashes sum_pair_hash [1, 2, 3] = [[1, 2, 3], [201, 303], [30501]]"
  by (simp add: build_step build_small sum_pair_combine)

lemma merkle_root_binds_leaf_witness:
  "(2 :: h256) = [1, 2, 3] ! 1 \<and> proof_of (build_from_hashes sum_pair_hash [1, 2, 3]) 1
     = Some (\<lparr>leaf_index = 1, leaf_count = 9, siblings = [1, 303]\<rparr>\<lparr>leaf_count := length [1, 2, 3 :: h256]\<rparr>)"
  by (rule merkle_root_binds_leaf)
     (simp_all add: three_leaves proof_verify_def merkle_root_def sum_pair_combine inj_on_def)

text \<open>The pairs that are hashed to build a layer, and to build a whole tree.\<close>

fun layer_pairs :: "h256 list \<Rightarrow> (h256 \<times> h256) list" where
  "layer_pairs (x # y # r) = (x, y) # layer_pairs r"
| "layer_pairs [x] = [(x, x)]"
| "layer_pairs [] = []"

definition tree_pairs :: "(byte list \<Rightarrow> h256) \<Rightarrow> h256 list \<Rightarrow> (h256 \<times> h256) list" where
  "tree_pairs K hs = concat (map layer_pairs (butlast (build_from_hashes K hs)))"

lemma next_layer_pairs: "next_layer K xs = map (\<lambda>(l, r). combine_hashes K l r) (layer_pairs xs)"
  by (induction K xs rule: next_layer.induct) simp_all

lemma layer_pairs_inj: "length xs = length ys \<Longrightarrow> layer_pairs xs = layer_pairs ys \<Longrightarrow> xs = ys"
proof (induction xs arbitrary: ys rule: layer_pairs.induct)
  case (1 x y r)
  then obtain x' y' r' where "ys = x' # y' # r'" by (cases ys; cases "tl ys") auto
  then show ?case using 1 by auto
next
  case (2 x)
  then show ?case by (cases ys; cases "tl ys") auto
qed simp

lemma tree_pairs_step: "1 < length xs \<Longrightarrow> tree_pairs K xs = layer_pairs xs @ tree_pairs K (next_layer K xs)"
  by (simp add: tree_pairs_def build_step)

lemma merkle_root_inj:
  assumes "length xs = length ys" "merkle_root (build_from_hashes K xs) = merkle_root (build_from_hashes K ys)"
    and "inj_on (\<lambda>(l, r). combine_hashes K l r) (set (tree_pairs K xs @ tree_pairs K ys))"
  shows "xs = ys"
  using assms
proof (induction K xs arbitrary: ys rule: build_from_hashes.induct)
  case (1 K xs)
  show ?case
  proof (cases "1 < length xs")
    case True
    then have l: "1 < length ys" using 1(2) by simp
    have "next_layer K xs = next_layer K ys"
      using True l 1(2-4) by (intro 1(1)) (auto simp: length_next_layer merkle_root_step tree_pairs_step elim: inj_on_subset)
    then have "layer_pairs xs = layer_pairs ys"
      using 1(4) True l unfolding next_layer_pairs
      by (auto simp: tree_pairs_step elim!: inj_on_subset intro: map_inj_on)
    then show ?thesis using 1(2) by (rule layer_pairs_inj[rotated])
  next
    case False
    then show ?thesis
      using 1(2,3) by (cases xs; cases ys) (auto simp: build_small merkle_root_def)
  qed
qed

text \<open>
  An odd layer pairs its last node with itself, so that repeating the last leaf of three keeps the root;
  and leaves are not hashed apart from inner nodes, so that an inner node verifies as a leaf of the
  shorter path above it.
\<close>

lemma repeated_leaf_same_root: "tx_merkle_root K [a, b, c] = tx_merkle_root K [a, b, c, c]"
  by (simp add: tx_merkle_root_def build_step build_small merkle_root_def)

lemma inner_node_verifies:
  "proof_verify K \<lparr>leaf_index = 0, leaf_count = 2, siblings = [combine_hashes K c d]\<rparr>
     (tx_merkle_root K [a, b, c, d]) (combine_hashes K a b)"
  by (simp add: tx_merkle_root_def build_step build_small merkle_root_def proof_verify_def)

end
