(* ===== verification/Receipts.thy ===== *)
theory Receipts
  imports Merkle Block_Header
begin

text \<open>
  Receipts and what a header commits to of them: \<^verbatim>\<open>zbx-types/src/receipt.rs\<close> and the log blooms and
  receipt hashes of \<^verbatim>\<open>zbx-execution/src/bloom.rs\<close>. The hash is a parameter. The lemmas show that a
  bloom never misses a log, that the block bloom is the bloom of all its logs, and what the hash of a
  receipt determines.
\<close>

unbundle bit_operations_syntax

section \<open>Receipts\<close>

record chain_log =
  cl_address :: address
  cl_topics :: "h256 list"
  cl_data :: "byte list"
  cl_block_number :: u64
  cl_index :: u32
  cl_tx_hash :: h256
  cl_tx_index :: u32

datatype tx_status = Failure | Success

record receipt =
  r_status :: tx_status
  r_cumulative_gas_used :: u64
  r_logs_bloom :: "byte list"
  r_logs :: "chain_log list"
  r_transaction_hash :: h256
  r_transaction_index :: u32
  r_block_hash :: h256
  r_block_number :: u64
  r_from :: address
  r_to :: "address option"
  r_contract_address :: "address option"
  r_gas_used :: u64
  r_effective_gas_price :: u64

section \<open>Blooms\<close>

definition bloom_bit :: "h256 \<Rightarrow> usize \<Rightarrow> nat" where
  "bloom_bit h v = (let b = h256_bytes h in (unat (b ! v) * 256 + unat (b ! (v + 1))) mod 2048)"

definition bloom_set :: "h256 \<Rightarrow> usize \<Rightarrow> byte list \<Rightarrow> byte list" where
  "bloom_set h v bloom =
     (let b = bloom_bit h v; byte_idx = 256 - b div 8 - 1
      in bloom[byte_idx := (bloom ! byte_idx) OR push_bit (b mod 8) 1])"

definition bloom_add :: "(byte list \<Rightarrow> h256) \<Rightarrow> byte list \<Rightarrow> byte list \<Rightarrow> byte list" where
  "bloom_add K bloom item = fold (bloom_set (K item)) [0, 2, 4] bloom"

definition empty_bloom :: "byte list" where
  "empty_bloom = replicate 256 0"

definition compute_receipt_bloom :: "(byte list \<Rightarrow> h256) \<Rightarrow> chain_log list \<Rightarrow> byte list" where
  "compute_receipt_bloom K ls =
     fold (\<lambda>l bloom. fold (\<lambda>t bl. bloom_add K bl (h256_bytes t)) (cl_topics l) (bloom_add K bloom (addr_bytes (cl_address l))))
       ls empty_bloom"

definition aggregate_block_bloom :: "receipt list \<Rightarrow> byte list" where
  "aggregate_block_bloom rs = fold (\<lambda>r bloom. map2 (OR) bloom (r_logs_bloom r)) rs empty_bloom"

text \<open>What a bloom is asked: are the three bits of an item set?\<close>

definition bit_in :: "byte list \<Rightarrow> nat \<Rightarrow> bool" where
  "bit_in bloom b = bit (bloom ! (256 - b div 8 - 1)) (b mod 8)"

definition bloom_has :: "(byte list \<Rightarrow> h256) \<Rightarrow> byte list \<Rightarrow> byte list \<Rightarrow> bool" where
  "bloom_has K bloom item \<longleftrightarrow> list_all (\<lambda>v. bit_in bloom (bloom_bit (K item) v)) [0, 2, 4]"

lemma bloom_bit_less: "bloom_bit h v < 2048"
  by (simp add: bloom_bit_def Let_def)

lemma length_bloom_set [simp]: "length (bloom_set h v bl) = length bl"
  by (simp add: bloom_set_def Let_def)

lemma bit_in_set:
  assumes "length bl = 256" "b < 2048"
  shows "bit_in (bloom_set h v bl) b \<longleftrightarrow> bit_in bl b \<or> b = bloom_bit h v"
proof -
  let ?c = "bloom_bit h v"
  have c: "?c < 2048" by (rule bloom_bit_less)
  have same: "256 - b div 8 - 1 = 256 - ?c div 8 - 1 \<longleftrightarrow> b div 8 = ?c div 8" using assms(2) c by auto
  have "b = ?c \<longleftrightarrow> b div 8 = ?c div 8 \<and> b mod 8 = ?c mod 8" by (metis div_mult_mod_eq)
  moreover have "bit (push_bit (?c mod 8) (1 :: byte)) n \<longleftrightarrow> n = ?c mod 8" if "n < 8" for n
    using that by (auto simp: bit_push_bit_iff bit_1_iff simp del: push_bit_of_1)
  ultimately show ?thesis
    using assms(1) same unfolding bit_in_def bloom_set_def Let_def
    by (cases "b div 8 = ?c div 8") (auto simp: bit_or_iff nth_list_update)
qed

lemma length_bloom_add [simp]: "length (bloom_add K bl item) = length bl"
  by (simp add: bloom_add_def)

definition item_bits :: "(byte list \<Rightarrow> h256) \<Rightarrow> byte list \<Rightarrow> nat set" where
  "item_bits K item = {bloom_bit (K item) 0, bloom_bit (K item) 2, bloom_bit (K item) 4}"

lemma bit_in_add: "length bl = 256 \<Longrightarrow> b < 2048 \<Longrightarrow> bit_in (bloom_add K bl item) b \<longleftrightarrow> bit_in bl b \<or> b \<in> item_bits K item"
  by (auto simp: bloom_add_def bit_in_set item_bits_def)

definition log_items :: "chain_log \<Rightarrow> byte list set" where
  "log_items l = insert (addr_bytes (cl_address l)) (h256_bytes ` set (cl_topics l))"

lemma bit_in_fold:
  "length bl = 256 \<Longrightarrow> length (fold (\<lambda>t bl. bloom_add K bl (h256_bytes t)) ts bl) = 256"
  "length bl = 256 \<Longrightarrow> b < 2048 \<Longrightarrow>
     bit_in (fold (\<lambda>t bl. bloom_add K bl (h256_bytes t)) ts bl) b \<longleftrightarrow> bit_in bl b \<or> (\<exists>t \<in> set ts. b \<in> item_bits K (h256_bytes t))"
  by (induction ts arbitrary: bl) (auto simp: bit_in_add)

abbreviation add_log :: "(byte list \<Rightarrow> h256) \<Rightarrow> chain_log \<Rightarrow> byte list \<Rightarrow> byte list" where
  "add_log K l bloom \<equiv> fold (\<lambda>t bl. bloom_add K bl (h256_bytes t)) (cl_topics l) (bloom_add K bloom (addr_bytes (cl_address l)))"

lemma bit_in_add_log:
  "length bl = 256 \<Longrightarrow> length (add_log K l bl) = 256"
  "length bl = 256 \<Longrightarrow> b < 2048 \<Longrightarrow> bit_in (add_log K l bl) b \<longleftrightarrow> bit_in bl b \<or> (\<exists>i \<in> log_items l. b \<in> item_bits K i)"
  by (simp_all add: bit_in_fold bit_in_add log_items_def)

lemma receipt_bloom_bits:
  "length (compute_receipt_bloom K ls) = 256 \<and>
   (\<forall>b < 2048. bit_in (compute_receipt_bloom K ls) b \<longleftrightarrow> (\<exists>l \<in> set ls. \<exists>i \<in> log_items l. b \<in> item_bits K i))"
proof -
  have "length (fold (add_log K) ls bl) = 256 \<and> (\<forall>b < 2048. bit_in (fold (add_log K) ls bl) b
      \<longleftrightarrow> bit_in bl b \<or> (\<exists>l \<in> set ls. \<exists>i \<in> log_items l. b \<in> item_bits K i))" if "length bl = 256" for bl
    using that by (induction ls arbitrary: bl) (auto simp: bit_in_add_log)
  from this[of empty_bloom] show ?thesis
    by (auto simp: compute_receipt_bloom_def empty_bloom_def bit_in_def)
qed

lemma aggregate_bits:
  assumes "list_all (\<lambda>r. length (r_logs_bloom r) = 256) rs"
  shows "length (aggregate_block_bloom rs) = 256 \<and>
   (\<forall>b < 2048. bit_in (aggregate_block_bloom rs) b \<longleftrightarrow> (\<exists>r \<in> set rs. bit_in (r_logs_bloom r) b))"
proof -
  have "length (fold (\<lambda>r bloom. map2 (OR) bloom (r_logs_bloom r)) rs bl) = 256 \<and>
      (\<forall>b < 2048. bit_in (fold (\<lambda>r bloom. map2 (OR) bloom (r_logs_bloom r)) rs bl) b
        \<longleftrightarrow> bit_in bl b \<or> (\<exists>r \<in> set rs. bit_in (r_logs_bloom r) b))" if "length bl = 256" for bl
    using assms that by (induction rs arbitrary: bl) (auto simp: bit_in_def bit_or_iff)
  from this[of empty_bloom] show ?thesis
    by (auto simp: aggregate_block_bloom_def empty_bloom_def bit_in_def)
qed

lemma bloom_eqI:
  assumes "length x = 256" "length y = 256" "\<And>b. b < 2048 \<Longrightarrow> bit_in x b = bit_in y b"
  shows "x = y"
proof (rule nth_equalityI)
  fix i assume "i < length x"
  then have i: "i < 256" using assms(1) by simp
  show "x ! i = y ! i"
  proof (rule bit_word_eqI)
    fix j :: nat assume "j < LENGTH(8)"
    then have j: "j < 8" by simp
    let ?b = "(255 - i) * 8 + j"
    have "?b div 8 = 255 - i" "?b mod 8 = j" "?b < 2048" using i j by (simp_all add: div_add1_eq) 
    then show "bit (x ! i) j = bit (y ! i) j" using assms(3)[of ?b] i by (simp add: bit_in_def)
  qed
qed (use assms in simp)

text \<open>When every receipt carries the bloom of its logs, the block bloom is the bloom of all logs.\<close>

lemma aggregate_receipt_blooms:
  assumes "list_all (\<lambda>r. r_logs_bloom r = compute_receipt_bloom K (r_logs r)) rs"
  shows "aggregate_block_bloom rs = compute_receipt_bloom K (concat (map r_logs rs))"
proof -
  have len: "list_all (\<lambda>r. length (r_logs_bloom r) = 256) rs"
    using assms receipt_bloom_bits by (auto simp: list_all_iff)
  have "bit_in (aggregate_block_bloom rs) b \<longleftrightarrow> (\<exists>r \<in> set rs. \<exists>l \<in> set (r_logs r). \<exists>i \<in> log_items l. b \<in> item_bits K i)"
    if "b < 2048" for b
    using aggregate_bits[OF len] assms receipt_bloom_bits[of K] that by (auto simp: list_all_iff)
  then show ?thesis
    using aggregate_bits[OF len] receipt_bloom_bits[of K "concat (map r_logs rs)"] by (auto intro!: bloom_eqI)
qed

lemma bloom_has_logged: "l \<in> set ls \<Longrightarrow> i \<in> log_items l \<Longrightarrow> bloom_has K (compute_receipt_bloom K ls) i"
  using receipt_bloom_bits[of K ls] by (auto simp: bloom_has_def bloom_bit_less item_bits_def)

text \<open>
  The bloom of a block is the bloom of all its logs, and it misses none of them: it answers for the
  address and the topics of every log of every receipt.
\<close>

theorem block_bloom_complete:
  assumes "list_all (\<lambda>r. r_logs_bloom r = compute_receipt_bloom K (r_logs r)) rs"
  shows "aggregate_block_bloom rs = compute_receipt_bloom K (concat (map r_logs rs))
    \<and> (\<forall>r \<in> set rs. \<forall>l \<in> set (r_logs r). \<forall>i \<in> log_items l. bloom_has K (aggregate_block_bloom rs) i)"
  unfolding aggregate_receipt_blooms[OF assms] by (auto intro!: bloom_has_logged)


section \<open>Receipt hashes and the receipts root\<close>

definition log_preimage :: "chain_log \<Rightarrow> byte list" where
  "log_preimage l = addr_bytes (cl_address l) @ be_bytes 8 (length (cl_topics l)) @ concat (map h256_bytes (cl_topics l))
     @ be_bytes 8 (length (cl_data l)) @ cl_data l"

definition receipt_preimage :: "receipt \<Rightarrow> byte list" where
  "receipt_preimage r = (case r_status r of Failure \<Rightarrow> 0 | Success \<Rightarrow> 1) # be_bytes 8 (r_cumulative_gas_used r)
     @ r_logs_bloom r @ be_bytes 8 (length (r_logs r)) @ concat (map log_preimage (r_logs r))"

definition compute_receipt_hash :: "(byte list \<Rightarrow> h256) \<Rightarrow> receipt \<Rightarrow> h256" where
  "compute_receipt_hash K r = K (receipt_preimage r)"

definition compute_receipts_root :: "(byte list \<Rightarrow> h256) \<Rightarrow> receipt list \<Rightarrow> h256" where
  "compute_receipts_root K rs = (if rs = [] then 0 else tx_merkle_root K (map (compute_receipt_hash K) rs))"

text \<open>The ranges of the Rust types, and what of a log the hash covers.\<close>

definition log_fits :: "chain_log \<Rightarrow> bool" where
  "log_fits l \<longleftrightarrow> length (cl_topics l) < 2 ^ 64 \<and> length (cl_data l) < 2 ^ 64"

definition receipt_fits :: "receipt \<Rightarrow> bool" where
  "receipt_fits r \<longleftrightarrow> r_cumulative_gas_used r < 2 ^ 64 \<and> length (r_logs_bloom r) = 256 \<and> length (r_logs r) < 2 ^ 64
     \<and> list_all log_fits (r_logs r)"

definition log_body :: "chain_log \<Rightarrow> address \<times> h256 list \<times> byte list" where
  "log_body l = (cl_address l, cl_topics l, cl_data l)"

definition receipt_body :: "receipt \<Rightarrow> tx_status \<times> u64 \<times> byte list \<times> (address \<times> h256 list \<times> byte list) list" where
  "receipt_body r = (r_status r, r_cumulative_gas_used r, r_logs_bloom r, map log_body (r_logs r))"

text \<open>Fixed-width prefixes let the fields of two encodings be compared one after the other.\<close>

lemma be8_eq: "m < 2 ^ 64 \<Longrightarrow> n < 2 ^ 64 \<Longrightarrow> be_bytes 8 m = be_bytes 8 n \<longleftrightarrow> m = n"
  using be_bytes_inj[of 8 m n] by (auto simp: fits_def)

lemma be8_append_eq: "m < 2 ^ 64 \<Longrightarrow> n < 2 ^ 64 \<Longrightarrow> be_bytes 8 m @ xs = be_bytes 8 n @ ys \<longleftrightarrow> m = n \<and> xs = ys"
  by (auto simp: be8_eq)

lemma concat_h256_inj: "length xs = length ys \<Longrightarrow> concat (map h256_bytes xs) @ r = concat (map h256_bytes ys) @ s \<longleftrightarrow> xs = ys \<and> r = s"
  by (induction xs ys rule: list_induct2) (auto simp: h256_bytes_inj)

lemma log_preimage_inj:
  "log_fits x \<Longrightarrow> log_fits y \<Longrightarrow> log_preimage x @ r = log_preimage y @ s \<longleftrightarrow> log_body x = log_body y \<and> r = s"
  by (auto simp: log_preimage_def log_body_def log_fits_def be8_append_eq concat_h256_inj be8_eq addr_bytes_inj h256_bytes_inj)

lemma logs_preimage_inj:
  "length xs = length ys \<Longrightarrow> list_all log_fits xs \<Longrightarrow> list_all log_fits ys
    \<Longrightarrow> concat (map log_preimage xs) = concat (map log_preimage ys) \<longleftrightarrow> map log_body xs = map log_body ys"
  by (induction xs ys rule: list_induct2) (auto simp: log_preimage_inj)

text \<open>The preimage determines what it covers of a receipt: no field can be shifted into a neighbour.\<close>

lemma receipt_preimage_inj:
  assumes "receipt_fits x" "receipt_fits y" "receipt_preimage x = receipt_preimage y"
  shows "receipt_body x = receipt_body y"
proof -
  have "r_status x = r_status y \<and> r_cumulative_gas_used x = r_cumulative_gas_used y \<and> r_logs_bloom x = r_logs_bloom y
      \<and> length (r_logs x) = length (r_logs y) \<and> concat (map log_preimage (r_logs x)) = concat (map log_preimage (r_logs y))"
    using assms by (auto simp: receipt_preimage_def receipt_fits_def be8_append_eq be8_eq split: tx_status.splits)
  then show ?thesis using assms(1,2) logs_preimage_inj by (auto simp: receipt_body_def receipt_fits_def)
qed


text \<open>
  C16: The receipts root commits to the receipts: two lists of the same number of receipts with the same
  root agree in status, cumulative gas, bloom and logs of every receipt, unless the hash collides on
  what is hashed for one of the roots. Lists of different lengths can share a root (\<open>repeated_leaf_same_root\<close>).
\<close>

theorem receipts_root_commits:
  assumes "compute_receipts_root K rs = compute_receipts_root K rs'" "length rs = length rs'"
    and "list_all receipt_fits (rs @ rs')"
    and "inj_on K (receipt_preimage ` set (rs @ rs'))"
    and "inj_on (\<lambda>(l, r). combine_hashes K l r)
      (set (tree_pairs K (map (compute_receipt_hash K) rs) @ tree_pairs K (map (compute_receipt_hash K) rs')))"
  shows "map receipt_body rs = map receipt_body rs'"
proof -
  have "map (compute_receipt_hash K) rs = map (compute_receipt_hash K) rs'"
  proof (cases "rs = []")
    case False
    then have "rs' \<noteq> []" using assms(2) by auto
    with False show ?thesis
      using assms(1,2) merkle_root_inj[OF _ _ assms(5)] by (auto simp: compute_receipts_root_def tx_merkle_root_def)
  qed (use assms(2) in simp)
  then have "map receipt_preimage rs = map receipt_preimage rs'"
    using assms(2,4) by (auto simp: compute_receipt_hash_def list_eq_iff_nth_eq inj_on_def)
  then show ?thesis
    using assms(3) by (induction rule: list_induct2[OF assms(2)]) (auto dest: receipt_preimage_inj)
qed


text \<open>A receipt without logs and one with a log; neither hash covers the gas used.\<close>

definition sample_log :: chain_log where
  "sample_log = \<lparr>cl_address = 5, cl_topics = [9], cl_data = [1, 2], cl_block_number = 1, cl_index = 0, cl_tx_hash = 0, cl_tx_index = 0\<rparr>"

definition sample_receipt :: "(byte list \<Rightarrow> h256) \<Rightarrow> chain_log list \<Rightarrow> u64 \<Rightarrow> receipt" where
  "sample_receipt K ls gas = \<lparr>r_status = Success, r_cumulative_gas_used = 21000, r_logs_bloom = compute_receipt_bloom K ls, r_logs = ls,
     r_transaction_hash = 0, r_transaction_index = 0, r_block_hash = 0, r_block_number = 1, r_from = 1, r_to = Some 2,
     r_contract_address = None, r_gas_used = gas, r_effective_gas_price = 1\<rparr>"

lemma block_bloom_complete_witness:
  "\<forall>K. aggregate_block_bloom [sample_receipt K [] 3, sample_receipt K [sample_log] 3] = compute_receipt_bloom K (concat (map r_logs [sample_receipt K [] 3, sample_receipt K [sample_log] 3]))
    \<and> (\<forall>r \<in> set [sample_receipt K [] 3, sample_receipt K [sample_log] 3]. \<forall>l \<in> set (r_logs r). \<forall>i \<in> log_items l.
          bloom_has K (aggregate_block_bloom [sample_receipt K [] 3, sample_receipt K [sample_log] 3]) i)"
  by (intro allI, rule block_bloom_complete) (simp add: sample_receipt_def)

definition length_hash :: "byte list \<Rightarrow> h256" where
  "length_hash bs = of_nat (length bs)"

lemma receipts_root_commits_witness:
  "map receipt_body [sample_receipt length_hash [] 3, sample_receipt length_hash [sample_log] 3]
     = map receipt_body [sample_receipt length_hash [] 4, sample_receipt length_hash [sample_log] 4]"
proof (rule receipts_root_commits[of length_hash])
  have p: "receipt_preimage (sample_receipt K ls g) = receipt_preimage (sample_receipt K ls h)" for K ls g h
    by (simp add: sample_receipt_def receipt_preimage_def)
  have b: "length (compute_receipt_bloom K ls) = 256" for K ls using receipt_bloom_bits by blast
  show "list_all receipt_fits ([sample_receipt length_hash [] 3, sample_receipt length_hash [sample_log] 3]
      @ [sample_receipt length_hash [] 4, sample_receipt length_hash [sample_log] 4])"
    by (simp add: receipt_fits_def sample_receipt_def b log_fits_def sample_log_def)
  have "length (receipt_preimage (sample_receipt length_hash [] 3)) = 273"
    "length (receipt_preimage (sample_receipt length_hash [sample_log] 3)) = 343"
    by (simp_all add: receipt_preimage_def sample_receipt_def b log_preimage_def sample_log_def addr_bytes_def h256_bytes_def)
  then show "inj_on length_hash (receipt_preimage ` set ([sample_receipt length_hash [] 3, sample_receipt length_hash [sample_log] 3]
      @ [sample_receipt length_hash [] 4, sample_receipt length_hash [sample_log] 4]))"
    by (auto simp: inj_on_def length_hash_def p[of length_hash _ 4 3])
  show "inj_on (\<lambda>(l, r). combine_hashes length_hash l r)
     (set (tree_pairs length_hash (map (compute_receipt_hash length_hash) [sample_receipt length_hash [] 3, sample_receipt length_hash [sample_log] 3])
       @ tree_pairs length_hash (map (compute_receipt_hash length_hash) [sample_receipt length_hash [] 4, sample_receipt length_hash [sample_log] 4])))"
    by (simp add: tree_pairs_def build_step build_small compute_receipt_hash_def p[of length_hash _ 4 3])
  show "compute_receipts_root length_hash [sample_receipt length_hash [] 3, sample_receipt length_hash [sample_log] 3]
     = compute_receipts_root length_hash [sample_receipt length_hash [] 4, sample_receipt length_hash [sample_log] 4]"
    by (simp add: compute_receipts_root_def compute_receipt_hash_def p[of length_hash _ 4 3])
qed simp

end
