(* ===== verification/Executor.thy ===== *)
theory Executor
  imports Receipts Evm_Gas
begin

text \<open>
  The sequential block executor, \<^verbatim>\<open>zbx-execution/src/executor.rs\<close>, with the account type of
  \<^verbatim>\<open>zbx-types/src/account.rs\<close>, the diff of \<^verbatim>\<open>state_diff.rs\<close> and the reward schedule of
  \<^verbatim>\<open>zbx-types/src/lib.rs\<close>: a state view over seeded accounts, the execution of one transaction from its
  checks to the settlement of fee and value, and the execution of a block. The EVM is the interpreter
  of \<open>Evm\<close> on the mock host the executor gives it. The hash, the precompiled contracts, the run of the
  ZVM and the two trie roots are parameters. The build is a release build: where a debug build would
  panic, \<open>set_account\<close> keeps the prior nonce or code. The staking branch of the loop, taken only when
  the caller passes a validator set, is left out, as it is by \<open>execute\<close> and \<open>execute_with_db\<close>.
\<close>

section \<open>Accounts (account.rs)\<close>

datatype vm_kind = VmEvm | VmZvm

record account_state =
  acc_nonce :: u64
  acc_balance :: nat
  acc_code_hash :: h256
  acc_storage_root :: h256
  acc_vm :: vm_kind

definition EMPTY_CODE_HASH :: h256 where
  "EMPTY_CODE_HASH = 0xc5d2460186f7233c927e7db2dcc703c0e500b653ca82273b7bfad8045d85a470"

definition EMPTY_STORAGE_ROOT :: h256 where
  "EMPTY_STORAGE_ROOT = 0x56e81f171bcc55a6ff8345e692c0f86e5b48e01b996cadc001622fb5e363b421"

definition default_account_state :: account_state where
  "default_account_state = \<lparr>acc_nonce = 0, acc_balance = 0, acc_code_hash = EMPTY_CODE_HASH,
     acc_storage_root = EMPTY_STORAGE_ROOT, acc_vm = VmEvm\<rparr>"

definition is_eoa :: "account_state \<Rightarrow> bool" where
  "is_eoa s \<longleftrightarrow> acc_code_hash s = EMPTY_CODE_HASH"

definition is_contract :: "account_state \<Rightarrow> bool" where
  "is_contract s \<longleftrightarrow> \<not> is_eoa s"

definition is_empty_account :: "account_state \<Rightarrow> bool" where
  "is_empty_account s \<longleftrightarrow> acc_nonce s = 0 \<and> acc_balance s = 0 \<and> is_eoa s"

definition balance_u128 :: "account_state \<Rightarrow> u128" where
  "balance_u128 s = (if acc_balance s \<ge> 2 ^ 128 then umax 128 else acc_balance s)"

definition set_balance_u128 :: "account_state \<Rightarrow> u128 \<Rightarrow> account_state" where
  "set_balance_u128 s wei = s\<lparr>acc_balance := wei\<rparr>"

definition increment_nonce :: "account_state \<Rightarrow> (zbx_error, account_state) res" where
  "increment_nonce s = bind_res (ok_or (checked_add 64 (acc_nonce s) 1) ArithmeticOverflow) (\<lambda>n. Ok (s\<lparr>acc_nonce := n\<rparr>))"

section \<open>The state view (executor.rs, state_diff.rs)\<close>

record state_diff =
  d_accounts :: "address \<rightharpoonup> account_state"
  d_storage :: "address \<rightharpoonup> (h256 \<rightharpoonup> h256)"
  d_new_code :: "h256 \<rightharpoonup> byte list"
  d_deleted :: "address list"
  d_logs :: "chain_log list"

record state_view =
  base_accounts :: "address \<rightharpoonup> account_state"
  codes :: "h256 \<rightharpoonup> byte list"
  diffs :: state_diff
  to_delete :: "address set"

definition state_diff_new :: state_diff where
  "state_diff_new = \<lparr>d_accounts = Map.empty, d_storage = Map.empty, d_new_code = Map.empty, d_deleted = [], d_logs = []\<rparr>"

definition view_new :: state_view where
  "view_new = \<lparr>base_accounts = Map.empty, codes = Map.empty, diffs = state_diff_new, to_delete = {}\<rparr>"

definition view_selfdestruct :: "state_view \<Rightarrow> address \<Rightarrow> state_view" where
  "view_selfdestruct v a =
     v\<lparr>diffs := (diffs v)\<lparr>d_accounts := (d_accounts (diffs v))(a := None), d_storage := (d_storage (diffs v))(a := None),
         d_deleted := d_deleted (diffs v) @ [a]\<rparr>,
       to_delete := insert a (to_delete v)\<rparr>"

definition is_deleted :: "state_view \<Rightarrow> address \<Rightarrow> bool" where
  "is_deleted v a \<longleftrightarrow> a \<in> to_delete v"

definition seed_account :: "state_view \<Rightarrow> address \<Rightarrow> account_state \<Rightarrow> state_view" where
  "seed_account v a s = v\<lparr>base_accounts := (base_accounts v)(a \<mapsto> s)\<rparr>"

definition seed_code :: "state_view \<Rightarrow> h256 \<Rightarrow> byte list \<Rightarrow> state_view" where
  "seed_code v h c = v\<lparr>codes := (codes v)(h \<mapsto> c)\<rparr>"

text \<open>What \<open>set_account\<close> reads as the prior state, whether or not the address is tombstoned.\<close>

definition prior_account :: "state_view \<Rightarrow> address \<Rightarrow> account_state" where
  "prior_account v a =
     (case d_accounts (diffs v) a of Some s \<Rightarrow> s
      | None \<Rightarrow> (case base_accounts v a of Some s \<Rightarrow> s | None \<Rightarrow> default_account_state))"

definition get_account :: "state_view \<Rightarrow> address \<Rightarrow> account_state" where
  "get_account v a = (if a \<in> to_delete v then default_account_state else prior_account v a)"

definition view_get_code :: "state_view \<Rightarrow> address \<Rightarrow> byte list" where
  "view_get_code v a =
     (let acct = get_account v a in
      if \<not> is_contract acct then []
      else case codes v (acc_code_hash acct) of Some c \<Rightarrow> c | None \<Rightarrow> [])"

definition diff_put :: "state_view \<Rightarrow> address \<Rightarrow> account_state \<Rightarrow> state_view" where
  "diff_put v a s = v\<lparr>diffs := (diffs v)\<lparr>d_accounts := (d_accounts (diffs v))(a \<mapsto> s)\<rparr>\<rparr>"

definition set_account :: "state_view \<Rightarrow> address \<Rightarrow> account_state \<Rightarrow> state_view" where
  "set_account v a s =
     (if a \<in> to_delete v
      then diff_put (v\<lparr>to_delete := to_delete v - {a},
             diffs := (diffs v)\<lparr>d_deleted := filter (\<lambda>x. x \<noteq> a) (d_deleted (diffs v))\<rparr>\<rparr>) a s
      else let prior = prior_account v a in
        if acc_nonce s < acc_nonce prior then diff_put v a (s\<lparr>acc_nonce := acc_nonce prior\<rparr>)
        else if acc_code_hash prior \<noteq> EMPTY_CODE_HASH \<and> acc_code_hash s \<noteq> acc_code_hash prior
            \<and> acc_code_hash s \<noteq> EMPTY_CODE_HASH
          then diff_put v a (s\<lparr>acc_code_hash := acc_code_hash prior\<rparr>)
        else diff_put v a s)"

definition get_storage :: "state_view \<Rightarrow> address \<Rightarrow> h256 \<Rightarrow> h256" where
  "get_storage v a slot =
     (case Option.bind (d_storage (diffs v) a) (\<lambda>m. m slot) of Some x \<Rightarrow> x | None \<Rightarrow> 0)"

definition set_storage :: "state_view \<Rightarrow> address \<Rightarrow> h256 \<Rightarrow> h256 \<Rightarrow> state_view" where
  "set_storage v a slot x =
     (let m = (case d_storage (diffs v) a of Some m \<Rightarrow> m | None \<Rightarrow> Map.empty)
      in v\<lparr>diffs := (diffs v)\<lparr>d_storage := (d_storage (diffs v))(a \<mapsto> m(slot \<mapsto> x))\<rparr>\<rparr>)"

definition emit_log :: "state_view \<Rightarrow> chain_log \<Rightarrow> state_view" where
  "emit_log v l = v\<lparr>diffs := (diffs v)\<lparr>d_logs := d_logs (diffs v) @ [l]\<rparr>\<rparr>"

text \<open>Reading an account, setting its balance and writing it back, as the executor does it.\<close>

definition put_balance :: "state_view \<Rightarrow> address \<Rightarrow> u128 \<Rightarrow> state_view" where
  "put_balance v a wei = set_account v a (set_balance_u128 (get_account v a) wei)"

definition credit :: "state_view \<Rightarrow> address \<Rightarrow> u128 \<Rightarrow> state_view" where
  "credit v a wei = put_balance v a (sat_add 128 (balance_u128 (get_account v a)) wei)"

definition apply_slash_burn :: "state_view \<Rightarrow> address \<Rightarrow> u128 \<Rightarrow> u128 \<times> state_view" where
  "apply_slash_burn v offender amount_wei =
     (let bal = balance_u128 (get_account v offender); actual = min amount_wei bal
      in (actual, put_balance v offender (bal - actual)))"

section \<open>One transaction\<close>

datatype execution_error =
    InvalidNonce u64 u64
  | InsufficientFunds u128 u128
  | IntrinsicGasLow u64 u64
  | StateError string
  | BlockValidation u64 u64

record tx_result =
  res_gas_used :: u64
  res_effective_price :: u64
  res_success :: bool
  res_logs :: "chain_log list"
  res_contract_address :: "address option"

datatype zvm_status = ZvmSuccess | ZvmRevert | ZvmOutOfGas | ZvmInvalidOpcode byte | ZvmStackOverflow | ZvmError string

record zvm_context =
  z_bytecode :: "byte list"
  z_calldata :: "byte list"
  z_caller :: address
  z_contract :: address
  z_value :: u128
  z_gas_limit :: u64
  z_block_number :: u64
  z_block_timestamp :: u64
  z_base_fee :: u128
  z_blob_base_fee :: u128
  z_chain_id :: u64
  z_is_static :: bool
  z_aa_sender :: "address option"
  z_zbx_price_usd :: u128
  z_origin :: address

text \<open>What a ZVM run leaves: status, gas, the destructions it asks for and the addresses it created.\<close>

record zvm_outcome =
  zo_status :: zvm_status
  zo_gas_used :: u64
  zo_pending_destructs :: "(address \<times> address) list"
  zo_created_this_tx :: "address set"
  zo_view :: state_view

record exec_env =
  x_keccak :: "byte list \<Rightarrow> h256"
  x_sub_precompile :: "mock_host \<Rightarrow> u64 \<Rightarrow> address \<Rightarrow> byte list \<Rightarrow> u64 \<Rightarrow> (byte list \<times> u64) option"
  x_precompile :: "address \<Rightarrow> byte list \<Rightarrow> u64 \<Rightarrow> (evm_error, byte list \<times> u64) res"
  x_zvm :: "zvm_context \<Rightarrow> block_header \<Rightarrow> address option \<Rightarrow> state_view \<Rightarrow> zvm_outcome"
  x_state_root :: "state_view \<Rightarrow> (string, h256) res"
  x_tx_root :: "signed_tx list \<Rightarrow> h256"

definition ZVM_DEPLOY_DISCRIMINATOR :: byte where
  "ZVM_DEPLOY_DISCRIMINATOR = 0x5A"

definition value_of :: "signed_tx \<Rightarrow> u128" where
  "value_of t = cast 128 (tx_value (tx t))"

definition max_cost_of :: "signed_tx \<Rightarrow> u128" where
  "max_cost_of t = max_fee_per_gas (tx t) * transaction.gas_limit (tx t)"

text \<open>Steps 1 and 2: the checks, the upfront charge and the nonce.\<close>

definition charge_sender :: "signed_tx \<Rightarrow> state_view \<Rightarrow> (execution_error, state_view) res" where
  "charge_sender t v =
     (let sender = get_account v (tx_from t); balance = balance_u128 sender;
          total_cost = sat_add 128 (max_cost_of t) (value_of t)
      in if nonce (tx t) \<noteq> acc_nonce sender then Err (InvalidNonce (acc_nonce sender) (nonce (tx t)))
         else if total_cost > balance then Err (InsufficientFunds balance total_cost)
         else if intrinsic_gas (tx t) > transaction.gas_limit (tx t)
           then Err (IntrinsicGasLow (intrinsic_gas (tx t)) (transaction.gas_limit (tx t)))
         else case increment_nonce (set_balance_u128 sender (balance - wrap_add 128 (max_cost_of t) (value_of t))) of
             Ok sender1 \<Rightarrow> Ok (set_account v (tx_from t) sender1)
           | Err e \<Rightarrow> Err (StateError ''arithmetic overflow'')
           | Panic \<Rightarrow> Panic)"

text \<open>Step 3: what runs, and for a creation the new account's code, written before it runs.\<close>

record target =
  t_callee :: address
  t_code :: "byte list"
  t_contract_address :: "address option"
  t_pure :: bool
  t_vm :: vm_kind

definition new_address :: "exec_env \<Rightarrow> signed_tx \<Rightarrow> address" where
  "new_address X t = hash_address (x_keccak X (addr_bytes (tx_from t) @ be_bytes 8 (nonce (tx t))))"

definition deploy_code :: "exec_env \<Rightarrow> address \<Rightarrow> vm_kind \<Rightarrow> byte list \<Rightarrow> state_view \<Rightarrow> state_view" where
  "deploy_code X new_addr kind cd v =
     (if cd = [] then v
      else let code_hash = x_keccak X cd; v1 = seed_code v code_hash cd;
               acct = (get_account v1 new_addr)\<lparr>acc_code_hash := code_hash\<rparr>
        in set_account v1 new_addr (if kind = VmZvm then acct\<lparr>acc_vm := VmZvm\<rparr> else acct))"

definition resolve_target :: "exec_env \<Rightarrow> signed_tx \<Rightarrow> state_view \<Rightarrow> target \<times> state_view" where
  "resolve_target X t v =
     (case recipient (tx t) of
        None \<Rightarrow>
          let new_addr = new_address X t; init = tx_data (tx t);
              zvm = (init \<noteq> [] \<and> hd init = ZVM_DEPLOY_DISCRIMINATOR);
              kind = (if zvm then VmZvm else VmEvm); cd = (if zvm then tl init else init)
          in (\<lparr>t_callee = new_addr, t_code = cd, t_contract_address = Some new_addr, t_pure = False, t_vm = kind\<rparr>,
              deploy_code X new_addr kind cd v)
      | Some to \<Rightarrow>
          let acct = get_account v to
          in (if is_contract acct
              then \<lparr>t_callee = to, t_code = view_get_code v to, t_contract_address = None, t_pure = False, t_vm = acc_vm acct\<rparr>
              else \<lparr>t_callee = to, t_code = [], t_contract_address = None, t_pure = True, t_vm = VmEvm\<rparr>,
              v))"

text \<open>Step 4: the run.\<close>

definition call_data :: "signed_tx \<Rightarrow> byte list" where
  "call_data t = (if recipient (tx t) \<noteq> None then tx_data (tx t) else [])"

definition forwarded_gas :: "signed_tx \<Rightarrow> u64" where
  "forwarded_gas t = transaction.gas_limit (tx t) - intrinsic_gas (tx t)"

definition run_precompile :: "exec_env \<Rightarrow> signed_tx \<Rightarrow> target \<Rightarrow> (execution_error, exit_status \<times> u64 \<times> chain_log list) res" where
  "run_precompile X t g =
     (case x_precompile X (t_callee g) (tx_data (tx t)) (forwarded_gas t) of
        Ok (out, used) \<Rightarrow> Ok (Succeeded, used, [])
      | Err e \<Rightarrow> Ok (Failed e, forwarded_gas t, [])
      | Panic \<Rightarrow> Panic)"

definition zvm_context_of :: "signed_tx \<Rightarrow> block_header \<Rightarrow> target \<Rightarrow> zvm_context" where
  "zvm_context_of t h g =
     \<lparr>z_bytecode = t_code g, z_calldata = call_data t, z_caller = tx_from t, z_contract = t_callee g,
      z_value = value_of t, z_gas_limit = forwarded_gas t, z_block_number = number h,
      z_block_timestamp = header_timestamp h, z_base_fee = base_fee_per_gas h, z_blob_base_fee = 1,
      z_chain_id = transaction.chain_id (tx t), z_is_static = False, z_aa_sender = None,
      z_zbx_price_usd = 0, z_origin = tx_from t\<rparr>"

definition zvm_exit :: "zvm_status \<Rightarrow> exit_status" where
  "zvm_exit st = (case st of ZvmSuccess \<Rightarrow> Succeeded | ZvmRevert \<Rightarrow> Reverted | ZvmOutOfGas \<Rightarrow> Failed OutOfGas
     | ZvmInvalidOpcode b \<Rightarrow> Failed (InvalidOpcode b) | ZvmStackOverflow \<Rightarrow> Failed StackOverflow | ZvmError m \<Rightarrow> Failed OutOfGas)"

definition run_zvm :: "exec_env \<Rightarrow> signed_tx \<Rightarrow> block_header \<Rightarrow> target \<Rightarrow> state_view \<Rightarrow> (exit_status \<times> u64 \<times> chain_log list) \<times> state_view" where
  "run_zvm X t h g v =
     (let pre_log_len = length (d_logs (diffs v));
          r = x_zvm X (zvm_context_of t h g) h (t_contract_address g) v;
          v1 = (if zo_status r = ZvmSuccess
                then fold (\<lambda>(c, _) w. if c \<in> zo_created_this_tx r then view_selfdestruct w c else w)
                  (zo_pending_destructs r) (zo_view r)
                else zo_view r)
      in ((zvm_exit (zo_status r), zo_gas_used r, drop pre_log_len (d_logs (diffs v1))),
          v1\<lparr>diffs := (diffs v1)\<lparr>d_logs := take pre_log_len (d_logs (diffs v1))\<rparr>\<rparr>))"

definition evm_context_of :: "signed_tx \<Rightarrow> block_header \<Rightarrow> target \<Rightarrow> evm_context" where
  "evm_context_of t h g =
     \<lparr>caller = tx_from t, callee = t_callee g, cvalue = be_bytes 32 (tx_value (tx t)), calldata = call_data t,
      gas_limit = forwarded_gas t, is_static = False, block_number = number h, timestamp = header_timestamp h,
      coinbase = header_coinbase h, base_fee = base_fee_per_gas h, gas_price = effective_gas_price t (base_fee_per_gas h),
      tx_origin = tx_from t, chain_id = transaction.chain_id (tx t), randao_mix = h256_bytes (mix_hash h)\<rparr>"

definition receipt_log :: "u64 \<Rightarrow> evm_log \<Rightarrow> chain_log" where
  "receipt_log n l = \<lparr>cl_address = log_address l, cl_topics = map (\<lambda>w. of_nat (be_val w)) (log_topics l), cl_data = log_data l,
     cl_block_number = n, cl_index = 0, cl_tx_hash = 0, cl_tx_index = 0\<rparr>"

text \<open>The interpreter always returns, so that its result can be taken.\<close>

definition run_evm :: "exec_env \<Rightarrow> signed_tx \<Rightarrow> block_header \<Rightarrow> target \<Rightarrow> (execution_error, exit_status \<times> u64 \<times> chain_log list) res" where
  "run_evm X t h g =
     (case the (run (mock_env (x_keccak X) (x_sub_precompile X)) (interp_new (evm_context_of t h g) (t_code g) mock_new)) of
        (Ok (status, used), s) \<Rightarrow> Ok (status, used, map (receipt_log (number h)) (logs s))
      | (Err e, s) \<Rightarrow> Panic
      | (Panic, s) \<Rightarrow> Panic)"

definition run_target ::
  "exec_env \<Rightarrow> signed_tx \<Rightarrow> block_header \<Rightarrow> target \<Rightarrow> state_view \<Rightarrow> (execution_error, (exit_status \<times> u64 \<times> chain_log list) \<times> state_view) res" where
  "run_target X t h g v =
     (if recipient (tx t) \<noteq> None \<and> is_precompile (t_callee g) then bind_res (run_precompile X t g) (\<lambda>r. Ok (r, v))
      else if t_pure g \<or> t_code g = [] then Ok ((Succeeded, 0, []), v)
      else if t_vm g = VmZvm then Ok (run_zvm X t h g v)
      else bind_res (run_evm X t h g) (\<lambda>r. Ok (r, v)))"

text \<open>Steps 5 and 6: the refund, and the value to its receiver or back to the sender.\<close>

definition settle_value :: "signed_tx \<Rightarrow> target \<Rightarrow> bool \<Rightarrow> state_view \<Rightarrow> state_view" where
  "settle_value t g success v =
     (if \<not> success then credit v (tx_from t) (value_of t)
      else case recipient (tx t) of
          Some to \<Rightarrow> credit v to (value_of t)
        | None \<Rightarrow>
            (case t_contract_address g of
               None \<Rightarrow> v
             | Some new_addr \<Rightarrow>
                 if is_deleted v new_addr then v
                 else let acct = get_account v new_addr;
                          acct1 = (if value_of t > 0
                            then set_balance_u128 acct (sat_add 128 (balance_u128 acct) (value_of t)) else acct)
                   in set_account v new_addr (if t_vm g = VmZvm then acct1\<lparr>acc_vm := VmZvm\<rparr> else acct1)))"

definition settle :: "signed_tx \<Rightarrow> u64 \<Rightarrow> target \<Rightarrow> exit_status \<times> u64 \<times> chain_log list \<Rightarrow> state_view \<Rightarrow> tx_result \<times> state_view" where
  "settle t effective_price g outcome v =
     (case outcome of (status, evm_gas_used, ls) \<Rightarrow>
      let gas_used = min (sat_add 64 (intrinsic_gas (tx t)) evm_gas_used) (transaction.gas_limit (tx t));
          success = (status = Succeeded);
          v1 = credit v (tx_from t) (max_cost_of t - gas_used * effective_price)
      in (\<lparr>res_gas_used = gas_used, res_effective_price = effective_price, res_success = success, res_logs = ls,
           res_contract_address = t_contract_address g\<rparr>,
          settle_value t g success v1))"

definition execute_tx :: "exec_env \<Rightarrow> signed_tx \<Rightarrow> block_header \<Rightarrow> state_view \<Rightarrow> (execution_error, tx_result \<times> state_view) res" where
  "execute_tx X t h v =
     bind_res (charge_sender t v) (\<lambda>v1.
     case resolve_target X t v1 of (g, v2) \<Rightarrow>
     bind_res (run_target X t h g v2) (\<lambda>(outcome, v3).
     Ok (settle t (effective_gas_price t (base_fee_per_gas h)) g outcome v3)))"

section \<open>A block\<close>

definition INITIAL_BLOCK_REWARD :: u128 where "INITIAL_BLOCK_REWARD = 2 * 10 ^ 18"
definition HALVING_INTERVAL :: u64 where "HALVING_INTERVAL = 63072000"

definition block_reward_at :: "u64 \<Rightarrow> u128" where
  "block_reward_at height =
     (let halvings = height div HALVING_INTERVAL
      in if halvings \<ge> 64 then 0 else drop_bit halvings INITIAL_BLOCK_REWARD)"

definition receipt_of :: "exec_env \<Rightarrow> block \<Rightarrow> usize \<Rightarrow> signed_tx \<Rightarrow> u64 \<Rightarrow> tx_result \<Rightarrow> receipt" where
  "receipt_of X b idx t cumulative r =
     \<lparr>r_status = (if res_success r then Success else Failure), r_cumulative_gas_used = cumulative,
      r_logs_bloom = compute_receipt_bloom (x_keccak X) (res_logs r), r_logs = res_logs r, r_transaction_hash = tx_hash t,
      r_transaction_index = cast 32 idx, r_block_hash = hash_of_block (x_keccak X) b, r_block_number = number_of_block b,
      r_from = tx_from t, r_to = recipient (tx t), r_contract_address = res_contract_address r,
      r_gas_used = res_gas_used r, r_effective_gas_price = res_effective_price r\<rparr>"

definition pay_validator :: "block_header \<Rightarrow> tx_result \<Rightarrow> state_view \<Rightarrow> state_view" where
  "pay_validator h r v = credit v (header_coinbase h) ((res_effective_price r - base_fee_per_gas h) * res_gas_used r)"

fun execute_txs ::
  "exec_env \<Rightarrow> block \<Rightarrow> usize \<Rightarrow> u64 \<Rightarrow> signed_tx list \<Rightarrow> state_view \<Rightarrow> (execution_error, receipt list \<times> u64 \<times> state_view) res" where
  "execute_txs X b idx cumulative [] v = Ok ([], cumulative, v)"
| "execute_txs X b idx cumulative (t # ts) v =
     bind_res (execute_tx X t (header b) v) (\<lambda>(r, v1).
     let cumulative1 = wrap_add 64 cumulative (res_gas_used r) in
     bind_res (execute_txs X b (idx + 1) cumulative1 ts (pay_validator (header b) r v1)) (\<lambda>(rs, gas, v2).
     Ok (receipt_of X b idx t cumulative1 r # rs, gas, v2)))"

record execution_result =
  er_receipts :: "receipt list"
  er_state_diff :: state_diff
  er_gas_used :: u64
  er_state_root :: h256
  er_transactions_root :: h256
  er_receipts_root :: h256
  er_logs_bloom :: "byte list"

definition pay_reward :: "block \<Rightarrow> state_view \<Rightarrow> state_view" where
  "pay_reward b v =
     (let reward = block_reward_at (number_of_block b)
      in if reward > 0 then credit v (header_coinbase (header b)) reward else v)"

definition execute_block :: "exec_env \<Rightarrow> block \<Rightarrow> state_view \<Rightarrow> (execution_error, execution_result) res" where
  "execute_block X b v =
     (if header_gas_limit (header b) > BLOCK_GAS_LIMIT
      then Err (BlockValidation (header_gas_limit (header b)) BLOCK_GAS_LIMIT)
      else bind_res (execute_txs X b 0 0 (transactions (body b)) v) (\<lambda>(rs, gas, v1).
      let v2 = pay_reward b v1 in
      case x_state_root X v2 of
        Ok root \<Rightarrow> Ok \<lparr>er_receipts = rs, er_state_diff = diffs v2, er_gas_used = gas, er_state_root = root,
          er_transactions_root = x_tx_root X (transactions (body b)),
          er_receipts_root = compute_receipts_root (x_keccak X) rs,
          er_logs_bloom = aggregate_block_bloom rs\<rparr>
      | Err e \<Rightarrow> Err (StateError e)
      | Panic \<Rightarrow> Panic))"

end
