(* ===== verification/Exec_Props.thy ===== *)
theory Exec_Props
  imports Executor
begin

text \<open>
  What executing transactions and blocks does: exact balances, supply, nonces, gas and the block's commitments.
\<close>

section \<open>Reading after writing\<close>

lemma diff_put_simps [simp]:
  "base_accounts (diff_put v a s) = base_accounts v" "codes (diff_put v a s) = codes v" "to_delete (diff_put v a s) = to_delete v"
  "d_accounts (diffs (diff_put v a s)) = (d_accounts (diffs v))(a \<mapsto> s)" "d_storage (diffs (diff_put v a s)) = d_storage (diffs v)"
  "d_new_code (diffs (diff_put v a s)) = d_new_code (diffs v)" "d_logs (diffs (diff_put v a s)) = d_logs (diffs v)"
  by (simp_all add: diff_put_def)

lemma get_diff_put: "get_account (diff_put v a s) b = (if b = a \<and> a \<notin> to_delete v then s else get_account v b)"
  by (auto simp: get_account_def prior_account_def split: option.splits)

lemma get_set_other [simp]: "b \<noteq> a \<Longrightarrow> get_account (set_account v a s) b = get_account v b"
  by (simp add: set_account_def Let_def get_diff_put) (simp add: get_account_def prior_account_def cong: option.case_cong)

lemma get_set_same:
  "get_account (set_account v a s) a =
     (if a \<in> to_delete v then s
      else if acc_nonce s < acc_nonce (get_account v a) then s\<lparr>acc_nonce := acc_nonce (get_account v a)\<rparr>
      else if is_contract (get_account v a) \<and> acc_code_hash s \<noteq> acc_code_hash (get_account v a) \<and> is_contract s
        then s\<lparr>acc_code_hash := acc_code_hash (get_account v a)\<rparr>
      else s)"
  by (simp add: set_account_def Let_def get_diff_put is_contract_def is_eoa_def) (simp add: get_account_def)

lemma set_account_simps [simp]:
  "base_accounts (set_account v a s) = base_accounts v" "codes (set_account v a s) = codes v"
  "d_storage (diffs (set_account v a s)) = d_storage (diffs v)" "d_new_code (diffs (set_account v a s)) = d_new_code (diffs v)"
  "d_logs (diffs (set_account v a s)) = d_logs (diffs v)" "to_delete (set_account v a s) = to_delete v - {a}"
  by (simp_all add: set_account_def Let_def)

lemma balance_set [simp]: "acc_balance (get_account (set_account v a s) b) = (if b = a then acc_balance s else acc_balance (get_account v b))"
  by (simp add: get_set_same)

lemma vm_set [simp]: "acc_vm (get_account (set_account v a s) b) = (if b = a then acc_vm s else acc_vm (get_account v b))"
  by (simp add: get_set_same)

lemma nonce_set: "acc_nonce (get_account v a) \<le> acc_nonce s
   \<Longrightarrow> acc_nonce (get_account (set_account v a s) b) = (if b = a then acc_nonce s else acc_nonce (get_account v b))"
  by (simp add: get_set_same)

lemma code_hash_set: "\<not> is_contract (get_account v a) \<or> acc_code_hash s = acc_code_hash (get_account v a)
   \<Longrightarrow> acc_code_hash (get_account (set_account v a s) b) = (if b = a then acc_code_hash s else acc_code_hash (get_account v b))"
  by (auto simp: get_set_same)

lemma put_balance_simps [simp]:
  "acc_balance (get_account (put_balance v a w) b) = (if b = a then w else acc_balance (get_account v b))"
  "acc_nonce (get_account (put_balance v a w) b) = acc_nonce (get_account v b)"
  "acc_vm (get_account (put_balance v a w) b) = acc_vm (get_account v b)"
  "acc_code_hash (get_account (put_balance v a w) b) = acc_code_hash (get_account v b)"
  "base_accounts (put_balance v a w) = base_accounts v" "codes (put_balance v a w) = codes v"
  "d_storage (diffs (put_balance v a w)) = d_storage (diffs v)" "d_new_code (diffs (put_balance v a w)) = d_new_code (diffs v)"
  "d_logs (diffs (put_balance v a w)) = d_logs (diffs v)" "to_delete (put_balance v a w) = to_delete v - {a}"
  by (simp_all add: put_balance_def set_balance_u128_def nonce_set code_hash_set)

lemma credit_simps [simp]:
  "acc_balance (get_account (credit v a w) b) = (if b = a then sat_add 128 (balance_u128 (get_account v a)) w else acc_balance (get_account v b))"
  "acc_nonce (get_account (credit v a w) b) = acc_nonce (get_account v b)"
  "acc_vm (get_account (credit v a w) b) = acc_vm (get_account v b)"
  "acc_code_hash (get_account (credit v a w) b) = acc_code_hash (get_account v b)"
  "base_accounts (credit v a w) = base_accounts v" "codes (credit v a w) = codes v"
  "d_storage (diffs (credit v a w)) = d_storage (diffs v)" "d_new_code (diffs (credit v a w)) = d_new_code (diffs v)"
  "d_logs (diffs (credit v a w)) = d_logs (diffs v)" "to_delete (credit v a w) = to_delete v - {a}"
  by (simp_all add: credit_def)

lemma balance_u128_exact [simp]: "acc_balance s < 2 ^ 128 \<Longrightarrow> balance_u128 s = acc_balance s"
  by (simp add: balance_u128_def)

abbreviation bal :: "state_view \<Rightarrow> address \<Rightarrow> nat" where
  "bal v a \<equiv> acc_balance (get_account v a)"

section \<open>One transaction\<close>

definition callee_of :: "exec_env \<Rightarrow> signed_tx \<Rightarrow> address" where
  "callee_of X t = (case recipient (tx t) of Some to \<Rightarrow> to | None \<Rightarrow> new_address X t)"

text \<open>No account of the view runs on the ZVM, and the transaction deploys none that would.\<close>

definition no_zvm :: "state_view \<Rightarrow> bool" where
  "no_zvm v \<longleftrightarrow> (\<forall>a. acc_vm (get_account v a) = VmEvm)"

definition evm_tx :: "signed_tx \<Rightarrow> bool" where
  "evm_tx t \<longleftrightarrow> (recipient (tx t) = None \<longrightarrow> tx_data (tx t) = [] \<or> hd (tx_data (tx t)) \<noteq> ZVM_DEPLOY_DISCRIMINATOR)"

lemma charge_sender_Ok:
  assumes "charge_sender t v = Ok v1"
  shows "nonce (tx t) = acc_nonce (get_account v (tx_from t))" "nonce (tx t) + 1 < 2 ^ 64"
    "sat_add 128 (max_cost_of t) (value_of t) \<le> balance_u128 (get_account v (tx_from t))"
    "intrinsic_gas (tx t) \<le> transaction.gas_limit (tx t)"
    "v1 = set_account v (tx_from t) ((get_account v (tx_from t))\<lparr>acc_balance := balance_u128 (get_account v (tx_from t)) - wrap_add 128 (max_cost_of t) (value_of t),
       acc_nonce := nonce (tx t) + 1\<rparr>)"
  using assms
  by (auto simp: charge_sender_def Let_def increment_nonce_def set_balance_u128_def ok_or_def bind_res_Ok_iff
      split: if_splits res.splits option.splits)

lemma resolve_cases:
  assumes "resolve_target X t v = (g, w)" "no_zvm v" "evm_tx t"
  shows "t_callee g = callee_of X t" "t_vm g = VmEvm" "\<And>a. bal w a = bal v a" "\<And>a. acc_nonce (get_account w a) = acc_nonce (get_account v a)"
    "no_zvm w" "to_delete w \<subseteq> to_delete v" "base_accounts w = base_accounts v" "d_storage (diffs w) = d_storage (diffs v)"
    "d_new_code (diffs w) = d_new_code (diffs v)" "t_contract_address g = (case recipient (tx t) of None \<Rightarrow> Some (new_address X t) | Some _ \<Rightarrow> None)"
proof -
  have seed [simp]: "get_account (seed_code u h c) a = get_account u a" for u h c a
    by (simp add: seed_code_def get_account_def prior_account_def split: option.split)
  have seed2 [simp]: "base_accounts (seed_code u h c) = base_accounts u" "diffs (seed_code u h c) = diffs u"
      "to_delete (seed_code u h c) = to_delete u" for u h c by (simp_all add: seed_code_def)
  show "t_callee g = callee_of X t" "t_vm g = VmEvm" "\<And>a. bal w a = bal v a" "\<And>a. acc_nonce (get_account w a) = acc_nonce (get_account v a)"
    "no_zvm w" "to_delete w \<subseteq> to_delete v" "base_accounts w = base_accounts v" "d_storage (diffs w) = d_storage (diffs v)"
    "d_new_code (diffs w) = d_new_code (diffs v)" "t_contract_address g = (case recipient (tx t) of None \<Rightarrow> Some (new_address X t) | Some _ \<Rightarrow> None)"
    using assms
    by (auto simp: resolve_target_def Let_def deploy_code_def callee_of_def evm_tx_def no_zvm_def nonce_set
        split: option.splits if_splits)
qed

lemma run_target_keeps:
  assumes "run_target X t h g v = Ok (outcome, w)" "t_vm g = VmEvm"
  shows "w = v"
  using assms by (auto simp: run_target_def split: if_splits)


text \<open>What the sender is charged in the end.\<close>

definition paid :: "signed_tx \<Rightarrow> tx_result \<Rightarrow> u128" where
  "paid t r = min (max_cost_of t) (res_gas_used r * res_effective_price r)"

lemma charge_keeps:
  assumes "charge_sender t v = Ok v1"
  shows "acc_nonce (get_account v1 a) = (if a = tx_from t then acc_nonce (get_account v a) + 1 else acc_nonce (get_account v a))"
    "no_zvm v \<Longrightarrow> no_zvm v1" "to_delete v1 = to_delete v - {tx_from t}" "base_accounts v1 = base_accounts v"
    "d_storage (diffs v1) = d_storage (diffs v)" "d_new_code (diffs v1) = d_new_code (diffs v)"
  using charge_sender_Ok(1,5)[OF assms] by (simp_all add: nonce_set no_zvm_def)

lemma charge_balance:
  assumes "charge_sender t v = Ok v1" "bal v (tx_from t) < umax 128"
  shows "max_cost_of t + value_of t \<le> bal v (tx_from t)"
    "bal v1 a = (if a = tx_from t then bal v a - (max_cost_of t + value_of t) else bal v a)"
proof -
  note c = charge_sender_Ok[OF assms(1)]
  have b: "balance_u128 (get_account v (tx_from t)) = bal v (tx_from t)"
    using assms(2) umax_less[of 128] by (intro balance_u128_exact) simp
  have "max_cost_of t + value_of t < 2 ^ 128"
    using c(3) assms(2) unfolding b by (auto simp: sat_add_def umax_def)
  then have w: "wrap_add 128 (max_cost_of t) (value_of t) = max_cost_of t + value_of t"
    and le: "max_cost_of t + value_of t \<le> bal v (tx_from t)" using c(3) unfolding b by simp_all
  show "max_cost_of t + value_of t \<le> bal v (tx_from t)" by (rule le)
  show "bal v1 a = (if a = tx_from t then bal v a - (max_cost_of t + value_of t) else bal v a)"
    using c(5) by (simp add: b w)
qed

lemma settle_value_keeps:
  assumes "t_vm g = VmEvm" "to_delete v = {}"
  shows "acc_nonce (get_account (settle_value t g success v) a) = acc_nonce (get_account v a)"
    "no_zvm v \<Longrightarrow> no_zvm (settle_value t g success v)" "to_delete (settle_value t g success v) = {}"
    "base_accounts (settle_value t g success v) = base_accounts v" "d_storage (diffs (settle_value t g success v)) = d_storage (diffs v)"
    "d_new_code (diffs (settle_value t g success v)) = d_new_code (diffs v)"
  using assms
  by (cases success; cases "recipient (tx t)"; cases "t_contract_address g";
      simp add: settle_value_def Let_def is_deleted_def set_balance_u128_def nonce_set no_zvm_def)+

lemma settle_keeps:
  assumes "settle t price g outcome v = (r, w)" "t_vm g = VmEvm" "to_delete v = {}"
  shows "acc_nonce (get_account w a) = acc_nonce (get_account v a)" "no_zvm v \<Longrightarrow> no_zvm w" "to_delete w = {}"
    "base_accounts w = base_accounts v" "d_storage (diffs w) = d_storage (diffs v)" "d_new_code (diffs w) = d_new_code (diffs v)"
    "res_effective_price r = price"
proof -
  obtain status used ls where o: "outcome = (status, used, ls)" by (cases outcome) auto
  define v1 where "v1 = credit v (tx_from t) (max_cost_of t - res_gas_used r * price)"
  have w: "w = settle_value t g (res_success r) v1" and r: "res_effective_price r = price"
    using assms(1) by (auto simp: settle_def o Let_def v1_def)
  have v1: "to_delete v1 = {}" using assms(3) by (simp add: v1_def)
  note k = settle_value_keeps[OF assms(2) v1, of t "res_success r", folded w]
  show "acc_nonce (get_account w a) = acc_nonce (get_account v a)" "to_delete w = {}"
    "base_accounts w = base_accounts v" "d_storage (diffs w) = d_storage (diffs v)" "d_new_code (diffs w) = d_new_code (diffs v)"
    "res_effective_price r = price"
    using k r by (simp_all add: v1_def)
  show "no_zvm v \<Longrightarrow> no_zvm w" using k(2) by (simp add: v1_def no_zvm_def)
qed

lemma settle_balance:
  assumes "settle t price g outcome v = (r, w)" "t_callee g = callee_of X t"
    and "t_contract_address g = (case recipient (tx t) of None \<Rightarrow> Some (new_address X t) | Some _ \<Rightarrow> None)"
    and "to_delete v = {}"
    and "bal v (tx_from t) + max_cost_of t + value_of t < 2 ^ 128" "bal v (callee_of X t) + max_cost_of t + value_of t < 2 ^ 128"
  shows "bal w a = bal v a + (if a = tx_from t then max_cost_of t - res_gas_used r * price + (if res_success r then 0 else value_of t) else 0)
      + (if a = callee_of X t \<and> res_success r then value_of t else 0)"
proof -
  obtain status used ls where o: "outcome = (status, used, ls)" by (cases outcome) auto
  define v1 where "v1 = credit v (tx_from t) (max_cost_of t - res_gas_used r * price)"
  have w: "w = settle_value t g (res_success r) v1"
    using assms(1) by (auto simp: settle_def o Let_def v1_def)
  have b1: "bal v1 a = (if a = tx_from t then bal v a + (max_cost_of t - res_gas_used r * price) else bal v a)" for a
    using assms(5) by (auto simp: v1_def)
  have "bal v1 (tx_from t) + value_of t < 2 ^ 128" "bal v1 (callee_of X t) + value_of t < 2 ^ 128" "to_delete v1 = {}"
    using assms(4-6) by (auto simp: b1) (simp add: v1_def)
  then show ?thesis
    unfolding w settle_value_def using assms(3)
    by (auto simp: b1 callee_of_def is_deleted_def set_balance_u128_def Let_def split: option.splits)
qed

text \<open>The transaction's fields fit the Rust types.\<close>

definition tx_fits :: "signed_tx \<Rightarrow> bool" where
  "tx_fits t \<longleftrightarrow> transaction.gas_limit (tx t) < 2 ^ 64"

lemma execute_tx_cases:
  assumes "execute_tx X t h v = Ok (r, w)"
  obtains v1 g v2 outcome v3 where "charge_sender t v = Ok v1" "resolve_target X t v1 = (g, v2)"
    "run_target X t h g v2 = Ok (outcome, v3)" "settle t (effective_gas_price t (base_fee_per_gas h)) g outcome v3 = (r, w)"
proof -
  obtain v1 where c: "charge_sender t v = Ok v1" using assms by (auto simp: execute_tx_def)
  obtain g v2 where g: "resolve_target X t v1 = (g, v2)" by (cases "resolve_target X t v1")
  obtain outcome v3 where "run_target X t h g v2 = Ok (outcome, v3)"
    "settle t (effective_gas_price t (base_fee_per_gas h)) g outcome v3 = (r, w)"
    using assms by (auto simp: execute_tx_def c g split: prod.splits)
  with c g show thesis by (rule that)
qed

lemma execute_tx_keeps:
  assumes "execute_tx X t h v = Ok (r, w)" "no_zvm v" "evm_tx t" "to_delete v = {}"
  shows "nonce (tx t) = acc_nonce (get_account v (tx_from t))"
    "acc_nonce (get_account w a) = (if a = tx_from t then acc_nonce (get_account v a) + 1 else acc_nonce (get_account v a))"
    "no_zvm w" "to_delete w = {}" "base_accounts w = base_accounts v"
    "d_storage (diffs w) = d_storage (diffs v)" "d_new_code (diffs w) = d_new_code (diffs v)"
proof -
  obtain v1 g v2 outcome v3 where c: "charge_sender t v = Ok v1" and g: "resolve_target X t v1 = (g, v2)"
    and o: "run_target X t h g v2 = Ok (outcome, v3)"
    and s: "settle t (effective_gas_price t (base_fee_per_gas h)) g outcome v3 = (r, w)"
    by (rule execute_tx_cases[OF assms(1)])
  note ch = charge_keeps[OF c]
  note rs = resolve_cases[OF g ch(2)[OF assms(2)] assms(3)]
  have v3: "v3 = v2" using run_target_keeps[OF o] rs(2) by simp
  have del: "to_delete v2 = {}" using rs(6) ch(3) assms(4) by auto
  note st = settle_keeps[OF s[unfolded v3] rs(2) del]
  show "nonce (tx t) = acc_nonce (get_account v (tx_from t))" by (rule charge_sender_Ok(1)[OF c])
  show "acc_nonce (get_account w a) = (if a = tx_from t then acc_nonce (get_account v a) + 1 else acc_nonce (get_account v a))"
    by (simp only: st(1) rs(4) ch(1))
  show "no_zvm w" "to_delete w = {}" using st(2)[OF rs(5)] st(3) by simp_all
  show "base_accounts w = base_accounts v" "d_storage (diffs w) = d_storage (diffs v)" "d_new_code (diffs w) = d_new_code (diffs v)"
    by (simp_all add: st(4-6) rs(7-9) ch(4-6))
qed

lemma execute_tx_balance:
  assumes "execute_tx X t h v = Ok (r, w)" "no_zvm v" "evm_tx t" "to_delete v = {}"
    and "bal v (tx_from t) + (if callee_of X t = tx_from t then 0 else bal v (callee_of X t)) < umax 128"
  shows "bal w a + (if a = tx_from t then paid t r + (if res_success r then value_of t else 0) else 0)
       = bal v a + (if a = callee_of X t \<and> res_success r then value_of t else 0)"
proof -
  obtain v1 g v2 outcome v3 where c: "charge_sender t v = Ok v1" and g: "resolve_target X t v1 = (g, v2)"
    and o: "run_target X t h g v2 = Ok (outcome, v3)"
    and s: "settle t (effective_gas_price t (base_fee_per_gas h)) g outcome v3 = (r, w)"
    by (rule execute_tx_cases[OF assms(1)])
  have from_small: "bal v (tx_from t) < umax 128" using assms(5) by simp
  note le = charge_balance(1)[OF c from_small]
  note ch = charge_balance(2)[OF c from_small]
  note rs = resolve_cases[OF g charge_keeps(2)[OF c assms(2)] assms(3)]
  have v3: "v3 = v2" using run_target_keeps[OF o] rs(2) by simp
  have room: "bal v2 (tx_from t) + max_cost_of t + value_of t < 2 ^ 128" "bal v2 (callee_of X t) + max_cost_of t + value_of t < 2 ^ 128"
    using assms(5) le umax_less[of 128] by (auto simp: rs(3) ch split: if_splits)
  have del: "to_delete v2 = {}" using rs(6) charge_keeps(3)[OF c] assms(4) by auto
  show ?thesis
    using le settle_keeps(7)[OF s[unfolded v3] rs(2) del]
    by (auto simp: settle_balance[OF s[unfolded v3] rs(1) rs(10) del room] rs(3) ch paid_def)
qed

lemma execute_tx_gas:
  assumes "execute_tx X t h v = Ok (r, w)"
  shows "res_gas_used r \<le> transaction.gas_limit (tx t)" "tx_fits t \<Longrightarrow> intrinsic_gas (tx t) \<le> res_gas_used r"
    "res_effective_price r = effective_gas_price t (base_fee_per_gas h)"
    "res_contract_address r = (case recipient (tx t) of None \<Rightarrow> Some (new_address X t) | Some _ \<Rightarrow> None)"
proof -
  obtain v1 g v2 outcome v3 where c: "charge_sender t v = Ok v1" and g: "resolve_target X t v1 = (g, v2)"
    and s: "settle t (effective_gas_price t (base_fee_per_gas h)) g outcome v3 = (r, w)"
    by (rule execute_tx_cases[OF assms(1)])
  obtain status used ls where o: "outcome = (status, used, ls)" by (cases outcome) auto
  have r: "res_gas_used r = min (sat_add 64 (intrinsic_gas (tx t)) used) (transaction.gas_limit (tx t))"
    "res_effective_price r = effective_gas_price t (base_fee_per_gas h)" "res_contract_address r = t_contract_address g"
    using s by (auto simp: settle_def o Let_def)
  show "res_gas_used r \<le> transaction.gas_limit (tx t)" "tx_fits t \<Longrightarrow> intrinsic_gas (tx t) \<le> res_gas_used r"
    "res_effective_price r = effective_gas_price t (base_fee_per_gas h)"
    using r charge_sender_Ok(4)[OF c] by (auto simp: tx_fits_def sat_add_def umax_def)
  show "res_contract_address r = (case recipient (tx t) of None \<Rightarrow> Some (new_address X t) | Some _ \<Rightarrow> None)"
    using g r(3) by (auto simp: resolve_target_def Let_def split: option.splits if_splits)
qed

text \<open>
  C14: An executed EVM transaction moves exactly this money: the sender pays the gas it used at the
  effective price, at most the maximum it offered, and if the run succeeds the value, which the
  callee receives; a failed one moves no value. No other balance changes, and only the sender's nonce does.
\<close>

theorem execute_tx_balances:
  assumes "execute_tx X t h v = Ok (r, w)" "no_zvm v" "evm_tx t" "to_delete v = {}"
    and "bal v (tx_from t) + (if callee_of X t = tx_from t then 0 else bal v (callee_of X t)) < umax 128"
  shows "bal w a + (if a = tx_from t then paid t r + (if res_success r then value_of t else 0) else 0)
       = bal v a + (if a = callee_of X t \<and> res_success r then value_of t else 0)
    \<and> acc_nonce (get_account w a) = acc_nonce (get_account v a) + (if a = tx_from t then 1 else 0)"
  using execute_tx_balance[OF assms, of a] execute_tx_keeps(2)[OF assms(1-4), of a] by auto

section \<open>A block\<close>

lemma price_le_max: "base \<le> max_fee_per_gas (tx t) \<Longrightarrow> effective_gas_price t base \<le> max_fee_per_gas (tx t)"
  by (auto simp: effective_gas_price_def Let_def)

lemma price_ge_base: "base \<le> effective_gas_price t base"
  by (simp add: effective_gas_price_def Let_def)

text \<open>What a transaction that used \<open>gas\<close> pays for the base fee, and nobody receives.\<close>

definition base_fee_burned :: "block_header \<Rightarrow> signed_tx \<Rightarrow> u64 \<Rightarrow> u128" where
  "base_fee_burned h t gas = min (max_cost_of t) (base_fee_per_gas h * gas)"

lemma base_fee_burned_exact:
  assumes "base_fee_per_gas h \<le> max_fee_per_gas (tx t)" "gas \<le> transaction.gas_limit (tx t)"
  shows "base_fee_burned h t gas = base_fee_per_gas h * gas"
  using mult_le_mono[OF assms] by (simp add: base_fee_burned_def max_cost_of_def)

lemma paid_split:
  assumes "execute_tx X t h v = Ok (r, w)"
  shows "paid t r = base_fee_burned h t (res_gas_used r) + (res_effective_price r - base_fee_per_gas h) * res_gas_used r"
proof (cases "base_fee_per_gas h \<le> max_fee_per_gas (tx t)")
  case True
  note g = execute_tx_gas[OF assms]
  have "res_gas_used r * res_effective_price r \<le> max_cost_of t"
    using mult_le_mono[OF price_le_max[OF True] g(1)] by (simp add: g(3) max_cost_of_def mult.commute)
  then have "paid t r = res_gas_used r * res_effective_price r" by (simp add: paid_def)
  also have "\<dots> = base_fee_per_gas h * res_gas_used r + (res_effective_price r - base_fee_per_gas h) * res_gas_used r"
    using price_ge_base[of "base_fee_per_gas h" t] by (simp add: g(3) algebra_simps flip: distrib_left)
  finally show ?thesis unfolding base_fee_burned_exact[OF True g(1)] .
next
  case False
  then have "res_effective_price r = base_fee_per_gas h"
    using execute_tx_gas(3)[OF assms] by (simp add: effective_gas_price_def Let_def)
  then show ?thesis by (simp add: paid_def base_fee_burned_def mult.commute)
qed

definition total_supply :: "address set \<Rightarrow> state_view \<Rightarrow> nat" where
  "total_supply A v = (\<Sum>a \<in> A. bal v a)"

lemma supply_credit:
  assumes "finite A" "a \<in> A" "total_supply A v + wei < 2 ^ 128"
  shows "total_supply A (credit v a wei) = total_supply A v + wei"
proof -
  have "bal v a \<le> total_supply A v" unfolding total_supply_def using assms(1,2) by (intro member_le_sum) auto
  then have "bal (credit v a wei) b = bal v b + (if b = a then wei else 0)" for b
    using assms(3) by auto
  then show ?thesis using assms(1,2) by (simp add: total_supply_def sum.distrib)
qed

lemma supply_execute_tx:
  assumes "execute_tx X t h v = Ok (r, w)" "no_zvm v" "evm_tx t" "to_delete v = {}"
    and "finite A" "tx_from t \<in> A" "callee_of X t \<in> A" "total_supply A v < umax 128"
  shows "total_supply A w + paid t r = total_supply A v"
proof -
  have "(\<Sum>a \<in> {tx_from t, callee_of X t}. bal v a) \<le> total_supply A v"
    unfolding total_supply_def using assms(5-7) by (intro sum_mono2) auto
  then have small: "bal v (tx_from t) + (if callee_of X t = tx_from t then 0 else bal v (callee_of X t)) < umax 128"
    using assms(8) by (auto split: if_splits)
  have "(\<Sum>a \<in> A. bal w a + (if a = tx_from t then paid t r + (if res_success r then value_of t else 0) else 0))
      = (\<Sum>a \<in> A. bal v a + (if a = callee_of X t then (if res_success r then value_of t else 0) else 0))"
    using execute_tx_balance[OF assms(1-4) small] by (intro sum.cong) (auto split: if_splits)
  then show ?thesis using assms(5-7) by (simp add: total_supply_def sum.distrib)
qed


lemma supply_paid_validator:
  assumes "execute_tx X t h v = Ok (r, w)" "no_zvm v" "evm_tx t" "to_delete v = {}"
    and "finite A" "{tx_from t, callee_of X t, header_coinbase h} \<subseteq> A" "total_supply A v < umax 128"
  shows "total_supply A (pay_validator h r w) + base_fee_burned h t (res_gas_used r) = total_supply A v"
proof -
  note p = paid_split[OF assms(1)] and s = supply_execute_tx[OF assms(1-4,5) _ _ assms(7)]
  have "total_supply A w + paid t r = total_supply A v" using s assms(6) by simp
  moreover from this have "total_supply A w + (res_effective_price r - base_fee_per_gas h) * res_gas_used r < 2 ^ 128"
    using assms(7) p umax_less[of 128] by simp
  ultimately show ?thesis
    using assms(5,6) p by (simp add: pay_validator_def supply_credit)
qed

lemma pay_validator_keeps:
  "to_delete w = {} \<Longrightarrow> to_delete (pay_validator h r w) = {}" "no_zvm w \<Longrightarrow> no_zvm (pay_validator h r w)"
  "acc_nonce (get_account (pay_validator h r w) a) = acc_nonce (get_account w a)"
  "base_accounts (pay_validator h r w) = base_accounts w" "d_storage (diffs (pay_validator h r w)) = d_storage (diffs w)"
  "d_new_code (diffs (pay_validator h r w)) = d_new_code (diffs w)"
  by (simp_all add: pay_validator_def no_zvm_def)

lemma execute_txs_keeps:
  assumes "execute_txs X b idx cumulative ts v = Ok (rs, gas, w)" "no_zvm v" "list_all evm_tx ts" "to_delete v = {}"
  shows "no_zvm w \<and> to_delete w = {} \<and> base_accounts w = base_accounts v \<and> d_storage (diffs w) = d_storage (diffs v)
    \<and> d_new_code (diffs w) = d_new_code (diffs v)"
  using assms
proof (induction ts arbitrary: idx cumulative v rs)
  case (Cons t ts)
  obtain r v1 rs' where e: "execute_tx X t (header b) v = Ok (r, v1)"
    and es: "execute_txs X b (idx + 1) (wrap_add 64 cumulative (res_gas_used r)) ts (pay_validator (header b) r v1) = Ok (rs', gas, w)"
    using Cons.prems(1) by (auto simp: Let_def)
  note k = execute_tx_keeps[OF e Cons.prems(2) _ Cons.prems(4)]
  have "evm_tx t" "list_all evm_tx ts" using Cons.prems(3) by simp_all
  with Cons.IH[OF es] k show ?case by (simp add: pay_validator_keeps)
qed simp

lemma execute_txs_nonces:
  assumes "execute_txs X b idx cumulative ts v = Ok (rs, gas, w)" "no_zvm v" "list_all evm_tx ts" "to_delete v = {}"
  shows "map (\<lambda>t. nonce (tx t)) (filter (\<lambda>t. tx_from t = a) ts) = [acc_nonce (get_account v a) ..< acc_nonce (get_account w a)]
    \<and> acc_nonce (get_account v a) \<le> acc_nonce (get_account w a)"
  using assms
proof (induction ts arbitrary: idx cumulative v rs)
  case (Cons t ts)
  obtain r v1 rs' where e: "execute_tx X t (header b) v = Ok (r, v1)"
    and es: "execute_txs X b (idx + 1) (wrap_add 64 cumulative (res_gas_used r)) ts (pay_validator (header b) r v1) = Ok (rs', gas, w)"
    using Cons.prems(1) by (auto simp: Let_def)
  have et: "evm_tx t" "list_all evm_tx ts" using Cons.prems(3) by simp_all
  note k = execute_tx_keeps[OF e Cons.prems(2) et(1) Cons.prems(4)]
  have "map (\<lambda>t. nonce (tx t)) (filter (\<lambda>t. tx_from t = a) ts) = [acc_nonce (get_account v1 a) ..< acc_nonce (get_account w a)]
    \<and> acc_nonce (get_account v1 a) \<le> acc_nonce (get_account w a)"
    using Cons.IH[OF es _ et(2)] k by (simp add: pay_validator_keeps)
  then show ?case by (auto simp: k(1,2) upt_conv_Cons)
qed simp

definition block_burned :: "block_header \<Rightarrow> signed_tx list \<Rightarrow> receipt list \<Rightarrow> nat" where
  "block_burned h ts rs = sum_list (map2 (\<lambda>t r. base_fee_burned h t (r_gas_used r)) ts rs)"

lemma execute_txs_supply:
  assumes "execute_txs X b idx cumulative ts v = Ok (rs, gas, w)" "no_zvm v" "list_all evm_tx ts" "to_delete v = {}"
    and "finite A" "header_coinbase (header b) \<in> A" "\<forall>t \<in> set ts. {tx_from t, callee_of X t} \<subseteq> A" "total_supply A v < umax 128"
  shows "total_supply A w + block_burned (header b) ts rs = total_supply A v"
  using assms
proof (induction ts arbitrary: idx cumulative v rs)
  case (Cons t ts)
  obtain r v1 rs' rc where e: "execute_tx X t (header b) v = Ok (r, v1)"
    and es: "execute_txs X b (idx + 1) (wrap_add 64 cumulative (res_gas_used r)) ts (pay_validator (header b) r v1) = Ok (rs', gas, w)"
    and rs: "rs = rc # rs'" "r_gas_used rc = res_gas_used r"
    using Cons.prems(1) by (auto simp: Let_def receipt_of_def)
  have et: "evm_tx t" "list_all evm_tx ts" using Cons.prems(3) by simp_all
  note k = execute_tx_keeps[OF e Cons.prems(2) et(1) Cons.prems(4)]
  have s: "total_supply A (pay_validator (header b) r v1) + base_fee_burned (header b) t (res_gas_used r) = total_supply A v"
    using Cons.prems by (intro supply_paid_validator[OF e]) auto
  have "total_supply A w + block_burned (header b) ts rs' = total_supply A (pay_validator (header b) r v1)"
    using Cons.prems et s k by (intro Cons.IH[OF es]) (auto simp: pay_validator_keeps)
  then show ?case using s by (simp add: rs block_burned_def)
qed (simp add: block_burned_def)

lemma execute_txs_burned:
  assumes "execute_txs X b idx cumulative ts v = Ok (rs, gas, w)"
    and "list_all (\<lambda>t. base_fee_per_gas (header b) \<le> max_fee_per_gas (tx t)) ts"
  shows "block_burned (header b) ts rs = base_fee_per_gas (header b) * sum_list (map r_gas_used rs)"
  using assms
proof (induction ts arbitrary: idx cumulative v rs)
  case (Cons t ts)
  obtain r v1 rs' rc where e: "execute_tx X t (header b) v = Ok (r, v1)"
    and es: "execute_txs X b (idx + 1) (wrap_add 64 cumulative (res_gas_used r)) ts (pay_validator (header b) r v1) = Ok (rs', gas, w)"
    and rs: "rs = rc # rs'" "r_gas_used rc = res_gas_used r"
    using Cons.prems(1) by (auto simp: Let_def receipt_of_def)
  have "base_fee_burned (header b) t (res_gas_used r) = base_fee_per_gas (header b) * res_gas_used r"
    using Cons.prems(2) execute_tx_gas(1)[OF e] by (intro base_fee_burned_exact) simp_all
  then show ?case using Cons.IH[OF es] Cons.prems(2) by (simp add: rs block_burned_def distrib_left)
qed (simp add: block_burned_def)

lemma execute_block_cases:
  assumes "execute_block X b v = Ok er"
  obtains gas w where "execute_txs X b 0 0 (transactions (body b)) v = Ok (er_receipts er, gas, w)"
    "er_gas_used er = gas" "er_state_diff er = diffs (pay_reward b w)"
    "er_logs_bloom er = aggregate_block_bloom (er_receipts er)"
    "er_receipts_root er = compute_receipts_root (x_keccak X) (er_receipts er)" "header_gas_limit (header b) \<le> BLOCK_GAS_LIMIT"
proof -
  obtain rs gas w where es: "execute_txs X b 0 0 (transactions (body b)) v = Ok (rs, gas, w)"
    and l: "header_gas_limit (header b) \<le> BLOCK_GAS_LIMIT"
    using assms by (auto simp: execute_block_def split: if_splits)
  obtain root where root: "x_state_root X (pay_reward b w) = Ok root"
    using assms l es by (cases "x_state_root X (pay_reward b w)") (auto simp: execute_block_def Let_def)
  have "er = \<lparr>er_receipts = rs, er_state_diff = diffs (pay_reward b w), er_gas_used = gas, er_state_root = root,
      er_transactions_root = x_tx_root X (transactions (body b)), er_receipts_root = compute_receipts_root (x_keccak X) rs,
      er_logs_bloom = aggregate_block_bloom rs\<rparr>"
    using assms l es root by (auto simp: execute_block_def Let_def)
  then show thesis using es l by (intro that[of gas w]) simp_all
qed

lemma pay_reward_keeps:
  "to_delete w = {} \<Longrightarrow> to_delete (pay_reward b w) = {}" "acc_nonce (get_account (pay_reward b w) a) = acc_nonce (get_account w a)"
  "base_accounts (pay_reward b w) = base_accounts w" "d_storage (diffs (pay_reward b w)) = d_storage (diffs w)"
  "d_new_code (diffs (pay_reward b w)) = d_new_code (diffs w)"
  by (simp_all add: pay_reward_def Let_def)

text \<open>Reading the accounts of a block's diff over the base it was executed on.\<close>

lemma get_committed:
  assumes "to_delete w = {}" "to_delete v = {}" "base_accounts w = base_accounts v"
  shows "get_account (v\<lparr>diffs := diffs w\<rparr>) a = get_account w a"
  using assms by (simp add: get_account_def prior_account_def split: option.split)

text \<open>
  C12: Executing a block of EVM transactions, over a state without ZVM accounts and pending deletions, whose supply and reward fit 128 bits,
  creates the block reward and destroys for each transaction the base fee of its gas, at most what it offered; every other wei
  an account loses is gained by another. Where no transaction offers less than the base fee, which
  the code does not check, that is the base fee of the gas used.
\<close>

theorem block_conserves_supply:
  assumes "execute_block X b v = Ok er" "no_zvm v" "list_all evm_tx (transactions (body b))" "to_delete v = {}"
    and "finite A" "header_coinbase (header b) \<in> A" "\<forall>t \<in> set (transactions (body b)). {tx_from t, callee_of X t} \<subseteq> A"
    and "total_supply A v + block_reward_at (number_of_block b) < umax 128"
  shows "total_supply A (v\<lparr>diffs := er_state_diff er\<rparr>) + block_burned (header b) (transactions (body b)) (er_receipts er)
    = total_supply A v + block_reward_at (number_of_block b)
    \<and> (list_all (\<lambda>t. base_fee_per_gas (header b) \<le> max_fee_per_gas (tx t)) (transactions (body b)) \<longrightarrow>
        total_supply A (v\<lparr>diffs := er_state_diff er\<rparr>) + base_fee_per_gas (header b) * sum_list (map r_gas_used (er_receipts er))
        = total_supply A v + block_reward_at (number_of_block b))"
proof -
  obtain gas w where es: "execute_txs X b 0 0 (transactions (body b)) v = Ok (er_receipts er, gas, w)"
    and d: "er_state_diff er = diffs (pay_reward b w)" by (rule execute_block_cases[OF assms(1)])
  note k = execute_txs_keeps[OF es assms(2-4)]
  have s: "total_supply A w + block_burned (header b) (transactions (body b)) (er_receipts er) = total_supply A v"
    using assms(8) by (intro execute_txs_supply[OF es assms(2-7)]) simp
  have "total_supply A (pay_reward b w) = total_supply A w + block_reward_at (number_of_block b)"
    using s assms(5,6,8) umax_less[of 128] by (simp add: pay_reward_def Let_def supply_credit)
  moreover have "total_supply A (v\<lparr>diffs := er_state_diff er\<rparr>) = total_supply A (pay_reward b w)"
    using k assms(4) by (simp add: total_supply_def d get_committed pay_reward_keeps)
  ultimately show ?thesis using s execute_txs_burned[OF es] by (intro conjI impI) simp_all
qed

text \<open>
  C13: A block of EVM transactions whose execution succeeds, over a state without ZVM accounts and without pending deletions, holds, for every sender, the transactions with the consecutive
  nonces from the account's nonce on, in order; the account's nonce becomes the next one, so that none
  of them executes again.
\<close>

theorem block_no_replay:
  assumes "execute_block X b v = Ok er" "no_zvm v" "list_all evm_tx (transactions (body b))" "to_delete v = {}"
  shows "map (\<lambda>t. nonce (tx t)) (filter (\<lambda>t. tx_from t = a) (transactions (body b)))
      = [acc_nonce (get_account v a) ..< acc_nonce (get_account (v\<lparr>diffs := er_state_diff er\<rparr>) a)]
    \<and> acc_nonce (get_account v a) \<le> acc_nonce (get_account (v\<lparr>diffs := er_state_diff er\<rparr>) a)"
proof -
  obtain gas w where es: "execute_txs X b 0 0 (transactions (body b)) v = Ok (er_receipts er, gas, w)"
    and d: "er_state_diff er = diffs (pay_reward b w)" by (rule execute_block_cases[OF assms(1)])
  have "acc_nonce (get_account (v\<lparr>diffs := er_state_diff er\<rparr>) a) = acc_nonce (get_account w a)"
    using execute_txs_keeps[OF es assms(2-4)] assms(4) by (simp add: d get_committed pay_reward_keeps)
  then show ?thesis using execute_txs_nonces[OF es assms(2-4)] by simp
qed

section \<open>Receipts\<close>

text \<open>One receipt per transaction, in order.\<close>

definition receipt_matches :: "exec_env \<Rightarrow> block \<Rightarrow> usize \<Rightarrow> signed_tx \<Rightarrow> receipt \<Rightarrow> bool" where
  "receipt_matches X b i t r \<longleftrightarrow> r_transaction_hash r = tx_hash t \<and> r_transaction_index r = cast 32 i \<and> r_from r = tx_from t
     \<and> r_block_hash r = hash_of_block (x_keccak X) b \<and> r_gas_used r \<le> transaction.gas_limit (tx t)
     \<and> (tx_fits t \<longrightarrow> intrinsic_gas (tx t) \<le> r_gas_used r)
     \<and> r_logs_bloom r = compute_receipt_bloom (x_keccak X) (r_logs r)"

lemma execute_txs_receipts:
  "execute_txs X b idx cumulative ts v = Ok (rs, gas, w) \<Longrightarrow> length rs = length ts
    \<and> (\<forall>i < length ts. receipt_matches X b (idx + i) (ts ! i) (rs ! i)
         \<and> r_cumulative_gas_used (rs ! i) = (cumulative + sum_list (map r_gas_used (take (i + 1) rs))) mod 2 ^ 64)
    \<and> gas mod 2 ^ 64 = (cumulative + sum_list (map r_gas_used rs)) mod 2 ^ 64 \<and> (cumulative < 2 ^ 64 \<longrightarrow> gas < 2 ^ 64)"
proof (induction ts arbitrary: idx cumulative v rs)
  case (Cons t ts)
  define cum where "cum (r :: tx_result) = wrap_add 64 cumulative (res_gas_used r)" for r
  obtain r v1 rs' where e: "execute_tx X t (header b) v = Ok (r, v1)"
    and es: "execute_txs X b (idx + 1) (cum r) ts (pay_validator (header b) r v1) = Ok (rs', gas, w)"
    and rs: "rs = receipt_of X b idx t (cum r) r # rs'"
    using Cons.prems by (auto simp: Let_def cum_def)
  have m: "receipt_matches X b idx t (receipt_of X b idx t (cum r) r)"
    using execute_tx_gas[OF e] by (simp add: receipt_matches_def receipt_of_def)
  have c: "cum r mod 2 ^ 64 = (cumulative + res_gas_used r) mod 2 ^ 64" "cum r < 2 ^ 64" by (simp_all add: cum_def wrap_add_def)
  have add: "(cum r + n) mod 2 ^ 64 = (cumulative + (res_gas_used r + n)) mod 2 ^ 64" for n
    unfolding cum_def wrap_add_def by (simp add: mod_simps add.assoc)
  have g: "r_gas_used (receipt_of X b idx t c r) = res_gas_used r" "r_cumulative_gas_used (receipt_of X b idx t c r) = c" for c
    by (simp_all add: receipt_of_def)
  have "receipt_matches X b (idx + i) ((t # ts) ! i) (rs ! i)
      \<and> r_cumulative_gas_used (rs ! i) = (cumulative + sum_list (map r_gas_used (take (i + 1) rs))) mod 2 ^ 64"
    if "i < length (t # ts)" for i
    using that Cons.IH[OF es] m c add by (cases i) (auto simp: rs g cum_def wrap_add_def)
  then show ?case using Cons.IH[OF es] c add by (auto simp: rs g)
qed simp

text \<open>
  C15: The result of a block has one receipt per transaction, in order, each with its index, hash and sender, gas
  between the intrinsic gas and the transaction's limit, and the running total of gas; the
  reported gas is the total, and the block's bloom is the bloom of all logs of all receipts.
\<close>

theorem block_result_faithful:
  assumes "execute_block X b v = Ok er" "sum_list (map (\<lambda>t. transaction.gas_limit (tx t)) (transactions (body b))) < 2 ^ 64"
  shows "list_all2 (\<lambda>(i, t). receipt_matches X b i t) (enumerate 0 (transactions (body b))) (er_receipts er)
    \<and> (\<forall>i < length (er_receipts er). r_cumulative_gas_used (er_receipts er ! i) = sum_list (map r_gas_used (take (i + 1) (er_receipts er))))
    \<and> er_gas_used er = sum_list (map r_gas_used (er_receipts er))
    \<and> er_logs_bloom er = compute_receipt_bloom (x_keccak X) (concat (map r_logs (er_receipts er)))"
proof -
  obtain gas w where es: "execute_txs X b 0 0 (transactions (body b)) v = Ok (er_receipts er, gas, w)"
    and e: "er_gas_used er = gas" "er_logs_bloom er = aggregate_block_bloom (er_receipts er)" by (rule execute_block_cases[OF assms(1)])
  note r = execute_txs_receipts[OF es]
  have all: "list_all2 (\<lambda>(i, t). receipt_matches X b i t) (enumerate 0 (transactions (body b))) (er_receipts er)"
    using r by (auto simp: list_all2_conv_all_nth nth_enumerate_eq)
  have le: "sum_list (map r_gas_used (take n (er_receipts er))) \<le> sum_list (map (\<lambda>t. transaction.gas_limit (tx t)) (transactions (body b)))" for n
  proof -
    have "sum_list (map r_gas_used (er_receipts er)) \<le> sum_list (map (\<lambda>t. transaction.gas_limit (tx t)) (transactions (body b)))"
      using r by (intro sum_list_mono2) (auto simp: receipt_matches_def)
    moreover have "sum_list (map r_gas_used (er_receipts er)) = sum_list (map r_gas_used (take n (er_receipts er))) + sum_list (map r_gas_used (drop n (er_receipts er)))"
      by (metis append_take_drop_id map_append sum_list_append)
    ultimately show ?thesis by simp
  qed
  have small: "sum_list (map r_gas_used (take n (er_receipts er))) mod 2 ^ 64 = sum_list (map r_gas_used (take n (er_receipts er)))" for n
    using le[of n] assms(2) by simp
  have "list_all (\<lambda>x. r_logs_bloom x = compute_receipt_bloom (x_keccak X) (r_logs x)) (er_receipts er)"
    using r by (auto simp: list_all_length receipt_matches_def)
  then show ?thesis
    using all r small small[of "length (er_receipts er)"] aggregate_receipt_blooms by (auto simp: e)
qed


section \<open>A worked block\<close>

definition sample_env :: exec_env where
  "sample_env = \<lparr>x_keccak = (\<lambda>_. 0), x_sub_precompile = (\<lambda>_ _ _ _ _. None), x_precompile = (\<lambda>_ _ _. Err OutOfGas),
     x_zvm = (\<lambda>_ _ _ v. \<lparr>zo_status = ZvmSuccess, zo_gas_used = 0, zo_pending_destructs = [], zo_created_this_tx = {}, zo_view = v\<rparr>),
     x_state_root = (\<lambda>_. Ok 0), x_tx_root = (\<lambda>_. 0)\<rparr>"

text \<open>Account 1 sends 5 wei to account 0x77, twice in a row, at a base fee of 10^9.\<close>

definition transfer_tx :: "u64 \<Rightarrow> u64 \<Rightarrow> signed_tx" where
  "transfer_tx n fee = \<lparr>tx = \<lparr>tx_kind = DynamicFee, nonce = n, max_priority_fee_per_gas = 3, max_fee_per_gas = fee, gas_limit = 30000,
      recipient = Some 0x77, tx_value = 5, tx_data = [], access_list = [], chain_id = 8989\<rparr>,
     sig = \<lparr>sig_v = 0, sig_r = 0, sig_s = 0\<rparr>, tx_from = 1, tx_hash = of_nat n\<rparr>"

definition transfer_block :: "signed_tx list \<Rightarrow> block" where
  "transfer_block ts = \<lparr>header = (header (genesis 7 1700000000))\<lparr>header_coinbase := 9, number := 1\<rparr>,
     body = \<lparr>transactions = ts, uncles = []\<rparr>\<rparr>"

definition funded_view :: "nat \<Rightarrow> state_view" where
  "funded_view wei = seed_account view_new 1 (default_account_state\<lparr>acc_balance := wei\<rparr>)"

lemma funded_account: "get_account (funded_view wei) a = (if a = 1 then default_account_state\<lparr>acc_balance := wei\<rparr> else default_account_state)"
  by (simp add: funded_view_def seed_account_def view_new_def state_diff_new_def get_account_def prior_account_def)

lemma funded_ok: "no_zvm (funded_view wei)" "to_delete (funded_view wei) = {}"
  by (simp add: no_zvm_def funded_account default_account_state_def)
     (simp add: funded_view_def seed_account_def view_new_def)

lemma not_precompile: "\<not> is_precompile 0x77"
proof -
  have "be_bytes 20 119 = be_bytes 19 0 @ [119]" using be_bytes.simps(2)[of 19 119] by simp
  then show ?thesis by (simp add: is_precompile_def addr_bytes_def nth_append word_le_nat_alt)
qed

text \<open>A transfer to an account without code succeeds and costs the intrinsic gas.\<close>

lemma execute_transfer:
  assumes "acc_nonce (get_account v 1) = n" "n < 100" "30000 * fee + 5 \<le> bal v 1" "bal v 1 < 2 ^ 100" "is_eoa (get_account v 0x77)" "fee < 2 ^ 64"
  shows "\<exists>w. execute_tx X (transfer_tx n fee) h v = Ok (\<lparr>res_gas_used = 21000,
      res_effective_price = effective_gas_price (transfer_tx n fee) (base_fee_per_gas h), res_success = True, res_logs = [], res_contract_address = None\<rparr>, w)
      \<and> is_eoa (get_account w 0x77)"
proof -
  have i: "intrinsic_gas (tx (transfer_tx n fee)) = 21000" by (simp add: intrinsic_gas_def transfer_tx_def)
  have b: "balance_u128 (get_account v 1) = bal v 1" using assms(4) by simp
  have c: "\<exists>v1. charge_sender (transfer_tx n fee) v = Ok v1 \<and> is_eoa (get_account v1 0x77)"
    using assms i b by (simp add: charge_sender_def transfer_tx_def Let_def max_cost_of_def value_of_def increment_nonce_def
        ok_or_def checked_add_def set_balance_u128_def)
  then obtain v1 where "charge_sender (transfer_tx n fee) v = Ok v1" "is_eoa (get_account v1 0x77)" by blast
  then show ?thesis
    using not_precompile i
    by (simp add: execute_tx_def resolve_target_def run_target_def settle_def settle_value_def Let_def is_contract_def transfer_tx_def
        is_eoa_def)
qed

definition two_transfers :: block where
  "two_transfers = transfer_block [transfer_tx 0 1000000007, transfer_tx 1 1000000007]"

lemma two_transfers_run: "\<exists>er. execute_block sample_env two_transfers (funded_view (10 ^ 15)) = Ok er"
proof -
  let ?v = "funded_view (10 ^ 15)" and ?t = "\<lambda>n. transfer_tx n 1000000007" and ?h = "header two_transfers"
  have h: "?h = header (transfer_block [])" "transactions (body two_transfers) = [?t 0, ?t 1]"
    by (simp_all add: two_transfers_def transfer_block_def)
  have c: "callee_of sample_env (?t n) = 0x77" "evm_tx (?t n)" "tx_from (?t n) = 1" for n
    by (simp_all add: callee_of_def evm_tx_def transfer_tx_def)
  obtain r w where e: "execute_tx sample_env (?t 0) ?h ?v = Ok (r, w)" and w: "is_eoa (get_account w 0x77)"
    and r: "res_gas_used r = 21000" "res_effective_price r = effective_gas_price (?t 0) (base_fee_per_gas ?h)" "res_success r"
    using execute_transfer[of ?v 0 1000000007 sample_env ?h] by (auto simp: funded_account default_account_state_def is_eoa_def)
  have price: "effective_gas_price (?t 0) (base_fee_per_gas ?h) = 1000000003"
    by (simp add: effective_gas_price_def h transfer_block_def genesis_def transfer_tx_def)
  have rp: "res_effective_price r = 1000000003" using r(2) unfolding price .
  have paid: "paid (?t 0) r = 21000 * 1000000003" unfolding paid_def r(1) rp by (simp add: max_cost_of_def transfer_tx_def)
  have "bal ?v (tx_from (?t 0)) + (if callee_of sample_env (?t 0) = tx_from (?t 0) then 0 else bal ?v (callee_of sample_env (?t 0))) < umax 128"
    by (simp add: c funded_account default_account_state_def umax_def)
  note b = execute_tx_balance[OF e funded_ok(1) c(2) funded_ok(2) this, of 1]
  note k = execute_tx_keeps[OF e funded_ok(1) c(2) funded_ok(2)]
  have vt: "value_of (?t 0) = 5" by (simp add: value_of_def transfer_tx_def)
  have bw: "bal w 1 = 10 ^ 15 - 21000 * 1000000003 - 5"
    using b by (simp add: c paid r(3) vt funded_account default_account_state_def)
  let ?w = "pay_validator ?h r w"
  have cb: "header_coinbase ?h = 9" by (simp add: h transfer_block_def)
  have "acc_nonce (get_account ?w 1) = 1"
    using k(2)[of 1] by (simp add: pay_validator_keeps c funded_account default_account_state_def)
  moreover have "bal ?w 1 = 10 ^ 15 - 21000 * 1000000003 - 5" "is_eoa (get_account ?w 0x77)"
    using bw w by (simp_all add: pay_validator_def cb is_eoa_def)
  ultimately obtain w2 r2 where "execute_tx sample_env (?t 1) ?h ?w = Ok (r2, w2)"
    using execute_transfer[of ?w 1 1000000007 sample_env ?h] by auto
  then show ?thesis
    using e by (auto simp: execute_block_def h Let_def) (simp_all add: sample_env_def two_transfers_def transfer_block_def genesis_def)
qed


lemma execute_tx_balances_witness:
  "\<exists>r w. execute_tx sample_env (transfer_tx 0 1000000007) (header two_transfers) (funded_view (10 ^ 15)) = Ok (r, w)
    \<and> bal w 1 + (paid (transfer_tx 0 1000000007) r + 5) = 10 ^ 15 \<and> acc_nonce (get_account w 1) = 1"
proof -
  let ?t = "transfer_tx 0 1000000007" and ?v = "funded_view (10 ^ 15)"
  have c: "callee_of sample_env ?t = 0x77" "evm_tx ?t" "tx_from ?t = 1" "value_of ?t = 5"
    by (simp_all add: callee_of_def evm_tx_def transfer_tx_def value_of_def)
  obtain r w where e: "execute_tx sample_env ?t (header two_transfers) ?v = Ok (r, w)" "res_success r"
    using execute_transfer[of ?v 0 1000000007 sample_env "header two_transfers"] by (auto simp: funded_account default_account_state_def is_eoa_def)
  have "bal ?v (tx_from ?t) + (if callee_of sample_env ?t = tx_from ?t then 0 else bal ?v (callee_of sample_env ?t)) < umax 128"
    by (simp add: c funded_account default_account_state_def umax_def)
  from execute_tx_balances[OF e(1) funded_ok(1) c(2) funded_ok(2) this, of 1] e show ?thesis
    by (auto simp: c funded_account default_account_state_def)
qed

lemma two_transfers_txs: "list_all evm_tx (transactions (body two_transfers))"
  "list_all (\<lambda>t. base_fee_per_gas (header two_transfers) \<le> max_fee_per_gas (tx t)) (transactions (body two_transfers))"
  "\<forall>t \<in> set (transactions (body two_transfers)). {tx_from t, callee_of X t} \<subseteq> {1, 9, 0x77}"
  "sum_list (map (\<lambda>t. transaction.gas_limit (tx t)) (transactions (body two_transfers))) < 2 ^ 64"
  by (simp_all add: two_transfers_def transfer_block_def transfer_tx_def evm_tx_def genesis_def callee_of_def)

lemma block_conserves_supply_witness:
  "\<exists>er. execute_block sample_env two_transfers (funded_view (10 ^ 15)) = Ok er
    \<and> total_supply {1, 9, 0x77} ((funded_view (10 ^ 15))\<lparr>diffs := er_state_diff er\<rparr>)
        + base_fee_per_gas (header two_transfers) * sum_list (map r_gas_used (er_receipts er)) = 10 ^ 15 + 2 * 10 ^ 18"
proof -
  obtain er where e: "execute_block sample_env two_transfers (funded_view (10 ^ 15)) = Ok er" using two_transfers_run by blast
  have r: "block_reward_at (number_of_block two_transfers) = 2 * 10 ^ 18"
    by (simp add: block_reward_at_def number_of_block_def two_transfers_def transfer_block_def HALVING_INTERVAL_def INITIAL_BLOCK_REWARD_def)
  have s: "total_supply {1, 9, 0x77} (funded_view (10 ^ 15)) = 10 ^ 15"
    by (simp add: total_supply_def funded_account default_account_state_def)
  have "header_coinbase (header two_transfers) \<in> {1, 9, 0x77}" by (simp add: two_transfers_def transfer_block_def)
  from block_conserves_supply[OF e funded_ok(1) two_transfers_txs(1) funded_ok(2) _ this two_transfers_txs(3)]
  show ?thesis using e two_transfers_txs(2) by (auto simp: r s[simplified] umax_def)
qed

lemma block_no_replay_witness:
  "\<exists>er. execute_block sample_env two_transfers (funded_view (10 ^ 15)) = Ok er
    \<and> [0, 1] = [0 ..< acc_nonce (get_account ((funded_view (10 ^ 15))\<lparr>diffs := er_state_diff er\<rparr>) 1)]"
proof -
  obtain er where e: "execute_block sample_env two_transfers (funded_view (10 ^ 15)) = Ok er" using two_transfers_run by blast
  have "map (\<lambda>t. nonce (tx t)) (filter (\<lambda>t. tx_from t = 1) (transactions (body two_transfers))) = [0, 1]"
    by (simp add: two_transfers_def transfer_block_def transfer_tx_def)
  with block_no_replay[OF e funded_ok(1) two_transfers_txs(1) funded_ok(2), of 1] e show ?thesis
    by (auto simp: funded_account default_account_state_def)
qed

lemma block_result_faithful_witness:
  "\<exists>er. execute_block sample_env two_transfers (funded_view (10 ^ 15)) = Ok er
    \<and> er_gas_used er = sum_list (map r_gas_used (er_receipts er))"
proof -
  obtain er where e: "execute_block sample_env two_transfers (funded_view (10 ^ 15)) = Ok er" using two_transfers_run by blast
  from block_result_faithful[OF e two_transfers_txs(4)] e show ?thesis by blast
qed

section \<open>What a block leaves behind, and what it does not check\<close>

text \<open>
  The EVM runs on a host of its own that is dropped with the run, and deployed code goes to the view's cache:
  of a block of EVM transactions the diff holds no storage and no code.
\<close>

lemma evm_block_keeps_no_storage:
  assumes "execute_block X b v = Ok er" "no_zvm v" "list_all evm_tx (transactions (body b))" "to_delete v = {}"
  shows "d_storage (er_state_diff er) = d_storage (diffs v) \<and> d_new_code (er_state_diff er) = d_new_code (diffs v)"
proof -
  obtain gas w where es: "execute_txs X b 0 0 (transactions (body b)) v = Ok (er_receipts er, gas, w)"
    and d: "er_state_diff er = diffs (pay_reward b w)" by (rule execute_block_cases[OF assms(1)])
  show ?thesis using execute_txs_keeps[OF es assms(2-4)] by (simp add: d pay_reward_keeps)
qed

text \<open>
  Nothing compares the maximum fee with the base fee: at any base fee a transaction that offers nothing
  executes, for a sender that owns nothing, and pays nothing.
\<close>

definition free_tx :: signed_tx where
  "free_tx = (transfer_tx 0 0)\<lparr>tx := (tx (transfer_tx 0 0))\<lparr>tx_value := 0\<rparr>\<rparr>"

lemma free_transaction_executes:
  "\<exists>r w. execute_tx X free_tx h view_new = Ok (r, w) \<and> res_success r \<and> res_gas_used r = 21000 \<and> paid free_tx r = 0"
proof -
  have z: "get_account view_new a = default_account_state" for a
    by (simp add: view_new_def state_diff_new_def get_account_def prior_account_def)
  have i: "intrinsic_gas (tx free_tx) = 21000" by (simp add: intrinsic_gas_def free_tx_def transfer_tx_def)
  have "\<exists>v1. charge_sender free_tx view_new = Ok v1 \<and> is_eoa (get_account v1 0x77)"
    using i by (simp add: charge_sender_def free_tx_def transfer_tx_def Let_def max_cost_of_def value_of_def increment_nonce_def
        ok_or_def checked_add_def set_balance_u128_def z default_account_state_def is_eoa_def)
  then obtain v1 where "charge_sender free_tx view_new = Ok v1" "is_eoa (get_account v1 0x77)" by blast
  then show ?thesis
    using not_precompile i
    by (simp add: execute_tx_def resolve_target_def run_target_def settle_def settle_value_def Let_def is_contract_def free_tx_def
        transfer_tx_def is_eoa_def paid_def max_cost_of_def)
qed

text \<open>The block's own gas limit is only compared with the protocol's: a block with a limit of 0 executes.\<close>

lemma gas_limit_not_enforced:
  assumes "execute_tx X t (header b) v = Ok (r, w)" "header_gas_limit (header b) = 0" "transactions (body b) = [t]"
    and "\<And>u. x_state_root X u = Ok 0"
  shows "\<exists>er. execute_block X b v = Ok er \<and> er_gas_used er = res_gas_used r mod 2 ^ 64"
  using assms by (simp add: execute_block_def Let_def wrap_add_def)

end
