(* ===== verification/State_Root.thy ===== *)
theory State_Root
  imports Trie_Correct Executor
begin

text \<open>
  The world-state root, \<^verbatim>\<open>zbx-state/src/mpt.rs\<close>: storage tries, the RLP of an account, and the account trie,
  in memory and over a node store. A hash map is the list of its entries in the order it is iterated; the hash
  is a parameter. The lemmas show that the order does not matter, what the root determines, and that
  the two variants agree on fresh storage.
\<close>

section \<open>Encoding accounts and slots\<close>

definition u64_min_be :: "u64 \<Rightarrow> byte list" where
  "u64_min_be n = (if n = 0 then [] else let bytes = be_bytes 8 n in drop (length (takeWhile (\<lambda>b. b = 0) bytes)) bytes)"

definition strip_leading_zeros :: "byte list \<Rightarrow> byte list" where
  "strip_leading_zeros b = drop (length (takeWhile (\<lambda>x. x = 0) b)) b"

definition encode_account_rlp :: "account_state \<Rightarrow> h256 \<Rightarrow> ('e, byte list) res" where
  "encode_account_rlp state storage_root =
     (let zvm = (acc_vm state = VmZvm);
          s0 = begin_list rlp_new (if zvm then 5 else 4);
          s1 = append_item s0 (u64_min_be (acc_nonce state));
          s2 = append_item s1 (strip_leading_zeros (be_bytes 32 (acc_balance state)));
          s3 = append_item s2 (h256_bytes storage_root);
          s4 = append_item s3 (h256_bytes (acc_code_hash state));
          s5 = (if zvm then append_item s4 [1] else s4)
      in rlp_out s5)"

definition slot_value :: "h256 \<Rightarrow> ('e, byte list) res" where
  "slot_value value = rlp_out (append_item rlp_new (strip_leading_zeros (h256_bytes value)))"

section \<open>Roots in memory\<close>

type_synonym slots = "(h256 \<times> h256) list"

text \<open>An error of an insertion is unwrapped with \<open>expect\<close>.\<close>

definition expect_insert :: "(byte list \<Rightarrow> h256) \<Rightarrow> trie \<Rightarrow> byte list \<Rightarrow> byte list \<Rightarrow> (trie_error, trie) res option" where
  "expect_insert K t key value =
     Option.bind (trie_insert K t key value) (\<lambda>(r, t1). Some (case r of Ok _ \<Rightarrow> Ok t1 | _ \<Rightarrow> Panic))"

definition try_opt :: "('e, 'a) res option \<Rightarrow> ('a \<Rightarrow> ('e, 'b) res option) \<Rightarrow> ('e, 'b) res option" where
  "try_opt m k = Option.bind m (\<lambda>r. case r of Ok x \<Rightarrow> k x | Err e \<Rightarrow> Some (Err e) | Panic \<Rightarrow> Some Panic)"

fun insert_slots :: "(byte list \<Rightarrow> h256) \<Rightarrow> trie \<Rightarrow> slots \<Rightarrow> (trie_error, trie) res option" where
  "insert_slots K t [] = Some (Ok t)"
| "insert_slots K t ((slot, value) # rest) =
     (if value = 0 then insert_slots K t rest
      else try_opt (Some (slot_value value)) (\<lambda>encoded.
        try_opt (expect_insert K t (h256_bytes (K (h256_bytes slot))) encoded) (\<lambda>t1. insert_slots K t1 rest)))"

definition compute_storage_root :: "(byte list \<Rightarrow> h256) \<Rightarrow> slots \<Rightarrow> (trie_error, h256) res option" where
  "compute_storage_root K slots =
     try_opt (insert_slots K (trie_new Map.empty) slots) (\<lambda>t.
     Some (Ok (if root t = EMPTY_ROOT then EMPTY_STORAGE_ROOT else root t)))"

definition slots_of :: "(address \<rightharpoonup> slots) \<Rightarrow> address \<Rightarrow> slots" where
  "slots_of storage a = (case storage a of Some s \<Rightarrow> s | None \<Rightarrow> [])"

fun insert_accounts ::
  "(byte list \<Rightarrow> h256) \<Rightarrow> (address \<rightharpoonup> slots) \<Rightarrow> trie \<Rightarrow> (address \<times> account_state) list \<Rightarrow> (trie_error, trie) res option" where
  "insert_accounts K storage t [] = Some (Ok t)"
| "insert_accounts K storage t ((a, state) # rest) =
     (let slots = slots_of storage a in
      if is_empty_account state \<and> slots = [] then insert_accounts K storage t rest
      else try_opt (if slots \<noteq> [] then compute_storage_root K slots else Some (Ok (acc_storage_root state))) (\<lambda>storage_root.
        try_opt (Some (encode_account_rlp state storage_root)) (\<lambda>value.
        try_opt (expect_insert K t (h256_bytes (K (addr_bytes a))) value) (\<lambda>t1. insert_accounts K storage t1 rest))))"

definition compute_state_root ::
  "(byte list \<Rightarrow> h256) \<Rightarrow> (address \<times> account_state) list \<Rightarrow> (address \<rightharpoonup> slots) \<Rightarrow> (trie_error, h256) res option" where
  "compute_state_root K accts storage =
     try_opt (insert_accounts K storage (trie_new Map.empty) accts) (\<lambda>t. Some (Ok (root t)))"

definition visible_accounts ::
  "(address \<times> account_state) list \<Rightarrow> (address \<times> account_state) list \<Rightarrow> address list \<Rightarrow> (address \<times> account_state) list" where
  "visible_accounts base dirty deleted =
     fold AList.delete deleted (fold (\<lambda>(a, s). AList.update a s) dirty base)"

definition compute_state_root_filtered ::
  "(byte list \<Rightarrow> h256) \<Rightarrow> (address \<times> account_state) list \<Rightarrow> (address \<times> account_state) list \<Rightarrow> (address \<rightharpoonup> slots)
   \<Rightarrow> address list \<Rightarrow> (trie_error, h256) res option" where
  "compute_state_root_filtered K base dirty storage deleted =
     compute_state_root K (visible_accounts base dirty deleted) storage"

section \<open>Roots over a node store\<close>

definition keep_insert :: "(byte list \<Rightarrow> h256) \<Rightarrow> trie \<Rightarrow> byte list \<Rightarrow> byte list \<Rightarrow> (trie_error, trie) res option" where
  "keep_insert K t key value =
     Option.bind (trie_insert K t key value) (\<lambda>(r, t1). Some (bind_res r (\<lambda>_. Ok t1)))"

definition keep_delete :: "(byte list \<Rightarrow> h256) \<Rightarrow> trie \<Rightarrow> byte list \<Rightarrow> (trie_error, trie) res option" where
  "keep_delete K t key =
     Option.bind (trie_delete K t key) (\<lambda>(r, t1). Some (case r of Ok _ \<Rightarrow> Ok t1 | Err KeyNotFound \<Rightarrow> Ok t1 | Err e \<Rightarrow> Err e | Panic \<Rightarrow> Panic))"

fun apply_slots :: "(byte list \<Rightarrow> h256) \<Rightarrow> trie \<Rightarrow> slots \<Rightarrow> (trie_error, trie) res option" where
  "apply_slots K t [] = Some (Ok t)"
| "apply_slots K t ((slot, value) # rest) =
     (let key = h256_bytes (K (h256_bytes slot)) in
      try_opt (if value = 0 then keep_delete K t key
               else try_opt (Some (slot_value value)) (\<lambda>encoded. keep_insert K t key encoded))
        (\<lambda>t1. apply_slots K t1 rest))"

definition compute_storage_root_with_db ::
  "(byte list \<Rightarrow> h256) \<Rightarrow> slots \<Rightarrow> h256 \<Rightarrow> (h256 \<rightharpoonup> byte list) \<Rightarrow> (trie_error, h256) res option" where
  "compute_storage_root_with_db K slots prev_root d =
     try_opt (apply_slots K (from_root prev_root d) slots) (\<lambda>t.
     Some (Ok (if root t = EMPTY_ROOT then EMPTY_STORAGE_ROOT else root t)))"

fun insert_accounts_with_db ::
  "(byte list \<Rightarrow> h256) \<Rightarrow> (address \<rightharpoonup> slots) \<Rightarrow> (h256 \<rightharpoonup> byte list) \<Rightarrow> trie \<Rightarrow> (address \<times> account_state) list \<Rightarrow> (trie_error, trie) res option" where
  "insert_accounts_with_db K storage d t [] = Some (Ok t)"
| "insert_accounts_with_db K storage d t ((a, state) # rest) =
     (let slots = slots_of storage a in
      if is_empty_account state \<and> slots = [] then insert_accounts_with_db K storage d t rest
      else try_opt (if slots \<noteq> [] then compute_storage_root_with_db K slots (acc_storage_root state) d else Some (Ok (acc_storage_root state)))
        (\<lambda>storage_root. try_opt (Some (encode_account_rlp state storage_root)) (\<lambda>value.
        try_opt (keep_insert K t (h256_bytes (K (addr_bytes a))) value) (\<lambda>t1. insert_accounts_with_db K storage d t1 rest))))"

definition compute_state_root_with_db ::
  "(byte list \<Rightarrow> h256) \<Rightarrow> (address \<times> account_state) list \<Rightarrow> (address \<rightharpoonup> slots) \<Rightarrow> (h256 \<rightharpoonup> byte list) \<Rightarrow> (trie_error, h256) res option" where
  "compute_state_root_with_db K accts storage d =
     try_opt (insert_accounts_with_db K storage d (trie_new d) accts) (\<lambda>t. Some (Ok (root t)))"

section \<open>Loops as runs of the trie\<close>

lemma try_opt_simps [simp]:
  "try_opt (Some (Ok x)) k = k x" "try_opt (Some (Err e)) k = Some (Err e)" "try_opt (Some Panic) k = Some Panic" "try_opt None k = None"
  by (simp_all add: try_opt_def)

lemma strip_eq: "strip_leading_zeros b = dropWhile (\<lambda>x. x = 0) b"
  by (simp add: strip_leading_zeros_def dropWhile_eq_drop)

lemma u64_min_be_eq: "u64_min_be n = dropWhile (\<lambda>x. x = 0) (be_bytes 8 n)"
proof (cases "n = 0")
  case True
  have "be_bytes k 0 = replicate k 0" for k by (induction k) (simp_all add: replicate_append_same)
  then show ?thesis using True by (simp add: u64_min_be_def dropWhile_replicate)
next
  case False
  then show ?thesis by (simp add: u64_min_be_def Let_def dropWhile_eq_drop)
qed

definition account_items :: "account_state \<Rightarrow> h256 \<Rightarrow> byte list list" where
  "account_items state storage_root =
     [u64_min_be (acc_nonce state), strip_leading_zeros (be_bytes 32 (acc_balance state)), h256_bytes storage_root,
      h256_bytes (acc_code_hash state)] @ (if acc_vm state = VmZvm then [[1]] else [])"

lemma encode_account_eq: "encode_account_rlp state r = Ok (rlp_list (map rlp_str (account_items state r)))"
proof -
  have "encode_account_rlp state r = encode_list (account_items state r)"
    by (simp add: encode_account_rlp_def account_items_def encode_list_def new_list_def Let_def begin_list_def)
  then show ?thesis by (simp add: encode_list_rlp)
qed

lemma slot_value_eq: "slot_value x = Ok (rlp_str (strip_leading_zeros (h256_bytes x)))"
  by (simp add: slot_value_def rlp_out_flat)

definition slot_ops :: "(byte list \<Rightarrow> h256) \<Rightarrow> slots \<Rightarrow> trie_op list" where
  "slot_ops K slots = map (\<lambda>(s, x). TInsert (h256_bytes (K (h256_bytes s))) (rlp_str (strip_leading_zeros (h256_bytes x))))
     (filter (\<lambda>(s, x). x \<noteq> 0) slots)"

lemma insert_slots_run: "trie_run K t (slot_ops K slots) = Some (Ok (), t') \<Longrightarrow> insert_slots K t slots = Some (Ok t')"
proof (induction slots arbitrary: t)
  case (Cons p slots)
  obtain s x where p: "p = (s, x)" by (cases p)
  show ?case
  proof (cases "x = 0")
    case True
    then show ?thesis using Cons by (simp add: p slot_ops_def)
  next
    case False
    then show ?thesis using Cons
      by (auto simp: p slot_ops_def slot_value_eq expect_insert_def split: option.splits res.splits prod.splits)
  qed
qed (simp add: slot_ops_def)


definition sroot :: "(byte list \<Rightarrow> h256) \<Rightarrow> (address \<rightharpoonup> slots) \<Rightarrow> address \<Rightarrow> account_state \<Rightarrow> h256" where
  "sroot K storage a st =
     (if slots_of storage a = [] then acc_storage_root st
      else case compute_storage_root K (slots_of storage a) of Some (Ok r) \<Rightarrow> r | _ \<Rightarrow> 0)"

definition skipped :: "(address \<rightharpoonup> slots) \<Rightarrow> address \<times> account_state \<Rightarrow> bool" where
  "skipped storage = (\<lambda>(a, st). is_empty_account st \<and> slots_of storage a = [])"

definition account_entry :: "(byte list \<Rightarrow> h256) \<Rightarrow> (address \<rightharpoonup> slots) \<Rightarrow> address \<times> account_state \<Rightarrow> byte list \<times> byte list" where
  "account_entry K storage = (\<lambda>(a, st). (h256_bytes (K (addr_bytes a)), rlp_list (map rlp_str (account_items st (sroot K storage a st)))))"

abbreviation inserts :: "(byte list \<times> byte list) list \<Rightarrow> trie_op list" where
  "inserts kvs \<equiv> map (\<lambda>(k, v). TInsert k v) kvs"

definition account_ops :: "(byte list \<Rightarrow> h256) \<Rightarrow> (address \<rightharpoonup> slots) \<Rightarrow> (address \<times> account_state) list \<Rightarrow> trie_op list" where
  "account_ops K storage accts = inserts (map (account_entry K storage) (filter (\<lambda>p. \<not> skipped storage p) accts))"

lemma insert_accounts_run:
  assumes "\<forall>(a, st) \<in> set accts. slots_of storage a \<noteq> [] \<longrightarrow> (\<exists>r. compute_storage_root K (slots_of storage a) = Some (Ok r))"
  shows "trie_run K t (account_ops K storage accts) = Some (Ok (), t') \<Longrightarrow> insert_accounts K storage t accts = Some (Ok t')"
  using assms
proof (induction accts arbitrary: t)
  case (Cons p accts)
  obtain a st where p: "p = (a, st)" by (cases p)
  show ?case
  proof (cases "skipped storage p")
    case True
    then show ?thesis using Cons by (simp add: p account_ops_def skipped_def)
  next
    case False
    obtain t1 where i: "trie_insert K t (h256_bytes (K (addr_bytes a))) (rlp_list (map rlp_str (account_items st (sroot K storage a st)))) = Some (Ok (), t1)"
      and r: "trie_run K t1 (account_ops K storage accts) = Some (Ok (), t')"
      using Cons.prems(1) False by (auto simp: p account_ops_def account_entry_def split: option.splits res.splits prod.splits)
    have s: "(if slots_of storage a \<noteq> [] then compute_storage_root K (slots_of storage a) else Some (Ok (acc_storage_root st))) = Some (Ok (sroot K storage a st))"
      using Cons.prems(2) by (auto simp: p sroot_def)
    have "insert_accounts K storage t1 accts = Some (Ok t')" using Cons.IH[OF r] Cons.prems(2) by simp
    moreover have "\<not> (is_empty_account st \<and> slots_of storage a = [])" using False by (simp add: p skipped_def)
    ultimately show ?thesis
      unfolding p insert_accounts.simps Let_def s by (simp only: if_False try_opt_simps) (simp add: i encode_account_eq expect_insert_def)
  qed
qed (simp add: account_ops_def)

section \<open>What a root says of its content\<close>

lemma represents_more:
  assumes "represents K U t T" "sound K U m" "\<And>h e. fetch t h = Some e \<Longrightarrow> fetch m h = Some e" "root m = root t"
  shows "represents K U m T"
  using assms by (auto simp: represents_def stored_def split: option.splits)

lemma roots_iff:
  assumes "collision_free K (run_encs K None ops \<union> run_encs K None ops')" "list_all op_ok ops" "list_all op_ok ops'"
    and "trie_run K (trie_new Map.empty) ops = Some (Ok (), t)" "trie_run K (trie_new Map.empty) ops' = Some (Ok (), t')"
  shows "root t = root t' \<longleftrightarrow> content ops = content ops'"
proof
  let ?U = "run_encs K None ops \<union> run_encs K None ops'"
  note r = run_facts[OF assms(1,2) _ assms(4)] and r' = run_facts[OF assms(1,3) _ assms(5)]
  {
    assume eq: "root t = root t'"
    define m where "m = t\<lparr>cache := cache t @ cache t', db := db t ++ db t'\<rparr>"
    have so: "sound K ?U t" "sound K ?U t'" using r(1) r'(1) by (auto simp: represents_def)
    have m: "sound K ?U m" using so unfolding sound_def m_def by (auto simp: map_add_Some_iff)
    have f: "fetch m h = Some e" if "fetch t h = Some e \<or> fetch t' h = Some e" for h e
    proof -
      have "fetch m h \<noteq> None" using that by (auto simp: fetch_def m_def map_add_def split: option.splits)
      then obtain e' where e': "fetch m h = Some e'" by blast
      have "K e' = K e" "e' \<in> ?U" "e \<in> ?U"
        using sound_fetch[OF m e'] that sound_fetch[OF so(1), of h e] sound_fetch[OF so(2), of h e] by auto
      then have "e' = e" using assms(1) unfolding collision_free_def by (metis inj_onD)
      then show ?thesis using e' by simp
    qed
    have "represents K ?U m (foldl op_tree None ops)"
      using f by (intro represents_more[OF r(1) m]) (auto simp: m_def)
    moreover have "represents K ?U m (foldl op_tree None ops')"
      using f eq by (intro represents_more[OF r'(1) m]) (auto simp: m_def)
    ultimately have "plook_opt (foldl op_tree None ops) (key_nibbles key) = plook_opt (foldl op_tree None ops') (key_nibbles key)" for key
      using trie_get_spec[OF assms(1)] by (metis option.inject res.inject(1))
    then show "content ops = content ops'" using r(2) r'(2) by (intro ext) (simp add: tree_of_map_def)
  next
    assume "content ops = content ops'"
    then have "foldl op_tree None ops = foldl op_tree None ops'" using tree_of_map_unique[OF r(2)] r'(2) by simp
    then show "root t = root t'" using r(1) r'(1) by (auto simp: represents_def split: option.splits)
  }
qed

lemma content_inserts: "distinct (map fst kvs) \<Longrightarrow> content (inserts kvs) = map_of kvs"
proof (induction kvs rule: rev_induct)
  case (snoc p kvs)
  then have "map_of kvs (fst p) = None" by (simp add: map_of_eq_None_iff)
  then show ?case using snoc
    by (cases p) (auto simp: content_def map_add_def fun_eq_iff split: option.split)
qed (simp add: content_def)


section \<open>Encodings are injective\<close>

lemma rlp_list_inj:
  assumes "rlp_list (map rlp_str xs) = rlp_list (map rlp_str ys)"
    and "sum_list (map (\<lambda>d. length d + 9) xs) + 9 < 2 ^ 64" "sum_list (map (\<lambda>d. length d + 9) ys) + 9 < 2 ^ 64"
  shows "xs = ys"
proof -
  have len: "length (concat (map rlp_str zs)) + 9 < 2 ^ 64" if "sum_list (map (\<lambda>d. length d + 9) zs) + 9 < 2 ^ 64" for zs
    using length_items[of zs] that by simp
  have small: "length (zs ! i) + 9 < 2 ^ 64" if "sum_list (map (\<lambda>d. length d + 9) zs) + 9 < 2 ^ 64" "i < length zs" for zs i
  proof -
    have "length (zs ! i) + 9 \<in> set (map (\<lambda>d. length d + 9) zs)" using nth_mem[OF that(2)] by simp
    then have "length (zs ! i) + 9 \<le> sum_list (map (\<lambda>d. length d + 9) zs)" by (rule member_le_sum_list) simp
    then show ?thesis using that(1) by linarith
  qed
  have n: "length xs = length ys"
    using item_count_list[OF list_all_rlp_str len[OF assms(2)]] item_count_list[OF list_all_rlp_str len[OF assms(3)]] assms(1) by simp
  have "xs ! i = ys ! i" if "i < length xs" for i
  proof -
    have i: "i < length ys" using that n by simp
    have "rlp_str (xs ! i) = rlp_str (ys ! i)"
      using item_at_list[OF list_all_rlp_str len[OF assms(2)], of i] item_at_list[OF list_all_rlp_str len[OF assms(3)], of i] assms(1) that i by simp
    then show ?thesis
      using as_bytes_str[OF small[OF assms(2) that], of "[]"] as_bytes_str[OF small[OF assms(3) i], of "[]"] by simp
  qed
  then show ?thesis using n by (intro nth_equalityI) auto
qed

lemma stripped_inj:
  assumes "fits k m" "fits k n" "strip_leading_zeros (be_bytes k m) = strip_leading_zeros (be_bytes k n)"
  shows "m = n"
proof -
  have "be_val (be_bytes k m) = be_val (be_bytes k n)"
    using arg_cong[OF assms(3), of be_val] unfolding strip_eq be_val_dropWhile .
  then show ?thesis using assms(1,2) unfolding be_val_be_bytes fits_def by simp
qed

lemma length_strip: "length (strip_leading_zeros b) \<le> length b"
  by (simp add: strip_leading_zeros_def)

definition account_fits :: "account_state \<Rightarrow> bool" where
  "account_fits s \<longleftrightarrow> fits 8 (acc_nonce s) \<and> fits 32 (acc_balance s)"

text \<open>What the trie holds of an account: the account with the storage root the loop computes.\<close>

definition leaf_bytes :: "account_state \<Rightarrow> byte list" where
  "leaf_bytes s = rlp_list (map rlp_str (account_items s (acc_storage_root s)))"

lemma items_small: "sum_list (map (\<lambda>d. length d + 9) (account_items s r)) \<le> 150"
  using length_strip[of "be_bytes 8 (acc_nonce s)"] length_strip[of "be_bytes 32 (acc_balance s)"]
  by (simp add: account_items_def u64_min_be_eq flip: strip_eq)

lemma leaf_bytes_inj:
  assumes "leaf_bytes x = leaf_bytes y" "account_fits x" "account_fits y"
  shows "x = y"
proof -
  have "account_items x (acc_storage_root x) = account_items y (acc_storage_root y)"
    using assms(1) items_small[of x "acc_storage_root x"] items_small[of y "acc_storage_root y"]
    unfolding leaf_bytes_def by (intro rlp_list_inj) simp_all
  then have "acc_nonce x = acc_nonce y" "acc_balance x = acc_balance y" "acc_storage_root x = acc_storage_root y"
    "acc_code_hash x = acc_code_hash y" "acc_vm x = VmZvm \<longleftrightarrow> acc_vm y = VmZvm"
    using assms(2,3) stripped_inj[of 8 "acc_nonce x" "acc_nonce y"] stripped_inj[of 32 "acc_balance x" "acc_balance y"]
    by (auto simp: account_items_def account_fits_def u64_min_be_eq strip_eq split: if_splits)
  then show ?thesis by (cases "acc_vm x"; cases "acc_vm y") auto
qed

lemma leaf_ok: "leaf_bytes s \<noteq> [] \<and> length (leaf_bytes s) < 2 ^ 60"
proof -
  define n where "n = length (concat (map rlp_str (account_items s (acc_storage_root s))))"
  have n: "n \<le> 150"
    using items_small[of s "acc_storage_root s"] length_items[of "account_items s (acc_storage_root s)"] by (simp add: n_def)
  have "leaf_bytes s = list_prefix n @ concat (map rlp_str (account_items s (acc_storage_root s)))"
    by (simp add: leaf_bytes_def rlp_list_def n_def)
  moreover have "length (list_prefix n) \<le> 9 \<and> list_prefix n \<noteq> []" using n by (intro length_list_prefix) simp
  ultimately show ?thesis using n n_def by simp
qed

section \<open>The state root commits to the accounts\<close>

definition leaves :: "(byte list \<Rightarrow> h256) \<Rightarrow> (address \<rightharpoonup> slots) \<Rightarrow> (address \<times> account_state) list \<Rightarrow> address \<rightharpoonup> account_state" where
  "leaves K storage accts a =
     (case map_of accts a of
        None \<Rightarrow> None
      | Some st \<Rightarrow> if skipped storage (a, st) then None else Some (st\<lparr>acc_storage_root := sroot K storage a st\<rparr>))"

lemma leaves_Some:
  assumes "distinct (map fst accts)"
  shows "leaves K storage accts a = Some s \<longleftrightarrow>
    (\<exists>st. (a, st) \<in> set accts \<and> \<not> skipped storage (a, st) \<and> s = st\<lparr>acc_storage_root := sroot K storage a st\<rparr>)"
proof (cases "map_of accts a")
  case None
  then have "\<nexists>st. (a, st) \<in> set accts" using assms by (metis map_of_eq_Some_iff option.distinct(1))
  then show ?thesis using None by (simp add: leaves_def)
next
  case (Some st)
  then have "(a, st') \<in> set accts \<longleftrightarrow> st' = st" for st' using assms by (metis map_of_eq_Some_iff option.inject)
  then show ?thesis using Some by (auto simp: leaves_def)
qed

definition account_key :: "(byte list \<Rightarrow> h256) \<Rightarrow> address \<Rightarrow> byte list" where
  "account_key K a = h256_bytes (K (addr_bytes a))"

lemma account_entry_eq: "account_entry K storage (a, st) = (account_key K a, leaf_bytes (st\<lparr>acc_storage_root := sroot K storage a st\<rparr>))"
  by (simp add: account_entry_def account_key_def leaf_bytes_def account_items_def)

lemma account_ops_ok: "list_all op_ok (account_ops K storage accts)"
  using leaf_ok by (auto simp: account_ops_def list_all_iff account_entry_eq account_key_def)

lemma content_account_ops:
  assumes "distinct (map fst accts)" "inj_on K (addr_bytes ` fst ` set accts)"
  shows "content (account_ops K storage accts) k = Some v \<longleftrightarrow> (\<exists>a s. leaves K storage accts a = Some s \<and> k = account_key K a \<and> v = leaf_bytes s)"
proof -
  let ?f = "filter (\<lambda>p. \<not> skipped storage p) accts"
  have inj: "inj_on (\<lambda>p. account_key K (fst p)) (set ?f)"
  proof (rule inj_onI)
    fix p q assume pq: "p \<in> set ?f" "q \<in> set ?f" "account_key K (fst p) = account_key K (fst q)"
    then have "fst p = fst q" using inj_onD[OF assms(2), of "addr_bytes (fst p)" "addr_bytes (fst q)"] by (auto simp: account_key_def)
    then show "p = q" using pq(1,2) assms(1) by (cases p; cases q) (auto dest: eq_key_imp_eq_value)
  qed
  have fe: "map fst (map (account_entry K storage) ?f) = map (\<lambda>p. account_key K (fst p)) ?f"
    by (auto simp: account_entry_eq)
  have d: "distinct (map fst (map (account_entry K storage) ?f))"
    unfolding fe using inj assms(1) by (auto simp: distinct_map inj_on_def intro: distinct_filter)
  have "content (account_ops K storage accts) k = Some v \<longleftrightarrow> (k, v) \<in> account_entry K storage ` set ?f"
    unfolding account_ops_def using content_inserts[OF d] d by simp
  also have "\<dots> \<longleftrightarrow> (\<exists>a st. (a, st) \<in> set accts \<and> \<not> skipped storage (a, st) \<and> k = account_key K a
      \<and> v = leaf_bytes (st\<lparr>acc_storage_root := sroot K storage a st\<rparr>))"
    by (auto simp: account_entry_eq image_iff)
  also have "\<dots> \<longleftrightarrow> (\<exists>a s. leaves K storage accts a = Some s \<and> k = account_key K a \<and> v = leaf_bytes s)"
    unfolding leaves_Some[OF assms(1)] by blast
  finally show ?thesis .
qed


definition slot_key :: "(byte list \<Rightarrow> h256) \<Rightarrow> h256 \<Rightarrow> byte list" where
  "slot_key K x = h256_bytes (K (h256_bytes x))"

lemma slot_ops_ok: "list_all op_ok (slot_ops K slots)"
proof -
  have "length (rlp_str (strip_leading_zeros (h256_bytes x))) \<le> 41" for x
    using length_rlp_str[of "strip_leading_zeros (h256_bytes x)"] length_strip[of "h256_bytes x"] by simp
  then have "length (rlp_str (strip_leading_zeros (h256_bytes x))) < 2 ^ 60" for x
    by (rule le_less_trans) simp
  then show ?thesis by (auto simp: slot_ops_def list_all_iff)
qed

lemma storage_root_runs:
  assumes "collision_free K U" "run_encs K None (slot_ops K slots) \<subseteq> U"
  obtains t where "trie_run K (trie_new Map.empty) (slot_ops K slots) = Some (Ok (), t)" "compute_storage_root K slots = Some (Ok (root t))"
proof -
  obtain t where t: "trie_run K (trie_new Map.empty) (slot_ops K slots) = Some (Ok (), t)"
    using run_from_new[OF assms(1) slot_ops_ok assms(2)] by blast
  have "compute_storage_root K slots = Some (Ok (root t))"
    using insert_slots_run[OF t] by (simp add: compute_storage_root_def EMPTY_STORAGE_ROOT_def EMPTY_ROOT_def)
  with t show thesis by (rule that)
qed

text \<open>The encodings that are hashed for a state root.\<close>

definition state_encs :: "(byte list \<Rightarrow> h256) \<Rightarrow> (address \<rightharpoonup> slots) \<Rightarrow> (address \<times> account_state) list \<Rightarrow> byte list set" where
  "state_encs K storage accts = run_encs K None (account_ops K storage accts)
     \<union> (\<Union>a \<in> fst ` set accts. run_encs K None (slot_ops K (slots_of storage a)))"

lemma state_root_runs:
  assumes "collision_free K U" "state_encs K storage accts \<subseteq> U"
  obtains t where "trie_run K (trie_new Map.empty) (account_ops K storage accts) = Some (Ok (), t)"
    "compute_state_root K accts storage = Some (Ok (root t))"
proof -
  have sub: "run_encs K None (account_ops K storage accts) \<subseteq> U" using assms(2) by (simp add: state_encs_def)
  obtain t where t: "trie_run K (trie_new Map.empty) (account_ops K storage accts) = Some (Ok (), t)"
    using run_from_new[OF assms(1) account_ops_ok sub] by blast
  have "\<forall>(a, st) \<in> set accts. slots_of storage a \<noteq> [] \<longrightarrow> (\<exists>r. compute_storage_root K (slots_of storage a) = Some (Ok r))"
  proof clarify
    fix a st assume "(a, st) \<in> set accts"
    then have "run_encs K None (slot_ops K (slots_of storage a)) \<subseteq> U" using assms(2) by (force simp: state_encs_def)
    then show "\<exists>r. compute_storage_root K (slots_of storage a) = Some (Ok r)" using storage_root_runs[OF assms(1)] by metis
  qed
  then have "compute_state_root K accts storage = Some (Ok (root t))"
    using insert_accounts_run[OF _ t] by (simp add: compute_state_root_def)
  with t show thesis by (rule that)
qed

lemma leaves_fit: "list_all (\<lambda>p. account_fits (snd p)) accts \<Longrightarrow> leaves K storage accts a = Some s \<Longrightarrow> account_fits s"
  by (auto simp: leaves_def list_all_iff account_fits_def dest!: map_of_SomeD split: option.splits if_splits)

lemma leaves_dom: "leaves K storage accts a = Some s \<Longrightarrow> a \<in> fst ` set accts"
  by (force simp: leaves_def dest: map_of_SomeD split: option.splits)

text \<open>
  C17: The state root commits to the accounts and to nothing else: two states, whatever the order their hash
  maps are iterated in, have the same root exactly when they hold the same accounts with the same storage
  roots, leaving out empty accounts, unless the hash collides on what is hashed.
\<close>

theorem state_root_commits:
  assumes "collision_free K (state_encs K storage accts \<union> state_encs K storage' accts')"
    and "inj_on K (addr_bytes ` fst ` set (accts @ accts'))"
    and "distinct (map fst accts)" "distinct (map fst accts')" "list_all (\<lambda>p. account_fits (snd p)) (accts @ accts')"
  shows "\<exists>r r'. compute_state_root K accts storage = Some (Ok r) \<and> compute_state_root K accts' storage' = Some (Ok r')
    \<and> (r = r' \<longleftrightarrow> leaves K storage accts = leaves K storage' accts')"
proof -
  obtain t where t: "trie_run K (trie_new Map.empty) (account_ops K storage accts) = Some (Ok (), t)"
    "compute_state_root K accts storage = Some (Ok (root t))" using state_root_runs[OF assms(1)] by blast
  obtain t' where t': "trie_run K (trie_new Map.empty) (account_ops K storage' accts') = Some (Ok (), t')"
    "compute_state_root K accts' storage' = Some (Ok (root t'))" using state_root_runs[OF assms(1)] by blast
  have cf: "collision_free K (run_encs K None (account_ops K storage accts) \<union> run_encs K None (account_ops K storage' accts'))"
    using assms(1) by (auto simp: collision_free_def state_encs_def elim: inj_on_subset)
  have i: "inj_on K (addr_bytes ` fst ` set accts)" "inj_on K (addr_bytes ` fst ` set accts')"
    by (rule inj_on_subset[OF assms(2)]; auto)+
  note c = content_account_ops[OF assms(3) i(1)] content_account_ops[OF assms(4) i(2)]
  have same: "leaves K sb ys a = Some s"
    if "content (account_ops K sa xs) = content (account_ops K sb ys)" "leaves K sa xs a = Some s"
      and cx: "\<And>k v. content (account_ops K sa xs) k = Some v \<longleftrightarrow> (\<exists>a s. leaves K sa xs a = Some s \<and> k = account_key K a \<and> v = leaf_bytes s)"
      and cy: "\<And>k v. content (account_ops K sb ys) k = Some v \<longleftrightarrow> (\<exists>a s. leaves K sb ys a = Some s \<and> k = account_key K a \<and> v = leaf_bytes s)"
      and sub: "set xs \<union> set ys \<subseteq> set (accts @ accts')"
    for sa sb xs ys a s
  proof -
    have "content (account_ops K sb ys) (account_key K a) = Some (leaf_bytes s)" using that(1,2) cx by auto
    then obtain b u where b: "leaves K sb ys b = Some u" "account_key K a = account_key K b" "leaf_bytes s = leaf_bytes u" using cy by auto
    have "a \<in> fst ` set (accts @ accts')" "b \<in> fst ` set (accts @ accts')"
      using leaves_dom[OF that(2)] leaves_dom[OF b(1)] sub by auto
    then have "a = b" using b(2) inj_onD[OF assms(2), of "addr_bytes a" "addr_bytes b"] by (auto simp: account_key_def)
    moreover have "account_fits s" "account_fits u"
      using leaves_fit[OF _ that(2)] leaves_fit[OF _ b(1)] assms(5) sub by (auto simp: list_all_iff)
    then have "s = u" using leaf_bytes_inj b(3) by blast
    ultimately show ?thesis using b(1) by simp
  qed
  have "content (account_ops K storage accts) = content (account_ops K storage' accts') \<longleftrightarrow> leaves K storage accts = leaves K storage' accts'"
  proof
    assume eq: "content (account_ops K storage accts) = content (account_ops K storage' accts')"
    show "leaves K storage accts = leaves K storage' accts'"
    proof
      fix a
      show "leaves K storage accts a = leaves K storage' accts' a"
        using same[OF eq _ c, of a] same[OF eq[symmetric] _ c(2,1), of a]
        by (cases "leaves K storage accts a"; cases "leaves K storage' accts' a") auto
    qed
  next
    assume eq: "leaves K storage accts = leaves K storage' accts'"
    show "content (account_ops K storage accts) = content (account_ops K storage' accts')"
    proof
      fix k
      have "content (account_ops K storage accts) k = Some v \<longleftrightarrow> content (account_ops K storage' accts') k = Some v" for v
        by (simp add: c eq)
      then show "content (account_ops K storage accts) k = content (account_ops K storage' accts') k"
        by (metis not_None_eq)
    qed
  qed
  then show ?thesis using roots_iff[OF cf account_ops_ok account_ops_ok t(1) t'(1)] t(2) t'(2) by auto
qed


section \<open>The two variants agree on fresh storage\<close>

definition slot_db_ops :: "(byte list \<Rightarrow> h256) \<Rightarrow> slots \<Rightarrow> trie_op list" where
  "slot_db_ops K slots = map (\<lambda>(s, x). if x = 0 then TDelete (slot_key K s)
     else TInsert (slot_key K s) (rlp_str (strip_leading_zeros (h256_bytes x)))) slots"

lemma apply_slots_run: "trie_run K t (slot_db_ops K slots) = Some (Ok (), t') \<Longrightarrow> apply_slots K t slots = Some (Ok t')"
proof (induction slots arbitrary: t)
  case (Cons p slots)
  obtain s x where p: "p = (s, x)" by (cases p)
  show ?case
  proof (cases "x = 0")
    case True
    then obtain r t1 where "trie_delete K t (slot_key K s) = Some (r, t1)" "is_Ok r" "trie_run K t1 (slot_db_ops K slots) = Some (Ok (), t')"
      using Cons.prems by (auto simp: p slot_db_ops_def is_Ok_iff split: option.splits res.splits prod.splits)
    then show ?thesis using Cons.IH[of t1] True by (auto simp: p keep_delete_def slot_key_def is_Ok_iff)
  next
    case False
    then obtain t1 where "trie_insert K t (slot_key K s) (rlp_str (strip_leading_zeros (h256_bytes x))) = Some (Ok (), t1)"
        "trie_run K t1 (slot_db_ops K slots) = Some (Ok (), t')"
      using Cons.prems by (auto simp: p slot_db_ops_def split: option.splits res.splits prod.splits)
    then show ?thesis using Cons.IH[of t1] False by (simp add: p keep_insert_def slot_key_def slot_value_eq)
  qed
qed (simp add: slot_db_ops_def)

lemma content_snoc: "content (ops @ [op]) = op_map (content ops) op"
  by (simp add: content_def)

lemma content_slots:
  assumes "distinct (map fst slots)" "inj_on K (h256_bytes ` fst ` set slots)"
  shows "content (slot_db_ops K slots) = content (slot_ops K slots)
    \<and> (\<forall>s. s \<notin> fst ` set slots \<longrightarrow> inj_on K (h256_bytes ` insert s (fst ` set slots)) \<longrightarrow> content (slot_ops K slots) (slot_key K s) = None)"
  using assms
proof (induction slots rule: rev_induct)
  case Nil
  then show ?case by (simp add: slot_db_ops_def slot_ops_def content_def)
next
  case (snoc p slots)
  obtain s x where p: "p = (s, x)" by (cases p)
  have d: "distinct (map fst slots)" "s \<notin> fst ` set slots" using snoc.prems(1) by (auto simp: p)
  have ij: "inj_on K (h256_bytes ` fst ` set slots)" "inj_on K (h256_bytes ` insert s (fst ` set slots))"
    using snoc.prems(2) by (auto simp: p elim: inj_on_subset)
  note ih = snoc.IH[OF d(1) ij(1)]
  have none: "content (slot_ops K slots) (slot_key K s) = None" using ih d(2) ij(2) by blast
  have db: "slot_db_ops K (slots @ [p]) = slot_db_ops K slots @ [if x = 0 then TDelete (slot_key K s)
      else TInsert (slot_key K s) (rlp_str (strip_leading_zeros (h256_bytes x)))]" by (simp add: slot_db_ops_def p)
  have ops: "slot_ops K (slots @ [p]) = (if x = 0 then slot_ops K slots
      else slot_ops K slots @ [TInsert (slot_key K s) (rlp_str (strip_leading_zeros (h256_bytes x)))])"
    by (simp add: slot_ops_def slot_key_def p)
  have eq: "content (slot_db_ops K (slots @ [p])) = content (slot_ops K (slots @ [p]))"
    unfolding db ops content_snoc using ih none by (auto simp: content_snoc fun_upd_idem)
  moreover have "content (slot_ops K (slots @ [p])) (slot_key K u) = None"
    if "u \<notin> fst ` set (slots @ [p])" "inj_on K (h256_bytes ` insert u (fst ` set (slots @ [p])))" for u
  proof -
    have "slot_key K u \<noteq> slot_key K s"
      using that inj_onD[OF that(2), of "h256_bytes u" "h256_bytes s"] by (auto simp: slot_key_def p)
    moreover have "inj_on K (h256_bytes ` insert u (fst ` set slots))" by (rule inj_on_subset[OF that(2)]) auto
    then have "content (slot_ops K slots) (slot_key K u) = None" using ih that(1) by simp
    ultimately show ?thesis unfolding ops by (simp add: content_snoc)
  qed
  ultimately show ?case by blast
qed

text \<open>The root of a trie is a function of the tree it represents.\<close>

lemma represents_root: "represents K U t T \<Longrightarrow> root t = (case T of None \<Rightarrow> EMPTY_ROOT | Some s \<Rightarrow> K (enc (node_of K s)))"
  by (auto simp: represents_def split: option.splits)

definition sound_store :: "(byte list \<Rightarrow> h256) \<Rightarrow> byte list set \<Rightarrow> (h256 \<rightharpoonup> byte list) \<Rightarrow> bool" where
  "sound_store K U d \<longleftrightarrow> (\<forall>h e. d h = Some e \<longrightarrow> h = K e \<and> e \<in> U)"

lemma run_same_root:
  assumes "collision_free K U" "sound_store K U d" "list_all op_ok ops" "list_all op_ok ops'"
    and "run_encs K None ops \<subseteq> U" "run_encs K None ops' \<subseteq> U" "content ops = content ops'"
    and "trie_run K (trie_new Map.empty) ops' = Some (Ok (), t')"
  obtains t where "trie_run K (trie_new d) ops = Some (Ok (), t)" "root t = root t'"
proof -
  have "represents K U (trie_new d) None" using assms(2) by (auto simp: represents_def trie_new_def sound_def sound_store_def)
  from trie_run_spec[OF assms(1) this assms(3,5)] obtain t where t: "trie_run K (trie_new d) ops = Some (Ok (), t)"
    "represents K U t (foldl op_tree None ops)" by blast
  note r' = run_facts[OF assms(1,4,6,8)]
  have "tree_of_map (foldl op_tree None ops) (content ops)"
    using run_tree_map[OF tree_of_map_empty assms(3)] by (simp add: content_def)
  then have "foldl op_tree None ops = foldl op_tree None ops'" using tree_of_map_unique r'(2) assms(7) by metis
  then have "root t = root t'" using represents_root[OF t(2)] represents_root[OF r'(1)] by simp
  with t(1) show thesis by (rule that)
qed

lemma slot_db_ops_ok: "list_all op_ok (slot_db_ops K slots)"
  using slot_ops_ok[of K slots] by (auto simp: slot_ops_def slot_db_ops_def list_all_iff slot_key_def)

lemma storage_roots_agree:
  assumes "collision_free K U" "sound_store K U d" "run_encs K None (slot_ops K slots) \<subseteq> U" "run_encs K None (slot_db_ops K slots) \<subseteq> U"
    and "distinct (map fst slots)" "inj_on K (h256_bytes ` fst ` set slots)"
  shows "compute_storage_root_with_db K slots EMPTY_STORAGE_ROOT d = compute_storage_root K slots"
proof -
  obtain t' where t': "trie_run K (trie_new Map.empty) (slot_ops K slots) = Some (Ok (), t')" "compute_storage_root K slots = Some (Ok (root t'))"
    by (rule storage_root_runs[OF assms(1,3)])
  obtain t where t: "trie_run K (trie_new d) (slot_db_ops K slots) = Some (Ok (), t)" "root t = root t'"
    using run_same_root[OF assms(1,2) slot_db_ops_ok slot_ops_ok assms(4,3) _ t'(1)] content_slots[OF assms(5,6)] by blast
  have "from_root EMPTY_STORAGE_ROOT d = trie_new d" by (simp add: from_root_def trie_new_def EMPTY_STORAGE_ROOT_def EMPTY_ROOT_def)
  then show ?thesis using apply_slots_run[OF t(1)] t(2) t'(2)
    by (simp add: compute_storage_root_with_db_def EMPTY_STORAGE_ROOT_def EMPTY_ROOT_def)
qed

lemma insert_accounts_db_run:
  assumes "\<forall>(a, st) \<in> set accts. slots_of storage a \<noteq> [] \<longrightarrow>
      compute_storage_root_with_db K (slots_of storage a) (acc_storage_root st) d = compute_storage_root K (slots_of storage a)
      \<and> (\<exists>r. compute_storage_root K (slots_of storage a) = Some (Ok r))"
  shows "trie_run K t (account_ops K storage accts) = Some (Ok (), t') \<Longrightarrow> insert_accounts_with_db K storage d t accts = Some (Ok t')"
  using assms
proof (induction accts arbitrary: t)
  case (Cons p accts)
  obtain a st where p: "p = (a, st)" by (cases p)
  show ?case
  proof (cases "skipped storage p")
    case True
    then show ?thesis using Cons by (simp add: p account_ops_def skipped_def)
  next
    case False
    obtain t1 where i: "trie_insert K t (h256_bytes (K (addr_bytes a))) (rlp_list (map rlp_str (account_items st (sroot K storage a st)))) = Some (Ok (), t1)"
      and r: "trie_run K t1 (account_ops K storage accts) = Some (Ok (), t')"
      using Cons.prems(1) False by (auto simp: p account_ops_def account_entry_def split: option.splits res.splits prod.splits)
    have s: "(if slots_of storage a \<noteq> [] then compute_storage_root_with_db K (slots_of storage a) (acc_storage_root st) d
        else Some (Ok (acc_storage_root st))) = Some (Ok (sroot K storage a st))"
      using Cons.prems(2) by (auto simp: p sroot_def)
    have "insert_accounts_with_db K storage d t1 accts = Some (Ok t')" using Cons.IH[OF r] Cons.prems(2) by simp
    moreover have "\<not> (is_empty_account st \<and> slots_of storage a = [])" using False by (simp add: p skipped_def)
    ultimately show ?thesis
      unfolding p insert_accounts_with_db.simps Let_def s by (simp only: if_False try_opt_simps) (simp add: i encode_account_eq keep_insert_def)
  qed
qed (simp add: account_ops_def)

text \<open>
  C18: Over a node store that is consistent with the hash the persistent state root is the one computed in memory, given
  that the hash does not collide on the nodes of the tries built, and that the accounts whose slots are written had no storage
  before, with each slot once: deletions of zero slots and nodes already stored make no difference.
\<close>

theorem state_root_variants_agree:
  assumes "collision_free K U" "sound_store K U d" "state_encs K storage accts \<subseteq> U"
    and "\<forall>(a, st) \<in> set accts. slots_of storage a \<noteq> [] \<longrightarrow> acc_storage_root st = EMPTY_STORAGE_ROOT
      \<and> distinct (map fst (slots_of storage a)) \<and> inj_on K (h256_bytes ` fst ` set (slots_of storage a))
      \<and> run_encs K None (slot_db_ops K (slots_of storage a)) \<subseteq> U"
  shows "compute_state_root_with_db K accts storage d = compute_state_root K accts storage"
proof -
  have sub: "run_encs K None (account_ops K storage accts) \<subseteq> U" using assms(3) by (simp add: state_encs_def)
  obtain t' where t': "trie_run K (trie_new Map.empty) (account_ops K storage accts) = Some (Ok (), t')"
    "compute_state_root K accts storage = Some (Ok (root t'))" by (rule state_root_runs[OF assms(1,3)])
  obtain t where t: "trie_run K (trie_new d) (account_ops K storage accts) = Some (Ok (), t)" "root t = root t'"
    using run_same_root[OF assms(1,2) account_ops_ok account_ops_ok sub sub refl t'(1)] by blast
  have "\<forall>(a, st) \<in> set accts. slots_of storage a \<noteq> [] \<longrightarrow>
      compute_storage_root_with_db K (slots_of storage a) (acc_storage_root st) d = compute_storage_root K (slots_of storage a)
      \<and> (\<exists>r. compute_storage_root K (slots_of storage a) = Some (Ok r))"
  proof clarify
    fix a st assume st: "(a, st) \<in> set accts" "slots_of storage a \<noteq> []"
    then have e: "run_encs K None (slot_ops K (slots_of storage a)) \<subseteq> U" using assms(3) by (force simp: state_encs_def)
    have h: "acc_storage_root st = EMPTY_STORAGE_ROOT" "distinct (map fst (slots_of storage a))"
      "inj_on K (h256_bytes ` fst ` set (slots_of storage a))" "run_encs K None (slot_db_ops K (slots_of storage a)) \<subseteq> U"
      using assms(4) st by auto
    show "compute_storage_root_with_db K (slots_of storage a) (acc_storage_root st) d = compute_storage_root K (slots_of storage a)
      \<and> (\<exists>r. compute_storage_root K (slots_of storage a) = Some (Ok r))"
      using storage_roots_agree[OF assms(1,2) e h(4,2,3)] storage_root_runs[OF assms(1) e] unfolding h(1) by metis
  qed
  from insert_accounts_db_run[OF this t(1)] show ?thesis using t(2) t'(2) by (simp add: compute_state_root_with_db_def)
qed


section \<open>A worked state\<close>

definition small_hash :: "byte list \<Rightarrow> h256" where
  "small_hash bs = of_nat (be_val bs mod 2 ^ 160)"

lemma small_hash_values: "EMPTY_ROOT \<noteq> small_hash bs" "small_hash (addr_bytes 1) = 1" "small_hash (addr_bytes 2) = 2"
proof -
  have "unat (small_hash bs) < 2 ^ 160" unfolding small_hash_def by (simp add: unat_of_nat take_bit_eq_mod)
  moreover have "\<not> unat EMPTY_ROOT < 2 ^ 160" by (simp add: EMPTY_ROOT_def)
  ultimately show "EMPTY_ROOT \<noteq> small_hash bs" by metis
  show "small_hash (addr_bytes 1) = 1" "small_hash (addr_bytes 2) = 2"
    by (simp_all add: small_hash_def addr_bytes_def be_val_be_bytes)
qed

definition rich_account :: account_state where
  "rich_account = default_account_state\<lparr>acc_balance := 5\<rparr>"

lemma rich_ops: "account_ops K Map.empty [(1, rich_account)] = [TInsert (account_key K 1) (leaf_bytes rich_account)]"
  "account_ops K Map.empty [(2, default_account_state), (1, rich_account)] = [TInsert (account_key K 1) (leaf_bytes rich_account)]"
  by (simp_all add: account_ops_def skipped_def is_empty_account_def rich_account_def default_account_state_def is_eoa_def slots_of_def
      account_entry_eq sroot_def)

lemma rich_encs: "state_encs K Map.empty [(1, rich_account)] = {enc (node_of K (PLeaf (key_nibbles (account_key K 1)) (leaf_bytes rich_account)))}"
  "state_encs K Map.empty [(2, default_account_state), (1, rich_account)] = {enc (node_of K (PLeaf (key_nibbles (account_key K 1)) (leaf_bytes rich_account)))}"
  by (auto simp: state_encs_def rich_ops pput_def slots_of_def slot_ops_def encs_sub simp del: enc.simps)

lemma rich_free: "collision_free small_hash {e}"
  using small_hash_values(1) by (auto simp: collision_free_def)

text \<open>An empty account in front changes nothing, in memory as over a store that holds something.\<close>

lemma state_root_commits_witness:
  "\<exists>r r'. compute_state_root small_hash [(1, rich_account)] Map.empty = Some (Ok r)
    \<and> compute_state_root small_hash [(2, default_account_state), (1, rich_account)] Map.empty = Some (Ok r') \<and> r = r'"
proof -
  have l: "leaves small_hash Map.empty [(1, rich_account)] = leaves small_hash Map.empty [(2, default_account_state), (1, rich_account)]"
    by (auto simp: fun_eq_iff leaves_def skipped_def is_empty_account_def default_account_state_def is_eoa_def slots_of_def)
  have "\<exists>r r'. compute_state_root small_hash [(1, rich_account)] Map.empty = Some (Ok r)
    \<and> compute_state_root small_hash [(2, default_account_state), (1, rich_account)] Map.empty = Some (Ok r')
    \<and> (r = r' \<longleftrightarrow> leaves small_hash Map.empty [(1, rich_account)] = leaves small_hash Map.empty [(2, default_account_state), (1, rich_account)])"
  proof (rule state_root_commits)
    show "collision_free small_hash (state_encs small_hash Map.empty [(1, rich_account)]
        \<union> state_encs small_hash Map.empty [(2, default_account_state), (1, rich_account)])"
      unfolding rich_encs using rich_free by simp
    show "inj_on small_hash (addr_bytes ` fst ` set ([(1, rich_account)] @ [(2, default_account_state), (1, rich_account)]))"
      by (auto simp: inj_on_def small_hash_values)
  qed (simp_all add: account_fits_def rich_account_def default_account_state_def fits_def)
  then show ?thesis using l by simp
qed

text \<open>A store that holds the storage trie of account 1, whose slot 3 is written and whose slot 5 is cleared.\<close>

definition written_slots :: "address \<rightharpoonup> slots" where
  "written_slots = [1 \<mapsto> [(3, 7), (5, 0)]]"

definition slot_leaf :: pt where
  "slot_leaf = PLeaf (key_nibbles (slot_key small_hash 3)) [7]"

definition account_leaf :: pt where
  "account_leaf = PLeaf (key_nibbles (account_key small_hash 1))
     (leaf_bytes (rich_account\<lparr>acc_storage_root := sroot small_hash written_slots 1 rich_account\<rparr>))"

lemma last_rlp_str: "d \<noteq> [] \<Longrightarrow> length d < 2 ^ 64 \<Longrightarrow> last (rlp_str d) = last d \<and> rlp_str d \<noteq> []"
  by (cases rule: rlp_str_cases[of d]) auto

lemma last_rlp_list: "xs \<noteq> [] \<Longrightarrow> last xs \<noteq> [] \<Longrightarrow> last (rlp_list xs) = last (last xs) \<and> rlp_list xs \<noteq> []"
  by (cases xs rule: rev_cases) (auto simp: rlp_list_def)

lemma small_hash_last: "bs \<noteq> [] \<Longrightarrow> cs \<noteq> [] \<Longrightarrow> small_hash bs = small_hash cs \<Longrightarrow> last bs = last cs"
proof -
  have v: "unat (small_hash bs) mod 256 = unat (last bs)" if "bs \<noteq> []" for bs
  proof -
    have "unat (small_hash bs) = be_val bs mod 2 ^ 160" unfolding small_hash_def by (simp add: unat_of_nat take_bit_eq_mod)
    then have "unat (small_hash bs) mod 256 = be_val bs mod 256" using mod_mod_cancel[of 256 "2 ^ 160" "be_val bs"] by simp
    also have "\<dots> = unat (last bs)"
      using that unsigned_less[of "last bs"] by (cases bs rule: rev_cases) simp_all
    finally show ?thesis .
  qed
  assume "bs \<noteq> []" "cs \<noteq> []" "small_hash bs = small_hash cs"
  then have "unat (last bs) = unat (last cs)" using v by metis
  then show "last bs = last cs" by simp
qed

lemma small_hash_slots: "small_hash (h256_bytes 3) = 3" "small_hash (h256_bytes 5) = 5"
  by (simp_all add: small_hash_def h256_bytes_def be_val_be_bytes)

lemma seven: "rlp_str (strip_leading_zeros (h256_bytes 7)) = [7]"
proof -
  have "h256_bytes 7 = be_bytes 31 0 @ [7]" using be_bytes.simps(2)[of 31 7] by (simp add: h256_bytes_def)
  moreover have "be_bytes 31 0 = replicate 31 0" by code_simp
  moreover have "takeWhile (\<lambda>x. x = 0) (replicate n 0 @ [7 :: byte]) = replicate n 0" for n by (induction n) simp_all
  ultimately have "strip_leading_zeros (h256_bytes 7) = [7]" by (simp add: strip_leading_zeros_def)
  then show ?thesis by (simp add: rlp_str_def encode_string_def rlp_new_def)
qed

lemma written_ops:
  "slot_ops small_hash (slots_of written_slots 1) = [TInsert (slot_key small_hash 3) [7]]"
  "slot_db_ops small_hash (slots_of written_slots 1) = [TInsert (slot_key small_hash 3) [7], TDelete (slot_key small_hash 5)]"
  "account_ops small_hash written_slots [(1, rich_account)] =
     [TInsert (account_key small_hash 1) (leaf_bytes (rich_account\<lparr>acc_storage_root := sroot small_hash written_slots 1 rich_account\<rparr>))]"
  by (simp_all add: slot_ops_def slot_db_ops_def slots_of_def written_slots_def seven slot_key_def account_ops_def skipped_def account_entry_eq)

lemma written_encs:
  "run_encs small_hash None (slot_ops small_hash (slots_of written_slots 1)) = {enc (node_of small_hash slot_leaf)}"
  "run_encs small_hash None (slot_db_ops small_hash (slots_of written_slots 1)) = {enc (node_of small_hash slot_leaf)}"
  "state_encs small_hash written_slots [(1, rich_account)] = {enc (node_of small_hash slot_leaf), enc (node_of small_hash account_leaf)}"
proof -
  have "key_nibbles (slot_key small_hash 5) \<noteq> key_nibbles (slot_key small_hash 3)"
    by (simp add: key_nibbles_inj slot_key_def small_hash_slots)
  then show slots: "run_encs small_hash None (slot_ops small_hash (slots_of written_slots 1)) = {enc (node_of small_hash slot_leaf)}"
    "run_encs small_hash None (slot_db_ops small_hash (slots_of written_slots 1)) = {enc (node_of small_hash slot_leaf)}"
    by (simp_all add: written_ops slot_leaf_def pput_def encs_sub del: enc.simps)
  show "state_encs small_hash written_slots [(1, rich_account)] = {enc (node_of small_hash slot_leaf), enc (node_of small_hash account_leaf)}"
    by (auto simp: state_encs_def written_ops(3) slots account_leaf_def pput_def encs_sub simp del: enc.simps)
qed

lemma written_free: "collision_free small_hash {enc (node_of small_hash slot_leaf), enc (node_of small_hash account_leaf)}"
proof -
  let ?s = "enc (node_of small_hash slot_leaf)" and ?a = "enc (node_of small_hash account_leaf)"
  have s: "last ?s = 7 \<and> ?s \<noteq> []"
    using last_rlp_list[of "[rlp_str (encode_compact (key_nibbles (slot_key small_hash 3)) True), rlp_str [7]]"] last_rlp_str[of "[7]"]
    by (simp add: slot_leaf_def)
  have "last (h256_bytes EMPTY_CODE_HASH) = 0x70"
  proof -
    have "h256_bytes h = be_bytes 31 (unat h div 256) @ [of_nat (unat h)]" for h using be_bytes.simps(2)[of 31 "unat h"] by (simp add: h256_bytes_def)
    then show ?thesis by (simp add: EMPTY_CODE_HASH_def)
  qed
  moreover have "length (h256_bytes EMPTY_CODE_HASH) = 32" by simp
  moreover from this have "h256_bytes EMPTY_CODE_HASH \<noteq> []" by (metis list.size(3) zero_neq_numeral)
  ultimately have leaf: "last (leaf_bytes st) = 0x70" if "acc_code_hash st = EMPTY_CODE_HASH" "acc_vm st = VmEvm" for st
    using that last_rlp_str[of "h256_bytes EMPTY_CODE_HASH"]
      last_rlp_list[of "map rlp_str (account_items st (acc_storage_root st))"] by (simp add: leaf_bytes_def account_items_def)
  define st where "st = rich_account\<lparr>acc_storage_root := sroot small_hash written_slots 1 rich_account\<rparr>"
  have "last (leaf_bytes st) = 0x70" by (rule leaf) (simp_all add: st_def rich_account_def default_account_state_def)
  moreover have "leaf_bytes st \<noteq> []" "length (leaf_bytes st) < 2 ^ 64" using leaf_ok[of st] by simp_all
  ultimately have v: "last (rlp_str (leaf_bytes st)) = 0x70 \<and> rlp_str (leaf_bytes st) \<noteq> []" using last_rlp_str[of "leaf_bytes st"] by simp
  have "?a = rlp_list [rlp_str (encode_compact (key_nibbles (account_key small_hash 1)) True), rlp_str (leaf_bytes st)]"
    by (simp add: account_leaf_def st_def)
  then have "last ?a = 0x70 \<and> ?a \<noteq> []" using v last_rlp_list[of "[x, rlp_str (leaf_bytes st)]" for x] by simp
  then have "small_hash ?s \<noteq> small_hash ?a" using s small_hash_last[of ?s ?a] by auto
  then show ?thesis using small_hash_values(1) by (auto simp: collision_free_def simp del: enc.simps)
qed

lemma state_root_variants_agree_witness:
  "compute_state_root_with_db small_hash [(1, rich_account)] written_slots
      [small_hash (enc (node_of small_hash slot_leaf)) \<mapsto> enc (node_of small_hash slot_leaf)]
    = compute_state_root small_hash [(1, rich_account)] written_slots"
proof (rule state_root_variants_agree[OF written_free])
  have "slots_of written_slots 1 = [(3, 7), (5, 0)]" by (simp add: slots_of_def written_slots_def)
  then have "distinct (map fst (slots_of written_slots 1))" "inj_on small_hash (h256_bytes ` fst ` set (slots_of written_slots 1))"
    by (simp_all add: small_hash_slots)
  moreover have "acc_storage_root rich_account = EMPTY_STORAGE_ROOT" by (simp add: rich_account_def default_account_state_def)
  ultimately show "\<forall>(a, st) \<in> set [(1, rich_account)]. slots_of written_slots a \<noteq> [] \<longrightarrow> acc_storage_root st = EMPTY_STORAGE_ROOT
      \<and> distinct (map fst (slots_of written_slots a)) \<and> inj_on small_hash (h256_bytes ` fst ` set (slots_of written_slots a))
      \<and> run_encs small_hash None (slot_db_ops small_hash (slots_of written_slots a))
          \<subseteq> {enc (node_of small_hash slot_leaf), enc (node_of small_hash account_leaf)}"
    using written_encs(2) by (simp del: enc.simps)
qed (simp_all add: written_encs(3) sound_store_def del: enc.simps)

end
