(* ===== verification/Scheduler.thy ===== *)
theory Scheduler
  imports Mempool "HOL-Library.Multiset"
begin

text \<open>
  The lane scheduler of \<^verbatim>\<open>zbx-execution/src/scheduler.rs\<close>: what a transaction may read and write, when two
  such sets conflict, and the greedy assignment of transactions to lanes. The lemmas show that every
  transaction is in one lane, in order, and with the others of its sender; the last section shows that it
  is the transactions that conflict which the greedy rule puts into different lanes.
\<close>

section \<open>Access sets\<close>

datatype access_key = AccountKey address | StorageKey address h256 | Wildcard

record access_set =
  reads :: "access_key set"
  writes :: "access_key set"

definition no_access :: access_set where
  "no_access = \<lparr>reads = {}, writes = {}\<rparr>"

definition conflicts_with :: "access_set \<Rightarrow> access_set \<Rightarrow> bool" where
  "conflicts_with a b \<longleftrightarrow>
     Wildcard \<in> writes a \<or> Wildcard \<in> writes b \<or> Wildcard \<in> reads a \<or> Wildcard \<in> reads b
     \<or> (\<exists>w \<in> writes a. w \<in> reads b \<or> w \<in> writes b) \<or> (\<exists>w \<in> writes b. w \<in> reads a)"

definition extend_set :: "access_set \<Rightarrow> access_set \<Rightarrow> access_set" where
  "extend_set a b = \<lparr>reads = reads a \<union> reads b, writes = writes a \<union> writes b\<rparr>"

definition declare_entry :: "access_set \<Rightarrow> address \<times> h256 list \<Rightarrow> access_set" where
  "declare_entry s = (\<lambda>(a, slots).
     \<lparr>reads = reads s \<union> {AccountKey a} \<union> StorageKey a ` set slots, writes = writes s \<union> StorageKey a ` set slots\<rparr>)"

definition derive_access_set :: "signed_tx \<Rightarrow> access_set" where
  "derive_access_set t =
     (let s = \<lparr>reads = {AccountKey (tx_from t)}, writes = {AccountKey (tx_from t)}\<rparr> in
      case recipient (tx t) of
        None \<Rightarrow> s\<lparr>writes := insert Wildcard (writes s)\<rparr>
      | Some to \<Rightarrow>
          let s1 = \<lparr>reads = insert (AccountKey to) (reads s), writes = insert (AccountKey to) (writes s)\<rparr>
          in if tx_data (tx t) \<noteq> [] \<and> access_list (tx t) = [] then s1\<lparr>writes := insert Wildcard (writes s1)\<rparr>
             else foldl declare_entry s1 (access_list (tx t)))"

section \<open>Lanes\<close>

record lane_schedule =
  lanes :: "usize list list"
  lane_sets :: "access_set list"
  sender_lane :: "address \<rightharpoonup> usize"

definition lane_count :: "lane_schedule \<Rightarrow> usize" where
  "lane_count s = length (lanes s)"

definition tx_count :: "lane_schedule \<Rightarrow> usize" where
  "tx_count s = sum_list (map length (lanes s))"

fun first_free :: "access_set \<Rightarrow> access_set list \<Rightarrow> usize option" where
  "first_free a [] = None"
| "first_free a (l # ls) = (if \<not> conflicts_with l a then Some 0 else map_option Suc (first_free a ls))"

text \<open>\<open>min_by_key\<close> returns the first of the smallest lanes.\<close>

definition smallest_lane :: "usize list list \<Rightarrow> usize option" where
  "smallest_lane ls = (if ls = [] then None else Some (length (takeWhile (\<lambda>l. length l \<noteq> Min (length ` set ls)) ls)))"

definition push_lane :: "lane_schedule \<Rightarrow> usize \<Rightarrow> usize \<Rightarrow> access_set \<Rightarrow> lane_schedule" where
  "push_lane s i idx a = s\<lparr>lanes := (lanes s)[i := lanes s ! i @ [idx]], lane_sets := (lane_sets s)[i := extend_set (lane_sets s ! i) a]\<rparr>"

definition pin_sender :: "address \<Rightarrow> usize \<Rightarrow> lane_schedule \<Rightarrow> lane_schedule" where
  "pin_sender a i s = s\<lparr>sender_lane := (sender_lane s)(a \<mapsto> i)\<rparr>"

definition assign_lane :: "usize \<Rightarrow> lane_schedule \<Rightarrow> usize \<Rightarrow> signed_tx \<Rightarrow> (unit, lane_schedule) res" where
  "assign_lane max_lanes s idx t =
     (let a = derive_access_set t in
      case sender_lane s (tx_from t) of
        Some i \<Rightarrow> Ok (push_lane s i idx a)
      | None \<Rightarrow>
         (case first_free a (lane_sets s) of
            Some i \<Rightarrow> Ok (pin_sender (tx_from t) i (push_lane s i idx a))
          | None \<Rightarrow>
              if length (lanes s) < max_lanes
              then Ok (pin_sender (tx_from t) (length (lanes s)) (s\<lparr>lanes := lanes s @ [[idx]], lane_sets := lane_sets s @ [a]\<rparr>))
              else (case smallest_lane (lanes s) of
                      None \<Rightarrow> Panic
                    | Some i \<Rightarrow> Ok (pin_sender (tx_from t) i (push_lane s i idx a)))))"

fun assign_all :: "usize \<Rightarrow> lane_schedule \<Rightarrow> usize \<Rightarrow> signed_tx list \<Rightarrow> (unit, lane_schedule) res" where
  "assign_all max_lanes s idx [] = Ok s"
| "assign_all max_lanes s idx (t # ts) = bind_res (assign_lane max_lanes s idx t) (\<lambda>s1. assign_all max_lanes s1 (idx + 1) ts)"

definition schedule :: "signed_tx list \<Rightarrow> usize \<Rightarrow> (unit, lane_schedule) res" where
  "schedule txs max_lanes = assign_all max_lanes \<lparr>lanes = [], lane_sets = [], sender_lane = Map.empty\<rparr> 0 txs"

section \<open>Every transaction in one lane, in order\<close>

text \<open>What a lane touches, and the schedule after the transactions \<open>ts\<close>.\<close>

definition lane_access :: "signed_tx list \<Rightarrow> usize list \<Rightarrow> access_set" where
  "lane_access ts l = foldl extend_set no_access (map (\<lambda>j. derive_access_set (ts ! j)) l)"

lemma lane_access_snoc: "lane_access ts (l @ [j]) = extend_set (lane_access ts l) (derive_access_set (ts ! j))"
  by (simp add: lane_access_def)

lemma lane_access_single: "lane_access (ts @ [t]) [length ts] = derive_access_set t"
  by (simp add: lane_access_def no_access_def extend_set_def)

lemma lane_access_old: "\<forall>j \<in> set l. j < length ts \<Longrightarrow> lane_access (ts @ [t]) l = lane_access ts l"
  unfolding lane_access_def by (intro arg_cong[of _ _ "foldl extend_set no_access"]) (simp add: nth_append)

definition sched_inv :: "usize \<Rightarrow> signed_tx list \<Rightarrow> lane_schedule \<Rightarrow> bool" where
  "sched_inv max_lanes ts s \<longleftrightarrow>
     length (lane_sets s) = length (lanes s) \<and> length (lanes s) \<le> max_lanes
     \<and> mset (concat (lanes s)) = mset [0 ..< length ts] \<and> list_all (sorted_wrt (<)) (lanes s)
     \<and> (\<forall>a i. sender_lane s a = Some i \<longrightarrow> i < length (lanes s))
     \<and> (\<forall>j < length ts. \<exists>i. sender_lane s (tx_from (ts ! j)) = Some i \<and> j \<in> set (lanes s ! i))
     \<and> (\<forall>i < length (lanes s). lane_sets s ! i = lane_access ts (lanes s ! i))"

lemma first_free_less: "first_free a ls = Some i \<Longrightarrow> i < length ls \<and> \<not> conflicts_with (ls ! i) a"
  by (induction ls arbitrary: i) (auto split: if_splits)

lemma smallest_lane_less: "smallest_lane ls = Some i \<Longrightarrow> i < length ls"
proof -
  assume "smallest_lane ls = Some i"
  then have ne: "ls \<noteq> []" and i: "i = length (takeWhile (\<lambda>l. length l \<noteq> Min (length ` set ls)) ls)"
    by (auto simp: smallest_lane_def split: if_splits)
  have "Min (length ` set ls) \<in> length ` set ls" using ne by (intro Min_in) auto
  then obtain l where "l \<in> set ls" "length l = Min (length ` set ls)" by auto
  then have "takeWhile (\<lambda>l. length l \<noteq> Min (length ` set ls)) ls \<noteq> ls" by (metis set_takeWhileD)
  then show ?thesis unfolding i by (metis length_takeWhile_le le_neq_implies_less takeWhile_eq_take take_all_iff order.refl)
qed

lemma mset_concat_update:
  "i < length ls \<Longrightarrow> mset (concat (ls[i := ls ! i @ [x]])) = add_mset x (mset (concat ls))"
proof (induction ls arbitrary: i)
  case (Cons l ls)
  then show ?case by (cases i) auto
qed simp

lemma in_lane_less: "sched_inv m ts s \<Longrightarrow> l \<in> set (lanes s) \<Longrightarrow> j \<in> set l \<Longrightarrow> j < length ts"
proof -
  assume "sched_inv m ts s" "l \<in> set (lanes s)" "j \<in> set l"
  moreover from this(1) have "set (concat (lanes s)) = set [0 ..< length ts]" unfolding sched_inv_def by (metis mset_eq_setD)
  ultimately show ?thesis by auto
qed

lemma push_inv:
  assumes "sched_inv m ts s" "i < length (lanes s)" "sl (tx_from t) = Some i" "\<forall>a j. sl a = Some j \<longrightarrow> a = tx_from t \<or> sender_lane s a = Some j"
    "\<forall>a j. sender_lane s a = Some j \<longrightarrow> sl a = Some j"
  shows "sched_inv m (ts @ [t]) ((push_lane s i (length ts) (derive_access_set t))\<lparr>sender_lane := sl\<rparr>)"
proof -
  have s: "length (lane_sets s) = length (lanes s)" "length (lanes s) \<le> m" "mset (concat (lanes s)) = mset [0 ..< length ts]"
    "list_all (sorted_wrt (<)) (lanes s)" "\<And>a i. sender_lane s a = Some i \<Longrightarrow> i < length (lanes s)"
    "\<And>j. j < length ts \<Longrightarrow> \<exists>i. sender_lane s (tx_from (ts ! j)) = Some i \<and> j \<in> set (lanes s ! i)"
    "\<And>i. i < length (lanes s) \<Longrightarrow> lane_sets s ! i = lane_access ts (lanes s ! i)"
    using assms(1) by (auto simp: sched_inv_def)
  have old: "lane_access (ts @ [t]) (lanes s ! k) = lane_access ts (lanes s ! k)" if "k < length (lanes s)" for k
    using in_lane_less[OF assms(1) nth_mem[OF that]] by (intro lane_access_old) blast
  have sorted: "sorted_wrt (<) (lanes s ! i @ [length ts])"
    using s(4) assms(2) in_lane_less[OF assms(1) nth_mem[OF assms(2)]] by (auto simp: sorted_wrt_append list_all_length)
  have "sl a = Some j \<Longrightarrow> j < length (lanes s)" for a j using assms(2,3,4) s(5) by (metis option.inject)
  moreover have "\<exists>k. sl (tx_from ((ts @ [t]) ! j)) = Some k \<and> j \<in> set ((lanes s)[i := lanes s ! i @ [length ts]] ! k)"
    if "j < length (ts @ [t])" for j
  proof (cases "j < length ts")
    case True
    then obtain k where "sender_lane s (tx_from (ts ! j)) = Some k" "j \<in> set (lanes s ! k)" using s(6) by blast
    then show ?thesis using True assms(2,5) s(5) by (auto simp: nth_append nth_list_update)
  next
    case False
    then show ?thesis using that assms(2,3) by (auto simp: nth_append)
  qed
  ultimately show ?thesis
    using s(1,2,3,4,7) assms(2) sorted old
    by (auto simp: sched_inv_def push_lane_def mset_concat_update nth_list_update list_all_length lane_access_snoc)
qed

lemma new_lane_inv:
  assumes "sched_inv m ts s" "length (lanes s) < m" "sender_lane s (tx_from t) = None"
  shows "sched_inv m (ts @ [t]) (pin_sender (tx_from t) (length (lanes s)) (s\<lparr>lanes := lanes s @ [[length ts]], lane_sets := lane_sets s @ [derive_access_set t]\<rparr>))"
proof -
  have s: "length (lane_sets s) = length (lanes s)" "mset (concat (lanes s)) = mset [0 ..< length ts]"
    "list_all (sorted_wrt (<)) (lanes s)" "\<And>a i. sender_lane s a = Some i \<Longrightarrow> i < length (lanes s)"
    "\<And>j. j < length ts \<Longrightarrow> \<exists>i. sender_lane s (tx_from (ts ! j)) = Some i \<and> j \<in> set (lanes s ! i)"
    "\<And>i. i < length (lanes s) \<Longrightarrow> lane_sets s ! i = lane_access ts (lanes s ! i)"
    using assms(1) by (auto simp: sched_inv_def)
  have old: "lane_access (ts @ [t]) (lanes s ! k) = lane_access ts (lanes s ! k)" if "k < length (lanes s)" for k
    using in_lane_less[OF assms(1) nth_mem[OF that]] by (intro lane_access_old) blast
  have "\<exists>k. ((sender_lane s)(tx_from t \<mapsto> length (lanes s))) (tx_from ((ts @ [t]) ! j)) = Some k \<and> j \<in> set ((lanes s @ [[length ts]]) ! k)"
    if "j < length (ts @ [t])" for j
  proof (cases "j < length ts")
    case True
    then obtain k where "sender_lane s (tx_from (ts ! j)) = Some k" "j \<in> set (lanes s ! k)" using s(5) by blast
    then show ?thesis using True assms(3) s(4) by (auto simp: nth_append)
  next
    case False
    then show ?thesis using that by (auto simp: nth_append)
  qed
  then show ?thesis
    using s(1,2,3,4,6) assms(2) old
    by (auto simp: sched_inv_def pin_sender_def nth_append less_Suc_eq lane_access_single)
qed

lemma assign_lane_inv:
  assumes "sched_inv m ts s" "0 < m"
  shows "\<exists>s'. assign_lane m s (length ts) t = Ok s' \<and> sched_inv m (ts @ [t]) s'"
proof (cases "sender_lane s (tx_from t)")
  case (Some i)
  have "i < length (lanes s)" using assms(1) Some by (auto simp: sched_inv_def)
  from push_inv[OF assms(1) this, of "sender_lane s" t] Some show ?thesis by (simp add: assign_lane_def push_lane_def)
next
  case None
  have pinned: "sched_inv m (ts @ [t]) (pin_sender (tx_from t) i (push_lane s i (length ts) (derive_access_set t)))" if "i < length (lanes s)" for i
    using push_inv[OF assms(1) that, of "(sender_lane s)(tx_from t \<mapsto> i)" t] None by (auto simp: pin_sender_def push_lane_def)
  show ?thesis
  proof (cases "first_free (derive_access_set t) (lane_sets s)")
    case (Some i)
    then have "i < length (lanes s)" using first_free_less[OF Some] assms(1) by (auto simp: sched_inv_def)
    with pinned Some None show ?thesis by (simp add: assign_lane_def)
  next
    case free: None
    show ?thesis
    proof (cases "length (lanes s) < m")
      case True
      with new_lane_inv[OF assms(1) True None] None free show ?thesis by (simp add: assign_lane_def)
    next
      case False
      then have "lanes s \<noteq> []" using assms(2) by auto
      then obtain i where i: "smallest_lane (lanes s) = Some i" by (simp add: smallest_lane_def)
      with pinned[OF smallest_lane_less[OF i]] None free False show ?thesis by (simp add: assign_lane_def)
    qed
  qed
qed

lemma assign_all_inv:
  "sched_inv m ts s \<Longrightarrow> 0 < m \<Longrightarrow> \<exists>s'. assign_all m s (length ts) us = Ok s' \<and> sched_inv m (ts @ us) s'"
proof (induction us arbitrary: ts s)
  case (Cons t us)
  obtain s1 where s1: "assign_lane m s (length ts) t = Ok s1" "sched_inv m (ts @ [t]) s1" using assign_lane_inv[OF Cons.prems] by blast
  from Cons.IH[OF s1(2) Cons.prems(2)] show ?case by (simp add: s1(1))
qed simp

text \<open>
  C19: With at least one lane the scheduler returns at most as many lanes as it may, every transaction is in
  exactly one of them, each lane runs its transactions in block order, and the transactions of a sender
  share a lane, so that their nonces stay in order.
\<close>

theorem schedule_places_all:
  assumes "0 < max_lanes"
  shows "\<exists>s. schedule txs max_lanes = Ok s \<and> lane_count s \<le> max_lanes \<and> tx_count s = length txs
    \<and> mset (concat (lanes s)) = mset [0 ..< length txs] \<and> list_all (sorted_wrt (<)) (lanes s)
    \<and> (\<forall>j < length txs. \<forall>k < length txs. tx_from (txs ! j) = tx_from (txs ! k) \<longrightarrow> (\<exists>l \<in> set (lanes s). j \<in> set l \<and> k \<in> set l))"
proof -
  have "sched_inv max_lanes [] \<lparr>lanes = [], lane_sets = [], sender_lane = Map.empty\<rparr>" by (simp add: sched_inv_def)
  from assign_all_inv[OF this assms, of txs] obtain s where s: "schedule txs max_lanes = Ok s" "sched_inv max_lanes txs s"
    by (auto simp: schedule_def)
  have "tx_count s = size (mset (concat (lanes s)))" by (simp add: tx_count_def length_concat)
  also have "\<dots> = length txs" using s(2) by (simp only: sched_inv_def) simp
  finally have n: "tx_count s = length txs" .
  have "\<exists>l \<in> set (lanes s). j \<in> set l \<and> k \<in> set l"
    if jk: "j < length txs" "k < length txs" "tx_from (txs ! j) = tx_from (txs ! k)" for j k
  proof -
    have at: "\<exists>i. sender_lane s (tx_from (txs ! n)) = Some i \<and> n \<in> set (lanes s ! i)" if "n < length txs" for n
      using s(2) that by (simp add: sched_inv_def)
    obtain i where i: "sender_lane s (tx_from (txs ! j)) = Some i" "j \<in> set (lanes s ! i)" using at[OF jk(1)] by blast
    moreover have "k \<in> set (lanes s ! i)" using at[OF jk(2)] i(1) jk(3) by simp
    moreover have "i < length (lanes s)" using s(2) i(1) by (simp add: sched_inv_def)
    ultimately show ?thesis by (intro bexI[of _ "lanes s ! i"]) auto
  qed
  with s n show ?thesis by (auto simp: sched_inv_def lane_count_def)
qed


section \<open>Conflicts end up in different lanes\<close>

text \<open>
  A lane is joined when its access set does not conflict, and lanes run in parallel. So of two transactions of
  different senders the ones that conflict are put into different lanes, and the ones that do not into the
  same.
\<close>

lemma schedule_separates_conflicts:
  assumes "tx_from t \<noteq> tx_from u" "1 < max_lanes"
  shows "\<exists>s. schedule [t, u] max_lanes = Ok s
    \<and> lanes s = (if conflicts_with (derive_access_set t) (derive_access_set u) then [[0], [1]] else [[0, 1]])"
  using assms by (auto simp: schedule_def assign_lane_def pin_sender_def push_lane_def)

text \<open>Two payments to one account conflict; two between separate pairs of accounts do not.\<close>

lemma shared_recipient_runs_in_parallel:
  assumes "tx_from t \<noteq> tx_from u" "recipient (tx t) = Some a" "recipient (tx u) = Some a"
    and "tx_data (tx t) = []" "tx_data (tx u) = []" "access_list (tx t) = []" "access_list (tx u) = []"
  shows "\<exists>s. schedule [t, u] 8 = Ok s \<and> lanes s = [[0], [1]]"
proof -
  have "conflicts_with (derive_access_set t) (derive_access_set u)"
    using assms by (auto simp: conflicts_with_def derive_access_set_def Let_def)
  then show ?thesis using schedule_separates_conflicts[OF assms(1), of 8] by simp
qed

definition payment :: "address \<Rightarrow> address \<Rightarrow> signed_tx" where
  "payment src dst = \<lparr>tx = \<lparr>tx_kind = DynamicFee, nonce = 0, max_priority_fee_per_gas = 0, max_fee_per_gas = 1, gas_limit = 21000,
      recipient = Some dst, tx_value = 0, tx_data = [], access_list = [], chain_id = 8989\<rparr>,
     sig = \<lparr>sig_v = 0, sig_r = 0, sig_s = 0\<rparr>, tx_from = src, tx_hash = 0\<rparr>"

lemma disjoint_payments_run_in_one_lane: "\<exists>s. schedule [payment 1 2, payment 3 4] 8 = Ok s \<and> lanes s = [[0, 1]]"
proof -
  have "\<not> conflicts_with (derive_access_set (payment 1 2)) (derive_access_set (payment 3 4))"
    by (simp add: conflicts_with_def derive_access_set_def payment_def)
  then show ?thesis using schedule_separates_conflicts[of "payment 1 2" "payment 3 4" 8] by (simp add: payment_def)
qed

lemma schedule_places_all_witness:
  "\<exists>s. schedule [payment 1 2, payment 3 4, payment 1 5] 2 = Ok s \<and> tx_count s = 3
    \<and> (\<exists>l \<in> set (lanes s). 0 \<in> set l \<and> 2 \<in> set l)"
  using schedule_places_all[of 2 "[payment 1 2, payment 3 4, payment 1 5]"]
  by (auto simp: payment_def numeral_2_eq_2)

end
