(* ===== verification/Slash_Registry.thy ===== *)
theory Slash_Registry
  imports Slashing
begin

text \<open>
  The registry of slash records, \<open>zbx-staking/src/slashing_v2.rs\<close>: evidence and records, slash amounts, and the
  life of a record from its submission over an appeal to its end. Hash maps are association lists; the hash and the
  BLS checks are parameters. The lemmas show how the status of a record may move, what a record keeps, and how
  the reward of the reporters is split.
\<close>

section \<open>Evidence and records\<close>

definition APPEAL_WINDOW_BLOCKS :: u64 where "APPEAL_WINDOW_BLOCKS = 172800"
definition WHISTLEBLOWER_REWARD_BPS :: u128 where "WHISTLEBLOWER_REWARD_BPS = 500"
definition SLASH_LIVENESS_DAILY :: u128 where "SLASH_LIVENESS_DAILY = 1"
definition EPOCH_LENGTH :: u64 where "EPOCH_LENGTH = 172800"
definition SLASH_RECORD_FORMAT_VERSION :: nat where "SLASH_RECORD_FORMAT_VERSION = 1"

datatype evidence_kind = EtDoubleSign | EtLivenessFault | EtConsecutiveMiss | EtInvalidBlock | EtSurrogateVote

datatype evidence_status = EvPending | EvAppealed | EvConfirmed | EvRejected | EvOverturned

record double_sign_proof =
  ds_height :: u64
  ds_round :: u64
  ds_phase :: byte
  ds_block_a :: h256
  ds_block_b :: h256
  ds_sig_a :: "byte list"
  ds_sig_b :: "byte list"
  ds_validator :: address
  ds_pubkey :: "byte list"

text \<open>\<open>pk_ok\<close> and \<open>sig_ok\<close> say that the bytes of a key and of a signature decode.\<close>

definition proof_verify ::
  "(byte list \<Rightarrow> bool) \<Rightarrow> (byte list \<Rightarrow> bool) \<Rightarrow> (byte list \<Rightarrow> byte list \<Rightarrow> h256 \<Rightarrow> bool) \<Rightarrow> double_sign_proof \<Rightarrow> bool" where
  "proof_verify pk_ok sig_ok verify p =
     (if ds_block_a p = ds_block_b p then False
      else if \<not> pk_ok (ds_pubkey p) then False
      else if length (ds_sig_a p) \<noteq> 96 \<or> length (ds_sig_b p) \<noteq> 96 then False
      else if \<not> sig_ok (ds_sig_a p) then False
      else if \<not> sig_ok (ds_sig_b p) then False
      else verify (ds_sig_a p) (ds_pubkey p) (ds_block_a p) \<and> verify (ds_sig_b p) (ds_pubkey p) (ds_block_b p))"

datatype block_violation =
    InvalidStateRoot h256 h256
  | InvalidTxRoot
  | GasLimitExceeded u64 u64
  | InvalidTimestamp u64 u64
  | ChainIdMismatch u64 u64

record invalid_block_proof =
  ib_block_hash :: h256
  ib_proposer :: address
  ib_violation :: block_violation

datatype slash_evidence_v2 =
    V2DoubleSign double_sign_proof
  | V2LivenessFault u64 u64 u64
  | V2ConsecutiveMiss u64 u64
  | V2InvalidBlock invalid_block_proof
  | V2SurrogateVote h256 h256 h256 address

primrec evidence_type :: "slash_evidence_v2 \<Rightarrow> evidence_kind" where
  "evidence_type (V2DoubleSign p) = EtDoubleSign"
| "evidence_type (V2LivenessFault e m t) = EtLivenessFault"
| "evidence_type (V2ConsecutiveMiss b c) = EtConsecutiveMiss"
| "evidence_type (V2InvalidBlock p) = EtInvalidBlock"
| "evidence_type (V2SurrogateVote h a b v) = EtSurrogateVote"

primrec evidence_offender :: "slash_evidence_v2 \<Rightarrow> address option" where
  "evidence_offender (V2DoubleSign p) = Some (ds_validator p)"
| "evidence_offender (V2LivenessFault e m t) = None"
| "evidence_offender (V2ConsecutiveMiss b c) = None"
| "evidence_offender (V2InvalidBlock p) = Some (ib_proposer p)"
| "evidence_offender (V2SurrogateVote h a b v) = Some v"

record slash_record =
  rec_id :: h256
  rec_type :: evidence_kind
  rec_offender :: address
  submitted_by :: address
  submit_block :: u64
  rec_evidence :: slash_evidence_v2
  rec_status :: evidence_status
  base_slash_wei :: u128
  final_slash_wei :: u128
  appeal_deadline :: u64
  reporters :: "address list"
  jailed_by_slash :: bool
  burn_applied :: bool
  format_version :: nat

primrec type_discriminant :: "evidence_kind \<Rightarrow> byte" where
  "type_discriminant EtDoubleSign = 0"
| "type_discriminant EtLivenessFault = 1"
| "type_discriminant EtConsecutiveMiss = 2"
| "type_discriminant EtInvalidBlock = 3"
| "type_discriminant EtSurrogateVote = 4"

definition compute_id :: "(byte list \<Rightarrow> h256) \<Rightarrow> address \<Rightarrow> u64 \<Rightarrow> evidence_kind \<Rightarrow> h256" where
  "compute_id sha3 who block et = sha3 (addr_bytes who @ le_bytes 8 block @ [type_discriminant et])"

section \<open>Slash amounts\<close>

primrec base_slash_bps :: "evidence_kind \<Rightarrow> u128" where
  "base_slash_bps EtDoubleSign = SLASH_DOUBLE_SIGN"
| "base_slash_bps EtLivenessFault = SLASH_LIVENESS_DAILY"
| "base_slash_bps EtConsecutiveMiss = 100"
| "base_slash_bps EtInvalidBlock = 2000"
| "base_slash_bps EtSurrogateVote = 500"

definition correlated_slash_bps :: "u128 \<Rightarrow> u64 \<Rightarrow> u64 \<Rightarrow> u128" where
  "correlated_slash_bps base n_slashed n_total =
     (if n_total = 0 then base
      else (let ratio_bps = wrap_mul 128 n_slashed 10000 div n_total;
                factor_fp = wrap_add 128 10000 (wrap_mul 128 3 ratio_bps);
                factor_sq = wrap_mul 128 factor_fp factor_fp div 10000;
                slashed = wrap_mul 128 base factor_sq div 10000
            in min slashed 10000))"

definition slash_amount_wei :: "u128 \<Rightarrow> u128 \<Rightarrow> u128" where
  "slash_amount_wei stake bps =
     (case checked_mul 128 stake bps of Some p \<Rightarrow> p div 10000 | None \<Rightarrow> sat_mul 128 (stake div 10000) bps)"

section \<open>The registry\<close>

datatype submit_outcome = NewRecord h256 | CoWitnessAdded h256 | AlreadyRecorded h256

primrec record_id :: "submit_outcome \<Rightarrow> h256" where
  "record_id (NewRecord rid) = rid"
| "record_id (CoWitnessAdded rid) = rid"
| "record_id (AlreadyRecorded rid) = rid"

record finalized_slash =
  slash_wei :: u128
  total_reward :: u128
  splits :: "(address \<times> u128) list"

record slash_registry =
  records :: "(h256 \<times> slash_record) list"
  epoch_slash_count :: "u64 \<times> address \<rightharpoonup> u64"
  total_validators :: u64

definition registry_new :: "u64 \<Rightarrow> slash_registry" where
  "registry_new n = \<lparr>records = [], epoch_slash_count = Map.empty, total_validators = n\<rparr>"

definition get_record :: "slash_registry \<Rightarrow> h256 \<Rightarrow> slash_record option" where
  "get_record reg rid = map_of (records reg) rid"

text \<open>Writing through the reference \<open>get_mut\<close> returns.\<close>

definition update_record :: "slash_registry \<Rightarrow> h256 \<Rightarrow> slash_record \<Rightarrow> slash_registry" where
  "update_record reg rid r = reg\<lparr>records := AList.update rid r (records reg)\<rparr>"

definition submit_evidence ::
  "(byte list \<Rightarrow> h256) \<Rightarrow> slash_registry \<Rightarrow> slash_evidence_v2 \<Rightarrow> address \<Rightarrow> u64 \<Rightarrow> u64 \<Rightarrow> u128
   \<Rightarrow> (staking_error, submit_outcome) res \<times> slash_registry" where
  "submit_evidence sha3 reg ev submitter current_block cur_epoch offender_stake =
     try_st (ok_or (evidence_offender ev) (InvalidEvidence ''cannot determine offender'')) reg (\<lambda>offender.
     let et = evidence_type ev;
         rid = compute_id sha3 offender current_block et
     in case get_record reg rid of
          Some existing \<Rightarrow>
            if rec_status existing \<noteq> EvPending then (Ok (AlreadyRecorded rid), reg)
            else if submitted_by existing = submitter \<or> submitter \<in> set (reporters existing)
            then (Ok (AlreadyRecorded rid), reg)
            else (Ok (CoWitnessAdded rid), update_record reg rid (existing\<lparr>reporters := reporters existing @ [submitter]\<rparr>))
        | None \<Rightarrow>
            let n_slashed = wrap_add 64 (case epoch_slash_count reg (cur_epoch, offender) of None \<Rightarrow> 0 | Some n \<Rightarrow> n) 1;
                base_bps = base_slash_bps et;
                corr_bps = correlated_slash_bps base_bps n_slashed (total_validators reg)
            in (Ok (NewRecord rid), update_record reg rid
                 \<lparr>rec_id = rid, rec_type = et, rec_offender = offender, submitted_by = submitter, submit_block = current_block,
                  rec_evidence = ev, rec_status = EvPending, base_slash_wei = slash_amount_wei offender_stake base_bps,
                  final_slash_wei = slash_amount_wei offender_stake corr_bps,
                  appeal_deadline = wrap_add 64 current_block APPEAL_WINDOW_BLOCKS, reporters = [],
                  jailed_by_slash = False, burn_applied = False, format_version = SLASH_RECORD_FORMAT_VERSION\<rparr>))"

definition set_jailed_by_slash :: "slash_registry \<Rightarrow> h256 \<Rightarrow> bool \<Rightarrow> slash_registry" where
  "set_jailed_by_slash reg rid jailed =
     (case get_record reg rid of Some r \<Rightarrow> update_record reg rid (r\<lparr>jailed_by_slash := jailed\<rparr>) | None \<Rightarrow> reg)"

definition set_burn_applied :: "slash_registry \<Rightarrow> h256 \<Rightarrow> slash_registry" where
  "set_burn_applied reg rid =
     (case get_record reg rid of Some r \<Rightarrow> update_record reg rid (r\<lparr>burn_applied := True\<rparr>) | None \<Rightarrow> reg)"

definition file_appeal :: "slash_registry \<Rightarrow> h256 \<Rightarrow> u64 \<Rightarrow> (staking_error, unit) res \<times> slash_registry" where
  "file_appeal reg rid current_block =
     try_st (ok_or (get_record reg rid) EvidenceNotFound) reg (\<lambda>r.
     if rec_status r \<noteq> EvPending then (Err AppealNotAllowed, reg)
     else if current_block > appeal_deadline r then (Err AppealWindowExpired, reg)
     else (Ok (), update_record reg rid (r\<lparr>rec_status := EvAppealed\<rparr>)))"

definition file_appeal_for_tx ::
  "slash_registry \<Rightarrow> h256 \<Rightarrow> address \<Rightarrow> u64 \<Rightarrow> (staking_error, slash_record) res \<times> slash_registry" where
  "file_appeal_for_tx reg rid sender current_block =
     try_st (ok_or (get_record reg rid) EvidenceNotFound) reg (\<lambda>r.
     if rec_offender r \<noteq> sender then (Err AppealNotByOffender, reg)
     else (let (res, reg1) = file_appeal reg rid current_block in
           try_st res reg1 (\<lambda>_. (case get_record reg1 rid of Some r1 \<Rightarrow> Ok r1 | None \<Rightarrow> Panic, reg1))))"

definition recompute_splits :: "slash_record \<Rightarrow> finalized_slash" where
  "recompute_splits r =
     (let slash = final_slash_wei r;
          reward = wrap_mul 128 slash WHISTLEBLOWER_REWARD_BPS div 10000;
          all_reporters = remdups_adj (sort (submitted_by r # reporters r));
          n = length all_reporters;
          per_reporter = (if n = 0 then 0 else reward div n)
      in \<lparr>slash_wei = slash, total_reward = reward, splits = map (\<lambda>a. (a, per_reporter)) all_reporters\<rparr>)"

definition finalize_slash ::
  "slash_registry \<Rightarrow> h256 \<Rightarrow> u64 \<Rightarrow> (staking_error, finalized_slash option) res \<times> slash_registry" where
  "finalize_slash reg rid current_block =
     try_st (ok_or (get_record reg rid) EvidenceNotFound) reg (\<lambda>r.
     if rec_status r \<noteq> EvPending then (Ok None, reg)
     else if current_block \<le> appeal_deadline r then (Ok None, reg)
     else (let r1 = r\<lparr>rec_status := EvConfirmed, format_version := SLASH_RECORD_FORMAT_VERSION, burn_applied := False\<rparr>
           in (Ok (Some (recompute_splits r1)), update_record reg rid r1)))"

definition overturn_slash :: "slash_registry \<Rightarrow> h256 \<Rightarrow> (staking_error, u128) res \<times> slash_registry" where
  "overturn_slash reg rid =
     try_st (ok_or (get_record reg rid) EvidenceNotFound) reg (\<lambda>r.
     if rec_status r \<noteq> EvAppealed then (Err OverturnNotAllowed, reg)
     else (Ok (final_slash_wei r), update_record reg rid (r\<lparr>rec_status := EvOverturned\<rparr>)))"

definition reject_appeal :: "slash_registry \<Rightarrow> h256 \<Rightarrow> (staking_error, u128) res \<times> slash_registry" where
  "reject_appeal reg rid =
     try_st (ok_or (get_record reg rid) EvidenceNotFound) reg (\<lambda>r.
     if rec_status r \<noteq> EvAppealed then (Err OverturnNotAllowed, reg)
     else (Ok (final_slash_wei r), update_record reg rid (r\<lparr>rec_status := EvConfirmed\<rparr>)))"

definition pending_count :: "slash_registry \<Rightarrow> usize" where
  "pending_count reg = length (filter (\<lambda>(_, r). rec_status r = EvPending) (records reg))"

definition lifetime_confirmed_slashes :: "slash_registry \<Rightarrow> address \<Rightarrow> u64" where
  "lifetime_confirmed_slashes reg who =
     cast 64 (length (filter (\<lambda>(_, r). rec_status r = EvConfirmed \<and> rec_offender r = who) (records reg)))"

definition insert_rehydrated_record :: "slash_registry \<Rightarrow> slash_record \<Rightarrow> slash_registry" where
  "insert_rehydrated_record reg r =
     (let reg1 = (if rec_status r = EvConfirmed \<or> rec_status r = EvPending \<or> rec_status r = EvAppealed
                  then (let key = (submit_block r div EPOCH_LENGTH, rec_offender r);
                            n = (case epoch_slash_count reg key of None \<Rightarrow> 0 | Some n \<Rightarrow> n)
                        in reg\<lparr>epoch_slash_count := (epoch_slash_count reg)(key \<mapsto> wrap_add 64 n 1)\<rparr>)
                  else reg)
      in update_record reg1 (rec_id r) r)"

section \<open>Lookups\<close>

lemma get_update [simp]:
  "get_record (update_record reg rid r) j = (if j = rid then Some r else get_record reg j)"
  by (simp add: get_record_def update_record_def update_conv')

lemma get_rehydrated [simp]:
  "get_record (insert_rehydrated_record reg r) j = (if j = rec_id r then Some r else get_record reg j)"
  by (simp add: insert_rehydrated_record_def Let_def) (simp add: get_record_def)

lemma get_marks [simp]:
  "get_record (set_burn_applied reg rid) j = (if j = rid then map_option (\<lambda>r. r\<lparr>burn_applied := True\<rparr>) (get_record reg j) else get_record reg j)"
  "get_record (set_jailed_by_slash reg rid b) j = (if j = rid then map_option (\<lambda>r. r\<lparr>jailed_by_slash := b\<rparr>) (get_record reg j) else get_record reg j)"
  by (auto simp: set_burn_applied_def set_jailed_by_slash_def split: option.splits)

lemma get_new [simp]: "get_record (registry_new n) rid = None"
  by (simp add: get_record_def registry_new_def)

lemma finalize_slash_Some:
  assumes "finalize_slash reg rid now = (Ok (Some f), reg')"
  obtains r where "get_record reg rid = Some r" "rec_status r = EvPending" "appeal_deadline r < now"
    "f = recompute_splits (r\<lparr>rec_status := EvConfirmed, format_version := SLASH_RECORD_FORMAT_VERSION, burn_applied := False\<rparr>)"
    "reg' = update_record reg rid (r\<lparr>rec_status := EvConfirmed, format_version := SLASH_RECORD_FORMAT_VERSION, burn_applied := False\<rparr>)"
  using assms by (auto simp: finalize_slash_def Let_def split: if_splits)

lemma finalize_slash_other: "finalize_slash reg rid now = (r, reg') \<Longrightarrow> \<forall>f. r \<noteq> Ok (Some f) \<Longrightarrow> reg' = reg"
  by (cases "get_record reg rid") (auto simp: finalize_slash_def Let_def split: if_splits)

lemma submit_evidence_cases:
  assumes "submit_evidence sha3 reg ev submitter block ep stake = (res, reg')"
  obtains (same) "reg' = reg" "\<And>out. res = Ok out \<Longrightarrow> \<exists>k. out = AlreadyRecorded k"
  | (fresh) k r where "res = Ok (NewRecord k)" "get_record reg k = None" "reg' = update_record reg k r"
      "rec_id r = k" "rec_status r = EvPending" "\<not> burn_applied r" "format_version r = SLASH_RECORD_FORMAT_VERSION"
  | (witness) k r more where "res = Ok (CoWitnessAdded k)" "get_record reg k = Some r" "rec_status r = EvPending"
      "reg' = update_record reg k (r\<lparr>reporters := more\<rparr>)"
proof (cases "evidence_offender ev")
  case None
  then show thesis using assms same by (auto simp: submit_evidence_def)
next
  case (Some who)
  define k where "k = compute_id sha3 who block (evidence_type ev)"
  show thesis
  proof (cases "get_record reg k")
    case None
    then show thesis using assms Some fresh[of k] by (auto simp: submit_evidence_def Let_def simp flip: k_def)
  next
    case (Some r)
    then show thesis using assms \<open>evidence_offender ev = Some who\<close> same witness[of k r]
      by (auto simp: submit_evidence_def Let_def simp flip: k_def split: if_splits)
  qed
qed

lemma file_appeal_cases:
  assumes "file_appeal_for_tx reg k sender now = (res, reg')"
  obtains (same) "reg' = reg" "\<And>r. res \<noteq> Ok r"
  | (appealed) r where "get_record reg k = Some r" "rec_status r = EvPending" "rec_offender r = sender" "now \<le> appeal_deadline r"
      "res = Ok (r\<lparr>rec_status := EvAppealed\<rparr>)" "reg' = update_record reg k (r\<lparr>rec_status := EvAppealed\<rparr>)"
proof (cases "get_record reg k")
  case None
  then show thesis using assms same by (auto simp: file_appeal_for_tx_def)
next
  case (Some r)
  then show thesis using assms same appealed[of r]
    by (auto simp: file_appeal_for_tx_def file_appeal_def Let_def split: if_splits)
qed

section \<open>The life of a record\<close>

datatype registry_event =
    RSubmit slash_evidence_v2 address u64 u64 u128
  | RAppeal h256 address u64
  | RFinalize h256 u64
  | ROverturn h256
  | RReject h256
  | RMarkBurn h256
  | RMarkJailed h256 bool

primrec registry_step :: "(byte list \<Rightarrow> h256) \<Rightarrow> slash_registry \<Rightarrow> registry_event \<Rightarrow> slash_registry" where
  "registry_step sha3 reg (RSubmit ev submitter block ep stake) = snd (submit_evidence sha3 reg ev submitter block ep stake)"
| "registry_step sha3 reg (RAppeal rid sender now) = snd (file_appeal_for_tx reg rid sender now)"
| "registry_step sha3 reg (RFinalize rid now) = snd (finalize_slash reg rid now)"
| "registry_step sha3 reg (ROverturn rid) = snd (overturn_slash reg rid)"
| "registry_step sha3 reg (RReject rid) = snd (reject_appeal reg rid)"
| "registry_step sha3 reg (RMarkBurn rid) = set_burn_applied reg rid"
| "registry_step sha3 reg (RMarkJailed rid b) = set_jailed_by_slash reg rid b"

text \<open>A pending record is appealed or confirmed, an appealed one overturned or confirmed, and the rest is final.\<close>

definition may_become :: "evidence_status \<Rightarrow> evidence_status \<Rightarrow> bool" where
  "may_become s s' \<longleftrightarrow> s' = s \<or> s = EvPending \<and> s' \<noteq> EvRejected \<or> s = EvAppealed \<and> s' \<in> {EvOverturned, EvConfirmed}"

definition follows :: "slash_record \<Rightarrow> slash_record \<Rightarrow> bool" where
  "follows r r' \<longleftrightarrow>
     rec_id r' = rec_id r \<and> rec_type r' = rec_type r \<and> rec_offender r' = rec_offender r \<and> rec_evidence r' = rec_evidence r
     \<and> submitted_by r' = submitted_by r \<and> final_slash_wei r' = final_slash_wei r \<and> appeal_deadline r' = appeal_deadline r
     \<and> may_become (rec_status r) (rec_status r') \<and> (\<exists>more. reporters r' = reporters r @ more)
     \<and> (rec_status r \<noteq> EvPending \<longrightarrow> reporters r' = reporters r \<and> (burn_applied r \<longrightarrow> burn_applied r'))"

lemma follows_refl [simp, intro]: "follows r r"
  by (simp add: follows_def may_become_def)

lemma follows_trans [trans]: "follows r s \<Longrightarrow> follows s t \<Longrightarrow> follows r t"
  unfolding follows_def may_become_def by (elim conjE exE) (intro conjI impI; auto)

lemma registry_follows:
  assumes "get_record reg rid = Some r"
  shows "\<exists>r'. get_record (registry_step sha3 reg e) rid = Some r' \<and> follows r r'"
proof (cases e)
  case (RSubmit ev submitter block ep stake)
  have add: "follows x (x\<lparr>reporters := reporters x @ [submitter]\<rparr>)" if "rec_status x = EvPending" for x
    using that by (simp add: follows_def may_become_def)
  show ?thesis using assms add
    by (cases "evidence_offender ev") (auto simp: RSubmit submit_evidence_def Let_def split: option.splits)
next
  case (RAppeal i sender now)
  have "follows x (x\<lparr>rec_status := EvAppealed\<rparr>)" if "rec_status x = EvPending" for x
    using that by (simp add: follows_def may_become_def)
  then show ?thesis using assms
    by (cases "get_record reg i") (auto simp: RAppeal file_appeal_for_tx_def file_appeal_def)
next
  case (RFinalize i now)
  have "follows x (x\<lparr>rec_status := EvConfirmed, format_version := n, burn_applied := False\<rparr>)" if "rec_status x = EvPending" for x n
    using that by (simp add: follows_def may_become_def)
  then show ?thesis using assms
    by (cases "get_record reg i") (auto simp: RFinalize finalize_slash_def Let_def)
next
  case (ROverturn i)
  have "follows x (x\<lparr>rec_status := EvOverturned\<rparr>)" if "rec_status x = EvAppealed" for x
    using that by (simp add: follows_def may_become_def)
  then show ?thesis using assms by (cases "get_record reg i") (auto simp: ROverturn overturn_slash_def)
next
  case (RReject i)
  have "follows x (x\<lparr>rec_status := EvConfirmed\<rparr>)" if "rec_status x = EvAppealed" for x
    using that by (simp add: follows_def may_become_def)
  then show ?thesis using assms by (cases "get_record reg i") (auto simp: RReject reject_appeal_def)
next
  case (RMarkBurn i)
  have "follows x (x\<lparr>burn_applied := True\<rparr>)" for x by (simp add: follows_def may_become_def)
  then show ?thesis using assms by (auto simp: RMarkBurn)
next
  case (RMarkJailed i b)
  have "follows x (x\<lparr>jailed_by_slash := b\<rparr>)" for x by (simp add: follows_def may_become_def)
  then show ?thesis using assms by (auto simp: RMarkJailed)
qed

interpretation life: inv_machine "registry_step sha3" "\<lambda>reg. \<exists>r'. get_record reg rid = Some r' \<and> follows r r'" "\<lambda>_. True"
  for sha3 rid r
  using registry_follows follows_trans by unfold_locales blast

text \<open>
  Whatever sequence of submissions, appeals, finalizations, overturns, rejections and marks the registry
  sees, a record it holds stays, with its offender, evidence, reporter, slash and deadline. Its status moves from pending to
  appealed or confirmed and from appealed to overturned or confirmed only, and once it is no longer pending its reporters are fixed and
  a burn marked as applied stays so.
\<close>

theorem record_lifecycle:
  assumes "get_record reg rid = Some r"
  shows "\<exists>r'. get_record (foldl (registry_step sha3) reg es) rid = Some r' \<and> follows r r'"
  using assms by (intro life.inv_run) (auto simp: list_all_iff)

section \<open>Amounts\<close>

lemma correlated_le: "base \<le> 10000 \<Longrightarrow> correlated_slash_bps base n m \<le> 10000"
  unfolding correlated_slash_bps_def Let_def by (auto intro: min.cobounded2)

lemma slash_amount_le:
  assumes "bps \<le> 10000"
  shows "slash_amount_wei stake bps \<le> stake"
proof (cases "checked_mul 128 stake bps")
  case None
  have "slash_amount_wei stake bps \<le> stake div 10000 * bps" unfolding slash_amount_wei_def None option.case by (rule sat_mul_le)
  also have "\<dots> \<le> stake div 10000 * 10000" using assms by (rule mult_le_mono2)
  also have "\<dots> \<le> stake" by (rule div_times_less_eq_dividend)
  finally show ?thesis .
next
  case (Some p)
  then have "p = stake * bps" unfolding checked_mul_Some ..
  then have "slash_amount_wei stake bps = stake * bps div 10000" unfolding slash_amount_wei_def Some option.case by (rule arg_cong)
  also have "\<dots> \<le> stake * 10000 div 10000" using assms by (intro div_le_mono mult_le_mono2)
  also have "\<dots> = stake" by (rule nonzero_mult_div_cancel_right) simp
  finally show ?thesis .
qed

lemma base_bps_le: "base_slash_bps et \<le> 10000"
  by (cases et) (simp_all add: SLASH_DOUBLE_SIGN_def SLASH_LIVENESS_DAILY_def)

lemma submitted_slash_le_stake:
  assumes "submit_evidence sha3 reg ev submitter block ep stake = (Ok (NewRecord rid), reg')"
  shows "\<exists>r. get_record reg' rid = Some r \<and> rec_status r = EvPending \<and> final_slash_wei r \<le> stake \<and> base_slash_wei r \<le> stake
    \<and> submitted_by r = submitter \<and> Some (rec_offender r) = evidence_offender ev"
  using assms slash_amount_le[OF correlated_le[OF base_bps_le]] slash_amount_le[OF base_bps_le]
  by (cases "evidence_offender ev") (auto simp: submit_evidence_def Let_def split: option.splits if_splits)

lemma distinct_remdups_sorted: "sorted xs \<Longrightarrow> distinct (remdups_adj xs)" for xs :: "address list"
  by (induction xs rule: remdups_adj.induct) (auto simp: less_le)

lemma splits_fair:
  fixes r :: slash_record
  defines "f \<equiv> recompute_splits r"
  shows "slash_wei f = final_slash_wei r" "sorted (map fst (splits f))" "distinct (map fst (splits f))"
    "fst ` set (splits f) = insert (submitted_by r) (set (reporters r))"
    "\<forall>(a, w) \<in> set (splits f). w = total_reward f div card (insert (submitted_by r) (set (reporters r)))"
    "total_reward f = final_slash_wei r * 500 mod 2 ^ 128 div 10000"
    "sum_list (map snd (splits f)) \<le> total_reward f" "20 * total_reward f \<le> slash_wei f"
proof -
  define xs where "xs = sort (submitted_by r # reporters r)"
  define as where "as = remdups_adj xs"
  define reward where "reward = wrap_mul 128 (final_slash_wei r) WHISTLEBLOWER_REWARD_BPS div 10000"
  have xs: "sorted xs" "set xs = insert (submitted_by r) (set (reporters r))" unfolding xs_def by (rule sorted_sort) (simp only: set_sort list.simps)
  have as: "sorted as" "distinct as" "set as = insert (submitted_by r) (set (reporters r))"
    using xs distinct_remdups_sorted[OF xs(1)] by (simp_all add: as_def)
  have f: "f = \<lparr>slash_wei = final_slash_wei r, total_reward = reward, splits = map (\<lambda>a. (a, reward div length as)) as\<rparr>"
    unfolding f_def recompute_splits_def Let_def as_def xs_def reward_def by simp
  have "wrap_mul 128 (final_slash_wei r) WHISTLEBLOWER_REWARD_BPS \<le> final_slash_wei r * 500"
    by (simp add: wrap_mul_def WHISTLEBLOWER_REWARD_BPS_def)
  then have "20 * reward \<le> final_slash_wei r" unfolding reward_def by linarith
  moreover have card: "length as = card (insert (submitted_by r) (set (reporters r)))" using distinct_card[OF as(2)] as(3) by simp
  ultimately show "slash_wei f = final_slash_wei r" "sorted (map fst (splits f))" "distinct (map fst (splits f))"
    "fst ` set (splits f) = insert (submitted_by r) (set (reporters r))"
    "\<forall>(a, w) \<in> set (splits f). w = total_reward f div card (insert (submitted_by r) (set (reporters r)))"
    "total_reward f = final_slash_wei r * 500 mod 2 ^ 128 div 10000"
    "sum_list (map snd (splits f)) \<le> total_reward f" "20 * total_reward f \<le> slash_wei f"
    using as card by (simp_all add: f o_def image_image sum_list_triv reward_def wrap_mul_def WHISTLEBLOWER_REWARD_BPS_def)
qed

text \<open>
  C24: A finalization confirms a pending record after its deadline and rewards each distinct reporter once, in address
  order, with the same share, the total reward divided by their number. The total reward is 500 of 10000 parts of the
  slash, the product taken at 128 bits, so at most a twentieth of the slash, and the shares together are at most the total.
\<close>

theorem finalized_rewards:
  assumes "finalize_slash reg rid now = (Ok (Some f), reg')"
  shows "\<exists>r r'. get_record reg rid = Some r \<and> rec_status r = EvPending \<and> appeal_deadline r < now
    \<and> get_record reg' rid = Some r' \<and> rec_status r' = EvConfirmed \<and> \<not> burn_applied r' \<and> follows r r'
    \<and> slash_wei f = final_slash_wei r \<and> sorted (map fst (splits f)) \<and> distinct (map fst (splits f))
    \<and> fst ` set (splits f) = insert (submitted_by r) (set (reporters r))
    \<and> (\<forall>(a, w) \<in> set (splits f). w = total_reward f div card (insert (submitted_by r) (set (reporters r))))
    \<and> total_reward f = slash_wei f * 500 mod 2 ^ 128 div 10000
    \<and> sum_list (map snd (splits f)) \<le> total_reward f \<and> 20 * total_reward f \<le> slash_wei f"
proof -
  obtain r where r: "get_record reg rid = Some r" "rec_status r = EvPending" "appeal_deadline r < now"
    and f: "f = recompute_splits (r\<lparr>rec_status := EvConfirmed, format_version := SLASH_RECORD_FORMAT_VERSION, burn_applied := False\<rparr>)"
    and reg': "reg' = update_record reg rid (r\<lparr>rec_status := EvConfirmed, format_version := SLASH_RECORD_FORMAT_VERSION, burn_applied := False\<rparr>)"
    using assms by (rule finalize_slash_Some)
  define r' where "r' = r\<lparr>rec_status := EvConfirmed, format_version := SLASH_RECORD_FORMAT_VERSION, burn_applied := False\<rparr>"
  have "get_record reg' rid = Some r'" "rec_status r' = EvConfirmed" "\<not> burn_applied r'" "follows r r'"
    "final_slash_wei r' = final_slash_wei r" "submitted_by r' = submitted_by r" "reporters r' = reporters r"
    using r by (simp_all add: reg' r'_def follows_def may_become_def)
  then show ?thesis using r splits_fair[of r'] unfolding f r'_def[symmetric] by (intro exI[of _ r] exI[of _ r']) simp
qed

section \<open>Documentation and code\<close>

text \<open>
  The correlated slash is meant to grow with the number of slashed validators, but a submission never counts: only the
  records inserted after a restart do. So two nodes compute different slashes for the same evidence.
\<close>

definition surrogate :: slash_evidence_v2 where "surrogate = V2SurrogateVote 1 2 3 7"

lemma submission_not_counted: "epoch_slash_count (snd (submit_evidence sha3 reg ev submitter block ep stake)) = epoch_slash_count reg"
  by (cases "evidence_offender ev")
     (auto simp: submit_evidence_def Let_def update_record_def split: option.splits)

lemma restart_changes_slash:
  fixes sha3 :: "byte list \<Rightarrow> h256"
  defines "slash reg \<equiv> map_option final_slash_wei (get_record (snd (submit_evidence sha3 reg surrogate 1 6 0 1000000)) (compute_id sha3 7 6 EtSurrogateVote))"
  defines "first \<equiv> snd (submit_evidence sha3 (registry_new 10) surrogate 1 5 0 1000000)"
  assumes "compute_id sha3 7 5 EtSurrogateVote \<noteq> compute_id sha3 7 6 EtSurrogateVote"
  shows "slash first = Some 84500"
    and "slash (foldl insert_rehydrated_record (registry_new 10) (map snd (records first))) = Some 128000"
proof -
  have amounts: "slash_amount_wei 1000000 (correlated_slash_bps 500 (Suc 0) 10) = 84500" "slash_amount_wei 1000000 (correlated_slash_bps 500 2 10) = 128000"
    by (simp_all add: correlated_slash_bps_def slash_amount_wei_def checked_mul_def Let_def)
  have wrap: "wrap_add 64 0 1 = Suc 0" "wrap_add 64 0 (Suc 0) = Suc 0" "wrap_add 64 1 1 = 2" "wrap_add 64 (Suc 0) (Suc 0) = 2" by (simp_all add: wrap_add_def)
  show "slash first = Some 84500"
    using assms(3) by (simp add: slash_def first_def submit_evidence_def surrogate_def get_record_def update_record_def registry_new_def Let_def wrap amounts)
  show "slash (foldl insert_rehydrated_record (registry_new 10) (map snd (records first))) = Some 128000"
    using assms(3) by (simp add: slash_def first_def submit_evidence_def surrogate_def get_record_def update_record_def registry_new_def
        insert_rehydrated_record_def EPOCH_LENGTH_def Let_def wrap amounts)
qed

section \<open>A concrete registry\<close>

definition reported :: slash_registry where
  "reported = snd (submit_evidence (\<lambda>_. 3) (registry_new 0) surrogate 1 5 0 1000)"

lemma reported_record: "\<exists>r. get_record reported 3 = Some r \<and> rec_status r = EvPending \<and> appeal_deadline r = 172805 \<and> submitted_by r = 1"
  by (simp add: reported_def submit_evidence_def surrogate_def compute_id_def Let_def APPEAL_WINDOW_BLOCKS_def)

lemma record_lifecycle_witness:
  "\<exists>r r'. get_record reported 3 = Some r \<and> follows r r'
    \<and> get_record (foldl (registry_step (\<lambda>_. 3)) reported [RAppeal 3 7 10, ROverturn 3, RFinalize 3 200000]) 3 = Some r'"
  using reported_record record_lifecycle by blast

lemma finalized_rewards_witness:
  "\<exists>f reg'. finalize_slash reported 3 200000 = (Ok (Some f), reg') \<and> fst ` set (splits f) \<supseteq> {1} \<and> 20 * total_reward f \<le> slash_wei f"
proof -
  obtain r where r: "get_record reported 3 = Some r" "rec_status r = EvPending" "appeal_deadline r = 172805" "submitted_by r = 1"
    using reported_record by blast
  obtain f reg' where f: "finalize_slash reported 3 200000 = (Ok (Some f), reg')"
    using r by (simp add: finalize_slash_def Let_def)
  show ?thesis using finalized_rewards[OF f] r f by auto
qed

end
