(* ===== verification/Slash_Pipeline.thy ===== *)
theory Slash_Pipeline
  imports Slash_Registry Votes
begin

text \<open>
  The slashing pipeline, \<open>zbx-staking/src/pipeline.rs\<close>, over the evidence store of \<open>persistence.rs\<close> and with the
  appeal transaction of \<open>tx_handler.rs\<close>: evidence becomes a record, a pending record whose deadline is over burns
  stake, an overturned one is refunded. A column of the store is the list of its entries in key order, as RocksDB
  iterates it. A node that ends in the middle of a tick leaves a prefix of the writes of the tick, which is what a failing write
  comes to. The lemmas show what a burn does to the validator set, that a record is burned at most once, also over the
  replay after such a crash, and what the replay burns.
\<close>

section \<open>The store\<close>

datatype bond_kind = Whistleblower | Appeal

record bond_entry =
  bond_wei :: u128
  bond_kind :: bond_kind

record evidence_store =
  stored_evidence :: "h256 \<rightharpoonup> equivocation_evidence"
  stored_records :: "(h256 \<times> slash_record) list"
  stored_bonds :: "((h256 \<times> address) \<times> bond_entry) list"

fun put_key :: "'k::linorder \<Rightarrow> 'v \<Rightarrow> ('k \<times> 'v) list \<Rightarrow> ('k \<times> 'v) list" where
  "put_key k v [] = [(k, v)]"
| "put_key k v ((k1, v1) # rest) =
     (if k < k1 then (k, v) # (k1, v1) # rest
      else if k = k1 then (k, v) # rest
      else (k1, v1) # put_key k v rest)"

definition put_evidence :: "(equivocation_evidence \<Rightarrow> h256) \<Rightarrow> evidence_store \<Rightarrow> equivocation_evidence \<Rightarrow> evidence_store" where
  "put_evidence evidence_id st ev = st\<lparr>stored_evidence := (stored_evidence st)(evidence_id ev \<mapsto> ev)\<rparr>"

definition put_record :: "evidence_store \<Rightarrow> slash_record \<Rightarrow> evidence_store" where
  "put_record st r = st\<lparr>stored_records := put_key (rec_id r) r (stored_records st)\<rparr>"

definition load_all_records :: "evidence_store \<Rightarrow> slash_record list" where
  "load_all_records st = map snd (stored_records st)"

definition load_records_ready_to_finalize :: "evidence_store \<Rightarrow> u64 \<Rightarrow> slash_record list" where
  "load_records_ready_to_finalize st current_block =
     filter (\<lambda>r. rec_status r = EvPending \<and> current_block > appeal_deadline r) (load_all_records st)"

definition load_records_with_unapplied_burn :: "evidence_store \<Rightarrow> slash_record list" where
  "load_records_with_unapplied_burn st =
     filter (\<lambda>r. format_version r \<ge> SLASH_RECORD_FORMAT_VERSION \<and> rec_status r = EvConfirmed \<and> \<not> burn_applied r) (load_all_records st)"

definition put_bond :: "evidence_store \<Rightarrow> h256 \<Rightarrow> address \<Rightarrow> bond_entry \<Rightarrow> evidence_store" where
  "put_bond st rid reporter bond = st\<lparr>stored_bonds := put_key (rid, reporter) bond (stored_bonds st)\<rparr>"

definition delete_bond :: "evidence_store \<Rightarrow> h256 \<Rightarrow> address \<Rightarrow> evidence_store" where
  "delete_bond st rid reporter = st\<lparr>stored_bonds := AList.delete (rid, reporter) (stored_bonds st)\<rparr>"

definition list_bonds_for_record :: "evidence_store \<Rightarrow> h256 \<Rightarrow> (address \<times> bond_entry) list" where
  "list_bonds_for_record st rid = map (\<lambda>((_, a), b). (a, b)) (filter (\<lambda>((i, _), _). i = rid) (stored_bonds st))"

definition evidence_to_double_sign :: "equivocation_evidence \<Rightarrow> slash_evidence_v2" where
  "evidence_to_double_sign ev = V2DoubleSign
     \<lparr>ds_height = block_number (vdata (vote_a ev)), ds_round = ev_round ev, ds_phase = ev_phase ev,
      ds_block_a = block_hash (vdata (vote_a ev)), ds_block_b = block_hash (vdata (vote_b ev)),
      ds_sig_a = vsignature (vote_a ev), ds_sig_b = vsignature (vote_b ev),
      ds_validator = ev_validator ev, ds_pubkey = ev_pubkey ev\<rparr>"

section \<open>Burning stake\<close>

definition burn_status :: "validator_status \<Rightarrow> bool \<Rightarrow> validator_status \<times> bool \<times> bool" where
  "burn_status s force_tombstone =
     (if s = Tombstoned then (s, False, False)
      else if force_tombstone then (Tombstoned, False, True)
      else if s = Active then (Jailed, True, False)
      else (s, False, False))"

definition reward_reporter :: "validator_set \<Rightarrow> address \<times> u128 \<Rightarrow> validator_set" where
  "reward_reporter vs = (\<lambda>(reporter, reward).
     case get vs reporter of
       Some w \<Rightarrow> put vs reporter (w\<lparr>pending_rewards := sat_add 128 (pending_rewards w) reward\<rparr>)
     | None \<Rightarrow> vs)"

definition apply_slash_burn_v2 ::
  "validator_set \<Rightarrow> address \<Rightarrow> u128 \<Rightarrow> (address \<times> u128) list \<Rightarrow> bool \<Rightarrow> (bool \<times> bool) \<times> validator_set" where
  "apply_slash_burn_v2 vs who slash sp force_tombstone =
     (let (jt, vs1) =
        (case get vs who of
           Some v \<Rightarrow>
             (let (s, jailed, tombstoned) = burn_status (status v) force_tombstone
              in ((jailed, tombstoned), put vs who (v\<lparr>self_stake := self_stake v - min slash (self_stake v), status := s\<rparr>)))
         | None \<Rightarrow> ((False, False), vs));
          vs2 = foldl reward_reporter vs1 sp
      in (jt, vs2\<lparr>active_set := filter (\<lambda>a. a \<noteq> who) (active_set vs2)\<rparr>))"

section \<open>The pipeline\<close>

record pipeline =
  store :: evidence_store
  registry :: slash_registry
  vset :: validator_set

record applied_slash =
  as_record :: h256
  as_offender :: address
  burn_wei :: u128
  whistleblower_wei :: u128
  whistleblower :: address
  as_reporters :: "address list"
  as_splits :: "u128 list"
  jailed :: bool
  tombstoned :: bool

record applied_overturn =
  ov_record :: h256
  ov_offender :: address
  refunded_wei :: u128
  appeal_bond_refunded_wei :: u128
  bonds_forfeited_wei :: u128
  unjailed :: bool

definition rehydrate_from_disk :: "pipeline \<Rightarrow> (staking_error, usize) res \<times> pipeline" where
  "rehydrate_from_disk p =
     (let rs = load_all_records (store p) in
      if rs = [] then (Ok 0, p)
      else (Ok (length rs), p\<lparr>registry := foldl insert_rehydrated_record (registry p) rs\<rparr>))"

definition ingest_equivocation ::
  "crypto \<Rightarrow> (byte list \<Rightarrow> h256) \<Rightarrow> (equivocation_evidence \<Rightarrow> h256) \<Rightarrow> pipeline \<Rightarrow> equivocation_evidence \<Rightarrow> address
   \<Rightarrow> u64 \<Rightarrow> u64 \<Rightarrow> u128 \<Rightarrow> (staking_error, h256) res \<times> pipeline" where
  "ingest_equivocation c sha3 evidence_id p ev submitter current_block cur_epoch offender_stake =
     (if \<not> evidence_verify c ev then (Err (InvalidEvidence ''evidence failed BLS / structural re-verification''), p)
      else (let p1 = p\<lparr>store := put_evidence evidence_id (store p) ev\<rparr>;
                (res, reg) = submit_evidence sha3 (registry p1) (evidence_to_double_sign ev) submitter current_block cur_epoch offender_stake;
                p2 = p1\<lparr>registry := reg\<rparr>
            in try_st res p2 (\<lambda>outcome.
               let rid = record_id outcome in
               try_st (ok_or (get_record reg rid) (Persistence ''submitted record vanished from registry'')) p2 (\<lambda>r.
               (Ok rid,
                (case outcome of
                   AlreadyRecorded _ \<Rightarrow> p2
                 | _ \<Rightarrow> p2\<lparr>store := put_bond (put_record (store p2) r) rid submitter \<lparr>bond_wei = 0, bond_kind = Whistleblower\<rparr>\<rparr>))))))"

definition mark_applied :: "pipeline \<Rightarrow> h256 \<Rightarrow> bool \<Rightarrow> pipeline" where
  "mark_applied p rid also_jailed =
     (let reg1 = set_burn_applied (registry p) rid;
          reg2 = (if also_jailed then set_jailed_by_slash reg1 rid True else reg1)
      in p\<lparr>registry := reg2, store := (case get_record reg2 rid of Some r \<Rightarrow> put_record (store p) r | None \<Rightarrow> store p)\<rparr>)"

definition burn_record :: "pipeline \<Rightarrow> slash_record \<Rightarrow> finalized_slash \<Rightarrow> bool \<Rightarrow> applied_slash \<times> pipeline" where
  "burn_record p r f force_tombstone =
     (let ((j, t), vs) = apply_slash_burn_v2 (vset p) (rec_offender r) (slash_wei f) (splits f) force_tombstone
      in (\<lparr>as_record = rec_id r, as_offender = rec_offender r, burn_wei = slash_wei f, whistleblower_wei = total_reward f,
           whistleblower = (case splits f of [] \<Rightarrow> rec_offender r | (a, _) # _ \<Rightarrow> a),
           as_reporters = map fst (splits f), as_splits = map snd (splits f), jailed = j, tombstoned = t\<rparr>,
          mark_applied (p\<lparr>vset := vs\<rparr>) (rec_id r) (j \<or> t)))"

definition already_slashed :: "validator_set \<Rightarrow> slash_record \<Rightarrow> bool" where
  "already_slashed vs r =
     (case get vs (rec_offender r) of
        None \<Rightarrow> True
      | Some v \<Rightarrow> self_stake v < final_slash_wei r
          \<or> (jailed_by_slash r \<and> (status v = Jailed \<or> status v = Tombstoned)) \<or> status v \<noteq> Active)"

definition tombstones :: "slash_registry \<Rightarrow> slash_record \<Rightarrow> evidence_kind \<Rightarrow> bool" where
  "tombstones reg r et \<longleftrightarrow> lifetime_confirmed_slashes reg (rec_offender r) \<ge> 2 \<or> et = EtInvalidBlock"

fun replay_loop :: "u64 \<Rightarrow> pipeline \<Rightarrow> slash_record list \<Rightarrow> applied_slash list \<times> pipeline" where
  "replay_loop current_block p [] = ([], p)"
| "replay_loop current_block p (r # rs) =
     (if current_block \<le> appeal_deadline r then replay_loop current_block p rs
      else if already_slashed (vset p) r then replay_loop current_block (mark_applied p (rec_id r) False) rs
      else (let (a, p1) = burn_record p r (recompute_splits r) (tombstones (registry p) r (rec_type r));
                (as, p2) = replay_loop current_block p1 rs
            in (a # as, p2)))"

fun finalize_loop :: "u64 \<Rightarrow> pipeline \<Rightarrow> slash_record list \<Rightarrow> applied_slash list \<Rightarrow> (staking_error, applied_slash list) res \<times> pipeline" where
  "finalize_loop current_block p [] applied = (Ok applied, p)"
| "finalize_loop current_block p (rec # rs) applied =
     (let (res, reg) = finalize_slash (registry p) (rec_id rec) current_block;
          p1 = p\<lparr>registry := reg\<rparr>
      in try_st res p1 (\<lambda>result.
         case result of
           None \<Rightarrow> finalize_loop current_block p1 rs applied
         | Some f \<Rightarrow>
             try_st (ok_or (get_record reg (rec_id rec)) (Persistence ''post-finalize record vanished from registry'')) p1 (\<lambda>r.
             let p2 = p1\<lparr>store := put_record (store p1) r\<rparr>;
                 (a, p3) = burn_record p2 rec f (tombstones reg rec (rec_type r))
             in finalize_loop current_block p3 rs (applied @ [a]))))"

definition tick_finalize :: "pipeline \<Rightarrow> u64 \<Rightarrow> (staking_error, applied_slash list) res \<times> pipeline" where
  "tick_finalize p current_block =
     (let (replayed, p1) = replay_loop current_block p (load_records_with_unapplied_burn (store p));
          ready = load_records_ready_to_finalize (store p1) current_block
      in if ready = [] then (Ok replayed, p1) else finalize_loop current_block p1 ready replayed)"

text \<open>
  The records a tick writes to the store, in the order of its writes. A node that ends in the middle of a tick, be it
  for a crash or for a write that failed (\<open>do_commit\<close> of \<open>node/src/consensus.rs\<close> panics on an error of the tick),
  leaves a prefix of them.
\<close>

definition last_write :: "pipeline \<Rightarrow> h256 \<Rightarrow> slash_record list" where
  "last_write p rid = (case get_record (registry p) rid of Some r \<Rightarrow> [r] | None \<Rightarrow> [])"

fun replay_writes :: "u64 \<Rightarrow> pipeline \<Rightarrow> slash_record list \<Rightarrow> slash_record list" where
  "replay_writes current_block p [] = []"
| "replay_writes current_block p (r # rs) =
     (if current_block \<le> appeal_deadline r then replay_writes current_block p rs
      else (let p1 = (if already_slashed (vset p) r then mark_applied p (rec_id r) False
                      else snd (burn_record p r (recompute_splits r) (tombstones (registry p) r (rec_type r))))
            in last_write p1 (rec_id r) @ replay_writes current_block p1 rs))"

fun finalize_writes :: "u64 \<Rightarrow> pipeline \<Rightarrow> slash_record list \<Rightarrow> slash_record list" where
  "finalize_writes current_block p [] = []"
| "finalize_writes current_block p (rec # rs) =
     (let (res, reg) = finalize_slash (registry p) (rec_id rec) current_block in
      case (res, get_record reg (rec_id rec)) of
        (Ok None, _) \<Rightarrow> finalize_writes current_block (p\<lparr>registry := reg\<rparr>) rs
      | (Ok (Some f), Some r) \<Rightarrow>
          (let p3 = snd (burn_record (p\<lparr>registry := reg, store := put_record (store p) r\<rparr>) rec f (tombstones reg rec (rec_type r)))
           in r # last_write p3 (rec_id rec) @ finalize_writes current_block p3 rs)
      | _ \<Rightarrow> [])"

definition tick_writes :: "pipeline \<Rightarrow> u64 \<Rightarrow> slash_record list" where
  "tick_writes p current_block =
     (let unapplied = load_records_with_unapplied_burn (store p);
          p1 = snd (replay_loop current_block p unapplied)
      in replay_writes current_block p unapplied
         @ finalize_writes current_block p1 (load_records_ready_to_finalize (store p1) current_block))"

definition bond_total :: "bond_kind \<Rightarrow> (address \<times> bond_entry) list \<Rightarrow> u128" where
  "bond_total kind bonds = foldl (\<lambda>s (_, b). if bond_kind b = kind then sat_add 128 s (bond_wei b) else s) 0 bonds"

definition refund_offender :: "slash_record \<Rightarrow> u128 \<Rightarrow> u128 \<Rightarrow> validator_set \<Rightarrow> bool \<times> validator_set" where
  "refund_offender r refund bond vs =
     (case get vs (rec_offender r) of
        Some v \<Rightarrow>
          (let unjail = burn_applied r \<and> jailed_by_slash r \<and> status v = Jailed
           in (unjail, put vs (rec_offender r) (v\<lparr>self_stake := sat_add 128 (self_stake v) refund,
                 status := (if unjail then Pending else status v), pending_rewards := sat_add 128 (pending_rewards v) bond\<rparr>)))
      | None \<Rightarrow> (False, vs))"

definition overturn_and_refund :: "pipeline \<Rightarrow> h256 \<Rightarrow> (staking_error, applied_overturn) res \<times> pipeline" where
  "overturn_and_refund p rid =
     try_st (ok_or (get_record (registry p) rid) EvidenceNotFound) p (\<lambda>r.
     if rec_status r \<noteq> EvAppealed then (Err OverturnNotAllowed, p)
     else (let refund = (if burn_applied r then final_slash_wei r else 0);
               bonds = list_bonds_for_record (store p) rid;
               appeal_refund = bond_total Appeal bonds;
               forfeited = bond_total Whistleblower bonds;
               (unjail, vs) = refund_offender r refund appeal_refund (vset p);
               p1 = p\<lparr>vset := vs\<rparr>;
               (res, reg) = overturn_slash (registry p1) rid;
               p2 = p1\<lparr>registry := reg\<rparr>
           in try_st res p2 (\<lambda>_.
              try_st (ok_or (get_record reg rid) (Persistence ''overturned record vanished from registry'')) p2 (\<lambda>updated.
              (Ok \<lparr>ov_record = rid, ov_offender = rec_offender r, refunded_wei = refund, appeal_bond_refunded_wei = appeal_refund,
                   bonds_forfeited_wei = forfeited, unjailed = unjail\<rparr>,
               p2\<lparr>store := foldl (\<lambda>st (reporter, _). delete_bond st rid reporter) (put_record (store p2) updated) bonds\<rparr>)))))"

section \<open>The appeal transaction (tx\_handler.rs)\<close>

definition APPEAL_BOND_WEI :: u128 where "APPEAL_BOND_WEI = 1000 * 10 ^ 18"
definition STAKING_GAS_FILE_APPEAL :: u64 where "STAKING_GAS_FILE_APPEAL = 150000"

definition dispatch_file_appeal_tx :: "pipeline \<Rightarrow> h256 \<Rightarrow> address \<Rightarrow> u128 \<Rightarrow> u64 \<Rightarrow> (staking_error, u64) res \<times> pipeline" where
  "dispatch_file_appeal_tx p rid sender sent_value current_height =
     (if sent_value \<noteq> APPEAL_BOND_WEI then (Err (AppealBondMismatch sent_value APPEAL_BOND_WEI), p)
      else (let (res, reg) = file_appeal_for_tx (registry p) rid sender current_height;
                p1 = p\<lparr>registry := reg\<rparr>
            in try_st res p1 (\<lambda>updated.
               (Ok STAKING_GAS_FILE_APPEAL,
                p1\<lparr>store := put_record (put_bond (store p1) rid sender \<lparr>bond_wei = APPEAL_BOND_WEI, bond_kind = Appeal\<rparr>) updated\<rparr>))))"
section \<open>What a burn does\<close>

lemma get_active [simp]: "get (vs\<lparr>active_set := as\<rparr>) b = get vs b"
  by (simp add: get_def)

lemma get_rewarded:
  "distinct (map fst sp) \<Longrightarrow> get (foldl reward_reporter vs sp) a =
     map_option (\<lambda>v. case map_of sp a of Some w \<Rightarrow> v\<lparr>pending_rewards := sat_add 128 (pending_rewards v) w\<rparr> | None \<Rightarrow> v) (get vs a)"
proof (induction sp arbitrary: vs)
  case (Cons p sp)
  obtain b w where p: "p = (b, w)" by (cases p)
  have "map_of sp b = None" using Cons.prems by (simp add: p map_of_eq_None_iff)
  then show ?case using Cons by (auto simp: p reward_reporter_def split: option.splits)
qed (simp add: option.map_ident)

lemma active_rewarded: "active_set (foldl reward_reporter vs sp) = active_set vs"
proof (induction sp arbitrary: vs)
  case (Cons p sp)
  have "active_set (reward_reporter vs p) = active_set vs" by (auto simp: reward_reporter_def put_def split: option.splits prod.splits)
  then show ?case using Cons by simp
qed simp











definition burn_stake :: "u128 \<Rightarrow> bool \<Rightarrow> validator \<Rightarrow> validator" where
  "burn_stake slash force v = v\<lparr>self_stake := self_stake v - min slash (self_stake v), status := fst (burn_status (status v) force)\<rparr>"

lemma apply_burn_eq:
  "apply_slash_burn_v2 vs who slash sp force =
     (case get vs who of None \<Rightarrow> (False, False) | Some v \<Rightarrow> snd (burn_status (status v) force),
      let vs2 = foldl reward_reporter (case get vs who of None \<Rightarrow> vs | Some v \<Rightarrow> put vs who (burn_stake slash force v)) sp
      in vs2\<lparr>active_set := filter (\<lambda>a. a \<noteq> who) (active_set vs)\<rparr>)"
  by (simp add: apply_slash_burn_v2_def burn_stake_def Let_def active_rewarded put_def split: option.split prod.split)

lemma burn_get:
  assumes "apply_slash_burn_v2 vs who slash sp force = ((j, t), vs')" "distinct (map fst sp)"
  shows "get vs' a = map_option (\<lambda>v. case map_of sp a of Some w \<Rightarrow> v\<lparr>pending_rewards := sat_add 128 (pending_rewards v) w\<rparr> | None \<Rightarrow> v)
    (map_option (\<lambda>v. if a = who then burn_stake slash force v else v) (get vs a))"
proof -
  have "vs' = snd (apply_slash_burn_v2 vs who slash sp force)" using assms(1) by simp
  also have "get \<dots> a = get (foldl reward_reporter (case get vs who of None \<Rightarrow> vs | Some v \<Rightarrow> put vs who (burn_stake slash force v)) sp) a"
    by (simp add: apply_burn_eq Let_def)
  finally show ?thesis unfolding get_rewarded[OF assms(2)] by (cases "get vs a"; cases "get vs who") auto
qed

text \<open>
  C23: A burn takes the slash, at most what the offender has staked itself, from the stake of the offender
  and of nobody else, pays every registered reporter its share, removes the offender from the active set, jails an
  active offender or tombstones it when asked to, and never lifts a tombstone.
\<close>

theorem burn_effect:
  assumes "apply_slash_burn_v2 vs who slash sp force = ((j, t), vs')" "distinct (map fst sp)"
  shows "active_set vs' = filter (\<lambda>a. a \<noteq> who) (active_set vs)
    \<and> (j \<longleftrightarrow> (\<exists>v. get vs who = Some v \<and> status v = Active \<and> \<not> force))
    \<and> (t \<longleftrightarrow> (\<exists>v. get vs who = Some v \<and> status v \<noteq> Tombstoned \<and> force))
    \<and> (\<forall>a. case get vs a of None \<Rightarrow> get vs' a = None | Some v \<Rightarrow> \<exists>v'. get vs' a = Some v'
      \<and> self_stake v' = (if a = who then self_stake v - min slash (self_stake v) else self_stake v)
      \<and> delegated_stake v' = delegated_stake v
      \<and> pending_rewards v' = (case map_of sp a of Some w \<Rightarrow> sat_add 128 (pending_rewards v) w | None \<Rightarrow> pending_rewards v)
      \<and> status v' = (if a \<noteq> who then status v else if status v = Tombstoned \<or> force then Tombstoned
                     else if status v = Active then Jailed else status v))"
proof -
  have jt: "(j, t) = (case get vs who of None \<Rightarrow> (False, False) | Some v \<Rightarrow> snd (burn_status (status v) force))"
    and act: "active_set vs' = filter (\<lambda>a. a \<noteq> who) (active_set vs)"
    using assms(1) by (auto simp: apply_burn_eq Let_def)
  show ?thesis
  proof (intro conjI allI)
    show "j \<longleftrightarrow> (\<exists>v. get vs who = Some v \<and> status v = Active \<and> \<not> force)" "t \<longleftrightarrow> (\<exists>v. get vs who = Some v \<and> status v \<noteq> Tombstoned \<and> force)"
      using jt by (auto simp: burn_status_def split: option.splits if_splits)
  next
    fix a
    show "case get vs a of None \<Rightarrow> get vs' a = None | Some v \<Rightarrow> \<exists>v'. get vs' a = Some v'
      \<and> self_stake v' = (if a = who then self_stake v - min slash (self_stake v) else self_stake v)
      \<and> delegated_stake v' = delegated_stake v
      \<and> pending_rewards v' = (case map_of sp a of Some w \<Rightarrow> sat_add 128 (pending_rewards v) w | None \<Rightarrow> pending_rewards v)
      \<and> status v' = (if a \<noteq> who then status v else if status v = Tombstoned \<or> force then Tombstoned
                     else if status v = Active then Jailed else status v)"
      unfolding burn_get[OF assms] by (cases "get vs a"; cases "map_of sp a") (simp_all add: burn_stake_def burn_status_def)
  qed (rule act)
qed

section \<open>Every slash is burned once\<close>

lemma map_of_put_key [simp]: "map_of (put_key k v xs) = (map_of xs)(k \<mapsto> v)"
  by (induction k v xs rule: put_key.induct) (auto simp: fun_eq_iff)

lemma set_keys_put: "set (map fst (put_key k v xs)) = insert k (set (map fst xs))"
  by (induction k v xs rule: put_key.induct) auto

lemma sorted_put: "sorted_wrt (<) (map fst xs) \<Longrightarrow> sorted_wrt (<) (map fst (put_key k v xs))"
proof (induction k v xs rule: put_key.induct)
  case (2 k v k1 v1 rest)
  then show ?case using set_keys_put[of k v rest] by (auto intro: less_trans)
qed simp

abbreviation stored :: "pipeline \<Rightarrow> h256 \<rightharpoonup> slash_record" where
  "stored p \<equiv> map_of (stored_records (store p))"

abbreviation held :: "pipeline \<Rightarrow> h256 \<rightharpoonup> slash_record" where
  "held p \<equiv> get_record (registry p)"

text \<open>
  What the burns applied so far, with their heights, have to do with the store and the registry. A rejection is the
  one operation that changes the registry without the store.
\<close>

type_synonym burn_log = "(u64 \<times> applied_slash) list"

abbreviation logged :: "burn_log \<Rightarrow> h256 set" where
  "logged log \<equiv> as_record ` snd ` set log"

definition in_step :: "slash_record option \<Rightarrow> slash_record option \<Rightarrow> bool" where
  "in_step x y \<longleftrightarrow>
     (case x of None \<Rightarrow> y = None
      | Some r \<Rightarrow> y = Some r \<or> rec_status r = EvAppealed \<and> y = Some (r\<lparr>rec_status := EvConfirmed\<rparr>))"

definition burned :: "u64 \<Rightarrow> applied_slash \<Rightarrow> slash_record \<Rightarrow> bool" where
  "burned n a r \<longleftrightarrow> as_record a = rec_id r \<and> as_offender a = rec_offender r \<and> burn_wei a = final_slash_wei r
     \<and> appeal_deadline r < n \<and> rec_status r = EvConfirmed \<and> burn_applied r"

text \<open>What a stored record looks like; as long as no tick was cut short (\<open>torn\<close>), the confirmed ones are burned.\<close>

definition good_record :: "bool \<Rightarrow> burn_log \<Rightarrow> h256 \<Rightarrow> slash_record \<Rightarrow> bool" where
  "good_record torn log k r \<longleftrightarrow> rec_id r = k \<and> (burn_applied r \<longrightarrow> rec_status r = EvConfirmed)
     \<and> SLASH_RECORD_FORMAT_VERSION \<le> format_version r \<and> (torn \<or> rec_status r \<noteq> EvConfirmed \<or> k \<in> logged log)"

definition store_inv :: "bool \<Rightarrow> evidence_store \<Rightarrow> burn_log \<Rightarrow> bool" where
  "store_inv torn st log \<longleftrightarrow>
     sorted_wrt (<) (map fst (stored_records st))
     \<and> (\<forall>k r. map_of (stored_records st) k = Some r \<longrightarrow> good_record torn log k r)
     \<and> (\<forall>(n, a) \<in> set log. \<exists>r. map_of (stored_records st) (as_record a) = Some r \<and> burned n a r)
     \<and> distinct (map (as_record \<circ> snd) log)"

definition pipe_inv :: "bool \<Rightarrow> pipeline \<Rightarrow> burn_log \<Rightarrow> bool" where
  "pipe_inv torn p log \<longleftrightarrow> store_inv torn (store p) log \<and> (\<forall>k. in_step (stored p k) (held p k))"

text \<open>Writing one record to both sides keeps the invariant, and so does logging its burn.\<close>

lemma store_invI:
  assumes "sorted_wrt (<) (map fst (stored_records st))"
    and "\<And>k r. map_of (stored_records st) k = Some r \<Longrightarrow> good_record torn log k r"
    and "\<And>n a. (n, a) \<in> set log \<Longrightarrow> \<exists>r. map_of (stored_records st) (as_record a) = Some r \<and> burned n a r"
    and "distinct (map (as_record \<circ> snd) log)"
  shows "store_inv torn st log"
  using assms unfolding store_inv_def by blast

lemma store_invD:
  assumes "store_inv torn st log"
  shows "sorted_wrt (<) (map fst (stored_records st))"
    and "map_of (stored_records st) k = Some r \<Longrightarrow> good_record torn log k r"
    and "(n, a) \<in> set log \<Longrightarrow> \<exists>r. map_of (stored_records st) (as_record a) = Some r \<and> burned n a r"
    and "distinct (map (as_record \<circ> snd) log)"
  using assms unfolding store_inv_def by blast+

lemma pipe_invD:
  assumes "pipe_inv torn p log"
  shows "store_inv torn (store p) log" "in_step (stored p k) (held p k)" "sorted_wrt (<) (map fst (stored_records (store p)))"
  using assms unfolding pipe_inv_def by (blast dest: store_invD(1))+

lemma store_inv_write:
  assumes inv: "store_inv torn st log" and sorted: "sorted_wrt (<) (map fst (stored_records st'))"
    and w: "map_of (stored_records st') = (map_of (stored_records st))(k \<mapsto> r)" "good_record torn log k r" and new: "k \<notin> logged log"
  shows "store_inv torn st' log"
proof (rule store_invI[OF sorted _ _ store_invD(4)[OF inv]])
  show "good_record torn log i x" if "map_of (stored_records st') i = Some x" for i x
    using store_invD(2)[OF inv, of i x] that w by (simp split: if_splits)
  show "\<exists>x. map_of (stored_records st') (as_record a) = Some x \<and> burned n a x" if a: "(n, a) \<in> set log" for n a
  proof -
    have "as_record a \<in> logged log" using a by force
    then show ?thesis using store_invD(3)[OF inv a] new w(1) by (metis fun_upd_other)
  qed
qed

lemma in_step_write: "in_step x y \<Longrightarrow> in_step (if b then Some r else x) (if b then Some r else y)"
  by (simp add: in_step_def)

lemma pipe_inv_write:
  assumes inv: "pipe_inv torn p log" and "sorted_wrt (<) (map fst (stored_records (store p')))"
    and w: "stored p' = (stored p)(k \<mapsto> r)" "held p' = (held p)(k \<mapsto> r)" "good_record torn log k r" and "k \<notin> logged log"
  shows "pipe_inv torn p' log"
  unfolding pipe_inv_def
  using store_inv_write[OF pipe_invD(1)[OF inv] assms(2) w(1,3) assms(6)] pipe_invD(2)[OF inv] w(1,2)
  by (simp add: in_step_def)

lemma good_mono: "good_record torn log k r \<Longrightarrow> good_record torn (log @ l) k r"
  by (auto simp: good_record_def)

lemma pipe_inv_burn:
  assumes inv: "pipe_inv torn p log" and sorted: "sorted_wrt (<) (map fst (stored_records (store p')))"
    and w: "stored p' = (stored p)(k \<mapsto> r)" "held p' = (held p)(k \<mapsto> r)" "rec_id r = k" "SLASH_RECORD_FORMAT_VERSION \<le> format_version r"
    and new: "k \<notin> logged log" and b: "burned n a r"
  shows "pipe_inv torn p' (log @ [(n, a)])"
proof -
  note st = pipe_invD(1)[OF inv]
  have k: "as_record a = k" "rec_status r = EvConfirmed" using b w(3) by (simp_all add: burned_def)
  have "store_inv torn (store p') (log @ [(n, a)])"
  proof (rule store_invI[OF sorted])
    show "good_record torn (log @ [(n, a)]) i x" if "stored p' i = Some x" for i x
      using good_mono[OF store_invD(2)[OF st, of i x]] that w k by (auto simp: good_record_def split: if_splits)
    show "\<exists>x. stored p' (as_record a') = Some x \<and> burned n' a' x" if a: "(n', a') \<in> set (log @ [(n, a)])" for n' a'
    proof (cases "(n', a') \<in> set log")
      case True
      have "as_record a' \<in> logged log" using True by force
      then show ?thesis using store_invD(3)[OF st True] new w(1) by (metis fun_upd_other)
    next
      case False
      then show ?thesis using a b w(1) k by simp
    qed
    show "distinct (map (as_record \<circ> snd) (log @ [(n, a)]))" using store_invD(4)[OF st] new k by (simp add: image_comp)
  qed
  then show ?thesis using pipe_invD(2)[OF inv] w(1,2) by (simp add: pipe_inv_def in_step_def)
qed

lemma pipe_inv_same:
  assumes "pipe_inv torn p log" "stored_records (store p') = stored_records (store p)" "held p' = held p"
  shows "pipe_inv torn p' log"
  using assms by (simp add: pipe_inv_def store_inv_def)

lemma unapplied_not_logged: "store_inv torn st log \<Longrightarrow> map_of (stored_records st) k = Some r \<Longrightarrow> \<not> burn_applied r \<Longrightarrow> k \<notin> logged log"
  by (force simp: burned_def dest: store_invD(3))

lemma fresh_not_logged: "pipe_inv torn p log \<Longrightarrow> stored p k = None \<Longrightarrow> k \<notin> logged log"
  by (force dest: pipe_invD(1) store_invD(3))

lemma stored_good:
  assumes "pipe_inv torn p log" "stored p k = Some r"
  shows "rec_id r = k" "burn_applied r \<Longrightarrow> rec_status r = EvConfirmed" "SLASH_RECORD_FORMAT_VERSION \<le> format_version r"
    "\<not> burn_applied r \<Longrightarrow> k \<notin> logged log"
  using store_invD(2)[OF pipe_invD(1)[OF assms(1)] assms(2)] unapplied_not_logged[OF pipe_invD(1)[OF assms(1)] assms(2)]
  unfolding good_record_def by blast+

lemma held_stored:
  assumes "pipe_inv torn p log" "held p k = Some r" "rec_status r \<noteq> EvConfirmed"
  shows "stored p k = Some r" "rec_id r = k" "\<not> burn_applied r" "k \<notin> logged log" "SLASH_RECORD_FORMAT_VERSION \<le> format_version r"
proof -
  show s: "stored p k = Some r" using pipe_invD(2)[OF assms(1), of k] assms(2,3) by (auto simp: in_step_def split: option.splits)
  show "rec_id r = k" "\<not> burn_applied r" "k \<notin> logged log" "SLASH_RECORD_FORMAT_VERSION \<le> format_version r"
    using stored_good[OF assms(1) s] assms(3) by blast+
qed

lemma stored_held:
  assumes "pipe_inv torn p log" "stored p k = Some r" "rec_status r \<noteq> EvAppealed"
  shows "held p k = Some r"
  using pipe_invD(2)[OF assms(1), of k] assms(2,3) by (simp add: in_step_def)

lemma stored_pending_held:
  assumes "pipe_inv torn p log" "stored p k = Some r" "rec_status r = EvPending"
  shows "held p k = Some r" "rec_id r = k" "\<not> burn_applied r" "k \<notin> logged log"
  using stored_held[OF assms(1,2)] stored_good[OF assms(1,2)] assms(3) by auto

lemma stored_put_record [simp]: "map_of (stored_records (put_record st r)) = (map_of (stored_records st))(rec_id r \<mapsto> r)"
  by (simp add: put_record_def)

lemma sorted_put_record: "sorted_wrt (<) (map fst (stored_records st)) \<Longrightarrow> sorted_wrt (<) (map fst (stored_records (put_record st r)))"
  by (simp add: put_record_def sorted_put)

lemma stored_put_bond [simp]: "stored_records (put_bond st k a b) = stored_records st"
  by (simp add: put_bond_def)

lemma stored_delete_bonds [simp]: "stored_records (foldl (\<lambda>st (a, _). delete_bond st k a) st bonds) = stored_records st"
  by (induction bonds arbitrary: st) (auto simp: delete_bond_def)

lemma keep_jailed [simp]: "r\<lparr>burn_applied := x, jailed_by_slash := jailed_by_slash r\<rparr> = r\<lparr>burn_applied := x\<rparr>" for r :: slash_record
  by (cases r) simp

definition confirms :: "h256 \<Rightarrow> slash_record \<Rightarrow> bool" where
  "confirms k w \<longleftrightarrow> rec_id w = k \<and> rec_status w = EvConfirmed \<and> SLASH_RECORD_FORMAT_VERSION \<le> format_version w"

lemma mark_applied_facts:
  fixes b :: bool
  assumes "held p k = Some r" "rec_id r = k" "sorted_wrt (<) (map fst (stored_records (store p)))"
  defines "r2 \<equiv> r\<lparr>burn_applied := True, jailed_by_slash := b \<or> jailed_by_slash r\<rparr>"
  shows "held (mark_applied p k b) = (held p)(k \<mapsto> r2)" "stored (mark_applied p k b) = (stored p)(k \<mapsto> r2)"
    "sorted_wrt (<) (map fst (stored_records (store (mark_applied p k b))))"
  using assms by (cases b; auto simp: mark_applied_def Let_def fun_eq_iff sorted_put_record)+

lemma burn_record_facts:
  assumes "burn_record p r f force = (a, p')" "held p k = Some r1" "rec_id r = k" "rec_id r1 = k"
    and "sorted_wrt (<) (map fst (stored_records (store p)))"
  obtains b where "held p' = (held p)(k \<mapsto> r1\<lparr>burn_applied := True, jailed_by_slash := b \<or> jailed_by_slash r1\<rparr>)"
    "stored p' = (stored p)(k \<mapsto> r1\<lparr>burn_applied := True, jailed_by_slash := b \<or> jailed_by_slash r1\<rparr>)"
    "sorted_wrt (<) (map fst (stored_records (store p')))"
    "as_record a = k" "as_offender a = rec_offender r" "burn_wei a = slash_wei f"
proof -
  obtain j t vs where v: "apply_slash_burn_v2 (vset p) (rec_offender r) (slash_wei f) (splits f) force = ((j, t), vs)"
    by (metis prod.exhaust)
  have "held (p\<lparr>vset := vs\<rparr>) k = Some r1" "sorted_wrt (<) (map fst (stored_records (store (p\<lparr>vset := vs\<rparr>))))" using assms(2,5) by simp_all
  note m = mark_applied_facts[OF this(1) assms(4) this(2), of "j \<or> t"]
  have p': "p' = mark_applied (p\<lparr>vset := vs\<rparr>) k (j \<or> t)" and a: "as_record a = k" "as_offender a = rec_offender r" "burn_wei a = slash_wei f"
    using assms(1,3) v by (auto simp: burn_record_def Let_def)
  show thesis using m a by (intro that[of "j \<or> t"]) (simp_all add: p')
qed

lemma finalize_one:
  assumes inv: "pipe_inv torn p log" and r: "stored p k = Some r" "rec_status r = EvPending" "appeal_deadline r < n"
  shows "\<exists>a p3 w1 w2. finalize_loop n p (r # rs) applied = finalize_loop n p3 rs (applied @ [a]) \<and> pipe_inv torn p3 (log @ [(n, a)])
    \<and> as_record a = k \<and> (\<forall>i. i \<noteq> k \<longrightarrow> stored p3 i = stored p i)
    \<and> finalize_writes n p (r # rs) = w1 # w2 # finalize_writes n p3 rs \<and> confirms k w1 \<and> confirms k w2"
proof -
  note h = stored_pending_held[OF inv r(1,2)]
  define r1 where "r1 = r\<lparr>rec_status := EvConfirmed, format_version := SLASH_RECORD_FORMAT_VERSION, burn_applied := False\<rparr>"
  define reg where "reg = update_record (registry p) k r1"
  define p2 where "p2 = p\<lparr>registry := reg, store := put_record (store p) r1\<rparr>"
  have r1: "rec_id r1 = k" "rec_offender r1 = rec_offender r" "final_slash_wei r1 = final_slash_wei r" "appeal_deadline r1 = appeal_deadline r"
    "rec_status r1 = EvConfirmed" "SLASH_RECORD_FORMAT_VERSION \<le> format_version r1" using h(2) by (simp_all add: r1_def)
  have fin: "finalize_slash (registry p) (rec_id r) n = (Ok (Some (recompute_splits r1)), reg)"
    using h(1,2) r(2,3) by (simp add: finalize_slash_def Let_def r1_def reg_def)
  obtain a p3 where b: "burn_record p2 r (recompute_splits r1) (tombstones reg r (rec_type r1)) = (a, p3)" by (metis prod.exhaust)
  have reg': "get_record reg k = Some r1" by (simp add: reg_def)
  have p2: "held p2 = (held p)(k \<mapsto> r1)" "stored p2 = (stored p)(k \<mapsto> r1)" "sorted_wrt (<) (map fst (stored_records (store p2)))"
    using pipe_invD(3)[OF inv] r1(1) by (auto simp: p2_def reg_def fun_eq_iff sorted_put_record)
  obtain j where p3: "held p3 = (held p2)(k \<mapsto> r1\<lparr>burn_applied := True, jailed_by_slash := j \<or> jailed_by_slash r1\<rparr>)"
      "stored p3 = (stored p2)(k \<mapsto> r1\<lparr>burn_applied := True, jailed_by_slash := j \<or> jailed_by_slash r1\<rparr>)"
      "sorted_wrt (<) (map fst (stored_records (store p3)))"
    and a: "as_record a = k" "as_offender a = rec_offender r" "burn_wei a = slash_wei (recompute_splits r1)"
    using burn_record_facts[OF b _ h(2) r1(1) p2(3)] p2(1) by auto
  define r2 where "r2 = r1\<lparr>burn_applied := True, jailed_by_slash := j \<or> jailed_by_slash r1\<rparr>"
  have r2: "burned n a r2" "confirms k r1" "confirms k r2" "held p3 k = Some r2" "stored p3 = (stored p)(k \<mapsto> r2)" "held p3 = (held p)(k \<mapsto> r2)"
    using a r1 r(3) by (simp_all add: burned_def splits_fair confirms_def r2_def p3 p2)
  then have "pipe_inv torn p3 (log @ [(n, a)])"
    using h(4) by (intro pipe_inv_burn[OF inv p3(3), of k r2]) (simp_all add: confirms_def)
  moreover have "finalize_loop n p (r # rs) applied = finalize_loop n p3 rs (applied @ [a])"
    using b fin[unfolded h(2)] reg' by (simp add: h(2) p2_def Let_def)
  moreover have "finalize_writes n p (r # rs) = r1 # r2 # finalize_writes n p3 rs"
    using b fin[unfolded h(2)] reg' r2(4) by (simp add: h(2) p2_def last_write_def Let_def)
  ultimately show ?thesis using a(1) r2 by (intro exI[of _ a] exI[of _ p3] exI[of _ r1] exI[of _ r2]) (simp del: finalize_loop.simps finalize_writes.simps)
qed

lemma finalize_all:
  assumes "pipe_inv torn p log" "distinct (map rec_id rs)"
    and "\<And>r. r \<in> set rs \<Longrightarrow> stored p (rec_id r) = Some r \<and> rec_status r = EvPending \<and> appeal_deadline r < n"
  shows "\<exists>as p'. finalize_loop n p rs applied = (Ok (applied @ as), p') \<and> pipe_inv torn p' (log @ map (Pair n) as)
    \<and> map as_record as = map rec_id rs \<and> (\<forall>i. i \<notin> rec_id ` set rs \<longrightarrow> stored p' i = stored p i)
    \<and> (\<forall>w \<in> set (finalize_writes n p rs). \<exists>r \<in> set rs. confirms (rec_id r) w)"
  using assms
proof (induction rs arbitrary: p log applied)
  case (Cons r rs)
  obtain a p1 w1 w2 where one: "finalize_loop n p (r # rs) applied = finalize_loop n p1 rs (applied @ [a])" "pipe_inv torn p1 (log @ [(n, a)])"
    "as_record a = rec_id r" "\<And>i. i \<noteq> rec_id r \<Longrightarrow> stored p1 i = stored p i"
    and w: "finalize_writes n p (r # rs) = w1 # w2 # finalize_writes n p1 rs" "confirms (rec_id r) w1" "confirms (rec_id r) w2"
    using finalize_one[OF Cons.prems(1), of "rec_id r" r n rs applied] Cons.prems(3)[of r] by auto
  have "stored p1 (rec_id x) = Some x \<and> rec_status x = EvPending \<and> appeal_deadline x < n" if "x \<in> set rs" for x
  proof -
    have "rec_id r \<notin> rec_id ` set rs" using Cons.prems(2) by simp
    then have "rec_id x \<noteq> rec_id r" using that by (metis image_eqI)
    then show ?thesis using Cons.prems(3)[of x] one(4)[of "rec_id x"] that by simp
  qed
  from Cons.IH[OF one(2) _ this, of "applied @ [a]"] Cons.prems(2) obtain as p' where
    rest: "finalize_loop n p1 rs (applied @ [a]) = (Ok ((applied @ [a]) @ as), p')" "pipe_inv torn p' ((log @ [(n, a)]) @ map (Pair n) as)"
    "map as_record as = map rec_id rs" "\<And>i. i \<notin> rec_id ` set rs \<Longrightarrow> stored p' i = stored p1 i"
    "\<And>w. w \<in> set (finalize_writes n p1 rs) \<Longrightarrow> \<exists>r \<in> set rs. confirms (rec_id r) w" by auto
  show ?case using one rest w by (intro exI[of _ "a # as"] exI[of _ p']) (auto simp del: finalize_loop.simps finalize_writes.simps)
qed simp

text \<open>A replayed record is burned or, where that is not safe, only marked.\<close>

lemma replay_one:
  assumes inv: "pipe_inv torn p log" and r: "stored p k = Some r" "rec_status r = EvConfirmed" "\<not> burn_applied r" "appeal_deadline r < n"
  shows "\<exists>new p1 w. replay_loop n p (r # rs) = (new @ fst (replay_loop n p1 rs), snd (replay_loop n p1 rs))
    \<and> replay_writes n p (r # rs) = w # replay_writes n p1 rs \<and> pipe_inv torn p1 (log @ map (Pair n) new)
    \<and> (\<forall>a \<in> set new. as_record a = k) \<and> stored p1 = (stored p)(k \<mapsto> w) \<and> confirms k w \<and> burn_applied w"
proof -
  note g = stored_good[OF inv r(1)]
  have h: "held p k = Some r" using stored_held[OF inv r(1)] r(2) by simp
  have torn: "torn" using store_invD(2)[OF pipe_invD(1)[OF inv] r(1)] g r by (simp add: good_record_def)
  have w: "confirms k (r\<lparr>burn_applied := True, jailed_by_slash := b\<rparr>)" for b using g r by (simp add: confirms_def)
  show ?thesis
  proof (cases "already_slashed (vset p) r")
    case True
    define p1 where "p1 = mark_applied p k False"
    note m = mark_applied_facts[OF h g(1) pipe_invD(3)[OF inv], of False, simplified, folded p1_def]
    have "pipe_inv torn p1 log" using m w[of "jailed_by_slash r"] g r torn
      by (intro pipe_inv_write[OF inv, of p1 k "r\<lparr>burn_applied := True\<rparr>"]) (simp_all add: good_record_def confirms_def)
    then show ?thesis using True m w[of "jailed_by_slash r"] r g
      by (intro exI[of _ "[]"] exI[of _ p1] exI[of _ "r\<lparr>burn_applied := True\<rparr>"]) (simp add: last_write_def Let_def p1_def[symmetric])
  next
    case False
    obtain a p1 where b: "burn_record p r (recompute_splits r) (tombstones (registry p) r (rec_type r)) = (a, p1)" by (metis prod.exhaust)
    obtain j where m: "held p1 = (held p)(k \<mapsto> r\<lparr>burn_applied := True, jailed_by_slash := j \<or> jailed_by_slash r\<rparr>)"
        "stored p1 = (stored p)(k \<mapsto> r\<lparr>burn_applied := True, jailed_by_slash := j \<or> jailed_by_slash r\<rparr>)"
        "sorted_wrt (<) (map fst (stored_records (store p1)))"
        "as_record a = k" "as_offender a = rec_offender r" "burn_wei a = slash_wei (recompute_splits r)"
      using burn_record_facts[OF b h g(1) g(1) pipe_invD(3)[OF inv]] by blast
    define r2 where "r2 = r\<lparr>burn_applied := True, jailed_by_slash := j \<or> jailed_by_slash r\<rparr>"
    have "burned n a r2" using m(4-6) r g by (simp add: burned_def splits_fair r2_def)
    then have "pipe_inv torn p1 (log @ [(n, a)])" using m g r
      by (intro pipe_inv_burn[OF inv m(3), of k r2]) (simp_all add: r2_def)
    moreover have "replay_loop n p (r # rs) = ([a] @ fst (replay_loop n p1 rs), snd (replay_loop n p1 rs))"
      using False r(4) b by (simp add: Let_def split: prod.split)
    moreover have "replay_writes n p (r # rs) = r2 # replay_writes n p1 rs"
      using False r(4) b m(1) g(1) by (simp add: Let_def last_write_def r2_def)
    ultimately show ?thesis using m w[of "j \<or> jailed_by_slash r"]
      by (intro exI[of _ "[a]"] exI[of _ p1] exI[of _ r2]) (simp add: r2_def del: replay_loop.simps replay_writes.simps)
  qed
qed

lemma replay_all:
  assumes "pipe_inv torn p log" "distinct (map rec_id rs)"
    and "\<And>r. r \<in> set rs \<Longrightarrow> stored p (rec_id r) = Some r \<and> rec_status r = EvConfirmed \<and> \<not> burn_applied r"
  shows "\<exists>as p'. replay_loop n p rs = (as, p') \<and> pipe_inv torn p' (log @ map (Pair n) as)
    \<and> (\<forall>i. i \<notin> rec_id ` set rs \<longrightarrow> stored p' i = stored p i)
    \<and> (\<forall>w \<in> set (replay_writes n p rs). \<exists>r \<in> set rs. confirms (rec_id r) w)
    \<and> (\<forall>r \<in> set rs. appeal_deadline r < n \<longrightarrow> (\<exists>w. stored p' (rec_id r) = Some w \<and> confirms (rec_id r) w \<and> burn_applied w))"
  using assms
proof (induction rs arbitrary: p log)
  case (Cons r rs)
  have other: "rec_id x \<noteq> rec_id r" if "x \<in> set rs" for x using Cons.prems(2) that by (metis distinct.simps(2) image_eqI list.set_map list.simps(9))
  show ?case
  proof (cases "n \<le> appeal_deadline r")
    case True
    obtain as p' where "replay_loop n p rs = (as, p')" "pipe_inv torn p' (log @ map (Pair n) as)"
      "\<forall>i. i \<notin> rec_id ` set rs \<longrightarrow> stored p' i = stored p i"
      "\<forall>w \<in> set (replay_writes n p rs). \<exists>r \<in> set rs. confirms (rec_id r) w"
      "\<forall>r \<in> set rs. appeal_deadline r < n \<longrightarrow> (\<exists>w. stored p' (rec_id r) = Some w \<and> confirms (rec_id r) w \<and> burn_applied w)"
      using Cons.IH[OF Cons.prems(1)] Cons.prems(2,3) by auto
    then show ?thesis using True by (intro exI[of _ as] exI[of _ p']) auto
  next
    case False
    then obtain new p1 w where one: "replay_loop n p (r # rs) = (new @ fst (replay_loop n p1 rs), snd (replay_loop n p1 rs))"
      "replay_writes n p (r # rs) = w # replay_writes n p1 rs" "pipe_inv torn p1 (log @ map (Pair n) new)"
      "stored p1 = (stored p)(rec_id r \<mapsto> w)" "confirms (rec_id r) w" "burn_applied w"
      using replay_one[OF Cons.prems(1), of "rec_id r" r n rs] Cons.prems(3)[of r] by auto
    have "stored p1 (rec_id x) = Some x \<and> rec_status x = EvConfirmed \<and> \<not> burn_applied x" if "x \<in> set rs" for x
      using Cons.prems(3)[of x] one(4) other[OF that] that by simp
    from Cons.IH[OF one(3) _ this] Cons.prems(2) obtain as p' where
      rest: "replay_loop n p1 rs = (as, p')" "pipe_inv torn p' ((log @ map (Pair n) new) @ map (Pair n) as)"
      "\<And>i. i \<notin> rec_id ` set rs \<Longrightarrow> stored p' i = stored p1 i"
      "\<And>w. w \<in> set (replay_writes n p1 rs) \<Longrightarrow> \<exists>r \<in> set rs. confirms (rec_id r) w"
      "\<And>r. r \<in> set rs \<Longrightarrow> appeal_deadline r < n \<Longrightarrow> \<exists>w. stored p' (rec_id r) = Some w \<and> confirms (rec_id r) w \<and> burn_applied w"
      by auto
    have "stored p' (rec_id r) = Some w" using rest(3)[of "rec_id r"] other one(4) by fastforce
    then show ?thesis using one(1,2,4-6) rest
      by (intro exI[of _ "new @ as"] exI[of _ p']) (auto simp del: replay_loop.simps replay_writes.simps)
  qed
qed simp

lemma loaded:
  assumes "pipe_inv torn p log"
  shows "distinct (map rec_id (filter Q (load_all_records (store p))))"
    and "r \<in> set (load_all_records (store p)) \<longleftrightarrow> stored p (rec_id r) = Some r"
proof -
  let ?S = "stored_records (store p)"
  have keys: "distinct (map fst ?S)" using pipe_invD(3)[OF assms] by (simp add: strict_sorted_iff)
  have ids: "rec_id x = k" if "(k, x) \<in> set ?S" for k x using stored_good(1)[OF assms, of k x] keys that by simp
  then have "map rec_id (load_all_records (store p)) = map fst ?S" by (auto simp: load_all_records_def)
  then show "distinct (map rec_id (filter Q (load_all_records (store p))))" using keys by (metis distinct_map_filter)
  show "r \<in> set (load_all_records (store p)) \<longleftrightarrow> stored p (rec_id r) = Some r"
  proof
    assume "r \<in> set (load_all_records (store p))"
    then obtain k where k: "(k, r) \<in> set ?S" by (auto simp: load_all_records_def)
    then show "stored p (rec_id r) = Some r" using keys unfolding ids[OF k] by simp
  next
    assume "stored p (rec_id r) = Some r"
    then have "(rec_id r, r) \<in> set ?S" by (rule map_of_SomeD)
    then show "r \<in> set (load_all_records (store p))" by (force simp: load_all_records_def)
  qed
qed

lemma tick_ok:
  assumes inv: "pipe_inv torn p log"
  shows "\<exists>as p'. tick_finalize p n = (Ok as, p') \<and> pipe_inv torn p' (log @ map (Pair n) as)
    \<and> (\<forall>k r. stored p k = Some r \<and> rec_status r = EvPending \<and> appeal_deadline r < n \<longrightarrow> k \<in> as_record ` set as)
    \<and> (\<forall>k r. stored p k = Some r \<and> rec_status r = EvConfirmed \<and> appeal_deadline r < n
         \<longrightarrow> (\<exists>w. stored p' k = Some w \<and> confirms k w \<and> burn_applied w))
    \<and> (\<forall>w \<in> set (tick_writes p n). confirms (rec_id w) w \<and> rec_id w \<notin> logged log)"
proof -
  define old where "old = load_records_with_unapplied_burn (store p)"
  note l = loaded[OF inv]
  have old: "r \<in> set old \<longleftrightarrow> stored p (rec_id r) = Some r \<and> rec_status r = EvConfirmed \<and> \<not> burn_applied r" for r
    using l(2)[of r] stored_good(3)[OF inv, of "rec_id r" r] by (auto simp: old_def load_records_with_unapplied_burn_def)
  have "distinct (map rec_id old)" unfolding old_def load_records_with_unapplied_burn_def by (rule l(1))
  from replay_all[OF inv this, of n] obtain as1 p1 where
    t1: "replay_loop n p old = (as1, p1)" "pipe_inv torn p1 (log @ map (Pair n) as1)"
    "\<And>i. i \<notin> rec_id ` set old \<Longrightarrow> stored p1 i = stored p i"
    "\<And>w. w \<in> set (replay_writes n p old) \<Longrightarrow> \<exists>r \<in> set old. confirms (rec_id r) w"
    "\<And>r. r \<in> set old \<Longrightarrow> appeal_deadline r < n \<Longrightarrow> \<exists>w. stored p1 (rec_id r) = Some w \<and> confirms (rec_id r) w \<and> burn_applied w"
    using old by blast
  define ready where "ready = load_records_ready_to_finalize (store p1) n"
  note l1 = loaded[OF t1(2)]
  have ready: "r \<in> set ready \<longleftrightarrow> stored p1 (rec_id r) = Some r \<and> rec_status r = EvPending \<and> appeal_deadline r < n" for r
    using l1(2)[of r] by (auto simp: ready_def load_records_ready_to_finalize_def)
  have "distinct (map rec_id ready)" unfolding ready_def load_records_ready_to_finalize_def by (rule l1(1))
  from finalize_all[OF t1(2) this, of n as1] obtain as2 p' where
    t2: "finalize_loop n p1 ready as1 = (Ok (as1 @ as2), p')" "pipe_inv torn p' ((log @ map (Pair n) as1) @ map (Pair n) as2)"
    "map as_record as2 = map rec_id ready" "\<And>i. i \<notin> rec_id ` set ready \<Longrightarrow> stored p' i = stored p1 i"
    "\<And>w. w \<in> set (finalize_writes n p1 ready) \<Longrightarrow> \<exists>r \<in> set ready. confirms (rec_id r) w"
    using ready by blast
  have "tick_finalize p n = (if ready = [] then (Ok as1, p1) else finalize_loop n p1 ready as1)"
    using t1(1) by (simp add: tick_finalize_def Let_def old_def ready_def)
  then have run: "tick_finalize p n = (Ok (as1 @ as2), p')" using t2(1) by (cases "ready = []") simp_all
  have writes: "tick_writes p n = replay_writes n p old @ finalize_writes n p1 ready"
    using t1(1) by (simp add: tick_writes_def Let_def old_def[symmetric] ready_def[symmetric])
  have pending: "rec_id r = k \<and> k \<notin> rec_id ` set old" if "stored p k = Some r" "rec_status r \<noteq> EvConfirmed \<or> burn_applied r" for k r
    using stored_good(1)[OF inv that(1)] old that by fastforce
  have due: "k \<in> as_record ` set (as1 @ as2)" if r: "stored p k = Some r" "rec_status r = EvPending" "appeal_deadline r < n" for k r
  proof -
    have "stored p1 k = Some r" "rec_id r = k" using pending[of k r] t1(3)[of k] r by simp_all
    then have "r \<in> set ready" "rec_id r = k" using r(2,3) ready by simp_all
    then have "k \<in> set (map rec_id ready)" by force
    then show ?thesis unfolding t2(3)[symmetric] by auto
  qed
  have marked: "\<exists>w. stored p' k = Some w \<and> confirms k w \<and> burn_applied w"
    if r: "stored p k = Some r" "rec_status r = EvConfirmed" "appeal_deadline r < n" for k r
  proof -
    have k: "rec_id r = k" by (rule stored_good(1)[OF inv r(1)])
    have "\<exists>w. stored p1 k = Some w \<and> confirms k w \<and> burn_applied w"
    proof (cases "burn_applied r")
      case True
      then show ?thesis using pending[OF r(1)] t1(3)[of k] r stored_good(3)[OF inv r(1)] by (simp add: confirms_def)
    next
      case False
      then show ?thesis using t1(5)[of r] old[of r] r k by simp
    qed
    moreover have "k \<notin> rec_id ` set ready" using ready calculation by (force simp: confirms_def)
    ultimately show ?thesis using t2(4)[of k] by simp
  qed
  have "rec_id w \<notin> logged log \<and> confirms (rec_id w) w" if w: "w \<in> set (tick_writes p n)" for w
  proof (cases "w \<in> set (replay_writes n p old)")
    case True
    then obtain r where "r \<in> set old" "confirms (rec_id r) w" using t1(4) by blast
    then show ?thesis using old[of r] stored_good(4)[OF inv, of "rec_id r" r] by (auto simp: confirms_def)
  next
    case False
    then obtain r where r: "r \<in> set ready" "confirms (rec_id r) w" using t2(5) w by (auto simp: writes)
    then have "rec_id r \<notin> logged (log @ map (Pair n) as1)"
      using ready[of r] stored_pending_held(4)[OF t1(2), of "rec_id r" r] by simp
    then show ?thesis using r(2) by (auto simp: confirms_def)
  qed
  then show ?thesis using run t2(2) due marked by (intro exI[of _ "as1 @ as2"] exI[of _ p']) simp
qed

section \<open>Runs of the pipeline\<close>

text \<open>
  A restart loads the registry from the store; the other parts of the node may change the validator set at any time.
  A crash ends the node within a tick, after any number of its writes, and starts it again; the burns of that tick
  are lost with its memory, because they reach the accounts of the state only after it returned.
\<close>

datatype pipeline_event =
    PIngest equivocation_evidence address u64 u64 u128
  | PAppeal h256 address u128 u64
  | PTick u64
  | POverturn h256
  | PReject h256
  | PRestart validator_set
  | is_crash: PCrash u64 nat validator_set
  | PValidators validator_set

definition pipeline_new :: "u64 \<Rightarrow> validator_set \<Rightarrow> pipeline" where
  "pipeline_new m vs = \<lparr>store = \<lparr>stored_evidence = Map.empty, stored_records = [], stored_bonds = []\<rparr>, registry = registry_new m, vset = vs\<rparr>"

definition pipe_event ::
  "crypto \<Rightarrow> (byte list \<Rightarrow> h256) \<Rightarrow> (equivocation_evidence \<Rightarrow> h256) \<Rightarrow> u64 \<Rightarrow> pipeline \<Rightarrow> pipeline_event \<Rightarrow> burn_log \<times> pipeline" where
  "pipe_event c sha3 evidence_id m p e =
     (case e of
        PIngest ev submitter block ep stake \<Rightarrow> ([], snd (ingest_equivocation c sha3 evidence_id p ev submitter block ep stake))
      | PAppeal rid sender wei height \<Rightarrow> ([], snd (dispatch_file_appeal_tx p rid sender wei height))
      | PTick n \<Rightarrow> (case tick_finalize p n of (Ok as, p') \<Rightarrow> (map (Pair n) as, p') | (_, p') \<Rightarrow> ([], p'))
      | POverturn rid \<Rightarrow> ([], snd (overturn_and_refund p rid))
      | PReject rid \<Rightarrow> ([], p\<lparr>registry := snd (reject_appeal (registry p) rid)\<rparr>)
      | PRestart vs \<Rightarrow> ([], snd (rehydrate_from_disk (p\<lparr>registry := registry_new m, vset := vs\<rparr>)))
      | PCrash n writes vs \<Rightarrow>
          ([], snd (rehydrate_from_disk
             (p\<lparr>store := foldl put_record (store p) (take writes (tick_writes p n)), registry := registry_new m, vset := vs\<rparr>)))
      | PValidators vs \<Rightarrow> ([], p\<lparr>vset := vs\<rparr>))"

definition pipe_step ::
  "crypto \<Rightarrow> (byte list \<Rightarrow> h256) \<Rightarrow> (equivocation_evidence \<Rightarrow> h256) \<Rightarrow> u64 \<Rightarrow> pipeline \<times> burn_log \<Rightarrow> pipeline_event \<Rightarrow> pipeline \<times> burn_log" where
  "pipe_step c sha3 evidence_id m s e = (let (new, p') = pipe_event c sha3 evidence_id m (fst s) e in (p', snd s @ new))"

definition pipe_run ::
  "crypto \<Rightarrow> (byte list \<Rightarrow> h256) \<Rightarrow> (equivocation_evidence \<Rightarrow> h256) \<Rightarrow> u64 \<Rightarrow> validator_set \<Rightarrow> pipeline_event list \<Rightarrow> pipeline \<times> burn_log" where
  "pipe_run c sha3 evidence_id m vs es = foldl (pipe_step c sha3 evidence_id m) (pipeline_new m vs, []) es"

lemma ingest_inv:
  assumes inv: "pipe_inv torn p log"
  shows "pipe_inv torn (snd (ingest_equivocation c sha3 evidence_id p ev submitter block ep stake)) log"
proof (cases "evidence_verify c ev")
  case True
  obtain res reg where sub: "submit_evidence sha3 (registry p) (evidence_to_double_sign ev) submitter block ep stake = (res, reg)"
    by (metis prod.exhaust)
  define p2 where "p2 = p\<lparr>store := put_evidence evidence_id (store p) ev, registry := reg\<rparr>"
  have run: "ingest_equivocation c sha3 evidence_id p ev submitter block ep stake = try_st res p2 (\<lambda>outcome.
      try_st (ok_or (get_record reg (record_id outcome)) (Persistence ''submitted record vanished from registry'')) p2 (\<lambda>r.
      (Ok (record_id outcome), case outcome of AlreadyRecorded _ \<Rightarrow> p2
         | _ \<Rightarrow> p2\<lparr>store := put_bond (put_record (store p2) r) (record_id outcome) submitter \<lparr>bond_wei = 0, bond_kind = Whistleblower\<rparr>\<rparr>)))"
    unfolding p2_def using True sub by (simp add: ingest_equivocation_def Let_def)
  have s2: "stored_records (store p2) = stored_records (store p)" by (simp add: p2_def put_evidence_def)
  have both: "pipe_inv torn (p2\<lparr>store := put_bond (put_record (store p2) r) k submitter b\<rparr>) log"
    if "reg = update_record (registry p) k r" "rec_id r = k" "rec_status r = EvPending" "\<not> burn_applied r"
      "SLASH_RECORD_FORMAT_VERSION \<le> format_version r" "k \<notin> logged log" for k r b
    using pipe_invD(3)[OF inv] that s2
    by (intro pipe_inv_write[OF inv, of _ k r]) (auto simp: sorted_put_record fun_eq_iff p2_def put_evidence_def good_record_def)
  from sub show ?thesis
  proof (cases rule: submit_evidence_cases)
    case same
    have keep: "pipe_inv torn p2 log" using same(1) s2 by (intro pipe_inv_same[OF inv]) (simp_all add: p2_def)
    have "snd (ingest_equivocation c sha3 evidence_id p ev submitter block ep stake) = p2"
    proof (cases res)
      case (Ok out)
      then obtain k where "res = Ok (AlreadyRecorded k)" using same(2)[of out] by blast
      then show ?thesis unfolding run by (cases "get_record reg k") simp_all
    qed (simp_all add: run)
    then show ?thesis using keep by simp
  next
    case (fresh k r)
    have "in_step (stored p k) (held p k)" by (rule pipe_invD(2)[OF inv])
    then have "stored p k = None" using fresh(2) by (auto simp: in_step_def split: option.splits)
    then have "k \<notin> logged log" by (rule fresh_not_logged[OF inv])
    then show ?thesis unfolding run using both[OF fresh(3-6)] by (simp add: fresh(1,3,7))
  next
    case (witness k r more)
    note h = held_stored[OF inv witness(2), simplified witness(3), simplified]
    show ?thesis unfolding run using both[OF witness(4)] h witness(3) by (simp add: witness(1,4))
  qed
qed (simp add: ingest_equivocation_def inv)

lemma appeal_inv:
  assumes inv: "pipe_inv torn p log"
  shows "pipe_inv torn (snd (dispatch_file_appeal_tx p rid sender wei height)) log"
proof -
  obtain res reg where f: "file_appeal_for_tx (registry p) rid sender height = (res, reg)" by (metis prod.exhaust)
  from f show ?thesis
  proof (cases rule: file_appeal_cases)
    case same
    then show ?thesis using inv f by (cases res) (auto simp: dispatch_file_appeal_tx_def)
  next
    case (appealed r)
    define r1 where "r1 = r\<lparr>rec_status := EvAppealed\<rparr>"
    note h = held_stored[OF inv appealed(1), simplified appealed(2), simplified]
    have "pipe_inv torn (p\<lparr>registry := reg, store := put_record (put_bond (store p) rid sender b) r1\<rparr>) log" for b
      using pipe_invD(3)[OF inv] h appealed(6)
      by (intro pipe_inv_write[OF inv, of _ rid r1]) (auto simp: sorted_put_record fun_eq_iff r1_def good_record_def)
    then show ?thesis using inv f by (auto simp: dispatch_file_appeal_tx_def appealed(5) simp flip: r1_def)
  qed
qed

lemma overturn_inv:
  assumes inv: "pipe_inv torn p log"
  shows "pipe_inv torn (snd (overturn_and_refund p rid)) log"
proof (cases "held p rid")
  case None
  then show ?thesis using inv by (simp add: overturn_and_refund_def)
next
  case (Some r)
  show ?thesis
  proof (cases "rec_status r = EvAppealed")
    case True
    define r1 where "r1 = r\<lparr>rec_status := EvOverturned\<rparr>"
    note h = held_stored[OF inv Some, simplified True, simplified]
    have o: "overturn_slash (registry p) rid = (Ok (final_slash_wei r), update_record (registry p) rid r1)"
      using Some True by (simp add: overturn_slash_def r1_def)
    have "pipe_inv torn (p\<lparr>vset := vs, registry := update_record (registry p) rid r1,
        store := foldl (\<lambda>st (a, _). delete_bond st rid a) (put_record (store p) r1) bonds\<rparr>) log" for vs bonds
      using pipe_invD(3)[OF inv] h
      by (intro pipe_inv_write[OF inv, of _ rid r1]) (auto simp: sorted_put_record fun_eq_iff r1_def good_record_def)
    then show ?thesis using Some True o by (auto simp: overturn_and_refund_def Let_def split: prod.split)
  qed (simp add: overturn_and_refund_def Some inv)
qed

lemma reject_inv:
  assumes inv: "pipe_inv torn p log"
  shows "pipe_inv torn (p\<lparr>registry := snd (reject_appeal (registry p) rid)\<rparr>) log"
proof (cases "held p rid")
  case None
  then show ?thesis using inv by (simp add: reject_appeal_def)
next
  case (Some r)
  show ?thesis
  proof (cases "rec_status r = EvAppealed")
    case True
    note h = held_stored[OF inv Some, simplified True, simplified]
    have rej: "snd (reject_appeal (registry p) rid) = update_record (registry p) rid (r\<lparr>rec_status := EvConfirmed\<rparr>)"
      using Some True by (simp add: reject_appeal_def)
    have "in_step (stored p k) (if k = rid then Some (r\<lparr>rec_status := EvConfirmed\<rparr>) else held p k)" for k
      using pipe_invD(2)[OF inv, of k] h True by (simp add: in_step_def)
    then show ?thesis unfolding rej using pipe_invD(1)[OF inv] by (simp add: pipe_inv_def)
  qed (simp add: reject_appeal_def Some inv)
qed

lemma held_rehydrated:
  assumes "distinct (map fst S)" "\<And>k r. (k, r) \<in> set S \<Longrightarrow> rec_id r = k"
  shows "get_record (foldl insert_rehydrated_record reg (map snd S)) k = (case map_of S k of Some r \<Rightarrow> Some r | None \<Rightarrow> get_record reg k)"
  using assms
proof (induction S arbitrary: reg)
  case (Cons p S)
  obtain i r where p: "p = (i, r)" by (cases p)
  have "rec_id r = i" "map_of S i = None" using Cons.prems by (auto simp: p map_of_eq_None_iff)
  moreover have "get_record (foldl insert_rehydrated_record (insert_rehydrated_record reg r) (map snd S)) k
      = (case map_of S k of Some r \<Rightarrow> Some r | None \<Rightarrow> get_record (insert_rehydrated_record reg r) k)"
    by (rule Cons.IH) (use Cons.prems in simp_all)
  ultimately show ?case by (simp add: p split: option.split)
qed simp

lemma restart_inv:
  assumes inv: "store_inv torn (store p) log"
  shows "pipe_inv torn (snd (rehydrate_from_disk (p\<lparr>registry := registry_new m, vset := vs\<rparr>))) log"
proof -
  let ?S = "stored_records (store p)"
  let ?p = "snd (rehydrate_from_disk (p\<lparr>registry := registry_new m, vset := vs\<rparr>))"
  have keys: "distinct (map fst ?S)" using store_invD(1)[OF inv] by (simp add: strict_sorted_iff)
  have "rec_id r = k" if "(k, r) \<in> set ?S" for k r
    using keys that store_invD(2)[OF inv, of k r] by (simp add: good_record_def)
  note h = held_rehydrated[OF keys this]
  have S: "store ?p = store p" by (auto simp: rehydrate_from_disk_def Let_def)
  have held: "held ?p k = stored p k" for k
  proof (cases "?S = []")
    case False
    then have "registry ?p = foldl insert_rehydrated_record (registry_new m) (map snd ?S)"
      by (simp add: rehydrate_from_disk_def load_all_records_def Let_def)
    then show ?thesis by (simp add: h split: option.split)
  qed (simp add: rehydrate_from_disk_def load_all_records_def Let_def)
  have "in_step x x" for x by (simp add: in_step_def split: option.split)
  then show ?thesis using inv by (simp add: pipe_inv_def S held)
qed

lemma writes_inv:
  assumes "store_inv True st log" "\<And>w. w \<in> set ws \<Longrightarrow> confirms (rec_id w) w \<and> rec_id w \<notin> logged log"
  shows "store_inv True (foldl put_record st ws) log"
  using assms
proof (induction ws arbitrary: st)
  case (Cons w ws)
  have "store_inv True (put_record st w) log"
    using Cons.prems(2)[of w] store_invD(1)[OF Cons.prems(1)]
    by (intro store_inv_write[OF Cons.prems(1), of _ "rec_id w" w]) (simp_all add: sorted_put_record good_record_def confirms_def)
  then show ?case using Cons.IH[of "put_record st w"] Cons.prems(2) by simp
qed simp

lemma crash_inv:
  assumes inv: "pipe_inv True p log"
  shows "pipe_inv True (snd (rehydrate_from_disk
    (p\<lparr>store := foldl put_record (store p) (take k (tick_writes p n)), registry := registry_new m, vset := vs\<rparr>))) log"
proof -
  let ?p = "p\<lparr>store := foldl put_record (store p) (take k (tick_writes p n))\<rparr>"
  have "confirms (rec_id w) w \<and> rec_id w \<notin> logged log" if "w \<in> set (take k (tick_writes p n))" for w
    using tick_ok[OF inv, of n] in_set_takeD[OF that] by blast
  then have "store_inv True (store ?p) log" using writes_inv[OF pipe_invD(1)[OF inv]] by simp
  then show ?thesis using restart_inv[of True ?p log vs m] by simp
qed

text \<open>The writes a crash cuts short are the writes of the tick.\<close>

lemma mark_writes: "store (mark_applied p rid b) = foldl put_record (store p) (last_write (mark_applied p rid b) rid)"
  by (simp add: mark_applied_def last_write_def Let_def split: option.split)

lemma burn_writes: "store (snd (burn_record p r f force)) = foldl put_record (store p) (last_write (snd (burn_record p r f force)) (rec_id r))"
  by (simp add: burn_record_def mark_writes Let_def split: prod.split)

lemma replay_store: "store (snd (replay_loop n p rs)) = foldl put_record (store p) (replay_writes n p rs)"
proof (induction rs arbitrary: p)
  case (Cons r rs)
  let ?p1 = "if already_slashed (vset p) r then mark_applied p (rec_id r) False
             else snd (burn_record p r (recompute_splits r) (tombstones (registry p) r (rec_type r)))"
  show ?case
  proof (cases "n \<le> appeal_deadline r")
    case False
    have "store ?p1 = foldl put_record (store p) (last_write ?p1 (rec_id r))" by (simp add: mark_writes burn_writes)
    moreover have "store (snd (replay_loop n p (r # rs))) = store (snd (replay_loop n ?p1 rs))"
      using False by (simp add: Let_def split: prod.split)
    ultimately show ?thesis using Cons.IH[of ?p1] False by (simp only: replay_writes.simps if_False Let_def foldl_append)
  qed (simp add: Cons.IH)
qed simp

lemma finalize_store: "store (snd (finalize_loop n p rs applied)) = foldl put_record (store p) (finalize_writes n p rs)"
proof (induction rs arbitrary: p applied)
  case (Cons r rs)
  obtain res reg where f: "finalize_slash (registry p) (rec_id r) n = (res, reg)" by (metis prod.exhaust)
  show ?case
  proof (cases res)
    case (Ok x)
    show ?thesis
    proof (cases x)
      case (Some fs)
      show ?thesis
      proof (cases "get_record reg (rec_id r)")
        case (Some r1)
        let ?p2 = "p\<lparr>registry := reg, store := put_record (store p) r1\<rparr>"
        obtain a p3 where b: "burn_record ?p2 r fs (tombstones reg r (rec_type r1)) = (a, p3)" by (metis prod.exhaust)
        have "store p3 = foldl put_record (put_record (store p) r1) (last_write p3 (rec_id r))"
          using burn_writes[of ?p2 r fs "tombstones reg r (rec_type r1)"] by (simp add: b)
        then show ?thesis using Cons.IH[of p3] b by (simp add: f Ok \<open>x = Some fs\<close> Some Let_def)
      qed (simp add: f Ok Some)
    qed (use Cons.IH[of "p\<lparr>registry := reg\<rparr>"] in \<open>simp add: f Ok\<close>)
  qed (simp_all add: f)
qed simp

lemma tick_store: "store (snd (tick_finalize p n)) = foldl put_record (store p) (tick_writes p n)"
proof -
  obtain replayed p1 where r: "replay_loop n p (load_records_with_unapplied_burn (store p)) = (replayed, p1)" by (metis prod.exhaust)
  then have s: "store p1 = foldl put_record (store p) (replay_writes n p (load_records_with_unapplied_burn (store p)))"
    using replay_store[of n p "load_records_with_unapplied_burn (store p)"] by simp
  show ?thesis
  proof (cases "load_records_ready_to_finalize (store p1) n = []")
    case True
    then show ?thesis using r s by (simp add: tick_finalize_def tick_writes_def Let_def)
  next
    case False
    then show ?thesis using r s finalize_store[of n p1 "load_records_ready_to_finalize (store p1) n" replayed]
      by (simp add: tick_finalize_def tick_writes_def Let_def)
  qed
qed

lemma pipe_step_inv:
  assumes "case s of (p, log) \<Rightarrow> pipe_inv torn p log" "torn \<or> \<not> is_crash e"
  shows "case pipe_step c sha3 evidence_id m s e of (p, log) \<Rightarrow> pipe_inv torn p log"
proof -
  obtain p log where s: "s = (p, log)" "pipe_inv torn p log" using assms(1) by (cases s) simp
  show ?thesis
  proof (cases e)
    case (PTick n)
    then show ?thesis using tick_ok[OF s(2), of n] by (auto simp: s(1) pipe_step_def pipe_event_def)
  next
    case (PValidators vs)
    then show ?thesis using pipe_inv_same[OF s(2), of "p\<lparr>vset := vs\<rparr>"] by (simp add: s(1) pipe_step_def pipe_event_def)
  next
    case (PCrash n k vs)
    then have "torn = True" using assms(2) by simp
    then show ?thesis using crash_inv s by (simp add: PCrash pipe_step_def pipe_event_def)
  qed (simp_all add: s(1) pipe_step_def pipe_event_def ingest_inv appeal_inv overturn_inv reject_inv restart_inv[OF pipe_invD(1)] s(2))
qed

interpretation pl: inv_machine "pipe_step c sha3 evidence_id m" "\<lambda>(p, log). pipe_inv torn p log" "\<lambda>e. torn \<or> \<not> is_crash e"
  for c sha3 evidence_id m torn
  by unfold_locales (rule pipe_step_inv)

lemma pipe_run_inv:
  assumes "pipe_run c sha3 evidence_id m vs es = (p, log)" "torn \<or> list_all (\<lambda>e. \<not> is_crash e) es"
  shows "pipe_inv torn p log"
proof -
  have "pipe_inv torn (pipeline_new m vs) []" by (simp add: pipeline_new_def in_step_def pipe_inv_def store_inv_def)
  then show ?thesis using pl.inv_run[of torn "(pipeline_new m vs, [])" es c sha3 evidence_id m] assms
    by (auto simp: pipe_run_def list_all_iff)
qed

text \<open>
  C21: Over any sequence of reports, appeals, block ticks, overturns, rejections, changes of the validator set, restarts and
  crashes within a tick after any number of its writes, no slash record is burned by two ticks that complete, the
  replay of a tick cut short included; a burn is for the offender of the record, for its slash and after its
  deadline, and leaves the record confirmed and marked in the store. As long as no tick was cut short, the
  burned records are exactly the confirmed ones of the store; so an appealed record is not burned. A failing write of a
  tick ends the node and is such a crash; the writes outside the ticks and the mark of a skipped replay are taken to succeed.
\<close>

theorem slashes_burned_once:
  assumes "pipe_run c sha3 evidence_id m vs es = (p, log)"
  shows "distinct (map (as_record \<circ> snd) log)
    \<and> (\<forall>(n, a) \<in> set log. \<exists>r. stored p (as_record a) = Some r \<and> as_offender a = rec_offender r
         \<and> burn_wei a = final_slash_wei r \<and> appeal_deadline r < n \<and> rec_status r = EvConfirmed \<and> burn_applied r)
    \<and> (list_all (\<lambda>e. \<not> is_crash e) es \<longrightarrow>
         (\<forall>k r. stored p k = Some r \<longrightarrow> (k \<in> as_record ` snd ` set log \<longleftrightarrow> rec_status r = EvConfirmed)))"
proof (intro conjI impI)
  note inv = pipe_invD(1)[OF pipe_run_inv[OF assms, of True, simplified]]
  show "distinct (map (as_record \<circ> snd) log)" by (rule store_invD(4)[OF inv])
  show "\<forall>(n, a) \<in> set log. \<exists>r. stored p (as_record a) = Some r \<and> as_offender a = rec_offender r
      \<and> burn_wei a = final_slash_wei r \<and> appeal_deadline r < n \<and> rec_status r = EvConfirmed \<and> burn_applied r"
    using store_invD(3)[OF inv] unfolding burned_def by fast
next
  assume "list_all (\<lambda>e. \<not> is_crash e) es"
  then have inv: "pipe_inv False p log" using pipe_run_inv[OF assms, of False] by simp
  have "k \<in> logged log \<longleftrightarrow> rec_status r = EvConfirmed" if r: "stored p k = Some r" for k r
    using store_invD(2)[OF pipe_invD(1)[OF inv] r] stored_good(2,4)[OF inv r] unfolding good_record_def by blast
  then show "\<forall>k r. stored p k = Some r \<longrightarrow> (k \<in> logged log \<longleftrightarrow> rec_status r = EvConfirmed)" by blast
qed

text \<open>
  C22: After any such run, crashes included, a block tick succeeds, burns every pending record whose deadline is over, and leaves
  none whose deadline is over pending, or confirmed without the mark of its burn.
\<close>

theorem tick_burns_all_due:
  assumes "pipe_run c sha3 evidence_id m vs es = (p, log)"
  shows "\<exists>as p'. tick_finalize p n = (Ok as, p')
    \<and> (\<forall>k r. stored p k = Some r \<and> rec_status r = EvPending \<and> appeal_deadline r < n
         \<longrightarrow> (\<exists>a \<in> set as. as_record a = k) \<and> (\<exists>r'. stored p' k = Some r' \<and> rec_status r' = EvConfirmed \<and> burn_applied r'))
    \<and> (\<forall>k r. stored p k = Some r \<and> rec_status r = EvConfirmed \<and> appeal_deadline r < n
         \<longrightarrow> (\<exists>r'. stored p' k = Some r' \<and> rec_status r' = EvConfirmed \<and> burn_applied r'))"
proof -
  note inv = pipe_run_inv[OF assms, of True, simplified]
  obtain as p' where t: "tick_finalize p n = (Ok as, p')" "pipe_inv True p' (log @ map (Pair n) as)"
    and due: "\<forall>k r. stored p k = Some r \<and> rec_status r = EvPending \<and> appeal_deadline r < n \<longrightarrow> k \<in> as_record ` set as"
    and marked: "\<forall>k r. stored p k = Some r \<and> rec_status r = EvConfirmed \<and> appeal_deadline r < n
      \<longrightarrow> (\<exists>w. stored p' k = Some w \<and> confirms k w \<and> burn_applied w)"
    using tick_ok[OF inv, of n] by (elim exE conjE) (rule that; assumption)
  have burnt: "\<exists>r'. stored p' k = Some r' \<and> rec_status r' = EvConfirmed \<and> burn_applied r'" if k: "k \<in> as_record ` set as" for k
  proof -
    obtain a where a: "a \<in> set as" "k = as_record a" using k by blast
    then show ?thesis using store_invD(3)[OF pipe_invD(1)[OF t(2)], of n a] by (auto simp: burned_def)
  qed
  show ?thesis
  proof (intro exI[of _ as] exI[of _ p'] conjI allI impI)
    fix k r
    assume r: "stored p k = Some r \<and> rec_status r = EvPending \<and> appeal_deadline r < n"
    have k: "k \<in> as_record ` set as" using due r by metis
    then show "\<exists>a \<in> set as. as_record a = k" by auto
    show "\<exists>r'. stored p' k = Some r' \<and> rec_status r' = EvConfirmed \<and> burn_applied r'" by (rule burnt[OF k])
  next
    fix k r
    assume "stored p k = Some r \<and> rec_status r = EvConfirmed \<and> appeal_deadline r < n"
    then show "\<exists>r'. stored p' k = Some r' \<and> rec_status r' = EvConfirmed \<and> burn_applied r'"
      using marked[rule_format, of k r] by (auto simp: confirms_def)
  qed (rule t(1))
qed

section \<open>What a replay burns\<close>

lemma vset_marked [simp]: "vset (mark_applied p k b) = vset p"
  by (simp add: mark_applied_def Let_def)

definition stake_of :: "validator_set \<Rightarrow> address \<Rightarrow> (u128 \<times> validator_status) option" where
  "stake_of vs x = map_option (\<lambda>v. (self_stake v, status v)) (get vs x)"

lemma already_slashed_iff:
  "already_slashed vs r \<longleftrightarrow> (\<nexists>s. stake_of vs (rec_offender r) = Some (s, Active) \<and> final_slash_wei r \<le> s)"
  by (cases "get vs (rec_offender r)") (auto simp: already_slashed_def stake_of_def not_less)

lemma replay_burn:
  assumes "\<not> already_slashed (vset p) r" "burn_record p r (recompute_splits r) force = (a, p1)"
  shows "as_record a = rec_id r" "as_offender a = rec_offender r" "burn_wei a = final_slash_wei r" "jailed a \<or> tombstoned a"
    and "\<exists>s. stake_of (vset p) (rec_offender r) = Some (final_slash_wei r + s, Active)
      \<and> stake_of (vset p1) = (stake_of (vset p))(rec_offender r \<mapsto> (s, if force then Tombstoned else Jailed))"
proof -
  let ?f = "recompute_splits r"
  obtain j t vs where b: "apply_slash_burn_v2 (vset p) (rec_offender r) (final_slash_wei r) (splits ?f) force = ((j, t), vs)"
    by (metis prod.exhaust)
  have p1: "vset p1 = vs" "as_record a = rec_id r" "as_offender a = rec_offender r" "burn_wei a = final_slash_wei r" "jailed a = j" "tombstoned a = t"
    using assms(2) b by (auto simp: burn_record_def splits_fair)
  obtain v where v: "get (vset p) (rec_offender r) = Some v" "status v = Active" "final_slash_wei r \<le> self_stake v"
    using assms(1) by (auto simp: already_slashed_def split: option.splits)
  note g = burn_get[OF b splits_fair(3)]
  show "as_record a = rec_id r" "as_offender a = rec_offender r" "burn_wei a = final_slash_wei r" by (rule p1)+
  have "(j, t) = snd (burn_status (status v) force)" using b by (auto simp: apply_burn_eq Let_def v(1))
  then show "jailed a \<or> tombstoned a" using v(2) by (cases force) (auto simp: p1 burn_status_def)
  have "stake_of vs x = ((stake_of (vset p))(rec_offender r \<mapsto> (self_stake v - final_slash_wei r, if force then Tombstoned else Jailed))) x" for x
    using v by (cases "get (vset p) x") (auto simp: stake_of_def g burn_stake_def burn_status_def split: option.splits)
  then show "\<exists>s. stake_of (vset p) (rec_offender r) = Some (final_slash_wei r + s, Active)
      \<and> stake_of (vset p1) = (stake_of (vset p))(rec_offender r \<mapsto> (s, if force then Tombstoned else Jailed))"
    using v by (intro exI[of _ "self_stake v - final_slash_wei r"]) (auto simp: p1(1) stake_of_def)
qed

definition burned_from :: "address \<Rightarrow> applied_slash list \<Rightarrow> u128" where
  "burned_from x as = sum_list (map burn_wei (filter (\<lambda>a. as_offender a = x) as))"

definition replays :: "u64 \<Rightarrow> pipeline \<Rightarrow> slash_record list \<Rightarrow> applied_slash list \<Rightarrow> pipeline \<Rightarrow> bool" where
  "replays n p rs as p' \<longleftrightarrow>
     as_offender ` set as = rec_offender ` {r \<in> set rs. appeal_deadline r < n \<and> \<not> already_slashed (vset p) r}
     \<and> distinct (map as_offender as)
     \<and> (\<forall>a \<in> set as. \<exists>r \<in> set rs. as_record a = rec_id r \<and> as_offender a = rec_offender r \<and> burn_wei a = final_slash_wei r
          \<and> appeal_deadline r < n \<and> (jailed a \<or> tombstoned a))
     \<and> (\<forall>x. map_option fst (stake_of (vset p) x) = map_option (\<lambda>(s, _). s + burned_from x as) (stake_of (vset p') x))"

lemma replays_holds: "replay_loop n p rs = (as, p') \<Longrightarrow> replays n p rs as p'"
proof (induction rs arbitrary: p as)
  case Nil
  have "(\<lambda>(s, _). s + 0) = (fst :: u128 \<times> validator_status \<Rightarrow> u128)" by (simp add: fun_eq_iff)
  moreover have "as = []" "p' = p" using Nil by simp_all
  ultimately show ?case by (simp add: replays_def burned_from_def)
next
  case (Cons r rs)
  show ?case
  proof (cases "n \<le> appeal_deadline r \<or> already_slashed (vset p) r")
    case True
    define p0 where "p0 = (if n \<le> appeal_deadline r then p else mark_applied p (rec_id r) False)"
    have run: "replay_loop n p0 rs = (as, p')" using Cons.prems True by (auto simp: p0_def split: if_splits)
    have v: "vset p0 = vset p" by (simp add: p0_def)
    have due: "{x \<in> set (r # rs). appeal_deadline x < n \<and> \<not> already_slashed (vset p) x}
        = {x \<in> set rs. appeal_deadline x < n \<and> \<not> already_slashed (vset p) x}" using True by auto
    note ih = Cons.IH[OF run, unfolded replays_def v]
    show ?thesis unfolding replays_def due
    proof (intro conjI ballI)
      fix a
      assume "a \<in> set as"
      then obtain x where "x \<in> set rs" "as_record a = rec_id x \<and> as_offender a = rec_offender x \<and> burn_wei a = final_slash_wei x
          \<and> appeal_deadline x < n \<and> (jailed a \<or> tombstoned a)" using ih by blast
      then show "\<exists>x \<in> set (r # rs). as_record a = rec_id x \<and> as_offender a = rec_offender x \<and> burn_wei a = final_slash_wei x
          \<and> appeal_deadline x < n \<and> (jailed a \<or> tombstoned a)" by (intro bexI[of _ x]) simp_all
    qed (rule conjunct1[OF ih] conjunct1[OF conjunct2[OF ih]] conjunct2[OF conjunct2[OF conjunct2[OF ih]]])+
  next
    case False
    let ?who = "rec_offender r"
    obtain a p1 where b: "burn_record p r (recompute_splits r) (tombstones (registry p) r (rec_type r)) = (a, p1)" by (metis prod.exhaust)
    obtain as1 where l: "replay_loop n p1 rs = (as1, p')" "as = a # as1" using Cons.prems False b by (auto split: prod.splits)
    note ih = Cons.IH[OF l(1), unfolded replays_def]
    from False have "\<not> already_slashed (vset p) r" by simp
    note q = replay_burn[OF this b]
    define t where "t = (if tombstones (registry p) r (rec_type r) then Tombstoned else Jailed)"
    obtain s where st: "stake_of (vset p) ?who = Some (final_slash_wei r + s, Active)" "t \<noteq> Active"
      "stake_of (vset p1) = (stake_of (vset p))(?who \<mapsto> (s, t))" using q(5) by (auto simp: t_def)
    have al: "already_slashed (vset p1) x \<longleftrightarrow> rec_offender x = ?who \<or> already_slashed (vset p) x" for x
      using st(2) by (auto simp: already_slashed_iff st(3))
    have who: "?who \<notin> as_offender ` set as1" using ih al by auto
    then have from0: "burned_from x as = (if x = ?who then final_slash_wei r + burned_from x as1 else burned_from x as1)" "burned_from ?who as1 = 0" for x
      using q(2,3) by (auto simp: burned_from_def l(2) image_iff intro: filter_False)
    show ?thesis unfolding replays_def
    proof (intro conjI)
      show "as_offender ` set as = rec_offender ` {x \<in> set (r # rs). appeal_deadline x < n \<and> \<not> already_slashed (vset p) x}"
        using ih False q(2) by (auto simp: l(2) al)
      show "distinct (map as_offender as)" using ih who q(2) by (simp add: l(2))
      show "\<forall>a \<in> set as. \<exists>x \<in> set (r # rs). as_record a = rec_id x \<and> as_offender a = rec_offender x \<and> burn_wei a = final_slash_wei x
          \<and> appeal_deadline x < n \<and> (jailed a \<or> tombstoned a)"
        using ih False q(1-4) by (auto simp: l(2))
      show "\<forall>x. map_option fst (stake_of (vset p) x) = map_option (\<lambda>(s, _). s + burned_from x as) (stake_of (vset p') x)"
      proof
        fix x
        have "map_option fst (stake_of (vset p1) x) = map_option (\<lambda>(s, _). s + burned_from x as1) (stake_of (vset p') x)" using ih by blast
        then show "map_option fst (stake_of (vset p) x) = map_option (\<lambda>(s, _). s + burned_from x as) (stake_of (vset p') x)"
          using st(1) from0 by (cases "x = ?who"; cases "stake_of (vset p') x") (auto simp: st(3))
      qed
    qed
  qed
qed

text \<open>
  C40: A replay after a crash burns exactly from the offenders with an unapplied record past its deadline who are active and still
  hold the slash, once from each, the slash of such a record and in full, and jails or tombstones them; nobody else loses stake.
\<close>

theorem replay_burns_in_full:
  assumes "replay_loop n p rs = (as, p')"
  shows "as_offender ` set as = {x. \<exists>r \<in> set rs. rec_offender r = x \<and> appeal_deadline r < n
      \<and> (\<exists>v. get (vset p) x = Some v \<and> status v = Active \<and> final_slash_wei r \<le> self_stake v)}
    \<and> distinct (map as_offender as)
    \<and> (\<forall>a \<in> set as. \<exists>r \<in> set rs. as_record a = rec_id r \<and> as_offender a = rec_offender r \<and> burn_wei a = final_slash_wei r
         \<and> appeal_deadline r < n \<and> (jailed a \<or> tombstoned a))
    \<and> (\<forall>x. map_option self_stake (get (vset p) x)
          = map_option (\<lambda>v. self_stake v + sum_list (map burn_wei (filter (\<lambda>a. as_offender a = x) as))) (get (vset p') x))"
proof (intro conjI)
  note r = replays_holds[OF assms, unfolded replays_def]
  have "\<not> already_slashed (vset p) r \<longleftrightarrow> (\<exists>v. get (vset p) (rec_offender r) = Some v \<and> status v = Active \<and> final_slash_wei r \<le> self_stake v)" for r
    by (cases "get (vset p) (rec_offender r)") (auto simp: already_slashed_def not_less)
  then show "as_offender ` set as = {x. \<exists>r \<in> set rs. rec_offender r = x \<and> appeal_deadline r < n
      \<and> (\<exists>v. get (vset p) x = Some v \<and> status v = Active \<and> final_slash_wei r \<le> self_stake v)}"
    using r by (auto simp: image_def)
  show "\<forall>x. map_option self_stake (get (vset p) x)
      = map_option (\<lambda>v. self_stake v + sum_list (map burn_wei (filter (\<lambda>a. as_offender a = x) as))) (get (vset p') x)"
    using r by (simp add: stake_of_def burned_from_def option.map_comp o_def)
qed (use replays_holds[OF assms] in \<open>simp_all add: replays_def\<close>)

section \<open>Concrete runs\<close>

text \<open>A validator of stake 1000 votes for two blocks at height 1; node 8 reports it and height 200000 is past the deadline.\<close>

definition sample_crypto :: crypto where
  "sample_crypto = \<lparr>keccak256 = (\<lambda>_. 5), verify_single = (\<lambda>_ _ h. h = 5), verify_aggregate = (\<lambda>_ _ _. False), aggregate_signatures = (\<lambda>_. None)\<rparr>"

definition sample_vote :: "h256 \<Rightarrow> vote" where
  "sample_vote h = \<lparr>vdata = \<lparr>block_hash = h, block_number = 1, vphase = 0, epoch = 0\<rparr>, voter = 7, vsignature = replicate 96 0\<rparr>"

definition sample_evidence :: equivocation_evidence where
  "sample_evidence = \<lparr>ev_validator = 7, ev_round = 1, ev_phase = 0, vote_a = sample_vote 1, vote_b = sample_vote 2, ev_pubkey = replicate 48 0\<rparr>"

definition sample_validator :: "address \<Rightarrow> validator" where
  "sample_validator a = \<lparr>vaddress = a, bls_key = [], self_stake = 1000, delegated_stake = 0, commission_bps = 0, status = Active,
     last_signed_block = 0, pending_rewards = 0, delegator_reward_pool = 0, pool_denominator = 0, registered_epoch = 0\<rparr>"

definition sample_set :: validator_set where
  "sample_set = \<lparr>validators = [(7, sample_validator 7), (8, sample_validator 8)], active_set = [7, 8], current_epoch = 0\<rparr>"

definition sample_record :: slash_record where
  "sample_record = \<lparr>rec_id = 3, rec_type = EtSurrogateVote, rec_offender = 7, submitted_by = 8, submit_block = 1, rec_evidence = surrogate,
     rec_status = EvConfirmed, base_slash_wei = 84, final_slash_wei = 84, appeal_deadline = 8, reporters = [], jailed_by_slash = False,
     burn_applied = False, format_version = 1\<rparr>"

definition sample_run :: "pipeline_event list \<Rightarrow> pipeline \<times> burn_log" where
  "sample_run es = pipe_run sample_crypto (\<lambda>_. 3) (\<lambda>_. 4) 10 sample_set es"

lemma sample_verified: "evidence_verify sample_crypto sample_evidence"
  by (simp add: evidence_verify_def sample_evidence_def sample_vote_def sample_crypto_def vote_hash_def)

lemma sample_slash:
  "slash_amount_wei 1000 (correlated_slash_bps (base_slash_bps EtDoubleSign) (wrap_add 64 0 1) 10) = 84"
  by (simp add: correlated_slash_bps_def slash_amount_wei_def checked_mul_def SLASH_DOUBLE_SIGN_def wrap_add_def Let_def)

lemma sample_reported:
  "\<exists>r. stored (fst (sample_run [PIngest sample_evidence 8 1 0 1000])) 3 = Some r \<and> rec_status r = EvPending
    \<and> appeal_deadline r = 172801 \<and> final_slash_wei r = 84 \<and> rec_offender r = 7"
  using sample_verified sample_slash
  by (simp add: sample_run_def pipe_run_def pipe_step_def pipe_event_def ingest_equivocation_def submit_evidence_def Let_def
      evidence_to_double_sign_def sample_evidence_def compute_id_def pipeline_new_def APPEAL_WINDOW_BLOCKS_def put_evidence_def
      get_record_def registry_new_def update_record_def)

text \<open>
  The node ends after the first write of the tick at height 200000: the record is confirmed in the store, the burn is lost.
  The tick at the next height replays it.
\<close>

definition crash_run :: "pipeline_event list" where
  "crash_run = [PIngest sample_evidence 8 1 0 1000, PCrash 200000 1 sample_set, PTick 200001]"

definition sample_pipeline :: "slash_record \<Rightarrow> (u64 \<times> address \<rightharpoonup> u64) \<Rightarrow> pipeline" where
  "sample_pipeline r counts =
     \<lparr>store = \<lparr>stored_evidence = [4 \<mapsto> sample_evidence], stored_records = [(3, r)],
        stored_bonds = [((3, 8), \<lparr>bond_wei = 0, bond_kind = Whistleblower\<rparr>)]\<rparr>,
      registry = \<lparr>records = [(3, r)], epoch_slash_count = counts, total_validators = 10\<rparr>, vset = sample_set\<rparr>"

definition reported_record :: slash_record where
  "reported_record = sample_record\<lparr>rec_type := EtDoubleSign, rec_evidence := evidence_to_double_sign sample_evidence, rec_status := EvPending,
     base_slash_wei := slash_amount_wei 1000 SLASH_DOUBLE_SIGN, appeal_deadline := 172801\<rparr>"

lemma ingested: "pipe_event sample_crypto (\<lambda>_. 3) (\<lambda>_. 4) 10 (pipeline_new 10 sample_set) (PIngest sample_evidence 8 1 0 1000)
    = ([], sample_pipeline reported_record Map.empty)"
proof -
  have "evidence_offender (evidence_to_double_sign sample_evidence) = Some 7" "evidence_type (evidence_to_double_sign sample_evidence) = EtDoubleSign"
    by (simp_all add: evidence_to_double_sign_def sample_evidence_def)
  then show ?thesis using sample_verified sample_slash
    by (simp add: pipe_event_def ingest_equivocation_def submit_evidence_def Let_def compute_id_def pipeline_new_def APPEAL_WINDOW_BLOCKS_def
        put_evidence_def get_record_def registry_new_def update_record_def sample_pipeline_def reported_record_def sample_record_def
        put_record_def put_bond_def SLASH_RECORD_FORMAT_VERSION_def)
qed

lemma crashed: "pipe_event sample_crypto (\<lambda>_. 3) (\<lambda>_. 4) 10 (sample_pipeline reported_record Map.empty) (PCrash 200000 1 sample_set)
    = ([], sample_pipeline (reported_record\<lparr>rec_status := EvConfirmed\<rparr>) [(0, 7) \<mapsto> 1])"
proof -
  have "take 1 (tick_writes (sample_pipeline reported_record Map.empty) 200000) = [reported_record\<lparr>rec_status := EvConfirmed\<rparr>]"
    by (simp add: tick_writes_def load_records_with_unapplied_burn_def load_records_ready_to_finalize_def load_all_records_def sample_pipeline_def
        reported_record_def sample_record_def finalize_slash_def get_record_def update_record_def SLASH_RECORD_FORMAT_VERSION_def Let_def)
  then show ?thesis
    by (simp add: pipe_event_def rehydrate_from_disk_def load_all_records_def sample_pipeline_def reported_record_def sample_record_def
        put_record_def insert_rehydrated_record_def registry_new_def update_record_def EPOCH_LENGTH_def wrap_add_def Let_def)
qed

lemma crash_run_burns: "\<exists>a. snd (sample_run crash_run) = [(200001, a)] \<and> as_record a = 3"
proof -
  let ?r = "reported_record\<lparr>rec_status := EvConfirmed\<rparr>" and ?p = "sample_pipeline (reported_record\<lparr>rec_status := EvConfirmed\<rparr>) [(0, 7) \<mapsto> 1]"
  have old: "load_records_with_unapplied_burn (store ?p) = [?r]"
    by (simp add: load_records_with_unapplied_burn_def load_all_records_def sample_pipeline_def reported_record_def sample_record_def SLASH_RECORD_FORMAT_VERSION_def)
  have safe: "\<not> already_slashed (vset ?p) ?r"
    by (simp add: already_slashed_def sample_pipeline_def reported_record_def sample_record_def sample_set_def sample_validator_def get_def)
  obtain a p1 where b: "burn_record ?p ?r (recompute_splits ?r) (tombstones (registry ?p) ?r (rec_type ?r)) = (a, p1)" by (metis prod.exhaust)
  have r: "appeal_deadline ?r < 200001" "rec_id ?r = 3" by (simp_all add: reported_record_def sample_record_def)
  have loop: "replay_loop 200001 ?p [?r] = ([a], p1)" using b safe r(1) by simp
  have "load_records_ready_to_finalize (store p1) 200001 = []"
  proof -
    have "held ?p 3 = Some ?r" by (simp add: sample_pipeline_def get_record_def)
    moreover have "stored_records (store ?p) = [(3, ?r)]" by (simp add: sample_pipeline_def)
    ultimately have "\<exists>x. rec_status x = EvConfirmed \<and> stored_records (store p1) = [(3, x)]"
      using b r(2) by (auto simp: burn_record_def mark_applied_def put_record_def Let_def split: prod.splits)
    then show ?thesis by (auto simp: load_records_ready_to_finalize_def load_all_records_def)
  qed
  then have "tick_finalize ?p 200001 = (Ok [a], p1)" unfolding tick_finalize_def old loop by simp
  moreover have "as_record a = 3" using replay_burn(1)[OF safe b] r(2) by simp
  ultimately show ?thesis
    by (simp add: crash_run_def sample_run_def pipe_run_def pipe_step_def ingested crashed pipe_event_def[where e = "PTick n" for n] del: One_nat_def)
qed

lemma slashes_burned_once_witness:
  "distinct (map (as_record \<circ> snd) (snd (sample_run crash_run))) \<and> snd (sample_run crash_run) \<noteq> []
    \<and> (\<exists>r. stored (fst (sample_run crash_run)) 3 = Some r \<and> burn_applied r)
    \<and> 3 \<notin> as_record ` snd ` set (snd (sample_run [PIngest sample_evidence 8 1 0 1000]))"
proof -
  note once = slashes_burned_once[OF prod.collapse[symmetric], of sample_crypto "\<lambda>_. 3" "\<lambda>_. 4" 10 sample_set, folded sample_run_def]
  note crash = once[of crash_run]
  obtain r where r: "stored (fst (sample_run [PIngest sample_evidence 8 1 0 1000])) 3 = Some r" "rec_status r = EvPending"
    using sample_reported by blast
  obtain a where a: "snd (sample_run crash_run) = [(200001, a)]" "as_record a = 3" using crash_run_burns by blast
  have "distinct (map (as_record \<circ> snd) (snd (sample_run crash_run)))" by (rule conjunct1[OF crash])
  moreover have "\<exists>r. stored (fst (sample_run crash_run)) 3 = Some r \<and> burn_applied r"
    using bspec[OF conjunct1[OF conjunct2[OF crash]], of "(200001, a)"] a by auto
  moreover have "3 \<notin> as_record ` snd ` set (snd (sample_run [PIngest sample_evidence 8 1 0 1000]))"
    using conjunct2[OF conjunct2[OF once[of "[PIngest sample_evidence 8 1 0 1000]"]], rule_format, OF _ r(1)] r(2) by simp
  ultimately show ?thesis using a(1) by simp
qed

lemma tick_burns_all_due_witness:
  "\<exists>as p'. tick_finalize (fst (sample_run [PIngest sample_evidence 8 1 0 1000])) 200000 = (Ok as, p') \<and> (\<exists>a \<in> set as. as_record a = 3)"
proof -
  obtain r where "stored (fst (sample_run [PIngest sample_evidence 8 1 0 1000])) 3 = Some r" "rec_status r = EvPending" "appeal_deadline r < 200000"
    using sample_reported by auto
  then show ?thesis
    using tick_burns_all_due[OF prod.collapse[symmetric], of sample_crypto "\<lambda>_. 3" "\<lambda>_. 4" 10 sample_set
      "[PIngest sample_evidence 8 1 0 1000]" 200000, folded sample_run_def] by blast
qed

lemma replay_burns_in_full_witness:
  "\<exists>as p'. replay_loop 9 (pipeline_new 10 sample_set) [sample_record] = (as, p') \<and> as_offender ` set as = {7}
    \<and> (\<exists>v. get (vset p') 7 = Some v \<and> self_stake v < 1000)"
proof -
  obtain as p' where l: "replay_loop 9 (pipeline_new 10 sample_set) [sample_record] = (as, p')" by (metis prod.exhaust)
  note f = replay_burns_in_full[OF l]
  have at: "get (vset (pipeline_new 10 sample_set)) 7 = Some (sample_validator 7)" by (simp add: pipeline_new_def sample_set_def get_def)
  have r: "rec_offender sample_record = 7" "final_slash_wei sample_record = 84" "appeal_deadline sample_record = 8" by (simp_all add: sample_record_def)
  have offenders: "as_offender ` set as = {7}" using conjunct1[OF f] at r by (auto simp: sample_validator_def)
  then obtain a where a: "a \<in> set as" "as_offender a = 7" by (metis imageE insertI1)
  have "burn_wei a = 84" using conjunct1[OF conjunct2[OF conjunct2[OF f]]] a(1) r by auto
  then have "84 \<le> sum_list (map burn_wei (filter (\<lambda>a. as_offender a = 7) as))" using a member_le_sum_list[of 84 "map burn_wei (filter (\<lambda>a. as_offender a = 7) as)"] by force
  moreover obtain v where "get (vset p') 7 = Some v" "1000 = self_stake v + sum_list (map burn_wei (filter (\<lambda>a. as_offender a = 7) as))"
    using conjunct2[OF conjunct2[OF conjunct2[OF f]], rule_format, of 7] at by (cases "get (vset p') 7") (simp_all add: sample_validator_def)
  ultimately show ?thesis using l offenders by (intro exI[of _ as] exI[of _ p']) simp
qed

lemma burn_effect_witness:
  "\<exists>j t vs' v w. apply_slash_burn_v2 sample_set 7 100 [(8, 5)] False = ((j, t), vs') \<and> j \<and> active_set vs' = [8]
    \<and> get vs' 7 = Some v \<and> self_stake v = 900 \<and> status v = Jailed \<and> get vs' 8 = Some w \<and> pending_rewards w = 5"
proof -
  obtain j t vs' where b: "apply_slash_burn_v2 sample_set 7 100 [(8, 5)] False = ((j, t), vs')" by (metis prod.exhaust)
  note e = burn_effect[OF b]
  have at: "get sample_set 7 = Some (sample_validator 7)" "get sample_set 8 = Some (sample_validator 8)" by (simp_all add: sample_set_def get_def)
  from e obtain v where "get vs' 7 = Some v" "self_stake v = 900" "status v = Jailed"
    by (auto simp: at sample_validator_def dest!: spec[of _ 7])
  moreover from e obtain w where "get vs' 8 = Some w" "pending_rewards w = 5"
    by (auto simp: at sample_validator_def dest!: spec[of _ 8])
  ultimately show ?thesis using b e at by (auto simp: sample_set_def sample_validator_def)
qed

section \<open>Documentation and code\<close>

text \<open>
  The check of a stored proof verifies the signatures over the block hashes, while votes sign the hash of the vote data, so
  evidence the node has verified does not pass it. Nothing calls it when the evidence is submitted.
\<close>

lemma proof_checks_other_message:
  "evidence_verify sample_crypto sample_evidence \<and>
   (\<forall>p. evidence_to_double_sign sample_evidence = V2DoubleSign p \<longrightarrow> \<not> proof_verify (\<lambda>_. True) (\<lambda>_. True) (verify_single sample_crypto) p)"
  using sample_verified by (simp add: evidence_to_double_sign_def sample_evidence_def sample_vote_def sample_crypto_def proof_verify_def)

text \<open>
  The burns of a tick reach the accounts of the state only after the tick returned, the marks are in the store before: a node
  that ends in between never burns these slashes.
\<close>

lemma crash_loses_burn:
  assumes "pipe_run c sha3 evidence_id m vs es = (p, log)" "stored p k = Some r" "rec_status r = EvPending" "appeal_deadline r < n"
  shows "\<exists>p' r'. pipe_step c sha3 evidence_id m (p, log) (PCrash n (length (tick_writes p n)) vs') = (p', log)
    \<and> k \<notin> as_record ` snd ` set log \<and> stored p' k = Some r' \<and> rec_status r' = EvConfirmed \<and> burn_applied r'"
proof -
  note inv = pipe_run_inv[OF assms(1), of True, simplified]
  obtain as q where t: "tick_finalize p n = (Ok as, q)" "pipe_inv True q (log @ map (Pair n) as)"
    and due: "\<forall>k r. stored p k = Some r \<and> rec_status r = EvPending \<and> appeal_deadline r < n \<longrightarrow> k \<in> as_record ` set as"
    using tick_ok[OF inv, of n] by (elim exE conjE) (rule that; assumption)
  obtain a where a: "a \<in> set as" "as_record a = k" using due assms(2-4) by blast
  then obtain r' where r': "stored q k = Some r'" "burned n a r'" using store_invD(3)[OF pipe_invD(1)[OF t(2)], of n a] by auto
  let ?p = "p\<lparr>store := store q, registry := registry_new m, vset := vs'\<rparr>"
  have "foldl put_record (store p) (tick_writes p n) = store q" using tick_store[of p n] t(1) by simp
  then have "pipe_step c sha3 evidence_id m (p, log) (PCrash n (length (tick_writes p n)) vs') = (snd (rehydrate_from_disk ?p), log)"
    by (simp add: pipe_step_def pipe_event_def)
  moreover have "store (snd (rehydrate_from_disk ?p)) = store q" by (auto simp: rehydrate_from_disk_def Let_def)
  moreover have "k \<notin> logged log" by (rule stored_pending_held(4)[OF inv assms(2,3)])
  ultimately show ?thesis using r' by (intro exI[of _ "snd (rehydrate_from_disk ?p)"] exI[of _ r']) (simp add: burned_def)
qed

text \<open>The reporters are paid from the slash, the burn is limited to the stake: with no stake left, rewards are created.\<close>

lemma reward_without_burn:
  "let vs = put sample_set 7 ((sample_validator 7)\<lparr>self_stake := 0\<rparr>); vs' = snd (apply_slash_burn_v2 vs 7 100 [(8, 5)] False)
   in map_option self_stake (get vs' 7) = Some 0 \<and> map_option self_stake (get vs' 8) = Some 1000 \<and> map_option pending_rewards (get vs' 8) = Some 5"
  by (simp add: apply_slash_burn_v2_def burn_status_def reward_reporter_def sample_set_def sample_validator_def get_def put_def Let_def)

end
