(* ===== verification/Spec2Isabelle.thy ===== *)
theory Spec2Isabelle
  imports Fees Lp_Token Delegation Slashing Mempool HotStuff2 Trie_Correct Evm_Types HotStuff Exec_Props State_Root Scheduler Slash_Pipeline
begin

text \<open>
  Zebvix Chain is an EVM-compatible proof-of-stake chain written in Rust. This library models the
  protocol state of its node: what the consensus engine votes for and certifies, which
  transactions the pool admits and how a block executes them, how fees and rewards are computed, who is elected and slashed,
  what the staking escrow and the delegation registry hold, how the constant-product pool trades,
  and how state is encoded, hashed and proved. All paths below are under
  \<^verbatim>\<open>src/attached_assets/zbx-chain_extracted/zbx-chain/crates\<close>.

  \<^bold>\<open>How the code is translated.\<close> A struct is a record, an enum a datatype with the source's
  variants, a \<^verbatim>\<open>HashMap\<close> a map or, where the code iterates over it, an association list. Functions
  that fail return \<^verbatim>\<open>('e, 'a) res\<close> of the theory Prelude: \<^verbatim>\<open>Ok\<close>, \<^verbatim>\<open>Err\<close> with the source's error, or
  \<^verbatim>\<open>Panic\<close> for an index out of bounds, a failed \<^verbatim>\<open>expect\<close> or a division by zero. Methods on
  \<^verbatim>\<open>&mut self\<close> return the new state next to their result, so that what a failing call leaves behind is
  part of the model. Machine integers are natural numbers with the width in the operation
  (\<^verbatim>\<open>wrap_add 64\<close>, \<^verbatim>\<open>checked_mul 128\<close>, \<^verbatim>\<open>sat_add 128\<close>); bytes, addresses and hashes are words.
  Hashing, signature recovery and BLS verification come from external crates and are parameters.

  \<^bold>\<open>Theories and the code they model.\<close>
  \<^item> Prelude: results, fixed-width arithmetic, slices, big-endian bytes, shared lemmas.
  \<^item> Uint: \<^verbatim>\<open>zbx-primitives/src/uint.rs\<close>, limb arithmetic of \<^verbatim>\<open>U256\<close> with its value semantics.
  \<^item> Fees: \<^verbatim>\<open>zbx-fee/src/base_fee.rs\<close> and \<^verbatim>\<open>zbx-rewards\<close>; the EIP-1559 base fee, the halving schedule,
    the split of rewards and fees.
  \<^item> Amm, Lp\_Token: \<^verbatim>\<open>zbx-pool\<close>; swap, add and remove liquidity behind the guards of \<^verbatim>\<open>security.rs\<close>, the
    integer square root, and the liquidity token ledger.
  \<^item> Rlp: \<^verbatim>\<open>zbx-rlp\<close>; the stream encoder with its patched list headers and the zero-copy decoder.
  \<^item> Validators, Escrow, Delegation, Slashing: \<^verbatim>\<open>zbx-staking\<close>; registration, election, rewards,
    unbonding, delegation records, slash detection and application.
  \<^item> Slash\_Registry, Slash\_Pipeline: \<^verbatim>\<open>slashing_v2.rs\<close>, \<^verbatim>\<open>pipeline.rs\<close> and \<^verbatim>\<open>persistence.rs\<close> of \<^verbatim>\<open>zbx-staking\<close>; the
    life of a slash record, its appeal transaction, the block tick that burns stake, restarts from the store, and crashes within a
    tick: \<open>tick_writes\<close> lists the records a tick writes in order, and a crash leaves a prefix of them for the replay.
  \<^item> Mempool: \<^verbatim>\<open>zbx-mempool\<close>; admission, replacement, promotion, selection, pruning.
  \<^item> Votes, HotStuff2: \<^verbatim>\<open>zbx-consensus/src/vote.rs\<close> and \<^verbatim>\<open>hotstuff2.rs\<close>; vote accumulation, certificates,
    timeouts, equivocation evidence and the handlers of the two-phase engine.
  \<^item> Block\_Header: \<^verbatim>\<open>zbx-types/src/block.rs\<close>; canonical encoding and hash of a header, its validation against
    the parent, and chains of validated headers.
  \<^item> Block\_Store, Safety\_Rules, Pacemaker, HotStuff: \<^verbatim>\<open>block_store.rs\<close>, \<^verbatim>\<open>safety_rules.rs\<close>, \<^verbatim>\<open>liveness.rs\<close> with
    \<^verbatim>\<open>pacemaker.rs\<close>, and \<^verbatim>\<open>hotstuff.rs\<close> of \<^verbatim>\<open>zbx-consensus\<close>; the engine the node runs calls the voting rules before
    it signs, keeps recent blocks in the store, and counts votes in the accumulators of Votes.
  \<^item> Merkle, Receipts: \<^verbatim>\<open>zbx-crypto/src/merkle.rs\<close>, \<^verbatim>\<open>zbx-types/src/receipt.rs\<close>, \<^verbatim>\<open>zbx-execution/src/bloom.rs\<close>; the
    binary Merkle tree and its proofs, log blooms, receipt hashes and the receipts root.
  \<^item> Executor, Exec\_Props: \<^verbatim>\<open>zbx-execution/src/executor.rs\<close> over the accounts of \<^verbatim>\<open>zbx-types/src/account.rs\<close>; the state
    view, one transaction from its checks over the EVM run to settlement, and a block with receipts, fees and reward.
  \<^item> Scheduler: \<^verbatim>\<open>zbx-execution/src/scheduler.rs\<close>; access sets and the assignment of transactions to lanes.
  \<^item> Nibbles, Trie\_Node, Trie: \<^verbatim>\<open>zbx-trie\<close>; nibble views and the hex-prefix code, the node codec, and the
    Merkle Patricia trie over a node store with its proofs.
  \<^item> Patricia, Trie\_Correct: the specification of the trie as a tree of keys, the canonical form, and
    the proof that the stored trie refines it.
  \<^item> State\_Root: \<^verbatim>\<open>zbx-state/src/mpt.rs\<close>; the RLP of an account, storage roots and the state root, in memory and
    over a node store.
  \<^item> Evm\_Word, Evm\_Arith: \<^verbatim>\<open>zbx-evm/src/stack.rs\<close>; the 256-bit operations on byte arrays and their
    agreement with arithmetic modulo \<open>2 ^ 256\<close> and on two's complement.
  \<^item> Evm\_Host, Evm: \<^verbatim>\<open>gas.rs\<close>, \<^verbatim>\<open>opcodes.rs\<close>, \<^verbatim>\<open>memory.rs\<close>, \<^verbatim>\<open>host.rs\<close> and \<^verbatim>\<open>interpreter.rs\<close> of \<^verbatim>\<open>zbx-evm\<close>; the
    interpreter is a state and exception monad over a record, its host a record of functions, and
    \<^verbatim>\<open>run\<close> a fixed point through which calls and creations recurse.
  \<^item> Evm\_Frame, Evm\_Gas, Evm\_Safety, Evm\_Types: calculi over that monad (relations kept, gas added,
    triples, types), the contracts \<^verbatim>\<open>undo_host\<close> and \<^verbatim>\<open>typed_host\<close> of the host with their interpretation on
    the crate's in-memory host, and the theorems about every run.

  \<^bold>\<open>What the lemmas show.\<close> Safety of both engines (at most one vote per round, certified quorums and commits,
  accountable conflicts and forks, also over restarts from a written file), refinement of a finite map by the trie with
  roots that depend on the content only and proofs that are sound and complete, what the state root, the receipts root
  and the hash of a header commit to, conservation of the supply by a block, its replay protection and the exactness
  of its receipts, conservation in the escrow, the liquidity token and the delegation registry, one burn per slash
  record over crashes and replays, the exact effect of burns and replays, well-formedness of the pool and the validator set along every run, order independence of the election,
  completeness of the schedule, bounds of the base fee, the rewards and the emission, round trips of the codecs, and
  freedom from panics of the RLP decoder. For the EVM: every run ends and accounts for its gas, static frames change
  nothing, failed calls are undone, jumps land on instructions, values keep their types, and the arithmetic is exact.
  Side conditions stand in the text before each property: the trie theorems are about values that are not empty, those on blocks about EVM
  transactions over a state without ZVM accounts, those on the commits of the engine about runs without a swap of its validator set.
  Lemmas named in the manifest's findings exhibit concrete inputs on which the code departs from its documentation.

  \<^bold>\<open>Bounds, loops, hypotheses.\<close> Loops are structural recursion or have a measure; the promotion loop
  of the pool has the code's own bound of 256 steps. The trie descends through hashes, which could
  form a cycle in a corrupt store, so its traversals are \<^verbatim>\<open>partial_function (option)\<close> and the theorems
  prove that they return. Trie theorems assume that the hash is injective on the encodings that
  occur and never yields the empty root (\<^verbatim>\<open>collision_free\<close>); the theorems on receipts and headers speak of a collision
  on the bytes they hash. The interpreter's loop is a
  \<^verbatim>\<open>partial_function (option)\<close> too; it is proved defined on every state by the gas left and the distance
  to the end of the code. Parameters are the hash functions, signature recovery and the BLS operations, the precompiled
  contracts, the run of the ZVM, and in the executor the state root and the transactions root. Arithmetic that the code does not
  check wraps, as in the release profile of the workspace.

  \<^bold>\<open>Not modelled.\<close> Networking, RPC, storage engines, command line and telemetry are input and output
  around the modelled state; a write of the slashing tick that fails ends the node, so it is a crash after the
  writes before it; the other writes of the pipeline, and the mark of a replay that is skipped, whose failure the code ignores, are taken to
  succeed. Cryptography is a parameter. The ZVM duplicates the EVM with its own opcodes and is a parameter of the executor, as
  are the precompiled contracts of the EVM. The finality tracker, the epoch manager and the proposer selection of
  \<^verbatim>\<open>zbx-consensus\<close> are not on the path of the running engine; the parallel executor returns empty differences (a finding)
  and leaves nothing to verify. Staking transactions, governance, bridge, oracle and application crates are listed in the manifest as open.
\<close>

end
